(* ===== verification/Prelude.thy ===== *)
theory Prelude
  imports Main "HOL-Library.Sublist" "HOL-Library.Char_ord" "HOL-Library.List_Lexorder" "HOL-Library.Product_Lexorder"
begin

text \<open>
  Shared vocabulary of the development: time and leases, SQL comparisons with NULL, Python
  dictionaries and JSON values, database tables as lists of rows with the two statements the
  backend uses on them (a lookup by key and \<open>UPDATE .. WHERE\<close>), runs of a step function, and
  the two interfaces that several components implement:

  \<^item> \<open>step_system\<close>: a state with a step function and an invariant that every step keeps;
  \<^item> \<open>lease_cell\<close>: a resource that at most one owner holds until its lease runs out.
\<close>

section \<open>Lemma collections\<close>

named_theorems table_simps \<open>facts about tables: lookup, UPDATE .. WHERE, keys\<close>
named_theorems lease_simps \<open>facts about expiry times and NULL comparisons\<close>

section \<open>Time and leases\<close>

text \<open>
  A \<open>datetime\<close> is an integer number of microseconds, Python's resolution. A nullable timestamp
  column is an option; a SQL comparison with NULL is not true.
\<close>

type_synonym time = int

definition seconds :: "int \<Rightarrow> time" where
  "seconds n = n * 1000000"

definition milliseconds :: "int \<Rightarrow> time" where
  "milliseconds n = n * 1000"

definition sql_le :: "time option \<Rightarrow> time \<Rightarrow> bool" where
  "sql_le e t = (case e of None \<Rightarrow> False | Some x \<Rightarrow> x \<le> t)"

definition sql_gt :: "time option \<Rightarrow> time \<Rightarrow> bool" where
  "sql_gt e t = (case e of None \<Rightarrow> False | Some x \<Rightarrow> t < x)"

definition lease_until :: "time \<Rightarrow> int \<Rightarrow> time" where
  "lease_until now n = now + seconds (max 1 n)"

lemma sql_le_simps [simp, lease_simps]: "\<not> sql_le None t" "sql_le (Some x) t \<longleftrightarrow> x \<le> t"
  by (simp_all add: sql_le_def)

lemma sql_gt_simps [simp, lease_simps]: "\<not> sql_gt None t" "sql_gt (Some x) t \<longleftrightarrow> t < x"
  by (simp_all add: sql_gt_def)

lemma sql_gt_not_le: "sql_gt e t \<Longrightarrow> \<not> sql_le e t"
  by (cases e) auto

lemma sql_gt_SomeE:
  assumes "sql_gt e t"
  obtains x where "e = Some x" "t < x"
  using assms by (cases e) auto

lemma lease_until_gt [simp, lease_simps]: "now < lease_until now n"
  by (simp add: lease_until_def seconds_def)

lemma lease_until_ge_second: "now + seconds 1 \<le> lease_until now n"
  by (simp add: lease_until_def seconds_def)

section \<open>Strings, dictionaries, JSON\<close>

text \<open>
  Identifiers and labels are \<open>string\<close>s; free text that may hold any character is a list of code
  points, whose length is what Python and SQL count. A JSON column or a Python value of type \<open>Any\<close>. A dict keeps the order of its insertions, so it
  is an association list; assigning to a key that exists keeps its position.
\<close>

type_synonym utext = "nat list"

datatype json =
    JNull
  | JBool bool
  | JInt int
  | JStr string
  | JList "json list"
  | JObj "(string \<times> json) list"

type_synonym dict = "(string \<times> json) list"

fun dict_put :: "'k \<Rightarrow> 'v \<Rightarrow> ('k \<times> 'v) list \<Rightarrow> ('k \<times> 'v) list" where
  "dict_put k v [] = [(k, v)]"
| "dict_put k v ((k', v') # d) = (if k' = k then (k, v) # d else (k', v') # dict_put k v d)"

definition dict_get :: "'k \<Rightarrow> ('k \<times> 'v) list \<Rightarrow> 'v option" where
  "dict_get k d = map_of d k"

definition dict_pop :: "'k \<Rightarrow> ('k \<times> 'v) list \<Rightarrow> ('k \<times> 'v) list" where
  "dict_pop k d = filter (\<lambda>p. fst p \<noteq> k) d"

definition dict_update :: "('k \<times> 'v) list \<Rightarrow> ('k \<times> 'v) list \<Rightarrow> ('k \<times> 'v) list" where
  "dict_update d e = fold (\<lambda>(k, v) acc. dict_put k v acc) e d"

lemma map_of_dict_put [simp]: "map_of (dict_put k v d) = (map_of d)(k \<mapsto> v)"
  by (induction d) (auto simp: fun_eq_iff)

lemma dict_get_put [simp]: "dict_get k' (dict_put k v d) = (if k' = k then Some v else dict_get k' d)"
  by (simp add: dict_get_def)

lemma dict_get_pop [simp]: "dict_get k' (dict_pop k d) = (if k' = k then None else dict_get k' d)"
  unfolding dict_get_def dict_pop_def by (induction d) auto

lemma map_of_dict_update: "map_of (dict_update d e) = map_of d ++ map_of (rev e)"
  unfolding dict_update_def
proof (induction e arbitrary: d)
  case Nil
  show ?case by simp
next
  case (Cons p e)
  obtain k v where [simp]: "p = (k, v)" by (cases p)
  show ?case
    by (simp add: Cons.IH map_add_assoc [symmetric] map_add_upd map_of_append)
       (simp add: map_add_def fun_eq_iff split: option.split)
qed

lemma set_dict_put: "q \<in> set (dict_put k v d) \<Longrightarrow> q = (k, v) \<or> q \<in> set d"
  by (induction d) (auto split: if_splits)

lemma keys_dict_put: "set (map fst (dict_put k v d)) = insert k (set (map fst d))"
proof (induction d)
  case (Cons p d)
  then show ?case by (cases p) (auto simp: insert_commute)
qed simp

lemma distinct_dict_put: "distinct (map fst d) \<Longrightarrow> distinct (map fst (dict_put k v d))"
proof (induction d)
  case (Cons p d)
  then show ?case using keys_dict_put [of k v d] by (cases p) auto
qed simp

text \<open>\<open>value or default\<close> on a nullable string: the empty string is falsy as well.\<close>

definition str_or :: "string option \<Rightarrow> string \<Rightarrow> string" where
  "str_or s dflt = (case s of None \<Rightarrow> dflt | Some x \<Rightarrow> if x = [] then dflt else x)"

definition opt_dict :: "dict option \<Rightarrow> dict" where
  "opt_dict d = (case d of None \<Rightarrow> [] | Some x \<Rightarrow> x)"

text \<open>\<open>dict(x or {}) or None\<close>: an empty dictionary is stored as NULL.\<close>

definition dict_or_null :: "dict option \<Rightarrow> dict option" where
  "dict_or_null d = (if opt_dict d = [] then None else Some (opt_dict d))"

definition char_limit :: "nat \<Rightarrow> string \<Rightarrow> string" where
  "char_limit n s = take n s"

lemma length_char_limit: "length (char_limit n s) \<le> n"
  by (simp add: char_limit_def)

text \<open>Truth, items and text of a Python value; \<open>str_of\<close> is \<open>str(x)\<close> of a value that is not a string.\<close>

definition json_truthy :: "json \<Rightarrow> bool" where
  "json_truthy v =
     (case v of JNull \<Rightarrow> False | JBool b \<Rightarrow> b | JInt n \<Rightarrow> n \<noteq> 0 | JStr s \<Rightarrow> s \<noteq> [] | JList l \<Rightarrow> l \<noteq> [] | JObj d \<Rightarrow> d \<noteq> [])"

definition json_get :: "string \<Rightarrow> dict \<Rightarrow> json" where
  "json_get k d = (case dict_get k d of None \<Rightarrow> JNull | Some v \<Rightarrow> v)"

definition json_or :: "json \<Rightarrow> json \<Rightarrow> json" where
  "json_or a b = (if json_truthy a then a else b)"

definition json_str :: "(json \<Rightarrow> string) \<Rightarrow> json \<Rightarrow> string" where
  "json_str str_of v = (case v of JStr s \<Rightarrow> s | _ \<Rightarrow> str_of v)"

text \<open>\<open>tuple(v)\<close>: the elements of a list, the characters of a string, the keys of a dict, else a \<open>TypeError\<close>.\<close>

definition json_tuple :: "json \<Rightarrow> json list option" where
  "json_tuple v =
     (case v of
        JList l \<Rightarrow> Some l
      | JStr s \<Rightarrow> Some (map (\<lambda>c. JStr [c]) s)
      | JObj d \<Rightarrow> Some (map (JStr \<circ> fst) d)
      | _ \<Rightarrow> None)"

section \<open>Results\<close>

definition sum_bind :: "'e + 'a \<Rightarrow> ('a \<Rightarrow> 'e + 'b) \<Rightarrow> 'e + 'b" where
  "sum_bind r f = (case r of Inl e \<Rightarrow> Inl e | Inr x \<Rightarrow> f x)"

fun sum_map :: "('a \<Rightarrow> 'e + 'b) \<Rightarrow> 'a list \<Rightarrow> 'e + 'b list" where
  "sum_map f [] = Inr []"
| "sum_map f (x # xs) = sum_bind (f x) (\<lambda>y. sum_bind (sum_map f xs) (\<lambda>ys. Inr (y # ys)))"

lemma sum_bind_simps [simp]: "sum_bind (Inl e) f = Inl e" "sum_bind (Inr x) f = f x"
  by (simp_all add: sum_bind_def)

lemma sum_bind_Inr: "sum_bind r f = Inr y \<longleftrightarrow> (\<exists>x. r = Inr x \<and> f x = Inr y)"
  by (cases r) auto

lemma sum_map_Inr: "sum_map f xs = Inr ys \<longleftrightarrow> list_all2 (\<lambda>x y. f x = Inr y) xs ys"
  by (induction xs arbitrary: ys) (auto simp: sum_bind_Inr list_all2_Cons1)

lemma sum_map_mem: "sum_map f xs = Inr ys \<Longrightarrow> y \<in> set ys \<Longrightarrow> \<exists>x\<in>set xs. f x = Inr y"
  by (induction xs arbitrary: ys) (auto simp: sum_bind_Inr)

text \<open>\<open>tuple(dict.fromkeys(xs))\<close>: duplicates dropped, first occurrences kept in order.\<close>

definition fromkeys :: "'a list \<Rightarrow> 'a list" where
  "fromkeys xs = rev (remdups (rev xs))"

lemma set_fromkeys [simp]: "set (fromkeys xs) = set xs"
  by (simp add: fromkeys_def)

section \<open>Tables\<close>

definition find_by :: "('r \<Rightarrow> 'k) \<Rightarrow> 'k \<Rightarrow> 'r list \<Rightarrow> 'r option" where
  "find_by key k t = find (\<lambda>r. key r = k) t"

definition update_where :: "('r \<Rightarrow> bool) \<Rightarrow> ('r \<Rightarrow> 'r) \<Rightarrow> 'r list \<Rightarrow> 'r list" where
  "update_where P f t = map (\<lambda>r. if P r then f r else r) t"

definition affected :: "('r \<Rightarrow> bool) \<Rightarrow> 'r list \<Rightarrow> nat" where
  "affected P t = length (filter P t)"

lemma find_by_simps [simp, table_simps]:
  "find_by key k [] = None"
  "find_by key k (r # t) = (if key r = k then Some r else find_by key k t)"
  by (simp_all add: find_by_def)

lemma find_by_SomeD: "find_by key k t = Some r \<Longrightarrow> r \<in> set t \<and> key r = k"
  by (induction t) (auto split: if_splits)

lemma find_by_None_iff: "find_by key k t = None \<longleftrightarrow> k \<notin> key ` set t"
  by (induction t) auto

lemma find_by_unique:
  "distinct (map key t) \<Longrightarrow> r \<in> set t \<Longrightarrow> key r = k \<Longrightarrow> find_by key k t = Some r"
  by (induction t) force+

lemma find_by_eq_SomeI:
  "distinct (map key t) \<Longrightarrow> find_by key k t = Some r \<longleftrightarrow> r \<in> set t \<and> key r = k"
  using find_by_SomeD find_by_unique by metis

lemma find_by_append [table_simps]:
  "find_by key k (t @ u) = (case find_by key k t of None \<Rightarrow> find_by key k u | Some r \<Rightarrow> Some r)"
  by (induction t) auto

lemma update_where_simps [simp, table_simps]:
  "update_where P f [] = []"
  "update_where P f (r # t) = (if P r then f r else r) # update_where P f t"
  by (simp_all add: update_where_def)

lemma length_update_where [simp, table_simps]: "length (update_where P f t) = length t"
  by (simp add: update_where_def)

lemma set_update_where: "set (update_where P f t) = (\<lambda>r. if P r then f r else r) ` set t"
  by (simp add: update_where_def)

lemma map_update_where [table_simps]:
  "(\<And>r. r \<in> set t \<Longrightarrow> P r \<Longrightarrow> g (f r) = g r) \<Longrightarrow> map g (update_where P f t) = map g t"
  by (induction t) auto

lemma update_where_none: "(\<And>r. r \<in> set t \<Longrightarrow> \<not> P r) \<Longrightarrow> update_where P f t = t"
  by (induction t) auto

lemma find_by_update_where:
  "(\<And>r. r \<in> set t \<Longrightarrow> P r \<Longrightarrow> key (f r) = key r) \<Longrightarrow>
   find_by key k (update_where P f t) =
     (case find_by key k t of None \<Rightarrow> None | Some r \<Rightarrow> Some (if P r then f r else r))"
  by (induction t) auto

lemma affected_pos [table_simps]: "0 < affected P t \<longleftrightarrow> (\<exists>r\<in>set t. P r)"
  by (auto simp: affected_def filter_empty_conv)

lemma affected_zero [table_simps]: "affected P t = 0 \<longleftrightarrow> (\<forall>r\<in>set t. \<not> P r)"
  by (auto simp: affected_def filter_empty_conv)

lemma affected_key_le_one:
  assumes "distinct (map key t)" and "\<And>r. P r \<Longrightarrow> key r = k"
  shows "affected P t \<le> 1"
  using assms(1)
proof (induction t)
  case (Cons r t)
  have "filter P t = []" if "P r"
    using Cons.prems that assms(2) by (force simp: filter_empty_conv)
  with Cons show ?case by (auto simp: affected_def)
qed (simp add: affected_def)

lemma filter_update_where_keep:
  "(\<And>r. r \<in> set t \<Longrightarrow> P r \<Longrightarrow> Q (f r) = Q r) \<Longrightarrow>
   map g (filter Q (update_where P f t)) =
     map (\<lambda>r. g (if P r then f r else r)) (filter Q t)"
  by (induction t) auto

text \<open>The first row of \<open>ORDER BY\<close>: a stable sort, then the head.\<close>

definition first_by :: "('r \<Rightarrow> 'o::linorder) \<Rightarrow> 'r list \<Rightarrow> 'r option" where
  "first_by key t = (case sort_key key t of [] \<Rightarrow> None | r # _ \<Rightarrow> Some r)"

lemma first_by_None [simp]: "first_by key t = None \<longleftrightarrow> t = []"
  by (metis first_by_def length_0_conv length_sort list.case(1,2) neq_Nil_conv option.distinct(1))

lemma first_by_SomeD:
  assumes "first_by key t = Some r"
  shows "r \<in> set t" and "\<forall>x\<in>set t. key r \<le> key x"
proof -
  from assms obtain rest where s: "sort_key key t = r # rest"
    by (auto simp: first_by_def split: list.splits)
  then show "r \<in> set t" by (metis list.set_intros(1) set_sort)
  from s have "sorted (map key (r # rest))" by (metis sorted_sort_key)
  then have "\<forall>x\<in>set (r # rest). key r \<le> key x" by auto
  then show "\<forall>x\<in>set t. key r \<le> key x" by (metis s set_sort)
qed

section \<open>Runs of a step function\<close>

fun run_steps :: "('e \<Rightarrow> 's \<Rightarrow> 's) \<Rightarrow> 'e list \<Rightarrow> 's \<Rightarrow> 's" where
  "run_steps step [] s = s"
| "run_steps step (e # es) s = run_steps step es (step e s)"

lemma run_steps_append: "run_steps step (es @ fs) s = run_steps step fs (run_steps step es s)"
  by (induction es arbitrary: s) auto

text \<open>
  The contract every component of the backend keeps: its operations, in any order and by any
  process, preserve its invariant. \<open>good\<close> is what the component asks of an event (a caller's
  effect inside the transaction has to be well behaved). \<open>kept\<close> is a fact about a state that no
  step undoes, \<open>le\<close> an order along which every step moves.
\<close>

locale step_system =
  fixes step :: "'e \<Rightarrow> 's \<Rightarrow> 's"
    and good :: "'e \<Rightarrow> bool"
    and inv :: "'s \<Rightarrow> bool"
  assumes inv_step: "good e \<Longrightarrow> inv s \<Longrightarrow> inv (step e s)"
begin

lemma inv_run: "list_all good es \<Longrightarrow> inv s \<Longrightarrow> inv (run_steps step es s)"
  by (induction es arbitrary: s) (auto intro: inv_step)

lemma stable_run:
  assumes "\<And>e s. good e \<Longrightarrow> inv s \<Longrightarrow> kept s \<Longrightarrow> kept (step e s)"
    and "list_all good es" and "inv s" and "kept s"
  shows "kept (run_steps step es s)"
  using assms(2-4)
  by (induction es arbitrary: s) (auto intro: inv_step assms(1))

lemma chain_run:
  assumes "\<And>e s. good e \<Longrightarrow> inv s \<Longrightarrow> le s (step e s)" and "\<And>s. le s s"
    and "\<And>a b c. le a b \<Longrightarrow> le b c \<Longrightarrow> le a c" and "list_all good es" and "inv s"
  shows "le s (run_steps step es s)"
  using assms(4,5)
proof (induction es arbitrary: s)
  case (Cons e es)
  then have "le (step e s) (run_steps step es (step e s))" by (auto intro: inv_step)
  with assms(1) [of e s] assms(3) Cons.prems show ?case by auto
qed (simp add: assms(2))

end

section \<open>Leases\<close>

text \<open>
  A request is a time, a lease length in seconds and an owner. \<open>grants\<close> runs a sequence of
  requests against a leased resource and keeps those that were granted.
\<close>

type_synonym 'o lease_request = "time \<times> int \<times> 'o"

fun grants :: "('o lease_request \<Rightarrow> 's \<Rightarrow> bool \<times> 's) \<Rightarrow> 's \<Rightarrow> 'o lease_request list \<Rightarrow> 'o lease_request list" where
  "grants acquire s [] = []"
| "grants acquire s (q # qs) =
     (let (ok, s') = acquire q s in (if ok then [q] else []) @ grants acquire s' qs)"

definition no_overlap :: "'o lease_request \<Rightarrow> 'o lease_request \<Rightarrow> bool" where
  "no_overlap p q = (case p of (t, d, w) \<Rightarrow> case q of (t', d', w') \<Rightarrow> w' = w \<or> lease_until t d \<le> t')"

locale lease_cell =
  fixes ok :: "'s \<Rightarrow> bool"
    and holder :: "'s \<Rightarrow> time \<Rightarrow> 'o option"
    and acquire :: "'o lease_request \<Rightarrow> 's \<Rightarrow> bool \<times> 's"
  assumes acquire_ok: "ok s \<Longrightarrow> ok (snd (acquire q s))"
    and acquire_blocked:
      "ok s \<Longrightarrow> holder s now = Some w \<Longrightarrow> w \<noteq> w' \<Longrightarrow> \<not> fst (acquire (now, d, w') s)"
    and acquire_granted:
      "ok s \<Longrightarrow> fst (acquire (now, d, w) s) \<Longrightarrow> now \<le> t \<Longrightarrow> t < lease_until now d \<Longrightarrow>
       holder (snd (acquire (now, d, w) s)) t = Some w"
    and acquire_refused:
      "ok s \<Longrightarrow> \<not> fst (acquire (now, d, w) s) \<Longrightarrow> now \<le> t \<Longrightarrow>
       holder (snd (acquire (now, d, w) s)) t = holder s t"
begin

lemma next_grant_outside_window:
  assumes "ok s" and "sorted (map fst qs)" and "\<And>q. q \<in> set qs \<Longrightarrow> lo \<le> fst q"
    and "\<And>u. lo \<le> u \<Longrightarrow> u < e \<Longrightarrow> holder s u = Some w"
    and "grants acquire s qs = q' # rest"
  shows "snd (snd q') = w \<or> e \<le> fst q'"
  using assms
proof (induction qs arbitrary: s lo)
  case (Cons q qs)
  obtain now d w' where q: "q = (now, d, w')" by (cases q)
  have le: "lo \<le> now" using Cons.prems(3) [of q] q by simp
  show ?case
  proof (cases "fst (acquire q s)")
    case True
    with Cons.prems(5) have "q' = q" by (auto simp: Let_def split: prod.splits)
    moreover have "holder s now = Some w" if "now < e"
      using Cons.prems(4) le that by blast
    ultimately show ?thesis
      using acquire_blocked [of s now w w' d] Cons.prems(1) True q by force
  next
    case False
    define s' where "s' = snd (acquire q s)"
    have "grants acquire s' qs = q' # rest"
      using Cons.prems(5) False by (auto simp: Let_def s'_def split: prod.splits)
    moreover have "holder s' u = Some w" if "now \<le> u" "u < e" for u
      using acquire_refused [of s now d w' u] Cons.prems(1) False q that le Cons.prems(4) by (auto simp: s'_def)
    ultimately show ?thesis
      using Cons.IH [of s' now] Cons.prems(1,2) acquire_ok [of s q] q by (auto simp: s'_def)
  qed
qed simp

theorem grants_never_overlap:
  assumes "ok s" and "sorted (map fst qs)"
  shows "successively no_overlap (grants acquire s qs)"
  using assms
proof (induction qs arbitrary: s)
  case (Cons q qs)
  obtain now d w where q: "q = (now, d, w)" by (cases q)
  define s' where "s' = snd (acquire q s)"
  have ok': "ok s'" using Cons.prems(1) by (auto simp: s'_def acquire_ok)
  with Cons have IH: "successively no_overlap (grants acquire s' qs)" by simp
  show ?case
  proof (cases "fst (acquire q s)")
    case False
    with IH show ?thesis by (auto simp: Let_def s'_def split: prod.splits)
  next
    case True
    have "no_overlap q p" if "grants acquire s' qs = p # rest" for p rest
    proof -
      have "snd (snd p) = w \<or> lease_until now d \<le> fst p"
        using that Cons.prems ok' True q acquire_granted [of s now d w]
        by (intro next_grant_outside_window [of s' qs now "lease_until now d" w p rest])
           (auto simp: s'_def)
      then show ?thesis by (cases p) (auto simp: no_overlap_def q)
    qed
    with IH have "successively no_overlap (q # grants acquire s' qs)"
      by (cases "grants acquire s' qs") auto
    with True show ?thesis by (auto simp: Let_def s'_def split: prod.splits)
  qed
qed simp

end

end
