(* ===== verification/Chat_Db.thy ===== *)
theory Chat_Db
  imports Prelude
begin

text \<open>
  The chat tables of \<open>core/db/models/chat.py\<close>: \<open>ChatSession\<close>, \<open>ChatMessage\<close>, \<open>ChatRun\<close> and the
  append-only \<open>ChatRunOperation\<close>, one record per table with the columns the backend reads or
  writes, and one record \<open>chat_db\<close> holding the tables. Column names carry a prefix per table
  (\<open>sess_\<close>, \<open>msg_\<close>, \<open>run_\<close>, \<open>op_\<close>); an optional value is a nullable column. The unique and
  foreign-key constraints are checked by \<open>insert_run\<close> and \<open>insert_message\<close>, which return
  \<open>None\<close> where the database raises an \<open>IntegrityError\<close>. A whole transaction of the backend is one
  function on \<open>chat_db\<close>; a rollback is the unchanged argument.

  The record is extended by the tables of other components (tool effects, steer queue), so every
  operation is stated on the record scheme.
\<close>

section \<open>Rows\<close>

datatype run_status =
    Run_pending
  | Run_running
  | Run_needs_attention
  | Run_completed
  | Run_failed
  | Run_cancelled

record chat_session =
  sess_chat_id :: string
  sess_user_id :: string
  sess_title :: string
  sess_message_count :: int
  sess_next_message_seq :: "int option"
  sess_updated_at :: time
  sess_last_message_at :: "time option"

record chat_message =
  msg_id :: string
  msg_chat_id :: string
  msg_role :: string
  msg_chat_seq :: int
  msg_content :: utext
  msg_model :: "string option"
  msg_extra_data :: dict
  msg_created_at :: time

record chat_run =
  run_id :: string
  run_chat_id :: string
  run_user_id :: string
  run_message_id :: string
  run_user_message_id :: "string option"
  run_user_chat_seq :: "int option"
  run_assistant_chat_seq :: "int option"
  run_writer_slot :: "string option"
  run_status :: run_status
  run_request_payload :: "dict option"
  run_last_event_offset :: int
  run_error_message :: "string option"
  run_usage :: "dict option"
  run_phase :: string
  run_lease_owner :: "string option"
  run_lease_expires_at :: "time option"
  run_operation_seq :: int
  run_snapshot_version :: int
  run_recovery_snapshot :: "dict option"
  run_last_operation_safety :: string
  run_failure_reason :: "string option"
  run_updated_at :: time
  run_created_at :: time
  run_started_at :: "time option"
  run_completed_at :: "time option"

record chat_run_operation =
  op_run_id :: string
  op_seq :: int
  op_type :: string
  op_phase :: string
  op_safety :: string
  op_owner :: string
  op_snapshot_version :: int
  op_payload :: "dict option"

record chat_db =
  sessions :: "chat_session list"
  messages :: "chat_message list"
  runs :: "chat_run list"
  operations :: "chat_run_operation list"

section \<open>Constraints\<close>

definition find_run :: "string \<Rightarrow> 'z chat_db_scheme \<Rightarrow> chat_run option" where
  "find_run rid db = find_by run_id rid (runs db)"

definition find_session :: "string \<Rightarrow> 'z chat_db_scheme \<Rightarrow> chat_session option" where
  "find_session cid db = find_by sess_chat_id cid (sessions db)"

definition find_message :: "string \<Rightarrow> 'z chat_db_scheme \<Rightarrow> chat_message option" where
  "find_message mid db = find_by msg_id mid (messages db)"

text \<open>
  \<open>chat_runs\<close>: primary key, foreign key to the session, the check on the writer slot, and
  \<open>uq_chat_runs_writer_slot\<close>, which ignores NULL slots.
\<close>

definition slot_taken :: "string \<Rightarrow> string \<Rightarrow> 'z chat_db_scheme \<Rightarrow> bool" where
  "slot_taken cid slot db \<longleftrightarrow>
     (\<exists>r\<in>set (runs db). run_chat_id r = cid \<and> run_writer_slot r = Some slot)"

definition insert_run :: "chat_run \<Rightarrow> 'z chat_db_scheme \<Rightarrow> 'z chat_db_scheme option" where
  "insert_run row db =
     (if find_run (run_id row) db = None
         \<and> find_session (run_chat_id row) db \<noteq> None
         \<and> run_writer_slot row \<in> {None, Some ''main''}
         \<and> (case run_writer_slot row of None \<Rightarrow> True | Some s \<Rightarrow> \<not> slot_taken (run_chat_id row) s db)
      then Some (db\<lparr>runs := runs db @ [row]\<rparr>) else None)"

text \<open>\<open>chat_messages\<close>: primary key, foreign key, role check, content length, \<open>uq_chat_messages_chat_seq\<close>.\<close>

definition insert_message :: "chat_message \<Rightarrow> 'z chat_db_scheme \<Rightarrow> 'z chat_db_scheme option" where
  "insert_message m db =
     (if find_message (msg_id m) db = None
         \<and> find_session (msg_chat_id m) db \<noteq> None
         \<and> msg_role m \<in> {''user'', ''assistant'', ''system'', ''tool''}
         \<and> length (msg_content m) \<le> 100000
         \<and> (msg_chat_id m, msg_chat_seq m) \<notin> (\<lambda>x. (msg_chat_id x, msg_chat_seq x)) ` set (messages db)
      then Some (db\<lparr>messages := messages db @ [m]\<rparr>) else None)"

section \<open>Well-formed databases\<close>

definition slot_keys :: "chat_run list \<Rightarrow> (string \<times> string) list" where
  "slot_keys t = map (\<lambda>r. (run_chat_id r, the (run_writer_slot r)))
                   (filter (\<lambda>r. run_writer_slot r \<noteq> None) t)"

definition run_ops :: "string \<Rightarrow> chat_run_operation list \<Rightarrow> int list" where
  "run_ops rid ops = map op_seq (filter (\<lambda>x. op_run_id x = rid) ops)"

text \<open>
  \<open>chat_db_ok\<close>: the keys are unique, no chat has two holders of one writer slot, and the journal
  of every run is gap-free: its operations are numbered 1, 2, .., \<open>operation_seq\<close> in the order
  they were written, and no operation belongs to an unknown run.
\<close>

definition runs_ok :: "chat_run list \<Rightarrow> bool" where
  "runs_ok t \<longleftrightarrow> distinct (map run_id t) \<and> distinct (slot_keys t)"

definition journal_ok :: "chat_run list \<Rightarrow> chat_run_operation list \<Rightarrow> bool" where
  "journal_ok t ops \<longleftrightarrow>
     (\<forall>r\<in>set t. 0 \<le> run_operation_seq r \<and> run_ops (run_id r) ops = [1..run_operation_seq r])
     \<and> op_run_id ` set ops \<subseteq> run_id ` set t"

definition chat_db_ok :: "'z chat_db_scheme \<Rightarrow> bool" where
  "chat_db_ok db \<longleftrightarrow> runs_ok (runs db) \<and> journal_ok (runs db) (operations db)"

lemma chat_db_okD:
  assumes "chat_db_ok db"
  shows "distinct (map run_id (runs db))" and "distinct (slot_keys (runs db))"
    and "runs_ok (runs db)" and "journal_ok (runs db) (operations db)"
  using assms by (auto simp: chat_db_ok_def runs_ok_def)

lemma find_run_SomeD: "find_run rid db = Some r \<Longrightarrow> r \<in> set (runs db) \<and> run_id r = rid"
  unfolding find_run_def by (rule find_by_SomeD)

lemma find_run_unique:
  "chat_db_ok db \<Longrightarrow> r \<in> set (runs db) \<Longrightarrow> find_run (run_id r) db = Some r"
  unfolding find_run_def by (rule find_by_unique) (auto dest: chat_db_okD)

section \<open>Writing rows and operations\<close>

text \<open>
  The ORM writes the attributes of one loaded row back (\<open>put_run\<close>), or a query updates every row
  that matches (\<open>update_runs\<close>).
\<close>

definition put_run :: "chat_run \<Rightarrow> 'z chat_db_scheme \<Rightarrow> 'z chat_db_scheme" where
  "put_run row db = db\<lparr>runs := update_where (\<lambda>r. run_id r = run_id row) (\<lambda>_. row) (runs db)\<rparr>"

definition update_runs ::
  "(chat_run \<Rightarrow> bool) \<Rightarrow> (chat_run \<Rightarrow> chat_run) \<Rightarrow> 'z chat_db_scheme \<Rightarrow> 'z chat_db_scheme" where
  "update_runs P f db = db\<lparr>runs := update_where P f (runs db)\<rparr>"

text \<open>
  An update that leaves the identity, the chat, the user, the operation counter and the writer slot alone,
  or gives the slot up, keeps the database well formed.
\<close>

definition slot_safe :: "chat_run \<Rightarrow> chat_run \<Rightarrow> bool" where
  "slot_safe r r' \<longleftrightarrow> run_id r' = run_id r \<and> run_chat_id r' = run_chat_id r \<and> run_user_id r' = run_user_id r
     \<and> (run_writer_slot r' = run_writer_slot r \<or> run_writer_slot r' = None)"

lemma slot_safe_refl [simp]: "slot_safe r r"
  by (simp add: slot_safe_def)

lemma slot_keys_update_subset:
  assumes "\<And>r. r \<in> set t \<Longrightarrow> P r \<Longrightarrow> slot_safe r (f r)"
  shows "set (slot_keys (update_where P f t)) \<subseteq> set (slot_keys t)"
  using assms by (force simp: slot_keys_def set_update_where slot_safe_def)

lemma slot_keys_simps:
  "slot_keys [] = []"
  "slot_keys (r # t) =
     (case run_writer_slot r of None \<Rightarrow> slot_keys t | Some s \<Rightarrow> (run_chat_id r, s) # slot_keys t)"
  by (auto simp: slot_keys_def split: option.splits)

lemma distinct_slot_keys_update:
  assumes "\<And>r. r \<in> set t \<Longrightarrow> P r \<Longrightarrow> slot_safe r (f r)" and "distinct (slot_keys t)"
  shows "distinct (slot_keys (update_where P f t))"
  using assms
proof (induction t)
  case (Cons r t)
  have sub: "set (slot_keys (update_where P f t)) \<subseteq> set (slot_keys t)"
    using Cons.prems(1) by (intro slot_keys_update_subset) auto
  have tl: "distinct (slot_keys t)"
    using Cons.prems(2) by (auto simp: slot_keys_simps split: option.splits)
  have IH: "distinct (slot_keys (update_where P f t))" using Cons tl by auto
  have "P r \<Longrightarrow> slot_safe r (f r)" using Cons.prems(1) by simp
  with IH sub Cons.prems(2) show ?case
    by (auto simp: slot_keys_simps slot_safe_def split: option.splits)
qed (simp add: slot_keys_simps)

lemma runs_ok_update:
  assumes "runs_ok t" and "\<And>r. r \<in> set t \<Longrightarrow> P r \<Longrightarrow> slot_safe r (f r)"
  shows "runs_ok (update_where P f t)"
proof -
  have "map run_id (update_where P f t) = map run_id t"
    using assms(2) by (intro map_update_where) (auto simp: slot_safe_def)
  with assms distinct_slot_keys_update [of t P f] show ?thesis by (simp add: runs_ok_def)
qed

lemma journal_ok_update:
  assumes "journal_ok t ops"
    and "\<And>r. r \<in> set t \<Longrightarrow> P r \<Longrightarrow> run_id (f r) = run_id r \<and> run_operation_seq (f r) = run_operation_seq r"
  shows "journal_ok (update_where P f t) ops"
proof -
  have "map run_id (update_where P f t) = map run_id t"
    using assms(2) by (intro map_update_where) auto
  then have "run_id ` set (update_where P f t) = run_id ` set t" by (metis set_map)
  with assms show ?thesis by (auto simp: journal_ok_def set_update_where)
qed

lemma chat_db_ok_update_runs:
  assumes "chat_db_ok db"
    and "\<And>r. P r \<Longrightarrow> slot_safe r (f r) \<and> run_operation_seq (f r) = run_operation_seq r"
  shows "chat_db_ok (update_runs P f db)"
  using assms unfolding chat_db_ok_def update_runs_def
  by (auto intro!: runs_ok_update journal_ok_update) (auto simp: slot_safe_def)

lemma put_run_as_update:
  assumes "chat_db_ok db" and "r \<in> set (runs db)" and "run_id row = run_id r"
  shows "put_run row db = update_runs (\<lambda>x. x = r) (\<lambda>_. row) db"
proof -
  have "(run_id x = run_id row) = (x = r)" if "x \<in> set (runs db)" for x
    using that assms chat_db_okD(1) [OF assms(1)] by (auto simp: distinct_map inj_on_def)
  then show ?thesis by (auto simp: put_run_def update_runs_def update_where_def)
qed

lemma chat_db_ok_put_run:
  assumes "chat_db_ok db" and "find_run rid db = Some r"
    and "slot_safe r row" and "run_operation_seq row = run_operation_seq r"
  shows "chat_db_ok (put_run row db)"
proof -
  have "put_run row db = update_runs (\<lambda>x. x = r) (\<lambda>_. row) db"
    using assms find_run_SomeD [of rid db r] by (intro put_run_as_update) (auto simp: slot_safe_def)
  with assms show ?thesis by (auto intro!: chat_db_ok_update_runs)
qed

lemma find_run_put_run:
  assumes "find_run rid db = Some r" and "run_id row = rid"
  shows "find_run rid' (put_run row db) = (if rid' = rid then Some row else find_run rid' db)"
  using assms unfolding find_run_def put_run_def
  by (simp add: find_by_update_where split: option.splits) (auto dest: find_by_SomeD)

lemma find_run_update_runs:
  assumes "\<And>r. P r \<Longrightarrow> run_id (f r) = run_id r"
  shows "find_run rid (update_runs P f db) =
           map_option (\<lambda>r. if P r then f r else r) (find_run rid db)"
  using assms by (auto simp: find_run_def update_runs_def find_by_update_where split: option.splits)

lemma chat_db_ok_insert_run:
  assumes "chat_db_ok db" and "insert_run row db = Some db'" and "run_operation_seq row = 0"
  shows "chat_db_ok db'"
proof -
  from assms(2) have fresh: "run_id row \<notin> run_id ` set (runs db)"
    and slot: "\<And>s. run_writer_slot row = Some s \<Longrightarrow> \<not> slot_taken (run_chat_id row) s db"
    and db': "db' = db\<lparr>runs := runs db @ [row]\<rparr>"
    by (auto simp: insert_run_def find_run_def find_by_None_iff split: if_splits option.splits)
  have "op_run_id ` set (operations db) \<subseteq> run_id ` set (runs db)"
    using assms(1) by (simp add: chat_db_ok_def journal_ok_def)
  with fresh have none: "filter (\<lambda>x. op_run_id x = run_id row) (operations db) = []"
    unfolding filter_empty_conv by (metis image_subset_iff)
  have "distinct (slot_keys (runs db @ [row]))"
    using chat_db_okD(2) [OF assms(1)] slot
    by (cases "run_writer_slot row") (force simp: slot_keys_def slot_taken_def)+
  with assms fresh none show ?thesis
    by (auto simp: chat_db_ok_def runs_ok_def journal_ok_def db' run_ops_def)
qed

lemma find_run_insert_run:
  assumes "insert_run row db = Some db'"
  shows "find_run rid db' = (if rid = run_id row then Some row else find_run rid db)"
  using assms
  by (auto simp: insert_run_def find_run_def find_by_append split: if_splits option.splits)

end
