(* ===== verification/Run_Journal.thy ===== *)
theory Run_Journal
  imports Chat_Db
begin

text \<open>
  \<open>core/services/run_journal.py\<close>: durable ownership, operation journal and recovery of a
  \<open>ChatRun\<close>. Every method of \<open>RunJournal\<close> is one transaction: a function of the clock value it
  reads, its arguments and the database, returning the result (or the exception it raises) and the
  database after the commit. A raised exception leaves the database as it was.

  The lemmas show that every operation keeps the database well formed, that an owner without a live
  lease can change nothing, that a live lease keeps other workers off the run, that a terminal run stays
  terminal, that event offsets are never reused, and what recovery decides for every orphan.
\<close>

section \<open>Statuses, phases, errors\<close>

datatype journal_error =
    RunNotFound string
  | RunLeaseLost string
  | RunJournalError string
  | RunAlreadyExists string
  | ValueError string
  | IntegrityError
  | EffectRaised

definition LIVE_STATUSES :: "run_status list" where
  "LIVE_STATUSES = [Run_pending, Run_running]"

definition TERMINAL_STATUSES :: "run_status list" where
  "TERMINAL_STATUSES = [Run_completed, Run_failed, Run_cancelled]"

definition RECOVERABLE_PRE_MODEL_PHASES :: "string list" where
  "RECOVERABLE_PRE_MODEL_PHASES = [''accepted'', ''claimed'', ''pre_model'']"

definition RECOVERABLE_TOOL_PHASES :: "string list" where
  "RECOVERABLE_TOOL_PHASES = [''tool_intent_replay_safe'', ''tool_result_committed'']"

definition NON_CHAT_RUN_KINDS :: "string list" where
  "NON_CHAT_RUN_KINDS = [''plan_execute'', ''plan_generate'', ''autonomous_loop'']"

definition TOOL_BOUND_INTERNAL_RUN_KINDS :: "string list" where
  "TOOL_BOUND_INTERNAL_RUN_KINDS =
     [''automation_plan'', ''automation_prompt'', ''batch_item'', ''internal_job_agent'',
      ''legacy_chat_stream'']"

definition SAFE_STOP_ORPHAN_KINDS :: "string list" where
  "SAFE_STOP_ORPHAN_KINDS = TOOL_BOUND_INTERNAL_RUN_KINDS @ [''plan_generate'']"

fun status_name :: "run_status \<Rightarrow> string" where
  "status_name Run_pending = ''pending''"
| "status_name Run_running = ''running''"
| "status_name Run_needs_attention = ''needs_attention''"
| "status_name Run_completed = ''completed''"
| "status_name Run_failed = ''failed''"
| "status_name Run_cancelled = ''cancelled''"

record journal_receipt =
  rcpt_run_id :: string
  rcpt_operation_seq :: int
  rcpt_snapshot_version :: int
  rcpt_phase :: string

section \<open>Acceptance\<close>

definition accept_in_session ::
  "string \<Rightarrow> string \<Rightarrow> string \<Rightarrow> string \<Rightarrow> dict \<Rightarrow> dict option \<Rightarrow> string option \<Rightarrow> int option \<Rightarrow>
   int option \<Rightarrow> string option \<Rightarrow> time \<Rightarrow> 'z chat_db_scheme \<Rightarrow>
   journal_error + (chat_run \<times> 'z chat_db_scheme)" where
  "accept_in_session rid mid cid uid request_payload recovery_snapshot user_message_id
      user_chat_seq assistant_chat_seq writer_slot accepted_at db =
     (let snapshot = opt_dict recovery_snapshot;
          row = \<lparr>run_id = rid, run_chat_id = cid, run_user_id = uid, run_message_id = mid,
                 run_user_message_id = user_message_id, run_user_chat_seq = user_chat_seq,
                 run_assistant_chat_seq = assistant_chat_seq, run_writer_slot = writer_slot,
                 run_status = Run_pending, run_request_payload = Some request_payload,
                 run_last_event_offset = 0, run_error_message = None, run_usage = None,
                 run_phase = ''accepted'', run_lease_owner = None, run_lease_expires_at = None,
                 run_operation_seq = 0, run_snapshot_version = (if snapshot = [] then 0 else 1),
                 run_recovery_snapshot = (if snapshot = [] then None else Some snapshot),
                 run_last_operation_safety = ''replayable'', run_failure_reason = None,
                 run_updated_at = accepted_at, run_created_at = accepted_at,
                 run_started_at = None, run_completed_at = None\<rparr>
      in case insert_run row db of
           None \<Rightarrow> Inl IntegrityError
         | Some db' \<Rightarrow> Inr (row, db'))"

definition accept ::
  "time \<Rightarrow> string \<Rightarrow> string \<Rightarrow> string \<Rightarrow> string \<Rightarrow> dict \<Rightarrow> dict option \<Rightarrow> 'z chat_db_scheme \<Rightarrow>
   (journal_error + chat_run) \<times> 'z chat_db_scheme" where
  "accept now rid mid cid uid request_payload recovery_snapshot db =
     (case accept_in_session rid mid cid uid request_payload recovery_snapshot None None None None
             now db of
        Inl e \<Rightarrow> (Inl e, db)
      | Inr (row, db') \<Rightarrow> (Inr row, db'))"

section \<open>Leases\<close>

definition claimable_by :: "time \<Rightarrow> string \<Rightarrow> string \<Rightarrow> chat_run \<Rightarrow> bool" where
  "claimable_by now rid owner r \<longleftrightarrow>
     run_id r = rid \<and> run_status r \<in> set LIVE_STATUSES
     \<and> (run_lease_owner r = None \<or> run_lease_expires_at r = None
        \<or> sql_le (run_lease_expires_at r) now \<or> run_lease_owner r = Some owner)"

definition claim ::
  "time \<Rightarrow> string \<Rightarrow> string \<Rightarrow> int \<Rightarrow> 'z chat_db_scheme \<Rightarrow> (journal_error + bool) \<times> 'z chat_db_scheme" where
  "claim now rid owner lease_seconds db =
     (if owner = [] then (Inl (ValueError ''owner is required''), db)
      else (Inr (0 < affected (claimable_by now rid owner) (runs db)),
            update_runs (claimable_by now rid owner)
              (\<lambda>r. r\<lparr>run_status := Run_running, run_lease_owner := Some owner,
                     run_lease_expires_at := Some (lease_until now lease_seconds),
                     run_started_at := (case run_started_at r of None \<Rightarrow> Some now | s \<Rightarrow> s),
                     run_updated_at := now\<rparr>) db))"

definition renewable_by :: "time \<Rightarrow> string \<Rightarrow> string \<Rightarrow> chat_run \<Rightarrow> bool" where
  "renewable_by now rid owner r \<longleftrightarrow>
     run_id r = rid \<and> run_status r \<in> set LIVE_STATUSES \<and> run_lease_owner r = Some owner
     \<and> sql_gt (run_lease_expires_at r) now"

definition renew ::
  "time \<Rightarrow> string \<Rightarrow> string \<Rightarrow> int \<Rightarrow> 'z chat_db_scheme \<Rightarrow> bool \<times> 'z chat_db_scheme" where
  "renew now rid owner lease_seconds db =
     (0 < affected (renewable_by now rid owner) (runs db),
      update_runs (renewable_by now rid owner)
        (\<lambda>r. r\<lparr>run_lease_expires_at := Some (lease_until now lease_seconds), run_updated_at := now\<rparr>) db)"

definition holds_lease :: "time \<Rightarrow> string \<Rightarrow> chat_run \<Rightarrow> bool" where
  "holds_lease now owner row \<longleftrightarrow>
     \<not> (run_status row \<notin> set LIVE_STATUSES \<or> run_lease_owner row \<noteq> Some owner
        \<or> run_lease_expires_at row = None \<or> sql_le (run_lease_expires_at row) now)"

definition locked_owned_run ::
  "time \<Rightarrow> string \<Rightarrow> string \<Rightarrow> 'z chat_db_scheme \<Rightarrow> journal_error + chat_run" where
  "locked_owned_run now rid owner db =
     (case find_run rid db of
        None \<Rightarrow> Inl (RunNotFound rid)
      | Some row \<Rightarrow> if holds_lease now owner row then Inr row else Inl (RunLeaseLost rid))"

definition require_lease ::
  "time \<Rightarrow> string \<Rightarrow> string \<Rightarrow> 'z chat_db_scheme \<Rightarrow> journal_error + unit" where
  "require_lease now rid owner db =
     (case find_run rid db of
        None \<Rightarrow> Inl (RunNotFound rid)
      | Some row \<Rightarrow> if holds_lease now owner row then Inr () else Inl (RunLeaseLost rid))"

section \<open>Appending operations\<close>

text \<open>
  \<open>_append_locked\<close> on the loaded row: the next operation of its journal and the row with its
  counter, phase and safety moved on. \<open>append_locked\<close> writes both.
\<close>

definition append_row ::
  "string \<Rightarrow> string \<Rightarrow> string \<Rightarrow> string \<Rightarrow> dict option \<Rightarrow> int option \<Rightarrow> chat_run \<Rightarrow>
   chat_run \<times> chat_run_operation" where
  "append_row owner operation_type phase safety payload snapshot_version row =
     (let next_seq = run_operation_seq row + 1;
          version = (case snapshot_version of None \<Rightarrow> run_snapshot_version row | Some v \<Rightarrow> v)
      in (row\<lparr>run_operation_seq := next_seq, run_phase := phase, run_last_operation_safety := safety\<rparr>,
          \<lparr>op_run_id = run_id row, op_seq = next_seq, op_type = operation_type, op_phase = phase,
           op_safety = safety, op_owner = owner, op_snapshot_version = version,
           op_payload = dict_or_null payload\<rparr>))"

definition add_operation :: "chat_run_operation \<Rightarrow> 'z chat_db_scheme \<Rightarrow> 'z chat_db_scheme" where
  "add_operation x db = db\<lparr>operations := operations db @ [x]\<rparr>"

definition append_locked ::
  "string \<Rightarrow> string \<Rightarrow> string \<Rightarrow> string \<Rightarrow> dict option \<Rightarrow> int option \<Rightarrow> chat_run \<Rightarrow>
   'z chat_db_scheme \<Rightarrow> journal_receipt \<times> 'z chat_db_scheme" where
  "append_locked owner operation_type phase safety payload snapshot_version row db =
     (let (row', x) = append_row owner operation_type phase safety payload snapshot_version row
      in (\<lparr>rcpt_run_id = run_id row, rcpt_operation_seq = op_seq x,
           rcpt_snapshot_version = op_snapshot_version x, rcpt_phase = phase\<rparr>,
          put_run row' (add_operation x db)))"

text \<open>
  A caller's \<open>commit_effect\<close> writes in the same transaction; it is a function of the database that
  is \<open>None\<close> where it raises. The session re-reads the run after it.
\<close>

type_synonym 'd commit_effect = "('d \<Rightarrow> 'd option) option"

definition run_effect :: "'d commit_effect \<Rightarrow> 'd \<Rightarrow> 'd option" where
  "run_effect e d = (case e of None \<Rightarrow> Some d | Some f \<Rightarrow> f d)"

definition append_operation ::
  "time \<Rightarrow> string \<Rightarrow> string \<Rightarrow> string \<Rightarrow> string \<Rightarrow> string \<Rightarrow> dict option \<Rightarrow>
   'z chat_db_scheme commit_effect \<Rightarrow> 'z chat_db_scheme \<Rightarrow>
   (journal_error + journal_receipt) \<times> 'z chat_db_scheme" where
  "append_operation now rid owner operation_type phase safety payload commit_effect db =
     (case locked_owned_run now rid owner db of
        Inl e \<Rightarrow> (Inl e, db)
      | Inr _ \<Rightarrow>
          (case run_effect commit_effect db of
             None \<Rightarrow> (Inl EffectRaised, db)
           | Some db1 \<Rightarrow>
               (case find_run rid db1 of
                  None \<Rightarrow> (Inl EffectRaised, db)
                | Some row \<Rightarrow>
                    let (receipt, db2) = append_locked owner operation_type phase safety payload None
                                           (row\<lparr>run_updated_at := now\<rparr>) db1
                    in (Inr receipt, db2))))"

definition save_snapshot ::
  "time \<Rightarrow> string \<Rightarrow> string \<Rightarrow> string \<Rightarrow> dict \<Rightarrow> string \<Rightarrow> 'z chat_db_scheme \<Rightarrow>
   (journal_error + journal_receipt) \<times> 'z chat_db_scheme" where
  "save_snapshot now rid owner phase snapshot safety db =
     (case locked_owned_run now rid owner db of
        Inl e \<Rightarrow> (Inl e, db)
      | Inr row \<Rightarrow>
          let version = run_snapshot_version row + 1;
              merged = dict_update (opt_dict (run_recovery_snapshot row)) snapshot;
              row1 = row\<lparr>run_recovery_snapshot := Some merged, run_snapshot_version := version,
                         run_updated_at := now\<rparr>;
              (receipt, db1) = append_locked owner ''snapshot_saved'' phase safety
                 (Some [(''snapshot_keys'', JList (map JStr (sort (map fst snapshot))))])
                 (Some version) row1 db
          in (Inr receipt, db1))"

section \<open>Event offsets\<close>

definition offset_row ::
  "time \<Rightarrow> string \<Rightarrow> string option \<Rightarrow> bool \<Rightarrow> 'z chat_db_scheme \<Rightarrow> journal_error + chat_run" where
  "offset_row now rid owner terminal db =
     (if terminal then
        (case find_run rid db of
           None \<Rightarrow> Inl (RunNotFound rid)
         | Some row \<Rightarrow> if run_status row \<in> set LIVE_STATUSES
                        then Inl (RunJournalError rid) else Inr row)
      else (case owner of
              None \<Rightarrow> Inl (ValueError ''owner is required for a live projection'')
            | Some w \<Rightarrow> if w = [] then Inl (ValueError ''owner is required for a live projection'')
                         else locked_owned_run now rid w db))"

definition allocate_event_offset ::
  "time \<Rightarrow> string \<Rightarrow> string option \<Rightarrow> bool \<Rightarrow> int \<Rightarrow> 'z chat_db_scheme \<Rightarrow>
   (journal_error + int) \<times> 'z chat_db_scheme" where
  "allocate_event_offset now rid owner terminal count db =
     (if count < 1 then (Inl (ValueError ''count must be positive''), db)
      else case offset_row now rid owner terminal db of
             Inl e \<Rightarrow> (Inl e, db)
           | Inr row \<Rightarrow>
               let next_offset = run_last_event_offset row + 1
               in (Inr next_offset,
                   put_run (row\<lparr>run_last_event_offset := next_offset + count - 1,
                                run_updated_at := now\<rparr>) db))"

section \<open>Terminal transitions\<close>

record committed_operation =
  co_operation_type :: "string option"
  co_phase :: "string option"
  co_safety :: "string option"
  co_payload :: "dict option"

definition complete_row ::
  "time \<Rightarrow> run_status \<Rightarrow> dict option \<Rightarrow> string option \<Rightarrow> int option \<Rightarrow> chat_run \<Rightarrow> chat_run" where
  "complete_row now status usage failure_reason last_event_offset row =
     row\<lparr>run_status := status, run_usage := dict_or_null usage, run_failure_reason := failure_reason,
         run_error_message := (if status = Run_failed then failure_reason else run_error_message row),
         run_completed_at := Some now, run_updated_at := now, run_lease_owner := None,
         run_lease_expires_at := None, run_writer_slot := None,
         run_last_event_offset :=
           (case last_event_offset of None \<Rightarrow> run_last_event_offset row
            | Some k \<Rightarrow> max (run_last_event_offset row) k)\<rparr>"

definition append_by_id ::
  "string \<Rightarrow> string \<Rightarrow> string \<Rightarrow> string \<Rightarrow> string \<Rightarrow> dict option \<Rightarrow> 'z chat_db_scheme \<Rightarrow>
   'z chat_db_scheme option" where
  "append_by_id rid owner operation_type phase safety payload db =
     map_option (\<lambda>row. snd (append_locked owner operation_type phase safety payload None row db))
       (find_run rid db)"

definition append_committed ::
  "string \<Rightarrow> string \<Rightarrow> committed_operation option \<Rightarrow> 'z chat_db_scheme \<Rightarrow> 'z chat_db_scheme option" where
  "append_committed rid owner committed db =
     (case committed of
        None \<Rightarrow> Some db
      | Some c \<Rightarrow> append_by_id rid owner (str_or (co_operation_type c) ''side_effect_committed'')
                    (str_or (co_phase c) ''side_effect_committed'')
                    (str_or (co_safety c) ''side_effect_committed'') (co_payload c) db)"

definition complete ::
  "time \<Rightarrow> string \<Rightarrow> string \<Rightarrow> run_status \<Rightarrow> dict option \<Rightarrow> string option \<Rightarrow> int option \<Rightarrow>
   'z chat_db_scheme commit_effect \<Rightarrow> committed_operation option \<Rightarrow> 'z chat_db_scheme \<Rightarrow>
   (journal_error + bool) \<times> 'z chat_db_scheme" where
  "complete now rid owner status usage failure_reason last_event_offset commit_effect committed db =
     (if status \<notin> set TERMINAL_STATUSES then (Inl (ValueError ''invalid terminal status''), db)
      else case locked_owned_run now rid owner db of
             Inl _ \<Rightarrow> (Inr False, db)
           | Inr row \<Rightarrow>
               (case Option.bind
                       (Option.bind
                          (run_effect commit_effect
                             (put_run (complete_row now status usage failure_reason last_event_offset row) db))
                          (append_committed rid owner committed))
                       (append_by_id rid owner (''run_'' @ status_name status) (status_name status)
                          ''terminal''
                          (if str_or failure_reason [] = [] then None
                           else Some [(''failure_reason'', JStr (str_or failure_reason []))])) of
                  None \<Rightarrow> (Inl EffectRaised, db)
                | Some db' \<Rightarrow> (Inr True, db')))"

definition cancel ::
  "time \<Rightarrow> string \<Rightarrow> string \<Rightarrow> 'z chat_db_scheme \<Rightarrow> bool \<times> 'z chat_db_scheme" where
  "cancel now rid reason db =
     (case find_run rid db of
        None \<Rightarrow> (False, db)
      | Some row \<Rightarrow>
          if run_status row \<notin> set LIVE_STATUSES then (False, db)
          else (True,
                snd (append_locked ''system:cancel'' ''run_cancelled'' ''cancelled'' ''terminal''
                       (Some [(''reason'', JStr reason)]) None
                       (row\<lparr>run_status := Run_cancelled, run_failure_reason := Some reason,
                            run_completed_at := Some now, run_updated_at := now,
                            run_lease_owner := None, run_lease_expires_at := None\<rparr>) db)))"

definition release ::
  "time \<Rightarrow> string \<Rightarrow> string \<Rightarrow> string \<Rightarrow> 'z chat_db_scheme \<Rightarrow> bool \<times> 'z chat_db_scheme" where
  "release now rid owner reason db =
     (case locked_owned_run now rid owner db of
        Inl _ \<Rightarrow> (False, db)
      | Inr row \<Rightarrow>
          (True,
           snd (append_locked owner ''run_released_for_recovery''
                  (str_or (Some (run_phase row)) ''accepted'') ''recovery_required''
                  (Some [(''reason'', JStr reason)]) None
                  (row\<lparr>run_status := Run_pending, run_lease_owner := None,
                       run_lease_expires_at := None, run_updated_at := now\<rparr>) db)))"

definition pause_row :: "time \<Rightarrow> string \<Rightarrow> chat_run \<Rightarrow> chat_run" where
  "pause_row now reason row =
     row\<lparr>run_status := Run_needs_attention, run_failure_reason := Some reason,
         run_lease_owner := None, run_lease_expires_at := None, run_writer_slot := None,
         run_updated_at := now\<rparr>"

definition attention_row ::
  "time \<Rightarrow> string \<Rightarrow> string option \<Rightarrow> 'z chat_db_scheme \<Rightarrow> (chat_run \<times> string) option" where
  "attention_row now rid owner db =
     (case owner of
        Some w \<Rightarrow> (case locked_owned_run now rid w db of Inl _ \<Rightarrow> None | Inr row \<Rightarrow> Some (row, w))
      | None \<Rightarrow>
          (case find_run rid db of
             None \<Rightarrow> None
           | Some row \<Rightarrow>
               if run_status row \<notin> set LIVE_STATUSES then None
               else if run_lease_owner row \<noteq> None \<and> sql_gt (run_lease_expires_at row) now then None
               else Some (row, ''system:recovery'')))"

definition needs_attention ::
  "time \<Rightarrow> string \<Rightarrow> string \<Rightarrow> string option \<Rightarrow> 'z chat_db_scheme \<Rightarrow> bool \<times> 'z chat_db_scheme" where
  "needs_attention now rid reason owner db =
     (case attention_row now rid owner db of
        None \<Rightarrow> (False, db)
      | Some (row, operation_owner) \<Rightarrow>
          (True,
           snd (append_locked operation_owner ''run_needs_attention'' ''needs_attention'' ''manual_review''
                  (Some [(''reason'', JStr reason)]) None (pause_row now reason row) db)))"

section \<open>Recovery\<close>

datatype recovery_action =
    Act_resume
  | Act_resume_from_snapshot
  | Act_needs_attention
  | Act_failed
  | Act_completed

record recovery_decision =
  rd_run_id :: string
  rd_chat_id :: string
  rd_user_id :: string
  rd_message_id :: string
  rd_action :: recovery_action
  rd_phase :: string
  rd_snapshot :: dict
  rd_request_payload :: dict

definition orphan :: "time \<Rightarrow> chat_run \<Rightarrow> bool" where
  "orphan now r \<longleftrightarrow> run_status r \<in> set LIVE_STATUSES
     \<and> (run_lease_owner r = None \<or> run_lease_expires_at r = None \<or> sql_le (run_lease_expires_at r) now)"

definition kind_in :: "dict \<Rightarrow> string list \<Rightarrow> bool" where
  "kind_in d kinds = (case dict_get ''kind'' d of Some (JStr k) \<Rightarrow> k \<in> set kinds | _ \<Rightarrow> False)"

definition decision_of :: "chat_run \<Rightarrow> recovery_action \<Rightarrow> recovery_decision" where
  "decision_of row action =
     \<lparr>rd_run_id = run_id row, rd_chat_id = run_chat_id row, rd_user_id = run_user_id row,
      rd_message_id = run_message_id row, rd_action = action,
      rd_phase = str_or (Some (run_phase row)) ''accepted'',
      rd_snapshot = opt_dict (run_recovery_snapshot row),
      rd_request_payload = opt_dict (run_request_payload row)\<rparr>"

text \<open>
  The operation a recovered run gets, with the row's status and failure reason. \<open>recover_row\<close>
  follows the branches of the loop body; a result without an operation leaves the row alone.
\<close>

definition recovered ::
  "string \<Rightarrow> string \<Rightarrow> string \<Rightarrow> dict option \<Rightarrow> (chat_run \<Rightarrow> chat_run) \<Rightarrow> recovery_action \<Rightarrow> chat_run \<Rightarrow>
   chat_run \<times> chat_run_operation list \<times> recovery_decision option" where
  "recovered operation_type phase safety payload f action row =
     (let (row', x) = append_row ''system:recovery'' operation_type phase safety payload None row
      in (f row', [x], Some (decision_of row action)))"

definition attention_recovered ::
  "time \<Rightarrow> string \<Rightarrow> chat_run \<Rightarrow> chat_run \<times> chat_run_operation list \<times> recovery_decision option" where
  "attention_recovered now reason row =
     recovered ''run_needs_attention'' ''needs_attention'' ''manual_review''
       (Some [(''reason'', JStr reason)]) (pause_row now reason) Act_needs_attention row"

definition recover_row ::
  "time \<Rightarrow> chat_run \<Rightarrow> chat_run \<times> chat_run_operation list \<times> recovery_decision option" where
  "recover_row now row =
     (let snapshot = opt_dict (run_recovery_snapshot row);
          request_payload = opt_dict (run_request_payload row);
          phase = str_or (Some (run_phase row)) ''accepted'';
          legacy_unrecoverable =
            (phase = ''legacy_unrecoverable'' \<and> \<not> kind_in request_payload NON_CHAT_RUN_KINDS)
      in if kind_in snapshot SAFE_STOP_ORPHAN_KINDS then
           (let reason = (case dict_get ''kind'' snapshot of Some (JStr k) \<Rightarrow> k | _ \<Rightarrow> [])
                          @ '' worker disappeared; owner-specific retry is required''
            in recovered ''run_needs_attention'' ''needs_attention'' ''manual_review''
                 (Some [(''reason'', JStr reason)])
                 (\<lambda>r. r\<lparr>run_status := Run_needs_attention, run_failure_reason := Some reason,
                        run_lease_owner := None, run_lease_expires_at := None,
                        run_updated_at := now\<rparr>)
                 Act_needs_attention row)
         else if \<not> kind_in snapshot [''chat''] \<and> run_writer_slot row = Some ''main'' \<and> phase = ''accepted'' then
           (let reason = ''server restarted before the accepted run was prepared''
            in recovered ''run_failed'' ''failed'' ''terminal'' (Some [(''reason'', JStr reason)])
                 (\<lambda>r. r\<lparr>run_status := Run_failed, run_failure_reason := Some reason,
                        run_error_message := Some reason, run_completed_at := Some now,
                        run_lease_owner := None, run_lease_expires_at := None,
                        run_writer_slot := None, run_updated_at := now\<rparr>)
                 Act_failed row)
         else if \<not> kind_in snapshot [''chat''] \<and> \<not> legacy_unrecoverable then (row, [], None)
         else if legacy_unrecoverable then
           attention_recovered now ''legacy live run has no durable recovery snapshot'' row
         else if phase = ''message_committed'' then
           recovered ''recovered_after_message_commit'' ''completed'' ''terminal'' None
             (\<lambda>r. r\<lparr>run_status := Run_completed, run_completed_at := Some now,
                    run_lease_owner := None, run_lease_expires_at := None,
                    run_writer_slot := None, run_updated_at := now\<rparr>)
             Act_completed row
         else if phase = ''tool_result_unknown'' \<or> run_last_operation_safety row = ''unknown_side_effect'' then
           attention_recovered now ''unknown tool result requires recovery decision'' row
         else if phase \<in> set RECOVERABLE_TOOL_PHASES then
           attention_recovered now
             (''tool effect was recovered, but exact model continuation ''
              @ ''is unavailable; automatic prompt replay is unsafe'') row
         else if phase = ''model_completed'' \<and> snapshot \<noteq> [] then
           (row, [], Some (decision_of row Act_resume_from_snapshot))
         else if phase = ''model_inflight'' then
           attention_recovered now ''model outcome is unknown; automatic replay is unsafe'' row
         else if phase \<notin> set RECOVERABLE_PRE_MODEL_PHASES then
           attention_recovered now (''unsupported recovery phase: '' @ phase) row
         else (row, [], Some (decision_of row Act_resume)))"

definition recover ::
  "time \<Rightarrow> 'z chat_db_scheme \<Rightarrow> recovery_decision list \<times> 'z chat_db_scheme" where
  "recover now db =
     (let rows = sort_key (\<lambda>r. (run_created_at r, run_id r)) (filter (orphan now) (runs db))
      in (List.map_filter (\<lambda>r. snd (snd (recover_row now r))) rows,
          db\<lparr>runs := update_where (orphan now) (\<lambda>r. fst (recover_row now r)) (runs db),
             operations := operations db @ concat (map (\<lambda>r. fst (snd (recover_row now r))) rows)\<rparr>))"

section \<open>Durable bindings\<close>

text \<open>
  \<open>durable_run_binding\<close> gives a worker outside the chat path a run of its own. Entering it is
  three transactions: the session, \<open>accept\<close> and \<open>claim\<close>; \<open>interf i\<close> is what other processes
  commit after the i-th one, \<open>clock i\<close> the time read by the i-th one, and \<open>fresh i\<close> the random
  identifiers. Leaving it settles the run according to how the body ended and whether the heartbeat
  had lost the lease.
\<close>

definition bind_session ::
  "time \<Rightarrow> string \<Rightarrow> string \<Rightarrow> string \<Rightarrow> 'z chat_db_scheme \<Rightarrow> (journal_error + unit) \<times> 'z chat_db_scheme" where
  "bind_session now uid cid kind db =
     (case find_session cid db of
        None \<Rightarrow> (Inr (),
          db\<lparr>sessions := sessions db @
               [\<lparr>sess_chat_id = cid, sess_user_id = uid, sess_title = kind @ '' run'',
                 sess_message_count = 0, sess_next_message_seq = Some 1, sess_updated_at = now,
                 sess_last_message_at = None\<rparr>]\<rparr>)
      | Some s \<Rightarrow>
          if sess_user_id s \<noteq> uid
          then (Inl (RunJournalError ''durable run chat belongs to another user''), db)
          else (Inr (), db))"

definition durable_run_open ::
  "(nat \<Rightarrow> 'z chat_db_scheme \<Rightarrow> 'z chat_db_scheme) \<Rightarrow> (nat \<Rightarrow> time) \<Rightarrow> (nat \<Rightarrow> string) \<Rightarrow> string \<Rightarrow>
   string option \<Rightarrow> string \<Rightarrow> string \<Rightarrow> dict option \<Rightarrow> dict option \<Rightarrow> int \<Rightarrow> string option \<Rightarrow>
   'z chat_db_scheme \<Rightarrow> (journal_error + (string \<times> string \<times> string)) \<times> 'z chat_db_scheme" where
  "durable_run_open interf clock fresh uid chat_id kind external_id request_payload
      recovery_snapshot lease_seconds binding_run_id db =
     (let cid = str_or chat_id (''internal_'' @ fresh 0);
          rid = str_or binding_run_id (''run_'' @ fresh 1);
          owner = kind @ '':'' @ fresh 2;
          base = [(''kind'', JStr kind), (''external_id'', JStr external_id)]
      in case bind_session (clock 0) uid cid kind db of
           (Inl e, db1) \<Rightarrow> (Inl e, db1)
         | (Inr _, db1) \<Rightarrow>
             (case accept (clock 1) rid (''msg_'' @ fresh 3) cid uid
                     (dict_update base (opt_dict request_payload))
                     (Some (dict_update base (opt_dict recovery_snapshot))) (interf 0 db1) of
                (Inl e, db2) \<Rightarrow>
                  let db3 = interf 1 db2
                  in (Inl (if str_or binding_run_id [] \<noteq> [] \<and> find_run rid db3 \<noteq> None
                           then RunAlreadyExists rid else e), db3)
              | (Inr _, db2) \<Rightarrow>
                  (case claim (clock 2) rid owner lease_seconds (interf 1 db2) of
                     (Inr True, db3) \<Rightarrow> (Inr (rid, owner, cid), db3)
                   | (Inr False, db3) \<Rightarrow> (Inl (RunLeaseLost rid), db3)
                   | (Inl e, db3) \<Rightarrow> (Inl e, db3))))"

text \<open>
  How the body ends: normally, by a cancellation, or by an exception given by its class name and
  message, with the tool outcome \<open>find_tool_outcome_unknown\<close> finds in its chain of causes.
\<close>

datatype binding_exit =
    Exit_normal
  | Exit_cancelled
  | Exit_raised string string "string option"

definition durable_run_close ::
  "time \<Rightarrow> string \<Rightarrow> string \<Rightarrow> string \<Rightarrow> bool \<Rightarrow> binding_exit \<Rightarrow> 'z chat_db_scheme \<Rightarrow> 'z chat_db_scheme" where
  "durable_run_close now rid owner kind lost ex db =
     (let failed = (\<lambda>cls m. snd (complete now rid owner Run_failed None
                              (Some (char_limit 2000 (cls @ '': '' @ m))) None None None db))
      in case ex of
           Exit_normal \<Rightarrow>
             if lost then failed ''RunLeaseLost'' rid
             else snd (complete now rid owner Run_completed None None None None None db)
         | Exit_cancelled \<Rightarrow>
             if lost then db
             else snd (complete now rid owner Run_cancelled None
                         (Some (kind @ '' invocation cancelled'')) None None None db)
         | Exit_raised cls m unknown \<Rightarrow>
             (case unknown of
                Some u \<Rightarrow> snd (needs_attention now rid
                                (''tool outcome pending policy recovery: '' @ u) (Some owner) db)
              | None \<Rightarrow> failed cls m))"

section \<open>How a run may evolve\<close>

text \<open>
  \<open>run_le\<close> is the order along which every transaction moves a run: its counters never go back, a
  terminal status stays, and a writer slot can only be given up. \<open>db_le\<close> lifts it to databases,
  where the journal is only appended to. \<open>safe_step\<close> is what the components prove of each of
  their transactions.
\<close>

definition run_le :: "chat_run \<Rightarrow> chat_run \<Rightarrow> bool" where
  "run_le r r' \<longleftrightarrow> slot_safe r r'
     \<and> run_operation_seq r \<le> run_operation_seq r' \<and> run_last_event_offset r \<le> run_last_event_offset r'
     \<and> run_snapshot_version r \<le> run_snapshot_version r'
     \<and> (run_status r \<in> set TERMINAL_STATUSES \<longrightarrow> run_status r' = run_status r)"

definition db_le :: "'z chat_db_scheme \<Rightarrow> 'z chat_db_scheme \<Rightarrow> bool" where
  "db_le db db' \<longleftrightarrow> prefix (operations db) (operations db')
     \<and> (\<forall>rid r. find_run rid db = Some r \<longrightarrow> (\<exists>r'. find_run rid db' = Some r' \<and> run_le r r'))"

definition safe_step :: "'z chat_db_scheme \<Rightarrow> 'z chat_db_scheme \<Rightarrow> bool" where
  "safe_step db db' \<longleftrightarrow> (chat_db_ok db \<longrightarrow> chat_db_ok db' \<and> db_le db db')"

lemma status_sets [simp]:
  "s \<in> set LIVE_STATUSES \<longleftrightarrow> s = Run_pending \<or> s = Run_running"
  "s \<in> set TERMINAL_STATUSES \<longleftrightarrow> s = Run_completed \<or> s = Run_failed \<or> s = Run_cancelled"
  by (auto simp: LIVE_STATUSES_def TERMINAL_STATUSES_def)

lemma run_le_refl [simp]: "run_le r r"
  by (simp add: run_le_def)

lemma run_le_trans: "run_le a b \<Longrightarrow> run_le b c \<Longrightarrow> run_le a c"
  by (auto simp: run_le_def slot_safe_def)

lemma db_le_refl [simp]: "db_le db db"
  by (auto simp: db_le_def)

lemma db_le_trans: "db_le a b \<Longrightarrow> db_le b c \<Longrightarrow> db_le a c"
  unfolding db_le_def by (meson prefix_order.trans run_le_trans)

lemma safe_step_refl [simp]: "safe_step db db"
  by (simp add: safe_step_def)

lemma safe_step_trans: "safe_step a b \<Longrightarrow> safe_step b c \<Longrightarrow> safe_step a c"
  by (auto simp: safe_step_def intro: db_le_trans)

lemma safe_stepD:
  assumes "safe_step db db'" and "chat_db_ok db"
  shows "chat_db_ok db'" and "db_le db db'"
  using assms by (auto simp: safe_step_def)

lemma db_leD: "db_le db db' \<Longrightarrow> find_run rid db = Some r \<Longrightarrow> \<exists>r'. find_run rid db' = Some r' \<and> run_le r r'"
  by (auto simp: db_le_def)

text \<open>A bulk update, a write of one loaded row, an inserted run, an appended operation.\<close>

lemma safe_step_update_runs:
  assumes "\<And>r. P r \<Longrightarrow> run_le r (f r) \<and> run_operation_seq (f r) = run_operation_seq r"
  shows "safe_step db (update_runs P f db)"
proof -
  have "run_id (f r) = run_id r" if "P r" for r
    using assms [OF that] by (simp add: run_le_def slot_safe_def)
  then have "find_run rid (update_runs P f db) = map_option (\<lambda>r. if P r then f r else r) (find_run rid db)" for rid
    by (rule find_run_update_runs)
  moreover have "chat_db_ok db \<Longrightarrow> chat_db_ok (update_runs P f db)"
    by (rule chat_db_ok_update_runs) (use assms in \<open>auto simp: run_le_def\<close>)
  moreover have "operations (update_runs P f db) = operations db"
    by (simp add: update_runs_def)
  ultimately show ?thesis
    using assms by (auto simp: safe_step_def db_le_def)
qed

lemma safe_step_put_run:
  assumes "find_run rid db = Some r" and "run_le r row" and "run_operation_seq row = run_operation_seq r"
  shows "safe_step db (put_run row db)"
proof -
  have "run_id row = rid" using assms find_run_SomeD [of rid db r] by (auto simp: run_le_def slot_safe_def)
  then have "find_run rid' (put_run row db) = (if rid' = rid then Some row else find_run rid' db)" for rid'
    using assms(1) find_run_put_run by blast
  moreover have "operations (put_run row db) = operations db" by (simp add: put_run_def)
  ultimately show ?thesis
    using assms chat_db_ok_put_run [of db rid r row] by (auto simp: safe_step_def db_le_def run_le_def)
qed

lemma safe_step_insert_run:
  assumes "insert_run row db = Some db'" and "run_operation_seq row = 0"
  shows "safe_step db db'"
proof -
  have "operations db' = operations db" and new: "find_run (run_id row) db = None"
    using assms(1) by (auto simp: insert_run_def split: if_splits)
  then show ?thesis
    using assms chat_db_ok_insert_run [of db row db'] find_run_insert_run [OF assms(1)]
    by (auto simp: safe_step_def db_le_def)
qed

lemma find_run_add_operation [simp]: "find_run rid (add_operation x db) = find_run rid db"
  by (simp add: find_run_def add_operation_def)

lemma find_run_append_locked:
  assumes "find_run (run_id row) db = Some r"
  shows "find_run rid (snd (append_locked owner ty ph sf pl v row db)) =
           (if rid = run_id row
            then Some (row\<lparr>run_operation_seq := run_operation_seq row + 1, run_phase := ph,
                           run_last_operation_safety := sf\<rparr>)
            else find_run rid db)"
  using find_run_put_run [of "run_id row" "add_operation x db" r] assms
  by (auto simp: append_locked_def append_row_def Let_def find_run_put_run)

lemma run_ops_snoc: "run_ops rid (ops @ [x]) = run_ops rid ops @ (if op_run_id x = rid then [op_seq x] else [])"
  by (simp add: run_ops_def)

lemma upto_snoc: "0 \<le> n \<Longrightarrow> [1..n] @ [n + 1] = [1..n + (1::int)]"
  by (simp add: upto_rec2)

lemma operations_append_locked:
  "operations (snd (append_locked owner ty ph sf pl v row db)) =
     operations db @ [snd (append_row owner ty ph sf pl v row)]"
  by (simp add: append_locked_def append_row_def Let_def put_run_def add_operation_def)

lemma journal_ok_snoc:
  assumes ok: "journal_ok t ops" and dist: "distinct (map run_id t)" and r: "r \<in> set t"
    and row: "run_id row = run_id r" "run_operation_seq row = run_operation_seq r + 1"
    and x: "op_run_id x = run_id r" "op_seq x = run_operation_seq r + 1"
  shows "journal_ok (update_where (\<lambda>z. z = r) (\<lambda>_. row) t) (ops @ [x])"
proof -
  have j: "0 \<le> run_operation_seq z" "run_ops (run_id z) ops = [1..run_operation_seq z]"
    if "z \<in> set t" for z
    using ok that by (auto simp: journal_ok_def)
  have ids: "run_id z \<noteq> run_id r" if "z \<in> set t" "z \<noteq> r" for z
    using dist that r by (auto simp: distinct_map inj_on_def)
  have "map run_id (update_where (\<lambda>z. z = r) (\<lambda>_. row) t) = map run_id t"
    by (intro map_update_where) (auto simp: row)
  then have cov: "run_id ` set (update_where (\<lambda>z. z = r) (\<lambda>_. row) t) = run_id ` set t"
    by (metis set_map)
  have "0 \<le> run_operation_seq z \<and> run_ops (run_id z) (ops @ [x]) = [1..run_operation_seq z]"
    if z: "z \<in> set (update_where (\<lambda>z. z = r) (\<lambda>_. row) t)" for z
  proof -
    from z consider "z = row" | "z \<in> set t" "z \<noteq> r"
      by (auto simp: set_update_where split: if_splits)
    then show ?thesis
    proof cases
      case 1
      then show ?thesis
        using j [OF r] x row upto_snoc [of "run_operation_seq r"] by (simp add: run_ops_snoc)
    next
      case 2
      then show ?thesis using j [of z] ids [of z] x by (auto simp: run_ops_snoc)
    qed
  qed
  moreover have "op_run_id ` set (ops @ [x]) \<subseteq> run_id ` set t"
    using ok x r by (auto simp: journal_ok_def)
  ultimately show ?thesis by (simp add: journal_ok_def cov)
qed

lemma append_locked_as_update:
  assumes "chat_db_ok db" and "find_run rid db = Some r" and "run_id row = rid"
  shows "runs (snd (append_locked owner ty ph sf pl v row db)) =
           update_where (\<lambda>z. z = r) (\<lambda>_. fst (append_row owner ty ph sf pl v row)) (runs db)"
proof -
  have r: "r \<in> set (runs db)" "run_id r = rid" using assms(2) find_run_SomeD by blast+
  have "runs (put_run row' db) = update_where (\<lambda>z. z = r) (\<lambda>_. row') (runs db)"
    if "run_id row' = rid" for row'
    using put_run_as_update [of db r row'] that r assms(1) by (simp add: update_runs_def)
  then show ?thesis
    using assms(3)
    by (simp add: append_locked_def append_row_def Let_def put_run_def add_operation_def)
qed

lemma safe_step_append_locked:
  assumes "find_run rid db = Some r" and "run_le r row" and "run_operation_seq row = run_operation_seq r"
  shows "safe_step db (snd (append_locked owner ty ph sf pl v row db))"
proof -
  define row' where "row' = fst (append_row owner ty ph sf pl v row)"
  define db' where "db' = snd (append_locked owner ty ph sf pl v row db)"
  have rid: "run_id row = rid" "run_id r = rid" "r \<in> set (runs db)"
    using assms find_run_SomeD [of rid db r] by (auto simp: run_le_def slot_safe_def)
  have le: "run_le r row'"
    using assms(2) by (simp add: run_le_def slot_safe_def row'_def append_row_def Let_def)
  have row': "row' = row\<lparr>run_operation_seq := run_operation_seq row + 1, run_phase := ph,
                          run_last_operation_safety := sf\<rparr>"
    by (simp add: row'_def append_row_def Let_def)
  have "chat_db_ok db'" if ok: "chat_db_ok db"
  proof -
    have eq: "runs db' = update_where (\<lambda>z. z = r) (\<lambda>_. row') (runs db)"
      using append_locked_as_update [OF ok assms(1) rid(1)] by (simp add: db'_def row'_def)
    have "runs_ok (runs db')"
      unfolding eq using le chat_db_okD(3) [OF ok] by (intro runs_ok_update) (auto simp: run_le_def)
    moreover have "operations db' = operations db @ [snd (append_row owner ty ph sf pl v row)]"
      by (simp add: db'_def operations_append_locked)
    then have "journal_ok (runs db') (operations db')"
      unfolding eq using chat_db_okD(1,4) [OF ok] rid assms(3)
      by (simp, intro journal_ok_snoc) (auto simp: row' append_row_def Let_def)
    ultimately show ?thesis by (simp add: chat_db_ok_def)
  qed
  moreover have "find_run k db' = (if k = rid then Some row' else find_run k db)" for k
    using find_run_append_locked [of row db r] assms(1) rid by (simp add: db'_def row')
  then have "db_le db db'"
    using assms(1) le by (auto simp: db_le_def operations_append_locked db'_def)
  ultimately show ?thesis by (simp add: safe_step_def db'_def)
qed

section \<open>Every transaction of the journal is a safe step\<close>

definition effect_ok :: "'z chat_db_scheme commit_effect \<Rightarrow> bool" where
  "effect_ok e \<longleftrightarrow> (\<forall>d d'. run_effect e d = Some d' \<longrightarrow> safe_step d d')"

lemma effect_ok_None [simp]: "effect_ok None"
  by (auto simp: effect_ok_def run_effect_def)

lemma effect_okD: "effect_ok e \<Longrightarrow> run_effect e d = Some d' \<Longrightarrow> safe_step d d'"
  by (auto simp: effect_ok_def)

lemma locked_owned_run_InrD:
  "locked_owned_run now rid owner db = Inr row \<Longrightarrow> find_run rid db = Some row \<and> holds_lease now owner row"
  by (auto simp: locked_owned_run_def split: option.splits if_splits)

lemma holds_leaseD:
  assumes "holds_lease now owner row"
  shows "run_status row = Run_pending \<or> run_status row = Run_running" and "run_lease_owner row = Some owner"
    and "sql_gt (run_lease_expires_at row) now"
  using assms by (auto simp: holds_lease_def)

lemma safe_step_accept_in_session:
  "accept_in_session rid mid cid uid rp rs um us as ws t db = Inr (row, db') \<Longrightarrow> safe_step db db'"
  by (auto simp: accept_in_session_def Let_def split: option.splits intro: safe_step_insert_run)

lemma safe_step_accept: "safe_step db (snd (accept now rid mid cid uid rp rs db))"
  by (auto simp: accept_def safe_step_accept_in_session split: sum.splits)

lemma safe_step_claim: "safe_step db (snd (claim now rid owner lease db))"
  unfolding claim_def
  by (auto intro!: safe_step_update_runs simp: claimable_by_def run_le_def slot_safe_def)

lemma safe_step_renew: "safe_step db (snd (renew now rid owner lease db))"
  unfolding renew_def by (auto intro!: safe_step_update_runs simp: run_le_def slot_safe_def)

lemma run_le_live:
  assumes "slot_safe r r'" and "run_operation_seq r' = run_operation_seq r"
    and "run_last_event_offset r \<le> run_last_event_offset r'" and "run_snapshot_version r \<le> run_snapshot_version r'"
    and "run_status r' = run_status r \<or> run_status r \<in> set LIVE_STATUSES"
  shows "run_le r r'"
  using assms by (auto simp: run_le_def)

lemma safe_step_append_operation:
  assumes "effect_ok eff"
  shows "safe_step db (snd (append_operation now rid owner ty ph sf pl eff db))"
proof (cases "locked_owned_run now rid owner db")
  case (Inr row)
  show ?thesis
  proof (cases "run_effect eff db")
    case (Some db1)
    have "safe_step db1 (snd (append_locked owner ty ph sf pl None (r\<lparr>run_updated_at := now\<rparr>) db1))"
      if "find_run rid db1 = Some r" for r
      using that by (rule safe_step_append_locked) (auto simp: run_le_def slot_safe_def)
    moreover have "safe_step db db1" using assms Some by (rule effect_okD)
    ultimately show ?thesis
      using Inr Some safe_step_trans
      by (auto simp: append_operation_def Let_def split_beta split: option.split)
  qed (simp add: append_operation_def Inr)
qed (simp add: append_operation_def)

lemma safe_step_save_snapshot: "safe_step db (snd (save_snapshot now rid owner ph snap sf db))"
proof (cases "locked_owned_run now rid owner db")
  case (Inr row)
  then show ?thesis
    using locked_owned_run_InrD [OF Inr]
    by (auto simp: save_snapshot_def Let_def split_beta run_le_def slot_safe_def
        intro!: safe_step_append_locked)
qed (simp add: save_snapshot_def)

lemma offset_row_InrD: "offset_row now rid owner terminal db = Inr row \<Longrightarrow> find_run rid db = Some row"
  by (auto simp: offset_row_def dest: locked_owned_run_InrD split: if_splits option.splits)

lemma safe_step_allocate: "safe_step db (snd (allocate_event_offset now rid owner terminal n db))"
proof (cases "offset_row now rid owner terminal db")
  case (Inr row)
  then show ?thesis
    using offset_row_InrD [OF Inr]
    by (auto simp: allocate_event_offset_def Let_def run_le_def slot_safe_def intro!: safe_step_put_run)
qed (simp add: allocate_event_offset_def)

lemma safe_step_append_by_id:
  "append_by_id rid owner ty ph sf pl db = Some db' \<Longrightarrow> safe_step db db'"
  by (auto simp: append_by_id_def intro!: safe_step_append_locked)

lemma safe_step_append_committed:
  "append_committed rid owner c db = Some db' \<Longrightarrow> safe_step db db'"
  by (auto simp: append_committed_def intro: safe_step_append_by_id split: option.splits)

lemma safe_step_complete:
  assumes "effect_ok eff"
  shows "safe_step db (snd (complete now rid owner st usage reason off eff com db))"
proof (cases "locked_owned_run now rid owner db")
  case (Inr row)
  define db1 where "db1 = put_run (complete_row now st usage reason off row) db"
  have "safe_step db db1" if "st \<in> set TERMINAL_STATUSES"
    unfolding db1_def using locked_owned_run_InrD [OF Inr]
    by (intro safe_step_put_run run_le_live)
       (auto simp: complete_row_def slot_safe_def dest: holds_leaseD split: option.splits)
  moreover have "safe_step db1 db3"
    if "Option.bind (Option.bind (run_effect eff db1) (append_committed rid owner com))
          (append_by_id rid owner ty ph sf pl) = Some db3" for ty ph sf pl db3
    using that
    by (auto simp: Option.bind_eq_Some_conv intro: safe_step_trans [OF effect_okD [OF assms]
          safe_step_trans [OF safe_step_append_committed safe_step_append_by_id]])
  ultimately show ?thesis
    unfolding complete_def Inr sum.case db1_def [symmetric]
    by (cases "st \<in> set TERMINAL_STATUSES") (simp_all del: status_sets split: option.split add: safe_step_trans [of db db1])
qed (simp add: complete_def)

lemma safe_step_cancel: "safe_step db (snd (cancel now rid reason db))"
  by (auto simp: cancel_def run_le_def slot_safe_def split: option.splits intro!: safe_step_append_locked)

lemma safe_step_release: "safe_step db (snd (release now rid owner reason db))"
proof (cases "locked_owned_run now rid owner db")
  case (Inr row)
  then show ?thesis
    using locked_owned_run_InrD [OF Inr]
    by (auto simp: release_def intro!: safe_step_append_locked run_le_live)
       (auto simp: slot_safe_def dest: holds_leaseD)
qed (simp add: release_def)

lemma attention_row_SomeD:
  "attention_row now rid owner db = Some (row, w) \<Longrightarrow>
     find_run rid db = Some row \<and> run_status row \<in> set LIVE_STATUSES"
  by (auto simp: attention_row_def dest: locked_owned_run_InrD holds_leaseD
      split: option.splits sum.splits if_splits)

lemma safe_step_needs_attention: "safe_step db (snd (needs_attention now rid reason owner db))"
proof (cases "attention_row now rid owner db")
  case (Some p)
  obtain row w where p: "p = (row, w)" by (cases p)
  show ?thesis
    using Some attention_row_SomeD [of now rid owner db row w]
    by (auto simp: needs_attention_def p pause_row_def slot_safe_def intro!: safe_step_append_locked run_le_live)
qed (simp add: needs_attention_def)

section \<open>Recovery is a safe step\<close>

definition row_step :: "chat_run \<Rightarrow> chat_run \<Rightarrow> chat_run_operation list \<Rightarrow> bool" where
  "row_step row row' xs \<longleftrightarrow> run_le row row' \<and>
     (xs = [] \<and> row' = row \<or>
      (\<exists>x. xs = [x] \<and> op_run_id x = run_id row \<and> op_seq x = run_operation_seq row + 1
         \<and> run_operation_seq row' = run_operation_seq row + 1))"

lemma row_step_recovered:
  assumes "run_status row \<in> set LIVE_STATUSES"
    and "\<And>r. slot_safe r (f r) \<and> run_operation_seq (f r) = run_operation_seq r
          \<and> run_last_event_offset (f r) = run_last_event_offset r \<and> run_snapshot_version (f r) = run_snapshot_version r"
  shows "row_step row (fst (recovered ty ph sf pl f a row)) (fst (snd (recovered ty ph sf pl f a row)))"
  using assms(1)
    assms(2) [of "row\<lparr>run_operation_seq := run_operation_seq row + 1, run_phase := ph, run_last_operation_safety := sf\<rparr>"]
  by (auto simp: recovered_def append_row_def Let_def run_le_def slot_safe_def row_step_def)

lemma row_step_recover_row:
  assumes live: "run_status row \<in> set LIVE_STATUSES"
  shows "row_step row (fst (recover_row now row)) (fst (snd (recover_row now row)))"
proof -
  define Q where "Q p \<longleftrightarrow> row_step row (fst p) (fst (snd p))"
    for p :: "chat_run \<times> chat_run_operation list \<times> recovery_decision option"
  have Qif: "Q x \<Longrightarrow> Q y \<Longrightarrow> Q (if b then x else y)" for x y b by simp
  have Qsame: "Q (row, [], d)" for d by (simp add: Q_def row_step_def)
  have Qrec: "(\<And>r. slot_safe r (f r) \<and> run_operation_seq (f r) = run_operation_seq r
      \<and> run_last_event_offset (f r) = run_last_event_offset r \<and> run_snapshot_version (f r) = run_snapshot_version r)
      \<Longrightarrow> Q (recovered ty ph sf pl f a row)" for ty ph sf pl f a
    unfolding Q_def using live by (rule row_step_recovered)
  have Qatt: "Q (attention_recovered now reason row)" for reason
    unfolding attention_recovered_def by (rule Qrec) (simp add: pause_row_def slot_safe_def)
  have "Q (recover_row now row)"
    unfolding recover_row_def Let_def
    by (intro Qif Qsame Qatt Qrec) (simp_all add: slot_safe_def)
  then show ?thesis by (simp add: Q_def)
qed

lemma filter_concat_by_key:
  assumes "distinct (map run_id rows)" and "\<And>r x. r \<in> set rows \<Longrightarrow> x \<in> set (g r) \<Longrightarrow> op_run_id x = run_id r"
  shows "filter (\<lambda>x. op_run_id x = rid) (concat (map g rows)) =
           (case find_by run_id rid rows of None \<Rightarrow> [] | Some r \<Rightarrow> g r)"
  using assms
proof (induction rows)
  case (Cons r rows)
  have IH: "filter (\<lambda>x. op_run_id x = rid) (concat (map g rows)) =
      (case find_by run_id rid rows of None \<Rightarrow> [] | Some r \<Rightarrow> g r)"
    using Cons.prems by (intro Cons.IH) auto
  have hd: "filter (\<lambda>x. op_run_id x = rid) (g r) = (if run_id r = rid then g r else [])"
    using Cons.prems(2) [of r] by (auto simp: filter_id_conv filter_empty_conv)
  have "find_by run_id rid rows = None" if "run_id r = rid"
    using Cons.prems(1) that by (auto simp: find_by_None_iff)
  with IH hd show ?case by simp
qed simp

text \<open>A pass over some rows that rewrites each and journals at most one operation for it.\<close>

lemma journal_ok_sweep:
  assumes ok: "journal_ok t ops" and dist: "distinct (map run_id t)"
    and rows: "set rows = {r \<in> set t. P r}" "distinct (map run_id rows)"
    and step: "\<And>r. r \<in> set rows \<Longrightarrow> row_step r (f r) (g r)"
  shows "journal_ok (update_where P f t) (ops @ concat (map g rows))"
proof -
  have opid: "op_run_id x = run_id r" if "r \<in> set rows" "x \<in> set (g r)" for r x
    using step [OF that(1)] that(2) by (auto simp: row_step_def)
  have ids: "map run_id (update_where P f t) = map run_id t"
    using step rows(1) by (intro map_update_where) (auto simp: row_step_def run_le_def slot_safe_def)
  have split: "run_ops rid (ops @ concat (map g rows)) =
      run_ops rid ops @ map op_seq (case find_by run_id rid rows of None \<Rightarrow> [] | Some r \<Rightarrow> g r)" for rid
    using filter_concat_by_key [OF rows(2) opid] by (simp add: run_ops_def)
  have j: "0 \<le> run_operation_seq z" "run_ops (run_id z) ops = [1..run_operation_seq z]" if "z \<in> set t" for z
    using ok that by (auto simp: journal_ok_def)
  have "0 \<le> run_operation_seq z \<and> run_ops (run_id z) (ops @ concat (map g rows)) = [1..run_operation_seq z]"
    if z: "z \<in> set (update_where P f t)" for z
  proof -
    obtain r where r: "r \<in> set t" "z = (if P r then f r else r)" using z by (auto simp: set_update_where)
    show ?thesis
    proof (cases "P r")
      case True
      then have mem: "r \<in> set rows" using r rows(1) by auto
      then have "find_by run_id (run_id r) rows = Some r" using rows(2) by (auto intro: find_by_unique)
      moreover have "run_id z = run_id r"
        using step [OF mem] r True by (auto simp: row_step_def run_le_def slot_safe_def)
      ultimately show ?thesis
        using step [OF mem] j [OF r(1)] r True upto_snoc [of "run_operation_seq r"]
        by (auto simp: split row_step_def)
    next
      case False
      have "run_id r' \<noteq> run_id r" if "r' \<in> set rows" for r'
        using that rows(1) dist r(1) False by (auto simp: distinct_map inj_on_def)
      then have "find_by run_id (run_id r) rows = None"
        unfolding find_by_None_iff by (metis imageE)
      then show ?thesis using j [OF r(1)] r False by (simp add: split)
    qed
  qed
  moreover have "op_run_id ` set (ops @ concat (map g rows)) \<subseteq> run_id ` set t"
    using ok opid rows(1) by (fastforce simp: journal_ok_def)
  moreover have "run_id ` set (update_where P f t) = run_id ` set t" using ids by (metis set_map)
  ultimately show ?thesis by (simp add: journal_ok_def)
qed

lemma safe_step_recover: "safe_step db (snd (recover now db))"
proof -
  define rows where "rows = sort_key (\<lambda>r. (run_created_at r, run_id r)) (filter (orphan now) (runs db))"
  define f where "f = (\<lambda>r. fst (recover_row now r))"
  define g where "g = (\<lambda>r. fst (snd (recover_row now r)))"
  define db' where "db' = snd (recover now db)"
  have eq: "runs db' = update_where (orphan now) f (runs db)" "operations db' = operations db @ concat (map g rows)"
    by (simp_all add: db'_def recover_def Let_def rows_def f_def g_def)
  have step: "row_step r (f r) (g r)" if "orphan now r" for r
    using that unfolding f_def g_def by (intro row_step_recover_row) (auto simp: orphan_def)
  have le: "run_le r (f r)" if "orphan now r" for r using step [OF that] by (simp add: row_step_def)
  have "chat_db_ok db'" if ok: "chat_db_ok db"
  proof -
    have "distinct (map run_id (filter (orphan now) (runs db)))"
      using chat_db_okD(1) [OF ok] by (rule distinct_map_filter)
    then have "distinct (map run_id rows)"
      by (simp add: rows_def distinct_map)
    moreover have "set rows = {r \<in> set (runs db). orphan now r}" by (auto simp: rows_def)
    ultimately have "journal_ok (runs db') (operations db')"
      unfolding eq
      by (intro journal_ok_sweep chat_db_okD(1,4) [OF ok]) (simp_all add: step)
    moreover have "runs_ok (runs db')"
      unfolding eq using chat_db_okD(3) [OF ok] le by (intro runs_ok_update) (auto simp: run_le_def)
    ultimately show ?thesis by (simp add: chat_db_ok_def)
  qed
  moreover have "find_run rid db' = map_option (\<lambda>r. if orphan now r then f r else r) (find_run rid db)" for rid
    using le find_run_update_runs [of "orphan now" f rid db]
    by (simp add: find_run_def update_runs_def eq run_le_def slot_safe_def)
  then have "db_le db db'" using le by (auto simp: db_le_def eq)
  ultimately show ?thesis by (simp add: safe_step_def db'_def)
qed

lemma safe_step_bind_session: "safe_step db (snd (bind_session now uid cid kind db))"
  by (auto simp: bind_session_def safe_step_def db_le_def chat_db_ok_def find_run_def split: option.splits)

lemma safe_step_durable_run_open:
  assumes "\<And>i d. safe_step d (interf i d)"
  shows "safe_step db (snd (durable_run_open interf clock fresh uid cid kind ext rp rs lease brid db))"
proof -
  define c where "c = str_or cid (''internal_'' @ fresh 0)"
  define rid where "rid = str_or brid (''run_'' @ fresh 1)"
  define owner where "owner = kind @ '':'' @ fresh 2"
  define base where "base = [(''kind'', JStr kind), (''external_id'', JStr ext)]"
  define db1 where "db1 = interf 0 (snd (bind_session (clock 0) uid c kind db))"
  define acc where "acc = accept (clock 1) rid (''msg_'' @ fresh 3) c uid
     (dict_update base (opt_dict rp)) (Some (dict_update base (opt_dict rs))) db1"
  have 1: "safe_step db (snd (bind_session (clock 0) uid c kind db))" by (rule safe_step_bind_session)
  have 2: "safe_step db (interf 1 (snd acc))"
    unfolding acc_def db1_def
    by (rule safe_step_trans [OF safe_step_trans [OF safe_step_trans [OF 1 assms] safe_step_accept] assms])
  have 3: "safe_step db (snd (claim (clock 2) rid owner lease (interf 1 (snd acc))))"
    using 2 safe_step_claim by (rule safe_step_trans)
  show ?thesis
    unfolding durable_run_open_def Let_def c_def [symmetric] rid_def [symmetric] owner_def [symmetric]
      base_def [symmetric]
    using 1 2 3
    by (auto simp: db1_def acc_def split: prod.split sum.split bool.split) 
qed

lemma safe_step_durable_run_close: "safe_step db (durable_run_close now rid owner kind lost ex db)"
  by (auto simp: durable_run_close_def Let_def safe_step_complete safe_step_needs_attention
      split: binding_exit.split option.split)

section \<open>The journal as a step system\<close>

text \<open>
  One event per public method, with the arguments of the call. \<open>journal_step\<close> is the database after
  the transaction; \<open>journal_good\<close> asks that the caller's effect is itself a safe step.
\<close>

datatype 'd journal_event =
    Ev_accept time string string string string dict "dict option"
  | Ev_claim time string string int
  | Ev_renew time string string int
  | Ev_append time string string string string string "dict option" "'d commit_effect"
  | Ev_snapshot time string string string dict string
  | Ev_offset time string "string option" bool int
  | Ev_complete time string string run_status "dict option" "string option" "int option"
      "'d commit_effect" "committed_operation option"
  | Ev_cancel time string string
  | Ev_release time string string string
  | Ev_attention time string string "string option"
  | Ev_recover time
  | Ev_bind_session time string string string
  | Ev_close time string string string bool binding_exit

fun journal_step :: "'z chat_db_scheme journal_event \<Rightarrow> 'z chat_db_scheme \<Rightarrow> 'z chat_db_scheme" where
  "journal_step (Ev_accept now rid mid cid uid rp rs) db = snd (accept now rid mid cid uid rp rs db)"
| "journal_step (Ev_claim now rid owner lease) db = snd (claim now rid owner lease db)"
| "journal_step (Ev_renew now rid owner lease) db = snd (renew now rid owner lease db)"
| "journal_step (Ev_append now rid owner ty ph sf pl eff) db =
     snd (append_operation now rid owner ty ph sf pl eff db)"
| "journal_step (Ev_snapshot now rid owner ph snap sf) db = snd (save_snapshot now rid owner ph snap sf db)"
| "journal_step (Ev_offset now rid owner term n) db = snd (allocate_event_offset now rid owner term n db)"
| "journal_step (Ev_complete now rid owner st usage reason off eff com) db =
     snd (complete now rid owner st usage reason off eff com db)"
| "journal_step (Ev_cancel now rid reason) db = snd (cancel now rid reason db)"
| "journal_step (Ev_release now rid owner reason) db = snd (release now rid owner reason db)"
| "journal_step (Ev_attention now rid reason owner) db = snd (needs_attention now rid reason owner db)"
| "journal_step (Ev_recover now) db = snd (recover now db)"
| "journal_step (Ev_bind_session now uid cid kind) db = snd (bind_session now uid cid kind db)"
| "journal_step (Ev_close now rid owner kind lost ex) db = durable_run_close now rid owner kind lost ex db"

fun journal_good :: "'z chat_db_scheme journal_event \<Rightarrow> bool" where
  "journal_good (Ev_append now rid owner ty ph sf pl eff) = effect_ok eff"
| "journal_good (Ev_complete now rid owner st usage reason off eff com) = effect_ok eff"
| "journal_good _ = True"

lemmas journal_safe_steps =
  safe_step_accept safe_step_claim safe_step_renew safe_step_append_operation safe_step_save_snapshot
  safe_step_allocate safe_step_complete safe_step_cancel safe_step_release safe_step_needs_attention
  safe_step_recover safe_step_bind_session safe_step_durable_run_close

lemma safe_step_journal: "journal_good e \<Longrightarrow> safe_step db (journal_step e db)"
  by (cases e) (simp_all add: journal_safe_steps)

interpretation journal: step_system journal_step journal_good chat_db_ok
  by unfold_locales (rule safe_stepD(1) [OF safe_step_journal])

lemma db_le_journal_run:
  "list_all journal_good es \<Longrightarrow> chat_db_ok db \<Longrightarrow> db_le db (run_steps journal_step es db)"
  by (rule journal.chain_run [of db_le]) (auto intro: safe_stepD(2) safe_step_journal db_le_trans)

section \<open>Leases\<close>

definition run_holder :: "string \<Rightarrow> 'z chat_db_scheme \<Rightarrow> time \<Rightarrow> string option" where
  "run_holder rid db t =
     (case find_run rid db of
        None \<Rightarrow> None
      | Some r \<Rightarrow> if run_status r \<in> set LIVE_STATUSES \<and> sql_gt (run_lease_expires_at r) t
                   then run_lease_owner r else None)"

definition run_claim :: "string \<Rightarrow> string lease_request \<Rightarrow> 'z chat_db_scheme \<Rightarrow> bool \<times> 'z chat_db_scheme" where
  "run_claim rid q db =
     (case q of (now, d, owner) \<Rightarrow>
        case claim now rid owner d db of (r, db') \<Rightarrow> (r = Inr True, db'))"

lemma claim_affected:
  assumes "chat_db_ok db"
  shows "0 < affected (claimable_by now rid owner) (runs db) \<longleftrightarrow>
           (\<exists>r. find_run rid db = Some r \<and> claimable_by now rid owner r)"
  unfolding affected_pos
  using assms find_run_unique find_run_SomeD by (metis claimable_by_def)

lemma find_run_claim:
  "owner \<noteq> [] \<Longrightarrow> find_run k (snd (claim now rid owner d db)) =
     map_option (\<lambda>r. if claimable_by now rid owner r
        then r\<lparr>run_status := Run_running, run_lease_owner := Some owner,
               run_lease_expires_at := Some (lease_until now d),
               run_started_at := (case run_started_at r of None \<Rightarrow> Some now | s \<Rightarrow> s),
               run_updated_at := now\<rparr> else r) (find_run k db)"
  unfolding claim_def by (simp add: find_run_update_runs)

interpretation run_lease: lease_cell chat_db_ok "run_holder rid" "run_claim rid" for rid
proof
  fix s :: "'a chat_db_scheme" and q now w w' d t
  show "chat_db_ok s \<Longrightarrow> chat_db_ok (snd (run_claim rid q s))"
    by (cases q) (simp add: run_claim_def split_beta safe_stepD(1) [OF safe_step_claim])
  assume ok: "chat_db_ok s"
  note found = claim_affected [OF ok]
  show "\<not> fst (run_claim rid (now, d, w') s)" if "run_holder rid s now = Some w" "w \<noteq> w'"
    using that found
    by (auto simp: run_claim_def claim_def run_holder_def claimable_by_def
        dest: sql_gt_not_le split: option.splits if_splits)
  show "run_holder rid (snd (run_claim rid (now, d, w) s)) t = Some w"
    if "fst (run_claim rid (now, d, w) s)" "now \<le> t" "t < lease_until now d"
  proof -
    have "w \<noteq> []" and "0 < affected (claimable_by now rid w) (runs s)"
      using that(1) by (auto simp: run_claim_def claim_def split: if_splits)
    then show ?thesis using found [of now rid w] that(3) find_run_claim [of w rid now rid d s]
      by (auto simp: run_claim_def run_holder_def split: prod.split)
  qed
  show "run_holder rid (snd (run_claim rid (now, d, w) s)) t = run_holder rid s t"
    if "\<not> fst (run_claim rid (now, d, w) s)" "now \<le> t"
  proof (cases "w = []")
    case False
    then have "\<not> 0 < affected (claimable_by now rid w) (runs s)"
      using that(1) by (auto simp: run_claim_def claim_def)
    with False show ?thesis using found [of now rid w] find_run_claim [of w rid now rid d s]
      by (auto simp: run_claim_def run_holder_def split: prod.split option.split)
  qed (simp add: run_claim_def claim_def)
qed

section \<open>Facts about single operations\<close>

lemma locked_owned_run_fenced:
  assumes "\<And>row. find_run rid db = Some row \<Longrightarrow> \<not> holds_lease now owner row"
  shows "locked_owned_run now rid owner db \<in> {Inl (RunNotFound rid), Inl (RunLeaseLost rid)}"
  using assms by (auto simp: locked_owned_run_def split: option.split)

lemma renew_fenced:
  assumes "chat_db_ok db" and "\<And>row. find_run rid db = Some row \<Longrightarrow> \<not> holds_lease now owner row"
  shows "renew now rid owner lease db = (False, db)"
proof -
  have no: "\<not> renewable_by now rid owner r" if "r \<in> set (runs db)" for r
    using assms(2) [of r] find_run_unique [OF assms(1) that]
    by (auto simp: renewable_by_def holds_lease_def dest: sql_gt_not_le)
  then show ?thesis
    by (auto simp: renew_def affected_pos update_runs_def update_where_none)
qed

lemma find_run_complete:
  assumes "complete now rid owner st usage reason off None com db = (Inr True, db')"
  shows "\<exists>row row'. find_run rid db = Some row \<and> holds_lease now owner row \<and> st \<in> set TERMINAL_STATUSES
           \<and> find_run rid db' = Some row' \<and> run_status row' = st \<and> run_lease_owner row' = None
           \<and> run_writer_slot row' = None \<and> run_id row' = rid \<and> run_chat_id row' = run_chat_id row
           \<and> run_last_event_offset row \<le> run_last_event_offset row'"
proof (cases "locked_owned_run now rid owner db")
  case (Inr row)
  note row = locked_owned_run_InrD [OF Inr]
  have id: "run_id row = rid" using row find_run_SomeD by blast
  define row1 where "row1 = complete_row now st usage reason off row"
  define db1 where "db1 = put_run row1 db"
  have f1: "find_run rid db1 = Some row1"
    using row id find_run_put_run [of rid db row row1] by (simp add: db1_def row1_def complete_row_def)
  define good where "good z \<longleftrightarrow> run_status z = st \<and> run_lease_owner z = None \<and> run_writer_slot z = None
     \<and> run_id z = rid \<and> run_chat_id z = run_chat_id row \<and> run_last_event_offset row \<le> run_last_event_offset z" for z :: chat_run
  have g1: "good row1" using id by (auto simp: good_def row1_def complete_row_def split: option.split)
  have keep: "\<exists>z'. find_run rid d' = Some z' \<and> good z'"
    if "find_run rid d = Some z" "good z" "append_by_id rid w ty ph sf pl d = Some d'" for d d' z w ty ph sf pl
    using that find_run_append_locked [of z d z rid w ty ph sf pl None]
    by (auto simp: append_by_id_def good_def)
  have keep2: "\<exists>z'. find_run rid d' = Some z' \<and> good z'"
    if "find_run rid d = Some z" "good z" "append_committed rid w c d = Some d'" for d d' z w c
    using that keep by (auto simp: append_committed_def split: option.splits)
  have fin: "st \<in> set TERMINAL_STATUSES" using assms by (auto simp: complete_def split: if_splits)
  obtain ty ph sf pl d2 where d2: "append_committed rid owner com db1 = Some d2"
    "append_by_id rid owner ty ph sf pl d2 = Some db'"
    using assms fin
    by (auto simp del: status_sets simp: complete_def Inr db1_def row1_def run_effect_def
        Option.bind_eq_Some_conv split: option.splits if_splits)
  obtain z where "find_run rid d2 = Some z" "good z" using keep2 [OF f1 g1 d2(1)] by blast
  with keep [OF _ _ d2(2)] have "\<exists>z'. find_run rid db' = Some z' \<and> good z'" by blast
  with row fin show ?thesis by (auto simp: good_def)
qed (use assms in \<open>auto simp: complete_def split: if_splits\<close>)

lemma complete_held:
  assumes "find_run rid db = Some row" and "holds_lease now owner row" and "st \<in> set TERMINAL_STATUSES"
  shows "\<exists>db'. complete now rid owner st usage reason off None com db = (Inr True, db')"
proof -
  have id: "run_id row = rid" using assms(1) find_run_SomeD by blast
  have lock: "locked_owned_run now rid owner db = Inr row" using assms by (simp add: locked_owned_run_def)
  have ap: "\<exists>d'. append_by_id rid w ty ph sf pl d = Some d' \<and> find_run rid d' \<noteq> None"
    if "find_run rid d \<noteq> None" for d w ty ph sf pl
    using that find_run_SomeD find_run_append_locked by (fastforce simp: append_by_id_def)
  define db1 where "db1 = put_run (complete_row now st usage reason off row) db"
  have "find_run rid db1 \<noteq> None"
    using assms(1) id find_run_put_run [of rid db row] by (simp add: db1_def complete_row_def)
  then obtain d2 where d2: "append_committed rid owner com db1 = Some d2" "find_run rid d2 \<noteq> None"
    using ap [of db1] that by (cases com) (simp add: append_committed_def, simp add: append_committed_def, metis)
  from ap [OF d2(2)] obtain d3 where
    "append_by_id rid owner (''run_'' @ status_name st) (status_name st) ''terminal''
       (if str_or reason [] = [] then None else Some [(''failure_reason'', JStr (str_or reason []))]) d2 = Some d3"
    by blast
  with d2(1) have "complete now rid owner st usage reason off None com db = (Inr True, d3)"
    unfolding complete_def lock run_effect_def option.case sum.case db1_def [symmetric]
    using assms(3) by (simp del: status_sets)
  then show ?thesis by blast
qed

lemma ids_put_run [simp]: "map run_id (runs (put_run row db)) = map run_id (runs db)"
  unfolding put_run_def by (simp add: map_update_where)

lemma ids_append_locked [simp]:
  "map run_id (runs (snd (append_locked w ty ph sf pl v row db))) = map run_id (runs db)"
  by (simp add: append_locked_def append_row_def Let_def put_run_def add_operation_def map_update_where)

lemma ids_append_by_id: "append_by_id rid w ty ph sf pl db = Some db' \<Longrightarrow> map run_id (runs db') = map run_id (runs db)"
  by (auto simp: append_by_id_def)

lemma ids_append_committed: "append_committed rid w c db = Some db' \<Longrightarrow> map run_id (runs db') = map run_id (runs db)"
  by (auto simp: append_committed_def ids_append_by_id split: option.splits)

lemma ids_complete:
  "map run_id (runs (snd (complete now rid owner st usage reason off None com db))) = map run_id (runs db)"
proof (cases "locked_owned_run now rid owner db")
  case (Inr row)
  define db1 where "db1 = put_run (complete_row now st usage reason off row) db"
  have "map run_id (runs d) = map run_id (runs db)"
    if "Option.bind (append_committed rid owner com db1) (append_by_id rid owner ty ph sf pl) = Some d"
    for d ty ph sf pl
    using that ids_append_by_id [of rid owner ty ph sf pl _ d] ids_append_committed [of rid owner com db1]
    by (auto simp: Option.bind_eq_Some_conv db1_def)
  then show ?thesis
    unfolding complete_def Inr sum.case run_effect_def option.case db1_def [symmetric]
    by (simp del: status_sets split: option.split)
qed (simp add: complete_def)

lemma slot_free_after_release:
  assumes ok: "chat_db_ok db" "chat_db_ok db'" and le: "db_le db db'"
    and ids: "map run_id (runs db') = map run_id (runs db)"
    and row: "find_run rid db = Some row" "run_writer_slot row = Some s"
    and row': "find_run rid db' = Some row'" "run_writer_slot row' = None"
  shows "\<not> slot_taken (run_chat_id row) s db'"
proof
  assume "slot_taken (run_chat_id row) s db'"
  then obtain z' where z': "z' \<in> set (runs db')" "run_chat_id z' = run_chat_id row" "run_writer_slot z' = Some s"
    by (auto simp: slot_taken_def)
  have "run_id z' \<in> set (map run_id (runs db'))" using z'(1) by simp
  then obtain z where z: "z \<in> set (runs db)" "run_id z = run_id z'" unfolding ids by auto
  have "find_run (run_id z) db = Some z" "find_run (run_id z) db' = Some z'"
    using find_run_unique ok z z'(1) by metis+
  then have "run_le z z'" using db_leD [OF le] by fastforce
  then have "run_writer_slot z = Some s" "run_chat_id z = run_chat_id row"
    using z' by (auto simp: run_le_def slot_safe_def)
  moreover have "row \<in> set (runs db)" "run_id row = rid" using row find_run_SomeD by blast+
  ultimately have "z = row"
    using row(2) z chat_db_okD(2) [OF ok(1)] by (simp add: slot_keys_def distinct_map inj_on_def)
  with \<open>find_run (run_id z) db' = Some z'\<close> \<open>run_id row = rid\<close> row' z' show False by auto
qed

section \<open>Properties\<close>

text \<open>A database with one running main-chat run, for the concrete instances.\<close>

definition sample_run :: chat_run where
  "sample_run =
     \<lparr>run_id = ''r1'', run_chat_id = ''c1'', run_user_id = ''u1'', run_message_id = ''m1'',
      run_user_message_id = None, run_user_chat_seq = None, run_assistant_chat_seq = None,
      run_writer_slot = Some ''main'', run_status = Run_running,
      run_request_payload = Some [(''kind'', JStr ''chat'')], run_last_event_offset = 4,
      run_error_message = None, run_usage = None, run_phase = ''pre_model'',
      run_lease_owner = Some ''w1'', run_lease_expires_at = Some 5000000, run_operation_seq = 0,
      run_snapshot_version = 1, run_recovery_snapshot = Some [(''kind'', JStr ''chat'')],
      run_last_operation_safety = ''replayable'', run_failure_reason = None, run_updated_at = 0,
      run_created_at = 0, run_started_at = Some 0, run_completed_at = None\<rparr>"

definition sample_session :: chat_session where
  "sample_session =
     \<lparr>sess_chat_id = ''c1'', sess_user_id = ''u1'', sess_title = ''t'', sess_message_count = 0,
      sess_next_message_seq = Some 1, sess_updated_at = 0, sess_last_message_at = None\<rparr>"

definition sample_db :: chat_db where
  "sample_db = \<lparr>sessions = [sample_session], messages = [], runs = [sample_run], operations = []\<rparr>"

lemma sample_db_ok: "chat_db_ok sample_db"
  by (simp add: chat_db_ok_def runs_ok_def journal_ok_def slot_keys_def run_ops_def sample_db_def sample_run_def)

lemma find_sample_run: "find_run ''r1'' sample_db = Some sample_run"
  by (simp add: find_run_def sample_db_def sample_run_def)

lemma sample_holds: "holds_lease t owner sample_run \<longleftrightarrow> owner = ''w1'' \<and> t < 5000000"
  by (auto simp: holds_lease_def sample_run_def)

text \<open>
  C2. An owner that does not hold a live lease on the run changes nothing: each operation that asks
  for the lease reports it lost (or the run missing), and the database is the one before the call.
\<close>

theorem stale_owner_changes_nothing:
  assumes "chat_db_ok db" and "\<And>row. find_run rid db = Some row \<Longrightarrow> \<not> holds_lease now owner row"
    and "owner \<noteq> []" and "1 \<le> n" and "st \<in> set TERMINAL_STATUSES"
  shows "renew now rid owner lease db = (False, db)
    \<and> append_operation now rid owner ty ph sf pl eff db \<in> {(Inl (RunNotFound rid), db), (Inl (RunLeaseLost rid), db)}
    \<and> save_snapshot now rid owner ph snap sf db \<in> {(Inl (RunNotFound rid), db), (Inl (RunLeaseLost rid), db)}
    \<and> allocate_event_offset now rid (Some owner) False n db
        \<in> {(Inl (RunNotFound rid), db), (Inl (RunLeaseLost rid), db)}
    \<and> complete now rid owner st usage reason off eff' com db = (Inr False, db)
    \<and> release now rid owner why db = (False, db)
    \<and> needs_attention now rid why (Some owner) db = (False, db)
    \<and> require_lease now rid owner db \<in> {Inl (RunNotFound rid), Inl (RunLeaseLost rid)}"
proof (intro conjI)
  note lock = locked_owned_run_fenced [of rid db now owner, OF assms(2)]
  show "renew now rid owner lease db = (False, db)" using assms(1,2) by (rule renew_fenced)
  show "append_operation now rid owner ty ph sf pl eff db
      \<in> {(Inl (RunNotFound rid), db), (Inl (RunLeaseLost rid), db)}"
    using lock by (auto simp: append_operation_def)
  show "save_snapshot now rid owner ph snap sf db
      \<in> {(Inl (RunNotFound rid), db), (Inl (RunLeaseLost rid), db)}"
    using lock by (auto simp: save_snapshot_def)
  show "allocate_event_offset now rid (Some owner) False n db
      \<in> {(Inl (RunNotFound rid), db), (Inl (RunLeaseLost rid), db)}"
    using lock assms(3,4) by (auto simp: allocate_event_offset_def offset_row_def)
  show "complete now rid owner st usage reason off eff' com db = (Inr False, db)"
    using lock assms(5) by (auto simp: complete_def)
  show "release now rid owner why db = (False, db)" using lock by (auto simp: release_def)
  show "needs_attention now rid why (Some owner) db = (False, db)"
    using lock by (auto simp: needs_attention_def attention_row_def)
  show "require_lease now rid owner db \<in> {Inl (RunNotFound rid), Inl (RunLeaseLost rid)}"
    using assms(2) by (auto simp: require_lease_def split: option.split)
qed

theorem stale_owner_changes_nothing_witness:
  "release 6000000 ''r1'' ''w1'' ''late'' sample_db = (False, sample_db)"
  using stale_owner_changes_nothing [OF sample_db_ok, of "''r1''" 6000000 "''w1''" 1 Run_completed]
  by (simp add: find_sample_run sample_holds)

lemma allocate_InrD:
  assumes "allocate_event_offset now rid owner fin n db = (Inr a, db')"
  shows "\<exists>row row'. find_run rid db = Some row \<and> find_run rid db' = Some row' \<and> 1 \<le> n
           \<and> a = run_last_event_offset row + 1 \<and> run_last_event_offset row' = a + n - 1"
proof (cases "offset_row now rid owner fin db")
  case (Inr row)
  then have row: "find_run rid db = Some row" by (rule offset_row_InrD)
  then have "run_id row = rid" using find_run_SomeD by blast
  with assms Inr row show ?thesis
    by (auto simp: allocate_event_offset_def Let_def find_run_put_run [OF row] split: if_splits)
qed (use assms in \<open>auto simp: allocate_event_offset_def split: if_splits\<close>)

text \<open>
  Event offsets are never handed out twice: after an allocation of n offsets starting at a, and
  any further operations of the journal (recovery and new owners included), a later allocation for
  the same run starts at a + n or above.
\<close>

theorem event_offsets_never_reused:
  assumes "chat_db_ok db" and "list_all journal_good es"
    and "fst (allocate_event_offset now rid owner fin n db) = Inr a"
    and "fst (allocate_event_offset now' rid owner' fin' n'
           (run_steps journal_step es (snd (allocate_event_offset now rid owner fin n db)))) = Inr b"
  shows "a + n \<le> b"
proof -
  define db1 where "db1 = snd (allocate_event_offset now rid owner fin n db)"
  have ok: "chat_db_ok db1" unfolding db1_def by (rule safe_stepD(1) [OF safe_step_allocate assms(1)])
  have "allocate_event_offset now rid owner fin n db = (Inr a, db1)" using assms(3) by (simp add: db1_def prod_eq_iff)
  then obtain row where row: "find_run rid db1 = Some row" "run_last_event_offset row = a + n - 1"
    using allocate_InrD by blast
  obtain row' where "find_run rid (run_steps journal_step es db1) = Some row'" "run_le row row'"
    using db_leD [OF db_le_journal_run [OF assms(2) ok] row(1)] by blast
  moreover obtain db2 where "allocate_event_offset now' rid owner' fin' n' (run_steps journal_step es db1) = (Inr b, db2)"
    using assms(4) by (metis db1_def prod.collapse)
  ultimately show ?thesis using allocate_InrD row by (fastforce simp: run_le_def)
qed

theorem event_offsets_never_reused_witness:
  "(8::int) \<le> 8 \<and> fst (allocate_event_offset 1000000 ''r1'' (Some ''w1'') False 3 sample_db) = Inr 5"
proof -
  have 1: "fst (allocate_event_offset 1000000 ''r1'' (Some ''w1'') False 3 sample_db) = Inr 5"
    by code_simp
  have 2: "fst (allocate_event_offset 2000000 ''r1'' (Some ''w1'') False 1
             (run_steps journal_step [Ev_renew 1000000 ''r1'' ''w1'' 60]
                (snd (allocate_event_offset 1000000 ''r1'' (Some ''w1'') False 3 sample_db)))) = Inr 8"
    by code_simp
  show ?thesis using event_offsets_never_reused [OF sample_db_ok _ 1 2] 1 by simp
qed

text \<open>
  A successful \<open>complete\<close> leaves the run with the terminal status that was asked for, without an
  owner and without the writer slot, and the slot the run held is free: the insertion of a next run
  of the same chat into that slot succeeds.
\<close>

theorem complete_frees_writer_slot:
  assumes "chat_db_ok db" and "find_run rid db = Some row" and "run_writer_slot row = Some s"
    and "fst (complete now rid owner st usage reason off None com db) = Inr True"
  shows "\<exists>row'. find_run rid (snd (complete now rid owner st usage reason off None com db)) = Some row'
           \<and> run_status row' = st \<and> run_lease_owner row' = None \<and> run_writer_slot row' = None
           \<and> \<not> slot_taken (run_chat_id row) s (snd (complete now rid owner st usage reason off None com db))"
proof -
  define db' where "db' = snd (complete now rid owner st usage reason off None com db)"
  have eq: "complete now rid owner st usage reason off None com db = (Inr True, db')"
    using assms(4) by (simp add: db'_def prod_eq_iff)
  obtain row' where row': "find_run rid db' = Some row'" "run_status row' = st" "run_lease_owner row' = None"
    "run_writer_slot row' = None"
    using find_run_complete [OF eq] by blast
  have "safe_step db db'" unfolding db'_def by (rule safe_step_complete) simp
  then have "\<not> slot_taken (run_chat_id row) s db'"
    using assms(1-3) row' ids_complete [of now rid owner st usage reason off com db]
    by (intro slot_free_after_release [of db db']) (auto simp: db'_def dest: safe_stepD)
  with row' show ?thesis by (auto simp: db'_def)
qed

theorem complete_frees_writer_slot_witness:
  "\<not> slot_taken ''c1'' ''main'' (snd (complete 1000000 ''r1'' ''w1'' Run_failed None (Some ''x'') None None None sample_db))"
proof -
  have "fst (complete 1000000 ''r1'' ''w1'' Run_failed None (Some ''x'') None None None sample_db) = Inr True"
    by code_simp
  from complete_frees_writer_slot [OF sample_db_ok find_sample_run _ this, of "''main''"]
  show ?thesis by (auto simp: sample_run_def)
qed

text \<open>
  The decision table behind recovery, and what the pass does with an orphaned chat run.
\<close>

definition recovery_policy :: "string \<Rightarrow> string \<Rightarrow> recovery_action" where
  "recovery_policy phase safety =
     (if phase = ''message_committed'' then Act_completed
      else if safety = ''unknown_side_effect'' then Act_needs_attention
      else if phase \<in> set RECOVERABLE_PRE_MODEL_PHASES then Act_resume
      else if phase = ''model_completed'' then Act_resume_from_snapshot
      else Act_needs_attention)"

definition recovery_policy_row :: "chat_run \<Rightarrow> recovery_action" where
  "recovery_policy_row r =
     recovery_policy (str_or (Some (run_phase r)) ''accepted'') (run_last_operation_safety r)"

lemma kind_in_chat:
  assumes "kind_in d [''chat'']"
  shows "\<not> kind_in d SAFE_STOP_ORPHAN_KINDS" and "d \<noteq> []"
  using assms
  by (auto simp: kind_in_def SAFE_STOP_ORPHAN_KINDS_def TOOL_BOUND_INTERNAL_RUN_KINDS_def dict_get_def
      split: option.splits json.splits)

definition settled_as :: "run_status \<Rightarrow> chat_run \<Rightarrow> bool" where
  "settled_as st r \<longleftrightarrow> run_status r = st \<and> run_lease_owner r = None \<and> run_lease_expires_at r = None
     \<and> run_writer_slot r = None"

lemma recover_row_chat:
  assumes "kind_in (opt_dict (run_recovery_snapshot r)) [''chat'']"
  shows "snd (snd (recover_row now r)) = Some (decision_of r (recovery_policy_row r))
    \<and> (case recovery_policy_row r of
         Act_resume \<Rightarrow> fst (recover_row now r) = r
       | Act_resume_from_snapshot \<Rightarrow> fst (recover_row now r) = r
       | Act_completed \<Rightarrow> settled_as Run_completed (fst (recover_row now r))
       | _ \<Rightarrow> settled_as Run_needs_attention (fst (recover_row now r)))"
proof -
  define phase where "phase = str_or (Some (run_phase r)) ''accepted''"
  define unknown where "unknown \<longleftrightarrow> run_last_operation_safety r = ''unknown_side_effect''"
  note kind = kind_in_chat [OF assms]
  have att [simp]: "snd (snd (attention_recovered now reason r)) = Some (decision_of r Act_needs_attention)"
    "settled_as Run_needs_attention (fst (attention_recovered now reason r))" for reason
    by (simp_all add: attention_recovered_def recovered_def append_row_def pause_row_def settled_as_def Let_def)
  note [simp] = recovery_policy_row_def recovery_policy_def phase_def [symmetric] unknown_def [symmetric]
    RECOVERABLE_PRE_MODEL_PHASES_def RECOVERABLE_TOOL_PHASES_def recovered_def append_row_def
    recover_row_def Let_def kind assms
  consider "phase = ''message_committed''" | "phase \<noteq> ''message_committed''" "unknown"
    | "\<not> unknown" "phase = ''accepted'' \<or> phase = ''claimed'' \<or> phase = ''pre_model''"
    | "\<not> unknown" "phase = ''model_completed''"
    | "\<not> unknown" "phase \<noteq> ''message_committed''" "phase \<noteq> ''accepted''" "phase \<noteq> ''claimed''"
        "phase \<noteq> ''pre_model''" "phase \<noteq> ''model_completed''"
    by blast
  then show ?thesis
  proof cases
    case 1 then show ?thesis by (simp add: settled_as_def)
  next
    case 2 then show ?thesis by (simp split: if_split)
  next
    case 3 then show ?thesis by (elim disjE) simp_all
  next
    case 4 then show ?thesis by simp
  next
    case 5 then show ?thesis by (simp split: if_split)
  qed
qed

lemma find_run_recover:
  "find_run rid (snd (recover now db)) =
     map_option (\<lambda>r. if orphan now r then fst (recover_row now r) else r) (find_run rid db)"
proof -
  have "run_id (fst (recover_row now r)) = run_id r" if "orphan now r" for r
    using row_step_recover_row [of r now] that by (auto simp: orphan_def row_step_def run_le_def slot_safe_def)
  then show ?thesis
    using find_run_update_runs [of "orphan now" "\<lambda>r. fst (recover_row now r)" rid db]
    by (simp add: find_run_def update_runs_def recover_def Let_def)
qed

lemma recover_decisions:
  "set (fst (recover now db)) =
     {d. \<exists>r\<in>set (runs db). orphan now r \<and> snd (snd (recover_row now r)) = Some d}"
  unfolding recover_def Let_def List.map_filter_def by (auto simp: image_iff) force

text \<open>
  C5. Recovery decides every orphaned chat run by the table \<open>recovery_policy\<close>: a run is resumed only
  before its model call, or from its snapshot after a completed one, and never when its last
  operation has an unknown side effect; it is then left as it is. In every other case the run is
  settled (completed when its message was already committed, otherwise needing attention), with its
  lease and its writer slot given up. The decision is reported with the run's own phase and data.
\<close>

theorem recover_follows_policy:
  assumes "chat_db_ok db" and "r \<in> set (runs db)"
    and "run_status r \<in> set LIVE_STATUSES \<and> (run_lease_owner r = None \<or> \<not> sql_gt (run_lease_expires_at r) now)"
    and "kind_in (opt_dict (run_recovery_snapshot r)) [''chat'']"
  shows "decision_of r (recovery_policy_row r) \<in> set (fst (recover now db))
    \<and> (\<exists>r'. find_run (run_id r) (snd (recover now db)) = Some r' \<and>
         (case recovery_policy_row r of
            Act_resume \<Rightarrow> r' = r
          | Act_resume_from_snapshot \<Rightarrow> r' = r
          | Act_completed \<Rightarrow> settled_as Run_completed r'
          | _ \<Rightarrow> settled_as Run_needs_attention r'))"
proof -
  have "orphan now r" using assms(3) by (cases "run_lease_expires_at r") (auto simp: orphan_def)
  with recover_row_chat [OF assms(4), of now] find_run_unique [OF assms(1,2)] assms(2) show ?thesis
    by (auto simp: recover_decisions find_run_recover)
qed

theorem recover_follows_policy_witness:
  "\<exists>r'. find_run ''r1'' (snd (recover 5000000 sample_db)) = Some r' \<and> r' = sample_run"
proof -
  have "recovery_policy_row sample_run = Act_resume"
    "run_status sample_run \<in> set LIVE_STATUSES
       \<and> (run_lease_owner sample_run = None \<or> \<not> sql_gt (run_lease_expires_at sample_run) 5000000)"
    "kind_in (opt_dict (run_recovery_snapshot sample_run)) [''chat'']" "run_id sample_run = ''r1''"
    by code_simp+
  moreover have "sample_run \<in> set (runs sample_db)" by (simp add: sample_db_def)
  ultimately show ?thesis
    using recover_follows_policy [OF sample_db_ok, of sample_run 5000000] by simp
qed

lemma recover_row_cases:
  "run_status (fst (recover_row now r)) \<notin> set LIVE_STATUSES
   \<or> fst (recover_row now r) = r \<and> fst (snd (recover_row now r)) = []"
proof -
  define Q where "Q p \<longleftrightarrow> run_status (fst p) \<notin> set LIVE_STATUSES \<or> fst p = r \<and> fst (snd p) = []"
    for p :: "chat_run \<times> chat_run_operation list \<times> recovery_decision option"
  have Qif: "Q x \<Longrightarrow> Q y \<Longrightarrow> Q (if b then x else y)" for x y b by simp
  have Qsame: "Q (r, [], d)" for d by (simp add: Q_def)
  have Qrec: "(\<And>z. run_status (f z) \<notin> set LIVE_STATUSES) \<Longrightarrow> Q (recovered ty ph sf pl f a r)" for ty ph sf pl f a
    by (simp del: status_sets add: Q_def recovered_def append_row_def Let_def)
  have Qatt: "Q (attention_recovered now reason r)" for reason
    unfolding attention_recovered_def by (rule Qrec) (simp add: pause_row_def)
  have "Q (recover_row now r)"
    unfolding recover_row_def Let_def by (intro Qif Qsame Qatt Qrec) simp_all
  then show ?thesis by (simp add: Q_def)
qed

lemma update_where_again:
  assumes "\<And>r. r \<in> set t \<Longrightarrow> P r \<Longrightarrow> f r = r \<or> \<not> P (f r)"
  shows "update_where P f (update_where P f t) = update_where P f t"
  using assms by (induction t) (auto, metis)

text \<open>
  Recovery touches only orphans: runs that are over and runs whose lease is live stay exactly as they are.
  Running it again changes nothing: the second pass finds only the runs that the first one decided to
  resume and nobody has claimed yet.
\<close>

theorem recover_idempotent:
  "snd (recover now (snd (recover now db))) = snd (recover now db)
   \<and> {r \<in> set (runs db). run_status r \<notin> set LIVE_STATUSES} \<subseteq> set (runs (snd (recover now db)))
   \<and> {r \<in> set (runs db). run_lease_owner r \<noteq> None \<and> sql_gt (run_lease_expires_at r) now}
       \<subseteq> set (runs (snd (recover now db)))"
proof -
  define f where "f = (\<lambda>r. fst (recover_row now r))"
  define db' where "db' = snd (recover now db)"
  have runs': "runs db' = update_where (orphan now) f (runs db)"
    by (simp add: db'_def recover_def Let_def f_def)
  have quiet: "fst (snd (recover_row now z)) = []" if z: "z \<in> set (runs db')" "orphan now z" for z
  proof -
    obtain r where r: "r \<in> set (runs db)" "z = (if orphan now r then f r else r)"
      using z(1) by (auto simp: runs' set_update_where)
    with z(2) recover_row_cases [of now r] show ?thesis
      by (auto simp: f_def orphan_def)
  qed
  have "update_where (orphan now) f (runs db') = runs db'"
    unfolding runs' using recover_row_cases [of now]
    by (intro update_where_again) (auto simp: f_def orphan_def)
  moreover have "concat (map (\<lambda>r. fst (snd (recover_row now r)))
      (sort_key (\<lambda>r. (run_created_at r, run_id r)) (filter (orphan now) (runs db')))) = []"
    using quiet by simp
  ultimately have "snd (recover now db') = db'" by (simp add: recover_def Let_def f_def)
  moreover have "{r \<in> set (runs db). \<not> orphan now r} \<subseteq> set (runs db')"
    by (force simp: runs' set_update_where)
  moreover have "\<not> orphan now r" if "run_status r \<notin> set LIVE_STATUSES" for r
    using that by (simp add: orphan_def)
  moreover have "\<not> orphan now r" if "run_lease_owner r \<noteq> None \<and> sql_gt (run_lease_expires_at r) now" for r
    using that by (auto simp: orphan_def dest: sql_gt_not_le)
  ultimately show ?thesis unfolding db'_def by blast
qed

lemma accept_InrD:
  assumes "accept now rid mid cid uid rp rs db = (Inr row, db')"
  shows "find_run rid db = None \<and> find_run rid db' = Some row \<and> run_id row = rid \<and> run_chat_id row = cid
         \<and> run_user_id row = uid"
proof -
  have "insert_run row db = Some db'" "run_id row = rid" "run_chat_id row = cid" "run_user_id row = uid"
    using assms by (auto simp: accept_def accept_in_session_def Let_def split: option.splits sum.splits)
  then show ?thesis
    using find_run_insert_run [of row db db' rid] by (auto simp: insert_run_def split: if_splits)
qed

text \<open>
  A binding that opens has admitted a run that did not exist before (so a caller-chosen run
  identifier admits one caller only), owned by the binding's owner for its lease: the run is
  running, it holds the lease from the claim on, and it belongs to the chat and the user asked for.
\<close>

theorem durable_binding_admits_once:
  assumes "chat_db_ok db" and "\<And>i d. safe_step d (interf i d)"
    and "fst (durable_run_open interf clock fresh uid cid kind ext rp rs lease brid db) = Inr (rid, owner, c)"
    and "clock 2 \<le> t" and "t < lease_until (clock 2) lease"
  shows "find_run rid db = None \<and>
     run_holder rid (snd (durable_run_open interf clock fresh uid cid kind ext rp rs lease brid db)) t = Some owner"
proof -
  define base where "base = [(''kind'', JStr kind), (''external_id'', JStr ext)]"
  define db1 where "db1 = snd (bind_session (clock 0) uid c kind db)"
  define acc where "acc = accept (clock 1) rid (''msg_'' @ fresh 3) c uid
     (dict_update base (opt_dict rp)) (Some (dict_update base (opt_dict rs))) (interf 0 db1)"
  define cl where "cl = claim (clock 2) rid owner lease (interf 1 (snd acc))"
  have "isl (fst acc) = False \<and> fst cl = Inr True
      \<and> snd (durable_run_open interf clock fresh uid cid kind ext rp rs lease brid db) = snd cl"
    using assms(3) unfolding durable_run_open_def
    by (auto simp: Let_def db1_def acc_def cl_def base_def split: prod.splits sum.splits bool.splits)
  then obtain row where acc: "acc = (Inr row, snd acc)" and cl: "fst cl = Inr True"
    and res: "snd (durable_run_open interf clock fresh uid cid kind ext rp rs lease brid db) = snd cl"
    by (cases "fst acc") (auto simp: prod_eq_iff)
  have s1: "safe_step db (interf 0 db1)"
    unfolding db1_def by (rule safe_step_trans [OF safe_step_bind_session assms(2)])
  have "safe_step db (interf 1 (snd acc))"
    unfolding acc_def by (rule safe_step_trans [OF safe_step_trans [OF s1 safe_step_accept] assms(2)])
  then have ok: "chat_db_ok (interf 1 (snd acc))" using assms(1) by (rule safe_stepD)
  have "find_run rid (interf 0 db1) = None"
    using accept_InrD acc unfolding acc_def by metis
  then have "find_run rid db = None"
    using db_leD [OF safe_stepD(2) [OF s1 assms(1)]] by (metis not_None_eq)
  moreover have "run_claim rid (clock 2, lease, owner) (interf 1 (snd acc)) = (True, snd cl)"
    using cl by (simp add: run_claim_def cl_def split_beta)
  then have "run_holder rid (snd cl) t = Some owner"
    using run_lease.acquire_granted [OF ok, of rid "clock 2" lease owner t] assms(4,5) by simp
  ultimately show ?thesis using res by simp
qed

theorem durable_binding_admits_once_witness:
  "run_holder ''run_b'' (snd (durable_run_open (\<lambda>_ d. d) (\<lambda>_. 0) (\<lambda>_. ''x'') ''u1'' (Some ''c1'') ''batch_item''
      ''e'' None None 10 (Some ''run_b'') sample_db)) 9000000 = Some ''batch_item:x''"
proof -
  have "fst (durable_run_open (\<lambda>_ d. d) (\<lambda>_. 0) (\<lambda>_. ''x'') ''u1'' (Some ''c1'') ''batch_item''
      ''e'' None None 10 (Some ''run_b'') sample_db) = Inr (''run_b'', ''batch_item:x'', ''c1'')"
    by code_simp
  then show ?thesis
    using durable_binding_admits_once [OF sample_db_ok, of "\<lambda>_ d. d" "\<lambda>_. 0" "\<lambda>_. ''x''"]
    by (simp add: lease_until_def seconds_def)
qed

fun exit_status :: "binding_exit \<Rightarrow> run_status" where
  "exit_status Exit_normal = Run_completed"
| "exit_status Exit_cancelled = Run_cancelled"
| "exit_status (Exit_raised cls m None) = Run_failed"
| "exit_status (Exit_raised cls m (Some u)) = Run_needs_attention"

lemma complete_settles:
  assumes "find_run rid db = Some row" and "holds_lease now owner row" and "st \<in> set TERMINAL_STATUSES"
  shows "\<exists>row'. find_run rid (snd (complete now rid owner st usage reason off None com db)) = Some row'
           \<and> run_status row' = st \<and> run_lease_owner row' = None \<and> run_writer_slot row' = None"
  using complete_held [OF assms, of usage reason off com] find_run_complete by fastforce

lemma needs_attention_settles:
  assumes "find_run rid db = Some row" and "holds_lease now owner row"
  shows "\<exists>row'. find_run rid (snd (needs_attention now rid reason (Some owner) db)) = Some row'
           \<and> run_status row' = Run_needs_attention \<and> run_lease_owner row' = None \<and> run_writer_slot row' = None"
proof -
  have "run_id row = rid" using assms(1) find_run_SomeD by blast
  then show ?thesis
    using assms find_run_append_locked [of "pause_row now reason row" db row rid]
    by (simp add: needs_attention_def attention_row_def locked_owned_run_def pause_row_def)
qed

text \<open>
  A binding that is left while its owner still holds the lease settles its run: completed,
  cancelled, failed, or needing attention when the body ended in a tool outcome that is not known;
  the run has no owner and no writer slot afterwards.
\<close>

theorem durable_binding_settles:
  assumes "find_run rid db = Some row" and "holds_lease now owner row"
  shows "\<exists>row'. find_run rid (durable_run_close now rid owner kind False ex db) = Some row'
           \<and> run_status row' = exit_status ex \<and> run_lease_owner row' = None \<and> run_writer_slot row' = None"
proof (cases ex)
  case (Exit_raised cls m u)
  then show ?thesis
    using complete_settles [OF assms] needs_attention_settles [OF assms]
    by (cases u) (simp_all add: durable_run_close_def Let_def)
qed (use complete_settles [OF assms] in \<open>simp_all add: durable_run_close_def Let_def\<close>)

theorem durable_binding_settles_witness:
  "\<exists>row'. find_run ''r1'' (durable_run_close 1000000 ''r1'' ''w1'' ''batch_item'' False
       (Exit_raised ''ToolOutcomeUnknown'' ''m'' (Some ''m'')) sample_db) = Some row'
     \<and> run_status row' = Run_needs_attention"
  using durable_binding_settles [OF find_sample_run, of 1000000 "''w1''" "''batch_item''"
      "Exit_raised ''ToolOutcomeUnknown'' ''m'' (Some ''m'')"]
  by (auto simp: sample_holds)

section \<open>A live lease is exclusive\<close>

text \<open>
  What an event asks of a run: \<open>foreign rid w until\<close> are the events before the time \<open>until\<close> that neither act in the name of \<open>w\<close>
  on the run \<open>rid\<close> nor cancel it. The effect a caller commits with an event of another run must not write this run's row.
\<close>

definition spares_row :: "string \<Rightarrow> 'z chat_db_scheme commit_effect \<Rightarrow> bool" where
  "spares_row rid eff \<longleftrightarrow> (\<forall>d d'. run_effect eff d = Some d' \<longrightarrow> find_run rid d' = find_run rid d)"

fun foreign :: "string \<Rightarrow> string \<Rightarrow> time \<Rightarrow> 'z chat_db_scheme journal_event \<Rightarrow> bool" where
  "foreign rid w until (Ev_accept now r mid cid uid rp rs) \<longleftrightarrow> now < until"
| "foreign rid w until (Ev_claim now r owner lease) \<longleftrightarrow> now < until \<and> (r = rid \<longrightarrow> owner \<noteq> w)"
| "foreign rid w until (Ev_renew now r owner lease) \<longleftrightarrow> now < until \<and> (r = rid \<longrightarrow> owner \<noteq> w)"
| "foreign rid w until (Ev_append now r owner ty ph sf pl eff) \<longleftrightarrow> now < until \<and> (r = rid \<longrightarrow> owner \<noteq> w) \<and> spares_row rid eff"
| "foreign rid w until (Ev_snapshot now r owner ph snap sf) \<longleftrightarrow> now < until \<and> (r = rid \<longrightarrow> owner \<noteq> w)"
| "foreign rid w until (Ev_offset now r owner fin n) \<longleftrightarrow> now < until \<and> (r = rid \<longrightarrow> owner \<noteq> Some w)"
| "foreign rid w until (Ev_complete now r owner st usage reason off eff com) \<longleftrightarrow>
     now < until \<and> (r = rid \<longrightarrow> owner \<noteq> w) \<and> spares_row rid eff"
| "foreign rid w until (Ev_cancel now r reason) \<longleftrightarrow> now < until \<and> r \<noteq> rid"
| "foreign rid w until (Ev_release now r owner reason) \<longleftrightarrow> now < until \<and> (r = rid \<longrightarrow> owner \<noteq> w)"
| "foreign rid w until (Ev_attention now r reason owner) \<longleftrightarrow> now < until \<and> (r = rid \<longrightarrow> owner \<noteq> Some w)"
| "foreign rid w until (Ev_recover now) \<longleftrightarrow> now < until"
| "foreign rid w until (Ev_bind_session now uid cid kind) \<longleftrightarrow> now < until"
| "foreign rid w until (Ev_close now r owner kind lost ex) \<longleftrightarrow> now < until \<and> (r = rid \<longrightarrow> owner \<noteq> w)"

lemma find_run_append_other:
  assumes "find_run (run_id row) db = Some r" and "run_id row \<noteq> rid"
  shows "find_run rid (snd (append_locked owner ty ph sf pl v row db)) = find_run rid db"
  using find_run_append_locked [OF assms(1), of rid] assms(2) by simp

lemma find_run_by_id_other:
  assumes "append_by_id r owner ty ph sf pl db = Some db'" and "r \<noteq> rid"
  shows "find_run rid db' = find_run rid db"
proof -
  obtain row where row: "find_run r db = Some row" "db' = snd (append_locked owner ty ph sf pl None row db)"
    using assms(1) by (auto simp: append_by_id_def)
  have "run_id row = r" using find_run_SomeD [OF row(1)] by simp
  then show ?thesis using find_run_append_other [of row db row rid] row assms(2) by simp
qed

lemma find_run_complete_other:
  assumes "r \<noteq> rid" and "spares_row rid eff"
  shows "find_run rid (snd (complete now r owner st usage reason off eff com db)) = find_run rid db"
proof (cases "locked_owned_run now r owner db")
  case (Inr row)
  have row: "find_run r db = Some row" "run_id row = r"
    using locked_owned_run_InrD [OF Inr] find_run_SomeD by blast+
  define d1 where "d1 = put_run (complete_row now st usage reason off row) db"
  have 1: "find_run rid d1 = find_run rid db"
    unfolding d1_def using row assms(1) by (subst find_run_put_run [of r db row]) (auto simp: complete_row_def)
  have 2: "find_run rid d2 = find_run rid d1" if "run_effect eff d1 = Some d2" for d2
    using assms(2) that by (simp add: spares_row_def)
  have 3: "find_run rid d3 = find_run rid d2" if "append_committed r owner com d2 = Some d3" for d2 d3
    using that find_run_by_id_other [OF _ assms(1)] by (auto simp: append_committed_def split: option.splits)
  have 4: "find_run rid d = find_run rid db"
    if "Option.bind (Option.bind (run_effect eff d1) (append_committed r owner com)) (append_by_id r owner ty ph sf pl) = Some d" for ty ph sf pl d
    using that 1 2 3 find_run_by_id_other [OF _ assms(1)] by (fastforce simp: Option.bind_eq_Some_conv)
  show ?thesis
    unfolding complete_def Inr sum.case d1_def [symmetric] using 4 by (auto split: option.split)
qed (simp add: complete_def)

lemma find_run_attention_other:
  assumes "r \<noteq> rid"
  shows "find_run rid (snd (needs_attention now r reason owner db)) = find_run rid db"
proof (cases "attention_row now r owner db")
  case (Some p)
  obtain row w where p: "p = (row, w)" by (cases p)
  have "find_run r db = Some row"
    using Some p by (auto simp: attention_row_def dest: locked_owned_run_InrD split: option.splits sum.splits if_splits)
  moreover from this have "run_id (pause_row now reason row) = r" using find_run_SomeD [of r db row] by (simp add: pause_row_def)
  ultimately show ?thesis
    using Some p assms find_run_append_other [of "pause_row now reason row" db row rid] by (simp add: needs_attention_def)
qed (simp add: needs_attention_def)

text \<open>The row of a run under a live lease.\<close>

definition leased :: "string \<Rightarrow> string \<Rightarrow> time \<Rightarrow> chat_run \<Rightarrow> bool" where
  "leased rid w until r \<longleftrightarrow>
     run_id r = rid \<and> run_status r \<in> set LIVE_STATUSES \<and> run_lease_owner r = Some w \<and> run_lease_expires_at r = Some until"

lemma leased_fence:
  assumes "find_run rid db = Some r" and "leased rid w until r" and "owner \<noteq> w"
  shows "locked_owned_run now rid owner db = Inl (RunLeaseLost rid)"
  using assms by (simp add: locked_owned_run_def holds_lease_def leased_def)

lemma foreign_step:
  assumes r: "find_run rid db = Some r" and l: "leased rid w until r" and f: "foreign rid w until e"
  shows "find_run rid (journal_step e db) = Some r"
proof -
  note fence = leased_fence [OF r l]
  have locked: "find_run rid (snd (append_locked owner ty ph sf pl v row db)) = Some r"
    if "locked_owned_run now x o2 db = Inr row0" "x \<noteq> rid" "run_id row = run_id row0" for owner ty ph sf pl v row row0 now x o2
    using that locked_owned_run_InrD [OF that(1)] find_run_SomeD [of x db row0] find_run_append_other [of row db row0 rid] r by auto
  show ?thesis
  proof (cases e)
    case (Ev_accept now x mid cid uid rp rs)
    have "find_run rid d = Some r" if "insert_run row db = Some d" "run_id row = x" for row d
      using that r find_run_insert_run [OF that(1), of rid] by (auto simp: insert_run_def split: if_splits)
    then show ?thesis using r Ev_accept by (simp add: accept_def accept_in_session_def Let_def split: option.split)
  next
    case (Ev_claim now x owner lease)
    have "\<not> claimable_by now x owner r" using f l Ev_claim by (auto simp: claimable_by_def leased_def)
    then show ?thesis using Ev_claim r find_run_claim [of owner rid now x lease db] by (cases "owner = []") (simp_all add: claim_def)
  next
    case (Ev_renew now x owner lease)
    have "\<not> renewable_by now x owner r" using f l Ev_renew by (auto simp: renewable_by_def leased_def)
    then show ?thesis using Ev_renew r by (simp add: renew_def find_run_update_runs)
  next
    case (Ev_append now x owner ty ph sf pl eff)
    show ?thesis
    proof (cases "locked_owned_run now x owner db")
      case (Inr row)
      then have x: "x \<noteq> rid" using f Ev_append fence by auto
      have "find_run rid (snd (append_locked owner ty ph sf pl None row2 d)) = Some r"
        if "run_effect eff db = Some d" "find_run x d = Some row1" "run_id row2 = run_id row1" for d row1 row2
      proof -
        have "find_run rid d = Some r" using f Ev_append that(1) r by (simp add: spares_row_def)
        then show ?thesis using find_run_append_other [of row2 d row1 rid] that find_run_SomeD [OF that(2)] x by simp
      qed
      then show ?thesis using Ev_append Inr r by (auto simp: append_operation_def Let_def split_beta split: option.split)
    qed (use Ev_append r in \<open>simp add: append_operation_def\<close>)
  next
    case (Ev_snapshot now x owner ph snap sf)
    show ?thesis
    proof (cases "locked_owned_run now x owner db")
      case (Inr row)
      then have "x \<noteq> rid" using f Ev_snapshot fence by auto
      then show ?thesis using Ev_snapshot Inr locked [OF Inr] by (simp add: save_snapshot_def Let_def split_beta)
    qed (use Ev_snapshot r in \<open>simp add: save_snapshot_def\<close>)
  next
    case (Ev_offset now x owner fin n)
    have "x \<noteq> rid \<and> find_run x db = Some row" if "offset_row now x owner fin db = Inr row" for row
      using that f l r fence Ev_offset offset_row_InrD [OF that]
      by (auto simp: offset_row_def leased_def split: if_splits option.splits)
    then have "find_run rid (put_run row2 db) = Some r" if "offset_row now x owner fin db = Inr row" "run_id row2 = run_id row" for row row2
      using that r find_run_put_run [of x db row row2 rid] find_run_SomeD [of x db row] by auto
    then show ?thesis using Ev_offset r by (auto simp: allocate_event_offset_def Let_def split: sum.split)
  next
    case (Ev_complete now x owner st usage reason off eff com)
    show ?thesis
    proof (cases "x = rid")
      case True
      then show ?thesis using f Ev_complete r fence by (simp add: complete_def)
    qed (use f Ev_complete r in \<open>simp add: find_run_complete_other\<close>)
  next
    case (Ev_cancel now x reason)
    have "find_run rid (snd (append_locked owner ty ph sf pl v row2 db)) = Some r"
      if "find_run x db = Some row" "run_id row2 = run_id row" for owner ty ph sf pl v row row2
      using that f Ev_cancel find_run_SomeD [OF that(1)] find_run_append_other [of row2 db row rid] r by simp
    then show ?thesis using Ev_cancel r by (auto simp: cancel_def split: option.split)
  next
    case (Ev_release now x owner reason)
    show ?thesis
    proof (cases "locked_owned_run now x owner db")
      case (Inr row)
      then have "x \<noteq> rid" using f Ev_release fence by auto
      then show ?thesis using Ev_release Inr locked [OF Inr] by (simp add: release_def)
    qed (use Ev_release r in \<open>simp add: release_def\<close>)
  next
    case (Ev_attention now x reason owner)
    show ?thesis
    proof (cases "x = rid")
      case True
      have "attention_row now rid owner db = None"
        using f r l Ev_attention True fence by (cases owner) (auto simp: attention_row_def leased_def)
      then show ?thesis using Ev_attention True r by (simp add: needs_attention_def)
    qed (use Ev_attention r in \<open>simp add: find_run_attention_other\<close>)
  next
    case (Ev_recover now)
    have "\<not> orphan now r" using f l Ev_recover by (auto simp: orphan_def leased_def)
    then show ?thesis using Ev_recover r by (simp add: find_run_recover)
  next
    case (Ev_bind_session now uid cid kind)
    then show ?thesis using r by (simp add: bind_session_def find_run_def split: option.split)
  next
    case (Ev_close now x owner kind lost ex)
    have c: "find_run rid (snd (complete now x owner st usage reason off None com db)) = Some r" for st usage reason off com
    proof (cases "x = rid")
      case True
      then show ?thesis using f Ev_close r fence by (simp add: complete_def)
    qed (use r in \<open>simp add: find_run_complete_other spares_row_def run_effect_def\<close>)
    have a: "find_run rid (snd (needs_attention now x reason (Some owner) db)) = Some r" for reason
    proof (cases "x = rid")
      case True
      have "attention_row now rid (Some owner) db = None" using f Ev_close True fence by (simp add: attention_row_def)
      then show ?thesis using True r by (simp add: needs_attention_def)
    qed (use r in \<open>simp add: find_run_attention_other\<close>)
    show ?thesis using Ev_close r c a by (auto simp: durable_run_close_def Let_def split: binding_exit.split option.split)
  qed
qed

text \<open>
  C3. A lease on a run is exclusive. While the lease of an owner has not run out, nothing that others do to the journal, in any
  order, changes the row of the run in any way, and every claim by another owner is refused: the lease ends only by
  its time, by what its owner does, or by a cancellation of the run. The effects that callers attach to the commits of
  other runs are taken to leave this row alone.
\<close>

theorem live_lease_is_exclusive:
  assumes "chat_db_ok db" and "find_run rid db = Some r" and "run_status r \<in> set LIVE_STATUSES" and "run_lease_owner r = Some w"
    and "run_lease_expires_at r = Some until" and "list_all journal_good es" and "list_all (foreign rid w until) es"
    and "now < until" and "w' \<noteq> w"
  shows "find_run rid (run_steps journal_step es db) = Some r
    \<and> fst (claim now rid w' d (run_steps journal_step es db)) \<noteq> Inr True
    \<and> find_run rid (snd (claim now rid w' d (run_steps journal_step es db))) = Some r"
proof -
  have l: "leased rid w until r" using assms(2-5) find_run_SomeD by (auto simp: leased_def)
  have "find_run rid (run_steps journal_step es x) = Some r" if "find_run rid x = Some r" for x :: "'a chat_db_scheme"
    using assms(7) that by (induction es arbitrary: x) (auto intro: foreign_step [OF _ l])
  then have r: "find_run rid (run_steps journal_step es db) = Some r" using assms(2) by blast
  have "\<not> claimable_by now rid w' r" using l assms(8,9) by (auto simp: claimable_by_def leased_def)
  then have "fst (claim now rid w' d (run_steps journal_step es db)) \<noteq> Inr True"
    using claim_affected [OF journal.inv_run [OF assms(6,1)], of now rid w'] r by (auto simp: claim_def)
  moreover have "find_run rid (snd (claim now rid w' d (run_steps journal_step es db))) = Some r"
    using foreign_step [OF r l, of "Ev_claim now rid w' d"] assms(8,9) by simp
  ultimately show ?thesis using r by blast
qed

theorem live_lease_is_exclusive_witness:
  "find_run ''r1'' (run_steps journal_step
      [Ev_claim 1000000 ''r1'' ''w2'' 30, Ev_recover 2000000, Ev_release 3000000 ''r1'' ''w2'' ''late'',
       Ev_attention 4000000 ''r1'' ''stuck'' None] sample_db) = Some sample_run"
proof -
  have "run_status sample_run \<in> set LIVE_STATUSES" "run_lease_owner sample_run = Some ''w1''" "run_lease_expires_at sample_run = Some 5000000"
    by (simp_all add: sample_run_def)
  from live_lease_is_exclusive [OF sample_db_ok find_sample_run this, of "[Ev_claim 1000000 ''r1'' ''w2'' 30, Ev_recover 2000000,
      Ev_release 3000000 ''r1'' ''w2'' ''late'', Ev_attention 4000000 ''r1'' ''stuck'' None]" 4000000 "''w2''"]
  show ?thesis by simp
qed

end
