(* ===== verification/Chat_Sequencer.thy ===== *)
theory Chat_Sequencer
  imports Run_Journal
begin

text \<open>
  \<open>core/services/chat_sequencer.py\<close>: per-chat message numbering and the admission of the single
  main writer of a chat, with the row builder of \<open>core/chat/inflight.py\<close>, the allocator
  \<open>reserve_chat_sequences\<close> of \<open>core/db/models/chat.py\<close> and \<open>clamp_message_content\<close> of
  \<open>core/services/chat_service.py\<close>. An admission is one transaction: where a constraint fails the
  database is the one before the call, and the caller learns the run that holds the slot. The random
  identifiers of a call are arguments.

  The lemmas show that a busy chat refuses without a trace, that an admitted turn is numbered after
  every earlier message of its chat, and that a chat accepts again once its writer is released.
\<close>

section \<open>Content limit\<close>

definition CONTENT_MAX :: nat where
  "CONTENT_MAX = 100000"

text \<open>The truncation note, by code points.\<close>

definition TRUNC_NOTE :: utext where
  "TRUNC_NOTE =
     [10, 10, 8230, 65288, 26412, 26465, 22238, 22797, 36807, 38271, 65292, 24050, 25130, 26029, 20445,
      23384, 65307, 23436, 25972, 36807, 31243, 35265, 24037, 20855, 35843, 29992, 35760, 24405, 65289]"

definition THINK_OPEN :: utext where
  "THINK_OPEN = [60, 116, 104, 105, 110, 107, 62]"

definition THINK_CLOSE :: utext where
  "THINK_CLOSE = [60, 47, 116, 104, 105, 110, 107, 62]"

text \<open>\<open>str.count\<close>: occurrences that do not overlap, from the left.\<close>

fun count_text :: "utext \<Rightarrow> utext \<Rightarrow> nat" where
  "count_text p [] = 0"
| "count_text p (c # cs) =
     (if take (length p) (c # cs) = p then Suc (count_text p (drop (length p - 1) cs))
      else count_text p cs)"

definition clamp_message_content :: "utext \<Rightarrow> utext" where
  "clamp_message_content content =
     (if length content \<le> CONTENT_MAX then content
      else let keep = CONTENT_MAX - length TRUNC_NOTE;
               kept = take keep content;
               kept' = (if count_text THINK_OPEN kept > count_text THINK_CLOSE kept
                        then take (keep - length THINK_CLOSE) kept @ THINK_CLOSE else kept)
           in kept' @ TRUNC_NOTE)"

section \<open>Sequence numbers\<close>

datatype seq_error =
    ChatBusyError string string run_status
  | Seq_IntegrityError
  | PermissionError
  | Seq_ValueError string

definition max_chat_seq :: "string \<Rightarrow> 'z chat_db_scheme \<Rightarrow> int" where
  "max_chat_seq cid db =
     (case map msg_chat_seq (filter (\<lambda>m. msg_chat_id m = cid) (messages db)) of
        [] \<Rightarrow> 0
      | x # xs \<Rightarrow> fold max xs x)"

definition seq_owner_matches :: "string \<Rightarrow> string option \<Rightarrow> chat_session \<Rightarrow> bool" where
  "seq_owner_matches cid owner s \<longleftrightarrow> sess_chat_id s = cid
     \<and> (case owner of None \<Rightarrow> True | Some u \<Rightarrow> sess_user_id s = u)"

definition reserve_chat_sequences ::
  "time \<Rightarrow> string \<Rightarrow> int \<Rightarrow> string option \<Rightarrow> 'z chat_db_scheme \<Rightarrow> seq_error + (int \<times> 'z chat_db_scheme)" where
  "reserve_chat_sequences now cid count owner db =
     (if count < 1 then Inl (Seq_ValueError ''count must be positive'')
      else case find (seq_owner_matches cid owner) (sessions db) of
             None \<Rightarrow> Inl (if owner = None then Seq_ValueError ''chat session does not exist'' else PermissionError)
           | Some s \<Rightarrow>
               let current = (case sess_next_message_seq s of None \<Rightarrow> 1 | Some n \<Rightarrow> n);
                   max_next = max_chat_seq cid db + 1;
                   first = (if current \<ge> max_next then current else max_next)
               in Inr (first,
                       db\<lparr>sessions := update_where (seq_owner_matches cid owner)
                            (\<lambda>s. s\<lparr>sess_next_message_seq := Some (first + count), sess_updated_at := now\<rparr>)
                            (sessions db)\<rparr>))"

section \<open>Rows of an admission\<close>

definition MAIN_WRITER_SLOT :: string where
  "MAIN_WRITER_SLOT = ''main''"

definition mark :: "string \<Rightarrow> string \<Rightarrow> int option \<Rightarrow> dict" where
  "mark rid phase event_offset =
     [(''run_id'', JStr rid), (''phase'', JStr phase)]
     @ (case event_offset of None \<Rightarrow> [] | Some k \<Rightarrow> [(''event_offset'', JInt k)])"

definition new_assistant_row ::
  "string \<Rightarrow> string \<Rightarrow> int \<Rightarrow> string \<Rightarrow> string option \<Rightarrow> time \<Rightarrow> chat_message" where
  "new_assistant_row mid cid chat_seq rid model created_at =
     \<lparr>msg_id = mid, msg_chat_id = cid, msg_role = ''assistant'', msg_chat_seq = chat_seq,
      msg_content = [], msg_model = model,
      msg_extra_data = [(''in_flight'', JObj (mark rid ''accepted'' None)),
                        (''message_id'', JStr mid), (''run_id'', JStr rid)],
      msg_created_at = created_at\<rparr>"

definition new_user_row ::
  "string \<Rightarrow> string \<Rightarrow> int \<Rightarrow> utext \<Rightarrow> string option \<Rightarrow> dict option \<Rightarrow> time \<Rightarrow> chat_message" where
  "new_user_row mid cid chat_seq content model extra now =
     \<lparr>msg_id = mid, msg_chat_id = cid, msg_role = ''user'', msg_chat_seq = chat_seq,
      msg_content = clamp_message_content content, msg_model = model,
      msg_extra_data = opt_dict extra, msg_created_at = now\<rparr>"

definition main_run_row ::
  "string \<Rightarrow> string \<Rightarrow> string \<Rightarrow> string \<Rightarrow> string \<Rightarrow> int \<Rightarrow> int \<Rightarrow> dict \<Rightarrow> time \<Rightarrow> chat_run" where
  "main_run_row rid cid uid assistant_mid user_mid user_seq assistant_seq request_payload now =
     \<lparr>run_id = rid, run_chat_id = cid, run_user_id = uid, run_message_id = assistant_mid,
      run_user_message_id = Some user_mid, run_user_chat_seq = Some user_seq,
      run_assistant_chat_seq = Some assistant_seq, run_writer_slot = Some MAIN_WRITER_SLOT,
      run_status = Run_pending, run_request_payload = Some request_payload,
      run_last_event_offset = 0, run_error_message = None, run_usage = None,
      run_phase = ''accepted'', run_lease_owner = None, run_lease_expires_at = None,
      run_operation_seq = 0, run_snapshot_version = 0, run_recovery_snapshot = None,
      run_last_operation_safety = ''replayable'', run_failure_reason = None,
      run_updated_at = now, run_created_at = now, run_started_at = None, run_completed_at = None\<rparr>"

definition recount :: "string \<Rightarrow> time \<Rightarrow> bool \<Rightarrow> 'z chat_db_scheme \<Rightarrow> 'z chat_db_scheme" where
  "recount cid now touch_last_message db =
     db\<lparr>sessions := update_where (\<lambda>s. sess_chat_id s = cid)
          (\<lambda>s. s\<lparr>sess_message_count := int (length (filter (\<lambda>m. msg_chat_id m = cid) (messages db))),
                 sess_updated_at := now,
                 sess_last_message_at := (if touch_last_message then Some now else sess_last_message_at s)\<rparr>)
          (sessions db)\<rparr>"

record active_run_ref =
  ar_run_id :: string
  ar_message_id :: string
  ar_status :: run_status

definition get_active_run :: "string \<Rightarrow> 'z chat_db_scheme \<Rightarrow> active_run_ref option" where
  "get_active_run cid db =
     (case rev (sort_key (\<lambda>r. (run_created_at r, run_id r))
                  (filter (\<lambda>r. run_chat_id r = cid \<and> run_writer_slot r = Some MAIN_WRITER_SLOT) (runs db))) of
        [] \<Rightarrow> None
      | r # _ \<Rightarrow> Some \<lparr>ar_run_id = run_id r, ar_message_id = run_message_id r, ar_status = run_status r\<rparr>)"

text \<open>
  The end of every admission: insert the rows, recount and commit; a failed constraint rolls back and
  names the holder of the slot.
\<close>

definition insert_messages :: "chat_message list \<Rightarrow> 'z chat_db_scheme \<Rightarrow> 'z chat_db_scheme option" where
  "insert_messages ms db = fold (\<lambda>m acc. Option.bind acc (insert_message m)) ms (Some db)"

definition commit_admission ::
  "string \<Rightarrow> time \<Rightarrow> bool \<Rightarrow> chat_message list \<Rightarrow> chat_run \<Rightarrow> 'z chat_db_scheme \<Rightarrow> 'z chat_db_scheme \<Rightarrow>
   (seq_error + chat_run) \<times> 'z chat_db_scheme" where
  "commit_admission cid now touch ms run db0 db =
     (case Option.bind (insert_messages ms db) (insert_run run) of
        Some db' \<Rightarrow> (Inr run, recount cid now touch db')
      | None \<Rightarrow>
          (case get_active_run cid db0 of
             Some w \<Rightarrow> (Inl (ChatBusyError (ar_run_id w) (ar_message_id w) (ar_status w)), db0)
           | None \<Rightarrow> (Inl Seq_IntegrityError, db0)))"

section \<open>Admission\<close>

definition accept_main_run ::
  "time \<Rightarrow> string \<Rightarrow> string \<Rightarrow> string \<Rightarrow> string \<Rightarrow> string \<Rightarrow> utext \<Rightarrow> dict \<Rightarrow> string option \<Rightarrow> dict option \<Rightarrow>
   'z chat_db_scheme \<Rightarrow> (seq_error + chat_run) \<times> 'z chat_db_scheme" where
  "accept_main_run now rid user_mid assistant_mid cid uid user_content request_payload model
      user_extra_data db =
     (case reserve_chat_sequences now cid 2 (Some uid) db of
        Inl e \<Rightarrow> (Inl e, db)
      | Inr (first_seq, db1) \<Rightarrow>
          commit_admission cid now True
            [new_user_row user_mid cid first_seq user_content model user_extra_data now,
             new_assistant_row assistant_mid cid (first_seq + 1) rid model now]
            (main_run_row rid cid uid assistant_mid user_mid first_seq (first_seq + 1) request_payload now)
            db db1)"

definition delete_tail :: "string \<Rightarrow> int \<Rightarrow> 'z chat_db_scheme \<Rightarrow> 'z chat_db_scheme" where
  "delete_tail cid seq db =
     db\<lparr>messages := filter (\<lambda>m. \<not> (msg_chat_id m = cid \<and> seq \<le> msg_chat_seq m)) (messages db)\<rparr>"

definition rewrite_tail ::
  "string \<Rightarrow> chat_message \<Rightarrow> string option \<Rightarrow> int option \<Rightarrow> 'z chat_db_scheme \<Rightarrow> seq_error + 'z chat_db_scheme" where
  "rewrite_tail cid user_message delete_from_message_id delete_from_chat_seq db =
     (case delete_from_chat_seq of
        None \<Rightarrow> Inr db
      | Some seq \<Rightarrow>
          (case (if str_or delete_from_message_id [] = [] then None
                 else find_message (str_or delete_from_message_id []) db) of
             None \<Rightarrow> Inl (Seq_ValueError ''rewrite boundary is no longer valid'')
           | Some boundary \<Rightarrow>
               if msg_chat_id boundary \<noteq> cid \<or> msg_chat_seq boundary \<noteq> seq
               then Inl (Seq_ValueError ''rewrite boundary is no longer valid'')
               else if seq \<le> msg_chat_seq user_message
               then Inl (Seq_ValueError ''rewrite boundary must follow the user anchor'')
               else if affected (\<lambda>m. msg_chat_id m = cid \<and> seq \<le> msg_chat_seq m) (messages db) = 0
               then Inl (Seq_ValueError ''rewrite boundary no longer exists'')
               else Inr (delete_tail cid seq db)))"

definition accept_existing_user_run ::
  "time \<Rightarrow> string \<Rightarrow> string \<Rightarrow> string \<Rightarrow> string \<Rightarrow> string \<Rightarrow> dict \<Rightarrow> string option \<Rightarrow> int option \<Rightarrow>
   'z chat_db_scheme \<Rightarrow> (seq_error + chat_run) \<times> 'z chat_db_scheme" where
  "accept_existing_user_run now rid assistant_mid cid uid user_message_id request_payload
      delete_from_message_id delete_from_chat_seq db =
     (case reserve_chat_sequences now cid 1 (Some uid) db of
        Inl e \<Rightarrow> (Inl e, db)
      | Inr (assistant_seq, db1) \<Rightarrow>
          (case find_message user_message_id db1 of
             None \<Rightarrow> (Inl (Seq_ValueError ''existing user message is not a valid run anchor''), db)
           | Some m \<Rightarrow>
               if msg_chat_id m \<noteq> cid \<or> msg_role m \<noteq> ''user''
               then (Inl (Seq_ValueError ''existing user message is not a valid run anchor''), db)
               else case rewrite_tail cid m delete_from_message_id delete_from_chat_seq db1 of
                      Inl e \<Rightarrow> (Inl e, db)
                    | Inr db2 \<Rightarrow>
                        commit_admission cid now False
                          [new_assistant_row assistant_mid cid assistant_seq rid (msg_model m) now]
                          (main_run_row rid cid uid assistant_mid (msg_id m) (msg_chat_seq m)
                             assistant_seq request_payload now)
                          db db2))"

definition accept_replacement_user_run ::
  "time \<Rightarrow> string \<Rightarrow> string \<Rightarrow> string \<Rightarrow> string \<Rightarrow> string \<Rightarrow> string \<Rightarrow> int \<Rightarrow> utext \<Rightarrow> dict \<Rightarrow> string option \<Rightarrow>
   dict option \<Rightarrow> 'z chat_db_scheme \<Rightarrow> (seq_error + chat_run) \<times> 'z chat_db_scheme" where
  "accept_replacement_user_run now rid user_mid assistant_mid cid uid target_user_message_id
      delete_from_chat_seq user_content request_payload model user_extra_data db =
     (case reserve_chat_sequences now cid 2 (Some uid) db of
        Inl e \<Rightarrow> (Inl e, db)
      | Inr (first_seq, db1) \<Rightarrow>
          (case find_message target_user_message_id db1 of
             None \<Rightarrow> (Inl (Seq_ValueError ''replacement target is no longer a valid user message''), db)
           | Some target \<Rightarrow>
               if msg_chat_id target \<noteq> cid \<or> msg_role target \<noteq> ''user''
                  \<or> msg_chat_seq target \<noteq> delete_from_chat_seq
               then (Inl (Seq_ValueError ''replacement target is no longer a valid user message''), db)
               else commit_admission cid now True
                      [new_user_row user_mid cid first_seq user_content model user_extra_data now,
                       new_assistant_row assistant_mid cid (first_seq + 1) rid model now]
                      (main_run_row rid cid uid assistant_mid user_mid first_seq (first_seq + 1)
                         request_payload now)
                      db (delete_tail cid delete_from_chat_seq db1)))"

section \<open>Transitions of an accepted run\<close>

definition cas_runs ::
  "(chat_run \<Rightarrow> bool) \<Rightarrow> (chat_run \<Rightarrow> chat_run) \<Rightarrow> 'z chat_db_scheme \<Rightarrow> bool \<times> 'z chat_db_scheme" where
  "cas_runs P f db = (0 < affected P (runs db), update_runs P f db)"

definition mark_running :: "time \<Rightarrow> string \<Rightarrow> 'z chat_db_scheme \<Rightarrow> bool \<times> 'z chat_db_scheme" where
  "mark_running now rid db =
     cas_runs (\<lambda>r. run_id r = rid \<and> run_status r = Run_pending)
       (\<lambda>r. r\<lparr>run_status := Run_running, run_started_at := Some now, run_updated_at := now\<rparr>) db"

definition release_writer ::
  "time \<Rightarrow> string \<Rightarrow> run_status \<Rightarrow> 'z chat_db_scheme \<Rightarrow> (seq_error + bool) \<times> 'z chat_db_scheme" where
  "release_writer now rid terminal_status db =
     (if terminal_status \<notin> set TERMINAL_STATUSES
      then (Inl (Seq_ValueError ''not a terminal status''), db)
      else let (ok, db') =
                 cas_runs (\<lambda>r. run_id r = rid \<and> run_status r \<in> set LIVE_STATUSES)
                   (\<lambda>r. r\<lparr>run_status := terminal_status, run_writer_slot := None,
                          run_completed_at := Some now, run_updated_at := now\<rparr>) db
           in (Inr ok, db'))"

definition abandon_pending_run ::
  "time \<Rightarrow> string \<Rightarrow> string \<Rightarrow> 'z chat_db_scheme \<Rightarrow> bool \<times> 'z chat_db_scheme" where
  "abandon_pending_run now rid reason db =
     cas_runs (\<lambda>r. run_id r = rid \<and> run_status r = Run_pending)
       (\<lambda>r. r\<lparr>run_status := Run_failed, run_writer_slot := None,
              run_error_message := Some (char_limit 1000 (str_or (Some reason) ''run launch failed'')),
              run_completed_at := Some now, run_updated_at := now\<rparr>) db"

definition fail_run ::
  "time \<Rightarrow> string \<Rightarrow> string \<Rightarrow> 'z chat_db_scheme \<Rightarrow> bool \<times> 'z chat_db_scheme" where
  "fail_run now rid reason db =
     cas_runs (\<lambda>r. run_id r = rid \<and> run_status r \<in> set LIVE_STATUSES)
       (\<lambda>r. r\<lparr>run_status := Run_failed, run_writer_slot := None,
              run_error_message := Some (char_limit 1000 (str_or (Some reason) ''run failed'')),
              run_completed_at := Some now, run_updated_at := now\<rparr>) db"

section \<open>Admission is a safe step\<close>

lemma safe_step_frame: "runs db' = runs db \<Longrightarrow> operations db' = operations db \<Longrightarrow> safe_step db db'"
  by (auto simp: safe_step_def chat_db_ok_def db_le_def find_run_def)

lemma safe_step_cas_runs:
  assumes "\<And>r. P r \<Longrightarrow> run_le r (f r) \<and> run_operation_seq (f r) = run_operation_seq r"
  shows "safe_step db (snd (cas_runs P f db))"
  unfolding cas_runs_def using safe_step_update_runs [OF assms] by simp

lemma insert_message_frame:
  "insert_message m db = Some db' \<Longrightarrow>
     db' = db\<lparr>messages := messages db @ [m]\<rparr>"
  by (auto simp: insert_message_def split: if_splits)

lemma insert_messages_simps:
  "insert_messages [] db = Some db"
  "insert_messages (m # ms) db = Option.bind (insert_message m db) (insert_messages ms)"
proof -
  have none: "fold (\<lambda>m acc. Option.bind acc (insert_message m)) ms None = None" for ms :: "chat_message list"
    by (induction ms) auto
  show "insert_messages [] db = Some db" by (simp add: insert_messages_def)
  show "insert_messages (m # ms) db = Option.bind (insert_message m db) (insert_messages ms)"
    by (cases "insert_message m db") (simp_all add: insert_messages_def none)
qed

lemma insert_messages_frame:
  "insert_messages ms db = Some db' \<Longrightarrow> db' = db\<lparr>messages := messages db @ ms\<rparr>"
proof (induction ms arbitrary: db)
  case (Cons m ms)
  then obtain d where d: "insert_message m db = Some d" "insert_messages ms d = Some db'"
    by (auto simp: insert_messages_simps Option.bind_eq_Some_conv)
  from Cons.IH [OF d(2)] insert_message_frame [OF d(1)] show ?case by simp
qed (simp add: insert_messages_simps)

lemma safe_step_commit_admission:
  assumes "runs db = runs db0" and "operations db = operations db0" and "run_operation_seq run = 0"
  shows "safe_step db0 (snd (commit_admission cid now touch ms run db0 db))"
proof (cases "Option.bind (insert_messages ms db) (insert_run run)")
  case (Some d)
  then obtain d1 where d1: "insert_messages ms db = Some d1" "insert_run run d1 = Some d"
    by (auto simp: Option.bind_eq_Some_conv)
  have "safe_step db0 d1" using insert_messages_frame [OF d1(1)] assms by (intro safe_step_frame) auto
  moreover have "safe_step d1 d" using d1(2) assms(3) by (rule safe_step_insert_run)
  moreover have "safe_step d (recount cid now touch d)" by (rule safe_step_frame) (simp_all add: recount_def)
  ultimately have "safe_step db0 (recount cid now touch d)" by (blast intro: safe_step_trans)
  then show ?thesis using Some by (simp add: commit_admission_def)
qed (simp add: commit_admission_def split: option.split)

lemma reserve_frame:
  assumes "reserve_chat_sequences now cid n owner db = Inr (first, db1)"
  shows "runs db1 = runs db" "operations db1 = operations db" "messages db1 = messages db"
  using assms by (auto simp: reserve_chat_sequences_def Let_def split: if_splits option.splits)

lemma rewrite_tail_frame:
  assumes "rewrite_tail cid m mid seq db = Inr db'"
  shows "runs db' = runs db" "operations db' = operations db" "sessions db' = sessions db"
    "set (messages db') \<subseteq> set (messages db)"
  using assms
  by (auto simp: rewrite_tail_def delete_tail_def split: option.splits if_splits)

lemma safe_step_accept_main_run:
  "safe_step db (snd (accept_main_run now rid um am cid uid content rp model extra db))"
  by (auto simp: accept_main_run_def main_run_row_def split: sum.split prod.split
      intro!: safe_step_commit_admission dest: reserve_frame)

lemma safe_step_accept_existing:
  "safe_step db (snd (accept_existing_user_run now rid am cid uid um rp dm ds db))"
  by (auto simp: accept_existing_user_run_def main_run_row_def split: sum.split prod.split option.split
      intro!: safe_step_commit_admission) (metis reserve_frame rewrite_tail_frame)+

lemma safe_step_accept_replacement:
  "safe_step db (snd (accept_replacement_user_run now rid um am cid uid tm ds content rp model extra db))"
  by (auto simp: accept_replacement_user_run_def main_run_row_def delete_tail_def
      split: sum.split prod.split option.split
      intro!: safe_step_commit_admission dest: reserve_frame)

lemma safe_step_mark_running: "safe_step db (snd (mark_running now rid db))"
  unfolding mark_running_def by (rule safe_step_cas_runs) (auto simp: run_le_def slot_safe_def)

lemma safe_step_release_writer: "safe_step db (snd (release_writer now rid st db))"
  unfolding release_writer_def
  by (auto simp: split_beta Let_def intro!: safe_step_cas_runs) (auto simp: run_le_def slot_safe_def)

lemma safe_step_abandon: "safe_step db (snd (abandon_pending_run now rid reason db))"
  unfolding abandon_pending_run_def by (rule safe_step_cas_runs) (auto simp: run_le_def slot_safe_def)

lemma safe_step_fail_run: "safe_step db (snd (fail_run now rid reason db))"
  unfolding fail_run_def by (rule safe_step_cas_runs) (auto simp: run_le_def slot_safe_def)

lemmas sequencer_safe_steps =
  safe_step_accept_main_run safe_step_accept_existing safe_step_accept_replacement safe_step_mark_running
  safe_step_release_writer safe_step_abandon safe_step_fail_run

section \<open>The holder of the slot\<close>

lemma singleton_listI:
  assumes "\<And>z. z \<in> set xs \<Longrightarrow> z = r" and "distinct xs" and "r \<in> set xs"
  shows "xs = [r]"
proof (cases xs)
  case (Cons y ys)
  have "y = r" using assms(1) [of y] Cons by simp
  have "z = r" if "z \<in> set ys" for z using assms(1) [of z] that Cons by simp
  moreover have "r \<notin> set ys" using assms(2) Cons \<open>y = r\<close> by simp
  ultimately have "ys = []" by (metis ex_in_conv set_empty)
  with Cons \<open>y = r\<close> show ?thesis by simp
qed (use assms in simp)

lemma slot_holder_unique:
  assumes "chat_db_ok db" and "r \<in> set (runs db)" "run_chat_id r = cid" "run_writer_slot r = Some s"
  shows "filter (\<lambda>r. run_chat_id r = cid \<and> run_writer_slot r = Some s) (runs db) = [r]"
proof -
  let ?xs = "filter (\<lambda>r. run_chat_id r = cid \<and> run_writer_slot r = Some s) (runs db)"
  have "z = r" if "z \<in> set ?xs" for z
    using chat_db_okD(2) [OF assms(1)] that assms(2-4)
    by (simp add: slot_keys_def distinct_map inj_on_def)
  moreover have "distinct ?xs" using chat_db_okD(1) [OF assms(1)] by (auto simp: distinct_map)
  moreover have "r \<in> set ?xs" using assms(2-4) by simp
  ultimately show ?thesis
    by (rule singleton_listI)
qed

lemma get_active_run_holder:
  assumes "chat_db_ok db" and "r \<in> set (runs db)" "run_chat_id r = cid" "run_writer_slot r = Some MAIN_WRITER_SLOT"
  shows "get_active_run cid db =
           Some \<lparr>ar_run_id = run_id r, ar_message_id = run_message_id r, ar_status = run_status r\<rparr>"
  using slot_holder_unique [OF assms] by (simp add: get_active_run_def)

lemma get_active_run_None: "get_active_run cid db = None \<longleftrightarrow> \<not> slot_taken cid MAIN_WRITER_SLOT db"
proof -
  define xs where "xs = filter (\<lambda>r. run_chat_id r = cid \<and> run_writer_slot r = Some MAIN_WRITER_SLOT) (runs db)"
  have "rev (sort_key (\<lambda>r. (run_created_at r, run_id r)) xs) = [] \<longleftrightarrow> xs = []"
    using length_sort [of "\<lambda>r. (run_created_at r, run_id r)" xs] by (metis length_0_conv rev_is_Nil_conv)
  moreover have "xs = [] \<longleftrightarrow> \<not> slot_taken cid MAIN_WRITER_SLOT db"
    by (auto simp: xs_def slot_taken_def filter_empty_conv)
  ultimately show ?thesis
    unfolding get_active_run_def xs_def [symmetric]
    by (cases "rev (sort_key (\<lambda>r. (run_created_at r, run_id r)) xs)") (simp_all del: rev_is_Nil_conv rev_eq_Cons_iff)
qed

lemma insert_run_slot_taken:
  "run_writer_slot run = Some s \<Longrightarrow> slot_taken (run_chat_id run) s db \<Longrightarrow> insert_run run db = None"
  by (simp add: insert_run_def)

lemma commit_admission_busy:
  assumes "chat_db_ok db0" and "r \<in> set (runs db0)" "run_chat_id r = cid" "run_writer_slot r = Some MAIN_WRITER_SLOT"
    and "runs db = runs db0" and "run_writer_slot run = Some MAIN_WRITER_SLOT" and "run_chat_id run = cid"
  shows "commit_admission cid now touch ms run db0 db =
           (Inl (ChatBusyError (run_id r) (run_message_id r) (run_status r)), db0)"
proof -
  have "insert_run run d = None" if "insert_messages ms db = Some d" for d
    using insert_messages_frame [OF that] assms(2-7)
    by (intro insert_run_slot_taken [of run MAIN_WRITER_SLOT]) (auto simp: slot_taken_def)
  then have "Option.bind (insert_messages ms db) (insert_run run) = None"
    by (cases "insert_messages ms db") auto
  then show ?thesis
    using get_active_run_holder [OF assms(1-4)] by (simp add: commit_admission_def)
qed

section \<open>Numbering\<close>

lemma fold_max_ge:
  fixes x :: int
  shows "x \<le> fold max xs x \<and> (\<forall>y\<in>set xs. y \<le> fold max xs x)"
proof (induction xs arbitrary: x)
  case (Cons a xs)
  have "max a x \<le> fold max xs (max a x)" using Cons.IH [of "max a x"] by simp
  then show ?case using Cons.IH [of "max a x"] by auto
qed simp

lemma max_chat_seq_ge: "m \<in> set (messages db) \<Longrightarrow> msg_chat_id m = cid \<Longrightarrow> msg_chat_seq m \<le> max_chat_seq cid db"
proof -
  assume m: "m \<in> set (messages db)" "msg_chat_id m = cid"
  define xs where "xs = map msg_chat_seq (filter (\<lambda>m. msg_chat_id m = cid) (messages db))"
  have "msg_chat_seq m \<in> set xs" using m by (auto simp: xs_def)
  then show ?thesis
    using fold_max_ge [of "hd xs" "tl xs"]
    unfolding max_chat_seq_def xs_def [symmetric] by (cases xs) auto
qed

lemma reserve_InrD:
  assumes "reserve_chat_sequences now cid n owner db = Inr (first, db1)"
  shows "\<exists>s. find (seq_owner_matches cid owner) (sessions db) = Some s"
    and "max_chat_seq cid db < first"
    and "find_session c db1 \<noteq> None \<longleftrightarrow> find_session c db \<noteq> None"
    and "m \<in> set (messages db) \<Longrightarrow> msg_chat_id m = cid \<Longrightarrow> msg_chat_seq m < first"
proof -
  show "\<exists>s. find (seq_owner_matches cid owner) (sessions db) = Some s" and lt: "max_chat_seq cid db < first"
    using assms by (auto simp: reserve_chat_sequences_def Let_def split: if_splits option.splits)
  have "\<exists>g. sessions db1 = update_where (seq_owner_matches cid owner) g (sessions db)
      \<and> (\<forall>s. sess_chat_id (g s) = sess_chat_id s)"
    using assms by (fastforce simp: reserve_chat_sequences_def Let_def split: if_splits option.splits)
  then obtain g where g: "sessions db1 = update_where (seq_owner_matches cid owner) g (sessions db)"
    "\<And>s. sess_chat_id (g s) = sess_chat_id s" by blast
  then show "find_session c db1 \<noteq> None \<longleftrightarrow> find_session c db \<noteq> None"
    by (simp add: find_session_def find_by_update_where split: option.split)
  show "m \<in> set (messages db) \<Longrightarrow> msg_chat_id m = cid \<Longrightarrow> msg_chat_seq m < first"
    using max_chat_seq_ge lt by fastforce
qed

lemma reserve_owned:
  assumes "find_session cid db = Some s" and "sess_user_id s = uid" and "1 \<le> n"
  shows "\<exists>first db1. reserve_chat_sequences now cid n (Some uid) db = Inr (first, db1)"
proof -
  have "s \<in> set (sessions db)" "sess_chat_id s = cid"
    using assms(1) find_by_SomeD unfolding find_session_def by fastforce+
  then have "find (seq_owner_matches cid (Some uid)) (sessions db) \<noteq> None"
    using assms(2) by (auto simp: find_None_iff seq_owner_matches_def)
  then show ?thesis using assms(3) by (auto simp: reserve_chat_sequences_def Let_def)
qed

lemma length_clamp_message_content: "length (clamp_message_content c) \<le> CONTENT_MAX"
  by (simp add: clamp_message_content_def CONTENT_MAX_def TRUNC_NOTE_def THINK_CLOSE_def Let_def)

lemma admission_row_simps [simp]:
  "msg_id (new_user_row um cid n content model extra now) = um"
  "msg_chat_id (new_user_row um cid n content model extra now) = cid"
  "msg_chat_seq (new_user_row um cid n content model extra now) = n"
  "msg_role (new_user_row um cid n content model extra now) = ''user''"
  "msg_id (new_assistant_row am cid n rid model now) = am"
  "msg_chat_id (new_assistant_row am cid n rid model now) = cid"
  "msg_chat_seq (new_assistant_row am cid n rid model now) = n"
  "msg_role (new_assistant_row am cid n rid model now) = ''assistant''"
  "msg_content (new_assistant_row am cid n rid model now) = []"
  "length (msg_content (new_user_row um cid n content model extra now)) \<le> CONTENT_MAX"
  "run_id (main_run_row rid cid uid am um' n n' rp now) = rid"
  "run_chat_id (main_run_row rid cid uid am um' n n' rp now) = cid"
  "run_writer_slot (main_run_row rid cid uid am um' n n' rp now) = Some MAIN_WRITER_SLOT"
  by (simp_all add: new_user_row_def new_assistant_row_def main_run_row_def length_clamp_message_content)

lemma insert_message_new:
  assumes "find_message (msg_id m) db = None" and "find_session (msg_chat_id m) db \<noteq> None"
    and "msg_role m = ''user'' \<or> msg_role m = ''assistant''" and "length (msg_content m) \<le> CONTENT_MAX"
    and "\<And>z. z \<in> set (messages db) \<Longrightarrow> msg_chat_id z = msg_chat_id m \<Longrightarrow> msg_chat_seq z < msg_chat_seq m"
  shows "insert_message m db = Some (db\<lparr>messages := messages db @ [m]\<rparr>)"
  using assms by (force simp: insert_message_def CONTENT_MAX_def)

lemma insert_run_new:
  assumes "find_run (run_id row) db = None" and "find_session (run_chat_id row) db \<noteq> None"
    and "run_writer_slot row = Some MAIN_WRITER_SLOT" and "\<not> slot_taken (run_chat_id row) MAIN_WRITER_SLOT db"
  shows "insert_run row db = Some (db\<lparr>runs := runs db @ [row]\<rparr>)"
  using assms by (simp add: insert_run_def MAIN_WRITER_SLOT_def)

lemma find_db_update_simps [simp]:
  "find_run rid (db\<lparr>messages := ms\<rparr>) = find_run rid db"
  "find_session cid (db\<lparr>messages := ms\<rparr>) = find_session cid db"
  "slot_taken cid s (db\<lparr>messages := ms\<rparr>) = slot_taken cid s db"
  "find_message mid (db\<lparr>messages := ms @ [m]\<rparr>) =
     (case find_by msg_id mid ms of None \<Rightarrow> if msg_id m = mid then Some m else None | Some x \<Rightarrow> Some x)"
  by (auto simp: find_run_def find_session_def slot_taken_def find_message_def find_by_append split: option.split)

lemma runs_frame: "runs db' = runs db \<Longrightarrow> find_run rid db' = find_run rid db \<and> slot_taken cid s db' = slot_taken cid s db"
  by (simp add: find_run_def slot_taken_def)

lemma commit_pair_free:
  assumes "find_session cid db \<noteq> None" and "find_run rid db = None" and "\<not> slot_taken cid MAIN_WRITER_SLOT db"
    and "find_message um db = None" "find_message am db = None" "um \<noteq> am"
    and "\<And>m. m \<in> set (messages db) \<Longrightarrow> msg_chat_id m = cid \<Longrightarrow> msg_chat_seq m < n"
  shows "commit_admission cid now touch
           [new_user_row um cid n content model extra now, new_assistant_row am cid (n + 1) rid model now]
           (main_run_row rid cid uid am um n (n + 1) rp now) db0 db =
         (Inr (main_run_row rid cid uid am um n (n + 1) rp now),
          recount cid now touch
            (db\<lparr>messages := messages db @ [new_user_row um cid n content model extra now,
                                          new_assistant_row am cid (n + 1) rid model now],
                runs := runs db @ [main_run_row rid cid uid am um n (n + 1) rp now]\<rparr>))"
proof -
  let ?u = "new_user_row um cid n content model extra now"
  let ?a = "new_assistant_row am cid (n + 1) rid model now"
  let ?r = "main_run_row rid cid uid am um n (n + 1) rp now"
  let ?db1 = "db\<lparr>messages := messages db @ [?u]\<rparr>"
  have 1: "insert_message ?u db = Some ?db1"
    using assms by (intro insert_message_new) auto
  have le: "msg_chat_seq z < n + 1" if "z \<in> set (messages ?db1)" "msg_chat_id z = cid" for z
    using that assms(7) [of z] by (cases "z = ?u") simp_all
  have 2: "insert_message ?a ?db1 = Some (?db1\<lparr>messages := messages ?db1 @ [?a]\<rparr>)"
    using assms(1,4-6) le
    by (intro insert_message_new) (simp_all add: find_message_def find_by_append)
  have 3: "insert_run ?r (?db1\<lparr>messages := messages ?db1 @ [?a]\<rparr>) =
      Some (?db1\<lparr>messages := messages ?db1 @ [?a], runs := runs db @ [?r]\<rparr>)"
    using assms by (subst insert_run_new) auto
  show ?thesis
    by (simp add: commit_admission_def insert_messages_simps 1 2 [simplified] 3 [simplified])
qed

lemma commit_admission_InrD:
  assumes "fst (commit_admission cid now touch ms run db0 db) = Inr run'"
  shows "run' = run \<and> messages (snd (commit_admission cid now touch ms run db0 db)) = messages db @ ms
         \<and> runs (snd (commit_admission cid now touch ms run db0 db)) = runs db @ [run]"
proof -
  obtain d where d: "Option.bind (insert_messages ms db) (insert_run run) = Some d"
    using assms by (auto simp: commit_admission_def split: option.splits)
  then obtain d1 where "insert_messages ms db = Some d1" "insert_run run d1 = Some d"
    by (auto simp: Option.bind_eq_Some_conv)
  then have "messages d = messages db @ ms" "runs d = runs db @ [run]"
    using insert_messages_frame [of ms db d1] by (auto simp: insert_run_def split: if_splits)
  with assms d show ?thesis by (simp add: commit_admission_def recount_def)
qed

lemma main_run_busy:
  assumes "chat_db_ok db" and "r \<in> set (runs db)" and "run_chat_id r = cid" and "run_writer_slot r = Some MAIN_WRITER_SLOT"
    and "find_session cid db = Some s" and "sess_user_id s = uid"
  shows "accept_main_run now rid um am cid uid content rp model extra db =
           (Inl (ChatBusyError (run_id r) (run_message_id r) (run_status r)), db)"
proof -
  obtain first db1 where r2: "reserve_chat_sequences now cid 2 (Some uid) db = Inr (first, db1)"
    using reserve_owned [OF assms(5,6), of 2 now] by auto
  then show ?thesis
    using reserve_frame(1) [OF r2] by (simp add: accept_main_run_def commit_admission_busy [OF assms(1-4)])
qed

section \<open>Properties\<close>

text \<open>
  C7. A chat whose main-writer slot is held refuses a new turn, a regenerated turn and a replaced
  turn alike, and leaves no trace: no message, no sequence number and no run of the refused call
  stays in the database. A new turn of the chat's owner is told the run that holds the slot.
\<close>

theorem busy_chat_refuses:
  assumes "chat_db_ok db" and "r \<in> set (runs db)" and "run_chat_id r = cid"
    and "run_writer_slot r = Some MAIN_WRITER_SLOT"
    and "find_session cid db = Some s" and "sess_user_id s = uid"
  shows "accept_main_run now rid um am cid uid content rp model extra db =
           (Inl (ChatBusyError (run_id r) (run_message_id r) (run_status r)), db)
    \<and> (\<exists>e. accept_existing_user_run now rid am cid uid anchor rp del_m del_s db = (Inl e, db))
    \<and> (\<exists>e. accept_replacement_user_run now rid um am cid uid target del content rp model extra db = (Inl e, db))"
proof -
  obtain first db1 where r2: "reserve_chat_sequences now cid 2 (Some uid) db = Inr (first, db1)"
    using reserve_owned [OF assms(5,6), of 2 now] by auto
  note busy = commit_admission_busy [OF assms(1-4)]
  note main_run_busy [OF assms]
  moreover have "\<exists>e. accept_replacement_user_run now rid um am cid uid target del content rp model extra db = (Inl e, db)"
    using reserve_frame(1) [OF r2]
    by (auto simp: accept_replacement_user_run_def r2 busy delete_tail_def split: option.split)
  moreover have "\<exists>e. accept_existing_user_run now rid am cid uid anchor rp del_m del_s db = (Inl e, db)"
  proof -
    obtain f1 d1 where r1: "reserve_chat_sequences now cid 1 (Some uid) db = Inr (f1, d1)"
      using reserve_owned [OF assms(5,6), of 1 now] by auto
    have "runs d2 = runs db" if "rewrite_tail cid m del_m del_s d1 = Inr d2" for m d2
      using rewrite_tail_frame(1) [OF that] reserve_frame(1) [OF r1] by simp
    then show ?thesis
      by (auto simp: accept_existing_user_run_def r1 busy split: option.split sum.split)
  qed
  ultimately show ?thesis by blast
qed

theorem busy_chat_refuses_witness:
  "accept_main_run 1 ''r2'' ''mu'' ''ma'' ''c1'' ''u1'' [104, 105] [] None None sample_db =
     (Inl (ChatBusyError ''r1'' ''m1'' Run_running), sample_db)"
  using busy_chat_refuses [OF sample_db_ok, of sample_run "''c1''" sample_session "''u1''"]
  by (simp add: sample_db_def sample_run_def sample_session_def find_session_def MAIN_WRITER_SLOT_def)

lemma free_slot_admits:
  assumes "find_session cid db = Some s" and "sess_user_id s = uid" and "\<not> slot_taken cid MAIN_WRITER_SLOT db"
    and "find_run rid db = None" and "find_message um db = None" and "find_message am db = None" and "um \<noteq> am"
  shows "\<exists>n db'. accept_main_run now rid um am cid uid content rp model extra db =
             (Inr (main_run_row rid cid uid am um n (n + 1) rp now), db')
           \<and> messages db' = messages db @ [new_user_row um cid n content model extra now,
                                          new_assistant_row am cid (n + 1) rid model now]
           \<and> runs db' = runs db @ [main_run_row rid cid uid am um n (n + 1) rp now]
           \<and> operations db' = operations db \<and> max_chat_seq cid db < n
           \<and> map_option sess_message_count (find_session cid db')
               = Some (int (length (filter (\<lambda>m. msg_chat_id m = cid) (messages db))) + 2)"
proof -
  obtain n db1 where r: "reserve_chat_sequences now cid 2 (Some uid) db = Inr (n, db1)"
    using reserve_owned [OF assms(1,2), of 2 now] by auto
  note frame = reserve_frame [OF r] runs_frame [OF reserve_frame(1) [OF r]]
  have s1: "find_session cid db1 \<noteq> None" using reserve_InrD(3) [OF r] assms(1) by simp
  define db2 where "db2 = db1\<lparr>messages := messages db1 @ [new_user_row um cid n content model extra now,
      new_assistant_row am cid (n + 1) rid model now],
      runs := runs db1 @ [main_run_row rid cid uid am um n (n + 1) rp now]\<rparr>"
  have eq: "accept_main_run now rid um am cid uid content rp model extra db =
      (Inr (main_run_row rid cid uid am um n (n + 1) rp now), recount cid now True db2)"
    unfolding accept_main_run_def r db2_def sum.case prod.case
    using assms s1 frame reserve_InrD(4) [OF r]
    by (intro commit_pair_free) (simp_all add: find_message_def)
  have "find_session cid (recount cid now True db2) =
      map_option (\<lambda>s. s\<lparr>sess_message_count := int (length (filter (\<lambda>m. msg_chat_id m = cid) (messages db2))),
        sess_updated_at := now, sess_last_message_at := Some now\<rparr>) (find_session cid db1)"
    using find_by_SomeD [of sess_chat_id cid "sessions db1"]
    by (auto simp: recount_def find_session_def find_by_update_where db2_def split: option.split)
  then have "map_option sess_message_count (find_session cid (recount cid now True db2)) =
      Some (int (length (filter (\<lambda>m. msg_chat_id m = cid) (messages db))) + 2)"
    using s1 frame by (auto simp: db2_def)
  with eq frame reserve_InrD(2) [OF r] show ?thesis
    by (intro exI [of _ n] exI [of _ "recount cid now True db2"]) (simp add: db2_def recount_def)
qed

text \<open>
  A chat with a free slot admits its owner's next turn. The user message and the empty
  assistant message are appended with consecutive numbers above every number used in the chat, the
  run is pending and holds the slot, the two messages are counted, and nothing else is written.
\<close>

theorem free_chat_admits:
  assumes "find_session cid db = Some s" and "sess_user_id s = uid" and "\<not> slot_taken cid MAIN_WRITER_SLOT db"
    and "find_run rid db = None" and "find_message um db = None" and "find_message am db = None" and "um \<noteq> am"
  shows "\<exists>n db'. accept_main_run now rid um am cid uid content rp model extra db =
             (Inr (main_run_row rid cid uid am um n (n + 1) rp now), db')
           \<and> messages db' = messages db @ [new_user_row um cid n content model extra now,
                                          new_assistant_row am cid (n + 1) rid model now]
           \<and> runs db' = runs db @ [main_run_row rid cid uid am um n (n + 1) rp now]
           \<and> operations db' = operations db \<and> max_chat_seq cid db < n
           \<and> map_option sess_message_count (find_session cid db')
               = Some (int (length (filter (\<lambda>m. msg_chat_id m = cid) (messages db))) + 2)"
  using assms by (rule free_slot_admits)

definition idle_db :: chat_db where
  "idle_db = sample_db\<lparr>runs := []\<rparr>"

theorem free_chat_admits_witness:
  "\<exists>n db'. accept_main_run 1 ''r2'' ''mu'' ''ma'' ''c1'' ''u1'' [104, 105] [] None None idle_db =
     (Inr (main_run_row ''r2'' ''c1'' ''u1'' ''ma'' ''mu'' n (n + 1) [] 1), db') \<and> 0 < n"
proof -
  have "find_session ''c1'' idle_db = Some sample_session" "\<not> slot_taken ''c1'' MAIN_WRITER_SLOT idle_db"
    "find_run ''r2'' idle_db = None" "find_message ''mu'' idle_db = None" "find_message ''ma'' idle_db = None"
    "max_chat_seq ''c1'' idle_db = 0" "sess_user_id sample_session = ''u1''"
    by code_simp+
  with free_chat_admits [of "''c1''" idle_db sample_session "''u1''" "''r2''" "''mu''" "''ma''" 1 "[104, 105]" "[]" None None]
  show ?thesis by auto
qed

text \<open>
  A replaced turn removes exactly the messages of its chat from the replaced one on, and the new
  turn is numbered above all of the chat's earlier messages, the removed ones included: a number is
  never used twice. Messages of other chats and earlier messages are untouched.
\<close>

theorem replacement_rewrites_tail:
  assumes "fst (accept_replacement_user_run now rid um am cid uid target del content rp model extra db) = Inr run"
  shows "\<exists>n. messages (snd (accept_replacement_user_run now rid um am cid uid target del content rp model extra db)) =
             filter (\<lambda>m. \<not> (msg_chat_id m = cid \<and> del \<le> msg_chat_seq m)) (messages db)
             @ [new_user_row um cid n content model extra now, new_assistant_row am cid (n + 1) rid model now]
           \<and> max_chat_seq cid db < n \<and> run = main_run_row rid cid uid am um n (n + 1) rp now"
proof -
  obtain n db1 where r: "reserve_chat_sequences now cid 2 (Some uid) db = Inr (n, db1)"
    using assms by (auto simp: accept_replacement_user_run_def split: sum.splits prod.splits)
  have eq: "accept_replacement_user_run now rid um am cid uid target del content rp model extra db =
      commit_admission cid now True
        [new_user_row um cid n content model extra now, new_assistant_row am cid (n + 1) rid model now]
        (main_run_row rid cid uid am um n (n + 1) rp now) db (delete_tail cid del db1)"
    using assms by (auto simp: accept_replacement_user_run_def r split: option.splits if_splits)
  show ?thesis
    using commit_admission_InrD [OF assms [unfolded eq]] reserve_InrD(2) [OF r] reserve_frame(3) [OF r]
    by (intro exI [of _ n]) (simp add: eq delete_tail_def)
qed

definition dialog_db :: chat_db where
  "dialog_db = idle_db\<lparr>messages :=
     [new_user_row ''mu'' ''c1'' 1 [104, 105] None None 1, new_assistant_row ''ma'' ''c1'' 2 ''r2'' None 1]\<rparr>"

theorem replacement_rewrites_tail_witness:
  "\<exists>n. 2 < n \<and> messages (snd (accept_replacement_user_run 3 ''r3'' ''mv'' ''mb'' ''c1'' ''u1'' ''mu'' 1 [111] [] None None dialog_db))
      = [new_user_row ''mv'' ''c1'' n [111] None None 3, new_assistant_row ''mb'' ''c1'' (n + 1) ''r3'' None 3]"
proof -
  have s: "sessions dialog_db = [sample_session]" "runs dialog_db = []"
    "messages dialog_db = [new_user_row ''mu'' ''c1'' 1 [104, 105] None None 1, new_assistant_row ''ma'' ''c1'' 2 ''r2'' None 1]"
    by (simp_all add: dialog_db_def idle_db_def sample_db_def)
  have 2: "max_chat_seq ''c1'' dialog_db = 2"
    "filter (\<lambda>m. \<not> (msg_chat_id m = ''c1'' \<and> 1 \<le> msg_chat_seq m)) (messages dialog_db) = []"
    by (simp_all add: max_chat_seq_def s)
  have 1: "fst (accept_replacement_user_run 3 ''r3'' ''mv'' ''mb'' ''c1'' ''u1'' ''mu'' 1 [111] [] None None dialog_db) =
     Inr (main_run_row ''r3'' ''c1'' ''u1'' ''mb'' ''mv'' 3 4 [] 3)"
    by (simp add: accept_replacement_user_run_def reserve_chat_sequences_def s 2(1) seq_owner_matches_def
        sample_session_def find_message_def delete_tail_def commit_admission_def insert_messages_simps
        insert_message_def find_session_def find_run_def insert_run_def slot_taken_def CONTENT_MAX_def
        new_user_row_def new_assistant_row_def main_run_row_def MAIN_WRITER_SLOT_def
        clamp_message_content_def)
  show ?thesis using replacement_rewrites_tail [OF 1] 2 by auto
qed

end
