(* ===== verification/Run_Executor.thy ===== *)
theory Run_Executor
  imports Chat_Sequencer
begin

text \<open>
  The database side of \<open>orchestration/chat_run_executor.py\<close>: how a worker starts, numbers its events
  and is stopped from outside. The coroutine that talks to the model is not modelled; what these
  functions ask of the rest of the process (is the task of a run alive here, when was its stream last
  written, is a question to the user open) is an argument.

  The lemmas show that one worker starts per run, that the event numbers all workers of a run hand
  out are distinct, that the reaper spares a leased run, and which stops give the writer slot back.
\<close>

section \<open>Status transitions\<close>

definition EXEC_TERMINAL_STATUSES :: "run_status list" where
  "EXEC_TERMINAL_STATUSES = [Run_needs_attention, Run_completed, Run_failed, Run_cancelled]"

definition claim_run_execution ::
  "time \<Rightarrow> string \<Rightarrow> 'z chat_db_scheme \<Rightarrow> time option \<times> 'z chat_db_scheme" where
  "claim_run_execution started_at rid db =
     (let (ok, db') = cas_runs (\<lambda>r. run_id r = rid \<and> run_status r = Run_pending)
                        (\<lambda>r. r\<lparr>run_status := Run_running, run_started_at := Some started_at,
                               run_updated_at := started_at\<rparr>) db
      in (if ok then Some started_at else None, db'))"

definition lease_free :: "time \<Rightarrow> chat_run \<Rightarrow> bool" where
  "lease_free now r \<longleftrightarrow> run_lease_owner r = None \<or> run_lease_expires_at r = None
     \<or> sql_le (run_lease_expires_at r) now"

definition request_run_stop ::
  "time \<Rightarrow> string \<Rightarrow> run_status \<Rightarrow> string option \<Rightarrow> bool \<Rightarrow> 'z chat_db_scheme \<Rightarrow>
   (journal_error + bool) \<times> 'z chat_db_scheme" where
  "request_run_stop now rid status error_message require_expired_lease db =
     (if status \<notin> set EXEC_TERMINAL_STATUSES then (Inl (ValueError ''not a terminal status''), db)
      else let msg = (if str_or error_message [] = [] then None
                      else Some (char_limit 1000 (str_or error_message [])));
               (ok, db') =
                 cas_runs (\<lambda>r. run_id r = rid \<and> run_status r \<in> set LIVE_STATUSES
                              \<and> (require_expired_lease \<longrightarrow> lease_free now r))
                   (\<lambda>r. r\<lparr>run_status := status, run_completed_at := Some now,
                          run_error_message := (case msg of None \<Rightarrow> run_error_message r | Some m \<Rightarrow> Some m),
                          run_failure_reason := (case msg of None \<Rightarrow> run_failure_reason r | Some m \<Rightarrow> Some m),
                          run_updated_at := now\<rparr>) db
           in (Inr ok, db'))"

definition acknowledge_terminal_writer ::
  "time \<Rightarrow> string \<Rightarrow> 'z chat_db_scheme \<Rightarrow> bool \<times> 'z chat_db_scheme" where
  "acknowledge_terminal_writer now rid db =
     cas_runs (\<lambda>r. run_id r = rid \<and> run_status r \<in> set EXEC_TERMINAL_STATUSES \<and> run_writer_slot r \<noteq> None)
       (\<lambda>r. r\<lparr>run_writer_slot := None, run_updated_at := now\<rparr>) db"

definition acknowledge_never_started_terminal_writer ::
  "time \<Rightarrow> string \<Rightarrow> 'z chat_db_scheme \<Rightarrow> bool \<times> 'z chat_db_scheme" where
  "acknowledge_never_started_terminal_writer now rid db =
     cas_runs (\<lambda>r. run_id r = rid \<and> run_status r \<in> set EXEC_TERMINAL_STATUSES \<and> run_writer_slot r \<noteq> None
                  \<and> run_started_at r = None)
       (\<lambda>r. r\<lparr>run_writer_slot := None, run_updated_at := now\<rparr>) db"

section \<open>Starting a worker\<close>

text \<open>
  The opening of \<open>_run_workflow\<close>. \<open>interf i\<close> is what other processes commit after the i-th
  transaction, \<open>clock i\<close> the time the i-th one reads.
\<close>

datatype worker_start =
    Already_claimed
  | Lease_refused
  | Fenced_before_start
  | Worker_started

definition initial_claim ::
  "bool \<Rightarrow> time \<Rightarrow> string \<Rightarrow> 'z chat_db_scheme \<Rightarrow> bool \<times> 'z chat_db_scheme" where
  "initial_claim recovering now rid db =
     (if recovering then (True, db)
      else let (claimed_at, d) = claim_run_execution now rid db in (claimed_at \<noteq> None, d))"

definition start_worker ::
  "(nat \<Rightarrow> 'z chat_db_scheme \<Rightarrow> 'z chat_db_scheme) \<Rightarrow> (nat \<Rightarrow> time) \<Rightarrow> string \<Rightarrow> string \<Rightarrow> int \<Rightarrow> bool \<Rightarrow>
   'z chat_db_scheme \<Rightarrow> worker_start \<times> 'z chat_db_scheme" where
  "start_worker interf clock rid owner lease_seconds recovering db =
     (let (claimed, db1) = initial_claim recovering (clock 0) rid db
      in if \<not> claimed
         then (Already_claimed, snd (acknowledge_never_started_terminal_writer (clock 1) rid (interf 0 db1)))
         else case claim (clock 1) rid owner lease_seconds (interf 0 db1) of
                (Inr True, db2) \<Rightarrow>
                  (case append_operation (clock 2) rid owner ''worker_started'' ''pre_model'' ''replayable''
                          None None (interf 1 db2) of
                     (Inl _, db3) \<Rightarrow> (Fenced_before_start, db3)
                   | (Inr _, db3) \<Rightarrow> (Worker_started, db3))
              | (_, db2) \<Rightarrow>
                  (Lease_refused,
                   if recovering then db2
                   else snd (acknowledge_terminal_writer (clock 2) rid (interf 1 db2))))"

section \<open>Event numbers of a worker\<close>

definition OFFSET_RESERVATION :: int where
  "OFFSET_RESERVATION = 64"

definition CANCEL_VISIBILITY :: time where
  "CANCEL_VISIBILITY = milliseconds 250"

record event_offsets =
  eo_next :: int
  eo_remaining :: int
  eo_proven_at :: time
  eo_last :: int

definition fresh_offsets :: event_offsets where
  "fresh_offsets = \<lparr>eo_next = 0, eo_remaining = 0, eo_proven_at = 0, eo_last = 0\<rparr>"

definition prove_ownership ::
  "time \<Rightarrow> time \<Rightarrow> bool \<Rightarrow> string \<Rightarrow> string \<Rightarrow> event_offsets \<Rightarrow> 'z chat_db_scheme \<Rightarrow> journal_error + event_offsets" where
  "prove_ownership tick now lease_lost rid owner st db =
     (if lease_lost then Inl (RunLeaseLost rid)
      else if tick - eo_proven_at st < CANCEL_VISIBILITY then Inr st
      else case require_lease now rid owner db of
             Inl e \<Rightarrow> Inl e
           | Inr _ \<Rightarrow> Inr (st\<lparr>eo_proven_at := tick\<rparr>))"

definition take_next :: "event_offsets \<Rightarrow> int \<times> event_offsets" where
  "take_next st =
     (eo_next st, st\<lparr>eo_next := eo_next st + 1, eo_remaining := eo_remaining st - 1, eo_last := eo_next st\<rparr>)"

definition take_offset ::
  "time \<Rightarrow> time \<Rightarrow> bool \<Rightarrow> string \<Rightarrow> string \<Rightarrow> bool \<Rightarrow> event_offsets \<Rightarrow> 'z chat_db_scheme \<Rightarrow>
   (journal_error + int) \<times> event_offsets \<times> 'z chat_db_scheme" where
  "take_offset tick now lease_lost rid owner terminal st db =
     (if terminal then
        (case allocate_event_offset now rid None True 1 db of
           (Inl e, db') \<Rightarrow> (Inl e, st\<lparr>eo_remaining := 0\<rparr>, db')
         | (Inr k, db') \<Rightarrow> (Inr k, st\<lparr>eo_remaining := 0, eo_last := k\<rparr>, db'))
      else if eo_remaining st = 0 then
        (case allocate_event_offset now rid (Some owner) False OFFSET_RESERVATION db of
           (Inl e, db') \<Rightarrow> (Inl e, st, db')
         | (Inr k, db') \<Rightarrow>
             let (n, st') = take_next (st\<lparr>eo_next := k, eo_remaining := OFFSET_RESERVATION,
                                          eo_proven_at := tick\<rparr>)
             in (Inr n, st', db'))
      else (case prove_ownership tick now lease_lost rid owner st db of
              Inl e \<Rightarrow> (Inl e, st, db)
            | Inr st1 \<Rightarrow> let (n, st') = take_next st1 in (Inr n, st', db)))"

section \<open>Stopping a run from outside\<close>

text \<open>
  \<open>_write_terminal_to_stream\<close>: two terminal event numbers; an exception, of the journal or of the
  stream after the first event, ends it silently. \<open>xadd_ok\<close> says whether the first write succeeds.
\<close>

definition write_terminal_to_stream ::
  "time \<Rightarrow> bool \<Rightarrow> string \<Rightarrow> 'z chat_db_scheme \<Rightarrow> 'z chat_db_scheme" where
  "write_terminal_to_stream now xadd_ok rid db =
     (case allocate_event_offset now rid None True 1 db of
        (Inl _, db1) \<Rightarrow> db1
      | (Inr _, db1) \<Rightarrow> if xadd_ok then snd (allocate_event_offset now rid None True 1 db1) else db1)"

datatype cancel_error = ChatRunNotFound | ChatRunPermissionDenied

definition COOPERATIVE_KINDS :: "string list" where
  "COOPERATIVE_KINDS = [''plan_execute'', ''autonomous_loop'']"

text \<open>
  \<open>task\<close> is the task of the run in this process, if it has one that is not done: \<open>Some d\<close> where \<open>d\<close>
  tells whether it is done after the bounded wait.
\<close>

definition cancel_run ::
  "time \<Rightarrow> bool \<Rightarrow> bool option \<Rightarrow> string \<Rightarrow> string \<Rightarrow> 'z chat_db_scheme \<Rightarrow>
   (cancel_error + bool) \<times> 'z chat_db_scheme" where
  "cancel_run now xadd_ok task rid uid db =
     (case find_run rid db of
        None \<Rightarrow> (Inl ChatRunNotFound, db)
      | Some run \<Rightarrow>
          if run_user_id run \<noteq> uid then (Inl ChatRunPermissionDenied, db)
          else if run_status run \<notin> set LIVE_STATUSES then (Inr False, db)
          else case cancel now rid ''user cancelled'' db of
                 (False, db1) \<Rightarrow> (Inr False, db1)
               | (True, db1) \<Rightarrow>
                   let cooperative_only = kind_in (opt_dict (run_request_payload run)) COOPERATIVE_KINDS;
                       db2 = (if cooperative_only then write_terminal_to_stream now xadd_ok rid db1 else db1)
                   in (Inr True,
                       case task of
                         Some done_in_time \<Rightarrow>
                           if done_in_time then snd (acknowledge_terminal_writer now rid db2) else db2
                       | None \<Rightarrow>
                           if cooperative_only then db2 else write_terminal_to_stream now xadd_ok rid db2))"

section \<open>The stale-run reaper\<close>

record reaper_config =
  rc_max_age :: time
  rc_hard_max_age :: time
  rc_quiet_ms :: int

record reaper_env =
  re_task_alive :: "string \<Rightarrow> bool"
  re_human_wait :: "string \<Rightarrow> bool"
  re_live_job :: "string \<Rightarrow> bool"
  re_last_write_ms :: "string \<Rightarrow> int option"
  re_done_after_cancel :: "string \<Rightarrow> bool"
  re_xadd_ok :: "string \<Rightarrow> bool"

definition began_at :: "chat_run \<Rightarrow> time" where
  "began_at r = (case run_started_at r of None \<Rightarrow> run_created_at r | Some t \<Rightarrow> t)"

text \<open>What the loop body decides for a candidate: skip it, or stop it for a reason.\<close>

definition reap_verdict :: "reaper_config \<Rightarrow> reaper_env \<Rightarrow> time \<Rightarrow> chat_run \<Rightarrow> (string \<times> bool) option" where
  "reap_verdict cfg env now r =
     (let hard = began_at r < now - rc_hard_max_age cfg;
          loop = kind_in (opt_dict (run_request_payload r)) [''autonomous_loop''];
          alive = re_task_alive env (run_id r)
      in if \<not> hard \<and> sql_gt (run_lease_expires_at r) now then None
         else if hard \<and> loop \<and> alive then None
         else let hard' = (hard \<and> \<not> loop)
              in if hard' \<and> re_human_wait env (run_chat_id r) then None
                 else if re_live_job env (run_chat_id r) then None
                 else if hard' then Some (''run exceeded hard max age (stale watchdog)'', False)
                 else if alive then None
                 else if (case re_last_write_ms env (run_id r) of
                            None \<Rightarrow> False | Some t \<Rightarrow> now div 1000 - t < rc_quiet_ms cfg) then None
                 else Some (''run stalled: no stream activity (stale watchdog)'', True))"

definition reap_one ::
  "reaper_config \<Rightarrow> reaper_env \<Rightarrow> time \<Rightarrow> chat_run \<Rightarrow> nat \<times> 'z chat_db_scheme \<Rightarrow> nat \<times> 'z chat_db_scheme" where
  "reap_one cfg env now r s =
     (case s of (reaped, db) \<Rightarrow>
        case reap_verdict cfg env now r of
          None \<Rightarrow> (reaped, db)
        | Some (reason, require_expired) \<Rightarrow>
            (case request_run_stop now (run_id r) Run_failed (Some reason) require_expired db of
               (Inr True, db1) \<Rightarrow>
                 let db2 = write_terminal_to_stream now (re_xadd_ok env (run_id r)) (run_id r) db1
                 in (Suc reaped,
                     if re_task_alive env (run_id r)
                        \<and> \<not> kind_in (opt_dict (run_request_payload r)) COOPERATIVE_KINDS
                        \<and> re_done_after_cancel env (run_id r)
                     then snd (acknowledge_terminal_writer now (run_id r) db2) else db2)
             | (_, db1) \<Rightarrow> (reaped, db1)))"

definition reap_stale_runs ::
  "reaper_config \<Rightarrow> reaper_env \<Rightarrow> time \<Rightarrow> 'z chat_db_scheme \<Rightarrow> nat \<times> 'z chat_db_scheme" where
  "reap_stale_runs cfg env now db =
     fold (reap_one cfg env now)
       (filter (\<lambda>r. run_status r = Run_running \<and> began_at r < now - rc_max_age cfg) (runs db))
       (0, db)"

section \<open>Safe steps\<close>

lemma exec_terminal [simp]: "s \<in> set EXEC_TERMINAL_STATUSES \<longleftrightarrow> s \<notin> set LIVE_STATUSES"
  by (cases s) (simp_all add: EXEC_TERMINAL_STATUSES_def)

lemma safe_step_claim_run_execution: "safe_step db (snd (claim_run_execution now rid db))"
  unfolding claim_run_execution_def
  by (auto simp: split_beta Let_def intro!: safe_step_cas_runs) (auto simp: run_le_def slot_safe_def)

lemma safe_step_request_run_stop: "safe_step db (snd (request_run_stop now rid st msg req db))"
  unfolding request_run_stop_def
  by (auto simp: split_beta Let_def simp del: exec_terminal intro!: safe_step_cas_runs)
     (auto simp: run_le_def slot_safe_def)

lemma safe_step_acknowledge: "safe_step db (snd (acknowledge_terminal_writer now rid db))"
  unfolding acknowledge_terminal_writer_def
  by (rule safe_step_cas_runs) (auto simp: run_le_def slot_safe_def)

lemma safe_step_acknowledge_never: "safe_step db (snd (acknowledge_never_started_terminal_writer now rid db))"
  unfolding acknowledge_never_started_terminal_writer_def
  by (rule safe_step_cas_runs) (auto simp: run_le_def slot_safe_def)

lemma safe_step_write_terminal: "safe_step db (write_terminal_to_stream now ok rid db)"
proof -
  define a where "a = allocate_event_offset now rid None True 1 db"
  have 1: "safe_step db (snd a)" unfolding a_def by (rule safe_step_allocate)
  have 2: "safe_step db (snd (allocate_event_offset now rid None True 1 (snd a)))"
    using 1 safe_step_allocate by (rule safe_step_trans)
  show ?thesis
    unfolding write_terminal_to_stream_def a_def [symmetric]
    using 1 2 by (cases a) (simp split: sum.split)
qed

lemma safe_step_cancel_run: "safe_step db (snd (cancel_run now ok task rid uid db))"
proof -
  define c where "c = cancel now rid ''user cancelled'' db"
  have 1: "safe_step db (snd c)" unfolding c_def by (rule safe_step_cancel)
  note w = safe_step_trans [OF _ safe_step_write_terminal]
    and k = safe_step_trans [OF _ safe_step_acknowledge]
  show ?thesis
    unfolding cancel_run_def c_def [symmetric]
    using 1 w [OF 1] k [OF 1] k [OF w [OF 1]]
    by (cases c) (simp add: Let_def split: option.split bool.split)
qed

lemma safe_step_reap_one: "safe_step (snd s) (snd (reap_one cfg env now r s))"
proof (cases "reap_verdict cfg env now r")
  case (Some p)
  obtain reason q where p: "p = (reason, q)" by (cases p)
  obtain n db where s: "s = (n, db)" by (cases s)
  obtain res d where d: "request_run_stop now (run_id r) Run_failed (Some reason) q db = (res, d)"
    by (metis prod.collapse)
  have 1: "safe_step db d"
    using safe_step_request_run_stop [of db now "run_id r" Run_failed "Some reason" q] d by simp
  note w = safe_step_trans [OF 1 safe_step_write_terminal]
  note k = safe_step_trans [OF w safe_step_acknowledge]
  show ?thesis
    using 1 w k by (cases res) (simp_all add: reap_one_def Some p s d Let_def split: bool.split)
qed (simp add: reap_one_def split_beta)

lemma safe_step_reap: "safe_step db (snd (reap_stale_runs cfg env now db))"
proof -
  have "safe_step (snd s) (snd (fold (reap_one cfg env now) rows s))" for rows s
  proof (induction rows arbitrary: s)
    case (Cons r rows)
    show ?case using safe_step_trans [OF safe_step_reap_one Cons.IH] by simp
  qed simp
  from this [of "(0, db)"] show ?thesis by (simp add: reap_stale_runs_def)
qed

lemma safe_step_take_offset: "safe_step db (snd (snd (take_offset tick now lost rid owner fin st db)))"
  by (simp add: take_offset_def Let_def split_beta safe_step_allocate split: sum.split)

lemma safe_step_start_worker:
  assumes "\<And>i d. safe_step d (interf i d)"
  shows "safe_step db (snd (start_worker interf clock rid owner lease rec db))"
proof -
  define c where "c = initial_claim rec (clock 0) rid db"
  have 1: "safe_step db (interf 0 (snd c))"
    using safe_step_trans [OF safe_step_claim_run_execution assms] assms
    by (auto simp: c_def initial_claim_def Let_def split_beta)
  define l where "l = claim (clock 1) rid owner lease (interf 0 (snd c))"
  have 2: "safe_step db (snd l)" unfolding l_def by (rule safe_step_trans [OF 1 safe_step_claim])
  have 3: "safe_step db (snd (append_operation (clock 2) rid owner ty ph sf None None (interf 1 (snd l))))" for ty ph sf
    by (rule safe_step_trans [OF safe_step_trans [OF 2 assms] safe_step_append_operation]) simp
  have 4: "safe_step db (snd (acknowledge_terminal_writer (clock 2) rid (interf 1 (snd l))))"
    by (rule safe_step_trans [OF safe_step_trans [OF 2 assms] safe_step_acknowledge])
  have 5: "safe_step db (snd (acknowledge_never_started_terminal_writer (clock 1) rid (interf 0 (snd c))))"
    by (rule safe_step_trans [OF 1 safe_step_acknowledge_never])
  obtain cl d where c': "c = (cl, d)" by (cases c)
  obtain res d2 where l': "l = (res, d2)" by (cases l)
  have l'': "claim (clock 1) rid owner lease (interf 0 d) = (res, d2)" using l' c' by (simp add: l_def)
  show ?thesis
    unfolding start_worker_def c_def [symmetric] c' Let_def prod.case l''
    using 2 3 4 5 by (cases cl; cases res) (simp_all add: c' l' split_beta split: sum.split bool.split)
qed

section \<open>All workers of a run together\<close>

text \<open>
  Any number of workers, each with its own \<open>_EventOffsets\<close> and owner name, take numbers for one run
  while the journal is used by everyone. The third component collects the numbers handed out.
\<close>

datatype 'd offset_event =
    Take_offset time time bool string bool
  | Journal_op "'d journal_event"

type_synonym 'd offset_world = "'d \<times> (string \<Rightarrow> event_offsets) \<times> int list"

fun offset_step ::
  "string \<Rightarrow> 'z chat_db_scheme offset_event \<Rightarrow> 'z chat_db_scheme offset_world \<Rightarrow> 'z chat_db_scheme offset_world" where
  "offset_step rid (Take_offset tick now lost owner terminal) (db, ws, out) =
     (case take_offset tick now lost rid owner terminal (ws owner) db of
        (Inl _, st, db') \<Rightarrow> (db', ws(owner := st), out)
      | (Inr k, st, db') \<Rightarrow> (db', ws(owner := st), out @ [k]))"
| "offset_step rid (Journal_op e) (db, ws, out) = (journal_step e db, ws, out)"

fun offset_good :: "'z chat_db_scheme offset_event \<Rightarrow> bool" where
  "offset_good (Journal_op e) = journal_good e"
| "offset_good _ = True"

definition block :: "event_offsets \<Rightarrow> int set" where
  "block st = {eo_next st..<eo_next st + eo_remaining st}"

definition offset_cap :: "string \<Rightarrow> 'z chat_db_scheme \<Rightarrow> int \<Rightarrow> bool" where
  "offset_cap rid db k \<longleftrightarrow> (\<exists>r. find_run rid db = Some r \<and> k \<le> run_last_event_offset r)"

definition offsets_inv :: "string \<Rightarrow> 'z chat_db_scheme offset_world \<Rightarrow> bool" where
  "offsets_inv rid w \<longleftrightarrow> (case w of (db, ws, out) \<Rightarrow>
     chat_db_ok db \<and> distinct out
     \<and> (\<forall>k\<in>set out. offset_cap rid db k \<and> (\<forall>v. k \<notin> block (ws v)))
     \<and> (\<forall>v. 0 \<le> eo_remaining (ws v) \<and> (\<forall>k\<in>block (ws v). offset_cap rid db k))
     \<and> (\<forall>v v'. v \<noteq> v' \<longrightarrow> block (ws v) \<inter> block (ws v') = {}))"

lemma offset_cap_mono: "db_le db db' \<Longrightarrow> offset_cap rid db k \<Longrightarrow> offset_cap rid db' k"
  unfolding offset_cap_def using db_leD by (fastforce simp: run_le_def)

lemma allocate_fresh:
  assumes "allocate_event_offset now rid owner fin n db = (Inr a, db')"
  shows "\<And>k. offset_cap rid db k \<Longrightarrow> k < a" and "\<And>k. k < a + n \<Longrightarrow> offset_cap rid db' k" and "1 \<le> n"
  using allocate_InrD [OF assms] by (auto simp: offset_cap_def)

text \<open>What one take does to a worker and to the numbers below the cap.\<close>

definition take_ok :: "string \<Rightarrow> 'z chat_db_scheme \<Rightarrow> event_offsets \<Rightarrow> int option \<Rightarrow> event_offsets \<Rightarrow> 'z chat_db_scheme \<Rightarrow> bool" where
  "take_ok rid db st k st' db' \<longleftrightarrow> 0 \<le> eo_remaining st'
     \<and> (\<forall>i\<in>block st' \<union> set_option k. i \<in> block st \<or> \<not> offset_cap rid db i \<and> offset_cap rid db' i)
     \<and> (\<forall>i\<in>set_option k. i \<notin> block st')"

lemma block_take_next:
  assumes "0 < eo_remaining st"
  shows "take_next st = (k, st') \<Longrightarrow> 0 \<le> eo_remaining st' \<and> insert k (block st') = block st \<and> k \<notin> block st'"
  using assms by (auto simp: take_next_def block_def)

lemma prove_ownership_block:
  "prove_ownership tick now lost rid owner st db = Inr st' \<Longrightarrow>
     block st' = block st \<and> eo_remaining st' = eo_remaining st"
  by (auto simp: prove_ownership_def block_def split: if_splits sum.splits)

lemma take_offset_ok:
  assumes "0 \<le> eo_remaining st" and "take_offset tick now lost rid owner fin st db = (res, st', db')"
  shows "take_ok rid db st (case res of Inl _ \<Rightarrow> None | Inr k \<Rightarrow> Some k) st' db'"
proof -
  consider (fin) "fin" | (reserve) "\<not> fin" "eo_remaining st = 0" | (live) "\<not> fin" "0 < eo_remaining st"
    using assms(1) by fastforce
  then show ?thesis
  proof cases
    case fin
    obtain r d where a: "allocate_event_offset now rid None True 1 db = (r, d)" by (metis prod.collapse)
    show ?thesis
    proof (cases r)
      case (Inr k)
      with assms fin a allocate_fresh [of now rid None True 1 db k d] show ?thesis
        by (force simp: take_offset_def take_ok_def block_def)
    qed (use assms fin a in \<open>auto simp: take_offset_def take_ok_def block_def\<close>)
  next
    case reserve
    obtain r d where a: "allocate_event_offset now rid (Some owner) False OFFSET_RESERVATION db = (r, d)"
      by (metis prod.collapse)
    show ?thesis
    proof (cases r)
      case (Inr k)
      with assms reserve a allocate_fresh [of now rid "Some owner" False OFFSET_RESERVATION db k d]
      show ?thesis
        by (force simp: take_offset_def take_ok_def block_def take_next_def OFFSET_RESERVATION_def)
    qed (use assms reserve a in \<open>auto simp: take_offset_def take_ok_def block_def\<close>)
  next
    case live
    show ?thesis
    proof (cases "prove_ownership tick now lost rid owner st db")
      case (Inr st1)
      obtain k st2 where t: "take_next st1 = (k, st2)" by (cases "take_next st1")
      with assms live Inr block_take_next [OF _ t] prove_ownership_block [OF Inr] show ?thesis
        by (auto simp: take_offset_def take_ok_def)
    qed (use assms live in \<open>auto simp: take_offset_def take_ok_def\<close>)
  qed
qed

lemma offsets_inv_take:
  assumes inv: "offsets_inv rid (db, ws, out)" and ok: "take_ok rid db (ws w) k st' db'"
    and step: "safe_step db db'"
  shows "offsets_inv rid (db', ws(w := st'), out @ (case k of None \<Rightarrow> [] | Some i \<Rightarrow> [i]))"
proof -
  have db: "chat_db_ok db" using inv by (simp add: offsets_inv_def)
  have mono: "offset_cap rid db i \<Longrightarrow> offset_cap rid db' i" for i
    by (rule offset_cap_mono [OF safe_stepD(2) [OF step db]])
  have out: "offset_cap rid db i" "i \<notin> block (ws v)" if "i \<in> set out" for i v
    using inv that by (auto simp: offsets_inv_def)
  have blk: "offset_cap rid db i" if "i \<in> block (ws v)" for i v
    using inv that by (auto simp: offsets_inv_def)
  have "i \<in> block (ws w) \<or> \<not> offset_cap rid db i \<and> offset_cap rid db' i" if "i \<in> block st' \<union> set_option k" for i
    using ok that unfolding take_ok_def by blast
  then have new: "i \<in> block (ws w) \<or> \<not> offset_cap rid db i" "offset_cap rid db' i"
    if "i \<in> block st' \<union> set_option k" for i
    using that blk mono by blast+
  have dis: "i \<notin> block (ws v')" if "i \<in> block (ws v)" "v \<noteq> v'" for i v v'
    using inv that by (fastforce simp: offsets_inv_def)
  have sep: "i \<notin> block (ws v)" "i \<notin> set out" if "i \<in> block st' \<union> set_option k" "v \<noteq> w" for i v
    using new(1) [OF that(1)] blk dis [of i w v] out that(2) by blast+
  have own: "i \<notin> set out" if "i \<in> block st' \<union> set_option k" for i
    using new(1) [OF that] out by blast
  have "offsets_inv rid (db', ws(w := st'), out @ xs)"
    if xs: "set xs \<subseteq> set_option k" "distinct xs" for xs
    unfolding offsets_inv_def prod.case
  proof (intro conjI)
    show "chat_db_ok db'" by (rule safe_stepD(1) [OF step db])
    show "distinct (out @ xs)" using inv xs own by (auto simp: offsets_inv_def)
    show "\<forall>i\<in>set (out @ xs). offset_cap rid db' i \<and> (\<forall>v. i \<notin> block ((ws(w := st')) v))"
      using xs new sep own out mono ok by (auto simp: take_ok_def)
    show "\<forall>v. 0 \<le> eo_remaining ((ws(w := st')) v) \<and> (\<forall>i\<in>block ((ws(w := st')) v). offset_cap rid db' i)"
      using inv ok new(2) mono blk by (auto simp: take_ok_def offsets_inv_def)
    show "\<forall>v v'. v \<noteq> v' \<longrightarrow> block ((ws(w := st')) v) \<inter> block ((ws(w := st')) v') = {}"
      using sep(1) dis by (auto simp: disjoint_iff)
  qed
  then show ?thesis by (cases k) auto
qed

interpretation offsets: step_system "offset_step rid" offset_good "offsets_inv rid" for rid
proof
  fix e :: "'a chat_db_scheme offset_event" and s :: "'a chat_db_scheme offset_world"
  assume good: "offset_good e" and inv: "offsets_inv rid s"
  obtain db ws out where s: "s = (db, ws, out)" by (cases s)
  show "offsets_inv rid (offset_step rid e s)"
  proof (cases e)
    case (Take_offset tick now lost owner fin)
    obtain res st' db' where t: "take_offset tick now lost rid owner fin (ws owner) db = (res, st', db')"
      by (cases "take_offset tick now lost rid owner fin (ws owner) db")
    have "safe_step db db'" using safe_step_take_offset [of db tick now lost rid owner fin "ws owner"] t by simp
    moreover have "0 \<le> eo_remaining (ws owner)" using inv by (simp add: s offsets_inv_def)
    ultimately show ?thesis
      using offsets_inv_take [OF inv [unfolded s] take_offset_ok [OF _ t]]
      by (cases res) (simp_all add: Take_offset s t)
  next
    case (Journal_op j)
    have step: "safe_step db (journal_step j db)" using good Journal_op by (intro safe_step_journal) simp
    have db: "chat_db_ok db" using inv by (simp add: s offsets_inv_def)
    show ?thesis
      using inv safe_stepD(1) [OF step db] offset_cap_mono [OF safe_stepD(2) [OF step db]]
      by (auto simp: Journal_op s offsets_inv_def)
  qed
qed

text \<open>
  C4. The event numbers of a run are distinct, whatever number of workers emit for it, in whatever
  order, with reservations of 64 numbers cached in each worker and any other use of the journal in
  between (renewals, cancellation, recovery, another owner): two events never get the same number.
\<close>

theorem event_numbers_distinct:
  assumes "chat_db_ok db" and "list_all offset_good es"
  shows "distinct (snd (snd (run_steps (offset_step rid) es (db, \<lambda>_. fresh_offsets, []))))"
proof -
  have "offsets_inv rid (db, \<lambda>_. fresh_offsets, [])"
    using assms(1) by (simp add: offsets_inv_def block_def fresh_offsets_def)
  then have "offsets_inv rid (run_steps (offset_step rid) es (db, \<lambda>_. fresh_offsets, []))"
    by (rule offsets.inv_run [OF assms(2)])
  then show ?thesis by (auto simp: offsets_inv_def split: prod.splits)
qed

theorem event_numbers_distinct_witness:
  "distinct (snd (snd (run_steps (offset_step ''r1'')
      [Take_offset 0 1000000 False ''w1'' False, Take_offset 0 1000000 False ''w1'' False,
       Journal_op (Ev_recover 6000000), Journal_op (Ev_claim 6000000 ''r1'' ''w2'' 90),
       Take_offset 0 7000000 False ''w2'' False] (sample_db, \<lambda>_. fresh_offsets, []))))
   \<and> snd (snd (run_steps (offset_step ''r1'')
      [Take_offset 0 1000000 False ''w1'' False, Take_offset 0 1000000 False ''w1'' False,
       Journal_op (Ev_recover 6000000), Journal_op (Ev_claim 6000000 ''r1'' ''w2'' 90),
       Take_offset 0 7000000 False ''w2'' False] (sample_db, \<lambda>_. fresh_offsets, []))) = [5, 6, 69]"
proof (rule conjI)
  show "distinct (snd (snd (run_steps (offset_step ''r1'')
      [Take_offset 0 1000000 False ''w1'' False, Take_offset 0 1000000 False ''w1'' False,
       Journal_op (Ev_recover 6000000), Journal_op (Ev_claim 6000000 ''r1'' ''w2'' 90),
       Take_offset 0 7000000 False ''w2'' False] (sample_db, \<lambda>_. fresh_offsets, []))))"
    by (rule event_numbers_distinct [OF sample_db_ok]) simp
qed code_simp

section \<open>The slot of a finished run\<close>

text \<open>
  \<open>slot_kept\<close>: a run that is already terminal keeps its status and its writer slot. Every
  operation of the journal and every pass of the reaper has this property, since they look for live
  runs only.
\<close>

definition slot_kept :: "'z chat_db_scheme \<Rightarrow> 'z chat_db_scheme \<Rightarrow> bool" where
  "slot_kept db db' \<longleftrightarrow> (\<forall>rid r. find_run rid db = Some r \<and> run_status r \<in> set TERMINAL_STATUSES \<longrightarrow>
     (\<exists>r'. find_run rid db' = Some r' \<and> run_status r' = run_status r \<and> run_chat_id r' = run_chat_id r
           \<and> run_writer_slot r' = run_writer_slot r))"

definition row_kept :: "chat_run \<Rightarrow> chat_run \<Rightarrow> bool" where
  "row_kept r r' \<longleftrightarrow> run_id r' = run_id r \<and>
     (run_status r \<in> set TERMINAL_STATUSES \<longrightarrow>
        run_status r' = run_status r \<and> run_chat_id r' = run_chat_id r \<and> run_writer_slot r' = run_writer_slot r)"

lemma slot_kept_refl [simp]: "slot_kept db db"
  by (auto simp: slot_kept_def)

lemma slot_kept_trans: "slot_kept a b \<Longrightarrow> slot_kept b c \<Longrightarrow> slot_kept a c"
  unfolding slot_kept_def by metis

lemma slot_kept_update_runs:
  assumes "\<And>r. P r \<Longrightarrow> row_kept r (f r)"
  shows "slot_kept db (update_runs P f db)"
  using assms find_run_update_runs [of P f _ db] by (auto simp: slot_kept_def row_kept_def)

lemma slot_kept_put_run: "find_run rid db = Some r \<Longrightarrow> row_kept r row \<Longrightarrow> slot_kept db (put_run row db)"
  using find_run_put_run [of rid db r row] find_run_SomeD [of rid db r]
  by (auto simp: slot_kept_def row_kept_def)

lemma slot_kept_append:
  assumes "find_run rid db = Some r" and "row_kept r row"
  shows "slot_kept db (snd (append_locked w ty ph sf pl v row db))"
proof -
  have "run_id row = rid" using assms find_run_SomeD [of rid db r] by (auto simp: row_kept_def)
  then show ?thesis
    using assms find_run_append_locked [of row db r] by (auto simp: slot_kept_def row_kept_def)
qed

lemma row_kept_live: "run_id r' = run_id r \<Longrightarrow> run_status r \<in> set LIVE_STATUSES \<Longrightarrow> row_kept r r'"
  by (auto simp: row_kept_def)

lemma slot_kept_accept: "slot_kept db (snd (accept now rid mid cid uid rp rs db))"
proof -
  have "slot_kept db d" if "insert_run row db = Some d" for row d
    using find_run_insert_run [OF that] that by (auto simp: slot_kept_def insert_run_def split: if_splits)
  then show ?thesis
    by (auto simp: accept_def accept_in_session_def Let_def split: sum.splits option.splits)
qed

lemma slot_kept_journal_leases:
  "slot_kept db (snd (claim now rid owner lease db))" "slot_kept db (snd (renew now rid owner lease db))"
  by (auto simp: claim_def renew_def claimable_by_def renewable_by_def
      intro!: slot_kept_update_runs row_kept_live)

lemma slot_kept_append_operation: "slot_kept db (snd (append_operation now rid owner ty ph sf pl None db))"
proof (cases "locked_owned_run now rid owner db")
  case (Inr row)
  then show ?thesis
    using locked_owned_run_InrD [OF Inr]
    by (auto simp: append_operation_def run_effect_def Let_def split_beta row_kept_def intro!: slot_kept_append)
qed (simp add: append_operation_def)

lemma slot_kept_save_snapshot: "slot_kept db (snd (save_snapshot now rid owner ph snap sf db))"
proof (cases "locked_owned_run now rid owner db")
  case (Inr row)
  then show ?thesis
    using locked_owned_run_InrD [OF Inr]
    by (auto simp: save_snapshot_def Let_def split_beta row_kept_def intro!: slot_kept_append)
qed (simp add: save_snapshot_def)

lemma slot_kept_allocate: "slot_kept db (snd (allocate_event_offset now rid owner fin n db))"
proof (cases "offset_row now rid owner fin db")
  case (Inr row)
  then show ?thesis
    using offset_row_InrD [OF Inr]
    by (auto simp: allocate_event_offset_def Let_def row_kept_def intro!: slot_kept_put_run)
qed (simp add: allocate_event_offset_def)

lemma slot_kept_append_by_id: "append_by_id rid w ty ph sf pl db = Some d \<Longrightarrow> slot_kept db d"
  by (auto simp: append_by_id_def row_kept_def intro!: slot_kept_append)

lemma slot_kept_append_committed: "append_committed rid w c db = Some d \<Longrightarrow> slot_kept db d"
  by (auto simp: append_committed_def slot_kept_append_by_id split: option.splits)

lemma slot_kept_complete: "slot_kept db (snd (complete now rid owner st usage reason off None com db))"
proof (cases "locked_owned_run now rid owner db")
  case (Inr row)
  define db1 where "db1 = put_run (complete_row now st usage reason off row) db"
  have 1: "slot_kept db db1"
    unfolding db1_def using locked_owned_run_InrD [OF Inr] holds_leaseD [of now owner row]
    by (intro slot_kept_put_run row_kept_live) (auto simp: complete_row_def)
  have "slot_kept db d"
    if "Option.bind (append_committed rid owner com db1) (append_by_id rid owner ty ph sf pl) = Some d"
    for d ty ph sf pl
    using that slot_kept_trans [OF 1 slot_kept_trans [OF slot_kept_append_committed slot_kept_append_by_id]]
    by (auto simp: Option.bind_eq_Some_conv)
  then show ?thesis
    unfolding complete_def Inr sum.case run_effect_def option.case db1_def [symmetric]
    by (simp del: status_sets split: option.split)
qed (simp add: complete_def)

lemma slot_kept_cancel: "slot_kept db (snd (cancel now rid reason db))"
  by (auto simp: cancel_def split: option.splits intro!: slot_kept_append row_kept_live)

lemma slot_kept_release: "slot_kept db (snd (release now rid owner reason db))"
proof (cases "locked_owned_run now rid owner db")
  case (Inr row)
  then show ?thesis
    using locked_owned_run_InrD [OF Inr] holds_leaseD [of now owner row]
    by (auto simp: release_def intro!: slot_kept_append row_kept_live)
qed (simp add: release_def)

lemma slot_kept_needs_attention: "slot_kept db (snd (needs_attention now rid reason owner db))"
proof (cases "attention_row now rid owner db")
  case (Some p)
  obtain row w where p: "p = (row, w)" by (cases p)
  show ?thesis
    using Some attention_row_SomeD [of now rid owner db row w]
    by (auto simp: needs_attention_def p pause_row_def intro!: slot_kept_append row_kept_live)
qed (simp add: needs_attention_def)

lemma slot_kept_recover: "slot_kept db (snd (recover now db))"
  by (auto simp: slot_kept_def find_run_recover orphan_def)

lemma slot_kept_bind_session: "slot_kept db (snd (bind_session now uid cid kind db))"
  by (auto simp: bind_session_def slot_kept_def find_run_def split: option.splits)

lemma slot_kept_close: "slot_kept db (durable_run_close now rid owner kind lost ex db)"
  by (auto simp: durable_run_close_def Let_def slot_kept_complete slot_kept_needs_attention
      split: binding_exit.split option.split)

fun plain_event :: "'d journal_event \<Rightarrow> bool" where
  "plain_event (Ev_append now rid owner ty ph sf pl eff) = (eff = None)"
| "plain_event (Ev_complete now rid owner st usage reason off eff com) = (eff = None)"
| "plain_event _ = True"

lemma slot_kept_journal: "plain_event e \<Longrightarrow> slot_kept db (journal_step e db)"
  by (cases e) (simp_all add: slot_kept_accept slot_kept_journal_leases slot_kept_append_operation
      slot_kept_save_snapshot slot_kept_allocate slot_kept_complete slot_kept_cancel slot_kept_release
      slot_kept_needs_attention slot_kept_recover slot_kept_bind_session slot_kept_close)

lemma slot_keptD:
  "slot_kept db db' \<Longrightarrow> find_run rid db = Some r \<Longrightarrow> run_status r \<in> set TERMINAL_STATUSES \<Longrightarrow>
   \<exists>r'. find_run rid db' = Some r' \<and> run_status r' = run_status r \<and> run_chat_id r' = run_chat_id r
        \<and> run_writer_slot r' = run_writer_slot r"
  unfolding slot_kept_def by blast

lemma cas_runs_True:
  "fst (cas_runs P f db) \<longleftrightarrow> (\<exists>r\<in>set (runs db). P r)"
  by (simp add: cas_runs_def affected_pos)

lemma slot_kept_write_terminal: "slot_kept db (write_terminal_to_stream now ok rid db)"
proof -
  define a where "a = allocate_event_offset now rid None True 1 db"
  have 1: "slot_kept db (snd a)" unfolding a_def by (rule slot_kept_allocate)
  have 2: "slot_kept db (snd (allocate_event_offset now rid None True 1 (snd a)))"
    using 1 slot_kept_allocate by (rule slot_kept_trans)
  show ?thesis
    unfolding write_terminal_to_stream_def a_def [symmetric]
    using 1 2 by (cases a) (simp split: sum.split)
qed

lemma slot_kept_request_run_stop: "slot_kept db (snd (request_run_stop now rid st msg req db))"
  unfolding request_run_stop_def cas_runs_def
  by (auto simp: Let_def simp del: exec_terminal intro!: slot_kept_update_runs row_kept_live)

lemma request_run_stop_TrueD:
  assumes "chat_db_ok db" and "fst (request_run_stop now rid st msg req db) = Inr True"
  shows "\<exists>r. find_run rid db = Some r \<and> run_status r \<in> set LIVE_STATUSES \<and> (req \<longrightarrow> lease_free now r)"
proof -
  have "\<exists>r\<in>set (runs db). run_id r = rid \<and> run_status r \<in> set LIVE_STATUSES \<and> (req \<longrightarrow> lease_free now r)"
    using assms(2) cas_runs_True unfolding request_run_stop_def
    by (auto simp del: exec_terminal status_sets simp: Let_def split_beta split: if_splits)
  then show ?thesis using find_run_unique [OF assms(1)] by blast
qed

lemma find_run_acknowledge_other:
  "rid' \<noteq> rid \<Longrightarrow> find_run rid' (snd (acknowledge_terminal_writer now rid db)) = find_run rid' db"
  unfolding acknowledge_terminal_writer_def cas_runs_def
  by (simp add: find_run_update_runs) (auto simp: map_option_case dest: find_run_SomeD split: option.split)

lemma slot_kept_reap_one:
  assumes "chat_db_ok (snd s)"
  shows "slot_kept (snd s) (snd (reap_one cfg env now r s))"
proof (cases "reap_verdict cfg env now r")
  case (Some p)
  obtain reason q where p: "p = (reason, q)" by (cases p)
  obtain n db where s: "s = (n, db)" by (cases s)
  obtain res d where d: "request_run_stop now (run_id r) Run_failed (Some reason) q db = (res, d)"
    by (metis prod.collapse)
  have 1: "slot_kept db d"
    using slot_kept_request_run_stop [of db now "run_id r" Run_failed "Some reason" q] d by simp
  show ?thesis
  proof (cases "res = Inr True")
    case True
    have live: "\<exists>z. find_run (run_id r) db = Some z \<and> run_status z \<in> set LIVE_STATUSES"
      using request_run_stop_TrueD [of db now "run_id r" Run_failed "Some reason" q] assms d True s by auto
    define d2 where "d2 = write_terminal_to_stream now (re_xadd_ok env (run_id r)) (run_id r) d"
    have 2: "slot_kept db d2" unfolding d2_def by (rule slot_kept_trans [OF 1 slot_kept_write_terminal])
    have "slot_kept db (snd (acknowledge_terminal_writer now (run_id r) d2))"
      unfolding slot_kept_def
    proof (intro allI impI)
      fix rid z
      assume z: "find_run rid db = Some z \<and> run_status z \<in> set TERMINAL_STATUSES"
      with live have "rid \<noteq> run_id r" by auto
      then have "find_run rid (snd (acknowledge_terminal_writer now (run_id r) d2)) = find_run rid d2"
        by (rule find_run_acknowledge_other)
      then show "\<exists>z'. find_run rid (snd (acknowledge_terminal_writer now (run_id r) d2)) = Some z'
          \<and> run_status z' = run_status z \<and> run_chat_id z' = run_chat_id z \<and> run_writer_slot z' = run_writer_slot z"
        using slot_keptD [OF 2, of rid z] z by simp
    qed
    with 2 True show ?thesis by (simp add: reap_one_def Some p s d d2_def Let_def)
  next
    case False
    with 1 show ?thesis
      by (cases res) (auto simp: reap_one_def Some p s d split: bool.splits)
  qed
qed (simp add: reap_one_def split_beta)

lemma slot_kept_reap:
  assumes "chat_db_ok db"
  shows "slot_kept db (snd (reap_stale_runs cfg env now db))"
proof -
  have "slot_kept (snd s) (snd (fold (reap_one cfg env now) rows s))" if "chat_db_ok (snd s)" for rows s
    using that
  proof (induction rows arbitrary: s)
    case (Cons r rows)
    show ?case
      using slot_kept_trans [OF slot_kept_reap_one [OF Cons.prems] Cons.IH]
        safe_stepD(1) [OF safe_step_reap_one Cons.prems] by simp
  qed simp
  from this [of "(0, db)"] assms show ?thesis by (simp add: reap_stale_runs_def)
qed

text \<open>The maintenance that runs without the worker of a run: the journal and the reaper.\<close>

datatype 'd maintenance_event =
    Mnt_journal "'d journal_event"
  | Mnt_reap reaper_config reaper_env time

fun maintenance_step :: "'z chat_db_scheme maintenance_event \<Rightarrow> 'z chat_db_scheme \<Rightarrow> 'z chat_db_scheme" where
  "maintenance_step (Mnt_journal e) db = journal_step e db"
| "maintenance_step (Mnt_reap cfg env now) db = snd (reap_stale_runs cfg env now db)"

fun maintenance_plain :: "'z chat_db_scheme maintenance_event \<Rightarrow> bool" where
  "maintenance_plain (Mnt_journal e) = plain_event e"
| "maintenance_plain _ = True"

lemma plain_good: "plain_event e \<Longrightarrow> journal_good e"
  by (cases e) simp_all

interpretation maintenance: step_system maintenance_step maintenance_plain chat_db_ok
proof
  fix e :: "'a chat_db_scheme maintenance_event" and s :: "'a chat_db_scheme"
  assume "maintenance_plain e" and "chat_db_ok s"
  then show "chat_db_ok (maintenance_step e s)"
    by (cases e) (auto intro: safe_stepD(1) safe_step_journal safe_step_reap plain_good)
qed

lemma slot_kept_maintenance_run:
  "list_all maintenance_plain es \<Longrightarrow> chat_db_ok db \<Longrightarrow> slot_kept db (run_steps maintenance_step es db)"
proof (rule maintenance.chain_run [of slot_kept])
  fix e :: "'a chat_db_scheme maintenance_event" and s :: "'a chat_db_scheme"
  assume "maintenance_plain e" and "chat_db_ok s"
  then show "slot_kept s (maintenance_step e s)"
    by (cases e) (auto intro: slot_kept_journal slot_kept_reap)
qed (auto intro: slot_kept_trans)

lemma slot_held_refuses:
  assumes "chat_db_ok db" and "r \<in> set (runs db)" "run_chat_id r = cid" "run_writer_slot r = Some MAIN_WRITER_SLOT"
  shows "\<exists>e. accept_main_run now rid um am cid uid content rp model extra db = (Inl e, db)"
  by (auto simp: accept_main_run_def commit_admission_busy [OF assms] dest: reserve_frame split: sum.split)

lemma cancel_run_absent_worker:
  assumes "find_run rid db = Some row" and "run_user_id row = uid" and "run_status row \<in> set LIVE_STATUSES"
  shows "fst (cancel_run now ok None rid uid db) = Inr True
    \<and> (\<exists>row'. find_run rid (snd (cancel_run now ok None rid uid db)) = Some row' \<and> run_status row' = Run_cancelled
          \<and> run_chat_id row' = run_chat_id row \<and> run_writer_slot row' = run_writer_slot row)"
proof -
  have id: "run_id row = rid" using assms(1) find_run_SomeD by blast
  define c where "c = cancel now rid ''user cancelled'' db"
  have 1: "fst c" "\<exists>z. find_run rid (snd c) = Some z \<and> run_status z = Run_cancelled
      \<and> run_chat_id z = run_chat_id row \<and> run_writer_slot z = run_writer_slot row"
    using assms id by (auto simp: c_def cancel_def find_run_append_locked)
  obtain d where c: "c = (True, d)" using 1(1) by (cases c) simp
  have 2: "\<exists>z. find_run rid d' = Some z \<and> run_status z = Run_cancelled
      \<and> run_chat_id z = run_chat_id row \<and> run_writer_slot z = run_writer_slot row" if "slot_kept d d'" for d'
    using 1(2) slot_keptD [OF that] c by fastforce
  show ?thesis
    unfolding cancel_run_def c_def [symmetric] c
    using assms 2 [OF slot_kept_write_terminal] by (simp add: Let_def)
qed

text \<open>
  When a run is cancelled in a process that does not run its worker, the writer slot stays with
  the cancelled run. If the worker is gone (the process that ran it was restarted), nothing that is
  left takes it back: after any sequence of journal operations (recovery among them) and reaper
  passes, the slot of the chat is still held by the cancelled run and every new turn is refused.
\<close>

theorem cancel_without_worker_blocks_chat:
  assumes "chat_db_ok db" and "find_run rid db = Some row" and "run_user_id row = uid"
    and "run_status row \<in> set LIVE_STATUSES" and "run_writer_slot row = Some MAIN_WRITER_SLOT"
    and "list_all maintenance_plain es"
    and "db' = run_steps maintenance_step es (snd (cancel_run now ok None rid uid db))"
  shows "fst (cancel_run now ok None rid uid db) = Inr True
    \<and> slot_taken (run_chat_id row) MAIN_WRITER_SLOT db'
    \<and> (\<exists>e. accept_main_run now' rid' um am (run_chat_id row) uid content rp model extra db' = (Inl e, db'))"
proof -
  define db1 where "db1 = snd (cancel_run now ok None rid uid db)"
  obtain row1 where row1: "find_run rid db1 = Some row1" "run_status row1 = Run_cancelled"
    "run_chat_id row1 = run_chat_id row" "run_writer_slot row1 = Some MAIN_WRITER_SLOT"
    using cancel_run_absent_worker [OF assms(2-4), of now ok] assms(5) by (auto simp: db1_def)
  have ok1: "chat_db_ok db1" unfolding db1_def by (rule safe_stepD(1) [OF safe_step_cancel_run assms(1)])
  have db': "db' = run_steps maintenance_step es db1" by (simp add: assms(7) db1_def)
  have "slot_kept db1 db'" unfolding db' by (rule slot_kept_maintenance_run [OF assms(6) ok1])
  then obtain r' where r': "find_run rid db' = Some r'" "run_chat_id r' = run_chat_id row"
    "run_writer_slot r' = Some MAIN_WRITER_SLOT"
    using row1 slot_keptD [of db1 db' rid row1] by auto
  have mem: "r' \<in> set (runs db')" using r'(1) find_run_SomeD by blast
  have "chat_db_ok db'" unfolding db' by (rule maintenance.inv_run [OF assms(6) ok1])
  from slot_held_refuses [OF this mem r'(2,3)] show ?thesis
    using cancel_run_absent_worker [OF assms(2-4)] mem r' by (auto simp: slot_taken_def)
qed

theorem cancel_without_worker_blocks_chat_witness:
  "\<exists>e. accept_main_run 9000000 ''r2'' ''mu'' ''ma'' ''c1'' ''u1'' [104] [] None None
         (run_steps maintenance_step [Mnt_journal (Ev_recover 8000000)]
            (snd (cancel_run 6000000 True None ''r1'' ''u1'' sample_db)))
       = (Inl e, run_steps maintenance_step [Mnt_journal (Ev_recover 8000000)]
            (snd (cancel_run 6000000 True None ''r1'' ''u1'' sample_db)))"
  using cancel_without_worker_blocks_chat [OF sample_db_ok find_sample_run, of "''u1''"
      "[Mnt_journal (Ev_recover 8000000)]" _ 6000000 True 9000000 "''r2''" "''mu''" "''ma''" "[104]" "[]" None None]
  by (simp add: sample_run_def MAIN_WRITER_SLOT_def)

section \<open>What the reaper leaves alone\<close>

lemma find_run_cas_other:
  assumes "\<And>r. P r \<Longrightarrow> run_id r = rid" and "\<And>r. run_id (f r) = run_id r" and "rid' \<noteq> rid"
  shows "find_run rid' (snd (cas_runs P f db)) = find_run rid' db"
proof -
  have "find_run rid' (update_runs P f db) = map_option (\<lambda>r. if P r then f r else r) (find_run rid' db)"
    using assms(2) by (intro find_run_update_runs) auto
  then show ?thesis
    using assms(1,3) find_run_SomeD [of rid' db] by (cases "find_run rid' db") (auto simp: cas_runs_def)
qed

lemma find_run_stop_other:
  assumes "rid' \<noteq> rid"
  shows "find_run rid' (snd (request_run_stop now rid st msg req db)) = find_run rid' db"
  using assms unfolding request_run_stop_def
  by (auto simp: Let_def split_beta simp del: exec_terminal intro!: find_run_cas_other [of _ rid])

lemma find_run_allocate_other:
  assumes "rid' \<noteq> rid"
  shows "find_run rid' (snd (allocate_event_offset now rid owner fin n db)) = find_run rid' db"
proof (cases "offset_row now rid owner fin db")
  case (Inr row)
  note row = offset_row_InrD [OF Inr]
  have "run_id row = rid" using row find_run_SomeD by blast
  then show ?thesis
    using assms Inr by (simp add: allocate_event_offset_def Let_def find_run_put_run [OF row])
qed (simp add: allocate_event_offset_def)

lemma find_run_write_terminal_other:
  assumes "rid' \<noteq> rid"
  shows "find_run rid' (write_terminal_to_stream now ok rid db) = find_run rid' db"
proof -
  obtain res d where a: "allocate_event_offset now rid None True 1 db = (res, d)" by (metis prod.collapse)
  have "find_run rid' d = find_run rid' db" using find_run_allocate_other [OF assms] a by (metis snd_conv)
  then show ?thesis
    using assms by (simp add: write_terminal_to_stream_def a find_run_allocate_other split: sum.split)
qed

lemma find_run_reap_other:
  assumes "rid \<noteq> run_id r"
  shows "find_run rid (snd (reap_one cfg env now r s)) = find_run rid (snd s)"
proof (cases "reap_verdict cfg env now r")
  case (Some p)
  obtain reason q where p: "p = (reason, q)" by (cases p)
  obtain n db where s: "s = (n, db)" by (cases s)
  obtain res d where d: "request_run_stop now (run_id r) Run_failed (Some reason) q db = (res, d)"
    by (metis prod.collapse)
  have "find_run rid d = find_run rid db" using find_run_stop_other [OF assms] d by (metis snd_conv)
  with assms show ?thesis
    by (cases res) (simp_all add: reap_one_def Some p s d Let_def find_run_acknowledge_other
        find_run_write_terminal_other split: bool.split)
qed (simp add: reap_one_def split_beta)

lemma reap_spares:
  assumes "reap_verdict cfg env now r = None" and "distinct (map run_id rows)"
    and "\<And>z. z \<in> set rows \<Longrightarrow> run_id z = run_id r \<Longrightarrow> z = r"
  shows "find_run (run_id r) (snd (fold (reap_one cfg env now) rows s)) = find_run (run_id r) (snd s)"
  using assms(2,3)
proof (induction rows arbitrary: s)
  case (Cons z rows)
  have "find_run (run_id r) (snd (reap_one cfg env now z s)) = find_run (run_id r) (snd s)"
  proof (cases "run_id z = run_id r")
    case True
    then have "z = r" using Cons.prems(2) [of z] by simp
    with assms(1) show ?thesis by (simp add: reap_one_def split_beta)
  next
    case False
    then show ?thesis by (intro find_run_reap_other) simp
  qed
  with Cons show ?case by simp
qed simp

text \<open>
  The reaper does not stop a run below the absolute age limit while there is a sign of life: a
  lease that has not run out, its task alive in this process, a job of its chat in progress, or a
  recent event on its stream. Such a run is left exactly as it is.
\<close>

theorem reaper_spares_live_runs:
  assumes "chat_db_ok db" and "r \<in> set (runs db)" and "now - rc_hard_max_age cfg \<le> began_at r"
    and "sql_gt (run_lease_expires_at r) now \<or> re_task_alive env (run_id r) \<or> re_live_job env (run_chat_id r)
         \<or> (\<exists>t. re_last_write_ms env (run_id r) = Some t \<and> now div 1000 - t < rc_quiet_ms cfg)"
  shows "find_run (run_id r) (snd (reap_stale_runs cfg env now db)) = Some r"
proof -
  have "reap_verdict cfg env now r = None"
    using assms(3,4) by (auto simp: reap_verdict_def Let_def)
  moreover have "distinct (map run_id (filter P (runs db)))" for P
    using chat_db_okD(1) [OF assms(1)] by (rule distinct_map_filter)
  moreover have "z = r" if "z \<in> set (runs db)" "run_id z = run_id r" for z
    using chat_db_okD(1) [OF assms(1)] that assms(2) by (auto simp: distinct_map inj_on_def)
  ultimately show ?thesis
    using find_run_unique [OF assms(1,2)] unfolding reap_stale_runs_def
    by (subst reap_spares) auto
qed

definition quiet_env :: reaper_env where
  "quiet_env = \<lparr>re_task_alive = \<lambda>_. False, re_human_wait = \<lambda>_. False, re_live_job = \<lambda>_. False,
     re_last_write_ms = \<lambda>_. None, re_done_after_cancel = \<lambda>_. False, re_xadd_ok = \<lambda>_. True\<rparr>"

definition sample_cfg :: reaper_config where
  "sample_cfg = \<lparr>rc_max_age = 1000000, rc_hard_max_age = 100000000, rc_quiet_ms = 500\<rparr>"

theorem reaper_spares_live_runs_witness:
  "find_run ''r1'' (snd (reap_stale_runs sample_cfg quiet_env 4000000 sample_db)) = Some sample_run
   \<and> find_run ''r1'' (snd (reap_stale_runs sample_cfg quiet_env 6000000 sample_db)) \<noteq> Some sample_run"
proof
  have "run_id sample_run = ''r1''" "began_at sample_run = 0" "run_lease_expires_at sample_run = Some 5000000"
    "rc_hard_max_age sample_cfg = 100000000" "sample_run \<in> set (runs sample_db)"
    by (simp_all add: sample_run_def began_at_def sample_cfg_def sample_db_def)
  with reaper_spares_live_runs [OF sample_db_ok, of sample_run 4000000 sample_cfg quiet_env]
  show "find_run ''r1'' (snd (reap_stale_runs sample_cfg quiet_env 4000000 sample_db)) = Some sample_run"
    by simp
qed code_simp

section \<open>Starting\<close>

lemma run_holder_frame:
  assumes "\<And>r. P r \<Longrightarrow> run_id (f r) = run_id r \<and> run_lease_owner (f r) = run_lease_owner r
      \<and> run_lease_expires_at (f r) = run_lease_expires_at r
      \<and> (run_status (f r) \<in> set LIVE_STATUSES \<longleftrightarrow> run_status r \<in> set LIVE_STATUSES)"
  shows "run_holder rid (snd (cas_runs P f db)) t = run_holder rid db t"
proof -
  have "find_run rid (update_runs P f db) = map_option (\<lambda>r. if P r then f r else r) (find_run rid db)"
    using assms by (intro find_run_update_runs) auto
  then show ?thesis
    using assms by (auto simp del: status_sets simp: cas_runs_def run_holder_def split: option.split)
qed

lemma run_holder_claim_run_execution: "run_holder rid (snd (claim_run_execution now rid' db)) t = run_holder rid db t"
  unfolding claim_run_execution_def by (auto simp: Let_def split_beta intro!: run_holder_frame)

lemma run_holder_acknowledge:
  "run_holder rid (snd (acknowledge_terminal_writer now rid' db)) t = run_holder rid db t"
  "run_holder rid (snd (acknowledge_never_started_terminal_writer now rid' db)) t = run_holder rid db t"
  unfolding acknowledge_terminal_writer_def acknowledge_never_started_terminal_writer_def
  by (auto intro!: run_holder_frame)

text \<open>
  While a worker holds the lease of a run no second worker starts on it, neither a duplicate of
  the first launch nor one launched by recovery, and the attempt leaves the first worker's lease as
  it was.
\<close>

theorem no_second_worker:
  assumes "chat_db_ok db" and "run_holder rid db (clock 1) = Some w" and "w' \<noteq> w"
  shows "fst (start_worker (\<lambda>_ d. d) clock rid w' lease recovering db) \<in> {Already_claimed, Lease_refused}
    \<and> run_holder rid (snd (start_worker (\<lambda>_ d. d) clock rid w' lease recovering db)) (clock 1) = Some w"
proof -
  obtain cl d where c: "initial_claim recovering (clock 0) rid db = (cl, d)" by (metis prod.collapse)
  have h: "run_holder rid d t = run_holder rid db t" for t
    using c run_holder_claim_run_execution [of rid "clock 0" rid db]
    by (auto simp: initial_claim_def Let_def split_beta split: if_splits)
  have ok: "chat_db_ok d"
    using c assms(1) safe_stepD(1) [OF safe_step_claim_run_execution, of db "clock 0" rid]
    by (auto simp: initial_claim_def Let_def split_beta split: if_splits)
  obtain res d2 where l: "claim (clock 1) rid w' lease d = (res, d2)" by (metis prod.collapse)
  have rc: "run_claim rid (clock 1, lease, w') d = (res = Inr True, d2)" by (simp add: run_claim_def l del: One_nat_def)
  have no: "res \<noteq> Inr True"
    using run_lease.acquire_blocked [OF ok, of rid "clock 1" w w' lease] h assms(2,3) rc by auto
  then have h2: "run_holder rid d2 (clock 1) = Some w"
    using run_lease.acquire_refused [OF ok, of rid "clock 1" lease w' "clock 1"] h assms(2) rc by simp
  show ?thesis
    using no h h2 assms(2)
    by (cases cl; cases res) (simp_all add: start_worker_def c l run_holder_acknowledge del: One_nat_def split: bool.splits)
qed

theorem no_second_worker_witness:
  "fst (start_worker (\<lambda>_ d. d) (\<lambda>_. 1000000) ''r1'' ''w2'' 90 True sample_db) \<in> {Already_claimed, Lease_refused}"
  using no_second_worker [OF sample_db_ok, of "''r1''" "\<lambda>_. 1000000" "''w1''" "''w2''" 90 True]
  by (simp add: run_holder_def find_sample_run) (simp add: sample_run_def)

end
