(* ===== verification/Tool_Effects.thy ===== *)
theory Tool_Effects
  imports Run_Executor
begin

text \<open>
  \<open>core/services/tool_effect_ledger.py\<close>, the journal half: the append-only ledger of tool intents
  and outcomes (\<open>ToolEffectLedger\<close>) and the mutable execution claims (\<open>ToolEffectLease\<close>) of
  \<open>core/db/models/logs.py\<close>, as an extension of the chat database. Each method of
  \<open>ToolEffectJournal\<close> that is one transaction is one function; \<open>begin_intent\<close> and
  \<open>commit_result\<close>, which retry after a failed commit, take what other processes commit in between
  (\<open>interf\<close>) and which of their commits fail (\<open>fault\<close>). SHA-256 and the canonical form of the
  arguments are arguments of the definitions that use them.

  The lemmas show that an effect has one intent and at most one outcome, that the outcome is never
  revised, that a tool that must not be replayed is started by one caller only, and that a caller
  whose claim or lease is gone commits nothing.
\<close>

section \<open>Ledger and claims\<close>

datatype effect_fact =
    Fact_intent
  | Fact_result
  | Fact_failure
  | Fact_unknown_outcome
  | Fact_recovery_claim

datatype recovery_policy_kind =
    Replay_safe
  | Reconcile
  | Never_replay

fun policy_name :: "recovery_policy_kind \<Rightarrow> string" where
  "policy_name Replay_safe = ''replay_safe''"
| "policy_name Reconcile = ''reconcile''"
| "policy_name Never_replay = ''never_replay''"

record tool_effect =
  te_effect_id :: string
  te_result_id :: string
  te_run_id :: string
  te_operation_seq :: int
  te_event_type :: effect_fact
  te_tool_name :: string
  te_tool_call_id :: string
  te_args_hash :: string
  te_redacted_args :: dict
  te_idempotency_key :: "string option"
  te_recovery_policy :: recovery_policy_kind
  te_result_payload :: json
  te_error_message :: "string option"
  te_terminal_effect_id :: "string option"
  te_created_at :: time

record tool_lease =
  tl_effect_id :: string
  tl_run_id :: string
  tl_run_owner :: string
  tl_claim_owner :: "string option"
  tl_expires_at :: "time option"
  tl_updated_at :: time

record tool_db = chat_db +
  ledger :: "tool_effect list"
  leases :: "tool_lease list"

datatype tool_error =
    ToolIntentCommitError
  | ToolOutcomeUnknown string
  | ToolEffectLeaseLost string
  | ToolIdempotencyConflict
  | ToolEffectError
  | Tool_ValueError
  | Tool_NoResultFound
  | Tool_journal journal_error

datatype intent_action = Act_execute | Act_reconcile | Act_wait | Act_known | Act_unknown

record tool_intent =
  ti_effect_id :: string
  ti_result_id :: string
  ti_run_id :: string
  ti_operation_seq :: int
  ti_tool_name :: string
  ti_tool_call_id :: string
  ti_args_hash :: string
  ti_redacted_args :: dict
  ti_idempotency_key :: string
  ti_recovery_policy :: recovery_policy_kind
  ti_created_at :: time

record intent_decision =
  id_action :: intent_action
  id_intent :: tool_intent
  id_result :: json
  id_result_state :: string

definition intent_from_row :: "tool_effect \<Rightarrow> tool_intent" where
  "intent_from_row row =
     \<lparr>ti_effect_id = te_effect_id row, ti_result_id = te_result_id row, ti_run_id = te_run_id row,
      ti_operation_seq = te_operation_seq row, ti_tool_name = te_tool_name row,
      ti_tool_call_id = te_tool_call_id row, ti_args_hash = te_args_hash row,
      ti_redacted_args = te_redacted_args row,
      ti_idempotency_key = (case te_idempotency_key row of None \<Rightarrow> [] | Some k \<Rightarrow> k),
      ti_recovery_policy = te_recovery_policy row, ti_created_at = te_created_at row\<rparr>"

definition decide :: "intent_action \<Rightarrow> tool_intent \<Rightarrow> intent_decision" where
  "decide act intent = \<lparr>id_action = act, id_intent = intent, id_result = JNull, id_result_state = ''success''\<rparr>"

section \<open>Lookups\<close>

definition keyed_row :: "string \<Rightarrow> 'z tool_db_scheme \<Rightarrow> tool_effect option" where
  "keyed_row key db = find_by te_idempotency_key (Some key) (ledger db)"

definition is_intent :: "string \<Rightarrow> tool_effect \<Rightarrow> bool" where
  "is_intent eid e \<longleftrightarrow> te_effect_id e = eid \<and> te_event_type e = Fact_intent"

definition intent_row :: "string \<Rightarrow> 'z tool_db_scheme \<Rightarrow> tool_effect option" where
  "intent_row eid db = find (is_intent eid) (ledger db)"

definition terminal_row :: "string \<Rightarrow> 'z tool_db_scheme \<Rightarrow> tool_effect option" where
  "terminal_row eid db = find_by te_terminal_effect_id (Some eid) (ledger db)"

definition lease_row :: "string \<Rightarrow> 'z tool_db_scheme \<Rightarrow> tool_lease option" where
  "lease_row eid db = find_by tl_effect_id eid (leases db)"

definition put_lease :: "tool_lease \<Rightarrow> 'z tool_db_scheme \<Rightarrow> 'z tool_db_scheme" where
  "put_lease l db = db\<lparr>leases := update_where (\<lambda>x. tl_effect_id x = tl_effect_id l) (\<lambda>_. l) (leases db)\<rparr>"

definition add_fact :: "tool_effect \<Rightarrow> 'z tool_db_scheme \<Rightarrow> 'z tool_db_scheme" where
  "add_fact e db = db\<lparr>ledger := ledger db @ [e]\<rparr>"

definition decision_from_terminal :: "tool_intent \<Rightarrow> tool_effect \<Rightarrow> intent_decision" where
  "decision_from_terminal intent terminal =
     (if te_event_type terminal = Fact_unknown_outcome
      then \<lparr>id_action = Act_unknown, id_intent = intent, id_result = JNull, id_result_state = ''unknown''\<rparr>
      else \<lparr>id_action = Act_known, id_intent = intent, id_result = te_result_payload terminal,
            id_result_state = (if te_event_type terminal = Fact_result then ''success'' else ''error'')\<rparr>)"

section \<open>Idempotency keys\<close>

definition stable_idempotency_key :: "(string \<Rightarrow> string) \<Rightarrow> string \<Rightarrow> string \<Rightarrow> string \<Rightarrow> string" where
  "stable_idempotency_key sha256 rid tool_name invocation_id =
     ''tool:'' @ sha256 (rid @ [CHR 0x00] @ tool_name @ [CHR 0x00] @ invocation_id)"

text \<open>The explicit key arrives stripped.\<close>

definition resolved_idempotency_key ::
  "(string \<Rightarrow> string) \<Rightarrow> string \<Rightarrow> string \<Rightarrow> string \<Rightarrow> string \<Rightarrow> string option \<Rightarrow> tool_error + string" where
  "resolved_idempotency_key sha256 rid principal_scope tool_name tool_call_id explicit_key =
     (let caller_key = str_or explicit_key []
      in if caller_key \<noteq> [] then Inr (''caller:'' @ sha256 (principal_scope @ [CHR 0x00] @ caller_key))
         else if tool_call_id = [] then Inl ToolIntentCommitError
         else Inr (stable_idempotency_key sha256 rid tool_name tool_call_id))"

section \<open>Appending facts\<close>

definition append_event ::
  "time \<Rightarrow> string \<Rightarrow> effect_fact \<Rightarrow> string \<Rightarrow> string \<Rightarrow> string \<Rightarrow> json \<Rightarrow> string option \<Rightarrow> bool \<Rightarrow>
   chat_run \<Rightarrow> tool_effect \<Rightarrow> 'z tool_db_scheme \<Rightarrow> 'z tool_db_scheme" where
  "append_event now owner event_type operation_type phase safety result error terminal run intent db =
     (let (receipt, db1) =
            append_locked owner operation_type phase safety
              (Some [(''effect_id'', JStr (te_effect_id intent)), (''result_id'', JStr (te_result_id intent))])
              None run db
      in add_fact
           \<lparr>te_effect_id = te_effect_id intent, te_result_id = te_result_id intent,
            te_run_id = te_run_id intent, te_operation_seq = rcpt_operation_seq receipt,
            te_event_type = event_type, te_tool_name = te_tool_name intent,
            te_tool_call_id = te_tool_call_id intent, te_args_hash = te_args_hash intent,
            te_redacted_args = te_redacted_args intent, te_idempotency_key = None,
            te_recovery_policy = te_recovery_policy intent, te_result_payload = result,
            te_error_message = error,
            te_terminal_effect_id = (if terminal then Some (te_effect_id intent) else None),
            te_created_at = now\<rparr> db1)"

definition unknown_run :: "time \<Rightarrow> string \<Rightarrow> chat_run \<Rightarrow> chat_run" where
  "unknown_run now reason run =
     run\<lparr>run_status := Run_needs_attention, run_failure_reason := Some reason, run_lease_owner := None,
         run_lease_expires_at := None, run_updated_at := now\<rparr>"

definition clear_claim :: "time \<Rightarrow> tool_lease \<Rightarrow> tool_lease" where
  "clear_claim now l = l\<lparr>tl_claim_owner := None, tl_expires_at := None, tl_updated_at := now\<rparr>"

definition mark_unknown_locked ::
  "time \<Rightarrow> string \<Rightarrow> string \<Rightarrow> string \<Rightarrow> chat_run \<Rightarrow> tool_effect \<Rightarrow> tool_lease \<Rightarrow> 'z tool_db_scheme \<Rightarrow>
   tool_error + 'z tool_db_scheme" where
  "mark_unknown_locked now owner claim_owner reason run intent lease db =
     (if terminal_row (te_effect_id intent) db \<noteq> None then Inr db
      else if tl_run_owner lease \<noteq> owner \<or> tl_claim_owner lease \<noteq> Some claim_owner
      then Inl (ToolEffectLeaseLost (te_effect_id intent))
      else Inr (put_lease (clear_claim now lease)
                 (append_event now owner Fact_unknown_outcome ''tool_outcome_unknown'' ''needs_attention''
                    ''manual_review'' JNull (Some reason) True (unknown_run now reason run) intent db)))"

section \<open>Beginning an intent\<close>

definition execute_action :: "recovery_policy_kind \<Rightarrow> intent_action" where
  "execute_action policy = (if policy = Reconcile then Act_reconcile else Act_execute)"

text \<open>
  The takeover of an expired claim: the compare-and-set on the claim as it was read, the recovery
  fact, and for a tool that must not be replayed the unknown outcome instead of an execution.
\<close>

definition takeover_matches :: "time \<Rightarrow> tool_lease \<Rightarrow> tool_lease \<Rightarrow> bool" where
  "takeover_matches now seen l \<longleftrightarrow> tl_effect_id l = tl_effect_id seen \<and> tl_run_owner l = tl_run_owner seen
     \<and> tl_claim_owner l = tl_claim_owner seen \<and> tl_expires_at l = tl_expires_at seen
     \<and> (tl_expires_at l = None \<or> sql_le (tl_expires_at l) now)"

definition takeover ::
  "time \<Rightarrow> string \<Rightarrow> string \<Rightarrow> int \<Rightarrow> chat_run \<Rightarrow> tool_effect \<Rightarrow> tool_lease \<Rightarrow> 'z tool_db_scheme \<Rightarrow>
   (tool_error + intent_decision) \<times> 'z tool_db_scheme" where
  "takeover now run_owner claim_owner lease_seconds run row seen db =
     (let intent = intent_from_row row
      in if affected (takeover_matches now seen) (leases db) = 0 then (Inr (decide Act_wait intent), db)
         else
           let lease = seen\<lparr>tl_run_owner := run_owner, tl_claim_owner := Some claim_owner,
                            tl_expires_at := Some (lease_until now lease_seconds), tl_updated_at := now\<rparr>;
               db1 = append_event now run_owner Fact_recovery_claim ''tool_effect_recovery_claimed''
                       (''tool_intent_'' @ policy_name (te_recovery_policy row))
                       (policy_name (te_recovery_policy row)) JNull None False
                       (run\<lparr>run_updated_at := now\<rparr>) row (put_lease lease db)
           in if te_recovery_policy row = Never_replay then
                (case find_run (run_id run) db1 of
                   None \<Rightarrow> (Inl Tool_NoResultFound, db)
                 | Some run1 \<Rightarrow>
                     (case mark_unknown_locked now run_owner claim_owner
                             ''non-replayable tool intent has no committed result'' run1 row lease db1 of
                        Inl e \<Rightarrow> (Inl e, db)
                      | Inr db2 \<Rightarrow> (Inr (decide Act_unknown intent), db2)))
              else (Inr (decide (execute_action (te_recovery_policy row)) intent), db1))"

definition existing_owned ::
  "time \<Rightarrow> string \<Rightarrow> string \<Rightarrow> string \<Rightarrow> int \<Rightarrow> tool_effect \<Rightarrow> 'z tool_db_scheme \<Rightarrow>
   (tool_error + intent_decision) \<times> 'z tool_db_scheme" where
  "existing_owned now caller_run_id run_owner claim_owner lease_seconds row db =
     (let intent = intent_from_row row
      in case lease_row (te_effect_id row) db of
           None \<Rightarrow> (Inl Tool_NoResultFound, db)
         | Some lease \<Rightarrow>
             (case locked_owned_run now caller_run_id run_owner db of
                Inl e \<Rightarrow> (Inl (Tool_journal e), db)
              | Inr run \<Rightarrow>
                  if tl_run_owner lease = run_owner \<and> sql_gt (tl_expires_at lease) now then
                    (if tl_claim_owner lease = Some claim_owner
                     then (Inr (decide (execute_action (te_recovery_policy row)) intent), db)
                     else (Inr (decide Act_wait intent), db))
                  else takeover now run_owner claim_owner lease_seconds run row lease db))"

definition existing_decision ::
  "time \<Rightarrow> string \<Rightarrow> string \<Rightarrow> string \<Rightarrow> string \<Rightarrow> string \<Rightarrow> string \<Rightarrow> int \<Rightarrow> 'z tool_db_scheme \<Rightarrow>
   (tool_error + intent_decision) \<times> 'z tool_db_scheme" where
  "existing_decision now key caller_run_id run_owner claim_owner tool_name args_hash lease_seconds db =
     (case keyed_row key db of
        None \<Rightarrow> (Inl Tool_NoResultFound, db)
      | Some row \<Rightarrow>
          if te_tool_name row \<noteq> tool_name \<or> te_args_hash row \<noteq> args_hash
          then (Inl ToolIdempotencyConflict, db)
          else
            let intent = intent_from_row row; terminal = terminal_row (te_effect_id row) db
            in case find_run caller_run_id db of
                 None \<Rightarrow> (Inl ToolIntentCommitError, db)
               | Some caller_run \<Rightarrow>
                   (case find_run (te_run_id row) db of
                      None \<Rightarrow> (Inl ToolIntentCommitError, db)
                    | Some original_run \<Rightarrow>
                        if run_user_id original_run \<noteq> run_user_id caller_run
                        then (Inl ToolIdempotencyConflict, db)
                        else if terminal \<noteq> None \<and> caller_run_id = te_run_id row
                        then (Inr (decision_from_terminal intent (the terminal)), db)
                        else if \<not> holds_lease now run_owner caller_run
                        then (Inl ToolIntentCommitError, db)
                        else if terminal \<noteq> None
                        then (Inr (decision_from_terminal intent (the terminal)), db)
                        else if te_run_id row \<noteq> caller_run_id then (Inr (decide Act_wait intent), db)
                        else existing_owned now caller_run_id run_owner claim_owner lease_seconds row db))"

text \<open>
  \<open>begin_intent\<close>: the principal is read, then the key is looked up, then the intent, its journal
  operation and its claim are committed together. \<open>interf n i\<close> is what others commit before the
  i-th of these transactions when n retries are left, \<open>fault n\<close> whether the last one fails with a
  database conflict then (a claim row with the same identifier is one). Every attempt reads the time
  \<open>now\<close>; \<open>eid n\<close> and \<open>resid n\<close> are the random identifiers of the attempt, \<open>args_hash\<close> and \<open>redacted\<close> the canonical form of the arguments.
\<close>

definition intent_fact ::
  "time \<Rightarrow> string \<Rightarrow> string \<Rightarrow> string \<Rightarrow> int \<Rightarrow> string \<Rightarrow> string \<Rightarrow> string \<Rightarrow> dict \<Rightarrow> string \<Rightarrow>
   recovery_policy_kind \<Rightarrow> tool_effect" where
  "intent_fact now eid resid rid seq tool_name tool_call_id args_hash redacted key policy =
     \<lparr>te_effect_id = eid, te_result_id = resid, te_run_id = rid, te_operation_seq = seq,
      te_event_type = Fact_intent, te_tool_name = tool_name, te_tool_call_id = tool_call_id,
      te_args_hash = args_hash, te_redacted_args = redacted, te_idempotency_key = Some key,
      te_recovery_policy = policy, te_result_payload = JNull, te_error_message = None,
      te_terminal_effect_id = None, te_created_at = now\<rparr>"

definition insert_intent ::
  "time \<Rightarrow> string \<Rightarrow> string \<Rightarrow> string \<Rightarrow> string \<Rightarrow> string \<Rightarrow> string \<Rightarrow> string \<Rightarrow> string \<Rightarrow> dict \<Rightarrow> string \<Rightarrow>
   recovery_policy_kind \<Rightarrow> int \<Rightarrow> chat_run \<Rightarrow> 'z tool_db_scheme \<Rightarrow> tool_effect \<times> 'z tool_db_scheme" where
  "insert_intent now eid resid rid owner claim_owner tool_name tool_call_id args_hash redacted key policy
      lease_seconds run db =
     (let (receipt, db1) =
            append_locked owner ''tool_intent_committed'' (''tool_intent_'' @ policy_name policy)
              (policy_name policy)
              (Some [(''effect_id'', JStr eid), (''result_id'', JStr resid), (''tool_name'', JStr tool_name),
                     (''tool_call_id'', JStr tool_call_id), (''args_hash'', JStr args_hash)])
              None (run\<lparr>run_updated_at := now\<rparr>) db;
          row = intent_fact now eid resid rid (rcpt_operation_seq receipt) tool_name tool_call_id args_hash
                  redacted key policy;
          db2 = add_fact row db1
      in (row, db2\<lparr>leases := leases db2 @
            [\<lparr>tl_effect_id = eid, tl_run_id = rid, tl_run_owner = owner, tl_claim_owner = Some claim_owner,
              tl_expires_at = Some (lease_until now lease_seconds), tl_updated_at = now\<rparr>]\<rparr>))"

definition as_commit_error :: "(tool_error + 'a) \<times> 'd \<Rightarrow> (tool_error + 'a) \<times> 'd" where
  "as_commit_error r =
     (case r of
        (Inl (Tool_journal _), d) \<Rightarrow> (Inl ToolIntentCommitError, d)
      | (Inl Tool_NoResultFound, d) \<Rightarrow> (Inl ToolIntentCommitError, d)
      | _ \<Rightarrow> r)"

text \<open>The transaction that commits the intent; a conflict rolls it back.\<close>

datatype 'd intent_commit =
    Commit_fenced
  | Commit_found
  | Commit_conflict
  | Committed tool_effect 'd

definition intent_transaction ::
  "bool \<Rightarrow> time \<Rightarrow> string \<Rightarrow> string \<Rightarrow> string \<Rightarrow> string \<Rightarrow> string \<Rightarrow> string \<Rightarrow> string \<Rightarrow> string \<Rightarrow> dict \<Rightarrow> string \<Rightarrow>
   recovery_policy_kind \<Rightarrow> int \<Rightarrow> 'z tool_db_scheme \<Rightarrow> 'z tool_db_scheme intent_commit" where
  "intent_transaction fault now eid resid rid owner claim_owner tool_call_id tool_name args_hash redacted key
      policy lease_seconds db =
     (case locked_owned_run now rid owner db of
        Inl _ \<Rightarrow> Commit_fenced
      | Inr run \<Rightarrow>
          if keyed_row key db \<noteq> None then Commit_found
          else if fault \<or> lease_row eid db \<noteq> None then Commit_conflict
          else let (row, db') = insert_intent now eid resid rid owner claim_owner tool_name tool_call_id
                                  args_hash redacted key policy lease_seconds run db
               in Committed row db')"

text \<open>One attempt: \<open>Inl\<close> its outcome, \<open>Inr\<close> the database from which it is to be retried.\<close>

definition begin_attempt ::
  "(nat \<Rightarrow> 'z tool_db_scheme \<Rightarrow> 'z tool_db_scheme) \<Rightarrow> bool \<Rightarrow> (string \<Rightarrow> string) \<Rightarrow>
   time \<Rightarrow> string \<Rightarrow> string \<Rightarrow> string \<Rightarrow> string \<Rightarrow> string \<Rightarrow> string \<Rightarrow> string \<Rightarrow> string \<Rightarrow> dict \<Rightarrow>
   recovery_policy_kind \<Rightarrow> string option \<Rightarrow> int \<Rightarrow> 'z tool_db_scheme \<Rightarrow>
   ((tool_error + intent_decision) \<times> 'z tool_db_scheme) + 'z tool_db_scheme" where
  "begin_attempt interf fault sha256 now eid resid rid owner claim_owner tool_call_id tool_name
      args_hash redacted policy explicit_key lease_seconds db0 =
     (let db = interf 0 db0
      in case find_run rid db of
           None \<Rightarrow> Inl (Inl ToolIntentCommitError, db)
         | Some caller_run \<Rightarrow>
             (case resolved_idempotency_key sha256 rid (run_user_id caller_run) tool_name tool_call_id
                     explicit_key of
                Inl e \<Rightarrow> Inl (Inl e, db)
              | Inr key \<Rightarrow>
                  let existing = existing_decision now key rid owner claim_owner tool_name args_hash
                                   lease_seconds;
                      db1 = interf 1 db;
                      db2 = interf 2 db1;
                      db3 = interf 3 db2
                  in if keyed_row key db1 \<noteq> None then Inl (as_commit_error (existing db2))
                     else case intent_transaction fault now eid resid rid owner claim_owner tool_call_id
                                 tool_name args_hash redacted key policy lease_seconds db2 of
                            Commit_fenced \<Rightarrow> Inl (Inl ToolIntentCommitError, db2)
                          | Commit_found \<Rightarrow> Inl (as_commit_error (existing db3))
                          | Committed row db' \<Rightarrow> Inl (Inr (decide Act_execute (intent_from_row row)), db')
                          | Commit_conflict \<Rightarrow>
                              if keyed_row key db3 \<noteq> None then Inl (existing (interf 4 db3)) else Inr db3))"

fun begin_intent_from ::
  "nat \<Rightarrow> (nat \<Rightarrow> nat \<Rightarrow> 'z tool_db_scheme \<Rightarrow> 'z tool_db_scheme) \<Rightarrow> (nat \<Rightarrow> bool) \<Rightarrow> (string \<Rightarrow> string) \<Rightarrow>
   time \<Rightarrow> (nat \<Rightarrow> string) \<Rightarrow> (nat \<Rightarrow> string) \<Rightarrow> string \<Rightarrow> string \<Rightarrow> string \<Rightarrow> string \<Rightarrow> string \<Rightarrow> string \<Rightarrow> dict \<Rightarrow>
   recovery_policy_kind \<Rightarrow> string option \<Rightarrow> int \<Rightarrow> 'z tool_db_scheme \<Rightarrow>
   (tool_error + intent_decision) \<times> 'z tool_db_scheme" where
  "begin_intent_from 0 interf fault sha256 now eid resid rid owner claim_owner tool_call_id tool_name
      args_hash redacted policy explicit_key lease_seconds db =
     (case begin_attempt (interf 0) (fault 0) sha256 now (eid 0) (resid 0) rid owner claim_owner
             tool_call_id tool_name args_hash redacted policy explicit_key lease_seconds db of
        Inl r \<Rightarrow> r
      | Inr db' \<Rightarrow> (Inl ToolIntentCommitError, db'))"
| "begin_intent_from (Suc n) interf fault sha256 now eid resid rid owner claim_owner tool_call_id tool_name
      args_hash redacted policy explicit_key lease_seconds db =
     (case begin_attempt (interf (Suc n)) (fault (Suc n)) sha256 now (eid (Suc n)) (resid (Suc n)) rid owner
             claim_owner tool_call_id tool_name args_hash redacted policy explicit_key lease_seconds db of
        Inl r \<Rightarrow> r
      | Inr db' \<Rightarrow>
          begin_intent_from n interf fault sha256 now eid resid rid owner claim_owner tool_call_id tool_name
            args_hash redacted policy explicit_key lease_seconds db')"

definition begin_intent ::
  "(nat \<Rightarrow> nat \<Rightarrow> 'z tool_db_scheme \<Rightarrow> 'z tool_db_scheme) \<Rightarrow> (nat \<Rightarrow> bool) \<Rightarrow> (string \<Rightarrow> string) \<Rightarrow>
   time \<Rightarrow> (nat \<Rightarrow> string) \<Rightarrow> (nat \<Rightarrow> string) \<Rightarrow> string \<Rightarrow> string \<Rightarrow> string \<Rightarrow> string \<Rightarrow> string \<Rightarrow> string \<Rightarrow> dict \<Rightarrow>
   recovery_policy_kind \<Rightarrow> string option \<Rightarrow> int \<Rightarrow> 'z tool_db_scheme \<Rightarrow>
   (tool_error + intent_decision) \<times> 'z tool_db_scheme" where
  "begin_intent = begin_intent_from 4"

section \<open>Claims\<close>

definition claim_live ::
  "time \<Rightarrow> string \<Rightarrow> string \<Rightarrow> string \<Rightarrow> 'z tool_db_scheme \<Rightarrow> tool_lease \<Rightarrow> bool" where
  "claim_live now eid run_owner claim_owner db l \<longleftrightarrow>
     tl_effect_id l = eid \<and> tl_run_owner l = run_owner \<and> tl_claim_owner l = Some claim_owner
     \<and> sql_gt (tl_expires_at l) now
     \<and> (\<exists>r\<in>set (runs db). run_id r = tl_run_id l \<and> run_status r \<in> set LIVE_STATUSES
          \<and> run_lease_owner r = Some run_owner \<and> sql_gt (run_lease_expires_at r) now)"

definition acquire_invocation_claim ::
  "time \<Rightarrow> string \<Rightarrow> string \<Rightarrow> string \<Rightarrow> int \<Rightarrow> 'z tool_db_scheme \<Rightarrow> (tool_error + unit) \<times> 'z tool_db_scheme" where
  "acquire_invocation_claim now eid run_owner claim_owner lease_seconds db =
     (if affected (claim_live now eid run_owner claim_owner db) (leases db) = 0
         \<or> terminal_row eid db \<noteq> None
      then (Inl (ToolEffectLeaseLost eid), db)
      else (Inr (), db\<lparr>leases := update_where (claim_live now eid run_owner claim_owner db)
                         (\<lambda>l. l\<lparr>tl_expires_at := Some (lease_until now lease_seconds), tl_updated_at := now\<rparr>)
                         (leases db)\<rparr>))"

definition renew_invocation_claim ::
  "('z tool_db_scheme \<Rightarrow> 'z tool_db_scheme) \<Rightarrow> time \<Rightarrow> string \<Rightarrow> string \<Rightarrow> string \<Rightarrow> int \<Rightarrow> 'z tool_db_scheme \<Rightarrow>
   (tool_error + bool) \<times> 'z tool_db_scheme" where
  "renew_invocation_claim interf now eid run_owner claim_owner lease_seconds db =
     (case intent_row eid db of
        None \<Rightarrow> (Inl Tool_NoResultFound, db)
      | Some intent \<Rightarrow>
          (case renew now (te_run_id intent) run_owner lease_seconds db of
             (False, db1) \<Rightarrow> (Inr False, db1)
           | (True, db1) \<Rightarrow>
               (case acquire_invocation_claim now eid run_owner claim_owner lease_seconds (interf db1) of
                  (Inl _, db2) \<Rightarrow> (Inr False, db2)
                | (Inr _, db2) \<Rightarrow> (Inr True, db2))))"

definition abandon_invocation_claim ::
  "time \<Rightarrow> string \<Rightarrow> string \<Rightarrow> string \<Rightarrow> 'z tool_db_scheme \<Rightarrow> 'z tool_db_scheme" where
  "abandon_invocation_claim now eid run_owner claim_owner db =
     db\<lparr>leases := update_where
          (\<lambda>l. tl_effect_id l = eid \<and> tl_run_owner l = run_owner \<and> tl_claim_owner l = Some claim_owner)
          (\<lambda>l. l\<lparr>tl_expires_at := Some now, tl_updated_at := now\<rparr>) (leases db)\<rparr>"

section \<open>Outcomes\<close>

definition known_outcome :: "string \<Rightarrow> tool_effect \<Rightarrow> tool_error + json" where
  "known_outcome eid terminal =
     (if te_event_type terminal = Fact_unknown_outcome then Inl (ToolOutcomeUnknown eid)
      else Inr (te_result_payload terminal))"

definition commit_result_locked ::
  "(json \<Rightarrow> string) \<Rightarrow> time \<Rightarrow> string \<Rightarrow> json \<Rightarrow> bool \<Rightarrow> bool \<Rightarrow> tool_effect \<Rightarrow> tool_lease \<Rightarrow> 'z tool_db_scheme \<Rightarrow>
   (tool_error + json) \<times> 'z tool_db_scheme" where
  "commit_result_locked str_of now owner result failed reconciled intent lease db =
     (case terminal_row (te_effect_id intent) db of
        Some terminal \<Rightarrow> (known_outcome (te_effect_id intent) terminal, db)
      | None \<Rightarrow>
          if tl_run_owner lease \<noteq> owner then (Inl (ToolEffectLeaseLost (te_effect_id intent)), db)
          else case locked_owned_run now (te_run_id intent) owner db of
                 Inl e \<Rightarrow> (Inl (Tool_journal e), db)
               | Inr run \<Rightarrow>
                   (Inr result,
                    put_lease (clear_claim now lease)
                      (append_event now owner (if failed then Fact_failure else Fact_result)
                         (if failed then ''tool_failure_committed'' else ''tool_result_committed'')
                         ''tool_result_committed''
                         (if reconciled then ''reconciled'' else policy_name (te_recovery_policy intent))
                         result (if failed then Some (char_limit 4000 (str_of result)) else None) True
                         (run\<lparr>run_updated_at := now\<rparr>) intent db)))"

definition try_commit_result ::
  "(json \<Rightarrow> string) \<Rightarrow> time \<Rightarrow> string \<Rightarrow> string \<Rightarrow> string \<Rightarrow> json \<Rightarrow> bool \<Rightarrow> bool \<Rightarrow> 'z tool_db_scheme \<Rightarrow>
   (tool_error + json) \<times> 'z tool_db_scheme" where
  "try_commit_result str_of now eid run_owner claim_owner result failed reconciled db =
     (case intent_row eid db of
        None \<Rightarrow> (Inl Tool_NoResultFound, db)
      | Some intent \<Rightarrow>
          (case terminal_row eid db of
             Some terminal \<Rightarrow> (known_outcome eid terminal, db)
           | None \<Rightarrow>
               (case lease_row eid db of
                  None \<Rightarrow> (Inl Tool_NoResultFound, db)
                | Some lease \<Rightarrow>
                    if tl_run_owner lease \<noteq> run_owner \<or> tl_claim_owner lease \<noteq> Some claim_owner
                       \<or> \<not> sql_gt (tl_expires_at lease) now
                    then (Inl (ToolEffectLeaseLost eid), db)
                    else commit_result_locked str_of now run_owner result failed reconciled intent lease db)))"

definition terminal_decision :: "string \<Rightarrow> 'z tool_db_scheme \<Rightarrow> intent_decision option" where
  "terminal_decision eid db =
     (case intent_row eid db of
        None \<Rightarrow> None
      | Some intent \<Rightarrow> map_option (decision_from_terminal (intent_from_row intent)) (terminal_row eid db))"

text \<open>
  A failed commit rolls back and looks for the outcome another process may have committed, then
  retries. Only a transaction that writes can fail to commit.
\<close>

definition commit_attempt ::
  "('z tool_db_scheme \<Rightarrow> 'z tool_db_scheme) \<Rightarrow> bool \<Rightarrow> (json \<Rightarrow> string) \<Rightarrow> time \<Rightarrow>
   string \<Rightarrow> string \<Rightarrow> string \<Rightarrow> json \<Rightarrow> bool \<Rightarrow> bool \<Rightarrow> 'z tool_db_scheme \<Rightarrow>
   ((tool_error + json) \<times> 'z tool_db_scheme) + 'z tool_db_scheme" where
  "commit_attempt interf fault str_of now eid run_owner claim_owner result failed reconciled db =
     (let r = try_commit_result str_of now eid run_owner claim_owner result failed reconciled db
      in if terminal_row eid db \<noteq> None \<or> isl (fst r) \<or> \<not> fault then Inl r
         else
           let db1 = interf db
           in case terminal_decision eid db1 of
                Some d \<Rightarrow>
                  Inl (if id_action d = Act_unknown then Inl (ToolOutcomeUnknown eid) else Inr (id_result d), db1)
              | None \<Rightarrow> Inr db1)"

fun commit_result_from ::
  "nat \<Rightarrow> (nat \<Rightarrow> 'z tool_db_scheme \<Rightarrow> 'z tool_db_scheme) \<Rightarrow> (nat \<Rightarrow> bool) \<Rightarrow> (json \<Rightarrow> string) \<Rightarrow> time \<Rightarrow>
   string \<Rightarrow> string \<Rightarrow> string \<Rightarrow> json \<Rightarrow> bool \<Rightarrow> bool \<Rightarrow> 'z tool_db_scheme \<Rightarrow>
   (tool_error + json) \<times> 'z tool_db_scheme" where
  "commit_result_from 0 interf fault str_of now eid run_owner claim_owner result failed reconciled db =
     (case commit_attempt (interf 0) (fault 0) str_of now eid run_owner claim_owner result failed reconciled db of
        Inl r \<Rightarrow> r
      | Inr db' \<Rightarrow> (Inl ToolEffectError, db'))"
| "commit_result_from (Suc n) interf fault str_of now eid run_owner claim_owner result failed reconciled db =
     (case commit_attempt (interf (Suc n)) (fault (Suc n)) str_of now eid run_owner claim_owner result failed
             reconciled db of
        Inl r \<Rightarrow> r
      | Inr db' \<Rightarrow> commit_result_from n interf fault str_of now eid run_owner claim_owner result failed
                     reconciled db')"

definition commit_result ::
  "(nat \<Rightarrow> 'z tool_db_scheme \<Rightarrow> 'z tool_db_scheme) \<Rightarrow> (nat \<Rightarrow> bool) \<Rightarrow> (json \<Rightarrow> string) \<Rightarrow> time \<Rightarrow>
   string \<Rightarrow> string \<Rightarrow> string \<Rightarrow> json \<Rightarrow> bool \<Rightarrow> bool \<Rightarrow> 'z tool_db_scheme \<Rightarrow>
   (tool_error + json) \<times> 'z tool_db_scheme" where
  "commit_result = commit_result_from 4"

definition mark_unknown ::
  "time \<Rightarrow> string \<Rightarrow> string \<Rightarrow> string \<Rightarrow> string \<Rightarrow> 'z tool_db_scheme \<Rightarrow> (tool_error + unit) \<times> 'z tool_db_scheme" where
  "mark_unknown now eid owner claim_owner reason db =
     (case (lease_row eid db, intent_row eid db) of
        (Some lease, Some intent) \<Rightarrow>
          (case locked_owned_run now (te_run_id intent) owner db of
             Inl e \<Rightarrow> (Inl (Tool_journal e), db)
           | Inr run \<Rightarrow>
               (case mark_unknown_locked now owner claim_owner reason run intent lease db of
                  Inl e \<Rightarrow> (Inl e, db)
                | Inr db' \<Rightarrow> (Inr (), db')))
      | _ \<Rightarrow> (Inl Tool_NoResultFound, db))"

definition pending_effect_ids :: "'z tool_db_scheme \<Rightarrow> string list" where
  "pending_effect_ids db =
     map te_effect_id (sort_key te_created_at
       (filter (\<lambda>e. te_event_type e = Fact_intent \<and> terminal_row (te_effect_id e) db = None) (ledger db)))"

section \<open>Recovery of effects\<close>

definition settle_terminal_run_intent ::
  "time \<Rightarrow> string \<Rightarrow> 'z tool_db_scheme \<Rightarrow> (tool_error + tool_intent option) \<times> 'z tool_db_scheme" where
  "settle_terminal_run_intent now eid db =
     (case intent_row eid db of
        None \<Rightarrow> (Inr None, db)
      | Some intent \<Rightarrow>
          if terminal_row eid db \<noteq> None then (Inr None, db)
          else case find_run (te_run_id intent) db of
                 None \<Rightarrow> (Inr None, db)
               | Some run \<Rightarrow>
                   if run_status run \<in> set LIVE_STATUSES \<or> run_status run = Run_needs_attention
                   then (Inr None, db)
                   else case lease_row eid db of
                          None \<Rightarrow> (Inl Tool_NoResultFound, db)
                        | Some lease \<Rightarrow>
                            (Inr (Some (intent_from_row intent)),
                             put_lease (clear_claim now lease)
                               (append_event now ''system:terminal-settlement'' Fact_unknown_outcome
                                  ''tool_outcome_unknown_after_terminal_run''
                                  (str_or (Some (run_phase run)) (status_name (run_status run)))
                                  ''manual_review'' JNull
                                  (Some (''run became '' @ status_name (run_status run)
                                         @ '' before the tool outcome committed'')) True
                                  (run\<lparr>run_updated_at := now\<rparr>) intent db)))"

definition recovery_run :: "time \<Rightarrow> string \<Rightarrow> string \<Rightarrow> chat_run \<Rightarrow> bool" where
  "recovery_run now rid recovery_owner r \<longleftrightarrow>
     run_id r = rid \<and> (run_status r \<in> set LIVE_STATUSES \<or> run_status r = Run_needs_attention)
     \<and> (run_lease_owner r = None \<or> run_lease_expires_at r = None \<or> sql_le (run_lease_expires_at r) now
        \<or> run_lease_owner r = Some recovery_owner)"

definition recovery_lease :: "time \<Rightarrow> string \<Rightarrow> string \<Rightarrow> tool_lease \<Rightarrow> bool" where
  "recovery_lease now eid recovery_owner l \<longleftrightarrow>
     tl_effect_id l = eid \<and> (tl_expires_at l = None \<or> sql_le (tl_expires_at l) now
                             \<or> tl_claim_owner l = Some recovery_owner)"

definition claim_recovery_intent ::
  "time \<Rightarrow> string \<Rightarrow> string \<Rightarrow> int \<Rightarrow> 'z tool_db_scheme \<Rightarrow> tool_intent option \<times> 'z tool_db_scheme" where
  "claim_recovery_intent now eid recovery_owner lease_seconds db =
     (case intent_row eid db of
        None \<Rightarrow> (None, db)
      | Some intent \<Rightarrow>
          if terminal_row eid db \<noteq> None
             \<or> affected (recovery_run now (te_run_id intent) recovery_owner) (runs db) = 0
             \<or> affected (recovery_lease now eid recovery_owner) (leases db) = 0
          then (None, db)
          else
            let db1 = update_runs (recovery_run now (te_run_id intent) recovery_owner)
                        (\<lambda>r. r\<lparr>run_status := Run_running, run_lease_owner := Some recovery_owner,
                               run_lease_expires_at := Some (lease_until now lease_seconds),
                               run_updated_at := now\<rparr>) db;
                db2 = db1\<lparr>leases := update_where (recovery_lease now eid recovery_owner)
                            (\<lambda>l. l\<lparr>tl_run_owner := recovery_owner, tl_claim_owner := Some recovery_owner,
                                   tl_expires_at := Some (lease_until now lease_seconds),
                                   tl_updated_at := now\<rparr>) (leases db1)\<rparr>
            in case find_run (te_run_id intent) db2 of
                 None \<Rightarrow> (None, db)
               | Some run \<Rightarrow>
                   (Some (intent_from_row intent),
                    append_event now recovery_owner Fact_recovery_claim ''tool_effect_recovery_claimed''
                      (''tool_intent_'' @ policy_name (te_recovery_policy intent))
                      (policy_name (te_recovery_policy intent)) JNull None False run intent db2))"

definition drop_run_lease ::
  "time \<Rightarrow> string \<Rightarrow> string \<Rightarrow> 'z tool_db_scheme \<Rightarrow> (tool_error + unit) \<times> 'z tool_db_scheme" where
  "drop_run_lease now eid recovery_owner db =
     (case lease_row eid db of
        None \<Rightarrow> (Inl Tool_NoResultFound, db)
      | Some lease \<Rightarrow>
          (case find_run (tl_run_id lease) db of
             None \<Rightarrow> (Inl Tool_NoResultFound, db)
           | Some run \<Rightarrow>
               if tl_run_owner lease \<noteq> recovery_owner \<or> run_lease_owner run \<noteq> Some recovery_owner
               then (Inl (ToolEffectLeaseLost eid), db)
               else (Inr (), put_run (run\<lparr>run_lease_owner := None, run_lease_expires_at := None,
                                          run_updated_at := now\<rparr>) db)))"

text \<open>The result is committed by \<open>commit_result\<close>; giving the lease of the run back is a transaction of its own, which may fail.\<close>

definition commit_recovered_result ::
  "(nat \<Rightarrow> 'z tool_db_scheme \<Rightarrow> 'z tool_db_scheme) \<Rightarrow> (nat \<Rightarrow> bool) \<Rightarrow> bool \<Rightarrow> (json \<Rightarrow> string) \<Rightarrow> time \<Rightarrow>
   string \<Rightarrow> json \<Rightarrow> string \<Rightarrow> 'z tool_db_scheme \<Rightarrow> (tool_error + json) \<times> 'z tool_db_scheme" where
  "commit_recovered_result interf fault drop_fault str_of now eid result recovery_owner db =
     (case commit_result (\<lambda>n. interf (Suc n)) fault str_of now eid recovery_owner recovery_owner result False
             True db of
        (Inl e, db1) \<Rightarrow> (Inl e, db1)
      | (Inr v, db1) \<Rightarrow>
          if drop_fault then (Inl ToolEffectError, interf 0 db1)
          else case drop_run_lease now eid recovery_owner (interf 0 db1) of
                 (Inl e, db2) \<Rightarrow> (Inl e, db2)
               | (Inr _, db2) \<Rightarrow> (Inr v, db2))"

definition release_recovery_claim ::
  "time \<Rightarrow> string \<Rightarrow> string \<Rightarrow> int \<Rightarrow> 'z tool_db_scheme \<Rightarrow> (tool_error + unit) \<times> 'z tool_db_scheme" where
  "release_recovery_claim now eid recovery_owner retry_seconds db =
     (case lease_row eid db of
        None \<Rightarrow> (Inl Tool_NoResultFound, db)
      | Some lease \<Rightarrow>
          if tl_run_owner lease \<noteq> recovery_owner \<or> tl_claim_owner lease \<noteq> Some recovery_owner
          then (Inl (ToolEffectLeaseLost eid), db)
          else case find_run (tl_run_id lease) db of
                 None \<Rightarrow> (Inl Tool_NoResultFound, db)
               | Some run \<Rightarrow>
                   if run_lease_owner run \<noteq> Some recovery_owner then (Inl (ToolEffectLeaseLost eid), db)
                   else let retry_at = Some (lease_until now retry_seconds)
                        in (Inr (),
                            put_run (run\<lparr>run_lease_expires_at := retry_at, run_updated_at := now\<rparr>)
                              (put_lease (lease\<lparr>tl_claim_owner := None, tl_expires_at := retry_at,
                                                tl_updated_at := now\<rparr>) db)))"

section \<open>The rest of the backend does not touch the ledger\<close>

lemma more_put_run [simp]: "chat_db.more (put_run row db) = chat_db.more db"
  and more_update_runs [simp]: "chat_db.more (update_runs P f db) = chat_db.more db"
  and more_add_operation [simp]: "chat_db.more (add_operation x db) = chat_db.more db"
  by (simp_all add: put_run_def update_runs_def add_operation_def)

lemma more_append_locked [simp]: "chat_db.more (snd (append_locked w ty ph sf pl v row db)) = chat_db.more db"
  by (simp add: append_locked_def Let_def split_beta)

lemma more_insert_run: "insert_run row db = Some d \<Longrightarrow> chat_db.more d = chat_db.more db"
  by (auto simp: insert_run_def split: if_splits)

lemma more_append_by_id: "append_by_id rid w ty ph sf pl db = Some d \<Longrightarrow> chat_db.more d = chat_db.more db"
  by (auto simp: append_by_id_def)

lemma more_append_committed: "append_committed rid w c db = Some d \<Longrightarrow> chat_db.more d = chat_db.more db"
  by (auto simp: append_committed_def dest: more_append_by_id split: option.splits)

lemma more_complete: "chat_db.more (snd (complete now rid owner st usage reason off None com db)) = chat_db.more db"
proof (cases "locked_owned_run now rid owner db")
  case (Inr row)
  have "chat_db.more d = chat_db.more db"
    if "Option.bind (append_committed rid owner com (put_run row' db)) (append_by_id rid owner ty ph sf pl) = Some d"
    for d ty ph sf pl row'
    using that by (auto simp: Option.bind_eq_Some_conv dest!: more_append_by_id more_append_committed)
  then show ?thesis
    unfolding complete_def Inr sum.case run_effect_def option.case
    by (simp del: status_sets split: option.split)
qed (simp add: complete_def)

lemma more_needs_attention: "chat_db.more (snd (needs_attention now rid reason owner db)) = chat_db.more db"
  by (simp add: needs_attention_def split: option.split)

lemma more_journal:
  assumes "plain_event e"
  shows "chat_db.more (journal_step e db) = chat_db.more db"
proof (cases e)
  case (Ev_accept now rid mid cid uid rp rs)
  then show ?thesis
    by (auto simp: accept_def accept_in_session_def Let_def dest: more_insert_run split: sum.split option.splits)
next
  case (Ev_append now rid owner ty ph sf pl eff)
  with assms show ?thesis
    by (simp add: append_operation_def run_effect_def Let_def split_beta split: sum.split option.split)
next
  case (Ev_close now rid owner kind lost ex)
  then show ?thesis
    by (simp add: durable_run_close_def Let_def more_complete more_needs_attention
        split: binding_exit.split option.split)
qed (use assms in \<open>simp_all add: claim_def renew_def save_snapshot_def allocate_event_offset_def cancel_def
       release_def recover_def bind_session_def Let_def split_beta more_complete more_needs_attention
       split: sum.split option.split\<close>)

lemma ledger_of_more:
  "chat_db.more db' = chat_db.more db \<Longrightarrow> ledger db' = ledger db \<and> leases db' = leases db"
  for db db' :: "'z tool_db_scheme"
  by (cases db; cases db') simp

section \<open>Well-formed ledgers\<close>

definition is_terminal_fact :: "effect_fact \<Rightarrow> bool" where
  "is_terminal_fact f \<longleftrightarrow> f \<in> {Fact_result, Fact_failure, Fact_unknown_outcome}"

definition some_values :: "('a \<Rightarrow> 'b option) \<Rightarrow> 'a list \<Rightarrow> 'b list" where
  "some_values f xs = List.map_filter f xs"

definition belongs :: "tool_effect \<Rightarrow> tool_effect \<Rightarrow> bool" where
  "belongs e i \<longleftrightarrow> is_intent (te_effect_id e) i \<and> te_run_id i = te_run_id e \<and> te_result_id i = te_result_id e
     \<and> te_recovery_policy i = te_recovery_policy e"

text \<open>
  \<open>ledger_ok\<close>: a key names one intent, an effect has one intent and at most one outcome, exactly the
  outcomes carry the effect's identifier as terminal, and every fact belongs to an intent of the same
  run. \<open>leases_ok\<close>: every intent has exactly one claim row.
\<close>

definition ledger_ok :: "tool_effect list \<Rightarrow> bool" where
  "ledger_ok L \<longleftrightarrow>
     distinct (some_values te_idempotency_key L) \<and> distinct (some_values te_terminal_effect_id L)
     \<and> distinct (map te_effect_id (filter (\<lambda>e. te_event_type e = Fact_intent) L))
     \<and> (\<forall>e\<in>set L. (te_idempotency_key e \<noteq> None \<longleftrightarrow> te_event_type e = Fact_intent)
          \<and> te_terminal_effect_id e = (if is_terminal_fact (te_event_type e) then Some (te_effect_id e) else None)
          \<and> (\<exists>i\<in>set L. belongs e i))"

definition leases_ok :: "tool_effect list \<Rightarrow> tool_lease list \<Rightarrow> bool" where
  "leases_ok L ls \<longleftrightarrow> distinct (map tl_effect_id ls)
     \<and> te_effect_id ` set L \<subseteq> tl_effect_id ` set ls
     \<and> (\<forall>l\<in>set ls. \<exists>i\<in>set L. is_intent (tl_effect_id l) i \<and> te_run_id i = tl_run_id l)"

definition tool_ok :: "'z tool_db_scheme \<Rightarrow> bool" where
  "tool_ok db \<longleftrightarrow> chat_db_ok db \<and> ledger_ok (ledger db) \<and> leases_ok (ledger db) (leases db)"

definition tool_le :: "'z tool_db_scheme \<Rightarrow> 'z tool_db_scheme \<Rightarrow> bool" where
  "tool_le db db' \<longleftrightarrow> db_le db db' \<and> prefix (ledger db) (ledger db')"

definition tool_safe :: "'z tool_db_scheme \<Rightarrow> 'z tool_db_scheme \<Rightarrow> bool" where
  "tool_safe db db' \<longleftrightarrow> (tool_ok db \<longrightarrow> tool_ok db' \<and> tool_le db db')"

lemma tool_le_refl [simp]: "tool_le db db"
  by (simp add: tool_le_def)

lemma tool_le_trans: "tool_le a b \<Longrightarrow> tool_le b c \<Longrightarrow> tool_le a c"
  unfolding tool_le_def using db_le_trans prefix_order.trans by blast

lemma tool_safe_refl [simp]: "tool_safe db db"
  by (simp add: tool_safe_def)

lemma tool_safe_trans: "tool_safe a b \<Longrightarrow> tool_safe b c \<Longrightarrow> tool_safe a c"
  by (auto simp: tool_safe_def intro: tool_le_trans)

lemma tool_safeD:
  assumes "tool_safe db db'" and "tool_ok db"
  shows "tool_ok db'" and "tool_le db db'"
  using assms by (auto simp: tool_safe_def)

lemma tool_okD:
  assumes "tool_ok db"
  shows "chat_db_ok db" and "ledger_ok (ledger db)" and "leases_ok (ledger db) (leases db)"
  using assms by (auto simp: tool_ok_def)

lemma tool_safe_frame:
  assumes "safe_step db db'" and "ledger db' = ledger db" and "leases db' = leases db"
  shows "tool_safe db db'"
  using assms by (auto simp: tool_safe_def tool_ok_def tool_le_def safe_step_def)

lemma tool_safe_journal: "plain_event e \<Longrightarrow> tool_safe db (journal_step e db)"
  using ledger_of_more [OF more_journal [of e db]]
  by (intro tool_safe_frame safe_step_journal plain_good) auto

lemma some_values_append [simp]: "some_values f (xs @ ys) = some_values f xs @ some_values f ys"
  and some_values_simps [simp]: "some_values f [] = []"
    "some_values f (x # xs) = (case f x of None \<Rightarrow> some_values f xs | Some v \<Rightarrow> v # some_values f xs)"
  by (simp_all add: some_values_def List.map_filter_def split: option.split)

lemma set_some_values: "set (some_values f xs) = {v. \<exists>x\<in>set xs. f x = Some v}"
  by (induction xs) (auto split: option.splits)

lemma some_values_unique:
  assumes "distinct (some_values f xs)" and "x \<in> set xs" "y \<in> set xs" "f x = Some v" "f y = Some v"
  shows "x = y"
  using assms by (induction xs) (auto simp: set_some_values split: option.splits)

lemma find_SomeD: "find P xs = Some x \<Longrightarrow> x \<in> set xs \<and> P x"
  by (induction xs) (auto split: if_splits)

lemma find_unique:
  assumes "x \<in> set xs" and "P x" and "\<And>y. y \<in> set xs \<Longrightarrow> P y \<Longrightarrow> y = x"
  shows "find P xs = Some x"
proof -
  obtain z where z: "find P xs = Some z" using assms(1,2) by (cases "find P xs") (auto simp: find_None_iff)
  with find_SomeD [OF z] assms(3) show ?thesis by blast
qed

lemma intent_row_SomeD: "intent_row eid db = Some i \<Longrightarrow> i \<in> set (ledger db) \<and> is_intent eid i"
  unfolding intent_row_def by (rule find_SomeD)

lemma keyed_row_SomeD: "keyed_row key db = Some i \<Longrightarrow> i \<in> set (ledger db) \<and> te_idempotency_key i = Some key"
  unfolding keyed_row_def by (rule find_by_SomeD)

lemma terminal_row_SomeD:
  "terminal_row eid db = Some t \<Longrightarrow> t \<in> set (ledger db) \<and> te_terminal_effect_id t = Some eid"
  unfolding terminal_row_def by (rule find_by_SomeD)

lemma terminal_row_None: "terminal_row eid db = None \<longleftrightarrow> eid \<notin> set (some_values te_terminal_effect_id (ledger db))"
  by (auto simp: terminal_row_def find_by_None_iff set_some_values) (metis image_eqI)

lemma keyed_row_None: "keyed_row key db = None \<longleftrightarrow> key \<notin> set (some_values te_idempotency_key (ledger db))"
  by (auto simp: keyed_row_def find_by_None_iff set_some_values) (metis image_eqI)

lemma lease_row_SomeD: "lease_row eid db = Some l \<Longrightarrow> l \<in> set (leases db) \<and> tl_effect_id l = eid"
  unfolding lease_row_def by (rule find_by_SomeD)

lemma intent_unique:
  assumes "ledger_ok L" and "i \<in> set L" "is_intent eid i" "j \<in> set L" "is_intent eid j"
  shows "i = j"
proof -
  have "inj_on te_effect_id (set (filter (\<lambda>e. te_event_type e = Fact_intent) L))"
    using assms(1) by (simp add: ledger_ok_def distinct_map)
  with assms(2-5) show ?thesis by (auto simp: is_intent_def inj_on_def)
qed

lemma intent_row_unique:
  assumes "ledger_ok (ledger db)" and "i \<in> set (ledger db)" and "is_intent eid i"
  shows "intent_row eid db = Some i"
  unfolding intent_row_def using assms intent_unique [OF assms(1)] by (intro find_unique) auto

lemma terminal_row_unique:
  assumes "ledger_ok (ledger db)" and "t \<in> set (ledger db)" and "te_terminal_effect_id t = Some eid"
  shows "terminal_row eid db = Some t"
proof -
  have "distinct (some_values te_terminal_effect_id (ledger db))" using assms(1) by (simp add: ledger_ok_def)
  from some_values_unique [OF this] assms(2,3) show ?thesis
    unfolding terminal_row_def find_by_def by (intro find_unique) auto
qed

lemma keyed_row_intent:
  assumes "ledger_ok (ledger db)" and "keyed_row key db = Some i"
  shows "is_intent (te_effect_id i) i"
  using assms keyed_row_SomeD [OF assms(2)] by (auto simp: ledger_ok_def is_intent_def)

lemma ledger_ok_fact:
  assumes "ledger_ok L" and "i \<in> set L" and "belongs e i" and "te_event_type e \<noteq> Fact_intent"
    and "te_idempotency_key e = None"
    and "te_terminal_effect_id e = (if is_terminal_fact (te_event_type e) then Some (te_effect_id e) else None)"
    and "is_terminal_fact (te_event_type e) \<Longrightarrow> te_effect_id e \<notin> set (some_values te_terminal_effect_id L)"
  shows "ledger_ok (L @ [e])"
  using assms unfolding ledger_ok_def by (auto split: option.split) 

lemma ledger_ok_intent:
  assumes "ledger_ok L" and "te_event_type e = Fact_intent" and "te_idempotency_key e = Some key"
    and "key \<notin> set (some_values te_idempotency_key L)" and "te_effect_id e \<notin> te_effect_id ` set L"
    and "te_terminal_effect_id e = None"
  shows "ledger_ok (L @ [e])"
  using assms unfolding ledger_ok_def
  by (auto simp: belongs_def is_intent_def is_terminal_fact_def)

lemma leases_ok_ledger: "leases_ok L ls \<Longrightarrow> te_effect_id ` set L' \<subseteq> te_effect_id ` set L \<Longrightarrow> set L \<subseteq> set L' \<Longrightarrow> leases_ok L' ls"
  unfolding leases_ok_def by blast

lemma leases_ok_update:
  assumes "leases_ok L ls"
    and "\<And>l. l \<in> set ls \<Longrightarrow> P l \<Longrightarrow> tl_effect_id (f l) = tl_effect_id l \<and> tl_run_id (f l) = tl_run_id l"
  shows "leases_ok L (update_where P f ls)"
proof -
  have ids: "map tl_effect_id (update_where P f ls) = map tl_effect_id ls"
    using assms(2) by (intro map_update_where) auto
  then have "tl_effect_id ` set (update_where P f ls) = tl_effect_id ` set ls" by (metis set_map)
  moreover have "\<exists>i\<in>set L. is_intent (tl_effect_id l) i \<and> te_run_id i = tl_run_id l"
    if "l \<in> set (update_where P f ls)" for l
    using that assms by (force simp: leases_ok_def set_update_where)
  ultimately show ?thesis using assms(1) ids by (simp add: leases_ok_def)
qed

lemma tool_safe_leases:
  assumes "\<And>l. l \<in> set (leases db) \<Longrightarrow> P l \<Longrightarrow> tl_effect_id (f l) = tl_effect_id l \<and> tl_run_id (f l) = tl_run_id l"
  shows "tool_safe db (db\<lparr>leases := update_where P f (leases db)\<rparr>)"
  using leases_ok_update [of "ledger db" "leases db" P f] assms
  by (auto simp: tool_safe_def tool_ok_def tool_le_def chat_db_ok_def db_le_def find_run_def)

lemma tool_safe_put_lease:
  assumes "lease_row eid db = Some l" and "tl_effect_id l' = tl_effect_id l" and "tl_run_id l' = tl_run_id l"
  shows "tool_safe db (put_lease l' db)"
proof (cases "tool_ok db")
  case True
  have "distinct (map tl_effect_id (leases db))" using tool_okD(3) [OF True] by (simp add: leases_ok_def)
  then have "x = l" if "x \<in> set (leases db)" "tl_effect_id x = tl_effect_id l'" for x
    using that lease_row_SomeD [OF assms(1)] assms(2) by (auto simp: distinct_map inj_on_def)
  then show ?thesis
    unfolding put_lease_def using assms(2,3) by (intro tool_safe_leases) auto
qed (simp add: tool_safe_def)

text \<open>One appended fact, with its operation in the run's journal.\<close>

lemma ledger_append_event:
  "\<exists>e. ledger (append_event now w ev ty ph sf res err fin run i db) = ledger db @ [e]
     \<and> te_effect_id e = te_effect_id i \<and> te_result_id e = te_result_id i \<and> te_run_id e = te_run_id i
     \<and> te_recovery_policy e = te_recovery_policy i \<and> te_event_type e = ev \<and> te_idempotency_key e = None
     \<and> te_terminal_effect_id e = (if fin then Some (te_effect_id i) else None) \<and> te_result_payload e = res"
  and leases_append_event: "leases (append_event now w ev ty ph sf res err fin run i db) = leases db"
  using ledger_of_more [OF more_append_locked [of w ty ph sf _ None run db]]
  by (auto simp: append_event_def Let_def split_beta add_fact_def)

lemma find_run_append_event:
  "find_run rid (append_event now w ev ty ph sf res err fin run i db) =
     find_run rid (snd (append_locked w ty ph sf
       (Some [(''effect_id'', JStr (te_effect_id i)), (''result_id'', JStr (te_result_id i))]) None run db))"
  by (simp add: append_event_def Let_def split_beta add_fact_def find_run_def)

lemma safe_step_append_event:
  assumes "find_run rid db = Some r" and "run_le r run" and "run_operation_seq run = run_operation_seq r"
  shows "safe_step db (append_event now w ev ty ph sf res err fin run i db)"
proof -
  have "safe_step d (add_fact e d)" for e and d :: "'a tool_db_scheme"
    by (rule safe_step_frame) (simp_all add: add_fact_def)
  then show ?thesis
    unfolding append_event_def Let_def split_beta
    using safe_step_append_locked [OF assms] safe_step_trans by blast
qed

lemma tool_safe_append_event:
  assumes run: "find_run rid db = Some r" "run_le r run" "run_operation_seq run = run_operation_seq r"
    and i: "i \<in> set (ledger db)" "is_intent (te_effect_id i) i"
    and ev: "ev \<noteq> Fact_intent" "fin \<longleftrightarrow> is_terminal_fact ev" "fin \<Longrightarrow> terminal_row (te_effect_id i) db = None"
  shows "tool_safe db (append_event now w ev ty ph sf res err fin run i db)"
proof -
  define db' where "db' = append_event now w ev ty ph sf res err fin run i db"
  obtain e where e: "ledger db' = ledger db @ [e]" "te_effect_id e = te_effect_id i" "te_event_type e = ev"
    "te_idempotency_key e = None" "te_terminal_effect_id e = (if fin then Some (te_effect_id i) else None)"
    "belongs e i"
    using ledger_append_event [of now w ev ty ph sf res err fin run i db] i
    by (auto simp: db'_def belongs_def)
  have "ledger_ok (ledger db')" if "tool_ok db"
    unfolding e(1) using tool_okD(2) [OF that] i ev e by (intro ledger_ok_fact) (auto simp: terminal_row_None)
  moreover have "leases_ok (ledger db') (leases db')" if "tool_ok db"
    using leases_ok_ledger [OF tool_okD(3) [OF that], of "ledger db'"] e i
    by (auto simp: db'_def leases_append_event)
  moreover have "safe_step db db'" unfolding db'_def by (rule safe_step_append_event [OF run])
  ultimately show ?thesis
    using e(1) by (auto simp: tool_safe_def tool_ok_def tool_le_def safe_step_def db'_def)
qed

section \<open>Every transaction of the ledger is safe\<close>

lemma lease_row_append_event [simp]:
  "lease_row eid (append_event now w ev ty ph sf res err fin run i db) = lease_row eid db"
  by (simp add: lease_row_def leases_append_event)

lemma frame_put_lease [simp]:
  "ledger (put_lease l db) = ledger db" "runs (put_lease l db) = runs db" "find_run rid (put_lease l db) = find_run rid db"
  "operations (put_lease l db) = operations db"
  by (simp_all add: put_lease_def find_run_def)

lemma lease_row_put_lease:
  "lease_row eid db = Some l \<Longrightarrow> tl_effect_id l' = eid \<Longrightarrow> lease_row eid (put_lease l' db) = Some l'"
  unfolding lease_row_def put_lease_def
  by (simp add: find_by_update_where) (auto dest: find_by_SomeD)

lemma terminal_row_frame: "ledger db' = ledger db \<Longrightarrow> terminal_row eid db' = terminal_row eid db"
  by (simp add: terminal_row_def)

lemma clear_claim_simps [simp]:
  "tl_effect_id (clear_claim now l) = tl_effect_id l" "tl_run_id (clear_claim now l) = tl_run_id l"
  by (simp_all add: clear_claim_def)

lemma run_le_unknown_run: "run_status r \<in> set LIVE_STATUSES \<Longrightarrow> run_le r (unknown_run now reason r)"
  by (auto simp: unknown_run_def run_le_def slot_safe_def)

lemma run_le_touch [simp]: "run_le r (r\<lparr>run_updated_at := now\<rparr>)"
  by (simp add: run_le_def slot_safe_def)

lemma tool_safe_mark_unknown_locked:
  assumes "mark_unknown_locked now w c reason run i l db = Inr db'"
    and "find_run rid db = Some run" and "run_status run \<in> set LIVE_STATUSES"
    and "i \<in> set (ledger db)" "is_intent (te_effect_id i) i" and "lease_row (te_effect_id i) db = Some l"
  shows "tool_safe db db'"
proof (cases "terminal_row (te_effect_id i) db = None")
  case True
  define db1 where "db1 = append_event now w Fact_unknown_outcome ''tool_outcome_unknown'' ''needs_attention''
      ''manual_review'' JNull (Some reason) True (unknown_run now reason run) i db"
  have "tool_safe db db1"
    unfolding db1_def using assms True
    by (intro tool_safe_append_event [OF assms(2) run_le_unknown_run])
       (auto simp: unknown_run_def is_terminal_fact_def)
  moreover have "lease_row (te_effect_id i) db1 = Some l" using assms(6) by (simp add: db1_def)
  then have "tool_safe db1 (put_lease (clear_claim now l) db1)" by (rule tool_safe_put_lease) simp_all
  ultimately have "tool_safe db (put_lease (clear_claim now l) db1)" by (rule tool_safe_trans)
  with assms(1) True show ?thesis by (auto simp: mark_unknown_locked_def db1_def split: if_splits)
qed (use assms(1) in \<open>auto simp: mark_unknown_locked_def\<close>)

lemma tool_safe_takeover:
  assumes "find_run rid db = Some run" and "run_status run \<in> set LIVE_STATUSES"
    and "i \<in> set (ledger db)" "is_intent (te_effect_id i) i" and "lease_row (te_effect_id i) db = Some seen"
  shows "tool_safe db (snd (takeover now w c lease run i seen db))"
proof -
  define l where "l = seen\<lparr>tl_run_owner := w, tl_claim_owner := Some c,
      tl_expires_at := Some (lease_until now lease), tl_updated_at := now\<rparr>"
  define db0 where "db0 = put_lease l db"
  define db1 where "db1 = append_event now w Fact_recovery_claim ''tool_effect_recovery_claimed''
     (''tool_intent_'' @ policy_name (te_recovery_policy i)) (policy_name (te_recovery_policy i)) JNull None False
     (run\<lparr>run_updated_at := now\<rparr>) i db0"
  have eid: "tl_effect_id l = te_effect_id i" using lease_row_SomeD [OF assms(5)] by (simp add: l_def)
  have s0: "tool_safe db db0"
    unfolding db0_def using assms(5) by (rule tool_safe_put_lease) (simp_all add: l_def)
  have s1: "tool_safe db0 db1"
    unfolding db1_def using assms
    by (intro tool_safe_append_event [of rid db0 run]) (auto simp: db0_def is_terminal_fact_def)
  note s = tool_safe_trans [OF s0 s1]
  have lr: "lease_row (te_effect_id i) db1 = Some l"
    using lease_row_put_lease [OF assms(5) eid] by (simp add: db1_def db0_def)
  have i1: "i \<in> set (ledger db1)"
    using ledger_append_event [of now w Fact_recovery_claim "''tool_effect_recovery_claimed''"] assms(3)
    unfolding db1_def db0_def by (metis Un_iff frame_put_lease(1) set_append)
  have id: "run_id run = rid" using assms(1) find_run_SomeD by blast
  have r1: "find_run rid db1 = Some r1 \<Longrightarrow> run_status r1 \<in> set LIVE_STATUSES" for r1
    using assms(1,2) id find_run_append_locked [of "run\<lparr>run_updated_at := now\<rparr>" db0 run rid]
    by (auto simp: db1_def find_run_append_event db0_def)
  have u: "tool_safe db d" if "find_run (run_id run) db1 = Some r1"
    "mark_unknown_locked now w c reason r1 i l db1 = Inr d" for d r1 reason
    using tool_safe_trans [OF s tool_safe_mark_unknown_locked [OF that(2)]] that(1) id r1 i1 assms(4) lr by auto
  show ?thesis
    unfolding takeover_def Let_def l_def [symmetric] db0_def [symmetric] db1_def [symmetric]
    using s u by (auto split: option.split sum.split)
qed

lemma tool_safe_existing_owned:
  assumes "i \<in> set (ledger db)" "is_intent (te_effect_id i) i"
  shows "tool_safe db (snd (existing_owned now rid w c lease i db))"
proof -
  have "tool_safe db (snd (takeover now w c lease run i l db))"
    if "locked_owned_run now rid w db = Inr run" "lease_row (te_effect_id i) db = Some l" for run l
    using tool_safe_takeover [of rid db run i l] locked_owned_run_InrD [OF that(1)] holds_leaseD(1) that(2) assms
    by auto
  then show ?thesis
    by (auto simp: existing_owned_def Let_def split: option.split sum.split)
qed

lemma tool_safe_existing_decision:
  "tool_safe db (snd (existing_decision now key rid w c tool hash lease db))"
proof (cases "tool_ok db \<and> keyed_row key db \<noteq> None")
  case True
  then obtain i where i: "keyed_row key db = Some i" by auto
  have "tool_safe db (snd (existing_owned now rid w c lease i db))"
    using keyed_row_SomeD [OF i] keyed_row_intent [OF tool_okD(2) i] True
    by (intro tool_safe_existing_owned) auto
  with i show ?thesis by (auto simp: existing_decision_def Let_def split: option.split)
qed (auto simp: tool_safe_def existing_decision_def)

lemma tool_safe_insert_intent:
  assumes "find_run rid db = Some run" and "keyed_row key db = None" and "lease_row eid db = None"
  shows "tool_safe db (snd (insert_intent now eid resid rid w c tool call hash red key pol lease run db))"
proof -
  define pl where "pl = Some [(''effect_id'', JStr eid), (''result_id'', JStr resid), (''tool_name'', JStr tool),
                     (''tool_call_id'', JStr call), (''args_hash'', JStr hash)]"
  define a where "a = append_locked w ''tool_intent_committed'' (''tool_intent_'' @ policy_name pol)
     (policy_name pol) pl None (run\<lparr>run_updated_at := now\<rparr>) db"
  define row where "row = intent_fact now eid resid rid (rcpt_operation_seq (fst a)) tool call hash red key pol"
  define l where "l = \<lparr>tl_effect_id = eid, tl_run_id = rid, tl_run_owner = w, tl_claim_owner = Some c,
              tl_expires_at = Some (lease_until now lease), tl_updated_at = now\<rparr>"
  define db' where "db' = (snd a)\<lparr>ledger := ledger (snd a) @ [row], leases := leases (snd a) @ [l]\<rparr>"
  have eq: "snd (insert_intent now eid resid rid w c tool call hash red key pol lease run db) = db'"
    by (simp add: insert_intent_def Let_def split_beta a_def pl_def row_def l_def db'_def add_fact_def)
  have fr: "ledger (snd a) = ledger db" "leases (snd a) = leases db"
    using ledger_of_more [OF more_append_locked] unfolding a_def by blast+
  have step: "safe_step db (snd a)" unfolding a_def by (rule safe_step_append_locked [OF assms(1)]) simp_all
  have step': "safe_step db db'"
    using step safe_step_frame [of db' "snd a"] safe_step_trans by (fastforce simp: db'_def)
  have "ledger_ok (ledger db') \<and> leases_ok (ledger db') (leases db')" if ok: "tool_ok db"
  proof
    have new: "eid \<notin> te_effect_id ` set (ledger db)" "eid \<notin> tl_effect_id ` set (leases db)"
      using assms(3) tool_okD(3) [OF ok] by (auto simp: leases_ok_def lease_row_def find_by_None_iff)
    show "ledger_ok (ledger db')"
      using ledger_ok_intent [OF tool_okD(2) [OF ok], of row key] new assms(2)
      by (simp add: db'_def fr row_def intent_fact_def keyed_row_None)
    show "leases_ok (ledger db') (leases db')"
      using tool_okD(3) [OF ok] new
      by (auto simp: db'_def fr leases_ok_def l_def row_def intent_fact_def is_intent_def)
  qed
  with step' show ?thesis
    unfolding eq by (auto simp: tool_safe_def tool_ok_def tool_le_def safe_step_def db'_def fr)
qed

lemma tool_safe_intent_transaction:
  assumes "intent_transaction fault now eid resid rid w c call tool hash red key pol lease db = Committed row db'"
  shows "tool_safe db db'"
proof -
  obtain run where run: "locked_owned_run now rid w db = Inr run" "keyed_row key db = None" "lease_row eid db = None"
    "insert_intent now eid resid rid w c tool call hash red key pol lease run db = (row, db')"
    using assms by (auto simp: intent_transaction_def Let_def split: sum.splits if_splits prod.splits)
  show ?thesis
    using tool_safe_insert_intent [of rid db run key eid now resid w c tool call hash red pol lease]
      locked_owned_run_InrD [OF run(1)] run by simp
qed

lemma snd_as_commit_error [simp]: "snd (as_commit_error r) = snd r"
  by (cases r) (simp add: as_commit_error_def split: sum.split tool_error.split)

definition attempt_db :: "('r \<times> 'd) + 'd \<Rightarrow> 'd" where
  "attempt_db out = (case out of Inl r \<Rightarrow> snd r | Inr d \<Rightarrow> d)"

lemma attempt_db_simps [simp]: "attempt_db (Inl r) = snd r" "attempt_db (Inr d) = d"
  by (simp_all add: attempt_db_def)

lemma tool_safe_begin_attempt:
  assumes "\<And>i d. tool_safe d (interf i d)"
  shows "tool_safe db (attempt_db
           (begin_attempt interf fault sha now eid resid rid w c call tool hash red pol ek lease db))"
proof -
  define d0 where "d0 = interf 0 db"
  define d1 where "d1 = interf 1 d0"
  define d2 where "d2 = interf 2 d1"
  define d3 where "d3 = interf 3 d2"
  have s0: "tool_safe db d0" unfolding d0_def by (rule assms(1))
  have s1: "tool_safe db d1" unfolding d1_def by (rule tool_safe_trans [OF s0 assms(1)])
  have s2: "tool_safe db d2" unfolding d2_def by (rule tool_safe_trans [OF s1 assms(1)])
  have s3: "tool_safe db d3" unfolding d3_def by (rule tool_safe_trans [OF s2 assms(1)])
  have s4: "tool_safe db (interf 4 d3)" by (rule tool_safe_trans [OF s3 assms(1)])
  note ex = tool_safe_trans [OF _ tool_safe_existing_decision]
  have ins: "tool_safe db d"
    if "intent_transaction fault now eid resid rid w c call tool hash red key pol lease d2 = Committed row d" for key row d
    by (rule tool_safe_trans [OF s2 tool_safe_intent_transaction [OF that]])
  show ?thesis
    unfolding begin_attempt_def Let_def d0_def [symmetric] d1_def [symmetric]
      d2_def [symmetric] d3_def [symmetric]
    using s0 s1 s2 s3 s4 ex [OF s2] ex [OF s3] ex [OF s4] ins
    by (simp split: option.split sum.split intent_commit.split)
qed

lemma tool_safe_begin_intent_from:
  assumes "\<And>n i d. tool_safe d (interf n i d)"
  shows "tool_safe db (snd (begin_intent_from n interf fault sha now eid resid rid w c call tool hash red pol ek lease db))"
proof (induction n arbitrary: db)
  case 0
  show ?case
    using tool_safe_begin_attempt [of "interf 0" db "fault 0" sha now "eid 0" "resid 0" rid w c call tool hash red pol ek lease,
        OF assms]
    by (auto split: sum.splits)
next
  case (Suc n)
  show ?case
    using tool_safe_begin_attempt [of "interf (Suc n)" db "fault (Suc n)" sha now "eid (Suc n)" "resid (Suc n)"
        rid w c call tool hash red pol ek lease, OF assms] tool_safe_trans [OF _ Suc.IH]
    by (auto split: sum.splits)
qed

lemma tool_safe_begin_intent:
  "(\<And>n i d. tool_safe d (interf n i d)) \<Longrightarrow>
   tool_safe db (snd (begin_intent interf fault sha now eid resid rid w c call tool hash red pol ek lease db))"
  unfolding begin_intent_def by (rule tool_safe_begin_intent_from)

lemma tool_safe_acquire: "tool_safe db (snd (acquire_invocation_claim now eid w c lease db))"
  by (auto simp: acquire_invocation_claim_def intro!: tool_safe_leases)

lemma tool_safe_renew: "tool_safe db (snd (renew now rid w lease db))"
  using ledger_of_more [of "snd (renew now rid w lease db)" db]
  by (intro tool_safe_frame safe_step_renew) (auto simp: renew_def)

lemma tool_safe_renew_claim:
  assumes "\<And>d. tool_safe d (interf d)"
  shows "tool_safe db (snd (renew_invocation_claim interf now eid w c lease db))"
proof (cases "intent_row eid db")
  case (Some i)
  obtain b d where r: "renew now (te_run_id i) w lease db = (b, d)" by (metis prod.collapse)
  have 1: "tool_safe db d" using tool_safe_renew [of db now "te_run_id i" w lease] r by simp
  have 2: "tool_safe db (snd (acquire_invocation_claim now eid w c lease (interf d)))"
    by (rule tool_safe_trans [OF tool_safe_trans [OF 1 assms] tool_safe_acquire])
  show ?thesis
    using 1 2 by (cases b) (simp_all add: renew_invocation_claim_def Some r split_beta split: sum.split)
qed (simp add: renew_invocation_claim_def)

lemma tool_safe_abandon: "tool_safe db (abandon_invocation_claim now eid w c db)"
  unfolding abandon_invocation_claim_def by (intro tool_safe_leases) auto

text \<open>A terminal fact followed by the release of the claim.\<close>

lemma tool_safe_terminal_fact:
  assumes "find_run rid db = Some r" "run_le r run" "run_operation_seq run = run_operation_seq r"
    and "i \<in> set (ledger db)" "is_intent (te_effect_id i) i" and "lease_row (te_effect_id i) db = Some l"
    and "is_terminal_fact ev" and "terminal_row (te_effect_id i) db = None"
  shows "tool_safe db (put_lease (clear_claim now l) (append_event now' w ev ty ph sf res err True run i db))"
proof -
  have "tool_safe db (append_event now' w ev ty ph sf res err True run i db)"
    using assms by (intro tool_safe_append_event) (auto simp: is_terminal_fact_def)
  moreover have "tool_safe d (put_lease (clear_claim now l) d)" if "lease_row (te_effect_id i) d = Some l"
    for d :: "'a tool_db_scheme"
    using that by (rule tool_safe_put_lease) simp_all
  ultimately show ?thesis using assms(6) tool_safe_trans by (metis lease_row_append_event)
qed

lemma tool_safe_try_commit: "tool_safe db (snd (try_commit_result str now eid w c res failed recon db))"
proof (cases "intent_row eid db")
  case (Some i)
  note i = intent_row_SomeD [OF Some]
  have "tool_safe db (snd (commit_result_locked str now w res failed recon i l db))"
    if "lease_row eid db = Some l" "terminal_row eid db = None" for l
  proof (cases "locked_owned_run now (te_run_id i) w db")
    case (Inr run)
    then show ?thesis
      using locked_owned_run_InrD [OF Inr] i that
      by (auto simp: commit_result_locked_def is_intent_def is_terminal_fact_def split: option.split
          intro!: tool_safe_terminal_fact)
  qed (auto simp: commit_result_locked_def split: option.split)
  with Some show ?thesis by (auto simp: try_commit_result_def split: option.split)
qed (simp add: try_commit_result_def)

lemma tool_safe_commit_attempt:
  assumes "\<And>d. tool_safe d (interf d)"
  shows "tool_safe db (attempt_db (commit_attempt interf fault str now eid w c res failed recon db))"
  using tool_safe_try_commit [of db str now eid w c res failed recon] assms
  by (auto simp: commit_attempt_def Let_def split: option.split)

lemma tool_safe_commit_result:
  assumes "\<And>n d. tool_safe d (interf n d)"
  shows "tool_safe db (snd (commit_result interf fault str now eid w c res failed recon db))"
proof -
  have "tool_safe db (snd (commit_result_from n interf fault str now eid w c res failed recon db))" for n
  proof (induction n arbitrary: db)
    case 0
    show ?case
      using tool_safe_commit_attempt [of "interf 0" db "fault 0" str now eid w c res failed recon, OF assms]
      by (auto split: sum.splits)
  next
    case (Suc n)
    show ?case
      using tool_safe_commit_attempt [of "interf (Suc n)" db "fault (Suc n)" str now eid w c res failed recon, OF assms]
        tool_safe_trans [OF _ Suc.IH]
      by (auto split: sum.splits)
  qed
  then show ?thesis by (simp add: commit_result_def)
qed

lemma tool_safe_mark_unknown: "tool_safe db (snd (mark_unknown now eid w c reason db))"
proof (cases "lease_row eid db"; cases "intent_row eid db")
  fix l i
  assume l: "lease_row eid db = Some l" and i: "intent_row eid db = Some i"
  have "tool_safe db d" if "locked_owned_run now (te_run_id i) w db = Inr run"
    "mark_unknown_locked now w c reason run i l db = Inr d" for run d
    using tool_safe_mark_unknown_locked [OF that(2)] locked_owned_run_InrD [OF that(1)] holds_leaseD(1)
      intent_row_SomeD [OF i] l by (auto simp: is_intent_def)
  then show ?thesis by (auto simp: mark_unknown_def l i split: sum.split)
qed (simp_all add: mark_unknown_def)

lemma tool_safe_settle: "tool_safe db (snd (settle_terminal_run_intent now eid db))"
proof (cases "intent_row eid db")
  case (Some i)
  note i = intent_row_SomeD [OF Some]
  then show ?thesis
    by (auto simp: settle_terminal_run_intent_def Some is_intent_def is_terminal_fact_def
        split: option.split intro!: tool_safe_terminal_fact)
qed (simp add: settle_terminal_run_intent_def)

lemma tool_safe_claim_recovery: "tool_safe db (snd (claim_recovery_intent now eid ro lease db))"
proof (cases "intent_row eid db")
  case (Some i)
  note i = intent_row_SomeD [OF Some]
  define db1 where "db1 = update_runs (recovery_run now (te_run_id i) ro)
      (\<lambda>r. r\<lparr>run_status := Run_running, run_lease_owner := Some ro,
             run_lease_expires_at := Some (lease_until now lease), run_updated_at := now\<rparr>) db"
  define db2 where "db2 = db1\<lparr>leases := update_where (recovery_lease now eid ro)
      (\<lambda>l. l\<lparr>tl_run_owner := ro, tl_claim_owner := Some ro, tl_expires_at := Some (lease_until now lease),
             tl_updated_at := now\<rparr>) (leases db1)\<rparr>"
  have "safe_step db db1"
    unfolding db1_def by (rule safe_step_update_runs) (auto simp: recovery_run_def run_le_def slot_safe_def)
  then have "tool_safe db db1" by (rule tool_safe_frame) (simp_all add: db1_def update_runs_def)
  moreover have "tool_safe db1 db2" unfolding db2_def by (intro tool_safe_leases) auto
  ultimately have s: "tool_safe db db2" by (rule tool_safe_trans)
  have fr: "ledger db2 = ledger db" by (simp add: db2_def db1_def update_runs_def)
  have "tool_safe db2 (append_event now ro Fact_recovery_claim ty ph sf JNull None False run i db2)"
    if "find_run (te_run_id i) db2 = Some run" for run ty ph sf
    using that i by (intro tool_safe_append_event) (auto simp: fr is_intent_def is_terminal_fact_def)
  then show ?thesis
    by (auto simp: claim_recovery_intent_def Some Let_def db1_def [symmetric] db2_def [symmetric]
        intro: tool_safe_trans [OF s] split: option.split)
qed (simp add: claim_recovery_intent_def)

lemma tool_safe_put_run:
  assumes "find_run rid db = Some r" and "run_le r row" and "run_operation_seq row = run_operation_seq r"
  shows "tool_safe db (put_run row db)"
  using safe_step_put_run [OF assms] by (intro tool_safe_frame) (simp_all add: put_run_def)

lemma tool_safe_drop_run_lease: "tool_safe db (snd (drop_run_lease now eid ro db))"
  by (auto simp: drop_run_lease_def run_le_def slot_safe_def split: option.split intro!: tool_safe_put_run)

lemma tool_safe_commit_recovered:
  assumes "\<And>n d. tool_safe d (interf n d)"
  shows "tool_safe db (snd (commit_recovered_result interf fault df str now eid res ro db))"
proof -
  obtain r d where c: "commit_result (\<lambda>n. interf (Suc n)) fault str now eid ro ro res False True db = (r, d)"
    by (metis prod.collapse)
  have 1: "tool_safe db d"
    using tool_safe_commit_result [of "\<lambda>n. interf (Suc n)" db fault str now eid ro ro res False True] assms c by simp
  have 2: "tool_safe db (snd (drop_run_lease now eid ro (interf 0 d)))"
    by (rule tool_safe_trans [OF tool_safe_trans [OF 1 assms] tool_safe_drop_run_lease])
  show ?thesis
    using 1 2 tool_safe_trans [OF 1 assms [of d 0]] by (cases r) (simp_all add: commit_recovered_result_def c split_beta split: sum.split)
qed

lemma tool_safe_release_recovery: "tool_safe db (snd (release_recovery_claim now eid ro retry db))"
proof (cases "lease_row eid db")
  case (Some l)
  define db1 where "db1 = put_lease (l\<lparr>tl_claim_owner := None, tl_expires_at := Some (lease_until now retry),
     tl_updated_at := now\<rparr>) db"
  have 1: "tool_safe db db1" unfolding db1_def using Some by (rule tool_safe_put_lease) simp_all
  have "tool_safe db1 (put_run (run\<lparr>run_lease_expires_at := e, run_updated_at := now\<rparr>) db1)"
    if "find_run rid db = Some run" for rid run e
    using that by (intro tool_safe_put_run [of rid db1 run]) (simp_all add: db1_def run_le_def slot_safe_def)
  then show ?thesis
    by (auto simp: release_recovery_claim_def Some Let_def db1_def [symmetric]
        intro: tool_safe_trans [OF 1] split: option.split)
qed (simp add: release_recovery_claim_def)

section \<open>The ledger as a step system\<close>

text \<open>
  One event per transaction of the ledger and per operation of the run journal, so that a sequence
  of events is any interleaving of the calls of any number of processes.
\<close>

datatype 'd tool_event =
    Tx_intent bool time string string string string string string string string dict string
      recovery_policy_kind int
  | Tx_decide time string string string string string string int
  | Tx_acquire time string string string int
  | Tx_abandon time string string string
  | Tx_commit "json \<Rightarrow> string" time string string string json bool bool
  | Tx_mark_unknown time string string string string
  | Tx_settle time string
  | Tx_claim_recovery time string string int
  | Tx_drop_run_lease time string string
  | Tx_release_recovery time string string int
  | Tx_journal "'d journal_event"

fun tool_step :: "'z tool_db_scheme tool_event \<Rightarrow> 'z tool_db_scheme \<Rightarrow> 'z tool_db_scheme" where
  "tool_step (Tx_intent fault now eid resid rid w c call tool hash red key pol lease) db =
     (case intent_transaction fault now eid resid rid w c call tool hash red key pol lease db of
        Committed row db' \<Rightarrow> db' | _ \<Rightarrow> db)"
| "tool_step (Tx_decide now key rid w c tool hash lease) db =
     snd (existing_decision now key rid w c tool hash lease db)"
| "tool_step (Tx_acquire now eid w c lease) db = snd (acquire_invocation_claim now eid w c lease db)"
| "tool_step (Tx_abandon now eid w c) db = abandon_invocation_claim now eid w c db"
| "tool_step (Tx_commit str now eid w c res failed recon) db =
     snd (try_commit_result str now eid w c res failed recon db)"
| "tool_step (Tx_mark_unknown now eid w c reason) db = snd (mark_unknown now eid w c reason db)"
| "tool_step (Tx_settle now eid) db = snd (settle_terminal_run_intent now eid db)"
| "tool_step (Tx_claim_recovery now eid ro lease) db = snd (claim_recovery_intent now eid ro lease db)"
| "tool_step (Tx_drop_run_lease now eid ro) db = snd (drop_run_lease now eid ro db)"
| "tool_step (Tx_release_recovery now eid ro retry) db = snd (release_recovery_claim now eid ro retry db)"
| "tool_step (Tx_journal e) db = journal_step e db"

fun tool_good :: "'z tool_db_scheme tool_event \<Rightarrow> bool" where
  "tool_good (Tx_journal e) = plain_event e"
| "tool_good _ = True"

lemma tool_safe_step: "tool_good e \<Longrightarrow> tool_safe db (tool_step e db)"
  by (cases e) (simp_all add: tool_safe_existing_decision tool_safe_acquire tool_safe_abandon tool_safe_try_commit
      tool_safe_mark_unknown tool_safe_settle tool_safe_claim_recovery tool_safe_drop_run_lease
      tool_safe_release_recovery tool_safe_journal tool_safe_intent_transaction split: intent_commit.split)

interpretation tools: step_system tool_step tool_good tool_ok
  by unfold_locales (rule tool_safeD(1) [OF tool_safe_step])

lemma tool_le_run: "list_all tool_good es \<Longrightarrow> tool_ok db \<Longrightarrow> tool_le db (run_steps tool_step es db)"
  by (rule tools.chain_run [of tool_le]) (auto intro: tool_safeD(2) tool_safe_step tool_le_trans)

lemma find_prefix: "prefix xs ys \<Longrightarrow> find P xs = Some x \<Longrightarrow> find P ys = Some x"
proof -
  have "find P as = Some x \<Longrightarrow> find P (as @ bs) = Some x" for as bs
    by (induction as) auto
  then show "prefix xs ys \<Longrightarrow> find P xs = Some x \<Longrightarrow> find P ys = Some x" by (auto simp: prefix_def)
qed

lemma terminal_row_mono: "tool_le db db' \<Longrightarrow> terminal_row eid db = Some t \<Longrightarrow> terminal_row eid db' = Some t"
  unfolding tool_le_def terminal_row_def find_by_def by (metis find_prefix)

lemma intent_row_mono: "tool_le db db' \<Longrightarrow> intent_row eid db = Some i \<Longrightarrow> intent_row eid db' = Some i"
  unfolding tool_le_def intent_row_def by (metis find_prefix)

lemma keyed_row_mono: "tool_le db db' \<Longrightarrow> keyed_row key db = Some i \<Longrightarrow> keyed_row key db' = Some i"
  unfolding tool_le_def keyed_row_def find_by_def by (metis find_prefix)

section \<open>Properties\<close>

definition sample_tool_db :: tool_db where
  "sample_tool_db =
     \<lparr>sessions = [sample_session], messages = [], runs = [sample_run], operations = [], ledger = [], leases = []\<rparr>"

lemma sample_tool_ok: "tool_ok sample_tool_db"
  by (simp add: tool_ok_def chat_db_ok_def runs_ok_def journal_ok_def slot_keys_def run_ops_def sample_tool_db_def
      sample_run_def ledger_ok_def leases_ok_def)

definition sample_intent_db :: tool_db where
  "sample_intent_db = tool_step (Tx_intent False 1000000 ''e1'' ''x1'' ''r1'' ''w1'' ''tool:a'' ''call'' ''bash'' ''h''
     [] ''k1'' Never_replay 60) sample_tool_db"

lemma sample_intent_ok: "tool_ok sample_intent_db"
  unfolding sample_intent_db_def by (rule tools.inv_step [OF _ sample_tool_ok]) simp

definition sample_result_db :: tool_db where
  "sample_result_db =
     tool_step (Tx_commit (\<lambda>_. []) 1500000 ''e1'' ''w1'' ''tool:a'' (JInt 7) False False) sample_intent_db"

lemma sample_result_ok: "tool_ok sample_result_db"
  unfolding sample_result_db_def by (rule tools.inv_step [OF _ sample_intent_ok]) simp

lemma existing_decision_settled:
  assumes "keyed_row key db = Some i" and "terminal_row (te_effect_id i) db = Some t"
    and "fst (existing_decision now key rid w c tool hash lease db) = Inr d"
  shows "d = decision_from_terminal (intent_from_row i) t"
  using assms by (auto simp: existing_decision_def Let_def split: option.splits if_splits)

lemma fst_as_commit_error_Inr: "fst (as_commit_error r) = Inr d \<longleftrightarrow> fst r = Inr d"
  by (cases r) (simp add: as_commit_error_def split: sum.split tool_error.split)

lemma begin_intent_settled:
  assumes "tool_ok db" and "\<And>n j d. tool_safe d (interf n j d)"
    and "find_run rid db = Some run"
    and "resolved_idempotency_key sha rid (run_user_id run) tool call ek = Inr key"
    and "keyed_row key db = Some i" and "terminal_row (te_effect_id i) db = Some t"
    and "fst (begin_intent interf fault sha now eid resid rid w c call tool hash red pol ek lease db) = Inr d"
  shows "d = decision_from_terminal (intent_from_row i) t"
proof -
  have attempt: "\<exists>r. begin_attempt f b sha now e x rid w c call tool hash red pol ek lease db = Inl r
      \<and> (fst r = Inr d \<longrightarrow> d = decision_from_terminal (intent_from_row i) t)"
    if f: "\<And>j d. tool_safe d (f j d)" for f b e x
  proof -
    define d0 where "d0 = f 0 db"
    define d1 where "d1 = f 1 d0"
    define d2 where "d2 = f 2 d1"
    have s0: "tool_safe db d0" unfolding d0_def by (rule f)
    have s1: "tool_safe db d1" unfolding d1_def by (rule tool_safe_trans [OF s0 f])
    have s2: "tool_safe db d2" unfolding d2_def by (rule tool_safe_trans [OF s1 f])
    obtain run0 where run0: "find_run rid d0 = Some run0" "run_user_id run0 = run_user_id run"
      using tool_safeD(2) [OF s0 assms(1)] db_leD [of db d0 rid run] assms(3)
      by (auto simp: tool_le_def run_le_def slot_safe_def)
    have k1: "keyed_row key d1 = Some i" by (rule keyed_row_mono [OF tool_safeD(2) [OF s1 assms(1)] assms(5)])
    have k2: "keyed_row key d2 = Some i" by (rule keyed_row_mono [OF tool_safeD(2) [OF s2 assms(1)] assms(5)])
    have t2: "terminal_row (te_effect_id i) d2 = Some t"
      by (rule terminal_row_mono [OF tool_safeD(2) [OF s2 assms(1)] assms(6)])
    have "begin_attempt f b sha now e x rid w c call tool hash red pol ek lease db =
        Inl (as_commit_error (existing_decision now key rid w c tool hash lease d2))"
      unfolding begin_attempt_def Let_def d0_def [symmetric] d1_def [symmetric] d2_def [symmetric]
      using run0 assms(4) k1 by simp
    then show ?thesis
      using existing_decision_settled [OF k2 t2, of now rid w c tool hash lease d]
      by (auto simp: fst_as_commit_error_Inr)
  qed
  have four: "(4::nat) = Suc 3" by simp
  obtain r where r: "begin_attempt (interf (Suc 3)) (fault (Suc 3)) sha now (eid (Suc 3)) (resid (Suc 3)) rid w c call
      tool hash red pol ek lease db = Inl r" "fst r = Inr d \<longrightarrow> d = decision_from_terminal (intent_from_row i) t"
    using attempt [of "interf (Suc 3)" "fault (Suc 3)" "eid (Suc 3)" "resid (Suc 3)", OF assms(2)] by blast
  have "begin_intent interf fault sha now eid resid rid w c call tool hash red pol ek lease db = r"
    unfolding begin_intent_def four begin_intent_from.simps r(1) sum.case by simp
  with r(2) assms(7) show ?thesis by simp
qed

text \<open>
  A settled effect is never executed again. When the key of a call names an intent that has an
  outcome, \<open>begin_intent\<close> by any caller, with any safe interference between its transactions and any
  failed commits, answers with an error, or with exactly the recorded outcome; it never answers that
  the tool should be executed, reconciled or waited for.
\<close>

theorem settled_effect_not_executed:
  assumes "tool_ok db" and "\<And>n j d. tool_safe d (interf n j d)"
    and "find_run rid db = Some run"
    and "resolved_idempotency_key sha rid (run_user_id run) tool call ek = Inr key"
    and "keyed_row key db = Some i" and "terminal_row (te_effect_id i) db = Some t"
    and "fst (begin_intent interf fault sha now eid resid rid w c call tool hash red pol ek lease db) = Inr d"
  shows "d = decision_from_terminal (intent_from_row i) t"
  by (rule begin_intent_settled [OF assms])

theorem settled_effect_not_executed_witness:
  "\<exists>d. fst (begin_intent (\<lambda>_ _ x. x) (\<lambda>_. False) (\<lambda>s. s) 1700000 (\<lambda>_. ''e2'') (\<lambda>_. ''x2'') ''r1'' ''w1'' ''tool:b''
       ''call'' ''bash'' ''h'' [] Never_replay (Some ''k'') 60
       (tool_step (Tx_commit (\<lambda>_. []) 1500000 ''e1'' ''w1'' ''tool:a'' (JInt 7) False False)
         (tool_step (Tx_intent False 1000000 ''e1'' ''x1'' ''r1'' ''w1'' ''tool:a'' ''call'' ''bash'' ''h''
            [] (''caller:u1'' @ [CHR 0x00] @ ''k'') Never_replay 60) sample_tool_db))) = Inr d
     \<and> id_action d = Act_known \<and> id_result d = JInt 7"
proof -
  define db where "db = tool_step (Tx_commit (\<lambda>_. []) 1500000 ''e1'' ''w1'' ''tool:a'' (JInt 7) False False)
         (tool_step (Tx_intent False 1000000 ''e1'' ''x1'' ''r1'' ''w1'' ''tool:a'' ''call'' ''bash'' ''h''
            [] (''caller:u1'' @ [CHR 0x00] @ ''k'') Never_replay 60) sample_tool_db)"
  define res where "res = fst (begin_intent (\<lambda>_ _ x. x) (\<lambda>_. False) (\<lambda>s. s) 1700000 (\<lambda>_. ''e2'') (\<lambda>_. ''x2'') ''r1'' ''w1'' ''tool:b''
       ''call'' ''bash'' ''h'' [] Never_replay (Some ''k'') 60 db)"
  have ok: "tool_ok db" unfolding db_def by (intro tools.inv_step sample_tool_ok) simp_all
  have "\<not> isl res" unfolding res_def db_def by code_simp
  then obtain d where d: "res = Inr d" by (cases res) auto
  have run: "map_option run_user_id (find_run ''r1'' db) = Some ''u1''" unfolding db_def by code_simp
  then obtain run where run: "find_run ''r1'' db = Some run" "run_user_id run = ''u1''" by blast
  have "map_option te_effect_id (keyed_row (''caller:u1'' @ [CHR 0x00] @ ''k'') db) = Some ''e1''"
    unfolding db_def by code_simp
  then obtain i where i: "keyed_row (''caller:u1'' @ [CHR 0x00] @ ''k'') db = Some i" "te_effect_id i = ''e1''" by blast
  have "map_option (\<lambda>t. (te_event_type t, te_result_payload t)) (terminal_row ''e1'' db) = Some (Fact_result, JInt 7)"
    unfolding db_def by code_simp
  then obtain t where t: "terminal_row ''e1'' db = Some t" "te_event_type t = Fact_result" "te_result_payload t = JInt 7" by blast
  have key: "resolved_idempotency_key (\<lambda>s. s) ''r1'' (run_user_id run) ''bash'' ''call'' (Some ''k'') =
      Inr (''caller:u1'' @ [CHR 0x00] @ ''k'')"
    by (simp add: run resolved_idempotency_key_def str_or_def)
  have "d = decision_from_terminal (intent_from_row i) t"
    by (rule settled_effect_not_executed [OF ok _ run(1) key i(1) _ d [unfolded res_def]]) (simp_all add: i t)
  with d t show ?thesis by (simp add: decision_from_terminal_def res_def db_def)
qed

section \<open>Who is told to execute\<close>

text \<open>
  \<open>told\<close> collects, for every answer "execute" or "reconcile", the effect and the claim owner of the
  call. The gateway names its claims \<open>tool:..\<close>, the recovery sweep \<open>tool-recovery:..\<close>.
\<close>

definition gateway_claim :: "string \<Rightarrow> bool" where
  "gateway_claim c \<longleftrightarrow> take 5 c = ''tool:''"

definition executes :: "tool_error + intent_decision \<Rightarrow> string \<Rightarrow> (string \<times> string) list" where
  "executes r c =
     (case r of
        Inl _ \<Rightarrow> []
      | Inr d \<Rightarrow> if id_action d \<in> {Act_execute, Act_reconcile} then [(ti_effect_id (id_intent d), c)] else [])"

fun told_by :: "'z tool_db_scheme tool_event \<Rightarrow> 'z tool_db_scheme \<Rightarrow> (string \<times> string) list" where
  "told_by (Tx_intent fault now eid resid rid w c call tool hash red key pol lease) db =
     (case intent_transaction fault now eid resid rid w c call tool hash red key pol lease db of
        Committed row db' \<Rightarrow> executes (Inr (decide Act_execute (intent_from_row row))) c | _ \<Rightarrow> [])"
| "told_by (Tx_decide now key rid w c tool hash lease) db =
     executes (fst (existing_decision now key rid w c tool hash lease db)) c"
| "told_by _ db = []"

fun claim_names :: "'z tool_db_scheme tool_event \<Rightarrow> bool" where
  "claim_names (Tx_intent fault now eid resid rid w c call tool hash red key pol lease) = gateway_claim c"
| "claim_names (Tx_decide now key rid w c tool hash lease) = gateway_claim c"
| "claim_names (Tx_claim_recovery now eid ro lease) = (\<not> gateway_claim ro)"
| "claim_names (Tx_journal e) = plain_event e"
| "claim_names _ = True"

definition told_step ::
  "'z tool_db_scheme tool_event \<Rightarrow> 'z tool_db_scheme \<times> (string \<times> string) list \<Rightarrow>
   'z tool_db_scheme \<times> (string \<times> string) list" where
  "told_step e s = (tool_step e (fst s), snd s @ told_by e (fst s))"

definition sole_executor :: "'z tool_db_scheme \<times> (string \<times> string) list \<Rightarrow> bool" where
  "sole_executor s \<longleftrightarrow> (case s of (db, told) \<Rightarrow>
     tool_ok db
     \<and> (\<forall>(eid, c)\<in>set told. \<exists>i. intent_row eid db = Some i)
     \<and> (\<forall>eid i. intent_row eid db = Some i \<and> te_recovery_policy i = Never_replay \<longrightarrow>
          (\<forall>c c'. (eid, c) \<in> set told \<and> (eid, c') \<in> set told \<longrightarrow> c = c')
          \<and> (\<forall>l c. lease_row eid db = Some l \<and> tl_claim_owner l = Some c \<and> gateway_claim c \<longrightarrow> (eid, c) \<in> set told)))"

text \<open>
  \<open>claims_kept\<close>: no gateway claim on an effect that must not be replayed is new, and no intent is new.
\<close>

definition claims_kept :: "'z tool_db_scheme \<Rightarrow> 'z tool_db_scheme \<Rightarrow> bool" where
  "claims_kept db db' \<longleftrightarrow>
     (\<forall>eid i. intent_row eid db' = Some i \<longrightarrow> intent_row eid db = Some i)
     \<and> (\<forall>eid i l c. intent_row eid db = Some i \<and> te_recovery_policy i = Never_replay \<and> lease_row eid db' = Some l
          \<and> tl_claim_owner l = Some c \<and> gateway_claim c \<longrightarrow>
          (\<exists>l0. lease_row eid db = Some l0 \<and> tl_claim_owner l0 = Some c))"

lemma claims_kept_refl [simp]: "claims_kept db db"
  by (simp add: claims_kept_def)

lemma claims_kept_frame: "ledger db' = ledger db \<Longrightarrow> leases db' = leases db \<Longrightarrow> claims_kept db db'"
  by (simp add: claims_kept_def intent_row_def lease_row_def)

lemma claims_kept_leases:
  assumes "ledger db' = ledger db" and "leases db' = update_where P f (leases db)"
    and "\<And>l. P l \<Longrightarrow> tl_effect_id (f l) = tl_effect_id l"
    and "\<And>l c. P l \<Longrightarrow> tl_claim_owner (f l) = Some c \<Longrightarrow> gateway_claim c \<Longrightarrow> tl_claim_owner l = Some c"
  shows "claims_kept db db'"
  using assms
  by (auto simp: claims_kept_def intent_row_def lease_row_def find_by_update_where split: option.splits if_splits)

lemma intent_row_append_event:
  assumes "ev \<noteq> Fact_intent"
  shows "intent_row eid (append_event now w ev ty ph sf res err fin run i db) = intent_row eid db"
proof -
  obtain e where "ledger (append_event now w ev ty ph sf res err fin run i db) = ledger db @ [e]" "te_event_type e = ev"
    using ledger_append_event by blast
  moreover have "find (is_intent eid) (xs @ [e]) = find (is_intent eid) xs" if "te_event_type e \<noteq> Fact_intent" for xs
    using that by (induction xs) (auto simp: is_intent_def)
  ultimately show ?thesis using assms by (simp add: intent_row_def)
qed

lemma intent_row_put_lease [simp]: "intent_row eid (put_lease l db) = intent_row eid db"
  by (simp add: intent_row_def)

lemma lease_row_put_lease_other:
  "eid \<noteq> tl_effect_id l \<Longrightarrow> lease_row eid (put_lease l db) = lease_row eid db"
  by (auto simp: lease_row_def put_lease_def find_by_update_where split: option.split dest: find_by_SomeD)

lemma lease_row_clear_claim:
  "lease_row eid (put_lease (clear_claim now l) db) = Some l' \<Longrightarrow>
     lease_row eid db = Some l' \<or> tl_claim_owner l' = None"
  by (auto simp: lease_row_def put_lease_def find_by_update_where clear_claim_def split: option.splits if_splits)

lemma claims_kept_terminal_fact:
  "ev \<noteq> Fact_intent \<Longrightarrow>
   claims_kept db (put_lease (clear_claim now l) (append_event now' w ev ty ph sf res err fin run i db))"
  by (auto simp: claims_kept_def intent_row_append_event dest!: lease_row_clear_claim)

lemma claims_kept_mark_unknown_locked:
  "mark_unknown_locked now w c reason run i l db = Inr db' \<Longrightarrow> claims_kept db db'"
  by (auto simp: mark_unknown_locked_def claims_kept_terminal_fact split: if_splits)

lemma find_append: "find P (xs @ ys) = (case find P xs of None \<Rightarrow> find P ys | Some x \<Rightarrow> Some x)"
  by (induction xs) auto

lemma terminal_row_append_event:
  "\<not> fin \<Longrightarrow> terminal_row eid (append_event now w ev ty ph sf res err fin run i db) = terminal_row eid db"
  using ledger_append_event [of now w ev ty ph sf res err fin run i db]
  by (auto simp: terminal_row_def find_by_def find_append split: option.split)

lemma claims_kept_at:
  assumes "intent_row x db = Some i" and "\<And>e. intent_row e db' = intent_row e db"
    and "\<And>e. e \<noteq> x \<Longrightarrow> lease_row e db' = lease_row e db"
    and "te_recovery_policy i = Never_replay \<Longrightarrow> lease_row x db' = Some l \<and> tl_claim_owner l = None"
  shows "claims_kept db db'"
  unfolding claims_kept_def
proof (intro conjI allI impI)
  fix e j k c
  assume *: "intent_row e db = Some j \<and> te_recovery_policy j = Never_replay \<and> lease_row e db' = Some k
      \<and> tl_claim_owner k = Some c \<and> gateway_claim c"
  then have "e \<noteq> x" using assms(1,4) by auto
  with * assms(3) show "\<exists>l0. lease_row e db = Some l0 \<and> tl_claim_owner l0 = Some c" by auto
qed (use assms(2) in simp)

lemma claims_kept_takeover:
  assumes ok: "ledger_ok (ledger db)" and i: "i \<in> set (ledger db)" "is_intent (te_effect_id i) i"
    and l: "lease_row (te_effect_id i) db = Some seen" and t: "terminal_row (te_effect_id i) db = None"
  shows "claims_kept db (snd (takeover now w c lease run i seen db))"
proof -
  define l' where "l' = seen\<lparr>tl_run_owner := w, tl_claim_owner := Some c,
      tl_expires_at := Some (lease_until now lease), tl_updated_at := now\<rparr>"
  define db1 where "db1 = append_event now w Fact_recovery_claim ''tool_effect_recovery_claimed''
     (''tool_intent_'' @ policy_name (te_recovery_policy i)) (policy_name (te_recovery_policy i)) JNull None False
     (run\<lparr>run_updated_at := now\<rparr>) i (put_lease l' db)"
  have eid: "tl_effect_id l' = te_effect_id i" using lease_row_SomeD [OF l] by (simp add: l'_def)
  have ir: "intent_row e db1 = intent_row e db" for e by (simp add: db1_def intent_row_append_event)
  have i': "intent_row (te_effect_id i) db = Some i" by (rule intent_row_unique [OF ok i])
  have lx: "lease_row (te_effect_id i) db1 = Some l'"
    using lease_row_put_lease [OF l eid] by (simp add: db1_def)
  have lo: "lease_row e db1 = lease_row e db" if "e \<noteq> te_effect_id i" for e
    using that lease_row_put_lease_other [of e l' db] eid by (simp add: db1_def)
  have t1: "terminal_row (te_effect_id i) db1 = None"
    using t by (simp add: db1_def terminal_row_append_event) (simp add: terminal_row_def)
  have unknown: "claims_kept db d" if "mark_unknown_locked now w c reason run1 i l' db1 = Inr d" for d run1 reason
  proof -
    define db2 where "db2 = append_event now w Fact_unknown_outcome ''tool_outcome_unknown''
          ''needs_attention'' ''manual_review'' JNull (Some reason) True (unknown_run now reason run1) i db1"
    have d: "d = put_lease (clear_claim now l') db2"
      using that t1 by (simp add: mark_unknown_locked_def l'_def db2_def)
    show ?thesis
    proof (rule claims_kept_at [OF i', of _ "clear_claim now l'"])
      show "intent_row e d = intent_row e db" for e by (simp add: d db2_def intent_row_append_event ir)
      show "lease_row e d = lease_row e db" if "e \<noteq> te_effect_id i" for e
        using that lo lease_row_put_lease_other [of e "clear_claim now l'" db2] eid
        by (simp add: d db2_def clear_claim_def)
      have "lease_row (te_effect_id i) db2 = Some l'" by (simp add: db2_def lx)
      from lease_row_put_lease [OF this, of "clear_claim now l'"] eid
      show "lease_row (te_effect_id i) d = Some (clear_claim now l') \<and> tl_claim_owner (clear_claim now l') = None"
        by (simp add: d clear_claim_def)
    qed
  qed
  have "claims_kept db db1" if "te_recovery_policy i \<noteq> Never_replay"
    using that by (intro claims_kept_at [OF i' ir lo]) simp_all
  then show ?thesis
    unfolding takeover_def Let_def l'_def [symmetric] db1_def [symmetric]
    using unknown by (auto split: option.splits sum.splits)
qed

lemma claims_kept_existing_owned:
  assumes "ledger_ok (ledger db)" and "i \<in> set (ledger db)" "is_intent (te_effect_id i) i"
    and "terminal_row (te_effect_id i) db = None"
  shows "claims_kept db (snd (existing_owned now rid w c lease i db))"
  using claims_kept_takeover [OF assms(1-3)] assms(4)
  by (auto simp: existing_owned_def Let_def split: option.split sum.split)

lemma claims_kept_existing:
  assumes ok: "tool_ok db"
  shows "claims_kept db (snd (existing_decision now key rid w c tool hash lease db))"
proof (cases "keyed_row key db")
  case (Some i)
  note i = keyed_row_SomeD [OF Some] keyed_row_intent [OF tool_okD(2) [OF ok] Some]
  show ?thesis
    using claims_kept_existing_owned [OF tool_okD(2) [OF ok], of i] i Some
    by (auto simp: existing_decision_def Let_def split: option.split)
qed (simp add: existing_decision_def)

lemma executes_takeover:
  "fst (takeover now w c lease run i seen db) = Inr d \<Longrightarrow> id_action d \<in> {Act_execute, Act_reconcile} \<Longrightarrow>
     id_intent d = intent_from_row i \<and> te_recovery_policy i \<noteq> Never_replay"
  by (auto simp: takeover_def Let_def decide_def split: if_splits option.splits sum.splits)

lemma executes_owned:
  assumes "fst (existing_owned now rid w c lease i db) = Inr d" and "id_action d \<in> {Act_execute, Act_reconcile}"
  shows "id_intent d = intent_from_row i \<and> (te_recovery_policy i = Never_replay \<longrightarrow>
     (\<exists>l. lease_row (te_effect_id i) db = Some l \<and> tl_claim_owner l = Some c))"
  using assms executes_takeover [of now w c lease _ i _ db d]
  by (auto simp: existing_owned_def Let_def decide_def split: if_splits option.splits sum.splits)

lemma executes_existing:
  assumes "fst (existing_decision now key rid w c tool hash lease db) = Inr d"
    and "id_action d \<in> {Act_execute, Act_reconcile}"
  obtains i where "keyed_row key db = Some i" and "id_intent d = intent_from_row i"
    and "te_recovery_policy i = Never_replay \<Longrightarrow>
           \<exists>l. lease_row (te_effect_id i) db = Some l \<and> tl_claim_owner l = Some c"
proof -
  have "id_action (decision_from_terminal x t) \<notin> {Act_execute, Act_reconcile}" for x t
    by (simp add: decision_from_terminal_def)
  with assms obtain i where "keyed_row key db = Some i" "fst (existing_owned now rid w c lease i db) = Inr d"
    by (auto simp: existing_decision_def Let_def decide_def split: if_splits option.splits)
  with executes_owned [OF this(2) assms(2)] that show thesis by blast
qed

lemma sole_executor_kept:
  assumes inv: "sole_executor (db, told)" and kept: "claims_kept db db'" and safe: "tool_safe db db'"
    and new: "\<And>eid c. (eid, c) \<in> set fresh \<Longrightarrow> \<exists>i. intent_row eid db = Some i
      \<and> (te_recovery_policy i = Never_replay \<longrightarrow> (\<exists>l. lease_row eid db = Some l \<and> tl_claim_owner l = Some c \<and> gateway_claim c))"
  shows "sole_executor (db', told @ fresh)"
proof -
  have ok: "tool_ok db" using inv by (simp add: sole_executor_def)
  have ex: "\<exists>i. intent_row eid db = Some i" if "(eid, c) \<in> set told" for eid c
    using inv that by (auto simp: sole_executor_def)
  have old: "(eid, c) \<in> set told" if "(eid, c) \<in> set (told @ fresh)" "intent_row eid db = Some i"
    "te_recovery_policy i = Never_replay" for eid c i
    using that new [of eid c] inv by (auto simp: sole_executor_def)
  have "\<exists>i. intent_row eid db' = Some i" if "(eid, c) \<in> set (told @ fresh)" for eid c
    using that ex new intent_row_mono [OF tool_safeD(2) [OF safe ok]] by auto blast+
  moreover have "intent_row eid db = Some i" if "intent_row eid db' = Some i" for eid i
    using kept that by (simp add: claims_kept_def)
  moreover have "c = c'" if "(eid, c) \<in> set (told @ fresh)" "(eid, c') \<in> set (told @ fresh)"
    "intent_row eid db = Some i" "te_recovery_policy i = Never_replay" for eid c c' i
    using old [OF that(1,3,4)] old [OF that(2,3,4)] that inv by (auto simp: sole_executor_def)
  moreover have "(eid, c) \<in> set told" if "lease_row eid db' = Some l" "tl_claim_owner l = Some c" "gateway_claim c"
    "intent_row eid db = Some i" "te_recovery_policy i = Never_replay" for eid c l i
  proof -
    have "\<exists>l0. lease_row eid db = Some l0 \<and> tl_claim_owner l0 = Some c"
      using kept that unfolding claims_kept_def by blast
    then show ?thesis using that(3-5) inv unfolding sole_executor_def by blast
  qed
  ultimately show ?thesis
    using tool_safeD(1) [OF safe ok] unfolding sole_executor_def by auto blast+
qed

lemma claims_kept_leased:
  assumes "\<And>e. intent_row e db' = intent_row e db" and "leases db' = update_where P f (leases db)"
    and "\<And>l. P l \<Longrightarrow> tl_effect_id (f l) = tl_effect_id l"
    and "\<And>l c. P l \<Longrightarrow> tl_claim_owner (f l) = Some c \<Longrightarrow> gateway_claim c \<Longrightarrow> tl_claim_owner l = Some c"
  shows "claims_kept db db'"
  using assms by (auto simp: claims_kept_def lease_row_def find_by_update_where split: option.splits if_splits)

lemma claims_kept_claim_recovery:
  assumes "\<not> gateway_claim ro"
  shows "claims_kept db (snd (claim_recovery_intent now eid ro lease db))"
proof -
  have "claims_kept db (append_event t w Fact_recovery_claim ty ph sf res err fin run i
     (update_runs P g db\<lparr>leases := update_where (recovery_lease now eid ro) (\<lambda>l. l\<lparr>tl_run_owner := ro,
        tl_claim_owner := Some ro, tl_expires_at := x, tl_updated_at := now\<rparr>) (leases db)\<rparr>))"
    for t w ty ph sf res err fin run i P g x
  proof (rule claims_kept_leased [where P = "recovery_lease now eid ro" and f = "\<lambda>l. l\<lparr>tl_run_owner := ro,
        tl_claim_owner := Some ro, tl_expires_at := x, tl_updated_at := now\<rparr>"])
    have "ledger (update_runs P g db) = ledger db" using ledger_of_more [OF more_update_runs] by blast
    then show "intent_row e (append_event t w Fact_recovery_claim ty ph sf res err fin run i
     (update_runs P g db\<lparr>leases := update_where (recovery_lease now eid ro) (\<lambda>l. l\<lparr>tl_run_owner := ro,
        tl_claim_owner := Some ro, tl_expires_at := x, tl_updated_at := now\<rparr>) (leases db)\<rparr>)) = intent_row e db" for e
      by (simp add: intent_row_append_event) (simp add: intent_row_def)
  qed (use assms in \<open>auto simp: leases_append_event recovery_lease_def\<close>)
  moreover have "leases (update_runs P g db) = leases db" for P g
    using ledger_of_more [OF more_update_runs] by blast
  ultimately show ?thesis
    by (simp add: claim_recovery_intent_def Let_def split: option.split)
qed

lemma claims_kept_release_recovery: "claims_kept db (snd (release_recovery_claim now eid ro retry db))"
proof -
  have "claims_kept db (put_run row (put_lease (l\<lparr>tl_claim_owner := None, tl_expires_at := x, tl_updated_at := now\<rparr>) db))"
    for row l x
    using ledger_of_more [OF more_put_run [of row "put_lease (l\<lparr>tl_claim_owner := None, tl_expires_at := x,
      tl_updated_at := now\<rparr>) db"]]
    by (intro claims_kept_leased [where P = "\<lambda>y. tl_effect_id y = tl_effect_id l"
        and f = "\<lambda>_. l\<lparr>tl_claim_owner := None, tl_expires_at := x, tl_updated_at := now\<rparr>"])
       (auto simp: intent_row_def put_lease_def recovery_lease_def)
  then show ?thesis
    by (simp add: release_recovery_claim_def Let_def split: option.split)
qed

lemma claims_kept_step:
  assumes "claim_names e" and "tool_ok db" and "\<forall>f n a b c d g h i j k l m p. e \<noteq> Tx_intent f n a b c d g h i j k l m p"
  shows "claims_kept db (tool_step e db)"
proof (cases e)
  case (Tx_commit str now eid w c res failed recon)
  then show ?thesis
    by (simp add: try_commit_result_def commit_result_locked_def claims_kept_terminal_fact
        split: option.split sum.split)
next
  case (Tx_mark_unknown now eid w c reason)
  then show ?thesis
    using claims_kept_mark_unknown_locked by (auto simp: mark_unknown_def split: option.split sum.split)
next
  case (Tx_drop_run_lease now eid ro)
  then show ?thesis
    using ledger_of_more [OF more_put_run]
    by (auto simp: drop_run_lease_def intro!: claims_kept_frame split: option.split)
next
  case (Tx_journal ev)
  then show ?thesis
    using assms(1) ledger_of_more [OF more_journal [of ev db]] by (auto intro!: claims_kept_frame)
next
  case (Tx_settle now eid)
  then show ?thesis
    by (simp add: settle_terminal_run_intent_def claims_kept_terminal_fact split: option.split)
next
  case (Tx_acquire now eid w c lease)
  then show ?thesis
    by (simp add: acquire_invocation_claim_def) (auto intro!: claims_kept_leases)
next
  case (Tx_abandon now eid w c)
  then show ?thesis
    by (simp add: abandon_invocation_claim_def) (auto intro!: claims_kept_leases)
qed (use assms in \<open>simp_all add: claims_kept_existing claims_kept_claim_recovery claims_kept_release_recovery\<close>)

lemma ledger_append_locked [simp]:
  "ledger (snd (append_locked w ty ph sf pl v row db)) = ledger db"
  "leases (snd (append_locked w ty ph sf pl v row db)) = leases db"
  using ledger_of_more [OF more_append_locked] by blast+

lemma told_by_decide:
  assumes "(eid, c) \<in> set (told_by e db)" and "\<forall>f n a b c d g h i j k l m p. e \<noteq> Tx_intent f n a b c d g h i j k l m p"
  shows "\<exists>now key rid tool w hash lease d. e = Tx_decide now key rid w c tool hash lease
    \<and> fst (existing_decision now key rid w c tool hash lease db) = Inr d
    \<and> id_action d \<in> {Act_execute, Act_reconcile} \<and> eid = ti_effect_id (id_intent d)"
proof (cases e)
  case (Tx_decide now key rid w c' tool hash lease)
  then show ?thesis
    using assms(1) by (cases "fst (existing_decision now key rid w c' tool hash lease db)")
      (auto simp: executes_def split: if_splits)
qed (use assms in simp_all)

lemma sole_executorD:
  assumes "sole_executor (db, told)"
  shows "intent_row eid db = Some i \<Longrightarrow> te_recovery_policy i = Never_replay \<Longrightarrow>
      (eid, c) \<in> set told \<Longrightarrow> (eid, c') \<in> set told \<Longrightarrow> c = c'"
    and "intent_row eid db = Some i \<Longrightarrow> te_recovery_policy i = Never_replay \<Longrightarrow>
      lease_row eid db = Some l \<Longrightarrow> tl_claim_owner l = Some c \<Longrightarrow> gateway_claim c \<Longrightarrow> (eid, c) \<in> set told"
  using assms unfolding sole_executor_def by blast+

lemma sole_executor_intent:
  assumes inv: "sole_executor (db, told)" and "gateway_claim c"
    and tx: "intent_transaction fault now eid resid rid w c call tool hash red key pol lease db = Committed row db'"
  shows "sole_executor (db', told @ [(te_effect_id row, c)])"
proof -
  have ok: "tool_ok db" using inv by (simp add: sole_executor_def)
  note safe = tool_safeD [OF tool_safe_intent_transaction [OF tx] ok]
  obtain run where run: "lease_row eid db = None" "te_effect_id row = eid" "te_event_type row = Fact_intent"
    "ledger db' = ledger db @ [row]" "leases db' = leases db @ [\<lparr>tl_effect_id = eid, tl_run_id = rid, tl_run_owner = w,
       tl_claim_owner = Some c, tl_expires_at = Some (lease_until now lease), tl_updated_at = now\<rparr>]"
    using tx by (auto simp: intent_transaction_def insert_intent_def intent_fact_def add_fact_def Let_def split_beta
        split: sum.splits if_splits)
  have new: "eid \<notin> te_effect_id ` set (ledger db)"
    using run(1) tool_okD(3) [OF ok] by (auto simp: leases_ok_def lease_row_def find_by_None_iff)
  then have none: "intent_row eid db = None" by (auto simp: intent_row_def find_None_iff is_intent_def)
  then have untold: "(eid, x) \<notin> set told" for x using inv by (auto simp: sole_executor_def)
  have ir: "intent_row e db' = (if e = eid then Some row else intent_row e db)" for e
    using none run(2,3,4) by (auto simp: intent_row_def find_append is_intent_def split: option.split)
  have lr: "lease_row e db' = lease_row e db" if "e \<noteq> eid" for e
    using that run(5) by (auto simp: lease_row_def find_by_def find_append split: option.split)
  have lx: "map_option tl_claim_owner (lease_row eid db') = Some (Some c)"
    using run(1,5) by (auto simp: lease_row_def find_by_def find_append split: option.split)
  have "\<exists>i. intent_row e db' = Some i" if "(e, x) \<in> set (told @ [(eid, c)])" for e x
    using that inv by (auto simp: sole_executor_def ir)
  moreover have "x = y" if "(e, x) \<in> set (told @ [(eid, c)])" "(e, y) \<in> set (told @ [(eid, c)])"
    "intent_row e db' = Some i" "te_recovery_policy i = Never_replay" for e x y i
  proof (cases "e = eid")
    case True
    with that(1,2) untold show ?thesis by simp
  next
    case False
    with that sole_executorD(1) [OF inv] show ?thesis by (simp add: ir)
  qed
  moreover have "(e, x) \<in> set (told @ [(eid, c)])" if "lease_row e db' = Some l" "tl_claim_owner l = Some x"
    "gateway_claim x" "intent_row e db' = Some i" "te_recovery_policy i = Never_replay" for e x l i
  proof (cases "e = eid")
    case True
    with that(1,2) lx show ?thesis by simp
  next
    case False
    with that lr [OF False] sole_executorD(2) [OF inv] show ?thesis by (simp add: ir)
  qed
  ultimately show ?thesis using safe(1) unfolding sole_executor_def run(2) by blast
qed

lemma sole_executor_step:
  assumes "claim_names e" and "sole_executor s"
  shows "sole_executor (told_step e s)"
proof (cases "\<forall>f n a b c d g h i j k l m p. e \<noteq> Tx_intent f n a b c d g h i j k l m p")
  case True
  obtain db told where s: "s = (db, told)" by (cases s)
  have ok: "tool_ok db" using assms(2) by (simp add: s sole_executor_def)
  have good: "tool_good e" using assms(1) by (cases e) simp_all
  have "\<exists>i. intent_row eid db = Some i
      \<and> (te_recovery_policy i = Never_replay \<longrightarrow> (\<exists>l. lease_row eid db = Some l \<and> tl_claim_owner l = Some c \<and> gateway_claim c))"
    if mem: "(eid, c) \<in> set (told_by e db)" for eid c
  proof -
    obtain now key rid tool w hash lease d where e: "e = Tx_decide now key rid w c tool hash lease"
      and d: "fst (existing_decision now key rid w c tool hash lease db) = Inr d"
        "id_action d \<in> {Act_execute, Act_reconcile}" "eid = ti_effect_id (id_intent d)"
      using told_by_decide [OF mem True] by blast
    obtain i where i: "keyed_row key db = Some i" "id_intent d = intent_from_row i"
      "te_recovery_policy i = Never_replay \<Longrightarrow> \<exists>l. lease_row (te_effect_id i) db = Some l \<and> tl_claim_owner l = Some c"
      using executes_existing [OF d(1,2)] by blast
    have "intent_row (te_effect_id i) db = Some i"
      using keyed_row_SomeD [OF i(1)] keyed_row_intent [OF tool_okD(2) [OF ok] i(1)]
      by (intro intent_row_unique [OF tool_okD(2) [OF ok]]) auto
    moreover have "eid = te_effect_id i" using d(3) i(2) by (simp add: intent_from_row_def)
    ultimately show ?thesis using i(3) assms(1) e by auto
  qed
  then show ?thesis
    using sole_executor_kept [OF assms(2) [unfolded s] claims_kept_step [OF assms(1) ok True] tool_safe_step [OF good]]
    by (simp add: told_step_def s)
next
  case False
  then show ?thesis
    using assms by (cases s) (auto simp: told_step_def executes_def decide_def intent_from_row_def
      intro: sole_executor_intent split: intent_commit.split)
qed

interpretation told: step_system told_step claim_names sole_executor
  by unfold_locales (rule sole_executor_step)

text \<open>
  C9. A tool that must not be replayed has one executor. Start from an empty ledger and interleave the
  transactions of any number of callers, recovery sweeps and runs, with any claims expiring in between:
  all the answers "execute" that were ever given for an effect with policy \<open>never_replay\<close> were given to
  the same claim owner, which is one invocation of the gateway. The retention sweep, which removes effects of ended runs only, is
  not among the transactions.
\<close>

theorem never_replay_single_executor:
  assumes "tool_ok db" and "ledger db = []" and "list_all claim_names es"
    and "run_steps told_step es (db, []) = (db', told)"
    and "intent_row eid db' = Some i" and "te_recovery_policy i = Never_replay"
    and "(eid, c) \<in> set told" and "(eid, c') \<in> set told"
  shows "c = c'"
proof -
  have "intent_row e db = None" for e using assms(2) by (simp add: intent_row_def)
  then have "sole_executor (db, [])" using assms(1) by (simp add: sole_executor_def)
  from told.inv_run [OF assms(3) this] show ?thesis
    using assms(4-8) unfolding sole_executor_def by auto
qed

theorem never_replay_single_executor_witness:
  "{c. (''e1'', c) \<in> set (snd (run_steps told_step
       [Tx_intent False 1000000 ''e1'' ''x1'' ''r1'' ''w1'' ''tool:a'' ''call'' ''bash'' ''h'' [] ''k1'' Never_replay 60,
        Tx_decide 1100000 ''k1'' ''r1'' ''w1'' ''tool:a'' ''bash'' ''h'' 60,
        Tx_decide 1200000 ''k1'' ''r1'' ''w1'' ''tool:b'' ''bash'' ''h'' 60,
        Tx_decide 62000000 ''k1'' ''r1'' ''w1'' ''tool:b'' ''bash'' ''h'' 60] (sample_tool_db, [])))} \<subseteq> {''tool:a''}"
proof -
  define es where "es = [Tx_intent False 1000000 ''e1'' ''x1'' ''r1'' ''w1'' ''tool:a'' ''call'' ''bash'' ''h'' [] ''k1'' Never_replay 60,
        Tx_decide 1100000 ''k1'' ''r1'' ''w1'' ''tool:a'' ''bash'' ''h'' 60,
        Tx_decide 1200000 ''k1'' ''r1'' ''w1'' ''tool:b'' ''bash'' ''h'' 60,
        Tx_decide 62000000 ''k1'' ''r1'' ''w1'' ''tool:b'' ''bash'' ''h'' 60 :: tool_db tool_event]"
  obtain db' told where r: "run_steps told_step es (sample_tool_db, []) = (db', told)" by fastforce
  have names: "list_all claim_names es" by (simp add: es_def gateway_claim_def)
  have "map_option te_recovery_policy (intent_row ''e1'' (fst (run_steps told_step es (sample_tool_db, [])))) =
     Some Never_replay" unfolding es_def by code_simp
  then obtain i where i: "intent_row ''e1'' db' = Some i" "te_recovery_policy i = Never_replay" by (auto simp: r)
  have "(''e1'', ''tool:a'') \<in> set (snd (run_steps told_step es (sample_tool_db, [])))" unfolding es_def by code_simp
  then have a: "(''e1'', ''tool:a'') \<in> set told" by (simp add: r)
  have "ledger sample_tool_db = []" by (simp add: sample_tool_db_def)
  from never_replay_single_executor [OF sample_tool_ok this names r i _ a] show ?thesis
    unfolding es_def [symmetric] r by auto
qed

section \<open>Outcomes and claims of one call\<close>

lemma terminal_row_new:
  assumes "terminal_row (te_effect_id i) db = None"
  shows "\<exists>t. terminal_row (te_effect_id i) (put_lease l (append_event now w ev ty ph sf res err True run i db)) = Some t
     \<and> te_event_type t = ev \<and> te_result_payload t = res"
proof -
  obtain e where "ledger (append_event now w ev ty ph sf res err True run i db) = ledger db @ [e]"
    "te_event_type e = ev" "te_terminal_effect_id e = Some (te_effect_id i)" "te_result_payload e = res"
    using ledger_append_event [of now w ev ty ph sf res err True run i db] by auto
  then show ?thesis using assms by (simp add: terminal_row_def find_by_def find_append)
qed

definition recorded :: "string \<Rightarrow> json \<Rightarrow> 'z tool_db_scheme \<Rightarrow> bool" where
  "recorded eid v db \<longleftrightarrow> (case terminal_row eid db of None \<Rightarrow> False
     | Some t \<Rightarrow> te_event_type t \<noteq> Fact_unknown_outcome \<and> te_result_payload t = v)"

lemma recorded_known: "terminal_row eid db = Some t \<Longrightarrow> known_outcome eid t = Inr v \<longleftrightarrow> recorded eid v db"
  by (auto simp: recorded_def known_outcome_def)

lemma recorded_commit_locked:
  assumes "commit_result_locked str now w res failed recon i l db = (Inr v, db')"
  shows "recorded (te_effect_id i) v db'"
proof (cases "terminal_row (te_effect_id i) db")
  case None
  have "recorded (te_effect_id i) x (put_lease l' (append_event now w' ev ty ph sf x err True run i db))"
    if "ev \<noteq> Fact_unknown_outcome" for x l' w' ev ty ph sf err run
    using terminal_row_new [OF None, of l' now w' ev ty ph sf x err run] that by (auto simp: recorded_def)
  then show ?thesis
    using assms None by (auto simp: commit_result_locked_def split: sum.splits if_splits)
qed (use assms in \<open>auto simp: commit_result_locked_def recorded_known\<close>)

lemma recorded_try_commit:
  assumes "try_commit_result str now eid w c res failed recon db = (Inr v, db')"
  shows "recorded eid v db'"
proof -
  obtain i where i: "intent_row eid db = Some i" using assms by (auto simp: try_commit_result_def split: option.splits)
  have "te_effect_id i = eid" using intent_row_SomeD [OF i] by (simp add: is_intent_def)
  then show ?thesis
    using assms i recorded_commit_locked [of str now w res failed recon i _ db v db']
    by (auto simp: try_commit_result_def recorded_known split: option.splits if_splits)
qed

lemma recorded_commit_attempt:
  assumes "commit_attempt f b str now eid w c res failed recon db = Inl (Inr v, db')"
  shows "recorded eid v db'"
proof -
  have "recorded eid v d" if "terminal_decision eid d = Some x" "id_action x \<noteq> Act_unknown" "id_result x = v" for d x
    using that by (auto simp: terminal_decision_def recorded_def decision_from_terminal_def split: option.splits if_splits)
  then show ?thesis
    using assms recorded_try_commit [of str now eid w c res failed recon db]
    by (auto simp: commit_attempt_def Let_def split: option.splits if_splits)
qed

lemma recorded_commit_result:
  assumes "commit_result interf fault str now eid w c res failed recon db = (Inr v, db')"
  shows "recorded eid v db'"
proof -
  have "recorded eid v db'"
    if "commit_result_from n interf fault str now eid w c res failed recon d = (Inr v, db')" for n d
    using that by (induction n arbitrary: d) (auto split: sum.splits dest: recorded_commit_attempt)
  with assms show ?thesis unfolding commit_result_def by blast
qed

text \<open>
  What \<open>commit_result\<close> returns is what the ledger holds: whatever others commit in between and
  whichever commits fail, a value it returns is the payload of the effect's one durable outcome, which
  is not the unknown one. In particular the loser of a race returns the winner's result.
\<close>

theorem commit_returns_recorded:
  assumes "commit_result interf fault str now eid w c res failed recon db = (Inr v, db')"
  shows "recorded eid v db'"
  by (rule recorded_commit_result [OF assms])

theorem commit_returns_recorded_witness:
  "recorded ''e1'' (JInt 7)
     (snd (commit_result (\<lambda>_ d. d) (\<lambda>n. n = 4) (\<lambda>_. []) 1500000 ''e1'' ''w1'' ''tool:a'' (JInt 7) False False sample_intent_db))"
proof -
  define r where "r = commit_result (\<lambda>_ d. d) (\<lambda>n. n = 4) (\<lambda>_. []) 1500000 ''e1'' ''w1'' ''tool:a'' (JInt 7) False False
    sample_intent_db"
  have "fst r = Inr (JInt 7)" unfolding r_def by code_simp
  then have "commit_result (\<lambda>_ d. d) (\<lambda>n. n = 4) (\<lambda>_. []) 1500000 ''e1'' ''w1'' ''tool:a'' (JInt 7) False False
    sample_intent_db = (Inr (JInt 7), snd r)" unfolding r_def by (metis prod.collapse)
  from commit_returns_recorded [OF this] show ?thesis unfolding r_def .
qed

text \<open>
  A caller that lost its claim commits nothing: when the claim of an open effect is held by
  someone else, was released, or has run out, \<open>commit_result\<close> reports the lost claim and leaves the
  database as it was; \<open>mark_unknown\<close> by someone who is not the holder fails and changes nothing either.
\<close>

theorem lost_claim_commits_nothing:
  assumes "intent_row eid db = Some i" and "terminal_row eid db = None" and "lease_row eid db = Some l"
    and "tl_run_owner l \<noteq> w \<or> tl_claim_owner l \<noteq> Some c \<or> \<not> sql_gt (tl_expires_at l) now"
  shows "commit_result interf fault str now eid w c res failed recon db = (Inl (ToolEffectLeaseLost eid), db)
     \<and> (sql_gt (tl_expires_at l) now \<longrightarrow>
          isl (fst (mark_unknown now eid w c reason db)) \<and> snd (mark_unknown now eid w c reason db) = db)"
proof -
  have eid: "te_effect_id i = eid" using intent_row_SomeD [OF assms(1)] by (simp add: is_intent_def)
  have lost: "try_commit_result str now eid w c res failed recon db = (Inl (ToolEffectLeaseLost eid), db)"
    using assms by (auto simp: try_commit_result_def)
  then have "commit_attempt f b str now eid w c res failed recon db = Inl (Inl (ToolEffectLeaseLost eid), db)" for f b
    by (simp add: commit_attempt_def)
  then have "commit_result_from (Suc 3) interf fault str now eid w c res failed recon db = (Inl (ToolEffectLeaseLost eid), db)"
    unfolding commit_result_from.simps(2) by simp
  moreover have "(4::nat) = Suc 3" by simp
  moreover have "mark_unknown_locked now w c reason run i l db = Inl (ToolEffectLeaseLost eid)"
    if "sql_gt (tl_expires_at l) now" for run
    using assms eid that by (auto simp: mark_unknown_locked_def)
  then have "sql_gt (tl_expires_at l) now \<longrightarrow>
      isl (fst (mark_unknown now eid w c reason db)) \<and> snd (mark_unknown now eid w c reason db) = db"
    using assms(1,3) by (auto simp: mark_unknown_def split: sum.split)
  ultimately show ?thesis unfolding commit_result_def by metis
qed

theorem lost_claim_commits_nothing_witness:
  "commit_result (\<lambda>_ d. d) (\<lambda>_. False) (\<lambda>_. []) 1500000 ''e1'' ''w1'' ''tool:b'' (JInt 7) False False sample_intent_db =
     (Inl (ToolEffectLeaseLost ''e1''), sample_intent_db)"
proof -
  have "map_option (\<lambda>_. ()) (intent_row ''e1'' sample_intent_db) = Some ()" by code_simp
  then obtain i where i: "intent_row ''e1'' sample_intent_db = Some i" by blast
  have "map_option tl_claim_owner (lease_row ''e1'' sample_intent_db) = Some (Some ''tool:a'')" by code_simp
  then obtain l where l: "lease_row ''e1'' sample_intent_db = Some l" "tl_claim_owner l = Some ''tool:a''" by blast
  have t: "terminal_row ''e1'' sample_intent_db = None" by code_simp
  from lost_claim_commits_nothing [OF i t l(1), of "''w1''" "''tool:b''" 1500000 "\<lambda>_ d. d" "\<lambda>_. False" "\<lambda>_. []"
      "JInt 7" False False] l(2)
  show ?thesis by simp
qed

definition ready_to_execute :: "time \<Rightarrow> string \<Rightarrow> string \<Rightarrow> intent_decision \<Rightarrow> 'z tool_db_scheme \<Rightarrow> bool" where
  "ready_to_execute now w c d db \<longleftrightarrow>
     (case (intent_row (ti_effect_id (id_intent d)) db, lease_row (ti_effect_id (id_intent d)) db) of
        (Some i, Some l) \<Rightarrow>
          id_intent d = intent_from_row i \<and> tl_run_owner l = w \<and> tl_claim_owner l = Some c
          \<and> sql_gt (tl_expires_at l) now \<and> terminal_row (te_effect_id i) db = None
      | _ \<Rightarrow> False)"

definition starts :: "intent_decision \<Rightarrow> bool" where
  "starts d \<longleftrightarrow> id_action d \<in> {Act_execute, Act_reconcile}"

lemma starts_simps [simp]:
  "starts (decide Act_execute i)" "starts (decide (execute_action p) i)" "\<not> starts (decide Act_wait i)"
  "\<not> starts (decide Act_unknown i)" "\<not> starts (decision_from_terminal i t)"
  by (simp_all add: starts_def decide_def execute_action_def decision_from_terminal_def)

lemma id_intent_decide [simp]: "id_intent (decide a i) = i"
  by (simp add: decide_def)

lemma effect_id_intent [simp]: "ti_effect_id (intent_from_row i) = te_effect_id i"
  by (simp add: intent_from_row_def)

lemma sql_gt_lease_until [simp]: "sql_gt (Some (lease_until now n)) now"
  by (simp add: lease_until_def seconds_def)

lemma readyI:
  "intent_row (te_effect_id i) db = Some i \<Longrightarrow> lease_row (te_effect_id i) db = Some l \<Longrightarrow> tl_run_owner l = w \<Longrightarrow>
   tl_claim_owner l = Some c \<Longrightarrow> sql_gt (tl_expires_at l) now \<Longrightarrow> terminal_row (te_effect_id i) db = None \<Longrightarrow>
   ready_to_execute now w c (decide act (intent_from_row i)) db"
  by (simp add: ready_to_execute_def)

lemma ready_takeover:
  assumes "takeover now w c lease run i seen db = (Inr d, db')" and "starts d"
    and "intent_row (te_effect_id i) db = Some i" and "lease_row (te_effect_id i) db = Some seen"
    and "terminal_row (te_effect_id i) db = None"
  shows "ready_to_execute now w c d db'"
proof -
  define l where "l = seen\<lparr>tl_run_owner := w, tl_claim_owner := Some c,
      tl_expires_at := Some (lease_until now lease), tl_updated_at := now\<rparr>"
  have "tl_effect_id l = te_effect_id i" using lease_row_SomeD [OF assms(4)] by (simp add: l_def)
  note lx = lease_row_put_lease [OF assms(4) this]
  have t: "terminal_row (te_effect_id i) (put_lease l db) = None" using assms(5) by (simp add: terminal_row_def)
  show ?thesis
    using assms(1,2,3) lx t unfolding takeover_def Let_def l_def [symmetric]
    by (auto simp: intent_row_append_event terminal_row_append_event l_def intro!: readyI
        split: if_splits option.splits sum.splits)
qed

lemma ready_existing_owned:
  assumes "existing_owned now rid w c lease i db = (Inr d, db')" and "starts d"
    and "intent_row (te_effect_id i) db = Some i" and "terminal_row (te_effect_id i) db = None"
  shows "ready_to_execute now w c d db'"
  using assms ready_takeover [of now w c lease _ i _ db d db']
  by (auto simp: existing_owned_def Let_def intro: readyI split: option.splits sum.splits if_splits)

lemma ready_existing_decision:
  assumes ok: "tool_ok db" and ex: "existing_decision now key rid w c tool hash lease db = (Inr d, db')" and d: "starts d"
  shows "ready_to_execute now w c d db'"
proof -
  obtain i where i: "keyed_row key db = Some i" "existing_owned now rid w c lease i db = (Inr d, db')"
    "terminal_row (te_effect_id i) db = None"
    using ex d by (auto simp: existing_decision_def Let_def split: option.splits if_splits)
  have "intent_row (te_effect_id i) db = Some i"
    using keyed_row_SomeD [OF i(1)] keyed_row_intent [OF tool_okD(2) [OF ok] i(1)]
    by (intro intent_row_unique [OF tool_okD(2) [OF ok]]) auto
  from ready_existing_owned [OF i(2) d this i(3)] show ?thesis .
qed

lemma ready_intent_transaction:
  assumes ok: "tool_ok db"
    and tx: "intent_transaction fault now eid resid rid w c call tool hash red key pol lease db = Committed row db'"
  shows "ready_to_execute now w c (decide Act_execute (intent_from_row row)) db'"
proof -
  have run: "lease_row eid db = None" "te_effect_id row = eid" "te_event_type row = Fact_intent"
    "ledger db' = ledger db @ [row]" "te_terminal_effect_id row = None"
    "leases db' = leases db @ [\<lparr>tl_effect_id = eid, tl_run_id = rid, tl_run_owner = w,
       tl_claim_owner = Some c, tl_expires_at = Some (lease_until now lease), tl_updated_at = now\<rparr>]"
    using tx by (auto simp: intent_transaction_def insert_intent_def intent_fact_def add_fact_def Let_def split_beta
        split: sum.splits if_splits)
  have new: "eid \<notin> te_effect_id ` set (ledger db)"
    using run(1) tool_okD(3) [OF ok] by (auto simp: leases_ok_def lease_row_def find_by_None_iff)
  then have "intent_row eid db = None" by (auto simp: intent_row_def find_None_iff is_intent_def)
  then have "intent_row eid db' = Some row"
    using run(2,3,4) by (simp add: intent_row_def find_append is_intent_def)
  moreover have "te_terminal_effect_id e \<noteq> Some eid" if "e \<in> set (ledger db)" for e
    using that new tool_okD(2) [OF ok] by (auto simp: ledger_ok_def)
  then have "terminal_row eid db' = None"
    using run(4,5) by (auto simp: terminal_row_def find_by_None_iff) (metis)
  ultimately show ?thesis
    using run(1,2,6) by (auto simp: ready_to_execute_def lease_row_def find_by_def find_append split: option.split)
qed

lemma as_commit_error_Inr: "as_commit_error r = (Inr d, db') \<longleftrightarrow> r = (Inr d, db')"
  by (cases r) (simp add: as_commit_error_def split: sum.split tool_error.split)

lemma ready_begin_attempt:
  assumes ok: "tool_ok db" and f: "\<And>j d. tool_safe d (f j d)" and d: "starts d"
    and at: "begin_attempt f b sha now e x rid w c call tool hash red pol ek lease db = Inl (Inr d, db')"
  shows "ready_to_execute now w c d db'"
proof -
  define d0 where "d0 = f 0 db"
  define d1 where "d1 = f 1 d0"
  define d2 where "d2 = f 2 d1"
  define d3 where "d3 = f 3 d2"
  have o0: "tool_ok d0" unfolding d0_def by (rule tool_safeD(1) [OF f ok])
  have o1: "tool_ok d1" unfolding d1_def by (rule tool_safeD(1) [OF f o0])
  have o2: "tool_ok d2" unfolding d2_def by (rule tool_safeD(1) [OF f o1])
  have o3: "tool_ok d3" unfolding d3_def by (rule tool_safeD(1) [OF f o2])
  have o4: "tool_ok (f 4 d3)" by (rule tool_safeD(1) [OF f o3])
  show ?thesis
    using at d unfolding begin_attempt_def Let_def d0_def [symmetric] d1_def [symmetric]
      d2_def [symmetric] d3_def [symmetric]
    by (auto simp: as_commit_error_Inr intro: ready_existing_decision [OF o2] ready_existing_decision [OF o3]
        ready_existing_decision [OF o4] ready_intent_transaction [OF o2]
        split: option.splits sum.splits if_splits intent_commit.splits)
qed

lemma ready_begin_intent:
  assumes "tool_ok db" and "\<And>n j d. tool_safe d (interf n j d)" and "starts d"
    and "begin_intent interf fault sha now eid resid rid w c call tool hash red pol ek lease db = (Inr d, db')"
  shows "ready_to_execute now w c d db'"
proof -
  have "ready_to_execute now w c d db'"
    if "begin_intent_from n interf fault sha now eid resid rid w c call tool hash red pol ek lease x = (Inr d, db')"
      "tool_ok x" for n x
    using that
  proof (induction n arbitrary: x)
    case 0
    then show ?case using ready_begin_attempt [OF _ _ assms(3), of x "interf 0"] assms(2) by (auto split: sum.splits)
  next
    case (Suc n)
    have "tool_ok y" if "begin_attempt (interf (Suc n)) (fault (Suc n)) sha now (eid (Suc n)) (resid (Suc n)) rid w c
        call tool hash red pol ek lease x = Inr y" for y
      using tool_safeD(1) [OF tool_safe_begin_attempt [of "interf (Suc n)" x "fault (Suc n)" sha now
          "eid (Suc n)" "resid (Suc n)" rid w c call tool hash red pol ek lease, OF assms(2)] Suc.prems(2)] that by simp
    then show ?case
      using Suc ready_begin_attempt [OF Suc.prems(2) _ assms(3), of "interf (Suc n)"] assms(2)
      by (auto split: sum.splits)
  qed
  with assms(1,4) show ?thesis unfolding begin_intent_def by blast
qed

text \<open>
  No tool runs before its intent is durable. When \<open>begin_intent\<close> answers "execute" or "reconcile",
  whatever others committed between its transactions and whichever commits failed, then the committed
  database holds the intent it names, without an outcome, and the caller holds the effect's claim,
  which has not run out.
\<close>

theorem execution_follows_intent:
  assumes "tool_ok db" and "\<And>n j d. tool_safe d (interf n j d)" and "starts d"
    and "begin_intent interf fault sha now eid resid rid w c call tool hash red pol ek lease db = (Inr d, db')"
  shows "ready_to_execute now w c d db'"
  by (rule ready_begin_intent [OF assms])

theorem execution_follows_intent_witness:
  "\<exists>d db'. begin_intent (\<lambda>_ _ x. x) (\<lambda>_. False) (\<lambda>s. s) 1000000 (\<lambda>_. ''e1'') (\<lambda>_. ''x1'') ''r1'' ''w1'' ''tool:a''
       ''call'' ''bash'' ''h'' [] Never_replay None 60 sample_tool_db = (Inr d, db')
     \<and> id_action d = Act_execute \<and> ready_to_execute 1000000 ''w1'' ''tool:a'' d db'"
proof -
  define r where "r = begin_intent (\<lambda>_ _ x. x) (\<lambda>_. False) (\<lambda>s. s) 1000000 (\<lambda>_. ''e1'') (\<lambda>_. ''x1'') ''r1'' ''w1'' ''tool:a''
       ''call'' ''bash'' ''h'' [] Never_replay None 60 sample_tool_db"
  have "(case fst r of Inl _ \<Rightarrow> False | Inr d \<Rightarrow> id_action d = Act_execute)" unfolding r_def by code_simp
  then obtain d where d: "fst r = Inr d" "id_action d = Act_execute" by (cases "fst r") auto
  then have r: "r = (Inr d, snd r)" by (metis prod.collapse)
  have "ready_to_execute 1000000 ''w1'' ''tool:a'' d (snd r)"
    unfolding r_def
    by (rule execution_follows_intent [OF sample_tool_ok _ _ r [unfolded r_def]]) (simp_all add: starts_def d)
  with d r show ?thesis unfolding r_def [symmetric] by blast
qed

text \<open>
  A key is never reused for another call. When the key that a call resolves to names an intent of
  another tool or with other arguments, or an intent whose run belongs to another user, \<open>begin_intent\<close>
  answers with the idempotency conflict, whatever others commit in between, and commits nothing itself.
\<close>

theorem reused_key_conflicts:
  assumes "tool_ok db" and "find_run rid db = Some run"
    and "resolved_idempotency_key sha rid (run_user_id run) tool call ek = Inr key"
    and "keyed_row key db = Some i" and "find_run (te_run_id i) db = Some orig"
    and "te_tool_name i \<noteq> tool \<or> te_args_hash i \<noteq> hash \<or> run_user_id orig \<noteq> run_user_id run"
    and "\<And>n j d. tool_safe d (interf n j d)"
  shows "\<exists>d. begin_intent interf fault sha now eid resid rid w c call tool hash red pol ek lease db =
     (Inl ToolIdempotencyConflict, d) \<and> d = interf 4 2 (interf 4 1 (interf 4 0 db))"
proof -
  define d0 where "d0 = interf 4 0 db"
  define d1 where "d1 = interf 4 1 d0"
  define d2 where "d2 = interf 4 2 d1"
  have s0: "tool_safe db d0" unfolding d0_def by (rule assms(7))
  have s1: "tool_safe db d1" unfolding d1_def by (rule tool_safe_trans [OF s0 assms(7)])
  have s2: "tool_safe db d2" unfolding d2_def by (rule tool_safe_trans [OF s1 assms(7)])
  have users: "\<exists>r'. find_run x d = Some r' \<and> run_user_id r' = run_user_id r"
    if "tool_safe db d" "find_run x db = Some r" for d x r
    using tool_safeD(2) [OF that(1) assms(1)] db_leD [of db d x r] that(2)
    by (auto simp: tool_le_def run_le_def slot_safe_def)
  note k1 = keyed_row_mono [OF tool_safeD(2) [OF s1 assms(1)] assms(4)]
  note k2 = keyed_row_mono [OF tool_safeD(2) [OF s2 assms(1)] assms(4)]
  have "existing_decision now key rid w c tool hash lease d2 = (Inl ToolIdempotencyConflict, d2)"
    using k2 users [OF s2 assms(2)] users [OF s2 assms(5)] assms(6)
    by (auto simp: existing_decision_def Let_def)
  moreover obtain run0 where "find_run rid d0 = Some run0" "run_user_id run0 = run_user_id run"
    using users [OF s0 assms(2)] by blast
  ultimately have "begin_attempt (interf 4) (fault 4) sha now (eid 4) (resid 4) rid w c call tool hash red pol ek lease db =
      Inl (Inl ToolIdempotencyConflict, d2)"
    unfolding begin_attempt_def Let_def d0_def [symmetric] d1_def [symmetric] d2_def [symmetric]
    using assms(3) k1 by (simp add: as_commit_error_def)
  moreover have "(4::nat) = Suc 3" by simp
  ultimately show ?thesis
    unfolding begin_intent_def d2_def d1_def d0_def by (metis begin_intent_from.simps(2) sum.case(1))
qed

theorem reused_key_conflicts_witness:
  "fst (begin_intent (\<lambda>_ _ x. x) (\<lambda>_. False) (\<lambda>s. s) 1700000 (\<lambda>_. ''e2'') (\<lambda>_. ''x2'') ''r1'' ''w1'' ''tool:b''
       ''call'' ''bash'' ''other'' [] Never_replay (Some ''k'') 60
       (tool_step (Tx_intent False 1000000 ''e1'' ''x1'' ''r1'' ''w1'' ''tool:a'' ''call'' ''bash'' ''h''
          [] (''caller:u1'' @ [CHR 0x00] @ ''k'') Never_replay 60) sample_tool_db)) = Inl ToolIdempotencyConflict"
proof -
  define db where "db = tool_step (Tx_intent False 1000000 ''e1'' ''x1'' ''r1'' ''w1'' ''tool:a'' ''call'' ''bash'' ''h''
          [] (''caller:u1'' @ [CHR 0x00] @ ''k'') Never_replay 60) sample_tool_db"
  have ok: "tool_ok db" unfolding db_def by (intro tools.inv_step sample_tool_ok) simp_all
  have "map_option run_user_id (find_run ''r1'' db) = Some ''u1''" unfolding db_def by code_simp
  then obtain run where run: "find_run ''r1'' db = Some run" "run_user_id run = ''u1''" by blast
  have "map_option (\<lambda>i. (te_run_id i, te_args_hash i)) (keyed_row (''caller:u1'' @ [CHR 0x00] @ ''k'') db) = Some (''r1'', ''h'')"
    unfolding db_def by code_simp
  then obtain i where i: "keyed_row (''caller:u1'' @ [CHR 0x00] @ ''k'') db = Some i" "te_run_id i = ''r1''" "te_args_hash i = ''h''"
    by blast
  have key: "resolved_idempotency_key (\<lambda>s. s) ''r1'' (run_user_id run) ''bash'' ''call'' (Some ''k'') =
      Inr (''caller:u1'' @ [CHR 0x00] @ ''k'')"
    by (simp add: run resolved_idempotency_key_def str_or_def)
  have "find_run (te_run_id i) db = Some run" using run i by simp
  from reused_key_conflicts [OF ok run(1) key i(1) this, of "''other''" "\<lambda>_ _ x. x" "\<lambda>_. False" 1700000 "\<lambda>_. ''e2''"
      "\<lambda>_. ''x2''" "''w1''" "''tool:b''" "[]" Never_replay 60] i(3)
  show ?thesis unfolding db_def by simp
qed

end
