(* ===== verification/Tool_Gateway.thy ===== *)
theory Tool_Gateway
  imports Tool_Effects
begin

text \<open>
  \<open>core/services/tool_effect_ledger.py\<close>, the execution half: the registry of recovery policies, the
  gateway that every tool call goes through (\<open>ToolEffectGateway.execute_outcome\<close>) and the sweep that
  recovers interrupted effects (\<open>recover_incomplete_tool_effects\<close>).

  The tool itself and the recovery adapters are outside: what a call of them returns or raises, which
  beats of the heartbeat fall into it, what other processes commit meanwhile and which commits fail
  are the fields of an environment record. The gateway's polling loop runs on fuel, \<open>None\<close> meaning
  that it still waits. The lemmas show what the gateway returns is what the ledger holds, that a
  waiting caller returns as soon as the outcome is there, and that the sweep never calls an adapter
  for an effect that must not be replayed, completes, and settles what it reports as settled.
\<close>

section \<open>Exceptions that hide an unknown outcome\<close>

text \<open>
  The exception objects reachable from a raised one, by position: the chain of causes and contexts
  and the members of exception groups may share objects and may be cyclic.
\<close>

record exc_node =
  ex_unknown :: bool
  ex_exceptions :: "nat list option"
  ex_cause :: "nat option"
  ex_context :: "nat option"

definition option_list :: "'a option \<Rightarrow> 'a list" where
  "option_list x = (case x of None \<Rightarrow> [] | Some y \<Rightarrow> [y])"

text \<open>What one round pushes, the top of the stack first.\<close>

definition pushed :: "exc_node \<Rightarrow> nat list" where
  "pushed e = option_list (ex_context e) @ option_list (ex_cause e)
     @ rev (case ex_exceptions e of None \<Rightarrow> [] | Some xs \<Rightarrow> xs)"

function outcome_unknown_loop :: "exc_node list \<Rightarrow> nat list \<Rightarrow> nat set \<Rightarrow> nat option" where
  "outcome_unknown_loop store [] seen = None"
| "outcome_unknown_loop store (current # pending) seen =
     (if current \<in> seen then outcome_unknown_loop store pending seen
      else if length store \<le> current then outcome_unknown_loop store pending (insert current seen)
      else if ex_unknown (store ! current) then Some current
      else outcome_unknown_loop store (pushed (store ! current) @ pending) (insert current seen))"
  by pat_completeness auto
termination
proof (relation "measures [\<lambda>(store, pending, seen). card ({..<length store} - seen),
         \<lambda>(store, pending, seen). length pending]")
  show "((store, pushed (store ! current) @ pending, insert current seen), store, current # pending, seen)
      \<in> measures [\<lambda>(store, pending, seen). card ({..<length store} - seen),
           \<lambda>(store, pending, seen). length pending]"
    if "current \<notin> seen" "\<not> length store \<le> current" for store :: "exc_node list" and pending seen current
  proof (rule measures_less)
    have "current \<in> {..<length store} - seen" "current \<notin> {..<length store} - insert current seen"
      "{..<length store} - insert current seen \<subseteq> {..<length store} - seen"
      using that by auto
    then have "{..<length store} - insert current seen \<subset> {..<length store} - seen" by blast
    from psubset_card_mono [OF _ this]
    show "(case (store, pushed (store ! current) @ pending, insert current seen) of
             (store, pending, seen) \<Rightarrow> card ({..<length store} - seen)) <
          (case (store, current # pending, seen) of (store, pending, seen) \<Rightarrow> card ({..<length store} - seen))"
      unfolding prod.case by blast
  qed
  show "((store, pending, insert current seen), store, current # pending, seen)
      \<in> measures [\<lambda>(store, pending, seen). card ({..<length store} - seen),
           \<lambda>(store, pending, seen). length pending]"
    if "length store \<le> current" for store :: "exc_node list" and pending seen current
  proof -
    have "{..<length store} - insert current seen = {..<length store} - seen" using that by auto
    then show ?thesis by simp
  qed
qed auto

definition find_tool_outcome_unknown :: "exc_node list \<Rightarrow> nat \<Rightarrow> nat option" where
  "find_tool_outcome_unknown store exc = outcome_unknown_loop store [exc] {}"

text \<open>
  The specification speaks of the exceptions only: a cause, a context or a member of a group of a linked exception is linked.
\<close>

inductive linked :: "exc_node list \<Rightarrow> nat \<Rightarrow> nat \<Rightarrow> bool" for store x where
  itself: "linked store x x"
| cause_of: "linked store x y \<Longrightarrow> y < length store \<Longrightarrow> ex_cause (store ! y) = Some z \<Longrightarrow> linked store x z"
| context_of: "linked store x y \<Longrightarrow> y < length store \<Longrightarrow> ex_context (store ! y) = Some z \<Longrightarrow> linked store x z"
| member_of: "linked store x y \<Longrightarrow> y < length store \<Longrightarrow> ex_exceptions (store ! y) = Some zs \<Longrightarrow> z \<in> set zs \<Longrightarrow> linked store x z"

lemma set_pushed:
  "z \<in> set (pushed e) \<longleftrightarrow> ex_cause e = Some z \<or> ex_context e = Some z \<or> (\<exists>zs. ex_exceptions e = Some zs \<and> z \<in> set zs)"
  by (auto simp: pushed_def option_list_def split: option.splits)

lemma linked_pushed: "linked store x y \<Longrightarrow> y < length store \<Longrightarrow> z \<in> set (pushed (store ! y)) \<Longrightarrow> linked store x z"
  unfolding set_pushed using linked.intros(2-4) by blast

definition hides_unknown :: "exc_node list \<Rightarrow> nat \<Rightarrow> bool" where
  "hides_unknown store x \<longleftrightarrow> x < length store \<and> ex_unknown (store ! x)"

text \<open>What has been seen is not an unknown outcome, and all it points to is seen or pending.\<close>

definition searched :: "exc_node list \<Rightarrow> nat set \<Rightarrow> nat set \<Rightarrow> bool" where
  "searched store seen pending \<longleftrightarrow>
     (\<forall>y\<in>seen. \<not> hides_unknown store y \<and> (y < length store \<longrightarrow> set (pushed (store ! y)) \<subseteq> seen \<union> pending))"

lemma outcome_unknown_loop_Some:
  "outcome_unknown_loop store pending seen = Some x \<Longrightarrow> \<forall>y\<in>set pending. linked store r y \<Longrightarrow>
     linked store r x \<and> hides_unknown store x"
proof (induction store pending seen rule: outcome_unknown_loop.induct)
  case (2 store current pending seen)
  have "linked store r y" if "y \<in> set (pushed (store ! current))" "current < length store" for y
    using that 2(5) linked_pushed by auto
  then show ?case
    using 2 by (auto simp: hides_unknown_def not_le split: if_splits)
qed simp

lemma outcome_unknown_loop_None:
  "outcome_unknown_loop store pending seen = None \<Longrightarrow> searched store seen (set pending) \<Longrightarrow>
     \<exists>S. set pending \<union> seen \<subseteq> S \<and> searched store S {}"
proof (induction store pending seen rule: outcome_unknown_loop.induct)
  case (1 store seen)
  then show ?case by auto
next
  case (2 store current pending seen)
  consider (seen) "current \<in> seen" | (dangling) "current \<notin> seen" "length store \<le> current"
    | (node) "current \<notin> seen" "\<not> length store \<le> current" by blast
  then show ?case
  proof cases
    case seen
    then have "searched store seen (set pending)" using 2(5) by (fastforce simp: searched_def)
    with 2(1) [OF seen] 2(4) seen obtain S where "set pending \<union> seen \<subseteq> S" "searched store S {}" by auto
    with seen show ?thesis by auto
  next
    case dangling
    then have "searched store (insert current seen) (set pending)"
      using 2(5) by (fastforce simp: searched_def hides_unknown_def)
    with 2(2) [OF dangling] 2(4) dangling obtain S where "set pending \<union> insert current seen \<subseteq> S" "searched store S {}"
      by auto
    then show ?thesis by auto
  next
    case node
    then have known: "\<not> ex_unknown (store ! current)" using 2(4) by auto
    have "searched store (insert current seen) (set (pushed (store ! current) @ pending))"
      using 2(5) node known by (fastforce simp: searched_def hides_unknown_def)
    with 2(3) [OF node known] 2(4) node known
    obtain S where "set (pushed (store ! current) @ pending) \<union> insert current seen \<subseteq> S" "searched store S {}"
      by auto
    then show ?thesis by auto
  qed
qed

text \<open>
  C28. \<open>find_tool_outcome_unknown\<close> returns for every exception, also when its causes, contexts and
  groups form cycles; it finds an exception \<open>ToolOutcomeUnknown\<close> exactly when one can be reached from the
  raised exception through causes, contexts and members of groups, and what it returns is such an
  exception.
\<close>

theorem find_tool_outcome_unknown_correct:
  "(case find_tool_outcome_unknown store exc of
      Some x \<Rightarrow> linked store exc x \<and> hides_unknown store x
    | None \<Rightarrow> (\<nexists>x. linked store exc x \<and> hides_unknown store x))"
proof (cases "find_tool_outcome_unknown store exc")
  case None
  then obtain S where S: "exc \<in> S" "searched store S {}"
    using outcome_unknown_loop_None [of store "[exc]" "{}"] by (auto simp: find_tool_outcome_unknown_def searched_def)
  have closed: "z \<in> S" if "y \<in> S" "y < length store" "z \<in> set (pushed (store ! y))" for y z
    using S(2) that by (auto simp: searched_def)
  have "x \<in> S" if "linked store exc x" for x
    using that by induction (use S(1) closed set_pushed in \<open>blast+\<close>)
  with S(2) None show ?thesis by (auto simp: searched_def)
next
  case (Some x)
  then show ?thesis
    using outcome_unknown_loop_Some [of store "[exc]" "{}" x exc]
    by (simp add: find_tool_outcome_unknown_def linked.itself)
qed

section \<open>Recovery policies\<close>

record reconciliation_result =
  rr_outcome :: string
  rr_result :: json

record 'a tool_policy =
  tp_policy :: recovery_policy_kind
  tp_replayer :: "'a option"
  tp_reconciler :: "'a option"

type_synonym 'a recovery_registry = "string \<rightharpoonup> 'a tool_policy"

fun policy_of_name :: "string \<Rightarrow> recovery_policy_kind option" where
  "policy_of_name name =
     (if name = ''replay_safe'' then Some Replay_safe
      else if name = ''reconcile'' then Some Reconcile
      else if name = ''never_replay'' then Some Never_replay
      else None)"

definition register ::
  "string \<Rightarrow> string \<Rightarrow> 'a option \<Rightarrow> 'a option \<Rightarrow> 'a recovery_registry \<Rightarrow> tool_error + 'a recovery_registry" where
  "register tool_name policy replayer reconciler reg =
     (case policy_of_name policy of
        None \<Rightarrow> Inl Tool_ValueError
      | Some p \<Rightarrow>
          if p = Replay_safe \<and> reconciler \<noteq> None then Inl Tool_ValueError
          else if p = Never_replay \<and> (replayer \<noteq> None \<or> reconciler \<noteq> None) then Inl Tool_ValueError
          else Inr (reg(tool_name \<mapsto> \<lparr>tp_policy = p, tp_replayer = replayer, tp_reconciler = reconciler\<rparr>)))"

definition resolve :: "'a recovery_registry \<Rightarrow> string \<Rightarrow> 'a tool_policy" where
  "resolve reg tool_name =
     (case reg tool_name of
        None \<Rightarrow> \<lparr>tp_policy = Never_replay, tp_replayer = None, tp_reconciler = None\<rparr>
      | Some p \<Rightarrow> p)"

fun register_all ::
  "string list \<Rightarrow> string \<Rightarrow> 'a option \<Rightarrow> 'a option \<Rightarrow> 'a recovery_registry \<Rightarrow> tool_error + 'a recovery_registry" where
  "register_all [] policy replayer reconciler reg = Inr reg"
| "register_all (name # names) policy replayer reconciler reg =
     (case register name policy replayer reconciler reg of
        Inl e \<Rightarrow> Inl e
      | Inr reg' \<Rightarrow> register_all names policy replayer reconciler reg')"

definition replay_safe_tools :: "string list" where
  "replay_safe_tools =
     [''Read'', ''read_project_instructions'', ''list_sites'', ''site_kv_list'', ''site_kv_get'', ''Glob'', ''Grep'',
      ''view_text_file'', ''get_data_context'', ''read_image'', ''read_artifact'', ''list_myspace_files'',
      ''stage_myspace_file'', ''list_favorite_chats'', ''get_chat_messages'', ''channel_read_attachment'',
      ''sandbox_get_artifact'']"

definition never_replay_tools :: "string list" where
  "never_replay_tools =
     [''Write'', ''save_project_instructions'', ''Edit'', ''Delete'', ''Move'', ''CreateFolder'', ''bash'', ''Bash'',
      ''sandbox_put_artifact'', ''pin_to_workspace'', ''run_job'', ''choose_design'', ''call_subagent'',
      ''update_plan'', ''load_plugin'']"

definition reconcile_tools :: "string list" where
  "reconcile_tools = [''create_scheduled_task'', ''update_scheduled_task'', ''delete_scheduled_task'']"

definition build_default_tool_recovery_registry :: "'a \<Rightarrow> 'a \<Rightarrow> tool_error + 'a recovery_registry" where
  "build_default_tool_recovery_registry default_replayer scheduled_task_reconciler =
     (case register_all replay_safe_tools ''replay_safe'' (Some default_replayer) None Map.empty of
        Inl e \<Rightarrow> Inl e
      | Inr reg1 \<Rightarrow>
          (case register_all never_replay_tools ''never_replay'' None None reg1 of
             Inl e \<Rightarrow> Inl e
           | Inr reg2 \<Rightarrow>
               register_all reconcile_tools ''reconcile'' (Some default_replayer)
                 (Some scheduled_task_reconciler) reg2))"

section \<open>The gateway\<close>

text \<open>What a call of a tool or of an adapter did.\<close>

datatype 'v call_result =
    Returns 'v
  | Raises
  | Raises_unknown string
  | Call_cancelled

datatype adapter_value =
    Av_reconciliation reconciliation_result
  | Av_value json

definition reconciliation :: "adapter_value \<Rightarrow> reconciliation_result" where
  "reconciliation v =
     (case v of
        Av_reconciliation r \<Rightarrow> r
      | Av_value x \<Rightarrow> if x \<noteq> JNull then \<lparr>rr_outcome = ''applied'', rr_result = x\<rparr>
                      else \<lparr>rr_outcome = ''unknown'', rr_result = JNull\<rparr>)"

definition call_handler ::
  "('a \<Rightarrow> tool_intent \<Rightarrow> 'v call_result) \<Rightarrow> 'v \<Rightarrow> 'a option \<Rightarrow> tool_intent \<Rightarrow> 'v call_result" where
  "call_handler adapters none handler intent =
     (case handler of None \<Rightarrow> Returns none | Some h \<Rightarrow> adapters h intent)"

text \<open>
  One call as the database sees it: the beats of the heartbeat with what others commit before and
  within each, then what they commit until the call ends. The first beat that cannot renew the claim
  sets the lost flag and ends the heartbeat.
\<close>

record 'd call_span =
  cs_beats :: "(('d \<Rightarrow> 'd) \<times> ('d \<Rightarrow> 'd) \<times> time) list"
  cs_rest :: "'d \<Rightarrow> 'd"

fun beat ::
  "(('z tool_db_scheme \<Rightarrow> 'z tool_db_scheme) \<times> ('z tool_db_scheme \<Rightarrow> 'z tool_db_scheme) \<times> time) list \<Rightarrow>
   string \<Rightarrow> string \<Rightarrow> string \<Rightarrow> int \<Rightarrow> 'z tool_db_scheme \<Rightarrow> bool \<times> 'z tool_db_scheme" where
  "beat [] eid run_owner claim_owner lease_seconds db = (False, db)"
| "beat ((before, within, now) # beats) eid run_owner claim_owner lease_seconds db =
     (case renew_invocation_claim within now eid run_owner claim_owner lease_seconds (before db) of
        (Inr True, db1) \<Rightarrow> beat beats eid run_owner claim_owner lease_seconds db1
      | (_, db1) \<Rightarrow> (True, db1))"

definition call_span_run ::
  "'z tool_db_scheme call_span \<Rightarrow> string \<Rightarrow> string \<Rightarrow> string \<Rightarrow> int \<Rightarrow> 'z tool_db_scheme \<Rightarrow>
   bool \<times> 'z tool_db_scheme" where
  "call_span_run span eid run_owner claim_owner lease_seconds db =
     (let (lost, db1) = beat (cs_beats span) eid run_owner claim_owner lease_seconds db
      in (lost, cs_rest span db1))"

record tool_execution_outcome =
  teo_result :: json
  teo_effect_id :: string
  teo_result_id :: string
  teo_result_state :: string
  teo_invoked :: bool

datatype gateway_result =
    Gateway_returns tool_execution_outcome
  | Gateway_raises tool_error
  | Gateway_cancelled

record 'd gateway_env =
  ge_now :: time
  ge_begin :: "nat \<Rightarrow> nat \<Rightarrow> 'd \<Rightarrow> 'd"
  ge_begin_fault :: "nat \<Rightarrow> bool"
  ge_effect_id :: "nat \<Rightarrow> string"
  ge_result_id :: "nat \<Rightarrow> string"
  ge_poll :: "'d \<Rightarrow> 'd"
  ge_acquire :: "'d \<Rightarrow> 'd"
  ge_acquire_now :: time
  ge_reconciling :: "'d call_span"
  ge_invoking :: "'d call_span"
  ge_invoke :: "json call_result"
  ge_commit :: "nat \<Rightarrow> 'd \<Rightarrow> 'd"
  ge_commit_fault :: "nat \<Rightarrow> bool"
  ge_commit_cancelled :: bool
  ge_end :: time
  ge_abandon :: "'d \<Rightarrow> 'd"
  ge_abandon_fault :: bool

definition outcome_of :: "tool_intent \<Rightarrow> json \<Rightarrow> string \<Rightarrow> bool \<Rightarrow> gateway_result" where
  "outcome_of intent result state invoked =
     Gateway_returns \<lparr>teo_result = result, teo_effect_id = ti_effect_id intent, teo_result_id = ti_result_id intent,
                      teo_result_state = state, teo_invoked = invoked\<rparr>"

text \<open>
  The handlers of the \<open>try\<close>: abandon the claim, then raise. A cancellation that arrives while a commit is
  under way in its thread does not stop the commit.
\<close>

definition abandon ::
  "'z tool_db_scheme gateway_env \<Rightarrow> string \<Rightarrow> string \<Rightarrow> string \<Rightarrow> 'z tool_db_scheme \<Rightarrow> 'z tool_db_scheme" where
  "abandon env eid run_owner claim_owner db =
     (let db1 = ge_abandon env db
      in if ge_abandon_fault env then db1
         else abandon_invocation_claim (ge_end env) eid run_owner claim_owner db1)"

definition except_handler ::
  "'z tool_db_scheme gateway_env \<Rightarrow> string \<Rightarrow> string \<Rightarrow> string \<Rightarrow> tool_error \<Rightarrow> 'z tool_db_scheme \<Rightarrow>
   gateway_result \<times> 'z tool_db_scheme" where
  "except_handler env eid run_owner claim_owner err db =
     (Gateway_raises (case err of ToolOutcomeUnknown x \<Rightarrow> ToolOutcomeUnknown x | _ \<Rightarrow> ToolOutcomeUnknown eid),
      abandon env eid run_owner claim_owner db)"

definition commit_and_return ::
  "'z tool_db_scheme gateway_env \<Rightarrow> (json \<Rightarrow> string) \<Rightarrow> string \<Rightarrow> string \<Rightarrow> tool_intent \<Rightarrow> json \<Rightarrow> bool \<Rightarrow> bool \<Rightarrow>
   bool \<Rightarrow> 'z tool_db_scheme \<Rightarrow> gateway_result \<times> 'z tool_db_scheme" where
  "commit_and_return env str_of run_owner claim_owner intent result failed reconciled invoked db =
     (let eid = ti_effect_id intent;
          (committed, db1) = commit_result (ge_commit env) (ge_commit_fault env) str_of (ge_end env) eid run_owner
             claim_owner result failed reconciled db
      in if ge_commit_cancelled env then (Gateway_cancelled, abandon env eid run_owner claim_owner db1)
         else case committed of
                Inr v \<Rightarrow> (outcome_of intent v (if failed then ''error'' else ''success'') invoked, db1)
              | Inl e \<Rightarrow> except_handler env eid run_owner claim_owner e db1)"

text \<open>
  \<open>mark_unknown\<close> followed by the raise of \<open>ToolOutcomeUnknown\<close>: when marking fails, the failure is
  turned into the same exception.
\<close>

definition mark_and_raise ::
  "'z tool_db_scheme gateway_env \<Rightarrow> string \<Rightarrow> string \<Rightarrow> string \<Rightarrow> string \<Rightarrow> 'z tool_db_scheme \<Rightarrow>
   gateway_result \<times> 'z tool_db_scheme" where
  "mark_and_raise env eid run_owner claim_owner reason db =
     except_handler env eid run_owner claim_owner (ToolOutcomeUnknown eid)
       (snd (mark_unknown (ge_end env) eid run_owner claim_owner reason db))"

text \<open>The reconciliation: \<open>Inl\<close> ends the call, \<open>Inr\<close> goes on to the tool.\<close>

definition reconcile_first ::
  "'z tool_db_scheme gateway_env \<Rightarrow> ('a \<Rightarrow> tool_intent \<Rightarrow> adapter_value call_result) \<Rightarrow> (json \<Rightarrow> string) \<Rightarrow>
   'a tool_policy \<Rightarrow> string \<Rightarrow> string \<Rightarrow> int \<Rightarrow> tool_intent \<Rightarrow> 'z tool_db_scheme \<Rightarrow>
   (gateway_result \<times> 'z tool_db_scheme) + 'z tool_db_scheme" where
  "reconcile_first env adapters str_of policy run_owner claim_owner lease_seconds intent db =
     (let eid = ti_effect_id intent
      in if tp_reconciler policy = None
         then Inl (mark_and_raise env eid run_owner claim_owner ''reconcile policy has no reconciliation adapter'' db)
         else
           let (lost, db1) = call_span_run (ge_reconciling env) eid run_owner claim_owner lease_seconds db
           in case call_handler adapters (Av_value JNull) (tp_reconciler policy) intent of
                Call_cancelled \<Rightarrow> Inl (Gateway_cancelled, abandon env eid run_owner claim_owner db1)
              | Raises \<Rightarrow> Inl (except_handler env eid run_owner claim_owner ToolEffectError db1)
              | Raises_unknown x \<Rightarrow> Inl (except_handler env eid run_owner claim_owner (ToolOutcomeUnknown x) db1)
              | Returns v \<Rightarrow>
                  if lost then Inl (except_handler env eid run_owner claim_owner (ToolEffectLeaseLost eid) db1)
                  else if rr_outcome (reconciliation v) = ''applied''
                  then Inl (commit_and_return env str_of run_owner claim_owner intent (rr_result (reconciliation v))
                              False True False db1)
                  else if rr_outcome (reconciliation v) \<noteq> ''not_applied''
                  then Inl (mark_and_raise env eid run_owner claim_owner
                              ''reconciliation could not determine external outcome'' db1)
                  else Inr db1)"

definition invoke_tool ::
  "'z tool_db_scheme gateway_env \<Rightarrow> (json \<Rightarrow> string) \<Rightarrow> (json \<Rightarrow> bool) option \<Rightarrow> string \<Rightarrow> string \<Rightarrow> int \<Rightarrow>
   tool_intent \<Rightarrow> 'z tool_db_scheme \<Rightarrow> gateway_result \<times> 'z tool_db_scheme" where
  "invoke_tool env str_of classify_failure run_owner claim_owner lease_seconds intent db =
     (let eid = ti_effect_id intent;
          (lost, db1) = call_span_run (ge_invoking env) eid run_owner claim_owner lease_seconds db
      in case ge_invoke env of
           Call_cancelled \<Rightarrow> (Gateway_cancelled, abandon env eid run_owner claim_owner db1)
         | Raises \<Rightarrow> except_handler env eid run_owner claim_owner ToolEffectError db1
         | Raises_unknown x \<Rightarrow> except_handler env eid run_owner claim_owner (ToolOutcomeUnknown x) db1
         | Returns v \<Rightarrow>
             if lost then except_handler env eid run_owner claim_owner (ToolEffectLeaseLost eid) db1
             else commit_and_return env str_of run_owner claim_owner intent v
                    (case classify_failure of None \<Rightarrow> False | Some f \<Rightarrow> f v) False True db1)"

text \<open>
  After the answer "execute" or "reconcile". The list holds the effect of every call of the tool itself.
\<close>

definition execute_decision ::
  "'z tool_db_scheme gateway_env \<Rightarrow> ('a \<Rightarrow> tool_intent \<Rightarrow> adapter_value call_result) \<Rightarrow> (json \<Rightarrow> string) \<Rightarrow>
   (json \<Rightarrow> bool) option \<Rightarrow> 'a tool_policy \<Rightarrow> string \<Rightarrow> string \<Rightarrow> int \<Rightarrow> intent_decision \<Rightarrow> 'z tool_db_scheme \<Rightarrow>
   gateway_result \<times> string list \<times> 'z tool_db_scheme" where
  "execute_decision env adapters str_of classify_failure policy run_owner claim_owner lease_seconds decision db =
     (let intent = id_intent decision; eid = ti_effect_id intent;
          invoked = (\<lambda>d. case invoke_tool env str_of classify_failure run_owner claim_owner lease_seconds intent d of
                           (r, d') \<Rightarrow> (r, [eid], d'))
      in case acquire_invocation_claim (ge_acquire_now env) eid run_owner claim_owner lease_seconds
                (ge_acquire env db) of
           (Inl e, db1) \<Rightarrow> (Gateway_raises e, [], db1)
         | (Inr _, db1) \<Rightarrow>
             if id_action decision = Act_reconcile
             then (case reconcile_first env adapters str_of policy run_owner claim_owner lease_seconds intent db1 of
                     Inl (r, db2) \<Rightarrow> (r, [], db2)
                   | Inr db2 \<Rightarrow> invoked db2)
             else invoked db1)"

definition from_decision :: "string \<Rightarrow> intent_decision \<Rightarrow> gateway_result" where
  "from_decision eid d =
     (if id_action d = Act_unknown then Gateway_raises (ToolOutcomeUnknown eid)
      else outcome_of (id_intent d) (id_result d) (id_result_state d) False)"

text \<open>One round of the loop: \<open>Inr\<close> polls again.\<close>

definition gateway_round ::
  "'z tool_db_scheme gateway_env \<Rightarrow> ('a \<Rightarrow> tool_intent \<Rightarrow> adapter_value call_result) \<Rightarrow> (json \<Rightarrow> string) \<Rightarrow>
   (string \<Rightarrow> string) \<Rightarrow> (json \<Rightarrow> bool) option \<Rightarrow> 'a tool_policy \<Rightarrow> int \<Rightarrow> string \<Rightarrow> string \<Rightarrow> string \<Rightarrow> string \<Rightarrow>
   string \<Rightarrow> string \<Rightarrow> dict \<Rightarrow> string option \<Rightarrow> 'z tool_db_scheme \<Rightarrow>
   (gateway_result \<times> string list \<times> 'z tool_db_scheme) + 'z tool_db_scheme" where
  "gateway_round env adapters str_of sha256 classify_failure policy lease_seconds rid owner claim_owner tool_call_id
      tool_name args_hash redacted idempotency_key db =
     (case begin_intent (ge_begin env) (ge_begin_fault env) sha256 (ge_now env) (ge_effect_id env) (ge_result_id env)
             rid owner claim_owner tool_call_id tool_name args_hash redacted (tp_policy policy) idempotency_key
             lease_seconds db of
        (Inl e, db1) \<Rightarrow> Inl (Gateway_raises e, [], db1)
      | (Inr d, db1) \<Rightarrow>
          (case id_action d of
             Act_known \<Rightarrow> Inl (from_decision (ti_effect_id (id_intent d)) d, [], db1)
           | Act_unknown \<Rightarrow> Inl (from_decision (ti_effect_id (id_intent d)) d, [], db1)
           | Act_wait \<Rightarrow>
               (case terminal_decision (ti_effect_id (id_intent d)) (ge_poll env db1) of
                  None \<Rightarrow> Inr (ge_poll env db1)
                | Some t \<Rightarrow> Inl (from_decision (ti_effect_id (id_intent d)) t, [], ge_poll env db1))
           | _ \<Rightarrow> Inl (execute_decision env adapters str_of classify_failure policy owner claim_owner lease_seconds
                         d db1)))"

fun execute_outcome_from ::
  "nat \<Rightarrow> nat \<Rightarrow> (nat \<Rightarrow> 'z tool_db_scheme gateway_env) \<Rightarrow> ('a \<Rightarrow> tool_intent \<Rightarrow> adapter_value call_result) \<Rightarrow>
   (json \<Rightarrow> string) \<Rightarrow> (string \<Rightarrow> string) \<Rightarrow> (json \<Rightarrow> bool) option \<Rightarrow> 'a tool_policy \<Rightarrow> int \<Rightarrow> string \<Rightarrow> string \<Rightarrow>
   string \<Rightarrow> string \<Rightarrow> string \<Rightarrow> string \<Rightarrow> dict \<Rightarrow> string option \<Rightarrow> 'z tool_db_scheme \<Rightarrow>
   (gateway_result \<times> string list \<times> 'z tool_db_scheme) option" where
  "execute_outcome_from 0 k env adapters str_of sha256 classify policy lease rid owner claim_owner call tool hash red key db =
     None"
| "execute_outcome_from (Suc fuel) k env adapters str_of sha256 classify policy lease rid owner claim_owner call tool hash
      red key db =
     (case gateway_round (env k) adapters str_of sha256 classify policy lease rid owner claim_owner call tool hash red key
             db of
        Inl r \<Rightarrow> Some r
      | Inr db' \<Rightarrow> execute_outcome_from fuel (Suc k) env adapters str_of sha256 classify policy lease rid owner claim_owner
                     call tool hash red key db')"

definition execute_outcome ::
  "nat \<Rightarrow> (nat \<Rightarrow> 'z tool_db_scheme gateway_env) \<Rightarrow> ('a \<Rightarrow> tool_intent \<Rightarrow> adapter_value call_result) \<Rightarrow>
   (json \<Rightarrow> string) \<Rightarrow> (string \<Rightarrow> string) \<Rightarrow> (json \<Rightarrow> bool) option \<Rightarrow> 'a recovery_registry \<Rightarrow> int \<Rightarrow> string \<Rightarrow> string \<Rightarrow>
   string \<Rightarrow> string \<Rightarrow> string \<Rightarrow> string \<Rightarrow> dict \<Rightarrow> string option \<Rightarrow> 'z tool_db_scheme \<Rightarrow>
   (gateway_result \<times> string list \<times> 'z tool_db_scheme) option" where
  "execute_outcome fuel env adapters str_of sha256 classify_failure registry lease_seconds rid owner uuid tool_call_id
      tool_name args_hash redacted idempotency_key db =
     execute_outcome_from fuel 0 env adapters str_of sha256 classify_failure (resolve registry tool_name) lease_seconds
       rid owner (''tool:'' @ uuid) tool_call_id tool_name args_hash redacted idempotency_key db"

definition execute ::
  "(gateway_result \<times> string list \<times> 'z tool_db_scheme) option \<Rightarrow> (tool_error option + json) option" where
  "execute r =
     map_option (\<lambda>(out, _, _). case out of
                    Gateway_returns x \<Rightarrow> Inr (teo_result x)
                  | Gateway_raises e \<Rightarrow> Inl (Some e)
                  | Gateway_cancelled \<Rightarrow> Inl None) r"

section \<open>The recovery sweep\<close>

record recovery_sweep_decision =
  rsd_effect_id :: string
  rsd_run_id :: string
  rsd_action :: string

record 'd sweep_env =
  se_before :: "'d \<Rightarrow> 'd"
  se_settle_now :: time
  se_settle_fault :: bool
  se_claim :: "'d \<Rightarrow> 'd"
  se_claim_now :: time
  se_claim_fault :: bool
  se_uuid :: string
  se_gap :: "'d \<Rightarrow> 'd"
  se_first :: "'d call_span"
  se_second :: "'d call_span"
  se_commit :: "nat \<Rightarrow> 'd \<Rightarrow> 'd"
  se_commit_fault :: "nat \<Rightarrow> bool"
  se_drop_fault :: bool
  se_mark_fault :: bool
  se_end :: time
  se_release :: "'d \<Rightarrow> 'd"
  se_release_fault :: bool

text \<open>How the \<open>try\<close> of one effect ends: with an action to report, an exception, or a cancellation.\<close>

datatype sweep_exit =
    Sweep_action string
  | Sweep_raises
  | Sweep_cancelled

definition sweep_commit ::
  "'z tool_db_scheme sweep_env \<Rightarrow> (json \<Rightarrow> string) \<Rightarrow> string \<Rightarrow> string \<Rightarrow> json \<Rightarrow> string \<Rightarrow> 'z tool_db_scheme \<Rightarrow>
   sweep_exit \<times> 'z tool_db_scheme" where
  "sweep_commit env str_of eid recovery_owner result act db =
     (case commit_recovered_result (se_commit env) (se_commit_fault env) (se_drop_fault env) str_of (se_end env) eid result
             recovery_owner db of
        (Inl _, db1) \<Rightarrow> (Sweep_raises, db1)
      | (Inr _, db1) \<Rightarrow> (Sweep_action act, db1))"

definition sweep_mark_unknown ::
  "'z tool_db_scheme sweep_env \<Rightarrow> string \<Rightarrow> string \<Rightarrow> string \<Rightarrow> 'z tool_db_scheme \<Rightarrow> sweep_exit \<times> 'z tool_db_scheme" where
  "sweep_mark_unknown env eid recovery_owner reason db =
     (if se_mark_fault env then (Sweep_raises, db)
      else case mark_unknown (se_end env) eid recovery_owner recovery_owner reason db of
             (Inl _, db1) \<Rightarrow> (Sweep_raises, db1)
           | (Inr _, db1) \<Rightarrow> (Sweep_action ''needs_attention'', db1))"

text \<open>A call of the replay adapter, then the commit of its result unless the claim was lost.\<close>

definition sweep_replay ::
  "'z tool_db_scheme sweep_env \<Rightarrow> 'z tool_db_scheme call_span \<Rightarrow> json call_result \<Rightarrow> (json \<Rightarrow> string) \<Rightarrow> int \<Rightarrow> string \<Rightarrow>
   string \<Rightarrow> string \<Rightarrow> 'z tool_db_scheme \<Rightarrow> sweep_exit \<times> 'z tool_db_scheme" where
  "sweep_replay env span call str_of lease_seconds eid recovery_owner act db =
     (let (lost, db1) = call_span_run span eid recovery_owner recovery_owner lease_seconds db
      in case call of
           Call_cancelled \<Rightarrow> (Sweep_cancelled, db1)
         | Raises \<Rightarrow> (Sweep_raises, db1)
         | Raises_unknown _ \<Rightarrow> (Sweep_raises, db1)
         | Returns v \<Rightarrow> if lost then (Sweep_raises, db1)
                        else sweep_commit env str_of eid recovery_owner v act db1)"

text \<open>The body of the \<open>try\<close>; the list names the adapter calls by phase.\<close>

definition sweep_reconcile ::
  "'z tool_db_scheme sweep_env \<Rightarrow> ('a \<Rightarrow> tool_intent \<Rightarrow> json call_result) \<Rightarrow>
   ('a \<Rightarrow> tool_intent \<Rightarrow> adapter_value call_result) \<Rightarrow> (json \<Rightarrow> string) \<Rightarrow> 'a tool_policy \<Rightarrow> int \<Rightarrow> string \<Rightarrow>
   tool_intent \<Rightarrow> 'z tool_db_scheme \<Rightarrow> sweep_exit \<times> string list \<times> 'z tool_db_scheme" where
  "sweep_reconcile env replayers reconcilers str_of policy lease_seconds recovery_owner intent db =
     (let eid = ti_effect_id intent
      in if tp_reconciler policy = None then (Sweep_raises, [], db)
         else
           let (lost, db1) = call_span_run (se_first env) eid recovery_owner recovery_owner lease_seconds db
           in case call_handler reconcilers (Av_value JNull) (tp_reconciler policy) intent of
                Call_cancelled \<Rightarrow> (Sweep_cancelled, [''reconcile''], db1)
              | Raises \<Rightarrow> (Sweep_raises, [''reconcile''], db1)
              | Raises_unknown _ \<Rightarrow> (Sweep_raises, [''reconcile''], db1)
              | Returns v \<Rightarrow>
                  if lost then (Sweep_raises, [''reconcile''], db1)
                  else if rr_outcome (reconciliation v) = ''applied''
                  then (case sweep_commit env str_of eid recovery_owner (rr_result (reconciliation v)) ''reconciled''
                               db1 of
                          (x, db2) \<Rightarrow> (x, [''reconcile''], db2))
                  else if rr_outcome (reconciliation v) = ''not_applied'' \<and> tp_replayer policy \<noteq> None
                  then (case sweep_replay env (se_second env)
                               (call_handler replayers JNull (tp_replayer policy) intent) str_of lease_seconds eid
                               recovery_owner ''reconciled'' db1 of
                          (x, db2) \<Rightarrow> (x, [''reconcile'', ''replay_after_reconcile''], db2))
                  else (case sweep_mark_unknown env eid recovery_owner
                               ''reconciliation could not determine external outcome'' db1 of
                          (x, db2) \<Rightarrow> (x, [''reconcile''], db2)))"

definition sweep_body ::
  "'z tool_db_scheme sweep_env \<Rightarrow> ('a \<Rightarrow> tool_intent \<Rightarrow> json call_result) \<Rightarrow>
   ('a \<Rightarrow> tool_intent \<Rightarrow> adapter_value call_result) \<Rightarrow> (json \<Rightarrow> string) \<Rightarrow> 'a tool_policy \<Rightarrow> int \<Rightarrow> string \<Rightarrow>
   tool_intent \<Rightarrow> 'z tool_db_scheme \<Rightarrow> sweep_exit \<times> string list \<times> 'z tool_db_scheme" where
  "sweep_body env replayers reconcilers str_of policy lease_seconds recovery_owner intent db =
     (let eid = ti_effect_id intent
      in case ti_recovery_policy intent of
           Never_replay \<Rightarrow>
             (case sweep_mark_unknown env eid recovery_owner
                     ''non-replayable tool intent has no committed result'' db of
                (x, db1) \<Rightarrow> (x, [], db1))
         | Replay_safe \<Rightarrow>
             if tp_replayer policy = None then (Sweep_raises, [], db)
             else (case sweep_replay env (se_first env) (call_handler replayers JNull (tp_replayer policy) intent)
                          str_of lease_seconds eid recovery_owner ''replayed'' db of
                     (x, db1) \<Rightarrow> (x, [''replay''], db1))
         | Reconcile \<Rightarrow>
             sweep_reconcile env replayers reconcilers str_of policy lease_seconds recovery_owner intent db)"

text \<open>
  The sweep stops when it is cancelled, or when the database fails where nothing catches it: settling and claiming an effect are
  outside the \<open>try\<close>, and of what releasing a claim raises only \<open>ToolEffectError\<close> is caught. A failed transaction is rolled back.
\<close>

datatype sweep_stop =
    Stop_error tool_error
  | Stop_database
  | Stop_cancelled

text \<open>One claimed effect: what it adds to the decisions, the adapter calls, and the database.\<close>

definition recover_claimed ::
  "'z tool_db_scheme sweep_env \<Rightarrow> ('a \<Rightarrow> tool_intent \<Rightarrow> json call_result) \<Rightarrow>
   ('a \<Rightarrow> tool_intent \<Rightarrow> adapter_value call_result) \<Rightarrow> (json \<Rightarrow> string) \<Rightarrow> 'a recovery_registry \<Rightarrow> int \<Rightarrow> string \<Rightarrow>
   string \<Rightarrow> tool_intent \<Rightarrow> 'z tool_db_scheme \<Rightarrow>
   (sweep_stop + recovery_sweep_decision list) \<times> (string \<times> string) list \<times> 'z tool_db_scheme" where
  "recover_claimed env replayers reconcilers str_of registry lease_seconds eid recovery_owner intent db =
     (let decision = (\<lambda>act. \<lparr>rsd_effect_id = eid, rsd_run_id = ti_run_id intent, rsd_action = act\<rparr>)
      in case sweep_body env replayers reconcilers str_of (resolve registry (ti_tool_name intent)) lease_seconds
                recovery_owner intent (se_gap env db) of
           (exit, calls, db1) \<Rightarrow>
             let called = map (\<lambda>phase. (phase, eid)) calls
             in case exit of
                  Sweep_action act \<Rightarrow> (Inr [decision act], called, db1)
                | Sweep_cancelled \<Rightarrow> (Inl Stop_cancelled, called, db1)
                | Sweep_raises \<Rightarrow>
                    if se_release_fault env then (Inl Stop_database, called, se_release env db1)
                    else (case release_recovery_claim (se_end env) eid recovery_owner 30 (se_release env db1) of
                       (Inl (ToolEffectLeaseLost _), db2) \<Rightarrow> (Inr [decision ''retry''], called, db2)
                     | (Inl e, db2) \<Rightarrow> (Inl (Stop_error e), called, db2)
                     | (Inr _, db2) \<Rightarrow> (Inr [decision ''retry''], called, db2)))"

definition recover_effect ::
  "'z tool_db_scheme sweep_env \<Rightarrow> ('a \<Rightarrow> tool_intent \<Rightarrow> json call_result) \<Rightarrow>
   ('a \<Rightarrow> tool_intent \<Rightarrow> adapter_value call_result) \<Rightarrow> (json \<Rightarrow> string) \<Rightarrow> 'a recovery_registry \<Rightarrow> int \<Rightarrow> string \<Rightarrow>
   'z tool_db_scheme \<Rightarrow>
   (sweep_stop + recovery_sweep_decision list) \<times> (string \<times> string) list \<times> 'z tool_db_scheme" where
  "recover_effect env replayers reconcilers str_of registry lease_seconds eid db =
     (if se_settle_fault env then (Inl Stop_database, [], se_before env db)
      else case settle_terminal_run_intent (se_settle_now env) eid (se_before env db) of
        (Inl e, db1) \<Rightarrow> (Inl (Stop_error e), [], db1)
      | (Inr (Some intent), db1) \<Rightarrow>
          (Inr [\<lparr>rsd_effect_id = eid, rsd_run_id = ti_run_id intent, rsd_action = ''terminal_unknown''\<rparr>], [], db1)
      | (Inr None, db1) \<Rightarrow>
          let recovery_owner = ''tool-recovery:'' @ se_uuid env
          in if se_claim_fault env then (Inl Stop_database, [], se_claim env db1)
             else case claim_recovery_intent (se_claim_now env) eid recovery_owner lease_seconds (se_claim env db1) of
               (None, db2) \<Rightarrow> (Inr [], [], db2)
             | (Some intent, db2) \<Rightarrow>
                 recover_claimed env replayers reconcilers str_of registry lease_seconds eid recovery_owner intent db2)"

fun recover_effects ::
  "(string \<Rightarrow> 'z tool_db_scheme sweep_env) \<Rightarrow> ('a \<Rightarrow> tool_intent \<Rightarrow> json call_result) \<Rightarrow>
   ('a \<Rightarrow> tool_intent \<Rightarrow> adapter_value call_result) \<Rightarrow> (json \<Rightarrow> string) \<Rightarrow> 'a recovery_registry \<Rightarrow> int \<Rightarrow> string list \<Rightarrow>
   'z tool_db_scheme \<Rightarrow>
   (sweep_stop + recovery_sweep_decision list) \<times> (string \<times> string) list \<times> 'z tool_db_scheme" where
  "recover_effects env replayers reconcilers str_of registry lease_seconds [] db = (Inr [], [], db)"
| "recover_effects env replayers reconcilers str_of registry lease_seconds (eid # eids) db =
     (case recover_effect (env eid) replayers reconcilers str_of registry lease_seconds eid db of
        (Inl stop, calls, db1) \<Rightarrow> (Inl stop, calls, db1)
      | (Inr ds, calls, db1) \<Rightarrow>
          (case recover_effects env replayers reconcilers str_of registry lease_seconds eids db1 of
             (Inl stop, calls', db2) \<Rightarrow> (Inl stop, calls @ calls', db2)
           | (Inr ds', calls', db2) \<Rightarrow> (Inr (ds @ ds'), calls @ calls', db2)))"

definition recover_incomplete_tool_effects ::
  "bool \<Rightarrow> (string \<Rightarrow> 'z tool_db_scheme sweep_env) \<Rightarrow> ('a \<Rightarrow> tool_intent \<Rightarrow> json call_result) \<Rightarrow>
   ('a \<Rightarrow> tool_intent \<Rightarrow> adapter_value call_result) \<Rightarrow> (json \<Rightarrow> string) \<Rightarrow> 'a recovery_registry \<Rightarrow> int \<Rightarrow>
   'z tool_db_scheme \<Rightarrow>
   (sweep_stop + recovery_sweep_decision list) \<times> (string \<times> string) list \<times> 'z tool_db_scheme" where
  "recover_incomplete_tool_effects list_fault env replayers reconcilers str_of registry lease_seconds db =
     (if list_fault then (Inl Stop_database, [], db)
      else recover_effects env replayers reconcilers str_of registry lease_seconds (pending_effect_ids db) db)"

text \<open>The contract of a registry: no adapter for a tool that must not be replayed.\<close>

definition policy_ok :: "'a tool_policy \<Rightarrow> bool" where
  "policy_ok p \<longleftrightarrow>
     (case tp_policy p of
        Never_replay \<Rightarrow> tp_replayer p = None \<and> tp_reconciler p = None
      | Replay_safe \<Rightarrow> tp_reconciler p = None
      | Reconcile \<Rightarrow> True)"

lemma register_InrD:
  assumes "register name pol rep rec reg = Inr reg'"
  obtains p where "policy_of_name pol = Some p" and "policy_ok \<lparr>tp_policy = p, tp_replayer = rep, tp_reconciler = rec\<rparr>"
    and "reg' = reg(name \<mapsto> \<lparr>tp_policy = p, tp_replayer = rep, tp_reconciler = rec\<rparr>)"
proof (cases "policy_of_name pol")
  case (Some p)
  with assms that [of p] show thesis
    by (cases p) (auto simp: register_def policy_ok_def simp del: policy_of_name.simps split: if_splits)
qed (use assms in \<open>simp add: register_def del: policy_of_name.simps\<close>)

lemma register_policy_ok:
  assumes "register name pol rep rec reg = Inr reg'" and "\<forall>p\<in>ran reg. policy_ok p"
  shows "\<forall>p\<in>ran reg'. policy_ok p"
proof -
  obtain p where "policy_ok p" "reg' = reg(name \<mapsto> p)" by (rule register_InrD [OF assms(1)]) blast
  with assms(2) show ?thesis by (auto simp: ran_def)
qed

lemma resolve_empty [simp]: "resolve Map.empty x = \<lparr>tp_policy = Never_replay, tp_replayer = None, tp_reconciler = None\<rparr>"
  by (simp add: resolve_def)

lemma register_all_resolve:
  assumes "\<And>n g. register n pol rep rec g = Inr (g(n \<mapsto> p))"
  shows "\<exists>reg'. register_all names pol rep rec reg = Inr reg'
     \<and> (\<forall>x. resolve reg' x = (if x \<in> set names then p else resolve reg x))"
proof (induction names arbitrary: reg)
  case (Cons n names)
  have "resolve (reg(n \<mapsto> p)) x = (if x = n then p else resolve reg x)" for x by (simp add: resolve_def)
  with Cons [of "reg(n \<mapsto> p)"] assms show ?case by (auto simp del: fun_upd_apply)
qed simp

text \<open>
  The default registry fails closed: building it raises nothing, a tool has a replay adapter exactly
  when it is one of the listed read-only tools or of the scheduled-task tools, the latter are reconciled
  first, and every other name, listed as a writer or unknown, resolves to \<open>never_replay\<close> without any
  adapter.
\<close>

theorem default_registry_fails_closed:
  "\<exists>reg. build_default_tool_recovery_registry rep rec = Inr reg
     \<and> (\<forall>name. resolve reg name =
          (if name \<in> set replay_safe_tools
           then \<lparr>tp_policy = Replay_safe, tp_replayer = Some rep, tp_reconciler = None\<rparr>
           else if name \<in> set reconcile_tools
           then \<lparr>tp_policy = Reconcile, tp_replayer = Some rep, tp_reconciler = Some rec\<rparr>
           else \<lparr>tp_policy = Never_replay, tp_replayer = None, tp_reconciler = None\<rparr>))"
proof -
  have 1: "register n ''replay_safe'' (Some rep) None g =
      Inr (g(n \<mapsto> \<lparr>tp_policy = Replay_safe, tp_replayer = Some rep, tp_reconciler = None\<rparr>))" for n and g :: "'a recovery_registry"
    by (simp add: register_def)
  have 2: "register n ''never_replay'' None None g =
      Inr (g(n \<mapsto> \<lparr>tp_policy = Never_replay, tp_replayer = None, tp_reconciler = None\<rparr>))" for n and g :: "'a recovery_registry"
    by (simp add: register_def)
  have 3: "register n ''reconcile'' (Some rep) (Some rec) g =
      Inr (g(n \<mapsto> \<lparr>tp_policy = Reconcile, tp_replayer = Some rep, tp_reconciler = Some rec\<rparr>))" for n and g :: "'a recovery_registry"
    by (simp add: register_def)
  obtain g1 where g1: "register_all replay_safe_tools ''replay_safe'' (Some rep) None Map.empty = Inr g1"
    "\<And>x. resolve g1 x = (if x \<in> set replay_safe_tools then \<lparr>tp_policy = Replay_safe, tp_replayer = Some rep, tp_reconciler = None\<rparr>
       else resolve Map.empty x)"
    using register_all_resolve [OF 1, of replay_safe_tools Map.empty] by blast
  obtain g2 where g2: "register_all never_replay_tools ''never_replay'' None None g1 = Inr g2"
    "\<And>x. resolve g2 x = (if x \<in> set never_replay_tools then \<lparr>tp_policy = Never_replay, tp_replayer = None, tp_reconciler = None\<rparr>
       else resolve g1 x)"
    using register_all_resolve [OF 2, of never_replay_tools g1] by blast
  obtain g3 where g3: "register_all reconcile_tools ''reconcile'' (Some rep) (Some rec) g2 = Inr g3"
    "\<And>x. resolve g3 x = (if x \<in> set reconcile_tools then \<lparr>tp_policy = Reconcile, tp_replayer = Some rep, tp_reconciler = Some rec\<rparr>
       else resolve g2 x)"
    using register_all_resolve [OF 3, of reconcile_tools g2] by blast
  have disjoint: "set replay_safe_tools \<inter> set never_replay_tools = {}" "set replay_safe_tools \<inter> set reconcile_tools = {}"
    by (simp_all add: replay_safe_tools_def never_replay_tools_def reconcile_tools_def)
  have "build_default_tool_recovery_registry rep rec = Inr g3"
    by (simp add: build_default_tool_recovery_registry_def g1(1) g2(1) g3(1))
  moreover have "resolve g3 name =
          (if name \<in> set replay_safe_tools
           then \<lparr>tp_policy = Replay_safe, tp_replayer = Some rep, tp_reconciler = None\<rparr>
           else if name \<in> set reconcile_tools
           then \<lparr>tp_policy = Reconcile, tp_replayer = Some rep, tp_reconciler = Some rec\<rparr>
           else \<lparr>tp_policy = Never_replay, tp_replayer = None, tp_reconciler = None\<rparr>)" for name
    using disjoint by (auto simp: g1(2) g2(2) g3(2))
  ultimately show ?thesis by blast
qed

section \<open>The gateway is safe\<close>

definition span_safe :: "'z tool_db_scheme call_span \<Rightarrow> bool" where
  "span_safe span \<longleftrightarrow> (\<forall>(f, g, t)\<in>set (cs_beats span). \<forall>d. tool_safe d (f d) \<and> tool_safe d (g d))
     \<and> (\<forall>d. tool_safe d (cs_rest span d))"

definition gateway_safe :: "'z tool_db_scheme gateway_env \<Rightarrow> bool" where
  "gateway_safe env \<longleftrightarrow> (\<forall>n j d. tool_safe d (ge_begin env n j d)) \<and> (\<forall>d. tool_safe d (ge_poll env d))
     \<and> (\<forall>d. tool_safe d (ge_acquire env d)) \<and> span_safe (ge_reconciling env) \<and> span_safe (ge_invoking env)
     \<and> (\<forall>n d. tool_safe d (ge_commit env n d)) \<and> (\<forall>d. tool_safe d (ge_abandon env d))"

text \<open>
  What is true of the answer to a call. \<open>said\<close> are the states the values returned by the tool are classified as, \<open>alone\<close> says that nobody
  else settles effects while this call is under way. The state that is reported is that of the call's own value, and not always
  that of the recorded outcome: when somebody else has settled the effect meanwhile, \<open>commit_result\<close> gives the recorded
  payload and the gateway adds the state of the value it has thrown away.
\<close>

definition ledger_state :: "string \<Rightarrow> 'z tool_db_scheme \<Rightarrow> string" where
  "ledger_state eid db =
     (case terminal_row eid db of
        None \<Rightarrow> ''open''
      | Some t \<Rightarrow> if te_event_type t = Fact_unknown_outcome then ''unknown''
                  else if te_event_type t = Fact_result then ''success'' else ''error'')"





lemma tool_safe_beat:
  assumes "\<forall>(f, g, t)\<in>set beats. \<forall>d. tool_safe d (f d) \<and> tool_safe d (g d)"
  shows "tool_safe db (snd (beat beats eid w c lease db))"
  using assms
proof (induction beats arbitrary: db)
  case (Cons b beats)
  obtain f g t where b: "b = (f, g, t)" by (cases b)
  define d where "d = snd (renew_invocation_claim g t eid w c lease (f db))"
  have g: "tool_safe x (g x)" "tool_safe x (f x)" for x using Cons.prems b by auto
  have "tool_safe db d"
    unfolding d_def by (rule tool_safe_trans [OF g(2) tool_safe_renew_claim [OF g(1)]])
  moreover have "tool_safe d (snd (beat beats eid w c lease d))" by (rule Cons.IH) (use Cons.prems in auto)
  ultimately show ?case
    by (auto simp: b d_def intro: tool_safe_trans split: prod.splits sum.split bool.split)
qed simp

lemma tool_safe_call_span:
  assumes "span_safe span"
  shows "tool_safe db (snd (call_span_run span eid w c lease db))"
proof -
  have "tool_safe db (snd (beat (cs_beats span) eid w c lease db))"
    using assms by (intro tool_safe_beat) (auto simp: span_safe_def)
  moreover have "tool_safe x (cs_rest span x)" for x using assms by (simp add: span_safe_def)
  ultimately show ?thesis by (simp add: call_span_run_def Let_def split_beta tool_safe_trans)
qed

lemma tool_safe_gateway_abandon: "gateway_safe env \<Longrightarrow> tool_safe db (abandon env eid w c db)"
  unfolding abandon_def Let_def gateway_safe_def
  using tool_safe_abandon tool_safe_trans by (metis (full_types))

lemma tool_safe_except: "gateway_safe env \<Longrightarrow> tool_safe db (snd (except_handler env eid w c err db))"
  by (simp add: except_handler_def tool_safe_gateway_abandon)

lemma tool_safe_mark_and_raise:
  "gateway_safe env \<Longrightarrow> tool_safe db (snd (mark_and_raise env eid w c reason db))"
  unfolding mark_and_raise_def by (rule tool_safe_trans [OF tool_safe_mark_unknown tool_safe_except])

lemma tool_safe_commit_and_return:
  assumes "gateway_safe env"
  shows "tool_safe db (snd (commit_and_return env str w c intent res failed recon called db))"
proof -
  obtain x d where r: "commit_result (ge_commit env) (ge_commit_fault env) str (ge_end env) (ti_effect_id intent) w c res
      failed recon db = (x, d)" by fastforce
  have "tool_safe db d"
    using tool_safe_commit_result [of "ge_commit env" db "ge_commit_fault env" str "ge_end env" "ti_effect_id intent" w c
        res failed recon] assms r by (simp add: gateway_safe_def)
  then show ?thesis
    using tool_safe_trans [OF _ tool_safe_except [OF assms]] tool_safe_trans [OF _ tool_safe_gateway_abandon [OF assms]]
    by (simp add: commit_and_return_def Let_def r split: sum.split)
qed

lemma tool_safe_invoke_tool:
  assumes "gateway_safe env"
  shows "tool_safe db (snd (invoke_tool env str cf w c lease intent db))"
proof -
  obtain lost d where r: "call_span_run (ge_invoking env) (ti_effect_id intent) w c lease db = (lost, d)" by fastforce
  have 1: "tool_safe db d"
    using tool_safe_call_span [of "ge_invoking env" db "ti_effect_id intent" w c lease] assms r
    by (simp add: gateway_safe_def)
  show ?thesis
    by (simp add: invoke_tool_def r Let_def tool_safe_trans [OF 1 tool_safe_except [OF assms]]
        tool_safe_trans [OF 1 tool_safe_gateway_abandon [OF assms]]
        tool_safe_trans [OF 1 tool_safe_commit_and_return [OF assms]] split: call_result.split)
qed

lemma tool_safe_reconcile_first:
  assumes "gateway_safe env"
  shows "tool_safe db (attempt_db (reconcile_first env adapters str pol w c lease intent db))"
proof -
  obtain lost d where r: "call_span_run (ge_reconciling env) (ti_effect_id intent) w c lease db = (lost, d)" by fastforce
  have 1: "tool_safe db d"
    using tool_safe_call_span [of "ge_reconciling env" db "ti_effect_id intent" w c lease] assms r
    by (simp add: gateway_safe_def)
  show ?thesis
    by (simp add: reconcile_first_def r Let_def tool_safe_trans [OF 1 tool_safe_except [OF assms]]
        tool_safe_trans [OF 1 tool_safe_gateway_abandon [OF assms]] 1 tool_safe_mark_and_raise [OF assms]
        tool_safe_trans [OF 1 tool_safe_mark_and_raise [OF assms]]
        tool_safe_trans [OF 1 tool_safe_commit_and_return [OF assms]] split: call_result.split)
qed

lemma tool_safe_execute_decision:
  assumes "gateway_safe env"
  shows "tool_safe db (snd (snd (execute_decision env adapters str cf pol w c lease d db)))"
proof -
  define eid where "eid = ti_effect_id (id_intent d)"
  obtain x db1 where a: "acquire_invocation_claim (ge_acquire_now env) eid w c lease (ge_acquire env db) = (x, db1)"
    by fastforce
  have "tool_safe (ge_acquire env db) db1"
    using tool_safe_acquire [of "ge_acquire env db" "ge_acquire_now env" eid w c lease] a by simp
  moreover have "tool_safe db (ge_acquire env db)" using assms by (simp add: gateway_safe_def)
  ultimately have 1: "tool_safe db db1" by (rule tool_safe_trans [rotated])
  define o1 where "o1 = reconcile_first env adapters str pol w c lease (id_intent d) db1"
  have 2: "tool_safe db (attempt_db o1)"
    unfolding o1_def by (rule tool_safe_trans [OF 1 tool_safe_reconcile_first [OF assms]])
  have 3: "tool_safe db (snd (invoke_tool env str cf w c lease (id_intent d) db1))"
    by (rule tool_safe_trans [OF 1 tool_safe_invoke_tool [OF assms]])
  have 4: "o1 = Inr db2 \<Longrightarrow> tool_safe db (snd (invoke_tool env str cf w c lease (id_intent d) db2))" for db2
    using tool_safe_trans [OF 2 tool_safe_invoke_tool [OF assms]] by simp
  show ?thesis
    using 1 2 3 4 unfolding execute_decision_def Let_def eid_def [symmetric] a
    by (auto simp: o1_def split_beta split: sum.split)
qed

lemma tool_safe_gateway_round:
  assumes "gateway_safe env"
  shows "tool_safe db (case gateway_round env adapters str sha cf pol lease rid w c call tool hash red key db of
     Inl r \<Rightarrow> snd (snd r) | Inr d \<Rightarrow> d)"
proof -
  obtain x d where b: "begin_intent (ge_begin env) (ge_begin_fault env) sha (ge_now env) (ge_effect_id env) (ge_result_id env)
     rid w c call tool hash red (tp_policy pol) key lease db = (x, d)" by fastforce
  have 1: "tool_safe db d"
    using tool_safe_begin_intent [of "ge_begin env" db "ge_begin_fault env" sha "ge_now env" "ge_effect_id env"
        "ge_result_id env" rid w c call tool hash red "tp_policy pol" key lease] assms b
    by (simp add: gateway_safe_def)
  have 2: "tool_safe db (ge_poll env d)"
    by (rule tool_safe_trans [OF 1]) (use assms in \<open>simp add: gateway_safe_def\<close>)
  have 3: "tool_safe db b" if "execute_decision env adapters str cf pol w c lease x d = (r, calls, b)" for x r calls b
    using tool_safe_trans [OF 1 tool_safe_execute_decision [OF assms, of d adapters str cf pol w c lease x]] that by simp
  show ?thesis
    using 1 2 by (auto simp: gateway_round_def b dest: 3 split: sum.split intent_action.split option.split)
qed

lemma tool_safe_execute_outcome_from:
  assumes "\<And>k. gateway_safe (env k)"
    and "execute_outcome_from fuel k env adapters str sha cf pol lease rid w c call tool hash red key db = Some (r, calls, db')"
  shows "tool_safe db db'"
  using assms(2)
proof (induction fuel arbitrary: k db)
  case (Suc fuel)
  show ?case
    using Suc.prems tool_safe_gateway_round [OF assms(1), of db k adapters str sha cf pol lease rid w c call tool hash red key]
      tool_safe_trans [OF _ Suc.IH]
    by (auto split: sum.splits)
qed simp

section \<open>What the gateway reports\<close>














lemma id_action_decide [simp]: "id_action (decide a i) = a"
  by (simp add: decide_def)









section \<open>Calls of the tool and polling\<close>

lemma calls_of_decision:
  "execute_decision env adapters str cf pol w c lease d db = (r, calls, db') \<Longrightarrow> set calls \<subseteq> {ti_effect_id (id_intent d)}"
  by (auto simp: execute_decision_def Let_def split: prod.splits sum.splits if_splits)

lemma calls_of_round:
  assumes ok: "tool_ok db" and safe: "gateway_safe env"
    and r: "gateway_round env adapters str sha cf pol lease rid w c call tool hash red key db = Inl (r, calls, db')"
    and eid: "eid \<in> set calls"
  shows "intent_row eid db' \<noteq> None"
proof -
  obtain d x where b: "begin_intent (ge_begin env) (ge_begin_fault env) sha (ge_now env) (ge_effect_id env) (ge_result_id env)
     rid w c call tool hash red (tp_policy pol) key lease db = (Inr d, x)"
    and e: "execute_decision env adapters str cf pol w c lease d x = (r, calls, db')" and d: "starts d"
    using r eid by (auto simp: gateway_round_def starts_def split: prod.splits sum.splits intent_action.splits option.splits)
  have int: "\<And>n j d. tool_safe d (ge_begin env n j d)" using safe by (simp add: gateway_safe_def)
  have "tool_safe db x"
    using tool_safe_begin_intent [of "ge_begin env" db "ge_begin_fault env" sha "ge_now env" "ge_effect_id env" "ge_result_id env"
        rid w c call tool hash red "tp_policy pol" key lease, OF int] b by simp
  then have okx: "tool_ok x" using ok tool_safeD(1) by blast
  have le: "tool_le x db'"
    using tool_safeD(2) [OF tool_safe_execute_decision [OF safe, of x adapters str cf pol w c lease d] okx] e by simp
  have "ready_to_execute (ge_now env) w c d x" by (rule ready_begin_intent [OF ok int d b])
  then obtain i where i: "intent_row (ti_effect_id (id_intent d)) x = Some i"
    by (auto simp: ready_to_execute_def split: option.splits)
  show ?thesis using calls_of_decision [OF e] eid intent_row_mono [OF le i] by auto
qed

lemma calls_of_execute_from:
  assumes "\<And>k. gateway_safe (env k)" and "tool_ok db"
    and "execute_outcome_from fuel k env adapters str sha cf pol lease rid w c call tool hash red key db = Some (r, calls, db')"
    and "eid \<in> set calls"
  shows "intent_row eid db' \<noteq> None"
  using assms(2,3)
proof (induction fuel arbitrary: k db)
  case (Suc fuel)
  have "tool_ok d" if "gateway_round (env k) adapters str sha cf pol lease rid w c call tool hash red key db = Inr d" for d
    using tool_safeD(1) [OF tool_safe_gateway_round [OF assms(1), of db k adapters str sha cf pol lease rid w c call tool hash
        red key] Suc.prems(1)] that by simp
  then show ?case
    using Suc calls_of_round [OF Suc.prems(1) assms(1) _ assms(4)] by (auto split: sum.splits)
qed simp

text \<open>The database after n rounds that all ended in polling again.\<close>

fun gateway_polls ::
  "nat \<Rightarrow> nat \<Rightarrow> (nat \<Rightarrow> 'z tool_db_scheme gateway_env) \<Rightarrow> ('a \<Rightarrow> tool_intent \<Rightarrow> adapter_value call_result) \<Rightarrow>
   (json \<Rightarrow> string) \<Rightarrow> (string \<Rightarrow> string) \<Rightarrow> (json \<Rightarrow> bool) option \<Rightarrow> 'a tool_policy \<Rightarrow> int \<Rightarrow> string \<Rightarrow> string \<Rightarrow>
   string \<Rightarrow> string \<Rightarrow> string \<Rightarrow> string \<Rightarrow> dict \<Rightarrow> string option \<Rightarrow> 'z tool_db_scheme \<Rightarrow> 'z tool_db_scheme option" where
  "gateway_polls 0 k env adapters str_of sha256 classify policy lease rid owner c call tool hash red key db = Some db"
| "gateway_polls (Suc n) k env adapters str_of sha256 classify policy lease rid owner c call tool hash red key db =
     (case gateway_round (env k) adapters str_of sha256 classify policy lease rid owner c call tool hash red key db of
        Inl _ \<Rightarrow> None
      | Inr d \<Rightarrow> gateway_polls n (Suc k) env adapters str_of sha256 classify policy lease rid owner c call tool hash red key d)"

lemma execute_after_polls:
  "gateway_polls n k env adapters str sha cf pol lease rid w c call tool hash red key db = Some d \<Longrightarrow>
   execute_outcome_from (n + m) k env adapters str sha cf pol lease rid w c call tool hash red key db =
   execute_outcome_from m (k + n) env adapters str sha cf pol lease rid w c call tool hash red key d"
  by (induction n arbitrary: k db) (auto split: sum.splits)

lemma tool_safe_polls:
  assumes "\<And>k. gateway_safe (env k)"
    and "gateway_polls n k env adapters str sha cf pol lease rid w c call tool hash red key db = Some d"
  shows "tool_safe db d"
  using assms(2)
proof (induction n arbitrary: k db)
  case (Suc n)
  then show ?case
    using tool_safe_gateway_round [OF assms(1), of db k adapters str sha cf pol lease rid w c call tool hash red key]
      tool_safe_trans [OF _ Suc.IH]
    by (auto split: sum.splits)
qed simp

lemma round_settled:
  assumes ok: "tool_ok d" and safe: "gateway_safe env" and run: "find_run rid d = Some run"
    and key: "resolved_idempotency_key sha rid (run_user_id run) tool call ek = Inr key"
    and i: "keyed_row key d = Some i" and t: "terminal_row (te_effect_id i) d = Some t"
  shows "\<exists>r db'. gateway_round env adapters str sha cf pol lease rid w c call tool hash red ek d = Inl (r, [], db')
     \<and> (r = from_decision (te_effect_id i) (decision_from_terminal (intent_from_row i) t) \<or> (\<exists>e. r = Gateway_raises e))"
proof -
  have int: "\<And>n j d. tool_safe d (ge_begin env n j d)" using safe by (simp add: gateway_safe_def)
  obtain x d' where b: "begin_intent (ge_begin env) (ge_begin_fault env) sha (ge_now env) (ge_effect_id env) (ge_result_id env)
     rid w c call tool hash red (tp_policy pol) ek lease d = (x, d')" by fastforce
  have id: "id_intent (decision_from_terminal j t) = j" for j by (simp add: decision_from_terminal_def)
  show ?thesis
  proof (cases x)
    case (Inr y)
    have y: "y = decision_from_terminal (intent_from_row i) t"
      using begin_intent_settled [of d "ge_begin env" rid run sha tool call ek key i t "ge_begin_fault env" "ge_now env"
          "ge_effect_id env" "ge_result_id env" w c hash red "tp_policy pol" lease y, OF ok int run key i t] b Inr by simp
    then have "id_action y = Act_known \<or> id_action y = Act_unknown" by (simp add: decision_from_terminal_def)
    then show ?thesis
      unfolding gateway_round_def b Inr using id y by auto
  qed (simp add: gateway_round_def b)
qed


definition quiet_span :: "'d call_span" where
  "quiet_span = \<lparr>cs_beats = [], cs_rest = (\<lambda>d. d)\<rparr>"

definition sample_gateway_env :: "(tool_db \<Rightarrow> tool_db) \<Rightarrow> time \<Rightarrow> json call_result \<Rightarrow> tool_db gateway_env" where
  "sample_gateway_env poll now result =
     \<lparr>ge_now = now, ge_begin = (\<lambda>_ _ d. d), ge_begin_fault = (\<lambda>_. False), ge_effect_id = (\<lambda>_. ''e1''),
      ge_result_id = (\<lambda>_. ''x1''), ge_poll = poll, ge_acquire = (\<lambda>d. d), ge_acquire_now = now,
      ge_reconciling = quiet_span, ge_invoking = quiet_span, ge_invoke = result,
      ge_commit = (\<lambda>_ d. d), ge_commit_fault = (\<lambda>_. False), ge_commit_cancelled = False, ge_end = now, ge_abandon = (\<lambda>d. d),
      ge_abandon_fault = False\<rparr>"

lemma sample_gateway_safe: "(\<And>d. tool_safe d (poll d)) \<Longrightarrow> gateway_safe (sample_gateway_env poll now result)"
  by (simp add: gateway_safe_def span_safe_def sample_gateway_env_def quiet_span_def)

text \<open>
  No tool is called without a durable intent: with any safe interference from other processes, the
  gateway keeps the ledger well formed and append-only, and every effect for which it called the tool
  has its intent in the committed database.
\<close>

theorem gateway_calls_are_journaled:
  assumes "tool_ok db" and "\<And>k. gateway_safe (env k)"
    and "execute_outcome fuel env adapters str sha cf reg lease rid w uuid call tool hash red key db = Some (r, calls, db')"
  shows "tool_ok db' \<and> tool_le db db' \<and> (\<forall>eid\<in>set calls. intent_row eid db' \<noteq> None)"
  using tool_safeD [OF tool_safe_execute_outcome_from [OF assms(2) assms(3) [unfolded execute_outcome_def]] assms(1)]
    calls_of_execute_from [OF assms(2,1) assms(3) [unfolded execute_outcome_def]]
  by blast

theorem gateway_calls_are_journaled_witness:
  "\<exists>r db'. execute_outcome 1 (\<lambda>_. sample_gateway_env (\<lambda>d. d) 1000000 Raises) (\<lambda>_ _. Raises) (\<lambda>_. []) (\<lambda>s. s)
       None (Map.empty :: nat recovery_registry) 60 ''r1'' ''w1'' ''a'' ''call'' ''bash'' ''h'' [] None sample_tool_db = Some (r, [''e1''], db')
     \<and> intent_row ''e1'' db' \<noteq> None"
proof -
  define res where "res = execute_outcome 1 (\<lambda>_. sample_gateway_env (\<lambda>d. d) 1000000 Raises) (\<lambda>_ _. Raises) (\<lambda>_. [])
      (\<lambda>s. s) None (Map.empty :: nat recovery_registry) 60 ''r1'' ''w1'' ''a'' ''call'' ''bash'' ''h'' [] None sample_tool_db"
  have "map_option (\<lambda>(r, calls, _). calls) res = Some [''e1'']" unfolding res_def by code_simp
  then obtain r db' where r: "res = Some (r, [''e1''], db')" by auto
  from gateway_calls_are_journaled [OF sample_tool_ok _ r [unfolded res_def]] r show ?thesis
    unfolding res_def by (simp add: sample_gateway_safe)
qed

section \<open>A caller polls only for a live claim\<close>

definition awaited :: "time \<Rightarrow> string \<Rightarrow> tool_effect \<Rightarrow> 'z tool_db_scheme \<Rightarrow> bool" where
  "awaited now rid i db \<longleftrightarrow> intent_row (te_effect_id i) db = Some i
     \<and> (te_run_id i \<noteq> rid
        \<or> (case lease_row (te_effect_id i) db of None \<Rightarrow> False | Some l \<Rightarrow> sql_gt (tl_expires_at l) now))"

lemma wait_takeover:
  assumes "takeover now w c lease run i l db = (Inr d, db')" and "id_action d = Act_wait"
    and "lease_row (te_effect_id i) db = Some l"
  shows "sql_gt (tl_expires_at l) now \<and> id_intent d = intent_from_row i \<and> db' = db"
proof -
  have "affected (takeover_matches now l) (leases db) = 0"
    using assms(1,2) by (auto simp: takeover_def Let_def execute_action_def split: if_splits option.splits sum.splits)
  then have "\<not> takeover_matches now l l"
    using lease_row_SomeD [OF assms(3)] by (auto simp: affected_def filter_empty_conv)
  moreover have "d = decide Act_wait (intent_from_row i) \<and> db' = db"
    using assms(1) \<open>affected (takeover_matches now l) (leases db) = 0\<close> by (simp add: takeover_def Let_def)
  ultimately show ?thesis
    by (cases "tl_expires_at l") (auto simp: takeover_matches_def)
qed

lemma wait_existing:
  assumes ok: "tool_ok db" and "existing_decision now key rid w c tool hash lease db = (Inr d, db')"
    and "id_action d = Act_wait"
  shows "\<exists>i. awaited now rid i db \<and> id_intent d = intent_from_row i \<and> db' = db"
proof -
  have known: "id_action (decision_from_terminal x t) \<noteq> Act_wait" for x t by (simp add: decision_from_terminal_def)
  obtain i where i: "keyed_row key db = Some i"
    "(te_run_id i \<noteq> rid \<and> d = decide Act_wait (intent_from_row i) \<and> db' = db) \<or> existing_owned now rid w c lease i db = (Inr d, db')"
    using assms(2,3) by (auto simp: existing_decision_def Let_def known split: option.splits if_splits)
  have ir: "intent_row (te_effect_id i) db = Some i"
    using keyed_row_SomeD [OF i(1)] keyed_row_intent [OF tool_okD(2) [OF ok] i(1)]
    by (intro intent_row_unique [OF tool_okD(2) [OF ok]]) auto
  from i(2) show ?thesis
  proof
    assume own: "existing_owned now rid w c lease i db = (Inr d, db')"
    then obtain l where l: "lease_row (te_effect_id i) db = Some l"
      by (auto simp: existing_owned_def Let_def split: option.splits)
    have "sql_gt (tl_expires_at l) now \<and> id_intent d = intent_from_row i \<and> db' = db"
      using own l assms(3) wait_takeover [OF _ assms(3) l]
      by (auto simp: existing_owned_def Let_def execute_action_def split: sum.splits if_splits)
    with ir l show ?thesis by (auto simp: awaited_def)
  qed (use ir in \<open>auto simp: awaited_def\<close>)
qed

lemma wait_begin_attempt:
  assumes ok: "tool_ok db" and f: "\<And>j d. tool_safe d (f j d)" and d: "id_action d = Act_wait"
    and at: "begin_attempt f b sha now e x rid w c call tool hash red pol ek lease db = Inl (Inr d, db')"
  shows "\<exists>i. awaited now rid i db' \<and> id_intent d = intent_from_row i"
proof -
  define d0 where "d0 = f 0 db"
  define d1 where "d1 = f 1 d0"
  define d2 where "d2 = f 2 d1"
  define d3 where "d3 = f 3 d2"
  have o0: "tool_ok d0" unfolding d0_def by (rule tool_safeD(1) [OF f ok])
  have o1: "tool_ok d1" unfolding d1_def by (rule tool_safeD(1) [OF f o0])
  have o2: "tool_ok d2" unfolding d2_def by (rule tool_safeD(1) [OF f o1])
  have o3: "tool_ok d3" unfolding d3_def by (rule tool_safeD(1) [OF f o2])
  have o4: "tool_ok (f 4 d3)" by (rule tool_safeD(1) [OF f o3])
  have wait: "\<exists>i. awaited now rid i db' \<and> id_intent d = intent_from_row i"
    if "existing_decision now key rid w c tool hash lease y = (Inr d, db')" "tool_ok y" for key y
    using wait_existing [OF that(2,1) d] by auto
  show ?thesis
    using at d wait [OF _ o2] wait [OF _ o3] wait [OF _ o4]
    unfolding begin_attempt_def Let_def d0_def [symmetric] d1_def [symmetric] d2_def [symmetric] d3_def [symmetric]
    by (auto simp: as_commit_error_Inr split: option.splits sum.splits if_splits intent_commit.splits)
qed

lemma wait_begin_intent:
  assumes "tool_ok db" and "\<And>n j d. tool_safe d (interf n j d)" and "id_action d = Act_wait"
    and "begin_intent interf fault sha now eid resid rid w c call tool hash red pol ek lease db = (Inr d, db')"
  shows "\<exists>i. awaited now rid i db' \<and> id_intent d = intent_from_row i"
proof -
  have "\<exists>i. awaited now rid i db' \<and> id_intent d = intent_from_row i"
    if "begin_intent_from n interf fault sha now eid resid rid w c call tool hash red pol ek lease x = (Inr d, db')"
      "tool_ok x" for n x
    using that
  proof (induction n arbitrary: x)
    case 0
    then show ?case using wait_begin_attempt [OF _ _ assms(3), of x "interf 0"] assms(2) by (auto split: sum.splits)
  next
    case (Suc n)
    have "tool_ok y" if "begin_attempt (interf (Suc n)) (fault (Suc n)) sha now (eid (Suc n)) (resid (Suc n)) rid w c
        call tool hash red pol ek lease x = Inr y" for y
      using tool_safeD(1) [OF tool_safe_begin_attempt [of "interf (Suc n)" x "fault (Suc n)" sha now
          "eid (Suc n)" "resid (Suc n)" rid w c call tool hash red pol ek lease, OF assms(2)] Suc.prems(2)] that by simp
    then show ?case
      using Suc wait_begin_attempt [OF Suc.prems(2) _ assms(3), of "interf (Suc n)"] assms(2)
      by (auto split: sum.splits)
  qed
  with assms(1,4) show ?thesis unfolding begin_intent_def by blast
qed

lemma round_polls:
  assumes ok: "tool_ok db" and safe: "gateway_safe env"
    and r: "gateway_round env adapters str sha cf pol lease rid w c call tool hash red key db = Inr db'"
  shows "\<exists>i x. tool_le db x \<and> awaited (ge_now env) rid i x \<and> tool_le x db' \<and> terminal_row (te_effect_id i) db' = None"
proof -
  have int: "\<And>n j d. tool_safe d (ge_begin env n j d)" using safe by (simp add: gateway_safe_def)
  obtain d x where b: "begin_intent (ge_begin env) (ge_begin_fault env) sha (ge_now env) (ge_effect_id env) (ge_result_id env)
     rid w c call tool hash red (tp_policy pol) key lease db = (Inr d, x)"
    and d: "id_action d = Act_wait" "terminal_decision (ti_effect_id (id_intent d)) db' = None" "db' = ge_poll env x"
    using r by (auto simp: gateway_round_def split: prod.splits sum.splits intent_action.splits option.splits)
  have s: "tool_safe db x"
    using tool_safe_begin_intent [of "ge_begin env" db "ge_begin_fault env" sha "ge_now env" "ge_effect_id env" "ge_result_id env"
        rid w c call tool hash red "tp_policy pol" key lease, OF int] b by simp
  have p: "tool_safe x db'" using safe d(3) by (simp add: gateway_safe_def)
  note le = tool_safeD(2) [OF s ok] tool_safeD(2) [OF p tool_safeD(1) [OF s ok]]
  obtain i where i: "awaited (ge_now env) rid i x" "id_intent d = intent_from_row i"
    using wait_begin_intent [OF ok int d(1) b] by blast
  have "intent_row (te_effect_id i) db' = Some i"
    using i(1) intent_row_mono [OF le(2)] by (auto simp: awaited_def)
  then have "terminal_row (te_effect_id i) db' = None" using d(2) i(2) by (simp add: terminal_decision_def)
  with le i(1) show ?thesis by blast
qed

lemma polls_SucD:
  "gateway_polls (Suc n) k env adapters str sha cf pol lease rid w c call tool hash red key db = Some db' \<Longrightarrow>
   \<exists>d. gateway_polls n k env adapters str sha cf pol lease rid w c call tool hash red key db = Some d
     \<and> gateway_round (env (k + n)) adapters str sha cf pol lease rid w c call tool hash red key d = Inr db'"
proof (induction n arbitrary: k db)
  case (Suc n)
  obtain d1 where d1: "gateway_round (env k) adapters str sha cf pol lease rid w c call tool hash red key db = Inr d1"
    "gateway_polls (Suc n) (Suc k) env adapters str sha cf pol lease rid w c call tool hash red key d1 = Some db'"
    using Suc.prems by (cases "gateway_round (env k) adapters str sha cf pol lease rid w c call tool hash red key db") auto
  from Suc.IH [OF d1(2)] d1(1) show ?case by auto
qed (auto split: sum.splits)

text \<open>
  A waiting call does not wait for nothing. Whenever its n-th round ends in polling again, whatever
  others did meanwhile, the effect it waits for was claimed by someone whose claim had not run out by
  that round's clock (or it belongs to another run), and it still has no outcome. So the call ends as
  soon as the outcome is there or the claim has run out.
\<close>

theorem polling_needs_live_claim:
  assumes "tool_ok db" and "\<And>k. gateway_safe (env k)"
    and "gateway_polls (Suc n) 0 env adapters str sha cf (resolve reg tool) lease rid w (''tool:'' @ uuid) call tool hash red
           key db = Some db'"
  shows "\<exists>i x. awaited (ge_now (env n)) rid i x \<and> tool_le db x \<and> tool_le x db' \<and> terminal_row (te_effect_id i) db' = None"
proof -
  obtain d where d: "gateway_polls n 0 env adapters str sha cf (resolve reg tool) lease rid w (''tool:'' @ uuid) call tool hash
      red key db = Some d"
    "gateway_round (env n) adapters str sha cf (resolve reg tool) lease rid w (''tool:'' @ uuid) call tool hash red key d = Inr db'"
    using polls_SucD [OF assms(3)] by auto
  note s = tool_safe_polls [OF assms(2) d(1)]
  from round_polls [OF tool_safeD(1) [OF s assms(1)] assms(2) d(2)] show ?thesis
    using tool_le_trans [OF tool_safeD(2) [OF s assms(1)]] by blast
qed

theorem polling_needs_live_claim_witness:
  "\<exists>db' i (x :: tool_db). gateway_polls 2 0 (\<lambda>k. sample_gateway_env (\<lambda>d. d) (if k = 0 then 1200000 else 1300000) Raises) (\<lambda>_ _. Raises)
       (\<lambda>_. []) (\<lambda>s. s) None (resolve (Map.empty :: nat recovery_registry) ''bash'') 60 ''r1'' ''w1'' (''tool:'' @ ''b'') ''call'' ''bash''
       ''h'' [] (Some ''k'') (tool_step (Tx_intent False 1000000 ''e1'' ''x1'' ''r1'' ''w1'' ''tool:a'' ''call'' ''bash'' ''h''
          [] (''caller:u1'' @ [CHR 0x00] @ ''k'') Never_replay 60) sample_tool_db) = Some db'
     \<and> awaited 1300000 ''r1'' i x \<and> terminal_row (te_effect_id i) db' = None"
proof -
  define env where "env = (\<lambda>k :: nat. sample_gateway_env (\<lambda>d. d) (if k = 0 then 1200000 else 1300000) Raises)"
  define db where "db = tool_step (Tx_intent False 1000000 ''e1'' ''x1'' ''r1'' ''w1'' ''tool:a'' ''call'' ''bash'' ''h''
          [] (''caller:u1'' @ [CHR 0x00] @ ''k'') Never_replay 60) sample_tool_db"
  define res where "res = gateway_polls (Suc 1) 0 env (\<lambda>_ _. Raises) (\<lambda>_. []) (\<lambda>s. s) None
     (resolve (Map.empty :: nat recovery_registry) ''bash'') 60 ''r1'' ''w1'' (''tool:'' @ ''b'') ''call'' ''bash'' ''h'' [] (Some ''k'') db"
  have ok: "tool_ok db" unfolding db_def by (rule tools.inv_step [OF _ sample_tool_ok]) simp
  have "map_option (\<lambda>_. ()) res = Some ()" unfolding res_def env_def db_def by code_simp
  then obtain db' where res: "res = Some db'" by blast
  have safe: "gateway_safe (env k)" for k unfolding env_def by (rule sample_gateway_safe) simp
  obtain i and x :: tool_db where "awaited (ge_now (env 1)) ''r1'' i x" "terminal_row (te_effect_id i) db' = None"
    using polling_needs_live_claim [OF ok safe res [unfolded res_def]] by blast
  moreover have "ge_now (env 1) = 1300000" by (simp add: env_def sample_gateway_env_def)
  moreover have "(2 :: nat) = Suc 1" by simp
  ultimately show ?thesis
    using res unfolding res_def env_def [symmetric] db_def [symmetric] by metis
qed




text \<open>
  The state can be wrong when two invocations of one run work on the effect. The claim of the first runs out without a beat; the second takes
  the effect over and records a failure; the first returns the payload of that failure as a success.
\<close>

definition overtaken :: "tool_db call_span" where
  "overtaken = \<lparr>cs_beats = [], cs_rest = run_steps tool_step
     [Tx_journal (Ev_renew 2000000 ''r1'' ''w1'' 300),
      Tx_decide 70000000 (stable_idempotency_key (\<lambda>s. s) ''r1'' ''Read'' ''call'') ''r1'' ''w1'' ''tool:b'' ''Read'' ''h'' 60,
      Tx_commit (\<lambda>_. []) 71000000 ''e1'' ''w1'' ''tool:b'' (JStr ''no such file'') True False]\<rparr>"

theorem overtaken_call_reports_success:
  "case execute_outcome 1 (\<lambda>_. (sample_gateway_env (\<lambda>d. d) 1000000 (Returns (JInt 7)))\<lparr>ge_invoking := overtaken, ge_end := 72000000\<rparr>)
       (\<lambda>_ _. Raises) (\<lambda>_. []) (\<lambda>s. s) None (\<lambda>n. Some \<lparr>tp_policy = Replay_safe, tp_replayer = Some (1 :: nat), tp_reconciler = None\<rparr>)
       60 ''r1'' ''w1'' ''a'' ''call'' ''Read'' ''h'' [] None sample_tool_db of
     Some (Gateway_returns out, _, db') \<Rightarrow>
       teo_result out = JStr ''no such file'' \<and> teo_result_state out = ''success'' \<and> ledger_state ''e1'' db' = ''error''
   | _ \<Rightarrow> False"
  by code_simp

section \<open>The sweep is safe and settles what it reports\<close>

definition sweep_safe :: "'z tool_db_scheme sweep_env \<Rightarrow> bool" where
  "sweep_safe env \<longleftrightarrow> (\<forall>d. tool_safe d (se_before env d)) \<and> (\<forall>d. tool_safe d (se_claim env d))
     \<and> (\<forall>d. tool_safe d (se_gap env d)) \<and> span_safe (se_first env) \<and> span_safe (se_second env)
     \<and> (\<forall>n d. tool_safe d (se_commit env n d)) \<and> (\<forall>d. tool_safe d (se_release env d))"

definition settled :: "string \<Rightarrow> 'z tool_db_scheme \<Rightarrow> bool" where
  "settled eid db \<longleftrightarrow> terminal_row eid db \<noteq> None"

definition sweep_exit_ok :: "string \<Rightarrow> sweep_exit \<Rightarrow> 'z tool_db_scheme \<Rightarrow> 'z tool_db_scheme \<Rightarrow> bool" where
  "sweep_exit_ok eid x db db' \<longleftrightarrow> tool_safe db db' \<and> (\<forall>act. tool_ok db \<and> x = Sweep_action act \<longrightarrow> settled eid db' \<and> act \<noteq> ''retry'')"

lemma settled_mono: "tool_le db db' \<Longrightarrow> settled eid db \<Longrightarrow> settled eid db'"
  using terminal_row_mono unfolding settled_def by blast

lemma settled_safe: "tool_safe db db' \<Longrightarrow> tool_ok db \<Longrightarrow> settled eid db \<Longrightarrow> settled eid db'"
  by (rule settled_mono [OF tool_safeD(2)])

lemma settled_recorded: "recorded eid v db \<Longrightarrow> settled eid db"
  by (auto simp: recorded_def settled_def split: option.splits)

lemma exit_ok_trans: "tool_safe db d \<Longrightarrow> sweep_exit_ok eid x d db' \<Longrightarrow> sweep_exit_ok eid x db db'"
  by (auto simp: sweep_exit_ok_def intro: tool_safe_trans dest: tool_safeD(1))

lemma exit_ok_raises [simp]: "sweep_exit_ok eid Sweep_raises db db' \<longleftrightarrow> tool_safe db db'"
  "sweep_exit_ok eid Sweep_cancelled db db' \<longleftrightarrow> tool_safe db db'"
  by (simp_all add: sweep_exit_ok_def)

lemma settled_mark_unknown:
  assumes "mark_unknown now eid w c reason db = (Inr (), db')"
  shows "settled eid db'"
proof -
  obtain i l run where i: "intent_row eid db = Some i" "mark_unknown_locked now w c reason run i l db = Inr db'"
    using assms by (auto simp: mark_unknown_def split: option.splits sum.splits)
  have eid: "te_effect_id i = eid" using intent_row_SomeD [OF i(1)] by (simp add: is_intent_def)
  show ?thesis
  proof (cases "terminal_row eid db")
    case None
    then show ?thesis
      using i(2) eid terminal_row_new [of i db "clear_claim now l" now w Fact_unknown_outcome] None
      by (fastforce simp: mark_unknown_locked_def settled_def split: if_splits)
  qed (use i(2) eid in \<open>auto simp: mark_unknown_locked_def settled_def\<close>)
qed

lemma exit_ok_mark_unknown:
  "sweep_mark_unknown env eid ro reason db = (x, db') \<Longrightarrow> sweep_exit_ok eid x db db'"
  using tool_safe_mark_unknown [of db "se_end env" eid ro ro reason] settled_mark_unknown
  by (auto simp: sweep_mark_unknown_def sweep_exit_ok_def split: prod.splits sum.splits if_splits)

lemma exit_ok_commit:
  assumes safe: "sweep_safe env" and c: "sweep_commit env str eid ro res act db = (x, db')" and act: "act \<noteq> ''retry''"
  shows "sweep_exit_ok eid x db db'"
proof -
  have int: "\<And>n d. tool_safe d (se_commit env n d)" using safe by (simp add: sweep_safe_def)
  have s: "tool_safe db db'"
    using tool_safe_commit_recovered [of "se_commit env" db "se_commit_fault env" "se_drop_fault env" str "se_end env" eid res ro, OF int] c
    by (auto simp: sweep_commit_def split: prod.splits sum.splits)
  have "settled eid db'" if ok: "tool_ok db" and x: "x = Sweep_action a" for a
  proof -
    obtain v where r: "commit_recovered_result (se_commit env) (se_commit_fault env) (se_drop_fault env) str (se_end env) eid res ro db = (Inr v, db')"
      using c x by (auto simp: sweep_commit_def split: prod.splits sum.splits)
    obtain d1 where d1: "commit_result (\<lambda>n. se_commit env (Suc n)) (se_commit_fault env) str (se_end env) eid ro ro res False True db = (Inr v, d1)"
      "db' = snd (drop_run_lease (se_end env) eid ro (se_commit env 0 d1))"
      using r by (auto simp: commit_recovered_result_def split: prod.splits sum.splits if_splits)
    have "tool_safe db d1"
      using tool_safe_commit_result [of "\<lambda>n. se_commit env (Suc n)" db "se_commit_fault env" str "se_end env" eid ro ro res
          False True] int d1(1) by simp
    moreover have "tool_safe d1 db'" unfolding d1(2) by (rule tool_safe_trans [OF int tool_safe_drop_run_lease])
    ultimately show ?thesis
      using settled_safe settled_recorded [OF recorded_commit_result [OF d1(1)]] ok tool_safeD(1) by blast
  qed
  moreover have "a = act" if "x = Sweep_action a" for a
    using c that by (auto simp: sweep_commit_def split: prod.splits sum.splits)
  ultimately show ?thesis using s act by (auto simp: sweep_exit_ok_def)
qed

lemma exit_ok_replay:
  assumes "sweep_safe env" and "span_safe span" and "sweep_replay env span call str lease eid ro act db = (x, db')"
    and "act \<noteq> ''retry''"
  shows "sweep_exit_ok eid x db db'"
proof -
  obtain lost d where r: "call_span_run span eid ro ro lease db = (lost, d)" by fastforce
  have s: "tool_safe db d" using tool_safe_call_span [OF assms(2), of db eid ro ro lease] r by simp
  show ?thesis
    using assms(3) r s exit_ok_trans [OF s exit_ok_commit [OF assms(1) _ assms(4)]]
    by (auto simp: sweep_replay_def split: call_result.splits if_splits)
qed

lemma exit_ok_reconcile:
  assumes "sweep_safe env" and "sweep_reconcile env reps recs str pol lease ro intent db = (x, calls, db')"
  shows "sweep_exit_ok (ti_effect_id intent) x db db'"
proof -
  obtain lost d where r: "call_span_run (se_first env) (ti_effect_id intent) ro ro lease db = (lost, d)" by fastforce
  have sp: "span_safe (se_first env)" "span_safe (se_second env)" using assms(1) by (simp_all add: sweep_safe_def)
  have s: "tool_safe db d" using tool_safe_call_span [OF sp(1), of db "ti_effect_id intent" ro ro lease] r by simp
  show ?thesis
    using assms(2) r s exit_ok_trans [OF s exit_ok_commit [OF assms(1)]] exit_ok_trans [OF s exit_ok_mark_unknown]
      exit_ok_trans [OF s exit_ok_replay [OF assms(1) sp(2)]]
    by (auto simp: sweep_reconcile_def Let_def split: call_result.splits if_splits prod.splits)
qed

lemma exit_ok_body:
  assumes "sweep_safe env" and "sweep_body env reps recs str pol lease ro intent db = (x, calls, db')"
  shows "sweep_exit_ok (ti_effect_id intent) x db db'"
proof -
  have sp: "span_safe (se_first env)" using assms(1) by (simp add: sweep_safe_def)
  show ?thesis
    using assms(2) exit_ok_mark_unknown exit_ok_replay [OF assms(1) sp] exit_ok_reconcile [OF assms(1)]
    by (auto simp: sweep_body_def Let_def split: recovery_policy_kind.splits if_splits prod.splits)
qed

definition uncancelled ::
  "('a \<Rightarrow> tool_intent \<Rightarrow> json call_result) \<Rightarrow> ('a \<Rightarrow> tool_intent \<Rightarrow> adapter_value call_result) \<Rightarrow> bool" where
  "uncancelled reps recs \<longleftrightarrow> (\<forall>h i. reps h i \<noteq> Call_cancelled \<and> recs h i \<noteq> Call_cancelled)"

lemma sweep_body_uncancelled:
  assumes "uncancelled reps recs" and "sweep_body env reps recs str pol lease ro intent db = (x, calls, db')"
  shows "x \<noteq> Sweep_cancelled"
proof -
  have rep: "call_handler reps JNull h intent \<noteq> Call_cancelled" and rec: "call_handler recs (Av_value JNull) h intent \<noteq> Call_cancelled"
    for h using assms(1) by (simp_all add: call_handler_def uncancelled_def split: option.split)
  have com: "fst (sweep_commit env str eid ro res act d) \<noteq> Sweep_cancelled" for eid res act d
    by (simp add: sweep_commit_def split: prod.split sum.split)
  have mrk: "fst (sweep_mark_unknown env eid ro reason d) \<noteq> Sweep_cancelled" for eid reason d
    by (simp add: sweep_mark_unknown_def split: prod.split sum.split)
  have rpl: "fst (sweep_replay env span call str lease eid ro act d) \<noteq> Sweep_cancelled" if "call \<noteq> Call_cancelled"
    for span call eid act d
    using that com by (simp add: sweep_replay_def split: call_result.split prod.split)
  have "fst (sweep_reconcile env reps recs str pol lease ro intent d) \<noteq> Sweep_cancelled" for d
    using rep rec com mrk rpl by (simp add: sweep_reconcile_def Let_def split_beta split: call_result.split)
  then show ?thesis
    using assms(2) rep mrk rpl by (auto simp: sweep_body_def Let_def split_beta split: recovery_policy_kind.splits if_splits) (metis fst_conv)
qed

lemma sweep_body_calls:
  "sweep_body env reps recs str pol lease ro intent db = (x, calls, db') \<Longrightarrow> calls \<noteq> [] \<Longrightarrow> ti_recovery_policy intent \<noteq> Never_replay"
  by (auto simp: sweep_body_def Let_def split: recovery_policy_kind.splits prod.splits)

lemma lease_of_intent:
  assumes ok: "tool_ok db" and i: "intent_row eid db = Some i"
  obtains l where "lease_row eid db = Some l" and "tl_run_id l = te_run_id i"
proof -
  have mem: "i \<in> set (ledger db)" "is_intent eid i" using intent_row_SomeD [OF i] by auto
  then have "eid \<in> tl_effect_id ` set (leases db)"
    using tool_okD(3) [OF ok] by (force simp: leases_ok_def is_intent_def)
  then obtain l where l: "lease_row eid db = Some l" by (cases "lease_row eid db") (auto simp: lease_row_def find_by_None_iff)
  then obtain j where "j \<in> set (ledger db)" "is_intent eid j" "te_run_id j = tl_run_id l"
    using lease_row_SomeD [OF l] tool_okD(3) [OF ok] by (auto simp: leases_ok_def)
  with mem intent_unique [OF tool_okD(2) [OF ok]] have "te_run_id i = tl_run_id l" by metis
  with l that show thesis by simp
qed

lemma settled_settle:
  assumes "settle_terminal_run_intent now eid db = (Inr (Some intent), d)"
  shows "settled eid d"
proof -
  obtain i where i: "intent_row eid db = Some i" "terminal_row eid db = None"
    using assms by (auto simp: settle_terminal_run_intent_def split: option.splits if_splits)
  have eid: "te_effect_id i = eid" using intent_row_SomeD [OF i(1)] by (simp add: is_intent_def)
  have "settled eid (put_lease l (append_event t w ev ty ph sf res err True run i db))" for l t w ev ty ph sf res err run
    using terminal_row_new [of i db l t w ev ty ph sf res err run] eid i(2) by (auto simp: settled_def)
  then show ?thesis
    using assms i by (auto simp: settle_terminal_run_intent_def split: option.splits if_splits)
qed

lemma settle_total:
  assumes "tool_ok db"
  shows "fst (settle_terminal_run_intent now eid db) \<noteq> Inl e"
proof (cases "intent_row eid db")
  case (Some i)
  obtain l where "lease_row eid db = Some l" by (rule lease_of_intent [OF assms Some])
  then show ?thesis by (auto simp: settle_terminal_run_intent_def split: option.splits)
qed (simp add: settle_terminal_run_intent_def)

lemma claim_recovery_SomeD:
  assumes "claim_recovery_intent now eid ro lease db = (Some intent, db')"
  obtains i r where "intent_row eid db = Some i" and "intent = intent_from_row i" and "te_effect_id i = eid"
    and "find_run (te_run_id i) db = Some r"
proof -
  obtain i where i: "intent_row eid db = Some i" "intent = intent_from_row i"
    "affected (recovery_run now (te_run_id i) ro) (runs db) \<noteq> 0"
    using assms by (auto simp: claim_recovery_intent_def Let_def split: option.splits if_splits)
  then obtain r where "r \<in> set (runs db)" "run_id r = te_run_id i"
    by (auto simp: affected_def filter_empty_conv recovery_run_def)
  then have "te_run_id i \<in> run_id ` set (runs db)" by (metis imageI)
  then have "find_run (te_run_id i) db \<noteq> None" by (simp add: find_run_def find_by_None_iff)
  moreover have "te_effect_id i = eid" using intent_row_SomeD [OF i(1)] by (simp add: is_intent_def)
  ultimately show thesis using that i by blast
qed

lemma release_total:
  assumes "tool_ok db" and "intent_row eid db = Some i" and "find_run (te_run_id i) db = Some r"
    and "fst (release_recovery_claim now eid ro retry db) = Inl e"
  shows "\<exists>x. e = ToolEffectLeaseLost x"
proof -
  obtain l where "lease_row eid db = Some l" "tl_run_id l = te_run_id i" by (rule lease_of_intent [OF assms(1,2)])
  with assms(3,4) show ?thesis by (auto simp: release_recovery_claim_def Let_def split: if_splits)
qed

lemma run_mono: "tool_le db db' \<Longrightarrow> find_run rid db = Some r \<Longrightarrow> \<exists>r'. find_run rid db' = Some r'"
  unfolding tool_le_def using db_leD [of db db' rid r] by blast

text \<open>What the sweep of one effect leaves behind.\<close>

definition steady :: "'d sweep_env \<Rightarrow> bool" where
  "steady env \<longleftrightarrow> \<not> se_settle_fault env \<and> \<not> se_claim_fault env \<and> \<not> se_release_fault env"

definition stops_for :: "bool \<Rightarrow> bool \<Rightarrow> sweep_stop + 'r \<Rightarrow> bool" where
  "stops_for cancelled failed res \<longleftrightarrow>
     (case res of
        Inl Stop_cancelled \<Rightarrow> cancelled
      | Inl Stop_database \<Rightarrow> failed
      | Inl (Stop_error _) \<Rightarrow> False
      | Inr _ \<Rightarrow> True)"

definition swept :: "sweep_stop + recovery_sweep_decision list \<Rightarrow> (string \<times> string) list \<Rightarrow> 'z tool_db_scheme \<Rightarrow> bool" where
  "swept res calls db \<longleftrightarrow>
     (case res of Inl _ \<Rightarrow> True
      | Inr ds \<Rightarrow> (\<forall>d\<in>set ds. rsd_action d = ''retry'' \<or> settled (rsd_effect_id d) db))
     \<and> (\<forall>(phase, eid)\<in>set calls. \<exists>i. intent_row eid db = Some i \<and> te_recovery_policy i \<noteq> Never_replay)"

lemma recover_claimed_swept:
  assumes ok: "tool_ok dc" and safe: "sweep_safe env"
    and m: "claim_recovery_intent t eid ro lease dc = (Some intent, db)"
    and r: "recover_claimed env reps recs str reg lease eid ro intent db = (res, calls, db')"
  shows "tool_safe dc db' \<and> swept res calls db' \<and> stops_for (\<not> uncancelled reps recs) (\<not> steady env) res"
proof -
  have int: "tool_safe y (se_gap env y)" "tool_safe y (se_release env y)" for y
    using safe by (simp_all add: sweep_safe_def)
  obtain i run where i: "intent_row eid dc = Some i" "intent = intent_from_row i" "te_effect_id i = eid"
    "find_run (te_run_id i) dc = Some run"
    using claim_recovery_SomeD [OF m] by blast
  have s2: "tool_safe dc db" using tool_safe_claim_recovery [of dc t eid ro lease] m by simp
  obtain x cs d3 where b: "sweep_body env reps recs str (resolve reg (ti_tool_name intent)) lease ro intent (se_gap env db) = (x, cs, d3)"
    by (cases "sweep_body env reps recs str (resolve reg (ti_tool_name intent)) lease ro intent (se_gap env db)")
  have sb: "sweep_exit_ok eid x dc d3"
    using exit_ok_trans [OF tool_safe_trans [OF s2 int(1)]] exit_ok_body [OF safe b] i(2,3) by simp
  then have s3: "tool_safe dc d3" by (simp add: sweep_exit_ok_def)
  define rel where "rel = release_recovery_claim (se_end env) eid ro 30 (se_release env d3)"
  have s4: "tool_safe dc (se_release env d3)" by (rule tool_safe_trans [OF s3 int(2)])
  have s5: "tool_safe dc (snd rel)" unfolding rel_def by (rule tool_safe_trans [OF s4 tool_safe_release_recovery])
  have lost: "\<exists>u. e = ToolEffectLeaseLost u" if "fst rel = Inl e" for e
    using release_total [OF tool_safeD(1) [OF s4 ok] intent_row_mono [OF tool_safeD(2) [OF s4 ok] i(1)]] that
      run_mono [OF tool_safeD(2) [OF s4 ok] i(4)] unfolding rel_def by blast
  have called: "\<forall>(phase, e)\<in>set (map (\<lambda>phase. (phase, eid)) cs). \<exists>j. intent_row e z = Some j \<and> te_recovery_policy j \<noteq> Never_replay"
    if "tool_safe dc z" for z
  proof (cases "cs = []")
    case False
    from sweep_body_calls [OF b False] i(2) have "te_recovery_policy i \<noteq> Never_replay" by (simp add: intent_from_row_def)
    with intent_row_mono [OF tool_safeD(2) [OF that ok] i(1)] show ?thesis by auto
  qed simp
  show ?thesis
  proof (cases x)
    case (Sweep_action act)
    then have "settled eid d3" using sb ok by (simp add: sweep_exit_ok_def)
    with Sweep_action r b s3 called [OF s3] show ?thesis by (auto simp: recover_claimed_def swept_def stops_for_def)
  next
    case Sweep_cancelled
    with r b s3 called [OF s3] sweep_body_uncancelled [OF _ b] show ?thesis by (auto simp: recover_claimed_def swept_def stops_for_def)
  next
    case Sweep_raises
    show ?thesis
    proof (cases "se_release_fault env")
      case True
      with Sweep_raises r b s4 called [OF s4] show ?thesis by (auto simp: recover_claimed_def swept_def stops_for_def steady_def)
    next
      case False
      obtain q d4 where q: "rel = (q, d4)" by fastforce
      have "recover_claimed env reps recs str reg lease eid ro intent db =
          (Inr [\<lparr>rsd_effect_id = eid, rsd_run_id = ti_run_id intent, rsd_action = ''retry''\<rparr>], map (\<lambda>phase. (phase, eid)) cs, d4)"
        using Sweep_raises b q lost False by (cases q) (auto simp: recover_claimed_def rel_def)
      with r q s5 called [OF s5] show ?thesis by (auto simp: swept_def stops_for_def)
    qed
  qed
qed

lemma recover_effect_swept:
  assumes ok: "tool_ok db" and safe: "sweep_safe env"
    and r: "recover_effect env reps recs str reg lease eid db = (res, calls, db')"
  shows "tool_safe db db' \<and> swept res calls db' \<and> stops_for (\<not> uncancelled reps recs) (\<not> steady env) res"
proof -
  have int: "tool_safe x (se_before env x)" "tool_safe x (se_claim env x)" for x
    using safe by (simp_all add: sweep_safe_def)
  obtain y d1 where y: "settle_terminal_run_intent (se_settle_now env) eid (se_before env db) = (y, d1)" by fastforce
  have s1: "tool_safe db d1" using tool_safe_trans [OF int(1) tool_safe_settle] y by (metis snd_conv)
  have s: "tool_safe db (se_claim env d1)" by (rule tool_safe_trans [OF s1 int(2)])
  have "y \<noteq> Inl e" for e using settle_total [OF tool_safeD(1) [OF int(1) ok], of "se_settle_now env" eid e] y by simp
  then obtain z where z: "y = Inr z" by (cases y) auto
  consider (settling) "se_settle_fault env" | (over) intent where "\<not> se_settle_fault env" "z = Some intent"
    | (claiming) "\<not> se_settle_fault env" "z = None" "se_claim_fault env"
    | (claimed) "\<not> se_settle_fault env" "z = None" "\<not> se_claim_fault env" by (cases z) auto
  then show ?thesis
  proof cases
    case settling
    then show ?thesis using r int(1) by (auto simp: recover_effect_def swept_def stops_for_def steady_def)
  next
    case over
    have "settled eid d1" using settled_settle y z over by simp
    with r y z over s1 show ?thesis by (auto simp: recover_effect_def swept_def stops_for_def)
  next
    case claiming
    then show ?thesis using r y z s by (auto simp: recover_effect_def swept_def stops_for_def steady_def)
  next
    case claimed
    define ro where "ro = ''tool-recovery:'' @ se_uuid env"
    obtain m d2 where m: "claim_recovery_intent (se_claim_now env) eid ro lease (se_claim env d1) = (m, d2)" by fastforce
    have s2: "tool_safe db d2"
      using tool_safe_trans [OF s tool_safe_claim_recovery [of "se_claim env d1" "se_claim_now env" eid ro lease]] m by simp
    have red: "recover_effect env reps recs str reg lease eid db =
        (case m of None \<Rightarrow> (Inr [], [], d2) | Some intent \<Rightarrow> recover_claimed env reps recs str reg lease eid ro intent d2)"
      unfolding recover_effect_def Let_def ro_def [symmetric] y z using claimed by (simp add: m split: option.split)
    show ?thesis
    proof (cases m)
      case (Some intent)
      with m have "claim_recovery_intent (se_claim_now env) eid ro lease (se_claim env d1) = (Some intent, d2)" by simp
      from recover_claimed_swept [OF tool_safeD(1) [OF s ok] safe this, of reps recs str reg res calls db'] r red Some
      show ?thesis using tool_safe_trans [OF s, of db'] by auto
    qed (use r red s2 in \<open>auto simp: swept_def stops_for_def\<close>)
  qed
qed

lemma swept_append:
  assumes "tool_le db db'" and "swept (Inr ds) calls db" and "swept res calls' db'"
  shows "swept (case res of Inl stop \<Rightarrow> Inl stop | Inr ds' \<Rightarrow> Inr (ds @ ds')) (calls @ calls') db'"
  using assms settled_mono [OF assms(1)] intent_row_mono [OF assms(1)]
  by (auto simp: swept_def split: sum.split)

lemma stops_for_mono: "stops_for c f res \<Longrightarrow> (f \<Longrightarrow> f') \<Longrightarrow> stops_for c f' res"
  by (auto simp: stops_for_def split: sum.splits sweep_stop.splits)

lemma stops_for_append: "stops_for c f (case res of Inl stop \<Rightarrow> Inl stop | Inr ds' \<Rightarrow> Inr (ds @ ds')) = stops_for c f res"
  by (simp add: stops_for_def split: sum.split)

lemma recover_effects_swept:
  assumes "\<And>eid. sweep_safe (env eid)" and "tool_ok db"
    and "recover_effects env reps recs str reg lease eids db = (res, calls, db')"
  shows "tool_safe db db' \<and> swept res calls db' \<and> stops_for (\<not> uncancelled reps recs) (\<exists>eid\<in>set eids. \<not> steady (env eid)) res"
  using assms(2,3)
proof (induction eids arbitrary: db res calls)
  case (Cons eid eids)
  obtain r1 c1 d1 where 1: "recover_effect (env eid) reps recs str reg lease eid db = (r1, c1, d1)"
    by (cases "recover_effect (env eid) reps recs str reg lease eid db")
  note s1 = recover_effect_swept [OF Cons.prems(1) assms(1) 1]
  show ?case
  proof (cases r1)
    case (Inl stop)
    have "stops_for (\<not> uncancelled reps recs) (\<exists>e\<in>set (eid # eids). \<not> steady (env e)) r1"
      using s1 by (auto intro: stops_for_mono)
    then show ?thesis using Cons.prems(2) 1 s1 Inl by (auto simp: stops_for_def)
  next
    case (Inr ds)
    obtain r2 c2 d2 where 2: "recover_effects env reps recs str reg lease eids d1 = (r2, c2, d2)"
      by (cases "recover_effects env reps recs str reg lease eids d1")
    have ok1: "tool_ok d1" using s1 Cons.prems(1) tool_safeD(1) by blast
    have res: "res = (case r2 of Inl stop \<Rightarrow> Inl stop | Inr ds' \<Rightarrow> Inr (ds @ ds'))" "calls = c1 @ c2" "db' = d2"
      using Cons.prems(2) 1 2 Inr by (auto split: sum.splits)
    have s2: "tool_safe d1 d2 \<and> swept r2 c2 d2 \<and> stops_for (\<not> uncancelled reps recs) (\<exists>e\<in>set eids. \<not> steady (env e)) r2"
      using Cons.IH [OF ok1, of r2 c2] 2 res(3) by simp
    have "swept res calls db'"
      using swept_append [OF tool_safeD(2) [OF _ ok1]] s1 s2 Inr unfolding res by blast
    moreover have "tool_safe db db'" using s1 s2 tool_safe_trans res(3) by blast
    moreover have "stops_for (\<not> uncancelled reps recs) (\<exists>e\<in>set (eid # eids). \<not> steady (env e)) res"
      unfolding res(1) stops_for_append using s2 by (auto intro: stops_for_mono)
    ultimately show ?thesis by blast
  qed
qed (simp add: swept_def stops_for_def)

definition sample_sweep_env :: "time \<Rightarrow> tool_db sweep_env" where
  "sample_sweep_env now =
     \<lparr>se_before = (\<lambda>d. d), se_settle_now = now, se_settle_fault = False, se_claim = (\<lambda>d. d), se_claim_now = now,
      se_claim_fault = False, se_uuid = ''u'', se_gap = (\<lambda>d. d),
      se_first = quiet_span, se_second = quiet_span, se_commit = (\<lambda>_ d. d), se_commit_fault = (\<lambda>_. False),
      se_drop_fault = False, se_mark_fault = False, se_end = now, se_release = (\<lambda>d. d), se_release_fault = False\<rparr>"

lemma sample_sweep_safe: "sweep_safe (sample_sweep_env now)"
  by (simp add: sweep_safe_def span_safe_def sample_sweep_env_def quiet_span_def)

text \<open>
  C12. The recovery sweep never replays what must not be replayed. Whatever other processes commit during
  the sweep, whatever the registry says and however the adapters behave, every adapter it calls is
  called for an effect whose recorded policy is not \<open>never_replay\<close>, and the ledger stays well formed and
  append-only.
\<close>

theorem sweep_never_replays:
  assumes "tool_ok db" and "\<And>eid. sweep_safe (env eid)"
    and "recover_incomplete_tool_effects unread env reps recs str reg lease db = (res, calls, db')"
  shows "tool_ok db' \<and> tool_le db db'
     \<and> (\<forall>(phase, eid)\<in>set calls. \<exists>i. intent_row eid db' = Some i \<and> te_recovery_policy i \<noteq> Never_replay)"
proof (cases unread)
  case False
  then have "recover_effects env reps recs str reg lease (pending_effect_ids db) db = (res, calls, db')"
    using assms(3) by (simp add: recover_incomplete_tool_effects_def)
  from recover_effects_swept [OF assms(2,1) this] show ?thesis
    using tool_safeD assms(1) unfolding swept_def by blast
qed (use assms in \<open>auto simp: recover_incomplete_tool_effects_def\<close>)

text \<open>
  C13. The recovery sweep gets through. No broken adapter, lost claim or failed commit of a result or of an unknown
  outcome aborts it. It stops early only when an adapter call is cancelled, or when the database fails
  where the code does not catch it: when the pending effects are read, or when one of them is settled with its terminal
  run, claimed, or released after a failure. Otherwise it returns its decisions, and every effect it reports
  as handled (replayed, reconciled, needing attention, or closed with its run) has a durable outcome
  afterwards; only \<open>retry\<close> leaves an effect open.
\<close>

theorem sweep_completes:
  assumes "tool_ok db" and "\<And>eid. sweep_safe (env eid)"
  shows "case recover_incomplete_tool_effects unread env reps recs str reg lease db of
      (Inl stop, calls, db') \<Rightarrow>
        (stop = Stop_cancelled \<and> \<not> uncancelled reps recs)
        \<or> (stop = Stop_database \<and> (unread \<or> (\<exists>eid\<in>set (pending_effect_ids db).
              se_settle_fault (env eid) \<or> se_claim_fault (env eid) \<or> se_release_fault (env eid))))
    | (Inr ds, calls, db') \<Rightarrow> \<forall>d\<in>set ds. rsd_action d = ''retry'' \<or> settled (rsd_effect_id d) db'"
proof (cases unread)
  case False
  obtain res calls db' where r: "recover_effects env reps recs str reg lease (pending_effect_ids db) db = (res, calls, db')"
    by (cases "recover_effects env reps recs str reg lease (pending_effect_ids db) db")
  from recover_effects_swept [OF assms(2,1) r] False r show ?thesis
    by (auto simp: recover_incomplete_tool_effects_def swept_def stops_for_def steady_def split: sum.split sweep_stop.splits)
qed (simp add: recover_incomplete_tool_effects_def)

definition replayable_db :: tool_db where
  "replayable_db = tool_step (Tx_intent False 1000000 ''e1'' ''x1'' ''r1'' ''w1'' ''tool:a'' ''call'' ''Read'' ''h''
     [] ''k1'' Replay_safe 1) sample_tool_db"

lemma replayable_db_ok: "tool_ok replayable_db"
  unfolding replayable_db_def by (rule tools.inv_step [OF _ sample_tool_ok]) simp

definition sample_registry :: "nat recovery_registry" where
  "sample_registry = [''Read'' \<mapsto> \<lparr>tp_policy = Replay_safe, tp_replayer = Some 1, tp_reconciler = None\<rparr>]"

theorem sweep_never_replays_witness:
  "\<exists>res db'. recover_incomplete_tool_effects False (\<lambda>_. sample_sweep_env 9000000) (\<lambda>_ _. Returns (JInt 7)) (\<lambda>_ _. Raises) (\<lambda>_. [])
       sample_registry 60 replayable_db = (res, [(''replay'', ''e1'')], db')
     \<and> (\<exists>i. intent_row ''e1'' db' = Some i \<and> te_recovery_policy i \<noteq> Never_replay)"
proof -
  define out where "out = recover_incomplete_tool_effects False (\<lambda>_. sample_sweep_env 9000000) (\<lambda>_ _. Returns (JInt 7)) (\<lambda>_ _. Raises)
     (\<lambda>_. []) sample_registry 60 replayable_db"
  have "fst (snd out) = [(''replay'', ''e1'')]" unfolding out_def by code_simp
  then obtain res db' where o: "out = (res, [(''replay'', ''e1'')], db')" by (cases out) auto
  from sweep_never_replays [OF replayable_db_ok sample_sweep_safe o [unfolded out_def]] o show ?thesis
    unfolding out_def by auto
qed

theorem sweep_completes_witness:
  "\<exists>ds calls db'. recover_incomplete_tool_effects False (\<lambda>_. sample_sweep_env 9000000) (\<lambda>_ _. Raises) (\<lambda>_ _. Raises) (\<lambda>_. [])
       sample_registry 60 replayable_db = (Inr ds, calls, db') \<and> map rsd_action ds = [''retry'']"
proof -
  define out where "out = recover_incomplete_tool_effects False (\<lambda>_. sample_sweep_env 9000000) (\<lambda>_ _. Raises) (\<lambda>_ _. Raises)
     (\<lambda>_. []) sample_registry 60 replayable_db"
  have never: "\<not> se_settle_fault (sample_sweep_env t)" "\<not> se_claim_fault (sample_sweep_env t)" "\<not> se_release_fault (sample_sweep_env t)" for t
    by (simp_all add: sample_sweep_env_def)
  have "case out of (Inl stop, _, _) \<Rightarrow> False | (Inr ds, _, _) \<Rightarrow> \<forall>d\<in>set ds. rsd_action d = ''retry'' \<or> settled (rsd_effect_id d) (snd (snd out))"
    using sweep_completes [where env = "\<lambda>_. sample_sweep_env 9000000" and unread = False and reps = "\<lambda>_ _. Raises" and recs = "\<lambda>_ _. Raises"
        and str = "\<lambda>_. []" and reg = sample_registry and lease = 60, OF replayable_db_ok sample_sweep_safe] never
    unfolding out_def [symmetric] by (auto simp: uncancelled_def split: sum.splits prod.splits)
  then obtain ds calls db' where o: "out = (Inr ds, calls, db')" by (cases out; cases "fst out") auto
  have "(case fst out of Inl _ \<Rightarrow> False | Inr ds \<Rightarrow> map rsd_action ds = [''retry''])" unfolding out_def by code_simp
  with o show ?thesis unfolding out_def by auto
qed

end
