(* ===== verification/Ledger_Retention.thy ===== *)
theory Ledger_Retention
  imports Tool_Effects
begin

text \<open>
  The retention sweep of the tool ledger, \<open>ToolEffectJournal.prune_settled\<close>, and what holds of the ledger when it runs beside all
  other transactions: \<open>ledger_event\<close> adds the sweep to the events of \<open>Tool_Effects\<close>. The sweep deletes old facts one by one, so
  an outcome may stay behind without its intent; the invariant that survives it is that a key names at most one
  intent and an effect has at most one outcome. Two tables of the sweep, the usage attempts and the events of
  \<open>core/db/models/logs.py\<close>, are not part of the model, and the time at which an operation of a run was inserted is set by the
  database: \<open>op_created\<close> gives it.
\<close>

section \<open>The sweep\<close>

definition day :: time where
  "day = 86400 * 1000000"

definition ATTENTION_RETENTION_FACTOR :: int where
  "ATTENTION_RETENTION_FACTOR = 4"

definition retention_tier :: "time \<Rightarrow> int \<Rightarrow> run_status \<Rightarrow> time" where
  "retention_tier now days st =
     (if st = Run_needs_attention then now - days * ATTENTION_RETENTION_FACTOR * day else now - days * day)"

definition earliest_cutoff :: "time \<Rightarrow> int \<Rightarrow> time" where
  "earliest_cutoff now days = max (now - days * day) (now - days * ATTENTION_RETENTION_FACTOR * day)"

definition prunable :: "time \<Rightarrow> int \<Rightarrow> 'z chat_db_scheme \<Rightarrow> string \<Rightarrow> time \<Rightarrow> bool" where
  "prunable now days db rid stamp \<longleftrightarrow>
     stamp < earliest_cutoff now days \<and>
     list_ex (\<lambda>r. run_id r = rid \<and> run_status r \<notin> set LIVE_STATUSES \<and> stamp < retention_tier now days (run_status r)) (runs db)"

definition snapshot_prunable :: "time \<Rightarrow> int \<Rightarrow> chat_run \<Rightarrow> bool" where
  "snapshot_prunable now days r \<longleftrightarrow>
     run_status r \<notin> set LIVE_STATUSES \<and>
     (case run_completed_at r of None \<Rightarrow> False | Some t \<Rightarrow> t < earliest_cutoff now days \<and> t < retention_tier now days (run_status r)) \<and>
     run_recovery_snapshot r \<noteq> None"

definition prune_settled ::
  "(chat_run_operation \<Rightarrow> time) \<Rightarrow> time \<Rightarrow> int \<Rightarrow> 'z tool_db_scheme \<Rightarrow> nat \<times> 'z tool_db_scheme" where
  "prune_settled op_created now days db =
     (let old_fact = (\<lambda>e. prunable now days db (te_run_id e) (te_created_at e));
          old_lease = (\<lambda>l. prunable now days db (tl_run_id l) (tl_updated_at l));
          old_op = (\<lambda>x. prunable now days db (op_run_id x) (op_created x))
      in (length (filter old_fact (ledger db)) + length (filter old_op (operations db))
            + affected (snapshot_prunable now days) (runs db),
          db\<lparr>ledger := filter (\<lambda>e. \<not> old_fact e) (ledger db),
             leases := filter (\<lambda>l. \<not> old_lease l) (leases db),
             operations := filter (\<lambda>x. \<not> old_op x) (operations db),
             runs := update_where (snapshot_prunable now days)
                       (\<lambda>r. r\<lparr>run_recovery_snapshot := None, run_request_payload := None\<rparr>) (runs db)\<rparr>))"

section \<open>The ledger with its sweep\<close>

datatype 'd ledger_event =
    Lg_tx "'d tool_event"
  | Lg_prune "chat_run_operation \<Rightarrow> time" time int

fun ledger_step :: "'z tool_db_scheme ledger_event \<Rightarrow> 'z tool_db_scheme \<Rightarrow> 'z tool_db_scheme" where
  "ledger_step (Lg_tx e) db = tool_step e db"
| "ledger_step (Lg_prune op_created now days) db = snd (prune_settled op_created now days db)"

fun ledger_good :: "'z tool_db_scheme ledger_event \<Rightarrow> bool" where
  "ledger_good (Lg_tx e) = tool_good e"
| "ledger_good (Lg_prune _ _ _) = True"

definition facts_unique :: "tool_effect list \<Rightarrow> bool" where
  "facts_unique L \<longleftrightarrow> distinct (some_values te_idempotency_key L) \<and> distinct (some_values te_terminal_effect_id L)"

text \<open>What every transaction does to the ledger, whatever its state: it appends, and keeps keys and outcomes unique.\<close>

definition grows :: "'z tool_db_scheme \<Rightarrow> 'z tool_db_scheme \<Rightarrow> bool" where
  "grows db db' \<longleftrightarrow> prefix (ledger db) (ledger db') \<and> (facts_unique (ledger db) \<longrightarrow> facts_unique (ledger db'))"

lemma grows_refl [simp]: "grows db db"
  by (simp add: grows_def)

lemma grows_frame: "ledger db' = ledger db \<Longrightarrow> grows db db'"
  by (simp add: grows_def)

lemma grows_trans: "grows a b \<Longrightarrow> grows b c \<Longrightarrow> grows a c"
  unfolding grows_def using prefix_order.trans by blast

lemma grows_put_lease: "grows db d \<Longrightarrow> grows db (put_lease l d)"
  by (simp add: grows_def)

lemma grows_append_event:
  assumes "fin \<Longrightarrow> terminal_row (te_effect_id i) db = None"
  shows "grows db (append_event now w ev ty ph sf res err fin run i db)"
proof -
  obtain e where "ledger (append_event now w ev ty ph sf res err fin run i db) = ledger db @ [e]"
    "te_idempotency_key e = None" "te_terminal_effect_id e = (if fin then Some (te_effect_id i) else None)"
    using ledger_append_event [of now w ev ty ph sf res err fin run i db] by blast
  then show ?thesis using assms by (auto simp: grows_def facts_unique_def terminal_row_None)
qed

lemma grows_mark_unknown_locked: "mark_unknown_locked now w c reason run i l db = Inr d \<Longrightarrow> grows db d"
  by (auto simp: mark_unknown_locked_def intro!: grows_put_lease grows_append_event split: if_splits)

lemma grows_takeover: "grows db (snd (takeover now w c lease run i l db))"
proof -
  define db0 where "db0 = put_lease (l\<lparr>tl_run_owner := w, tl_claim_owner := Some c,
      tl_expires_at := Some (lease_until now lease), tl_updated_at := now\<rparr>) db"
  have g: "grows db (append_event now w ev ty ph sf res err False r i db0)" for ev ty ph sf res err r
    by (rule grows_trans [OF _ grows_append_event]) (simp_all add: db0_def grows_frame)
  show ?thesis
    unfolding takeover_def Let_def db0_def [symmetric]
    using g grows_trans [OF g grows_mark_unknown_locked] by (auto split: option.split sum.split)
qed

lemma grows_existing_decision: "grows db (snd (existing_decision now key rid w c tool hash lease db))"
  using grows_takeover
  by (auto simp: existing_decision_def existing_owned_def Let_def split: option.split sum.split)

lemma grows_intent_transaction:
  "intent_transaction fault now eid resid rid w c call tool hash red key pol lease db = Committed row d \<Longrightarrow> grows db d"
proof -
  assume "intent_transaction fault now eid resid rid w c call tool hash red key pol lease db = Committed row d"
  then obtain run where k: "keyed_row key db = None"
    and r: "insert_intent now eid resid rid w c tool call hash red key pol lease run db = (row, d)"
    by (auto simp: intent_transaction_def split: sum.splits if_splits prod.splits)
  obtain seq where "ledger d = ledger db @ [intent_fact now eid resid rid seq tool call hash red key pol]"
    using r ledger_of_more [OF more_append_locked, of w _ _ _ _ None _ db]
    by (auto simp: insert_intent_def Let_def split_beta add_fact_def)
  then show ?thesis using k by (auto simp: grows_def facts_unique_def intent_fact_def keyed_row_None)
qed

lemma grows_try_commit: "grows db (snd (try_commit_result str now eid w c res failed recon db))"
proof -
  have "grows db (snd (commit_result_locked str now w res failed recon i l db))" for i l
    by (auto simp: commit_result_locked_def intro!: grows_put_lease grows_append_event split: option.split sum.split)
  then show ?thesis by (simp add: try_commit_result_def split: option.split)
qed

lemma grows_mark_unknown: "grows db (snd (mark_unknown now eid w c reason db))"
  using grows_mark_unknown_locked by (auto simp: mark_unknown_def split: option.split sum.split)

lemma grows_settle: "grows db (snd (settle_terminal_run_intent now eid db))"
proof -
  have "te_effect_id i = eid" if "intent_row eid db = Some i" for i
    using intent_row_SomeD [OF that] by (simp add: is_intent_def)
  then show ?thesis
    by (auto simp: settle_terminal_run_intent_def intro!: grows_put_lease grows_append_event split: option.split)
qed

lemma grows_claim_recovery: "grows db (snd (claim_recovery_intent now eid ro lease db))"
proof -
  have fr: "grows db (db1\<lparr>leases := ls\<rparr>)" if "db1 = update_runs P f db" for P f db1 ls
    using that ledger_of_more [OF more_update_runs, of P f db] by (simp add: grows_def)
  show ?thesis
    using grows_trans [OF fr grows_append_event]
    by (auto simp: claim_recovery_intent_def Let_def split: option.split)
qed

lemma grows_put_run: "grows db d \<Longrightarrow> grows db (put_run r d)"
  using ledger_of_more [OF more_put_run, of r d] by (simp add: grows_def)

lemma grows_step: "tool_good e \<Longrightarrow> grows db (tool_step e db)"
proof (cases e)
  case (Tx_journal j)
  assume "tool_good e"
  with Tx_journal show ?thesis using ledger_of_more [OF more_journal, of j db] by (simp add: grows_frame)
next
  case (Tx_release_recovery now eid ro retry)
  then show ?thesis by (auto simp: release_recovery_claim_def Let_def intro!: grows_put_run grows_put_lease split: option.split)
next
  case (Tx_drop_run_lease now eid ro)
  then show ?thesis by (auto simp: drop_run_lease_def intro!: grows_put_run split: option.split)
qed (auto simp: grows_existing_decision grows_try_commit grows_mark_unknown grows_settle grows_claim_recovery
      acquire_invocation_claim_def abandon_invocation_claim_def intro: grows_frame grows_intent_transaction split: intent_commit.split)

lemma some_values_filter: "distinct (some_values f xs) \<Longrightarrow> distinct (some_values f (filter P xs))"
proof (induction xs)
  case (Cons x xs)
  have "set (some_values f (filter P xs)) \<subseteq> set (some_values f xs)" by (auto simp: set_some_values)
  with Cons show ?case by (auto split: option.splits)
qed simp

lemma ledger_prune:
  "ledger (snd (prune_settled op_created now days db)) = filter (\<lambda>e. \<not> prunable now days db (te_run_id e) (te_created_at e)) (ledger db)"
  by (simp add: prune_settled_def Let_def)

lemma prunable_old: "prunable now days db rid stamp \<Longrightarrow> stamp < earliest_cutoff now days"
  by (simp add: prunable_def)

interpretation facts: step_system ledger_step ledger_good "\<lambda>db. facts_unique (ledger db)"
proof
  fix e :: "'z tool_db_scheme ledger_event" and db :: "'z tool_db_scheme"
  assume "ledger_good e" and "facts_unique (ledger db)"
  then show "facts_unique (ledger (ledger_step e db))"
    using grows_step by (cases e) (auto simp: grows_def facts_unique_def ledger_prune some_values_filter)
qed

text \<open>A fact is gone only when a sweep has come after the end of its retention.\<close>

definition kept_until :: "'z tool_db_scheme ledger_event list \<Rightarrow> time \<Rightarrow> bool" where
  "kept_until es stamp \<longleftrightarrow> (\<forall>op_created now days. Lg_prune op_created now days \<in> set es \<longrightarrow> earliest_cutoff now days \<le> stamp)"

lemma find_filter: "find P xs = Some x \<Longrightarrow> Q x \<Longrightarrow> find P (filter Q xs) = Some x"
  by (induction xs) (auto split: if_splits)

lemma find_ledger_step:
  assumes "ledger_good e" and "kept_until [e] (te_created_at x)" and "find P (ledger db) = Some x"
  shows "find P (ledger (ledger_step e db)) = Some x"
proof (cases e)
  case (Lg_tx t)
  have "prefix (ledger db) (ledger (tool_step t db))" using assms(1) Lg_tx grows_step [of t db] by (simp add: grows_def)
  from find_prefix [OF this assms(3)] show ?thesis by (simp add: Lg_tx)
next
  case (Lg_prune op_created now days)
  have "\<not> prunable now days db (te_run_id x) (te_created_at x)"
    using assms(2) Lg_prune prunable_old [of now days db] by (force simp: kept_until_def)
  then show ?thesis using assms(3) Lg_prune by (simp add: ledger_prune find_filter)
qed

lemma find_ledger_run:
  assumes "list_all ledger_good es" and "kept_until es (te_created_at x)" and "find P (ledger db) = Some x"
  shows "find P (ledger (run_steps ledger_step es db)) = Some x"
  using assms
proof (induction es arbitrary: db)
  case (Cons e es)
  have "kept_until [e] (te_created_at x)" "kept_until es (te_created_at x)" using Cons.prems(2) by (auto simp: kept_until_def)
  then show ?case using Cons find_ledger_step [of e x P db] by simp
qed simp

lemma run_without_prune:
  "list_all (\<lambda>e. \<exists>t. e = Lg_tx t) es \<Longrightarrow> list_all ledger_good es \<Longrightarrow>
   \<exists>ts. run_steps ledger_step es db = run_steps tool_step ts db \<and> list_all tool_good ts"
proof (induction es arbitrary: db)
  case (Cons e es)
  then obtain t where t: "e = Lg_tx t" "tool_good t" by auto
  obtain ts where "run_steps ledger_step es (tool_step t db) = run_steps tool_step ts (tool_step t db)" "list_all tool_good ts"
    using Cons.IH [of "tool_step t db"] Cons.prems by auto
  with t show ?case by (intro exI [of _ "t # ts"]) simp
qed (auto intro: exI [of _ "[]"])

section \<open>Properties\<close>

text \<open>
  C8. Under any interleaving of the transactions of the tool ledger, its retention sweep and the run journal, by any number of
  processes, a key names at most one intent and an effect has at most one outcome, and a fact that is in the
  ledger stays there until a sweep comes after the end of its retention. As long as no sweep runs, also
  every fact belongs to an intent of the same run and has its own operation in that run's gap-free
  journal, every intent has exactly one claim row, and facts are only ever appended.
\<close>

theorem tool_ledger_interleaving:
  assumes "tool_ok db" and "list_all ledger_good es"
  shows "facts_unique (ledger (run_steps ledger_step es db))
    \<and> (\<forall>e\<in>set (ledger db). kept_until es (te_created_at e) \<longrightarrow> e \<in> set (ledger (run_steps ledger_step es db)))
    \<and> (list_all (\<lambda>e. \<exists>t. e = Lg_tx t) es \<longrightarrow> tool_ok (run_steps ledger_step es db) \<and> tool_le db (run_steps ledger_step es db))"
proof (intro conjI ballI impI)
  show "facts_unique (ledger (run_steps ledger_step es db))"
    using tool_okD(2) [OF assms(1)] by (intro facts.inv_run [OF assms(2)]) (simp add: ledger_ok_def facts_unique_def)
  show "e \<in> set (ledger (run_steps ledger_step es db))" if "e \<in> set (ledger db)" "kept_until es (te_created_at e)" for e
    using find_ledger_run [OF assms(2) that(2), of "\<lambda>x. x = e" db] find_unique [OF that(1), of "\<lambda>x. x = e"] find_SomeD by fastforce
  assume "list_all (\<lambda>e. \<exists>t. e = Lg_tx t) es"
  then obtain ts where "run_steps ledger_step es db = run_steps tool_step ts db" "list_all tool_good ts"
    using run_without_prune [OF _ assms(2)] by blast
  then show "tool_ok (run_steps ledger_step es db)" "tool_le db (run_steps ledger_step es db)"
    using tools.inv_run [OF _ assms(1)] tool_le_run [OF _ assms(1)] by auto
qed

definition settled_ledger_events :: "tool_db ledger_event list" where
  "settled_ledger_events =
     [Lg_tx (Tx_commit (\<lambda>_. []) 1500000 ''e1'' ''w1'' ''tool:a'' (JInt 7) False False),
      Lg_tx (Tx_journal (Ev_complete 1600000 ''r1'' ''w1'' Run_completed None None None None None)),
      Lg_prune (\<lambda>_. 0) (1000000 + 7 * day) 7]"

theorem tool_ledger_interleaving_witness:
  "facts_unique (ledger (run_steps ledger_step settled_ledger_events sample_intent_db))
   \<and> length (ledger (run_steps ledger_step settled_ledger_events sample_intent_db)) = 2
   \<and> ledger (run_steps ledger_step (settled_ledger_events @ [Lg_prune (\<lambda>_. 0) (1500001 + 7 * day) 7]) sample_intent_db) = []"
proof -
  have "list_all ledger_good settled_ledger_events" by (simp add: settled_ledger_events_def)
  moreover have "length (ledger (run_steps ledger_step settled_ledger_events sample_intent_db)) = 2" by code_simp
  moreover have "ledger (run_steps ledger_step (settled_ledger_events @ [Lg_prune (\<lambda>_. 0) (1500001 + 7 * day) 7]) sample_intent_db) = []"
    by code_simp
  ultimately show ?thesis using tool_ledger_interleaving [OF sample_intent_ok] by blast
qed

text \<open>
  C10. The outcome of an effect is final: once a decision about it can be read, the same decision is read after any further
  transactions, until a retention sweep comes after the end of the retention of its intent or its outcome. A late
  result does not replace an unknown outcome, and a late \<open>mark_unknown\<close> does not replace a result.
\<close>

theorem outcome_is_final:
  assumes "list_all ledger_good es" and "intent_row eid db = Some i" and "terminal_row eid db = Some t"
    and "kept_until es (te_created_at i)" and "kept_until es (te_created_at t)"
  shows "terminal_decision eid (run_steps ledger_step es db) = Some (decision_from_terminal (intent_from_row i) t)"
  using find_ledger_run [OF assms(1,4), of "is_intent eid" db] find_ledger_run [OF assms(1,5), of "\<lambda>x. te_terminal_effect_id x = Some eid" db]
    assms(2,3) by (simp add: terminal_decision_def intent_row_def terminal_row_def find_by_def)

theorem outcome_is_final_witness:
  "map_option id_result (terminal_decision ''e1''
     (run_steps ledger_step [Lg_tx (Tx_mark_unknown 1600000 ''e1'' ''w1'' ''tool:a'' ''late''), Lg_prune (\<lambda>_. 0) (1000000 + 7 * day) 7]
        sample_result_db)) = Some (JInt 7)"
proof -
  define es :: "tool_db ledger_event list" where "es = [Lg_tx (Tx_mark_unknown 1600000 ''e1'' ''w1'' ''tool:a'' ''late''), Lg_prune (\<lambda>_. 0) (1000000 + 7 * day) 7]"
  have "map_option te_created_at (intent_row ''e1'' sample_result_db) = Some 1000000"
    "map_option (\<lambda>t. (te_created_at t, te_event_type t, te_result_payload t)) (terminal_row ''e1'' sample_result_db) = Some (1500000, Fact_result, JInt 7)"
    by code_simp+
  then obtain i t where i: "intent_row ''e1'' sample_result_db = Some i" "te_created_at i = 1000000"
    and t: "terminal_row ''e1'' sample_result_db = Some t" "te_created_at t = 1500000" "te_event_type t = Fact_result" "te_result_payload t = JInt 7"
    by auto
  have "earliest_cutoff (1000000 + 7 * day) 7 = 1000000" by code_simp
  then have "kept_until es 1000000" "kept_until es 1500000" by (auto simp: kept_until_def es_def)
  moreover have "list_all ledger_good es" by (simp add: es_def)
  ultimately show ?thesis
    using outcome_is_final [of es "''e1''" sample_result_db i t] i t unfolding es_def [symmetric] by (simp add: decision_from_terminal_def)
qed

text \<open>
  A sweep does not touch a run that is still live: its facts, its claims, its operations and its row are those of before.
\<close>

theorem prune_spares_live_runs:
  assumes "chat_db_ok db" and "find_run rid db = Some r" and "run_status r \<in> set LIVE_STATUSES"
  shows "filter (\<lambda>e. te_run_id e = rid) (ledger (snd (prune_settled op_created now days db))) = filter (\<lambda>e. te_run_id e = rid) (ledger db)
    \<and> filter (\<lambda>l. tl_run_id l = rid) (leases (snd (prune_settled op_created now days db))) = filter (\<lambda>l. tl_run_id l = rid) (leases db)
    \<and> filter (\<lambda>x. op_run_id x = rid) (operations (snd (prune_settled op_created now days db))) = filter (\<lambda>x. op_run_id x = rid) (operations db)
    \<and> find_run rid (snd (prune_settled op_created now days db)) = Some r"
proof -
  have live: "x = r" if "x \<in> set (runs db)" "run_id x = rid" for x using find_run_unique [OF assms(1) that(1)] that(2) assms(2) by auto
  have no: "\<not> prunable now days db rid stamp" for stamp using live assms(3) by (auto simp: prunable_def list_ex_iff)
  have keep: "filter (\<lambda>x. \<not> prunable now days db (f x) (g x) \<and> f x = rid) xs = filter (\<lambda>x. f x = rid) xs"
    for f :: "'y \<Rightarrow> string" and g xs using no by (induction xs) auto
  note keep3 = keep [of te_run_id te_created_at] keep [of tl_run_id tl_updated_at] keep [of op_run_id op_created]
  have "find_run rid (snd (prune_settled op_created now days db)) = Some r"
    using assms(2,3) by (simp add: prune_settled_def Let_def find_run_def find_by_update_where snapshot_prunable_def)
  then show ?thesis by (simp add: prune_settled_def Let_def keep3)
qed

end
