(* ===== verification/Context_Content.thy ===== *)
theory Context_Content
  imports Prelude "HOL-Library.List_Lexorder" "HOL-Library.Multiset"
begin

text \<open>
  The values a prompt is made of: \<open>core/immutable.py\<close>, \<open>canonical_json\<close> of
  \<open>core/llm/execution_manifest.py\<close> and the first half of \<open>core/llm/context_ir.py\<close>, that is token
  estimates, truncation and pruning. Values are JSON-like Python values, with the mutable and the
  frozen containers kept apart; floats, sets and SDK objects are left out. Text is a list of code
  points, and its size is that of its UTF-8 encoding. Python's \<open>str\<close> of a value that is not a string
  is the argument \<open>str_of\<close>.

  The lemmas show that freezing and thawing round-trip, that the hash preimage of a value does not
  depend on the order of its keys or on freezing, and that truncated text keeps within its bytes.
\<close>

section \<open>Values\<close>

datatype pyval =
    PNone
  | PBool bool
  | PInt int
  | PStr utext
  | PList "pyval list"
  | PTuple "pyval list"
  | PDict "(utext \<times> pyval) list"
  | PFrozenDict "(utext \<times> pyval) list"

definition utf :: "string \<Rightarrow> utext" where
  "utf s = map of_char s"

fun items_of :: "pyval \<Rightarrow> (utext \<times> pyval) list option" where
  "items_of (PDict d) = Some d"
| "items_of (PFrozenDict d) = Some d"
| "items_of _ = None"

fun elements_of :: "pyval \<Rightarrow> pyval list option" where
  "elements_of (PList xs) = Some xs"
| "elements_of (PTuple xs) = Some xs"
| "elements_of _ = None"

definition get :: "string \<Rightarrow> (utext \<times> pyval) list \<Rightarrow> pyval" where
  "get k d = (case dict_get (utf k) d of None \<Rightarrow> PNone | Some v \<Rightarrow> v)"

fun freeze_json :: "pyval \<Rightarrow> pyval" where
  "freeze_json (PFrozenDict d) = PFrozenDict d"
| "freeze_json (PDict d) = PFrozenDict (map (\<lambda>p. (fst p, freeze_json (snd p))) d)"
| "freeze_json (PList xs) = PTuple (map freeze_json xs)"
| "freeze_json (PTuple xs) = PTuple (map freeze_json xs)"
| "freeze_json v = v"

fun thaw_json :: "pyval \<Rightarrow> pyval" where
  "thaw_json (PDict d) = PDict (map (\<lambda>p. (fst p, thaw_json (snd p))) d)"
| "thaw_json (PFrozenDict d) = PDict (map (\<lambda>p. (fst p, thaw_json (snd p))) d)"
| "thaw_json (PTuple xs) = PList (map thaw_json xs)"
| "thaw_json (PList xs) = PList (map thaw_json xs)"
| "thaw_json v = v"

fun normalize_context_content :: "pyval \<Rightarrow> pyval" where
  "normalize_context_content (PDict d) = PDict (map (\<lambda>p. (fst p, normalize_context_content (snd p))) d)"
| "normalize_context_content (PFrozenDict d) = PDict (map (\<lambda>p. (fst p, normalize_context_content (snd p))) d)"
| "normalize_context_content (PList xs) = PList (map normalize_context_content xs)"
| "normalize_context_content (PTuple xs) = PList (map normalize_context_content xs)"
| "normalize_context_content v = v"

section \<open>Canonical JSON\<close>

fun canonical_value :: "pyval \<Rightarrow> pyval" where
  "canonical_value (PDict d) = PDict (map (\<lambda>p. (fst p, canonical_value (snd p))) (sort_key fst d))"
| "canonical_value (PFrozenDict d) = PDict (map (\<lambda>p. (fst p, canonical_value (snd p))) (sort_key fst d))"
| "canonical_value (PList xs) = PList (map canonical_value xs)"
| "canonical_value (PTuple xs) = PList (map canonical_value xs)"
| "canonical_value v = v"

fun nat_digits :: "nat \<Rightarrow> utext" where
  "nat_digits n = (if n < 10 then [48 + n] else nat_digits (n div 10) @ [48 + n mod 10])"

declare nat_digits.simps [simp del]

definition int_digits :: "int \<Rightarrow> utext" where
  "int_digits i = (if i < 0 then 45 # nat_digits (nat (- i)) else nat_digits (nat i))"

definition hex_digit :: "nat \<Rightarrow> nat" where
  "hex_digit n = (if n < 10 then 48 + n else 87 + n)"

definition escape_char :: "nat \<Rightarrow> utext" where
  "escape_char c =
     (if c = 34 then [92, 34] else if c = 92 then [92, 92] else if c = 10 then [92, 110]
      else if c = 13 then [92, 114] else if c = 9 then [92, 116] else if c = 8 then [92, 98]
      else if c = 12 then [92, 102]
      else if c < 32 then [92, 117, 48, 48, hex_digit (c div 16), hex_digit (c mod 16)]
      else [c])"

definition quoted :: "utext \<Rightarrow> utext" where
  "quoted s = [34] @ concat (map escape_char s) @ [34]"

fun joined :: "utext \<Rightarrow> utext list \<Rightarrow> utext" where
  "joined sep [] = []"
| "joined sep [x] = x"
| "joined sep (x # y # ys) = x @ sep @ joined sep (y # ys)"

text \<open>\<open>json.dumps\<close> with \<open>ensure_ascii=False\<close> and the compact separators, on sorted dictionaries.\<close>

fun dumps :: "pyval \<Rightarrow> utext" where
  "dumps PNone = utf ''null''"
| "dumps (PBool b) = (if b then utf ''true'' else utf ''false'')"
| "dumps (PInt i) = int_digits i"
| "dumps (PStr s) = quoted s"
| "dumps (PList xs) = [91] @ joined [44] (map dumps xs) @ [93]"
| "dumps (PTuple xs) = [91] @ joined [44] (map dumps xs) @ [93]"
| "dumps (PDict d) = [123] @ joined [44] (map (\<lambda>p. quoted (fst p) @ [58] @ dumps (snd p)) d) @ [125]"
| "dumps (PFrozenDict d) = [123] @ joined [44] (map (\<lambda>p. quoted (fst p) @ [58] @ dumps (snd p)) d) @ [125]"

definition canonical_json :: "pyval \<Rightarrow> utext" where
  "canonical_json v = dumps (canonical_value v)"

definition stable_hash :: "(utext \<Rightarrow> utext) \<Rightarrow> pyval \<Rightarrow> utext" where
  "stable_hash sha256 v = sha256 (canonical_json v)"

section \<open>Token estimates\<close>

definition utf8_char :: "nat \<Rightarrow> nat" where
  "utf8_char c = (if c < 128 then 1 else if c < 2048 then 2 else if c < 65536 then 3 else 4)"

definition utf8_len :: "utext \<Rightarrow> nat" where
  "utf8_len s = sum_list (map utf8_char s)"

definition IMAGE_TOKEN_RESERVE :: nat where
  "IMAGE_TOKEN_RESERVE = 1844"

definition str_is :: "pyval \<Rightarrow> string \<Rightarrow> bool" where
  "str_is v s \<longleftrightarrow> v = PStr (utf s)"

definition is_image :: "pyval \<Rightarrow> bool" where
  "is_image block =
     (case items_of block of
        None \<Rightarrow> False
      | Some d \<Rightarrow>
          str_is (get ''type'' d) ''data''
          \<and> (case items_of (get ''source'' d) of
                None \<Rightarrow> False
              | Some src \<Rightarrow>
                  (case get ''media_type'' src of
                     PStr m \<Rightarrow> take 6 m = utf ''image/''
                   | _ \<Rightarrow> False)))"

definition tool_result_images :: "pyval \<Rightarrow> pyval list" where
  "tool_result_images content =
     (case items_of content of
        None \<Rightarrow> []
      | Some d \<Rightarrow>
          if \<not> str_is (get ''type'' d) ''tool_result'' then []
          else case elements_of (get ''output'' d) of
                 None \<Rightarrow> []
               | Some output \<Rightarrow> filter is_image output)"

lemma size_items:
  assumes "items_of v = Some d" and "dict_get k d = Some x"
  shows "size x < size v"
proof -
  have "(k, x) \<in> set d" using assms(2) by (simp add: dict_get_def map_of_SomeD)
  then have "size x < size_list (\<lambda>p. Suc (size (snd p))) d"
    by (induction d) (auto simp: less_Suc_eq_le)
  with assms(1) show ?thesis by (cases v) (auto simp: size_prod_simp)
qed

lemma size_get: "items_of v = Some d \<Longrightarrow> get k d = x \<Longrightarrow> x \<noteq> PNone \<Longrightarrow> size x < size v"
  by (auto simp: get_def split: option.splits dest: size_items)

lemma size_elements: "elements_of v = Some xs \<Longrightarrow> x \<in> set xs \<Longrightarrow> size x < size v"
  by (cases v) (auto simp: less_Suc_eq_le size_list_estimation')

lemma size_output:
  assumes "items_of v = Some d" and "elements_of (get k d) = Some xs" and "x \<in> set xs"
  shows "size x < size v"
proof -
  have "get k d \<noteq> PNone" using assms(2) by (cases "get k d") auto
  from size_get [OF assms(1) refl this] size_elements [OF assms(2,3)] show ?thesis by simp
qed

lemma size_output_le:
  "elements_of (get k d) = Some xs \<Longrightarrow> x \<in> set xs \<Longrightarrow> size x \<le> size_list (size_prod (\<lambda>x. 0) size) d"
  using size_output [of "PDict d" d k xs x] by simp

function image_token_reserve :: "pyval \<Rightarrow> nat" where
  "image_token_reserve content =
     (case elements_of content of
        Some xs \<Rightarrow> sum_list (map image_token_reserve xs)
      | None \<Rightarrow>
          (case items_of content of
             None \<Rightarrow> 0
           | Some d \<Rightarrow>
               if is_image content then IMAGE_TOKEN_RESERVE
               else if str_is (get ''type'' d) ''tool_result''
               then (let output = (case dict_get (utf ''output'') d of None \<Rightarrow> get ''content'' d | Some v \<Rightarrow> v)
                     in if output = PNone then 0 else image_token_reserve output)
               else 0))"
  by pat_completeness auto
termination
proof (relation "measure size")
  fix content xs x
  show "elements_of content = Some xs \<Longrightarrow> x \<in> set xs \<Longrightarrow> (x, content) \<in> measure size"
    by (simp add: size_elements)
next
  fix content d v
  assume "items_of content = Some d" and "v = (case dict_get (utf ''output'') d of None \<Rightarrow> get ''content'' d | Some v \<Rightarrow> v)"
    and "v \<noteq> PNone"
  then show "(v, content) \<in> measure size"
    by (auto dest: size_items size_get split: option.splits)
qed simp

declare image_token_reserve.simps [simp del]

definition text_tokens :: "utext \<Rightarrow> nat" where
  "text_tokens s = max 1 ((utf8_len s + 3) div 4)"

text \<open>The estimate of a normalised value; the nested call on the result without its output is written out.\<close>

function estimate :: "pyval \<Rightarrow> nat" where
  "estimate content =
     (case content of
        PNone \<Rightarrow> 0
      | PStr s \<Rightarrow> if s = [] then 0 else text_tokens s
      | _ \<Rightarrow>
          (case items_of content of
             Some d \<Rightarrow>
               if str_is (get ''type'' d) ''data'' then IMAGE_TOKEN_RESERVE
               else if tool_result_images content \<noteq> []
               then text_tokens (canonical_json (PDict (dict_put (utf ''output'') (PList []) d)))
                    + (case elements_of (get ''output'' d) of
                         None \<Rightarrow> 0
                       | Some xs \<Rightarrow> sum_list (map estimate xs))
               else text_tokens (canonical_json content)
           | None \<Rightarrow>
               (case elements_of content of
                  Some xs \<Rightarrow> sum_list (map estimate xs)
                | None \<Rightarrow> text_tokens (canonical_json content))))"
  by pat_completeness auto
termination
  by (relation "measure size")
     (auto simp: less_Suc_eq_le size_list_estimation' dest: size_output_le)

declare estimate.simps [simp del]

definition estimate_context_tokens :: "pyval \<Rightarrow> nat" where
  "estimate_context_tokens content = estimate (normalize_context_content content)"

section \<open>Truncation\<close>

definition omitted_marker :: utext where
  "omitted_marker = [10, 91, 8230, 32] @ utf ''omitted'' @ [32, 8230, 93, 10]"

definition last_chars :: "nat \<Rightarrow> utext \<Rightarrow> utext" where
  "last_chars n s = drop (length s - n) s"

text \<open>The loop that shrinks the result, in its three modes.\<close>

function shrink_tail :: "utext \<Rightarrow> nat \<Rightarrow> nat \<Rightarrow> utext" where
  "shrink_tail s max_bytes tail =
     (if max_bytes < utf8_len (last_chars tail s) \<and> 1 < length (last_chars tail s)
      then shrink_tail s max_bytes (max 1 (tail - 1))
      else last_chars tail s)"
  by pat_completeness auto
termination by (relation "measure (\<lambda>(s, max_bytes, tail). tail)") (auto simp: last_chars_def)

function shrink_head :: "utext \<Rightarrow> nat \<Rightarrow> nat \<Rightarrow> utext" where
  "shrink_head s max_bytes head =
     (if max_bytes < utf8_len (take head s) \<and> 1 < length (take head s)
      then shrink_head s max_bytes (max 1 (head - 1))
      else take head s)"
  by pat_completeness auto
termination by (relation "measure (\<lambda>(s, max_bytes, head). head)") auto

definition both_ends :: "utext \<Rightarrow> nat \<Rightarrow> nat \<Rightarrow> utext" where
  "both_ends s head tail = take head s @ omitted_marker @ last_chars tail s"

function shrink_ends :: "utext \<Rightarrow> nat \<Rightarrow> nat \<Rightarrow> nat \<Rightarrow> utext" where
  "shrink_ends s max_bytes head tail =
     (if max_bytes < utf8_len (both_ends s head tail) \<and> 1 < length (both_ends s head tail)
      then if tail \<le> head \<and> 1 < head then shrink_ends s max_bytes (head - 1) tail
           else if 1 < tail then shrink_ends s max_bytes head (tail - 1)
           else if 1 < head then shrink_ends s max_bytes (head - 1) tail
           else both_ends s head tail
      else both_ends s head tail)"
  by pat_completeness auto
termination by (relation "measure (\<lambda>(s, max_bytes, head, tail). head + tail)") auto

declare shrink_tail.simps [simp del] and shrink_head.simps [simp del] and shrink_ends.simps [simp del]

text \<open>\<open>int(body * 0.6)\<close> is three fifths rounded down for every length a string can have.\<close>

definition truncate_text :: "utext \<Rightarrow> int \<Rightarrow> bool \<Rightarrow> utext" where
  "truncate_text s max_tokens tail_only =
     (if s = [] \<or> max_tokens \<le> 0 then []
      else
        let max_bytes = nat (max 4 (max_tokens * 4))
        in if utf8_len s \<le> max_bytes then s
           else let max_chars = max 1 max_bytes
                in if tail_only then shrink_tail s max_bytes max_chars
                   else if max_chars < 40 then shrink_head s max_bytes max_chars
                   else let body = max 2 (max_chars - length omitted_marker);
                            head = max 1 (body * 3 div 5);
                            tail = max 1 (body - head)
                        in shrink_ends s max_bytes head tail)"

definition block_text :: "(pyval \<Rightarrow> utext) \<Rightarrow> pyval \<Rightarrow> utext" where
  "block_text str_of block =
     (case items_of block of
        Some d \<Rightarrow> if get ''text'' d \<noteq> PNone
                   then (case get ''text'' d of PStr s \<Rightarrow> s | v \<Rightarrow> str_of v)
                   else canonical_json block
      | None \<Rightarrow> (case block of PStr s \<Rightarrow> s | _ \<Rightarrow> canonical_json block))"

definition put_text :: "string \<Rightarrow> utext \<Rightarrow> int \<Rightarrow> bool \<Rightarrow> (utext \<times> pyval) list \<Rightarrow> (utext \<times> pyval) list" where
  "put_text key s max_tokens tail_only d =
     (let overhead = int (estimate_context_tokens (PDict (dict_put (utf key) (PStr []) d)))
      in dict_put (utf key) (PStr (truncate_text s (max 1 (max_tokens - overhead)) tail_only)) d)"

definition text_block :: "utext \<Rightarrow> pyval" where
  "text_block s = PDict [(utf ''type'', PStr (utf ''text'')), (utf ''text'', PStr s)]"

text \<open>The \<open>output\<close> of a tool result: with images the text around them is shortened, otherwise all of it.\<close>

definition truncate_output ::
  "(pyval \<Rightarrow> utext) \<Rightarrow> pyval \<Rightarrow> int \<Rightarrow> bool \<Rightarrow> (utext \<times> pyval) list \<Rightarrow> (utext \<times> pyval) list" where
  "truncate_output str_of out max_tokens tail_only d =
     (let images = tool_result_images (PDict d)
      in case elements_of out of
           Some blocks \<Rightarrow>
             if images \<noteq> []
             then (let s = joined [10] (map (block_text str_of) (filter (\<lambda>b. b \<notin> set images) blocks));
                       overhead = int (estimate_context_tokens
                                    (PDict (dict_put (utf ''output'') (PList (text_block [] # images)) d)))
                   in dict_put (utf ''output'')
                        (PList (text_block (truncate_text s (max 1 (max_tokens - overhead)) tail_only) # images)) d)
             else put_text ''output'' (joined [10] (map (block_text str_of) blocks)) max_tokens tail_only d
         | None \<Rightarrow> put_text ''output'' (canonical_json out) max_tokens tail_only d)"

fun truncate_block ::
  "(pyval \<Rightarrow> utext) \<Rightarrow> string list \<Rightarrow> int \<Rightarrow> bool \<Rightarrow> (utext \<times> pyval) list \<Rightarrow> (utext \<times> pyval) list" where
  "truncate_block str_of [] max_tokens tail_only d = d"
| "truncate_block str_of (key # keys) max_tokens tail_only d =
     (case get key d of
        PStr s \<Rightarrow> put_text key s max_tokens tail_only d
      | v \<Rightarrow> if key = ''output'' \<and> (elements_of v \<noteq> None \<or> items_of v \<noteq> None)
             then truncate_output str_of v max_tokens tail_only d
             else truncate_block str_of keys max_tokens tail_only d)"

definition truncate_content :: "(pyval \<Rightarrow> utext) \<Rightarrow> pyval \<Rightarrow> int \<Rightarrow> string \<Rightarrow> pyval" where
  "truncate_content str_of content max_tokens policy =
     (if max_tokens \<le> 0 then PStr []
      else case content of
             PStr s \<Rightarrow> PStr (truncate_text s max_tokens (policy = ''tail''))
           | _ \<Rightarrow>
               (case items_of (thaw_json content) of
                  Some d \<Rightarrow>
                    if \<not> str_is (get ''type'' d) ''tool_result'' then PDict d
                    else PDict (truncate_block str_of [''output'', ''content'', ''text''] max_tokens
                                  (policy = ''tail'') d)
                | None \<Rightarrow> thaw_json content))"

definition pruned_output :: "nat \<Rightarrow> utext" where
  "pruned_output tokens =
     utf ''[tool output pruned to fit the context budget: '' @ nat_digits tokens @ utf '' tokens omitted]''"

definition prune_tool_output :: "pyval \<Rightarrow> nat \<Rightarrow> pyval option" where
  "prune_tool_output content original_tokens =
     (case items_of (thaw_json content) of
        None \<Rightarrow> None
      | Some d \<Rightarrow>
          if \<not> str_is (get ''type'' d) ''tool_result'' then None
          else
            let images = tool_result_images (PDict d); note = pruned_output original_tokens
            in if images \<noteq> []
               then Some (PDict (dict_put (utf ''output'') (PList (text_block note # images)) d))
               else if dict_get (utf ''output'') d \<noteq> None then Some (PDict (dict_put (utf ''output'') (PStr note) d))
               else if dict_get (utf ''content'') d \<noteq> None then Some (PDict (dict_put (utf ''content'') (PStr note) d))
               else if dict_get (utf ''text'') d \<noteq> None then Some (PDict (dict_put (utf ''text'') (PStr note) d))
               else Some (PDict (dict_put (utf ''output'') (PStr note) d)))"

section \<open>Freezing, thawing, hashing\<close>

fun json_value :: "pyval \<Rightarrow> bool" where
  "json_value (PList xs) = list_all json_value xs"
| "json_value (PDict d) = list_all (\<lambda>p. json_value (snd p)) d"
| "json_value (PTuple _) = False"
| "json_value (PFrozenDict _) = False"
| "json_value _ = True"

fun immutable :: "pyval \<Rightarrow> bool" where
  "immutable (PTuple xs) = list_all immutable xs"
| "immutable (PFrozenDict d) = list_all (\<lambda>p. immutable (snd p)) d"
| "immutable (PList _) = False"
| "immutable (PDict _) = False"
| "immutable _ = True"

lemma thaw_freeze: "thaw_json (freeze_json v) = thaw_json v"
  by (induction v rule: freeze_json.induct) auto

lemma thaw_json_value: "json_value v \<Longrightarrow> thaw_json v = v"
  by (induction v rule: json_value.induct) (auto simp: list_all_iff intro!: map_idI)

lemma immutable_freeze: "json_value v \<Longrightarrow> immutable (freeze_json v)"
  by (induction v rule: freeze_json.induct) (auto simp: list_all_iff)

lemma json_value_thaw: "json_value (thaw_json v)"
  by (induction v rule: thaw_json.induct) (auto simp: list_all_iff)

lemma normalize_is_thaw: "normalize_context_content v = thaw_json v"
  by (induction v rule: thaw_json.induct) auto

lemma sort_key_map: "(\<And>p. k (f p) = k p) \<Longrightarrow> sort_key k (map f xs) = map f (sort_key k xs)"
proof -
  assume k: "\<And>p. k (f p) = k p"
  have ins: "insort_key k (f x) (map f ys) = map f (insort_key k x ys)" for x ys
    by (induction ys) (auto simp: k)
  show ?thesis by (induction xs) (auto simp: ins)
qed

lemma canonical_freeze: "canonical_value (freeze_json v) = canonical_value v"
  by (induction v rule: freeze_json.induct) (auto simp: sort_key_map)

lemma canonical_thaw: "canonical_value (thaw_json v) = canonical_value v"
  by (induction v rule: thaw_json.induct) (auto simp: sort_key_map)

lemma canonical_permuted:
  assumes "mset d = mset d'" and "distinct (map fst d)"
  shows "canonical_value (PDict d) = canonical_value (PDict d')"
proof -
  have "sort_key fst d = sort_key fst d'"
  proof (rule map_sorted_distinct_set_unique [of fst])
    have "set d = set d'" using assms(1) by (rule mset_eq_setD)
    then show "set (sort_key fst d) = set (sort_key fst d')" by simp
    show "inj_on fst (set (sort_key fst d) \<union> set (sort_key fst d'))"
      using assms(2) \<open>set d = set d'\<close> by (simp add: distinct_map)
    have "distinct (map fst d')" using assms by (metis mset_map mset_eq_imp_distinct_iff)
    then show "distinct (map fst (sort_key fst d'))" "distinct (map fst (sort_key fst d))"
      using assms(2) by (metis mset_map mset_sort mset_eq_imp_distinct_iff)+
  qed simp_all
  then show ?thesis by simp
qed

section \<open>Bounds of truncated text\<close>

lemma utf8_len_append [simp]: "utf8_len (s @ t) = utf8_len s + utf8_len t"
  by (simp add: utf8_len_def)

lemma utf8_len_simps [simp]: "utf8_len [] = 0" "utf8_len (c # s) = utf8_char c + utf8_len s"
  by (simp_all add: utf8_len_def)

lemma utf8_char_le: "utf8_char c \<le> 4"
  by (simp add: utf8_char_def)

lemma utf8_len_le: "utf8_len s \<le> 4 * length s"
  by (induction s) (use utf8_char_le in \<open>auto simp: add_mono\<close>)

lemma length_last_chars: "length (last_chars n s) = min (length s) n"
  by (simp add: last_chars_def)

lemma utf8_marker: "utf8_len omitted_marker = 19" "length omitted_marker = 15"
  by (simp_all add: omitted_marker_def utf_def utf8_char_def)

lemma shrink_tail_bound: "4 \<le> m \<Longrightarrow> utf8_len (shrink_tail s m t) \<le> m"
proof (induction s m t rule: shrink_tail.induct)
  case (1 s m t)
  then show ?case
    using utf8_len_le [of "last_chars t s"] by (subst shrink_tail.simps) auto
qed

lemma shrink_head_bound: "4 \<le> m \<Longrightarrow> utf8_len (shrink_head s m h) \<le> m"
proof (induction s m h rule: shrink_head.induct)
  case (1 s m h)
  then show ?case
    using utf8_len_le [of "take h s"] by (subst shrink_head.simps) auto
qed

lemma both_ends_small: "h \<le> 1 \<Longrightarrow> t \<le> 1 \<Longrightarrow> utf8_len (both_ends s h t) \<le> 27"
  using utf8_len_le [of "take h s"] utf8_len_le [of "last_chars t s"]
  by (simp add: both_ends_def utf8_marker length_last_chars)

lemma shrink_ends_bound: "40 \<le> m \<Longrightarrow> utf8_len (shrink_ends s m h t) \<le> m"
proof (induction s m h t rule: shrink_ends.induct)
  case (1 s m h t)
  have "length (both_ends s h t) > 1" by (simp add: both_ends_def utf8_marker)
  then show ?case
    using 1 both_ends_small [of h t s] by (subst shrink_ends.simps) auto
qed

lemma shrink_ends_shape:
  "1 \<le> h \<Longrightarrow> 1 \<le> t \<Longrightarrow> \<exists>h' t'. shrink_ends s m h t = both_ends s h' t' \<and> 1 \<le> h' \<and> 1 \<le> t' \<and> h' \<le> h \<and> t' \<le> t"
proof (induction s m h t rule: shrink_ends.induct)
  case (1 s m h t)
  show ?case
  proof (cases "m < utf8_len (both_ends s h t) \<and> 1 < length (both_ends s h t) \<and> (1 < h \<or> 1 < t)")
    case True
    consider "t \<le> h \<and> 1 < h" | "\<not> (t \<le> h \<and> 1 < h)" "1 < t" using True by linarith
    then show ?thesis
    proof cases
      case 1
      with True "1.IH"(1) "1.prems" show ?thesis by (subst shrink_ends.simps) fastforce
    next
      case 2
      with True "1.IH"(2) "1.prems" show ?thesis by (subst shrink_ends.simps) fastforce
    qed
  next
    case False
    then show ?thesis using "1.prems" by (subst shrink_ends.simps) auto
  qed
qed

text \<open>
  Truncation keeps its promise. Shortened text never takes more than four bytes per allowed token
  in UTF-8 (and never more than four bytes when less than a token is allowed), text that fits is
  returned as it is, and a text shortened in the middle keeps a non-empty beginning and a non-empty
  end of the original around the marker.
\<close>

theorem truncate_text_bounds:
  assumes "0 < n" and "s \<noteq> []"
  shows "int (utf8_len (truncate_text s n tail_only)) \<le> max 4 (4 * n)
     \<and> (int (utf8_len s) \<le> 4 * n \<longrightarrow> truncate_text s n tail_only = s)
     \<and> (\<not> tail_only \<and> 10 \<le> n \<and> 4 * n < int (utf8_len s) \<longrightarrow>
          (\<exists>h t. 1 \<le> h \<and> 1 \<le> t \<and> truncate_text s n tail_only = both_ends s h t))"
proof -
  define m where "m = nat (max 4 (n * 4))"
  have m: "4 \<le> m" "int m = max 4 (4 * n)" using assms(1) by (simp_all add: m_def)
  define body where "body = max 2 (max 1 m - length omitted_marker)"
  have red: "truncate_text s n tail_only =
     (if utf8_len s \<le> m then s else if tail_only then shrink_tail s m (max 1 m)
      else if max 1 m < 40 then shrink_head s m (max 1 m)
      else shrink_ends s m (max 1 (body * 3 div 5)) (max 1 (body - max 1 (body * 3 div 5))))"
    using assms unfolding truncate_text_def Let_def m_def [symmetric] body_def by simp
  have "utf8_len (truncate_text s n tail_only) \<le> m"
    unfolding red using shrink_tail_bound [OF m(1)] shrink_head_bound [OF m(1)] shrink_ends_bound [of m] by auto
  moreover have "truncate_text s n tail_only = s" if "int (utf8_len s) \<le> 4 * n"
    unfolding red using that m by auto
  moreover have "\<exists>h t. 1 \<le> h \<and> 1 \<le> t \<and> truncate_text s n tail_only = both_ends s h t"
    if "\<not> tail_only" "10 \<le> n" "4 * n < int (utf8_len s)"
    unfolding red using that m shrink_ends_shape [of "max 1 (body * 3 div 5)" "max 1 (body - max 1 (body * 3 div 5))" s m]
    by auto
  ultimately show ?thesis using m(2) by auto
qed

theorem truncate_text_bounds_witness:
  "int (utf8_len (truncate_text (replicate 60 8230) 10 False)) \<le> 40"
  using truncate_text_bounds [of 10 "replicate 60 8230" False] by simp

text \<open>
  Freezing and thawing are inverse on JSON values: what is thawed from a frozen value is the value,
  a frozen value has no mutable container left, and the canonical JSON text, which every content hash
  is taken of, is the same before freezing, after it, and for any order in which the keys of a
  dictionary were inserted.
\<close>

theorem freeze_thaw_round_trip:
  assumes "json_value v"
  shows "thaw_json (freeze_json v) = v \<and> immutable (freeze_json v)
     \<and> canonical_json (freeze_json v) = canonical_json v
     \<and> (\<forall>d d'. v = PDict d \<and> mset d = mset d' \<and> distinct (map fst d) \<longrightarrow> canonical_json (PDict d') = canonical_json v)"
  using assms thaw_json_value immutable_freeze canonical_permuted
  by (auto simp: thaw_freeze canonical_json_def canonical_freeze simp del: canonical_value.simps)

theorem freeze_thaw_round_trip_witness:
  "thaw_json (freeze_json (PDict [(utf ''b'', PList [PInt 1, PNone]), (utf ''a'', PStr (utf ''x''))])) =
     PDict [(utf ''b'', PList [PInt 1, PNone]), (utf ''a'', PStr (utf ''x''))]"
  using freeze_thaw_round_trip [of "PDict [(utf ''b'', PList [PInt 1, PNone]), (utf ''a'', PStr (utf ''x''))]"] by simp

end
