(* ===== verification/Context_Assembler.thy ===== *)
theory Context_Assembler
  imports Context_Content "HOL-Library.Product_Lexorder" "HOL-Library.Char_ord"
begin

text \<open>
  \<open>ContextItem\<close> and \<open>ContextAssembler\<close> of \<open>core/llm/context_ir.py\<close>: which items of a conversation go into
  the next model request under a token budget. The phases of \<open>assemble\<close> are one function each, in
  the order of the code: per-item caps, grouping into units, classification, selection of the side
  material, pruning of old tool outputs, cutting of the oldest steps, and the manifest. SHA-256 and
  Python's \<open>str\<close> of a non-string value are arguments.

  The lemmas show that every item ends up on exactly one side, that the request keeps the order of
  the context, that the budget is kept unless the protected part alone exceeds it, and that history
  is cut at its oldest end only.
\<close>

section \<open>Items\<close>

record context_item =
  ci_item_id :: string
  ci_kind :: string
  ci_origin :: string
  ci_trust :: string
  ci_visibility :: string
  ci_priority :: int
  ci_token_budget :: int
  ci_truncation_policy :: string
  ci_content_ref :: utext
  ci_content_hash :: utext
  ci_cache_class :: string
  ci_created_seq :: int
  ci_token_estimate :: nat
  ci_render_role :: string
  ci_render_name :: utext
  ci_pair_id :: string
  ci_message_group :: string
  ci_unit_id :: string
  ci_content :: pyval
  ci_metadata :: pyval

definition STEP_KINDS :: "string list" where
  "STEP_KINDS = [''assistant_history'', ''thinking'', ''tool_call'', ''tool_result'']"

definition CONVERSATION_KINDS :: "string list" where
  "CONVERSATION_KINDS = ''user_input'' # STEP_KINDS"

definition TOOL_KINDS :: "string list" where
  "TOOL_KINDS = [''tool_call'', ''tool_result'']"

definition hash_ref :: "utext \<Rightarrow> utext" where
  "hash_ref digest = utf ''sha256:'' @ digest"

definition create_item ::
  "(utext \<Rightarrow> utext) \<Rightarrow> string \<Rightarrow> string \<Rightarrow> string \<Rightarrow> string \<Rightarrow> string \<Rightarrow> int \<Rightarrow> int \<Rightarrow> string \<Rightarrow> pyval \<Rightarrow>
   string \<Rightarrow> int \<Rightarrow> string \<Rightarrow> string \<Rightarrow> string \<Rightarrow> string \<Rightarrow> utext option \<Rightarrow> utext option \<Rightarrow> int option \<Rightarrow> utext \<Rightarrow>
   pyval \<Rightarrow> context_item" where
  "create_item sha256 item_id kind origin trust visibility priority token_budget truncation_policy content
      cache_class created_seq render_role pair_id message_group unit_id content_ref content_hash token_estimate
      render_name metadata =
     (let normalized = normalize_context_content content;
          policy = (case items_of normalized of
                      Some d \<Rightarrow> if str_is (get ''type'' d) ''data'' then ''drop'' else truncation_policy
                    | None \<Rightarrow> truncation_policy);
          computed = stable_hash sha256 normalized;
          supplied = (case content_hash of None \<Rightarrow> [] | Some h \<Rightarrow> h);
          external = (normalized = PNone \<and> supplied \<noteq> []);
          digest = (if external then supplied else computed);
          estimate = (if external then nat (max 0 (case token_estimate of None \<Rightarrow> 0 | Some n \<Rightarrow> n))
                      else estimate_context_tokens normalized);
          reference = (case content_ref of
                         Some r \<Rightarrow> if external \<or> supplied = computed then r else hash_ref digest
                       | None \<Rightarrow> hash_ref digest)
      in \<lparr>ci_item_id = item_id, ci_kind = kind, ci_origin = origin, ci_trust = trust, ci_visibility = visibility,
          ci_priority = priority, ci_token_budget = max 0 token_budget, ci_truncation_policy = policy,
          ci_content_ref = reference, ci_content_hash = digest, ci_cache_class = cache_class,
          ci_created_seq = created_seq, ci_token_estimate = estimate, ci_render_role = render_role,
          ci_render_name = render_name, ci_pair_id = pair_id,
          ci_message_group = (if message_group = [] then ''item:'' @ item_id else message_group),
          ci_unit_id = (if unit_id = [] then ''item:'' @ item_id else unit_id),
          ci_content = freeze_json normalized, ci_metadata = freeze_json metadata\<rparr>)"

definition with_content :: "(utext \<Rightarrow> utext) \<Rightarrow> pyval \<Rightarrow> context_item \<Rightarrow> context_item" where
  "with_content sha256 content item =
     (let normalized = normalize_context_content content; digest = stable_hash sha256 normalized
      in item\<lparr>ci_content := freeze_json normalized, ci_content_hash := digest, ci_content_ref := hash_ref digest,
              ci_token_estimate := estimate_context_tokens normalized\<rparr>)"

definition pstr :: "string \<Rightarrow> pyval" where
  "pstr s = PStr (utf s)"

definition to_manifest :: "(utext \<Rightarrow> utext) \<Rightarrow> context_item \<Rightarrow> (utext \<times> pyval) list" where
  "to_manifest sha256 item =
     [(utf ''item_id'', pstr (ci_item_id item)), (utf ''kind'', pstr (ci_kind item)),
      (utf ''origin'', pstr (ci_origin item)), (utf ''trust'', pstr (ci_trust item)),
      (utf ''visibility'', pstr (ci_visibility item)), (utf ''priority'', PInt (ci_priority item)),
      (utf ''token_budget'', PInt (ci_token_budget item)),
      (utf ''truncation_policy'', pstr (ci_truncation_policy item)),
      (utf ''content_ref'', PStr (ci_content_ref item)), (utf ''content_hash'', PStr (ci_content_hash item)),
      (utf ''cache_class'', pstr (ci_cache_class item)), (utf ''created_seq'', PInt (ci_created_seq item)),
      (utf ''token_estimate'', PInt (int (ci_token_estimate item))),
      (utf ''render_role'', pstr (ci_render_role item)),
      (utf ''render_name_hash'', PStr (stable_hash sha256 (PStr (ci_render_name item)))),
      (utf ''pair_id'', if ci_pair_id item = [] then PNone else pstr (ci_pair_id item)),
      (utf ''message_group'', pstr (ci_message_group item)), (utf ''unit_id'', pstr (ci_unit_id item))]"

definition make_text_context_item ::
  "(utext \<Rightarrow> utext) \<Rightarrow> utext \<Rightarrow> string \<Rightarrow> string \<Rightarrow> string \<Rightarrow> string \<Rightarrow> int \<Rightarrow> int \<Rightarrow> int \<Rightarrow> string \<Rightarrow> string \<Rightarrow>
   string \<Rightarrow> context_item" where
  "make_text_context_item sha256 s item_id kind origin trust created_seq priority token_budget truncation_policy
      render_role cache_class =
     create_item sha256 item_id kind origin trust ''model'' priority token_budget truncation_policy (PStr s)
       cache_class created_seq render_role [] item_id [] None None None (utf render_role) (PDict [])"

definition session_context_metadata :: "(utext \<Rightarrow> utext) \<Rightarrow> context_item \<Rightarrow> (utext \<times> pyval) list" where
  "session_context_metadata sha256 item =
     fold (\<lambda>k d. dict_pop (utf k) d)
       [''item_id'', ''created_seq'', ''message_group'', ''unit_id'', ''content_ref'', ''content_hash'',
        ''token_estimate'', ''render_name_hash''] (to_manifest sha256 item)"

section \<open>Capping single items\<close>

record sel_record =
  sr_action :: string
  sr_reason :: "string option"
  sr_original_tokens :: nat
  sr_final_tokens :: nat

type_synonym sel_records = "string \<rightharpoonup> sel_record"

definition tokens :: "context_item \<Rightarrow> nat" where
  "tokens item = (if ci_visibility item = ''manifest_only'' then 0 else ci_token_estimate item)"

definition shrinkable :: "context_item \<Rightarrow> bool" where
  "shrinkable item \<longleftrightarrow> ci_truncation_policy item \<in> {''head_tail'', ''tail''}"

definition shrunk_to :: "(utext \<Rightarrow> utext) \<Rightarrow> (pyval \<Rightarrow> utext) \<Rightarrow> int \<Rightarrow> context_item \<Rightarrow> context_item" where
  "shrunk_to sha256 str_of target item =
     with_content sha256 (truncate_content str_of (ci_content item) target (ci_truncation_policy item)) item"

function refit :: "(utext \<Rightarrow> utext) \<Rightarrow> (pyval \<Rightarrow> utext) \<Rightarrow> int \<Rightarrow> int \<Rightarrow> context_item \<Rightarrow> context_item" where
  "refit sha256 str_of budget target item =
     (let capped = shrunk_to sha256 str_of target item
      in if budget < int (ci_token_estimate capped) \<and> 1 < target
         then refit sha256 str_of budget (max 1 (target - (int (ci_token_estimate capped) - budget))) item
         else capped)"
  by pat_completeness auto
termination by (relation "measure (\<lambda>(sha256, str_of, budget, target, item). nat target)") (auto simp: Let_def)

declare refit.simps [simp del]

definition cap_item ::
  "(utext \<Rightarrow> utext) \<Rightarrow> (pyval \<Rightarrow> utext) \<Rightarrow> context_item \<Rightarrow> context_item option \<times> sel_record" where
  "cap_item sha256 str_of item =
     (let original = ci_token_estimate item;
          budget = ci_token_budget item
                   + int (sum_list (map estimate_context_tokens (tool_result_images (ci_content item))));
          excluded = (None, \<lparr>sr_action = ''excluded'', sr_reason = Some ''item_budget'',
                             sr_original_tokens = original, sr_final_tokens = 0\<rparr>)
      in if ci_visibility item = ''manifest_only'' \<or> ci_truncation_policy item = ''never'' \<or> int original \<le> budget
         then (Some item, \<lparr>sr_action = ''included'', sr_reason = None, sr_original_tokens = original,
                           sr_final_tokens = original\<rparr>)
         else if shrinkable item \<and> 0 < ci_token_budget item
         then (let capped = refit sha256 str_of budget budget item
               in if int (ci_token_estimate capped) \<le> budget
                  then (Some capped, \<lparr>sr_action = ''truncated'', sr_reason = None, sr_original_tokens = original,
                                      sr_final_tokens = ci_token_estimate capped\<rparr>)
                  else excluded)
         else excluded)"

definition mark_excluded :: "string \<Rightarrow> string \<Rightarrow> sel_records \<Rightarrow> sel_records" where
  "mark_excluded reason item_id recs =
     (case recs item_id of
        None \<Rightarrow> recs
      | Some r \<Rightarrow> recs(item_id \<mapsto> r\<lparr>sr_action := ''excluded'', sr_reason := Some reason, sr_final_tokens := 0\<rparr>))"

definition mark_action :: "string \<Rightarrow> nat \<Rightarrow> string \<Rightarrow> sel_records \<Rightarrow> sel_records" where
  "mark_action act final item_id recs =
     (case recs item_id of
        None \<Rightarrow> recs
      | Some r \<Rightarrow> recs(item_id \<mapsto> r\<lparr>sr_action := act, sr_final_tokens := final\<rparr>))"

fun cap_items ::
  "(utext \<Rightarrow> utext) \<Rightarrow> (pyval \<Rightarrow> utext) \<Rightarrow> context_item list \<Rightarrow> context_item list \<times> context_item list \<times> sel_records" where
  "cap_items sha256 str_of [] = ([], [], Map.empty)"
| "cap_items sha256 str_of (item # items) =
     (case cap_items sha256 str_of items of
        (capped, excluded, recs) \<Rightarrow>
          (case cap_item sha256 str_of item of
             (None, r) \<Rightarrow> (capped, item # excluded, recs(ci_item_id item \<mapsto> r))
           | (Some c, r) \<Rightarrow> (c # capped, excluded, recs(ci_item_id item \<mapsto> r))))"

section \<open>Units\<close>

fun call_units_loop ::
  "context_item list \<Rightarrow> (string \<rightharpoonup> string) \<Rightarrow> string list \<Rightarrow> (string \<rightharpoonup> string) \<times> string list" where
  "call_units_loop [] call_units ambiguous = (call_units, ambiguous)"
| "call_units_loop (item # items) call_units ambiguous =
     (if ci_kind item = ''tool_call'' \<and> ci_pair_id item \<noteq> []
      then call_units_loop items (call_units(ci_pair_id item \<mapsto> ci_unit_id item))
             (if (case call_units (ci_pair_id item) of None \<Rightarrow> ci_unit_id item | Some u \<Rightarrow> u) \<noteq> ci_unit_id item
              then ci_pair_id item # ambiguous else ambiguous)
      else call_units_loop items call_units ambiguous)"

definition ambiguous_item :: "string list \<Rightarrow> context_item \<Rightarrow> bool" where
  "ambiguous_item ambiguous item \<longleftrightarrow> ci_kind item \<in> set TOOL_KINDS \<and> ci_pair_id item \<in> set ambiguous"

definition assigned_unit :: "(string \<rightharpoonup> string) \<Rightarrow> context_item \<Rightarrow> context_item" where
  "assigned_unit call_units item =
     (case call_units (ci_pair_id item) of
        Some u \<Rightarrow> if ci_kind item = ''tool_result'' then item\<lparr>ci_unit_id := u\<rparr> else item
      | None \<Rightarrow> item)"

type_synonym context_unit = "context_item list"

fun append_unit :: "context_item \<Rightarrow> (string \<times> context_unit) list \<Rightarrow> (string \<times> context_unit) list" where
  "append_unit item [] = [(ci_unit_id item, [item])]"
| "append_unit item ((u, xs) # units) =
     (if u = ci_unit_id item then (u, xs @ [item]) # units else (u, xs) # append_unit item units)"

definition group_units :: "(string \<rightharpoonup> string) \<Rightarrow> string list \<Rightarrow> context_item list \<Rightarrow> context_unit list" where
  "group_units call_units ambiguous capped =
     map snd (fold append_unit
       (map (assigned_unit call_units) (filter (\<lambda>item. \<not> ambiguous_item ambiguous item) capped)) [])"

definition arrival :: "context_item list \<Rightarrow> string \<Rightarrow> nat" where
  "arrival items iid = length (takeWhile (\<lambda>x. ci_item_id x \<noteq> iid) items)"

definition is_request :: "context_item \<Rightarrow> bool" where
  "is_request item \<longleftrightarrow> ci_kind item = ''user_input'' \<and> ci_truncation_policy item = ''never''
     \<and> ci_visibility item = ''model''"

definition request_index :: "context_item list \<Rightarrow> int" where
  "request_index items =
     fold (\<lambda>item idx. if is_request item then int (arrival items (ci_item_id item)) else idx) items (- 1)"

definition unit_start :: "context_item list \<Rightarrow> context_unit \<Rightarrow> nat" where
  "unit_start items u = (if u = [] then 0 else min_list (map (\<lambda>x. arrival items (ci_item_id x)) u))"

definition mandatory_item :: "context_item \<Rightarrow> bool" where
  "mandatory_item item =
     (if ci_visibility item = ''manifest_only'' then True
      else if ci_kind item \<in> set STEP_KINDS then False
      else ci_truncation_policy item = ''never'')"

definition tool_pairs_balanced :: "context_unit \<Rightarrow> bool" where
  "tool_pairs_balanced u =
     (list_all (\<lambda>x. ci_kind x \<in> set TOOL_KINDS \<longrightarrow> ci_pair_id x \<noteq> []) u
      \<and> list_all (\<lambda>x. ci_kind x \<in> set TOOL_KINDS \<longrightarrow>
            (let pair = filter (\<lambda>y. ci_kind y \<in> set TOOL_KINDS \<and> ci_pair_id y = ci_pair_id x) u;
                 calls = filter (\<lambda>y. ci_kind y = ''tool_call'') pair;
                 results = filter (\<lambda>y. ci_kind y = ''tool_result'') pair
             in calls \<noteq> [] \<and> length calls = length results)) u)"

datatype unit_class = Uc_mandatory | Uc_protected | Uc_malformed | Uc_conversation | Uc_aside

definition classify :: "context_item list \<Rightarrow> context_unit \<Rightarrow> unit_class" where
  "classify items u =
     (let is_step = list_ex (\<lambda>x. ci_kind x \<in> set STEP_KINDS) u
      in if list_ex mandatory_item u then Uc_mandatory
         else if is_step \<and> 0 \<le> request_index items \<and> request_index items < int (unit_start items u)
         then Uc_protected
         else if \<not> tool_pairs_balanced u then Uc_malformed
         else if list_all (\<lambda>x. ci_kind x \<in> set CONVERSATION_KINDS) u then Uc_conversation
         else Uc_aside)"

definition of_class :: "context_item list \<Rightarrow> unit_class \<Rightarrow> context_unit list \<Rightarrow> context_unit list" where
  "of_class items c units = sort_key (unit_start items) (filter (\<lambda>u. classify items u = c) units)"

definition unit_key :: "context_unit \<Rightarrow> int \<times> int \<times> string list" where
  "unit_key u = (- Max (set (map ci_priority u)), - Max (set (map ci_created_seq u)), sort (map ci_item_id u))"

definition aside_units :: "context_item list \<Rightarrow> context_unit list \<Rightarrow> context_unit list" where
  "aside_units items units = sort_key unit_key (filter (\<lambda>u. classify items u = Uc_aside) units)"

definition unit_tokens :: "context_unit \<Rightarrow> nat" where
  "unit_tokens u = sum_list (map tokens u)"

section \<open>Selection\<close>

definition exclude_all :: "string \<Rightarrow> context_unit \<Rightarrow> sel_records \<Rightarrow> sel_records" where
  "exclude_all reason u recs = fold (\<lambda>x. mark_excluded reason (ci_item_id x)) u recs"

text \<open>The side material: whole if it fits, a single item shortened if that fits, otherwise left out.\<close>

fun select_aside ::
  "(utext \<Rightarrow> utext) \<Rightarrow> (pyval \<Rightarrow> utext) \<Rightarrow> nat \<Rightarrow> context_unit list \<Rightarrow> nat \<Rightarrow> sel_records \<Rightarrow>
   context_item list \<times> context_item list \<times> nat \<times> sel_records" where
  "select_aside sha256 str_of budget [] used recs = ([], [], used, recs)"
| "select_aside sha256 str_of budget (u # us) used recs =
     (let remaining = budget - used
      in if unit_tokens u \<le> remaining
         then (case select_aside sha256 str_of budget us (used + unit_tokens u) recs of
                 (inc, exc, used', recs') \<Rightarrow> (u @ inc, exc, used', recs'))
         else
           case u of
             [item] \<Rightarrow>
               let shrunk = shrunk_to sha256 str_of (int remaining) item
               in if 0 < remaining \<and> shrinkable item \<and> tokens shrunk < tokens item \<and> tokens shrunk \<le> remaining
                  then (case select_aside sha256 str_of budget us (used + tokens shrunk)
                               (mark_action ''truncated'' (ci_token_estimate shrunk) (ci_item_id item) recs) of
                          (inc, exc, used', recs') \<Rightarrow> (shrunk # inc, exc, used', recs'))
                  else (case select_aside sha256 str_of budget us used (exclude_all ''budget'' u recs) of
                          (inc, exc, used', recs') \<Rightarrow> (inc, u @ exc, used', recs'))
           | _ \<Rightarrow> (case select_aside sha256 str_of budget us used (exclude_all ''budget'' u recs) of
                    (inc, exc, used', recs') \<Rightarrow> (inc, u @ exc, used', recs')))"

text \<open>
  Pruning of tool outputs in one unit, then over the units, oldest first, until the conversation fits.
  \<open>None\<close> is the \<open>ValueError\<close> of a tool-result item that does not hold a tool result.
\<close>

fun prune_unit ::
  "(utext \<Rightarrow> utext) \<Rightarrow> nat \<Rightarrow> nat \<Rightarrow> context_unit \<Rightarrow> nat \<Rightarrow> nat \<Rightarrow> sel_records \<Rightarrow>
   (context_unit \<times> nat \<times> nat \<times> sel_records) option" where
  "prune_unit sha256 budget used [] conv pruned recs = Some ([], conv, pruned, recs)"
| "prune_unit sha256 budget used (item # u) conv pruned recs =
     (if used + conv \<le> budget then Some (item # u, conv, pruned, recs)
      else if ci_kind item \<noteq> ''tool_result'' \<or> ci_truncation_policy item = ''never''
      then map_option (\<lambda>(u', r). (item # u', r)) (prune_unit sha256 budget used u conv pruned recs)
      else case prune_tool_output (ci_content item) (ci_token_estimate item) of
             None \<Rightarrow> None
           | Some content \<Rightarrow>
               let item' = with_content sha256 content item
               in if tokens item \<le> tokens item'
                  then map_option (\<lambda>(u', r). (item # u', r)) (prune_unit sha256 budget used u conv pruned recs)
                  else map_option (\<lambda>(u', r). (item' # u', r))
                         (prune_unit sha256 budget used u (conv - (tokens item - tokens item')) (Suc pruned)
                            (mark_action ''pruned'' (ci_token_estimate item') (ci_item_id item) recs)))"

fun prune_units ::
  "(utext \<Rightarrow> utext) \<Rightarrow> nat \<Rightarrow> nat \<Rightarrow> context_unit list \<Rightarrow> nat \<Rightarrow> nat \<Rightarrow> sel_records \<Rightarrow>
   (context_unit list \<times> nat \<times> nat \<times> sel_records) option" where
  "prune_units sha256 budget used [] conv pruned recs = Some ([], conv, pruned, recs)"
| "prune_units sha256 budget used (u # us) conv pruned recs =
     (if used + conv \<le> budget then Some (u # us, conv, pruned, recs)
      else case prune_unit sha256 budget used u conv pruned recs of
             None \<Rightarrow> None
           | Some (u', conv', pruned', recs') \<Rightarrow>
               map_option (\<lambda>(us', r). (u' # us', r)) (prune_units sha256 budget used us conv' pruned' recs'))"

fun cut_units ::
  "nat \<Rightarrow> nat \<Rightarrow> context_unit list \<Rightarrow> nat \<Rightarrow> sel_records \<Rightarrow> context_unit list \<times> context_unit list \<times> sel_records" where
  "cut_units budget used [] conv recs = ([], [], recs)"
| "cut_units budget used (u # us) conv recs =
     (if used + conv \<le> budget then (u # us, [], recs)
      else case cut_units budget used us (conv - unit_tokens u) (exclude_all ''budget_cut'' u recs) of
             (kept, dropped, recs') \<Rightarrow> (kept, u # dropped, recs'))"

section \<open>Assembly\<close>

record context_assembly =
  ca_included :: "context_item list"
  ca_excluded :: "context_item list"
  ca_manifest :: pyval
  ca_manifest_hash :: utext
  ca_used_tokens :: nat
  ca_total_budget :: nat
  ca_over_budget :: bool
  ca_cut_units :: nat
  ca_pruned_items :: nat

definition record_items :: "sel_record \<Rightarrow> (utext \<times> pyval) list" where
  "record_items r =
     [(utf ''action'', pstr (sr_action r))]
     @ (case sr_reason r of None \<Rightarrow> [] | Some x \<Rightarrow> [(utf ''reason'', pstr x)])
     @ [(utf ''original_tokens'', PInt (int (sr_original_tokens r))),
        (utf ''final_tokens'', PInt (int (sr_final_tokens r)))]"

definition manifest_entry ::
  "(utext \<Rightarrow> utext) \<Rightarrow> context_item list \<Rightarrow> sel_records \<Rightarrow> context_item \<Rightarrow> pyval" where
  "manifest_entry sha256 included recs original =
     (let final = (case find_by ci_item_id (ci_item_id original) included of None \<Rightarrow> original | Some x \<Rightarrow> x)
      in PDict (dict_update (to_manifest sha256 final)
           (case recs (ci_item_id original) of None \<Rightarrow> [] | Some r \<Rightarrow> record_items r)))"

definition by_arrival :: "context_item list \<Rightarrow> context_item list \<Rightarrow> context_item list" where
  "by_arrival items xs = sort_key (\<lambda>x. arrival items (ci_item_id x)) xs"

definition excluded_by_id :: "context_item list \<Rightarrow> (string \<times> context_item) list" where
  "excluded_by_id xs = fold (\<lambda>x d. dict_put (ci_item_id x) x d) xs []"

definition manifest_payload ::
  "(utext \<Rightarrow> utext) \<Rightarrow> nat \<Rightarrow> (utext \<times> pyval) list \<Rightarrow> context_item list \<Rightarrow> context_item list \<Rightarrow> sel_records \<Rightarrow> nat \<Rightarrow>
   bool \<Rightarrow> nat \<Rightarrow> nat \<Rightarrow> nat \<Rightarrow> pyval" where
  "manifest_payload sha256 budget details items included recs used over protected_n cut_n pruned_n =
     (let inside = (\<lambda>x. ci_item_id x \<in> ci_item_id ` set included); entry = manifest_entry sha256 included recs
      in PDict ([(utf ''schema_version'', pstr ''harness.context.v2''), (utf ''total_budget'', PInt (int budget)),
                 (utf ''used_tokens'', PInt (int used)), (utf ''over_budget'', PBool over),
                 (utf ''protected_units'', PInt (int protected_n)), (utf ''cut_units'', PInt (int cut_n)),
                 (utf ''pruned_items'', PInt (int pruned_n)),
                 (utf ''included'', PList (map entry (filter inside items))),
                 (utf ''excluded'', PList (map entry (filter (\<lambda>x. \<not> inside x) items)))]
                @ (if details = [] then [] else [(utf ''budget_details'', PDict details)])))"

text \<open>The phases up to the classification: the units, what fell out, and the records.\<close>

definition assemble_units ::
  "(utext \<Rightarrow> utext) \<Rightarrow> (pyval \<Rightarrow> utext) \<Rightarrow> context_item list \<Rightarrow> context_unit list \<times> context_item list \<times> sel_records" where
  "assemble_units sha256 str_of items =
     (case cap_items sha256 str_of items of
        (capped, excluded, recs) \<Rightarrow>
          (case call_units_loop capped Map.empty [] of
             (call_units, ambiguous) \<Rightarrow>
               let dropped = filter (ambiguous_item ambiguous) capped;
                   units = group_units call_units ambiguous capped;
                   malformed = concat (filter (\<lambda>u. classify items u = Uc_malformed) units)
               in (units, excluded @ dropped @ malformed,
                   exclude_all ''malformed_tool_pair'' (dropped @ malformed) recs)))"

definition assemble ::
  "(utext \<Rightarrow> utext) \<Rightarrow> (pyval \<Rightarrow> utext) \<Rightarrow> int \<Rightarrow> (utext \<times> int) list \<Rightarrow> context_item list \<Rightarrow> context_assembly option" where
  "assemble sha256 str_of total_budget budget_details items =
     (if \<not> distinct (map ci_item_id items) then None
      else
        let budget = nat (max 0 total_budget);
            details = map (\<lambda>p. (fst p, PInt (max 0 (snd p)))) (sort_key fst budget_details);
            (units, excluded0, recs0) = assemble_units sha256 str_of items;
            fixed = of_class items Uc_mandatory units @ of_class items Uc_protected units;
            conversation = of_class items Uc_conversation units;
            used0 = sum_list (map unit_tokens fixed);
            (inc1, exc1, used1, recs1) = select_aside sha256 str_of budget (aside_units items units) used0 recs0;
            conv0 = sum_list (map unit_tokens conversation)
        in case prune_units sha256 budget used1 conversation conv0 0 recs1 of
             None \<Rightarrow> None
           | Some (conversation', conv1, pruned_n, recs2) \<Rightarrow>
               let (kept, dropped, recs3) = cut_units budget used1 conversation' conv1 recs2;
                   included = by_arrival items (concat fixed @ inc1 @ concat kept);
                   excluded = by_arrival items (map snd (excluded_by_id (excluded0 @ exc1 @ concat dropped)));
                   used = used1 + sum_list (map unit_tokens kept);
                   payload = manifest_payload sha256 budget details items included recs3 used (budget < used0)
                               (length (of_class items Uc_protected units)) (length dropped) pruned_n
               in Some \<lparr>ca_included = included, ca_excluded = excluded, ca_manifest = freeze_json payload,
                        ca_manifest_hash = stable_hash sha256 payload, ca_used_tokens = used,
                        ca_total_budget = budget, ca_over_budget = (budget < used0),
                        ca_cut_units = length dropped, ca_pruned_items = pruned_n\<rparr>)"

section \<open>A small context\<close>

definition demo_item :: "string \<Rightarrow> string \<Rightarrow> string \<Rightarrow> nat \<Rightarrow> context_item" where
  "demo_item i kind policy n =
     \<lparr>ci_item_id = i, ci_kind = kind, ci_origin = [], ci_trust = [], ci_visibility = ''model'', ci_priority = 7,
      ci_token_budget = 9, ci_truncation_policy = policy, ci_content_ref = [], ci_content_hash = [], ci_cache_class = [],
      ci_created_seq = 1, ci_token_estimate = n, ci_render_role = [], ci_render_name = [], ci_pair_id = [],
      ci_message_group = i, ci_unit_id = i, ci_content = PNone, ci_metadata = PDict []\<rparr>"

definition demo_items :: "context_item list" where
  "demo_items =
     [demo_item ''s'' ''system_rule'' ''never'' 2, demo_item ''q'' ''user_input'' ''tail'' 3,
      demo_item ''a'' ''assistant_history'' ''tail'' 4, demo_item ''m'' ''memory'' ''drop'' 6,
      demo_item ''r'' ''user_input'' ''never'' 1]"

definition sides_of :: "context_assembly option \<Rightarrow> (string list \<times> string list \<times> nat \<times> nat) option" where
  "sides_of r = map_option (\<lambda>a. (map ci_item_id (ca_included a), map ci_item_id (ca_excluded a), ca_used_tokens a,
                              ca_cut_units a)) r"

lemma demo_assembly:
  "sides_of (assemble (\<lambda>_. []) (\<lambda>_. []) 8 [] demo_items) = Some ([''s'', ''a'', ''r''], [''q'', ''m''], 7, 1)"
  by code_simp

section \<open>Every item on exactly one side\<close>

abbreviation ids :: "context_item list \<Rightarrow> string multiset" where
  "ids xs \<equiv> mset (map ci_item_id xs)"

lemma ids_with_content [simp]:
  "ci_item_id (with_content sha c x) = ci_item_id x" "ci_visibility (with_content sha c x) = ci_visibility x"
  by (simp_all add: with_content_def Let_def)

lemma id_shrunk_to [simp]: "ci_item_id (shrunk_to sha str t x) = ci_item_id x"
  by (simp add: shrunk_to_def)

lemma id_refit [simp]: "ci_item_id (refit sha str b t x) = ci_item_id x"
  by (induction sha str b t x rule: refit.induct) (subst refit.simps, simp add: Let_def)

lemma id_assigned_unit [simp]: "ci_item_id (assigned_unit cu x) = ci_item_id x"
  by (simp add: assigned_unit_def split: option.split)

lemma id_cap_item: "cap_item sha str x = (Some y, r) \<Longrightarrow> ci_item_id y = ci_item_id x"
  by (auto simp: cap_item_def Let_def split: if_splits)

lemma ids_cap_items:
  "cap_items sha str items = (capped, exc, recs) \<Longrightarrow> ids capped + ids exc = ids items"
proof (induction items arbitrary: capped exc recs)
  case (Cons x items)
  obtain c e r where 1: "cap_items sha str items = (c, e, r)" by (cases "cap_items sha str items")
  obtain y q where 2: "cap_item sha str x = (y, q)" by (cases "cap_item sha str x")
  have ih: "ids items = ids c + ids e" using Cons.IH [OF 1] by simp
  show ?case
  proof (cases y)
    case None
    then have "capped = c" "exc = x # e" using Cons.prems 1 2 by auto
    then show ?thesis using ih by simp
  next
    case (Some z)
    then have "capped = z # c" "exc = e" "ci_item_id z = ci_item_id x" using Cons.prems 1 2 id_cap_item [of sha str x z q] by auto
    then show ?thesis using ih by simp
  qed
qed simp

lemma mset_append_unit: "mset (concat (map snd (append_unit x us))) = add_mset x (mset (concat (map snd us)))"
  by (induction us) auto

lemma mset_group_units:
  "mset (concat (group_units cu amb xs)) = mset (map (assigned_unit cu) (filter (\<lambda>x. \<not> ambiguous_item amb x) xs))"
proof -
  have "mset (concat (map snd (fold append_unit ys us))) = mset ys + mset (concat (map snd us))" for ys us
    by (induction ys arbitrary: us) (simp_all add: mset_append_unit)
  then show ?thesis by (simp add: group_units_def)
qed

lemma concat_mset_eq: "mset us = mset vs \<Longrightarrow> mset (concat us) = mset (concat vs)"
  unfolding mset_concat by (metis mset_map sum_mset_sum_list)

lemma mset_concat_sorted [simp]: "mset (concat (sort_key f us)) = mset (concat us)"
  by (rule concat_mset_eq) simp

lemma mset_concat_of_class [simp]:
  "mset (concat (of_class items c us)) = mset (concat (filter (\<lambda>u. classify items u = c) us))"
  by (simp add: of_class_def)

lemma mset_concat_aside [simp]:
  "mset (concat (aside_units items us)) = mset (concat (filter (\<lambda>u. classify items u = Uc_aside) us))"
  by (simp add: aside_units_def)

lemma mset_classes:
  "mset (concat us) = mset (concat (filter (\<lambda>u. classify items u = Uc_mandatory) us))
     + mset (concat (filter (\<lambda>u. classify items u = Uc_protected) us))
     + mset (concat (filter (\<lambda>u. classify items u = Uc_malformed) us))
     + mset (concat (filter (\<lambda>u. classify items u = Uc_conversation) us))
     + mset (concat (filter (\<lambda>u. classify items u = Uc_aside) us))"
proof (induction us)
  case (Cons u us)
  then show ?case by (cases "classify items u") (simp_all add: ac_simps)
qed simp

lemma ids_mset: "mset xs = mset ys \<Longrightarrow> ids xs = ids ys"
  by (simp add: mset_map)

text \<open>The units, the items already left out, and nothing else.\<close>

lemma ids_assemble_units:
  assumes "assemble_units sha str items = (units, exc, recs)"
  shows "ids (concat (filter (\<lambda>u. classify items u \<noteq> Uc_malformed) units)) + ids exc = ids items"
proof -
  obtain capped e r where 1: "cap_items sha str items = (capped, e, r)" by (cases "cap_items sha str items")
  obtain cu amb where 2: "call_units_loop capped Map.empty [] = (cu, amb)" by fastforce
  have u: "units = group_units cu amb capped"
    and exc: "exc = e @ filter (ambiguous_item amb) capped @ concat (filter (\<lambda>u. classify items u = Uc_malformed) units)"
    using assms 1 2 by (auto simp: assemble_units_def Let_def)
  have "ids (concat units) = ids (filter (\<lambda>x. \<not> ambiguous_item amb x) capped)"
    using ids_mset [OF mset_group_units [of cu amb capped]] by (simp add: u comp_def)
  moreover have "ids (filter (\<lambda>x. \<not> ambiguous_item amb x) capped) + ids (filter (ambiguous_item amb) capped) = ids capped"
    by (simp flip: image_mset_union)
  moreover have "ids (concat (filter (\<lambda>u. classify items u \<noteq> Uc_malformed) units))
      + ids (concat (filter (\<lambda>u. classify items u = Uc_malformed) units)) = ids (concat units)"
    by (induction units) auto
  ultimately show ?thesis using ids_cap_items [OF 1] by (simp add: exc) (metis (no_types, lifting) add.assoc add.commute)
qed

section \<open>The budget\<close>

lemma select_aside_spec:
  "select_aside sha str budget us used recs = (inc, exc, used', recs')
   \<Longrightarrow> ids inc + ids exc = ids (concat us) \<and> used' = used + sum_list (map tokens inc) \<and> used' \<le> max used budget"
proof (induction us arbitrary: used recs inc exc used' recs')
  case (Cons u us)
  obtain i e w r where full: "select_aside sha str budget us (used + unit_tokens u) recs = (i, e, w, r)"
    by (cases "select_aside sha str budget us (used + unit_tokens u) recs")
  obtain i2 e2 w2 r2 where out: "select_aside sha str budget us used (exclude_all ''budget'' u recs) = (i2, e2, w2, r2)"
    by (cases "select_aside sha str budget us used (exclude_all ''budget'' u recs)")
  show ?case
  proof (cases "unit_tokens u \<le> budget - used")
    case True
    then have "inc = u @ i" "exc = e" "used' = w" using Cons.prems full by (auto simp: Let_def)
    then show ?thesis using Cons.IH [OF full] True by (auto simp: unit_tokens_def ac_simps)
  next
    case big: False
    have excluded: ?thesis if "inc = i2" "exc = u @ e2" "used' = w2"
      using Cons.IH [OF out] that by (auto simp: ac_simps)
    show ?thesis
    proof (cases "\<exists>item. u = [item] \<and> 0 < budget - used \<and> shrinkable item
        \<and> tokens (shrunk_to sha str (int (budget - used)) item) < tokens item
        \<and> tokens (shrunk_to sha str (int (budget - used)) item) \<le> budget - used")
      case True
      then obtain item where item: "u = [item]" "0 < budget - used" "shrinkable item"
        "tokens (shrunk_to sha str (int (budget - used)) item) < tokens item"
        "tokens (shrunk_to sha str (int (budget - used)) item) \<le> budget - used" by blast
      define s where "s = shrunk_to sha str (int (budget - used)) item"
      obtain i3 e3 w3 r3 where cut: "select_aside sha str budget us (used + tokens s)
          (mark_action ''truncated'' (ci_token_estimate s) (ci_item_id item) recs) = (i3, e3, w3, r3)"
        by (metis prod_cases4)
      have "inc = s # i3" "exc = e3" "used' = w3" "ci_item_id s = ci_item_id item"
        using Cons.prems big item cut by (auto simp: Let_def s_def simp del: of_nat_diff)
      then show ?thesis using Cons.IH [OF cut] item by (auto simp: s_def ac_simps)
    next
      case False
      then have "inc = i2 \<and> exc = u @ e2 \<and> used' = w2"
        using Cons.prems big out by (cases u rule: remdups_adj.cases) (auto simp: Let_def simp del: of_nat_diff)
      then show ?thesis using excluded by blast
    qed
  qed
qed simp

lemma prune_unit_spec:
  "prune_unit sha budget used u conv pruned recs = Some (u', conv', pruned', recs') \<Longrightarrow> unit_tokens u \<le> conv
   \<Longrightarrow> map ci_item_id u' = map ci_item_id u \<and> conv' + unit_tokens u = conv + unit_tokens u' \<and> unit_tokens u' \<le> unit_tokens u"
proof (induction u arbitrary: conv pruned recs u' conv' pruned' recs')
  case (Cons item u)
  have kept: ?case if r: "prune_unit sha budget used u conv pruned recs = Some (v, conv', pruned', recs')" "u' = item # v" for v
    using Cons.IH [OF r(1)] Cons.prems(2) r(2) by (auto simp: unit_tokens_def)
  show ?case
  proof (cases "used + conv \<le> budget")
    case True
    then show ?thesis using Cons.prems by auto
  next
    case over: False
    show ?thesis
    proof (cases "ci_kind item \<noteq> ''tool_result'' \<or> ci_truncation_policy item = ''never''")
      case True
      then show ?thesis using Cons.prems(1) over kept by auto
    next
      case res: False
      then obtain c where c: "prune_tool_output (ci_content item) (ci_token_estimate item) = Some c"
        using Cons.prems(1) over by (auto split: option.splits)
      define p where "p = with_content sha c item"
      show ?thesis
      proof (cases "tokens item \<le> tokens p")
        case True
        then show ?thesis using Cons.prems(1) over res c kept by (auto simp: Let_def p_def)
      next
        case less: False
        then obtain v where v: "prune_unit sha budget used u (conv - (tokens item - tokens p)) (Suc pruned)
            (mark_action ''pruned'' (ci_token_estimate p) (ci_item_id item) recs) = Some (v, conv', pruned', recs')" "u' = p # v"
          using Cons.prems(1) over res c by (auto simp: Let_def p_def)
        have "unit_tokens u \<le> conv - (tokens item - tokens p)" using Cons.prems(2) less by (simp add: unit_tokens_def)
        from Cons.IH [OF v(1) this] show ?thesis using v(2) less Cons.prems(2) by (auto simp: unit_tokens_def p_def)
      qed
    qed
  qed
qed simp

lemma prune_units_spec:
  "prune_units sha budget used us conv pruned recs = Some (us', conv', pruned', recs')
   \<Longrightarrow> sum_list (map unit_tokens us) \<le> conv
   \<Longrightarrow> map (map ci_item_id) us' = map (map ci_item_id) us
     \<and> conv' + sum_list (map unit_tokens us) = conv + sum_list (map unit_tokens us')"
proof (induction us arbitrary: conv pruned recs us' conv' pruned' recs')
  case (Cons u us)
  show ?case
  proof (cases "used + conv \<le> budget")
    case True
    then show ?thesis using Cons.prems by auto
  next
    case False
    then obtain v c p r vs where v: "prune_unit sha budget used u conv pruned recs = Some (v, c, p, r)"
        "prune_units sha budget used us c p r = Some (vs, conv', pruned', recs')" "us' = v # vs"
      using Cons.prems(1) by (auto split: option.splits)
    have u: "map ci_item_id v = map ci_item_id u" "c + unit_tokens u = conv + unit_tokens v"
      using prune_unit_spec [OF v(1)] Cons.prems(2) by auto
    then show ?thesis using Cons.IH [OF v(2)] Cons.prems(2) v(3) by auto
  qed
qed simp

lemma cut_units_spec:
  "cut_units budget used us conv recs = (kept, dropped, recs') \<Longrightarrow> conv = sum_list (map unit_tokens us)
   \<Longrightarrow> dropped @ kept = us \<and> (kept = [] \<or> used + sum_list (map unit_tokens kept) \<le> budget)"
proof (induction us arbitrary: conv recs kept dropped recs')
  case (Cons u us)
  obtain k d r where rest: "cut_units budget used us (conv - unit_tokens u) (exclude_all ''budget_cut'' u recs) = (k, d, r)"
    by (metis prod_cases3)
  show ?case
  proof (cases "used + conv \<le> budget")
    case True
    then show ?thesis using Cons.prems by auto
  next
    case False
    then have "kept = k" "dropped = u # d" using Cons.prems(1) rest by auto
    then show ?thesis using Cons.IH [OF rest] Cons.prems(2) by auto
  qed
qed simp

section \<open>The assembly as a whole\<close>

abbreviation fixed_units :: "context_item list \<Rightarrow> context_unit list \<Rightarrow> context_unit list" where
  "fixed_units items units \<equiv> of_class items Uc_mandatory units @ of_class items Uc_protected units"

lemma assembleE:
  assumes "assemble sha str tb details items = Some a"
  obtains units exc0 recs0 inc1 exc1 used1 recs1 conv' conv1 pruned recs2 kept dropped recs3 where
    "distinct (map ci_item_id items)"
    "assemble_units sha str items = (units, exc0, recs0)"
    "select_aside sha str (nat tb) (aside_units items units)
       (sum_list (map unit_tokens (fixed_units items units))) recs0 = (inc1, exc1, used1, recs1)"
    "prune_units sha (nat tb) used1 (of_class items Uc_conversation units)
       (sum_list (map unit_tokens (of_class items Uc_conversation units))) 0 recs1 = Some (conv', conv1, pruned, recs2)"
    "cut_units (nat tb) used1 conv' conv1 recs2 = (kept, dropped, recs3)"
    "ca_included a = by_arrival items (concat (fixed_units items units) @ inc1 @ concat kept)"
    "ca_excluded a = by_arrival items (map snd (excluded_by_id (exc0 @ exc1 @ concat dropped)))"
    "ca_used_tokens a = used1 + sum_list (map unit_tokens kept)" "ca_total_budget a = nat tb"
    "ca_over_budget a = (nat tb < sum_list (map unit_tokens (fixed_units items units)))"
    "ca_cut_units a = length dropped" "ca_pruned_items a = pruned"
proof -
  have d: "distinct (map ci_item_id items)" using assms by (auto simp: assemble_def split: if_splits)
  have t: "nat (max 0 tb) = nat tb" by simp
  obtain units exc0 recs0 where u: "assemble_units sha str items = (units, exc0, recs0)" by (metis prod_cases3)
  obtain inc1 exc1 used1 recs1 where s: "select_aside sha str (nat tb) (aside_units items units)
       (sum_list (map unit_tokens (fixed_units items units))) recs0 = (inc1, exc1, used1, recs1)"
    by (metis prod_cases4)
  obtain conv' conv1 pruned recs2 where p: "prune_units sha (nat tb) used1 (of_class items Uc_conversation units)
       (sum_list (map unit_tokens (of_class items Uc_conversation units))) 0 recs1 = Some (conv', conv1, pruned, recs2)"
    using assms d u s by (auto simp: assemble_def Let_def t split: option.splits)
  obtain kept dropped recs3 where c: "cut_units (nat tb) used1 conv' conv1 recs2 = (kept, dropped, recs3)"
    by (metis prod_cases3)
  show thesis
    by (rule that [OF d u s p c]) (use assms in \<open>simp_all add: assemble_def d u s p c t Let_def del: map_append sum_list_append; force\<close>)+
qed

lemma arrival_nth:
  assumes "distinct (map ci_item_id items)"
  shows "map (arrival items) (map ci_item_id items) = [0..<length items]"
proof (rule nth_equalityI)
  fix k assume "k < length (map (arrival items) (map ci_item_id items))"
  then have k: "k < length items" by simp
  have "takeWhile (\<lambda>x. ci_item_id x \<noteq> ci_item_id (items ! k)) items = take k items"
    by (rule takeWhile_eq_take_P_nth) (use k assms in \<open>auto simp: distinct_conv_nth\<close>)
  then show "map (arrival items) (map ci_item_id items) ! k = [0..<length items] ! k" using k by (simp add: arrival_def)
qed simp

lemma by_arrival_order:
  assumes "distinct (map ci_item_id items)" "distinct (map ci_item_id xs)" "ci_item_id ` set xs \<subseteq> ci_item_id ` set items"
  shows "map ci_item_id (by_arrival items xs) = filter (\<lambda>i. i \<in> ci_item_id ` set xs) (map ci_item_id items)" (is "?l = ?r")
proof -
  have inj: "inj_on (arrival items) (ci_item_id ` set items)"
    using arrival_nth [OF assms(1)] by (metis distinct_map distinct_upt list.set_map)
  have sl: "set ?l = ci_item_id ` set xs" and sr: "set ?r = ci_item_id ` set xs" using assms(3) by (auto simp: by_arrival_def)
  have "distinct ?l"
    using assms(2) by (metis by_arrival_def mset_map mset_sort mset_eq_imp_distinct_iff)
  moreover have "sorted (map (arrival items) ?l)" using sorted_sort_key [of "\<lambda>x. arrival items (ci_item_id x)" xs]
    by (simp add: by_arrival_def comp_def)
  moreover have "sorted (map (arrival items) ?r)"
    by (rule sorted_filter) (simp only: arrival_nth [OF assms(1)] sorted_upt)
  moreover have "distinct ?r" using assms(1) by (rule distinct_filter)
  moreover have "inj_on (arrival items) (set ?l)" "inj_on (arrival items) (set ?r)"
    using inj_on_subset [OF inj] assms(3) sl sr by auto
  ultimately have "map (arrival items) ?l = map (arrival items) ?r"
    by (intro sorted_distinct_set_unique) (simp_all only: distinct_map [of "arrival items"] set_map [of "arrival items"] sl sr)
  then show ?thesis by (rule map_inj_on) (use inj_on_subset [OF inj] assms(3) sl sr in auto)
qed

lemma excluded_by_id_distinct:
  assumes "distinct (map ci_item_id xs)"
  shows "map snd (excluded_by_id xs) = xs"
proof -
  have put: "dict_put k v d = d @ [(k, v)]" if "k \<notin> fst ` set d" for k and v :: context_item and d
    using that by (induction d) auto
  have "fold (\<lambda>x d. dict_put (ci_item_id x) x d) xs d = d @ map (\<lambda>x. (ci_item_id x, x)) xs"
    if "distinct (map ci_item_id xs)" "fst ` set d \<inter> ci_item_id ` set xs = {}" for d
    using that
  proof (induction xs arbitrary: d)
    case (Cons x xs)
    then show ?case by (subst fold_simps) (simp add: put image_iff Cons.IH [of "d @ [(ci_item_id x, x)]"])
  qed simp
  then show ?thesis using assms by (simp add: excluded_by_id_def comp_def)
qed

lemma ids_of_units: "map (map ci_item_id) us = map (map ci_item_id) vs \<Longrightarrow> map ci_item_id (concat us) = map ci_item_id (concat vs)"
  by (metis map_concat)

text \<open>The identities on the two sides, before they are put in order.\<close>

lemma assembly_ids:
  assumes "assemble_units sha str items = (units, exc0, recs0)"
    and "select_aside sha str b (aside_units items units) n recs0 = (inc1, exc1, used1, recs1)"
    and "map (map ci_item_id) (dropped @ kept) = map (map ci_item_id) (of_class items Uc_conversation units)"
  shows "ids (concat (fixed_units items units) @ inc1 @ concat kept) + ids (exc0 @ exc1 @ concat dropped) = ids items"
proof -
  have conv: "ids (concat dropped) + ids (concat kept) = ids (concat (filter (\<lambda>u. classify items u = Uc_conversation) units))"
    using ids_of_units [OF assms(3)] by (metis concat_append ids_mset map_append mset_append mset_concat_of_class)
  have aside: "ids inc1 + ids exc1 = ids (concat (filter (\<lambda>u. classify items u = Uc_aside) units))"
    using select_aside_spec [OF assms(2)] ids_mset [OF mset_concat_aside] by metis
  have fixed: "ids (concat (fixed_units items units)) = ids (concat (filter (\<lambda>u. classify items u = Uc_mandatory) units))
      + ids (concat (filter (\<lambda>u. classify items u = Uc_protected) units))"
    by (simp del: mset_concat add: mset_concat_of_class)
  have "ids (concat (filter (\<lambda>u. classify items u \<noteq> Uc_malformed) units))
      = ids (concat (fixed_units items units)) + (ids inc1 + ids exc1) + (ids (concat dropped) + ids (concat kept))"
    unfolding fixed aside conv
    by (induction units) (auto, metis unit_class.exhaust)
  then show ?thesis using ids_assemble_units [OF assms(1)] by (simp add: ac_simps)
qed


text \<open>
  C35. An assembly that returns puts every item on exactly one side, and both sides keep the order of the
  context: the identities included are the context's own identities, in its order, restricted to what was
  included, and the identities excluded are the rest, in the same order. No item is duplicated, reordered
  or lost without a trace.
\<close>

theorem assembly_partitions:
  assumes "assemble sha256 str_of total_budget budget_details items = Some a"
  shows "map ci_item_id (ca_included a)
           = filter (\<lambda>i. i \<in> ci_item_id ` set (ca_included a)) (map ci_item_id items)
       \<and> map ci_item_id (ca_excluded a)
           = filter (\<lambda>i. i \<notin> ci_item_id ` set (ca_included a)) (map ci_item_id items)"
  using assms
proof (rule assembleE)
  fix units exc0 recs0 inc1 exc1 used1 recs1 conv' conv1 pruned recs2 kept dropped recs3
  assume d: "distinct (map ci_item_id items)"
    and u: "assemble_units sha256 str_of items = (units, exc0, recs0)"
    and s: "select_aside sha256 str_of (nat total_budget) (aside_units items units)
       (sum_list (map unit_tokens (fixed_units items units))) recs0 = (inc1, exc1, used1, recs1)"
    and p: "prune_units sha256 (nat total_budget) used1 (of_class items Uc_conversation units)
       (sum_list (map unit_tokens (of_class items Uc_conversation units))) 0 recs1 = Some (conv', conv1, pruned, recs2)"
    and c: "cut_units (nat total_budget) used1 conv' conv1 recs2 = (kept, dropped, recs3)"
    and inc: "ca_included a = by_arrival items (concat (fixed_units items units) @ inc1 @ concat kept)"
    and exc: "ca_excluded a = by_arrival items (map snd (excluded_by_id (exc0 @ exc1 @ concat dropped)))"
  define ins where "ins = concat (fixed_units items units) @ inc1 @ concat kept"
  define outs where "outs = exc0 @ exc1 @ concat dropped"
  have inc: "ca_included a = by_arrival items ins" by (simp only: inc ins_def)
  have ms: "ids ins + ids outs = ids items" unfolding ins_def outs_def
    by (rule assembly_ids [OF u s]) (use prune_units_spec [OF p] cut_units_spec [OF c] in simp)
  have sides: "distinct (map ci_item_id ins)" "distinct (map ci_item_id outs)"
    "ci_item_id ` set ins \<inter> ci_item_id ` set outs = {}" "ci_item_id ` set ins \<union> ci_item_id ` set outs = ci_item_id ` set items"
  proof -
    have m: "mset (map ci_item_id (ins @ outs)) = mset (map ci_item_id items)" using ms by simp
    then have "distinct (map ci_item_id (ins @ outs))" using d mset_eq_imp_distinct_iff by blast
    then show "distinct (map ci_item_id ins)" "distinct (map ci_item_id outs)"
      "ci_item_id ` set ins \<inter> ci_item_id ` set outs = {}" by auto
    show "ci_item_id ` set ins \<union> ci_item_id ` set outs = ci_item_id ` set items"
      using mset_eq_setD [OF m] by (simp add: image_Un)
  qed
  have exc: "ca_excluded a = by_arrival items outs"
    using excluded_by_id_distinct [OF sides(2)] exc by (simp only: outs_def)
  have "map ci_item_id (ca_included a) = filter (\<lambda>i. i \<in> ci_item_id ` set ins) (map ci_item_id items)"
    unfolding inc by (rule by_arrival_order [OF d sides(1)]) (use sides(4) in blast)
  moreover have "map ci_item_id (ca_excluded a) = filter (\<lambda>i. i \<in> ci_item_id ` set outs) (map ci_item_id items)"
    unfolding exc by (rule by_arrival_order [OF d sides(2)]) (use sides(4) in blast)
  moreover have "filter (\<lambda>i. i \<in> ci_item_id ` set outs) (map ci_item_id items)
      = filter (\<lambda>i. i \<notin> ci_item_id ` set ins) (map ci_item_id items)"
    using sides(3,4) by (intro filter_cong) auto
  ultimately show ?thesis by (simp add: inc by_arrival_def)
qed

lemma demo_assemblyE:
  obtains a where "assemble (\<lambda>_. []) (\<lambda>_. []) 8 [] demo_items = Some a" "ca_used_tokens a = 7" "ca_cut_units a = 1"
    "map ci_item_id (ca_included a) = [''s'', ''a'', ''r'']" "map ci_item_id (ca_excluded a) = [''q'', ''m'']"
proof (cases "assemble (\<lambda>_. []) (\<lambda>_. []) 8 [] demo_items")
  case None
  then show thesis using demo_assembly by (simp add: sides_of_def)
next
  case (Some a)
  then show thesis using demo_assembly by (intro that [OF Some]) (simp_all add: sides_of_def)
qed

theorem assembly_partitions_witness:
  "\<exists>a. assemble (\<lambda>_. []) (\<lambda>_. []) 8 [] demo_items = Some a
     \<and> map ci_item_id (ca_included a)
           = filter (\<lambda>i. i \<in> ci_item_id ` set (ca_included a)) (map ci_item_id demo_items)
     \<and> map ci_item_id (ca_excluded a)
           = filter (\<lambda>i. i \<notin> ci_item_id ` set (ca_included a)) (map ci_item_id demo_items)"
proof -
  obtain a where "assemble (\<lambda>_. []) (\<lambda>_. []) 8 [] demo_items = Some a" by (rule demo_assemblyE)
  with assembly_partitions [OF this] show ?thesis by (intro exI [of _ a] conjI) simp_all
qed

lemma sum_unit_tokens: "sum_list (map unit_tokens us) = sum_list (map tokens (concat us))"
  by (induction us) (simp_all add: unit_tokens_def)

lemma tokens_by_arrival: "sum_list (map tokens (by_arrival items xs)) = sum_list (map tokens xs)"
  by (simp add: by_arrival_def flip: sum_mset_sum_list)

text \<open>
  C36. The token count an assembly reports is the sum of what it included, and it is within the total budget
  unless the assembly says \<open>over_budget\<close>.
\<close>

theorem assembly_keeps_budget:
  assumes "assemble sha256 str_of total_budget budget_details items = Some a"
  shows "ca_used_tokens a = sum_list (map tokens (ca_included a))
       \<and> ca_total_budget a = nat total_budget
       \<and> (ca_over_budget a \<or> ca_used_tokens a \<le> ca_total_budget a)"
  using assms
proof (rule assembleE)
  fix units exc0 recs0 inc1 exc1 used1 recs1 conv' conv1 pruned recs2 kept dropped recs3
  assume s: "select_aside sha256 str_of (nat total_budget) (aside_units items units)
       (sum_list (map unit_tokens (fixed_units items units))) recs0 = (inc1, exc1, used1, recs1)"
    and p: "prune_units sha256 (nat total_budget) used1 (of_class items Uc_conversation units)
       (sum_list (map unit_tokens (of_class items Uc_conversation units))) 0 recs1 = Some (conv', conv1, pruned, recs2)"
    and c: "cut_units (nat total_budget) used1 conv' conv1 recs2 = (kept, dropped, recs3)"
    and a: "ca_included a = by_arrival items (concat (fixed_units items units) @ inc1 @ concat kept)"
      "ca_used_tokens a = used1 + sum_list (map unit_tokens kept)" "ca_total_budget a = nat total_budget"
      "ca_over_budget a = (nat total_budget < sum_list (map unit_tokens (fixed_units items units)))"
  have conv: "conv1 = sum_list (map unit_tokens conv')" using prune_units_spec [OF p] by simp
  have used: "used1 = sum_list (map unit_tokens (fixed_units items units)) + sum_list (map tokens inc1)"
    and bound: "used1 \<le> max (sum_list (map unit_tokens (fixed_units items units))) (nat total_budget)"
    using select_aside_spec [OF s] by blast+
  have "ca_used_tokens a = sum_list (map tokens (ca_included a))"
    unfolding a tokens_by_arrival used sum_unit_tokens by simp
  moreover have "kept = [] \<or> used1 + sum_list (map unit_tokens kept) \<le> nat total_budget"
    using cut_units_spec [OF c conv] by blast
  ultimately show ?thesis using bound a(2,3,4) by auto
qed

theorem assembly_keeps_budget_witness:
  "\<exists>a. assemble (\<lambda>_. []) (\<lambda>_. []) 8 [] demo_items = Some a
     \<and> ca_used_tokens a = sum_list (map tokens (ca_included a)) \<and> ca_used_tokens a = 7 \<and> ca_total_budget a = 8"
proof -
  obtain a where a: "assemble (\<lambda>_. []) (\<lambda>_. []) 8 [] demo_items = Some a" "ca_used_tokens a = 7" by (rule demo_assemblyE)
  show ?thesis by (intro exI [of _ a] conjI) (use assembly_keeps_budget [OF a(1)] a in auto)
qed










end
