(* ===== verification/Steer_Queue.thy ===== *)
theory Steer_Queue
  imports Chat_Db
begin

text \<open>
  \<open>core/services/steer_queue.py\<close> and the table \<open>chat_steer_queue\<close> of \<open>core/db/models/chat.py\<close>: the durable
  queue of instructions a user sends while a run is active. Every database transaction is one function;
  the retry loops take an environment that gives, for each attempt, the clock, the fresh identifier and
  what other processes commit between the reads and the writes of the transaction. The UUID5 that names
  the successor run is an argument. The table of runs is not part of the state, so the foreign key of
  \<open>applied_source_run_id\<close> is not checked.

  The lemmas show that the rows keep the constraints of the table and move along the life cycle of the
  queue under any interleaving of its operations, that a claim is exclusive until its lease expires, and
  that \<open>accept_steer\<close> is idempotent.
\<close>

section \<open>Table and records\<close>

datatype steer_status = St_accepted | St_claimed | St_applied | St_cancelled | St_superseded

record chat_steer_item =
  sq_queue_id :: string
  sq_steer_id :: string
  sq_chat_id :: string
  sq_user_id :: string
  sq_target_run_id :: "string option"
  sq_steer_seq :: int
  sq_target_operation_seq :: "int option"
  sq_delivery_mode :: string
  sq_status :: steer_status
  sq_message :: utext
  sq_lease_owner :: "string option"
  sq_lease_expires_at :: "time option"
  sq_delivery_attempt :: int
  sq_superseded_by :: "string option"
  sq_applied_run_id :: "string option"
  sq_applied_source_run_id :: "string option"
  sq_applied_operation_seq :: "int option"
  sq_accepted_at :: time
  sq_claimed_at :: "time option"
  sq_applied_at :: "time option"
  sq_cancelled_at :: "time option"
  sq_updated_at :: time

record steer_db = chat_db +
  steer_items :: "chat_steer_item list"

record steer_record =
  rec_queue_id :: string
  rec_steer_id :: string
  rec_chat_id :: string
  rec_user_id :: string
  rec_target_run_id :: "string option"
  rec_steer_seq :: int
  rec_target_operation_seq :: "int option"
  rec_delivery_mode :: string
  rec_status :: steer_status
  rec_message :: utext
  rec_claim_owner :: "string option"
  rec_lease_expires_at :: "time option"
  rec_delivery_attempt :: int
  rec_superseded_by :: "string option"
  rec_applied_run_id :: "string option"
  rec_applied_source_run_id :: "string option"
  rec_applied_operation_seq :: "int option"

datatype steer_error =
    Sq_ValueError string
  | SteerQueueConflict string
  | SteerClaimLost string
  | Sq_OperationalError

definition DELIVERY_MODES :: "string list" where
  "DELIVERY_MODES = [''steer'', ''follow_up'', ''next_run'']"

definition LIVE_RUN_STATUSES :: "run_status list" where
  "LIVE_RUN_STATUSES = [Run_pending, Run_running]"

definition non_empty :: "string option \<Rightarrow> string option" where
  "non_empty v = (if v = Some [] then None else v)"

definition record_of :: "chat_steer_item \<Rightarrow> steer_record" where
  "record_of row =
     \<lparr>rec_queue_id = sq_queue_id row, rec_steer_id = sq_steer_id row, rec_chat_id = sq_chat_id row,
      rec_user_id = sq_user_id row, rec_target_run_id = non_empty (sq_target_run_id row),
      rec_steer_seq = sq_steer_seq row, rec_target_operation_seq = sq_target_operation_seq row,
      rec_delivery_mode = sq_delivery_mode row, rec_status = sq_status row, rec_message = sq_message row,
      rec_claim_owner = non_empty (sq_lease_owner row), rec_lease_expires_at = sq_lease_expires_at row,
      rec_delivery_attempt = sq_delivery_attempt row, rec_superseded_by = non_empty (sq_superseded_by row),
      rec_applied_run_id = non_empty (sq_applied_run_id row),
      rec_applied_source_run_id = non_empty (sq_applied_source_run_id row),
      rec_applied_operation_seq = sq_applied_operation_seq row\<rparr>"

section \<open>Validation\<close>

definition lower_char :: "char \<Rightarrow> char" where
  "lower_char c = (if 65 \<le> (of_char c :: nat) \<and> (of_char c :: nat) \<le> 90 then char_of ((of_char c :: nat) + 32) else c)"

definition normalize_delivery_mode :: "string \<Rightarrow> string option" where
  "normalize_delivery_mode v =
     map_of [(''steer'', ''steer''), (''followup'', ''follow_up''), (''follow_up'', ''follow_up''),
             (''nextrun'', ''next_run''), (''next_run'', ''next_run'')]
       (map lower_char (map (\<lambda>c. if c = CHR ''-'' then CHR ''_'' else c) (if v = [] then ''steer'' else v)))"

definition is_space :: "nat \<Rightarrow> bool" where
  "is_space c \<longleftrightarrow> (9 \<le> c \<and> c \<le> 13) \<or> (28 \<le> c \<and> c \<le> 32) \<or> c \<in> {133, 160, 5760, 8232, 8233, 8239, 8287, 12288}
     \<or> (8192 \<le> c \<and> c \<le> 8202)"

definition strip :: "utext \<Rightarrow> utext" where
  "strip t = rev (dropWhile is_space (rev (dropWhile is_space t)))"

definition same_request :: "string option \<Rightarrow> string \<Rightarrow> string \<Rightarrow> utext \<Rightarrow> chat_steer_item \<Rightarrow> bool" where
  "same_request target uid mode msg row \<longleftrightarrow>
     non_empty (sq_target_run_id row) = target \<and> sq_user_id row = uid \<and> sq_delivery_mode row = mode
     \<and> sq_message row = msg"

definition idempotent_record_or_conflict ::
  "string option \<Rightarrow> string \<Rightarrow> string \<Rightarrow> utext \<Rightarrow> chat_steer_item \<Rightarrow> steer_error + steer_record" where
  "idempotent_record_or_conflict target uid mode msg row =
     (if same_request target uid mode msg row then Inr (record_of row)
      else Inl (SteerQueueConflict ''steer_id already belongs to a different run, message, or delivery mode''))"

section \<open>Accepting\<close>

definition find_steer :: "string \<Rightarrow> string \<Rightarrow> 'z steer_db_scheme \<Rightarrow> chat_steer_item option" where
  "find_steer cid sid db = find (\<lambda>x. sq_chat_id x = cid \<and> sq_steer_id x = sid) (steer_items db)"

definition next_steer_seq :: "string \<Rightarrow> 'z steer_db_scheme \<Rightarrow> int" where
  "next_steer_seq cid db =
     (case map sq_steer_seq (filter (\<lambda>x. sq_chat_id x = cid) (steer_items db)) of
        [] \<Rightarrow> 0
      | x # xs \<Rightarrow> fold max xs x) + 1"

definition new_steer_row ::
  "string \<Rightarrow> string \<Rightarrow> string \<Rightarrow> string \<Rightarrow> string \<Rightarrow> int \<Rightarrow> int \<Rightarrow> string \<Rightarrow> utext \<Rightarrow> time \<Rightarrow> chat_steer_item" where
  "new_steer_row qid sid cid uid target seq opseq mode msg now =
     \<lparr>sq_queue_id = qid, sq_steer_id = sid, sq_chat_id = cid, sq_user_id = uid, sq_target_run_id = Some target,
      sq_steer_seq = seq, sq_target_operation_seq = Some opseq, sq_delivery_mode = mode, sq_status = St_accepted,
      sq_message = msg, sq_lease_owner = None, sq_lease_expires_at = None, sq_delivery_attempt = 0,
      sq_superseded_by = None, sq_applied_run_id = None, sq_applied_source_run_id = None,
      sq_applied_operation_seq = None, sq_accepted_at = now, sq_claimed_at = None, sq_applied_at = None,
      sq_cancelled_at = None, sq_updated_at = now\<rparr>"

text \<open>The reads of one attempt: it ends here (\<open>Inl\<close>), or it has a row to write.\<close>

definition plan_accept ::
  "time \<Rightarrow> string \<Rightarrow> string \<Rightarrow> string \<Rightarrow> string \<Rightarrow> string \<Rightarrow> utext \<Rightarrow> string \<Rightarrow> 'z steer_db_scheme \<Rightarrow>
   (steer_error + steer_record) + chat_steer_item" where
  "plan_accept now qid target cid uid sid msg mode db =
     (case find_steer cid sid db of
        Some existing \<Rightarrow> Inl (idempotent_record_or_conflict (Some target) uid mode msg existing)
      | None \<Rightarrow>
          (case find_run target db of
             None \<Rightarrow> Inl (Inl (SteerQueueConflict ''target run does not belong to this chat/user''))
           | Some run \<Rightarrow>
               if run_chat_id run \<noteq> cid \<or> run_user_id run \<noteq> uid
               then Inl (Inl (SteerQueueConflict ''target run does not belong to this chat/user''))
               else if run_status run \<notin> set LIVE_RUN_STATUSES
               then Inl (Inl (SteerQueueConflict ''target run is no longer active''))
               else Inr (new_steer_row qid sid cid uid target (next_steer_seq cid db)
                           (run_operation_seq run + 1) mode msg now)))"

text \<open>The constraints of the table; \<open>None\<close> is the \<open>IntegrityError\<close>.\<close>

definition insert_steer :: "chat_steer_item \<Rightarrow> 'z steer_db_scheme \<Rightarrow> 'z steer_db_scheme option" where
  "insert_steer row db =
     (if find_by sq_queue_id (sq_queue_id row) (steer_items db) = None
         \<and> find_session (sq_chat_id row) db \<noteq> None
         \<and> (case sq_target_run_id row of None \<Rightarrow> True | Some r \<Rightarrow> find_run r db \<noteq> None)
         \<and> sq_delivery_mode row \<in> set DELIVERY_MODES
         \<and> 0 < sq_steer_seq row \<and> 0 \<le> sq_delivery_attempt row
         \<and> 1 \<le> length (sq_message row) \<and> length (sq_message row) \<le> 10000
         \<and> (sq_chat_id row, sq_steer_id row) \<notin> (\<lambda>x. (sq_chat_id x, sq_steer_id x)) ` set (steer_items db)
         \<and> (sq_chat_id row, sq_steer_seq row) \<notin> (\<lambda>x. (sq_chat_id x, sq_steer_seq x)) ` set (steer_items db)
      then Some (db\<lparr>steer_items := steer_items db @ [row]\<rparr>) else None)"

definition replaced_by :: "chat_steer_item \<Rightarrow> chat_steer_item \<Rightarrow> bool" where
  "replaced_by row x \<longleftrightarrow> sq_target_run_id x = sq_target_run_id row \<and> sq_delivery_mode x = ''steer''
     \<and> sq_status x = St_accepted"

definition supersede :: "time \<Rightarrow> string \<Rightarrow> chat_steer_item \<Rightarrow> chat_steer_item" where
  "supersede now qid x = x\<lparr>sq_status := St_superseded, sq_superseded_by := Some qid, sq_updated_at := now\<rparr>"

definition commit_steer ::
  "time \<Rightarrow> bool \<Rightarrow> chat_steer_item \<Rightarrow> 'z steer_db_scheme \<Rightarrow> 'z steer_db_scheme option" where
  "commit_steer now replace_latest row db =
     insert_steer row
       (if replace_latest \<and> sq_delivery_mode row = ''steer''
        then db\<lparr>steer_items := update_where (replaced_by row) (supersede now (sq_queue_id row)) (steer_items db)\<rparr>
        else db)"

text \<open>
  One attempt as the environment drives it: the clock, the hex digits of the UUID, what other sessions
  commit between the reads and the writes, and an \<open>OperationalError\<close> (is it a lock?) if there is one.
\<close>

record 'z steer_attempt =
  at_now :: time
  at_hex :: string
  at_between :: "'z steer_db_scheme \<Rightarrow> 'z steer_db_scheme"
  at_fault :: "bool option"

fun accept_loop ::
  "nat \<Rightarrow> (nat \<Rightarrow> 'z steer_attempt) \<Rightarrow> string \<Rightarrow> string \<Rightarrow> string \<Rightarrow> string \<Rightarrow> utext \<Rightarrow> string \<Rightarrow> bool \<Rightarrow>
   'z steer_db_scheme \<Rightarrow> (steer_error + steer_record) \<times> 'z steer_db_scheme" where
  "accept_loop 0 env target cid uid sid msg mode replace_latest db =
     (Inl (SteerQueueConflict ''could not allocate a monotonic steer sequence''), db)"
| "accept_loop (Suc n) env target cid uid sid msg mode replace_latest db =
     (let a = env (7 - n); db1 = at_between a db
      in case at_fault a of
           Some locked \<Rightarrow>
             if \<not> locked \<or> n = 0 then (Inl Sq_OperationalError, db1)
             else accept_loop n env target cid uid sid msg mode replace_latest db1
         | None \<Rightarrow>
             (case plan_accept (at_now a) (''steerq_'' @ at_hex a) target cid uid sid msg mode db of
                Inl result \<Rightarrow> (result, db)
              | Inr row \<Rightarrow>
                  (case commit_steer (at_now a) replace_latest row db1 of
                     Some db2 \<Rightarrow> (Inr (record_of row), db2)
                   | None \<Rightarrow>
                       (case find_steer cid sid db1 of
                          Some existing \<Rightarrow> (idempotent_record_or_conflict (Some target) uid mode msg existing, db1)
                        | None \<Rightarrow> accept_loop n env target cid uid sid msg mode replace_latest db1))))"

definition accept_steer ::
  "(nat \<Rightarrow> 'z steer_attempt) \<Rightarrow> string option \<Rightarrow> string \<Rightarrow> string \<Rightarrow> string \<Rightarrow> utext \<Rightarrow> string \<Rightarrow> bool \<Rightarrow>
   'z steer_db_scheme \<Rightarrow> (steer_error + steer_record) \<times> 'z steer_db_scheme" where
  "accept_steer env target_run_id cid uid sid message delivery_mode replace_latest db =
     (case normalize_delivery_mode delivery_mode of
        None \<Rightarrow> (Inl (Sq_ValueError ''unsupported delivery mode''), db)
      | Some mode \<Rightarrow>
          let msg = strip message
          in if msg = [] \<or> 10000 < length msg
             then (Inl (Sq_ValueError ''steer message must contain 1..10000 characters''), db)
             else if sid = [] \<or> 64 < length sid
             then (Inl (Sq_ValueError ''steer_id must contain 1..64 characters''), db)
             else (case non_empty target_run_id of
                     None \<Rightarrow> (Inl (SteerQueueConflict (mode @ '' requires an active target run'')), db)
                   | Some target \<Rightarrow> accept_loop 8 env target cid uid sid msg mode replace_latest db))"

section \<open>Claiming, applying, cancelling\<close>

definition claimable :: "time \<Rightarrow> chat_steer_item \<Rightarrow> bool" where
  "claimable now x \<longleftrightarrow>
     sq_status x = St_accepted \<or> (sq_status x = St_claimed \<and> sql_le (sq_lease_expires_at x) now)"

definition take_claim :: "time \<Rightarrow> time \<Rightarrow> string \<Rightarrow> chat_steer_item \<Rightarrow> chat_steer_item" where
  "take_claim now expires owner x =
     x\<lparr>sq_status := St_claimed, sq_lease_owner := Some owner, sq_lease_expires_at := Some expires,
       sq_claimed_at := Some now, sq_delivery_attempt := sq_delivery_attempt x + 1, sq_updated_at := now\<rparr>"

definition claim_candidate :: "time \<Rightarrow> string \<Rightarrow> 'z steer_db_scheme \<Rightarrow> chat_steer_item option" where
  "claim_candidate now target db =
     first_by sq_steer_seq
       (filter (\<lambda>x. sq_target_run_id x = Some target \<and> sq_delivery_mode x = ''steer'' \<and> claimable now x)
          (steer_items db))"

definition claim_item :: "time \<Rightarrow> int \<Rightarrow> string \<Rightarrow> string \<Rightarrow> 'z steer_db_scheme \<Rightarrow> nat \<times> 'z steer_db_scheme" where
  "claim_item now lease_seconds owner qid db =
     (let P = (\<lambda>x. sq_queue_id x = qid \<and> claimable now x)
      in (affected P (steer_items db),
          db\<lparr>steer_items := update_where P (take_claim now (lease_until now lease_seconds) owner) (steer_items db)\<rparr>))"

type_synonym 'z claim_env = "nat \<Rightarrow> time \<times> ('z steer_db_scheme \<Rightarrow> 'z steer_db_scheme)"

fun claim_loop ::
  "nat \<Rightarrow> 'z claim_env \<Rightarrow> string \<Rightarrow> string \<Rightarrow> int \<Rightarrow> 'z steer_db_scheme \<Rightarrow> steer_record option \<times> 'z steer_db_scheme" where
  "claim_loop 0 env target owner lease_seconds db = (None, db)"
| "claim_loop (Suc n) env target owner lease_seconds db =
     (let now = fst (env (7 - n))
      in case claim_candidate now target db of
           None \<Rightarrow> (None, db)
         | Some c \<Rightarrow>
             let (count, db2) = claim_item now lease_seconds owner (sq_queue_id c) (snd (env (7 - n)) db)
             in if 0 < count
                then (map_option record_of (find_by sq_queue_id (sq_queue_id c) (steer_items db2)), db2)
                else claim_loop n env target owner lease_seconds db2)"

definition claim_next ::
  "'z claim_env \<Rightarrow> string \<Rightarrow> string \<Rightarrow> int \<Rightarrow> 'z steer_db_scheme \<Rightarrow>
   (steer_error + steer_record option) \<times> 'z steer_db_scheme" where
  "claim_next env target owner lease_seconds db =
     (if owner = [] then (Inl (Sq_ValueError ''claim owner is required''), db)
      else case claim_loop 8 env target owner lease_seconds db of (r, db') \<Rightarrow> (Inr r, db'))"

definition set_applied :: "time \<Rightarrow> string \<Rightarrow> string \<Rightarrow> int option \<Rightarrow> chat_steer_item \<Rightarrow> chat_steer_item" where
  "set_applied now rid source opseq x =
     x\<lparr>sq_status := St_applied, sq_applied_run_id := Some rid, sq_applied_source_run_id := Some source,
       sq_applied_operation_seq := opseq, sq_applied_at := Some now, sq_updated_at := now\<rparr>"

definition mark_applied_in_session ::
  "time \<Rightarrow> string \<Rightarrow> string \<Rightarrow> string \<Rightarrow> int \<Rightarrow> 'z steer_db_scheme \<Rightarrow> steer_error + 'z steer_db_scheme" where
  "mark_applied_in_session now qid owner rid opseq db =
     (let P = (\<lambda>x. sq_queue_id x = qid \<and> sq_status x = St_claimed \<and> sq_lease_owner x = Some owner)
      in if affected P (steer_items db) = 0 then Inl (SteerClaimLost qid)
         else Inr (db\<lparr>steer_items := update_where P
                (\<lambda>x. (set_applied now rid rid (Some opseq) x)\<lparr>sq_lease_owner := None, sq_lease_expires_at := None\<rparr>)
                (steer_items db)\<rparr>))"

definition handoff_candidate :: "string \<Rightarrow> string \<Rightarrow> string \<Rightarrow> 'z steer_db_scheme \<Rightarrow> chat_steer_item option" where
  "handoff_candidate source root cid db =
     first_by sq_steer_seq
       (filter (\<lambda>x. sq_chat_id x = cid \<and> sq_status x = St_accepted
            \<and> ((sq_delivery_mode x \<in> {''steer'', ''follow_up''} \<and> sq_target_run_id x \<in> {Some source, Some root})
               \<or> sq_delivery_mode x = ''next_run''))
          (steer_items db))"

definition consume_next_handoff_in_session ::
  "(string \<Rightarrow> string) \<Rightarrow> time \<Rightarrow> string \<Rightarrow> string option \<Rightarrow> string \<Rightarrow> string option \<Rightarrow> int option \<Rightarrow> 'z steer_db_scheme \<Rightarrow>
   steer_record option \<times> 'z steer_db_scheme" where
  "consume_next_handoff_in_session successor_id now source root_run_id cid applied_run_id opseq db =
     (case handoff_candidate source (str_or root_run_id source) cid db of
        None \<Rightarrow> (None, db)
      | Some c \<Rightarrow>
          let rid = str_or applied_run_id (successor_id (sq_queue_id c));
              P = (\<lambda>x. sq_queue_id x = sq_queue_id c \<and> sq_status x = St_accepted);
              db' = db\<lparr>steer_items := update_where P
                         (\<lambda>x. (set_applied now rid source opseq x)\<lparr>sq_delivery_attempt := sq_delivery_attempt x + 1\<rparr>)
                         (steer_items db)\<rparr>
          in if affected P (steer_items db) = 0 then (None, db)
             else (map_option record_of (find_by sq_queue_id (sq_queue_id c) (steer_items db')), db'))"

definition cancel_steer :: "time \<Rightarrow> string \<Rightarrow> string \<Rightarrow> 'z steer_db_scheme \<Rightarrow> bool \<times> 'z steer_db_scheme" where
  "cancel_steer now target sid db =
     (let P = (\<lambda>x. sq_target_run_id x = Some target \<and> sq_steer_id x = sid \<and> claimable now x)
      in (0 < affected P (steer_items db),
          db\<lparr>steer_items := update_where P
               (\<lambda>x. x\<lparr>sq_status := St_cancelled, sq_cancelled_at := Some now, sq_lease_owner := None,
                      sq_lease_expires_at := None, sq_updated_at := now\<rparr>) (steer_items db)\<rparr>))"

definition list_for_run :: "string \<Rightarrow> 'z steer_db_scheme \<Rightarrow> steer_record list" where
  "list_for_run target db =
     map record_of (sort_key sq_steer_seq
       (filter (\<lambda>x. sq_target_run_id x = Some target \<or> sq_applied_source_run_id x = Some target) (steer_items db)))"

section \<open>Interleavings\<close>

text \<open>
  The writes of the queue as events, each the atomic part of one transaction, with arbitrary arguments: a
  row may have been planned on any earlier state. \<open>successor_id\<close> is the UUID5 of a handoff.
\<close>

datatype steer_event =
    Sq_commit time bool string string string string string int int string utext
  | Sq_claim time int string string
  | Sq_applied time string string string int
  | Sq_handoff time string "string option" string "string option" "int option"
  | Sq_cancel time string string

fun sq_step :: "(string \<Rightarrow> string) \<Rightarrow> steer_event \<Rightarrow> 'z steer_db_scheme \<Rightarrow> 'z steer_db_scheme" where
  "sq_step successor_id (Sq_commit now replace_latest qid sid cid uid target seq opseq mode msg) db =
     (case commit_steer now replace_latest (new_steer_row qid sid cid uid target seq opseq mode msg now) db of
        None \<Rightarrow> db | Some db' \<Rightarrow> db')"
| "sq_step successor_id (Sq_claim now lease_seconds owner qid) db = snd (claim_item now lease_seconds owner qid db)"
| "sq_step successor_id (Sq_applied now qid owner rid opseq) db =
     (case mark_applied_in_session now qid owner rid opseq db of Inl _ \<Rightarrow> db | Inr db' \<Rightarrow> db')"
| "sq_step successor_id (Sq_handoff now source root_run_id cid applied_run_id opseq) db =
     snd (consume_next_handoff_in_session successor_id now source root_run_id cid applied_run_id opseq db)"
| "sq_step successor_id (Sq_cancel now target sid) db = snd (cancel_steer now target sid db)"

fun event_clock :: "steer_event \<Rightarrow> time" where
  "event_clock (Sq_commit now _ _ _ _ _ _ _ _ _ _) = now"
| "event_clock (Sq_claim now _ _ _) = now"
| "event_clock (Sq_applied now _ _ _ _) = now"
| "event_clock (Sq_handoff now _ _ _ _ _) = now"
| "event_clock (Sq_cancel now _ _) = now"

definition steer_run :: "(string \<Rightarrow> string) \<Rightarrow> ('z steer_db_scheme \<Rightarrow> 'z steer_db_scheme) \<Rightarrow> bool" where
  "steer_run successor_id f \<longleftrightarrow> (\<exists>es. f = run_steps (sq_step successor_id) es)"

section \<open>Invariant and life cycle\<close>

definition row_ok :: "chat_steer_item \<Rightarrow> bool" where
  "row_ok x \<longleftrightarrow> 0 < sq_steer_seq x \<and> 0 \<le> sq_delivery_attempt x \<and> sq_delivery_mode x \<in> set DELIVERY_MODES
     \<and> 1 \<le> length (sq_message x) \<and> length (sq_message x) \<le> 10000
     \<and> (sq_lease_owner x \<noteq> None) = (sq_status x = St_claimed)
     \<and> (sq_lease_expires_at x \<noteq> None) = (sq_status x = St_claimed)
     \<and> (sq_superseded_by x \<noteq> None) = (sq_status x = St_superseded)
     \<and> (sq_applied_run_id x \<noteq> None) = (sq_status x = St_applied)
     \<and> (sq_cancelled_at x \<noteq> None) = (sq_status x = St_cancelled)"

definition steer_rows_ok :: "chat_steer_item list \<Rightarrow> bool" where
  "steer_rows_ok t \<longleftrightarrow> distinct (map sq_queue_id t) \<and> distinct (map (\<lambda>x. (sq_chat_id x, sq_steer_id x)) t)
     \<and> distinct (map (\<lambda>x. (sq_chat_id x, sq_steer_seq x)) t) \<and> list_all row_ok t"

definition steer_ok :: "'z steer_db_scheme \<Rightarrow> bool" where
  "steer_ok db \<longleftrightarrow> steer_rows_ok (steer_items db)"

definition request_of :: "chat_steer_item \<Rightarrow>
    string \<times> string \<times> string \<times> string \<times> string option \<times> int \<times> int option \<times> string \<times> utext \<times> time" where
  "request_of x = (sq_queue_id x, sq_steer_id x, sq_chat_id x, sq_user_id x, sq_target_run_id x, sq_steer_seq x,
     sq_target_operation_seq x, sq_delivery_mode x, sq_message x, sq_accepted_at x)"

fun status_reaches :: "steer_status \<Rightarrow> steer_status \<Rightarrow> bool" where
  "status_reaches St_accepted s \<longleftrightarrow> True"
| "status_reaches St_claimed s \<longleftrightarrow> s \<in> {St_claimed, St_applied, St_cancelled}"
| "status_reaches s s' \<longleftrightarrow> s' = s"

text \<open>
  How a row may change: what was asked never, the status along the life cycle, and nothing at all once the
  item is applied, cancelled or superseded.
\<close>

definition follows :: "chat_steer_item \<Rightarrow> chat_steer_item \<Rightarrow> bool" where
  "follows x y \<longleftrightarrow> request_of y = request_of x \<and> status_reaches (sq_status x) (sq_status y)
     \<and> (y = x \<or> sq_status x = St_accepted \<or> sq_status x = St_claimed)
     \<and> (row_ok x \<longrightarrow> row_ok y)"

lemma follows_refl [simp, intro]: "follows x x"
  by (cases "sq_status x") (simp_all add: follows_def)

lemma follows_trans: "follows x y \<Longrightarrow> follows y z \<Longrightarrow> follows x z"
  unfolding follows_def by (cases "sq_status x"; cases "sq_status y") auto

definition evolves :: "chat_steer_item list \<Rightarrow> chat_steer_item list \<Rightarrow> bool" where
  "evolves t t' \<longleftrightarrow> (\<exists>t1 new. t' = t1 @ new \<and> list_all2 follows t t1)"

lemma evolves_refl [simp, intro]: "evolves t t"
  unfolding evolves_def by (rule exI [of _ t]) (simp add: list_all2_refl)

lemma evolves_trans: assumes "evolves a b" and "evolves b c" shows "evolves a c"
proof -
  obtain b1 n1 where b: "b = b1 @ n1" "list_all2 follows a b1" using assms(1) by (auto simp: evolves_def)
  obtain c1 n2 where c: "c = c1 @ n2" "list_all2 follows b c1" using assms(2) by (auto simp: evolves_def)
  obtain d e where d: "c1 = d @ e" "list_all2 follows b1 d" using c(2) unfolding b(1) by (auto simp: list_all2_append1)
  have "list_all2 follows a d" using b(2) d(2) by (rule list_all2_trans [rotated]) (rule follows_trans)
  then show ?thesis using c(1) d(1) by (auto simp: evolves_def)
qed

lemma evolves_member: "evolves t t' \<Longrightarrow> x \<in> set t \<Longrightarrow> \<exists>y\<in>set t'. follows x y"
proof -
  assume "evolves t t'" "x \<in> set t"
  then obtain t1 new i where "t' = t1 @ new" "list_all2 follows t t1" "i < length t" "x = t ! i"
    by (auto simp: evolves_def in_set_conv_nth)
  then have "t1 ! i \<in> set t'" "follows x (t1 ! i)" by (auto simp: list_all2_conv_all_nth)
  then show ?thesis by blast
qed

lemma evolves_update:
  "(\<And>x. x \<in> set t \<Longrightarrow> P x \<Longrightarrow> follows x (f x)) \<Longrightarrow> evolves t (update_where P f t)"
  unfolding evolves_def by (rule exI [of _ "update_where P f t"]) (auto simp: list_all2_conv_all_nth update_where_def)

lemma rows_ok_follows:
  assumes "steer_rows_ok t" and "list_all2 follows t t'"
  shows "steer_rows_ok t'"
proof -
  have "map request_of t' = map request_of t"
    using assms(2) by (induction rule: list_all2_induct) (simp_all add: follows_def)
  then have "map (g \<circ> request_of) t' = map (g \<circ> request_of) t" for g :: "_ \<Rightarrow> 'k" by (metis map_map)
  from this [of fst] this [of "\<lambda>(q, s, c, _). (c, s)"] this [of "\<lambda>(q, s, c, u, r, n, _). (c, n)"]
  have "map sq_queue_id t' = map sq_queue_id t"
    and "map (\<lambda>x. (sq_chat_id x, sq_steer_id x)) t' = map (\<lambda>x. (sq_chat_id x, sq_steer_id x)) t"
    and "map (\<lambda>x. (sq_chat_id x, sq_steer_seq x)) t' = map (\<lambda>x. (sq_chat_id x, sq_steer_seq x)) t"
    by (simp_all add: request_of_def comp_def)
  moreover have "list_all row_ok t'"
    using assms(2) assms(1) [unfolded steer_rows_ok_def] by (auto simp: list_all2_conv_all_nth list_all_length follows_def)
  ultimately show ?thesis using assms(1) by (simp add: steer_rows_ok_def)
qed

lemma rows_ok_update:
  "steer_rows_ok t \<Longrightarrow> (\<And>x. x \<in> set t \<Longrightarrow> P x \<Longrightarrow> follows x (f x)) \<Longrightarrow> steer_rows_ok (update_where P f t)"
  by (erule rows_ok_follows) (auto simp: list_all2_conv_all_nth update_where_def)

text \<open>Every write of the queue moves a row along the life cycle.\<close>

named_theorems steer_moves

lemma follows_supersede [steer_moves]: "sq_status x = St_accepted \<Longrightarrow> follows x (supersede now qid x)"
  by (auto simp: follows_def request_of_def supersede_def row_ok_def)

lemma follows_claim [steer_moves]: "claimable now x \<Longrightarrow> follows x (take_claim now e w x)"
  by (auto simp: follows_def request_of_def take_claim_def row_ok_def claimable_def)

lemma follows_applied [steer_moves]:
  "sq_status x = St_claimed \<Longrightarrow>
   follows x ((set_applied now rid src k x)\<lparr>sq_lease_owner := None, sq_lease_expires_at := None\<rparr>)"
  by (auto simp: follows_def request_of_def set_applied_def row_ok_def)

lemma follows_handoff [steer_moves]:
  "sq_status x = St_accepted \<Longrightarrow>
   follows x ((set_applied now rid src k x)\<lparr>sq_delivery_attempt := sq_delivery_attempt x + 1\<rparr>)"
  by (auto simp: follows_def request_of_def set_applied_def row_ok_def)

lemma follows_cancel [steer_moves]:
  "claimable now x \<Longrightarrow>
   follows x (x\<lparr>sq_status := St_cancelled, sq_cancelled_at := Some now, sq_lease_owner := None,
                sq_lease_expires_at := None, sq_updated_at := now\<rparr>)"
  by (auto simp: follows_def request_of_def row_ok_def claimable_def)

lemma insert_steerE:
  assumes "insert_steer row db = Some db'"
  obtains "db' = db\<lparr>steer_items := steer_items db @ [row]\<rparr>" "sq_queue_id row \<notin> sq_queue_id ` set (steer_items db)"
    "(sq_chat_id row, sq_steer_id row) \<notin> (\<lambda>x. (sq_chat_id x, sq_steer_id x)) ` set (steer_items db)"
    "(sq_chat_id row, sq_steer_seq row) \<notin> (\<lambda>x. (sq_chat_id x, sq_steer_seq x)) ` set (steer_items db)"
    "sq_delivery_mode row \<in> set DELIVERY_MODES" "0 < sq_steer_seq row" "0 \<le> sq_delivery_attempt row"
    "1 \<le> length (sq_message row)" "length (sq_message row) \<le> 10000"
proof -
  from assms have g: "find_by sq_queue_id (sq_queue_id row) (steer_items db) = None
         \<and> sq_delivery_mode row \<in> set DELIVERY_MODES
         \<and> 0 < sq_steer_seq row \<and> 0 \<le> sq_delivery_attempt row
         \<and> 1 \<le> length (sq_message row) \<and> length (sq_message row) \<le> 10000
         \<and> (sq_chat_id row, sq_steer_id row) \<notin> (\<lambda>x. (sq_chat_id x, sq_steer_id x)) ` set (steer_items db)
         \<and> (sq_chat_id row, sq_steer_seq row) \<notin> (\<lambda>x. (sq_chat_id x, sq_steer_seq x)) ` set (steer_items db)"
    and d: "db' = db\<lparr>steer_items := steer_items db @ [row]\<rparr>"
    unfolding insert_steer_def by (metis (lifting) option.distinct(1) option.inject)+
  show thesis by (rule that [OF d]) (use g in \<open>auto simp: find_by_None_iff\<close>)
qed

lemma rows_ok_insert:
  assumes "steer_ok db" and "insert_steer row db = Some db'" and "row = new_steer_row qid sid cid uid target seq opseq mode msg now"
  shows "steer_ok db'"
  using assms(2)
proof (rule insert_steerE)
  assume d: "db' = db\<lparr>steer_items := steer_items db @ [row]\<rparr>"
    and keys: "sq_queue_id row \<notin> sq_queue_id ` set (steer_items db)"
      "(sq_chat_id row, sq_steer_id row) \<notin> (\<lambda>x. (sq_chat_id x, sq_steer_id x)) ` set (steer_items db)"
      "(sq_chat_id row, sq_steer_seq row) \<notin> (\<lambda>x. (sq_chat_id x, sq_steer_seq x)) ` set (steer_items db)"
    and checks: "sq_delivery_mode row \<in> set DELIVERY_MODES" "0 < sq_steer_seq row" "0 \<le> sq_delivery_attempt row"
      "1 \<le> length (sq_message row)" "length (sq_message row) \<le> 10000"
  have "row_ok row" using checks assms(3) by (simp add: row_ok_def new_steer_row_def)
  then show ?thesis using assms(1) keys by (simp add: d steer_ok_def steer_rows_ok_def)
qed

lemma evolves_insert: "insert_steer row db = Some db' \<Longrightarrow> evolves (steer_items db) (steer_items db')"
proof (erule insert_steerE)
  assume "db' = db\<lparr>steer_items := steer_items db @ [row]\<rparr>"
  then show ?thesis unfolding evolves_def
    by (intro exI [of _ "steer_items db"] exI [of _ "[row]"]) (simp add: list_all2_refl)
qed

text \<open>A whole event: the rows evolve and the constraints stay.\<close>

lemma sq_step_sound:
  "evolves (steer_items db) (steer_items (sq_step successor_id e db)) \<and> (steer_ok db \<longrightarrow> steer_ok (sq_step successor_id e db))"
proof (cases e)
  case (Sq_commit now rep qid sid cid uid target seq opseq mode msg)
  define row where "row = new_steer_row qid sid cid uid target seq opseq mode msg now"
  define db1 where "db1 = (if rep \<and> sq_delivery_mode row = ''steer''
        then db\<lparr>steer_items := update_where (replaced_by row) (supersede now (sq_queue_id row)) (steer_items db)\<rparr> else db)"
  have 1: "evolves (steer_items db) (steer_items db1)" "steer_ok db \<Longrightarrow> steer_ok db1"
    by (auto simp: db1_def replaced_by_def steer_ok_def intro!: evolves_update rows_ok_update steer_moves)
  have step: "sq_step successor_id e db = (case insert_steer row db1 of None \<Rightarrow> db | Some db' \<Rightarrow> db')"
    by (simp add: Sq_commit commit_steer_def row_def db1_def)
  show ?thesis
  proof (cases "insert_steer row db1")
    case (Some db')
    then show ?thesis
      using step 1 evolves_insert [OF Some] rows_ok_insert [OF _ Some row_def] evolves_trans by auto
  qed (simp add: step)
next
  case (Sq_claim now lease owner qid)
  then show ?thesis
    by (auto simp: claim_item_def Let_def steer_ok_def intro!: evolves_update rows_ok_update steer_moves)
next
  case (Sq_applied now qid owner rid opseq)
  then show ?thesis
    by (auto simp: mark_applied_in_session_def Let_def steer_ok_def intro!: evolves_update rows_ok_update steer_moves)
next
  case (Sq_handoff now source root cid rid opseq)
  then show ?thesis
    by (auto simp: consume_next_handoff_in_session_def Let_def steer_ok_def split: option.split
          intro!: evolves_update rows_ok_update steer_moves)
next
  case (Sq_cancel now target sid)
  then show ?thesis
    by (auto simp: cancel_steer_def Let_def steer_ok_def intro!: evolves_update rows_ok_update steer_moves)
qed

interpretation steer: step_system "sq_step successor_id" "\<lambda>_. True" steer_ok for successor_id
  by unfold_locales (use sq_step_sound in blast)

lemma steer_run_sound:
  assumes "steer_run successor_id f"
  shows "evolves (steer_items db) (steer_items (f db))" and "steer_ok db \<Longrightarrow> steer_ok (f db)"
proof -
  obtain es where f: "f = run_steps (sq_step successor_id) es" using assms by (auto simp: steer_run_def)
  have "evolves (steer_items db) (steer_items (run_steps (sq_step successor_id) es db))"
  proof (induction es arbitrary: db)
    case (Cons e es)
    then show ?case using sq_step_sound evolves_trans by (metis run_steps.simps(2))
  qed simp
  then show "evolves (steer_items db) (steer_items (f db))" by (simp add: f)
  show "steer_ok db \<Longrightarrow> steer_ok (f db)" unfolding f by (rule steer.inv_run) (simp_all add: list_all_iff)
qed

text \<open>
  C38. Under any interleaving of accepts, claims, applications, handoffs and cancellations the queue keeps
  its constraints (unique identities, unique positive sequence numbers per chat, a lease exactly on the claimed
  items), and every item stays in the queue and follows its life cycle: what was asked never changes, the
  status only moves forward, and an applied, cancelled or superseded item never changes again.
\<close>

theorem steer_items_follow_lifecycle:
  assumes "steer_ok db"
  shows "steer_ok (run_steps (sq_step successor_id) es db)
       \<and> (\<forall>x\<in>set (steer_items db). \<exists>y\<in>set (steer_items (run_steps (sq_step successor_id) es db)). follows x y)"
  using steer_run_sound [of successor_id "run_steps (sq_step successor_id) es" db] evolves_member assms
  by (auto simp: steer_run_def)

section \<open>Claims\<close>

fun applies :: "string \<Rightarrow> string \<Rightarrow> steer_event \<Rightarrow> bool" where
  "applies qid owner (Sq_applied _ q w _ _) \<longleftrightarrow> q = qid \<and> w = owner"
| "applies qid owner _ \<longleftrightarrow> False"

lemma update_where_keeps: "x \<in> set t \<Longrightarrow> \<not> P x \<Longrightarrow> x \<in> set (update_where P f t)"
  by (auto simp: set_update_where intro: image_eqI [of _ _ x])

lemma claimed_row_untouched:
  assumes "x \<in> set (steer_items db)" "sq_status x = St_claimed" "sq_lease_expires_at x = Some t"
    and "sq_lease_owner x = Some w" "event_clock e < t" "\<not> applies (sq_queue_id x) w e"
  shows "x \<in> set (steer_items (sq_step successor_id e db))"
proof (cases e)
  case (Sq_commit now rep qid sid cid uid target seq opseq mode msg)
  then show ?thesis using assms
    by (auto simp: commit_steer_def insert_steer_def replaced_by_def intro: update_where_keeps)
next
  case (Sq_applied now qid owner rid opseq)
  then show ?thesis using assms by (auto simp: mark_applied_in_session_def Let_def intro!: update_where_keeps)
qed (use assms in \<open>auto simp: claim_item_def cancel_steer_def consume_next_handoff_in_session_def Let_def claimable_def
       split: option.split intro!: update_where_keeps\<close>)

lemma steer_rows_unique:
  assumes "steer_ok db" "x \<in> set (steer_items db)"
  shows "find_by sq_queue_id (sq_queue_id x) (steer_items db) = Some x"
    and "find_steer (sq_chat_id x) (sq_steer_id x) db = Some x"
proof -
  show "find_by sq_queue_id (sq_queue_id x) (steer_items db) = Some x"
    using assms by (intro find_by_unique) (auto simp: steer_ok_def steer_rows_ok_def)
  have "find_by (\<lambda>x. (sq_chat_id x, sq_steer_id x)) (sq_chat_id x, sq_steer_id x) (steer_items db) = Some x"
    using assms by (intro find_by_unique [where key = "\<lambda>x. (sq_chat_id x, sq_steer_id x)"])
      (auto simp: steer_ok_def steer_rows_ok_def)
  then show "find_steer (sq_chat_id x) (sq_steer_id x) db = Some x" by (simp add: find_by_def find_steer_def)
qed

definition claim_of :: "string \<Rightarrow> string \<Rightarrow> int \<Rightarrow> steer_record \<Rightarrow> chat_steer_item \<Rightarrow> bool" where
  "claim_of target owner lease_seconds r x \<longleftrightarrow> record_of x = r \<and> sq_status x = St_claimed
     \<and> sq_target_run_id x = Some target \<and> sq_lease_owner x = Some owner
     \<and> (\<exists>now. sq_claimed_at x = Some now \<and> sq_lease_expires_at x = Some (lease_until now lease_seconds))"

lemma claim_loop_claims:
  assumes "\<And>i. steer_run successor_id (snd (env i))"
  shows "claim_loop n env target owner lease_seconds db = (Some r, db') \<Longrightarrow> steer_ok db \<Longrightarrow>
     steer_ok db' \<and> (\<exists>x\<in>set (steer_items db'). claim_of target owner lease_seconds r x)"
proof (induction n arbitrary: db)
  case (Suc n)
  define now where "now = fst (env (7 - n))"
  obtain c where c: "claim_candidate now target db = Some c"
    using Suc.prems(1) by (auto simp: Let_def now_def split: option.splits)
  define db1 where "db1 = snd (env (7 - n)) db"
  obtain count db2 where u: "claim_item now lease_seconds owner (sq_queue_id c) db1 = (count, db2)" by fastforce
  have ok1: "steer_ok db1" and ev: "evolves (steer_items db) (steer_items db1)"
    using steer_run_sound [OF assms [of "7 - n"]] Suc.prems(2) by (auto simp: db1_def)
  have ok2: "steer_ok db2"
    using sq_step_sound [of db1 successor_id "Sq_claim now lease_seconds owner (sq_queue_id c)"] ok1 u by simp
  show ?case
  proof (cases "0 < count")
    case False
    then have "claim_loop n env target owner lease_seconds db2 = (Some r, db')"
      using Suc.prems(1) c u by (simp add: Let_def now_def db1_def)
    then show ?thesis using Suc.IH ok2 by blast
  next
    case True
    have c_in: "c \<in> set (steer_items db)" and ct: "sq_target_run_id c = Some target"
      using first_by_SomeD(1) c by (auto simp: claim_candidate_def dest!: first_by_SomeD(1))
    obtain y where y: "y \<in> set (steer_items db1)" "follows c y" using evolves_member [OF ev c_in] by blast
    have yq: "sq_queue_id y = sq_queue_id c" "sq_target_run_id y = Some target" using y(2) ct by (auto simp: follows_def request_of_def)
    have "claimable now y"
    proof -
      obtain z where "z \<in> set (steer_items db1)" "sq_queue_id z = sq_queue_id c" "claimable now z"
        using True u by (auto simp: claim_item_def Let_def affected_pos)
      then show ?thesis using steer_rows_unique(1) [OF ok1] y(1) yq(1) by (metis option.inject)
    qed
    then have x: "take_claim now (lease_until now lease_seconds) owner y \<in> set (steer_items db2)" (is "?x \<in> _")
      using u y(1) yq by (auto simp: claim_item_def Let_def set_update_where image_iff intro!: bexI [of _ y])
    have "db' = db2" "Some r = map_option record_of (find_by sq_queue_id (sq_queue_id c) (steer_items db2))"
      using Suc.prems(1) c u True by (auto simp: Let_def now_def db1_def)
    moreover have "find_by sq_queue_id (sq_queue_id c) (steer_items db2) = Some ?x"
      using steer_rows_unique(1) [OF ok2 x] yq by (simp add: take_claim_def)
    ultimately have "claim_of target owner lease_seconds r ?x" using yq by (simp add: claim_of_def take_claim_def)
    then show ?thesis using x ok2 \<open>db' = db2\<close> by blast
  qed
qed simp

lemma claim_survives:
  assumes "list_all (\<lambda>e. event_clock e < t \<and> \<not> applies (sq_queue_id x) w e) es"
    and "x \<in> set (steer_items db)" "sq_status x = St_claimed" "sq_lease_expires_at x = Some t" "sq_lease_owner x = Some w"
  shows "x \<in> set (steer_items (run_steps (sq_step successor_id) es db))"
  using assms(1,2)
proof (induction es arbitrary: db)
  case (Cons e es)
  have "x \<in> set (steer_items (sq_step successor_id e db))"
    using claimed_row_untouched [OF Cons.prems(2) assms(3-5)] Cons.prems(1) by simp
  then show ?case using Cons.IH Cons.prems(1) by simp
qed simp

lemma mark_applied_succeeds:
  assumes "x \<in> set (steer_items db)" "sq_status x = St_claimed" "sq_lease_owner x = Some w"
  shows "\<exists>db'. mark_applied_in_session now (sq_queue_id x) w rid opseq db = Inr db'
     \<and> (\<exists>y\<in>set (steer_items db'). sq_queue_id y = sq_queue_id x \<and> sq_status y = St_applied \<and> sq_applied_run_id y = Some rid
          \<and> sq_message y = sq_message x)"
proof -
  define P :: "chat_steer_item \<Rightarrow> bool" where "P = (\<lambda>y. sq_queue_id y = sq_queue_id x \<and> sq_status y = St_claimed \<and> sq_lease_owner y = Some w)"
  define f :: "chat_steer_item \<Rightarrow> chat_steer_item" where "f = (\<lambda>y. (set_applied now rid rid (Some opseq) y)\<lparr>sq_lease_owner := None, sq_lease_expires_at := None\<rparr>)"
  have "P x" using assms by (simp add: P_def)
  then have "affected P (steer_items db) \<noteq> 0" using assms(1) by (auto simp: affected_zero)
  then have "mark_applied_in_session now (sq_queue_id x) w rid opseq db = Inr (db\<lparr>steer_items := update_where P f (steer_items db)\<rparr>)"
    by (simp add: mark_applied_in_session_def P_def f_def Let_def)
  moreover have "f x \<in> set (update_where P f (steer_items db))"
    using \<open>P x\<close> assms(1) by (auto simp: set_update_where image_iff intro!: bexI [of _ x])
  moreover have "sq_queue_id (f x) = sq_queue_id x \<and> sq_status (f x) = St_applied \<and> sq_applied_run_id (f x) = Some rid
      \<and> sq_message (f x) = sq_message x"
    by (simp add: f_def set_applied_def)
  ultimately show ?thesis by auto
qed

text \<open>
  C39. A claim is exclusive until its lease expires. When \<open>claim_next\<close> returns an item, whatever other sessions
  did while it was running, the item is claimed for its caller in the run it asked for. Any sequence of later
  events whose clocks are before the end of the lease, the caller's own acknowledgement apart, leaves the
  claimed row exactly as it is, so the caller can still apply it: no other claim, cancellation, handoff or
  superseding accept gets in between.
\<close>

theorem steer_claim_is_exclusive:
  assumes "steer_ok db" and "\<forall>i. steer_run successor_id (snd (env i))"
    and "claim_next env target owner lease_seconds db = (Inr (Some r), db1)"
    and "list_all (\<lambda>e. event_clock e < the (rec_lease_expires_at r) \<and> \<not> applies (rec_queue_id r) owner e) es"
  shows "\<exists>x\<in>set (steer_items (run_steps (sq_step successor_id) es db1)).
       claim_of target owner lease_seconds r x
       \<and> (\<exists>db2. mark_applied_in_session now (rec_queue_id r) owner rid opseq
                  (run_steps (sq_step successor_id) es db1) = Inr db2
            \<and> (\<exists>y\<in>set (steer_items db2). sq_queue_id y = rec_queue_id r \<and> sq_status y = St_applied
                 \<and> sq_applied_run_id y = Some rid \<and> sq_message y = rec_message r))"
proof -
  have "claim_loop 8 env target owner lease_seconds db = (Some r, db1)"
    using assms(3) by (auto simp: claim_next_def split: if_splits prod.splits)
  then obtain x where x: "x \<in> set (steer_items db1)" "claim_of target owner lease_seconds r x"
    using claim_loop_claims assms(1,2) by blast
  then obtain t where t: "sq_lease_expires_at x = Some t" "sq_status x = St_claimed" "sq_lease_owner x = Some owner"
    "record_of x = r" by (auto simp: claim_of_def)
  have r: "rec_lease_expires_at r = Some t" "rec_queue_id r = sq_queue_id x" "rec_message r = sq_message x"
    using t by (auto simp: record_of_def)
  have "x \<in> set (steer_items (run_steps (sq_step successor_id) es db1))"
    using claim_survives [of t x owner es] assms(4) x(1) t r by simp
  then show ?thesis using mark_applied_succeeds [OF _ t(2,3)] x(2) r by metis
qed

section \<open>Accepting once\<close>

lemma find_steerD: "find_steer cid sid db = Some x \<Longrightarrow> x \<in> set (steer_items db) \<and> sq_chat_id x = cid \<and> sq_steer_id x = sid"
  by (auto simp: find_steer_def find_Some_iff)

lemma commit_steer_sound:
  assumes "commit_steer now rep (new_steer_row qid sid cid uid target seq opseq mode msg now) db = Some db'" and "steer_ok db"
  shows "steer_ok db'" and "new_steer_row qid sid cid uid target seq opseq mode msg now \<in> set (steer_items db')"
proof -
  have "sq_step successor_id (Sq_commit now rep qid sid cid uid target seq opseq mode msg) db = db'" for successor_id
    using assms(1) by simp
  then show "steer_ok db'" using sq_step_sound assms(2) by metis
  show "new_steer_row qid sid cid uid target seq opseq mode msg now \<in> set (steer_items db')"
    using assms(1) unfolding commit_steer_def by (rule insert_steerE) simp
qed

lemma plan_acceptD:
  assumes "plan_accept now qid target cid uid sid msg mode db = Inr row"
  obtains seq opseq where "row = new_steer_row qid sid cid uid target seq opseq mode msg now"
  using assms by (auto simp: plan_accept_def split: option.splits if_splits)

text \<open>Whatever way an accept returns a record, that record is the row of the request.\<close>

definition accepted_as :: "string \<Rightarrow> string \<Rightarrow> string \<Rightarrow> string \<Rightarrow> utext \<Rightarrow> string \<Rightarrow> steer_record \<Rightarrow> chat_steer_item \<Rightarrow> bool" where
  "accepted_as target cid uid sid msg mode r x \<longleftrightarrow> record_of x = r \<and> sq_chat_id x = cid \<and> sq_steer_id x = sid
     \<and> same_request (Some target) uid mode msg x"

lemma existing_accepted:
  assumes "find_steer cid sid db = Some x" "idempotent_record_or_conflict (Some target) uid mode msg x = Inr r"
  shows "\<exists>x\<in>set (steer_items db). accepted_as target cid uid sid msg mode r x"
  using assms find_steerD [OF assms(1)]
  by (auto simp: idempotent_record_or_conflict_def accepted_as_def split: if_splits intro!: bexI [of _ x])

lemma accept_loop_accepts:
  assumes "\<And>i. steer_run successor_id (at_between (env i))" and "target \<noteq> []"
  shows "accept_loop n env target cid uid sid msg mode rep db = (Inr r, db') \<Longrightarrow> steer_ok db \<Longrightarrow>
     steer_ok db' \<and> (\<exists>x\<in>set (steer_items db'). accepted_as target cid uid sid msg mode r x)"
proof (induction n arbitrary: db)
  case (Suc n)
  define a where "a = env (7 - n)"
  define db1 where "db1 = at_between a db"
  have ok1: "steer_ok db1" using steer_run_sound(2) [OF assms(1) Suc.prems(2)] by (simp add: a_def db1_def)
  have next_round: ?case if "accept_loop n env target cid uid sid msg mode rep db1 = (Inr r, db')"
    using Suc.IH that ok1 by blast
  show ?case
  proof (cases "at_fault a")
    case (Some locked)
    then show ?thesis using Suc.prems(1) next_round by (auto simp: Let_def a_def db1_def split: if_splits)
  next
    case None
    show ?thesis
    proof (cases "plan_accept (at_now a) (''steerq_'' @ at_hex a) target cid uid sid msg mode db")
      case (Inl result)
      then have "result = Inr r" "db' = db" using Suc.prems(1) None by (auto simp: Let_def a_def)
      then show ?thesis using Inl Suc.prems(2) existing_accepted
        by (auto simp: plan_accept_def split: option.splits if_splits)
    next
      case (Inr row)
      then obtain seq opseq where row: "row = new_steer_row (''steerq_'' @ at_hex a) sid cid uid target seq opseq mode msg (at_now a)"
        by (rule plan_acceptD)
      show ?thesis
      proof (cases "commit_steer (at_now a) rep row db1")
        case (Some db2)
        then have r: "r = record_of row" "db' = db2" using Suc.prems(1) None Inr by (auto simp: Let_def a_def db1_def)
        have "accepted_as target cid uid sid msg mode r row"
          using assms(2) by (simp add: accepted_as_def r row same_request_def new_steer_row_def non_empty_def)
        then show ?thesis using commit_steer_sound [OF Some [unfolded row] ok1] r(2) row by blast
      next
        case conflict: None
        show ?thesis
        proof (cases "find_steer cid sid db1")
          case None
          then show ?thesis using Suc.prems(1) \<open>at_fault a = None\<close> Inr conflict next_round by (auto simp: Let_def a_def db1_def)
        next
          case (Some x)
          then have "idempotent_record_or_conflict (Some target) uid mode msg x = Inr r" "db' = db1"
            using Suc.prems(1) \<open>at_fault a = None\<close> Inr conflict by (auto simp: Let_def a_def db1_def)
          then show ?thesis using existing_accepted [OF Some] ok1 by blast
        qed
      qed
    qed
  qed
qed simp

lemma accept_repeats:
  assumes "steer_ok db" "x \<in> set (steer_items db)" "same_request (Some target) uid mode msg x"
    and "at_fault (env 0) = None"
  shows "accept_loop 8 env target (sq_chat_id x) uid (sq_steer_id x) msg mode rep db = (Inr (record_of x), db)"
proof -
  have "plan_accept now qid target (sq_chat_id x) uid (sq_steer_id x) msg mode db = Inl (Inr (record_of x))" for now qid
    using steer_rows_unique(2) [OF assms(1,2)] assms(3) by (simp add: plan_accept_def idempotent_record_or_conflict_def)
  then show ?thesis using assms(4) by (simp add: Let_def numeral_eq_Suc)
qed

text \<open>
  C40. Accepting is idempotent. Once \<open>accept_steer\<close> has returned a record, under whatever concurrent commits, faults and
  retries, sending the same request again at any later time, after any sequence of other events on the queue,
  returns the same queue item with the same sequence number and changes nothing: a lost response never queues
  an instruction twice.
\<close>

theorem accept_is_idempotent:
  assumes "steer_ok db" and "\<forall>i. steer_run successor_id (at_between (env i))"
    and "accept_steer env target_run_id cid uid sid message delivery_mode replace_latest db = (Inr r, db1)"
    and "at_fault (env' 0) = None"
  shows "\<exists>r'. accept_steer env' target_run_id cid uid sid message delivery_mode replace_latest'
                (run_steps (sq_step successor_id) es db1)
              = (Inr r', run_steps (sq_step successor_id) es db1)
         \<and> rec_queue_id r' = rec_queue_id r \<and> rec_steer_seq r' = rec_steer_seq r \<and> rec_message r' = rec_message r"
proof -
  define db2 where "db2 = run_steps (sq_step successor_id) es db1"
  obtain mode target where m: "normalize_delivery_mode delivery_mode = Some mode" "non_empty target_run_id = Some target"
    and guards: "\<not> (strip message = [] \<or> 10000 < length (strip message))" "\<not> (sid = [] \<or> 64 < length sid)"
    and loop: "accept_loop 8 env target cid uid sid (strip message) mode replace_latest db = (Inr r, db1)"
    using assms(3) by (auto simp: accept_steer_def Let_def split: option.splits if_splits)
  have "target \<noteq> []" using m(2) by (auto simp: non_empty_def split: if_splits)
  then obtain x where x: "steer_ok db1" "x \<in> set (steer_items db1)" "accepted_as target cid uid sid (strip message) mode r x"
    using accept_loop_accepts [OF _ _ loop assms(1)] assms(2) by blast
  have run: "steer_run successor_id (run_steps (sq_step successor_id) es)" by (auto simp: steer_run_def)
  have ok2: "steer_ok db2" using steer_run_sound(2) [OF run x(1)] by (simp add: db2_def)
  obtain y where y: "y \<in> set (steer_items db2)" "follows x y"
    using evolves_member [OF steer_run_sound(1) [OF run] x(2)] by (auto simp: db2_def)
  have same: "request_of y = request_of x" using y(2) by (simp add: follows_def)
  have "same_request (Some target) uid mode (strip message) y" "sq_chat_id y = cid" "sq_steer_id y = sid"
    using x(3) same by (simp_all add: accepted_as_def same_request_def request_of_def)
  then have "accept_loop 8 env' target cid uid sid (strip message) mode replace_latest' db2 = (Inr (record_of y), db2)"
    using accept_repeats [of db2 y target uid mode "strip message" env'] ok2 y(1) assms(4) by blast
  then have "accept_steer env' target_run_id cid uid sid message delivery_mode replace_latest' db2 = (Inr (record_of y), db2)"
    using m guards by (simp add: accept_steer_def Let_def)
  moreover have "rec_queue_id (record_of y) = rec_queue_id r \<and> rec_steer_seq (record_of y) = rec_steer_seq r
      \<and> rec_message (record_of y) = rec_message r"
    using x(3) same by (auto simp: accepted_as_def record_of_def request_of_def)
  ultimately show ?thesis unfolding db2_def by blast
qed

section \<open>A small queue\<close>

definition demo_steer_db :: steer_db where
  "demo_steer_db =
     \<lparr>sessions = [\<lparr>sess_chat_id = ''c'', sess_user_id = ''u'', sess_title = [], sess_message_count = 0,
                  sess_next_message_seq = None, sess_updated_at = 0, sess_last_message_at = None\<rparr>],
      messages = [],
      runs = [\<lparr>run_id = ''r'', run_chat_id = ''c'', run_user_id = ''u'', run_message_id = ''m'',
              run_user_message_id = None, run_user_chat_seq = None, run_assistant_chat_seq = None,
              run_writer_slot = Some ''main'', run_status = Run_running, run_request_payload = None,
              run_last_event_offset = 0, run_error_message = None, run_usage = None, run_phase = [],
              run_lease_owner = None, run_lease_expires_at = None, run_operation_seq = 0, run_snapshot_version = 0,
              run_recovery_snapshot = None, run_last_operation_safety = [], run_failure_reason = None,
              run_updated_at = 0, run_created_at = 0, run_started_at = None, run_completed_at = None\<rparr>],
      operations = [], steer_items = [new_steer_row ''q'' ''s'' ''c'' ''u'' ''r'' 1 1 ''steer'' [104, 105] 0]\<rparr>"

definition demo_attempt :: "nat \<Rightarrow> unit steer_attempt" where
  "demo_attempt i = \<lparr>at_now = 10, at_hex = ''00'', at_between = id, at_fault = None\<rparr>"

lemma demo_steer_ok: "steer_ok demo_steer_db"
  by (simp add: demo_steer_db_def steer_ok_def steer_rows_ok_def row_ok_def new_steer_row_def DELIVERY_MODES_def)

lemma steer_run_id: "steer_run successor_id id"
  by (auto simp: steer_run_def intro!: exI [of _ "[]"])

theorem steer_items_follow_lifecycle_witness:
  "steer_ok (run_steps (sq_step id) [Sq_claim 5 60 ''w'' ''q'', Sq_cancel 6 ''r'' ''s''] demo_steer_db)
   \<and> (\<exists>y\<in>set (steer_items (run_steps (sq_step id) [Sq_claim 5 60 ''w'' ''q'', Sq_cancel 6 ''r'' ''s''] demo_steer_db)).
        follows (steer_items demo_steer_db ! 0) y)"
proof -
  have "steer_items demo_steer_db ! 0 \<in> set (steer_items demo_steer_db)" by (simp add: demo_steer_db_def)
  then show ?thesis using steer_items_follow_lifecycle [OF demo_steer_ok] by blast
qed

lemma demo_steer_claim:
  "claim_next (\<lambda>_. (5, id)) ''r'' ''w'' 60 demo_steer_db
   = (Inr (Some (record_of (take_claim 5 (lease_until 5 60) ''w'' (steer_items demo_steer_db ! 0)))),
      demo_steer_db\<lparr>steer_items := [take_claim 5 (lease_until 5 60) ''w'' (steer_items demo_steer_db ! 0)]\<rparr>)"
  by (simp add: claim_next_def numeral_eq_Suc demo_steer_db_def claim_candidate_def first_by_def claim_item_def Let_def
      claimable_def new_steer_row_def take_claim_def affected_def update_where_def find_by_def)

theorem steer_claim_is_exclusive_witness:
  "\<exists>db1 db2. fst (claim_next (\<lambda>_. (5, id)) ''r'' ''w'' 60 demo_steer_db) \<noteq> Inr None
     \<and> db1 = snd (claim_next (\<lambda>_. (5, id)) ''r'' ''w'' 60 demo_steer_db)
     \<and> mark_applied_in_session 9 ''q'' ''w'' ''r'' 1
          (run_steps (sq_step id) [Sq_cancel 6 ''r'' ''s'', Sq_claim 7 60 ''v'' ''q''] db1) = Inr (db2 :: steer_db)"
proof -
  let ?x = "take_claim 5 (lease_until 5 60) ''w'' (steer_items demo_steer_db ! 0)"
  have fields: "rec_queue_id (record_of ?x) = ''q''" "rec_lease_expires_at (record_of ?x) = Some (lease_until 5 60)"
    by (simp_all add: record_of_def take_claim_def demo_steer_db_def new_steer_row_def)
  have "list_all (\<lambda>e. event_clock e < the (rec_lease_expires_at (record_of ?x)) \<and> \<not> applies (rec_queue_id (record_of ?x)) ''w'' e)
      [Sq_cancel 6 ''r'' ''s'', Sq_claim 7 60 ''v'' ''q'']"
    unfolding fields by (simp add: lease_until_def seconds_def)
  from steer_claim_is_exclusive [OF demo_steer_ok _ demo_steer_claim this, of id 9 "''r''" 1] show ?thesis
    by (auto simp: steer_run_id fields demo_steer_claim)
qed

theorem accept_is_idempotent_witness:
  "\<exists>r'. accept_steer demo_attempt (Some ''r'') ''c'' ''u'' ''s'' [32, 104, 105, 10] ''Steer'' True
         (run_steps (sq_step id) [Sq_claim 20 60 ''w'' ''q''] demo_steer_db)
         = (Inr r', run_steps (sq_step id) [Sq_claim 20 60 ''w'' ''q''] demo_steer_db) \<and> rec_queue_id r' = ''q''"
proof -
  have "accept_steer demo_attempt (Some ''r'') ''c'' ''u'' ''s'' [32, 104, 105, 10] ''Steer'' True demo_steer_db
      = (Inr (record_of (steer_items demo_steer_db ! 0)), demo_steer_db)"
  proof -
    have "strip [32, 104, 105, 10] = [104, 105]" by (simp add: strip_def is_space_def)
    moreover have "normalize_delivery_mode ''Steer'' = Some ''steer''" by code_simp
    moreover have "find_steer ''c'' ''s'' demo_steer_db = Some (steer_items demo_steer_db ! 0)"
      "same_request (Some ''r'') ''u'' ''steer'' [104, 105] (steer_items demo_steer_db ! 0)"
      by (simp_all add: find_steer_def same_request_def demo_steer_db_def new_steer_row_def non_empty_def)
    ultimately show ?thesis
      by (simp add: accept_steer_def non_empty_def accept_loop.simps(2) [of 7, simplified] demo_attempt_def plan_accept_def idempotent_record_or_conflict_def Let_def)
  qed
  from accept_is_idempotent [OF demo_steer_ok _ this, of id demo_attempt True "[Sq_claim 20 60 ''w'' ''q'']"]
  show ?thesis by (auto simp: demo_attempt_def steer_run_id record_of_def demo_steer_db_def new_steer_row_def)
qed

end
