(* ===== verification/Ephemeral_State.thy ===== *)
theory Ephemeral_State
  imports Prelude
begin

text \<open>
  \<open>core/infra/ephemeral.py\<close>: the short-lived shared keyspace in its two implementations, the in-process
  map and the adapter to a Redis server, and \<open>core/infra/leader.py\<close>, the election of one process for
  singleton work on top of it. The Redis server is a parameter, a record of its commands, and
  \<open>redis_documented\<close> states what its documentation promises of them, over the live entries of its
  state. Times are microseconds; float arithmetic, which only \<open>bump\<close> uses, is an argument.

  The lemmas show that, \<open>bump\<close> aside, the two implementations answer every sequence of calls alike; that a
  lease granted by \<open>hold\<close> excludes the other processes, whatever commands they interleave with its own, as
  long as no process stops; and what a leader that stops does to the lease of another.
\<close>

section \<open>The in-process store\<close>

type_synonym entry = "time \<times> string"
type_synonym entries = "(string \<times> entry) list"

datatype state_error = Ttl_ValueError | Float_ValueError | Redis_ResponseError

definition checked_seconds :: "int \<Rightarrow> state_error + int" where
  "checked_seconds ttl = (if ttl \<le> 0 then Inl Ttl_ValueError else Inr ttl)"

definition local_read :: "time \<Rightarrow> bool \<Rightarrow> string \<Rightarrow> entries \<Rightarrow> string option \<times> entries" where
  "local_read now pop key st =
     (case dict_get key st of
        None \<Rightarrow> (None, st)
      | Some (expires_at, v) \<Rightarrow>
          if expires_at \<le> now then (None, dict_pop key st)
          else (Some v, if pop then dict_pop key st else st))"

definition local_prune :: "time \<Rightarrow> entries \<Rightarrow> entries" where
  "local_prune now st = filter (\<lambda>p. now < fst (snd p)) st"

definition local_get :: "time \<Rightarrow> string \<Rightarrow> entries \<Rightarrow> string option \<times> entries" where
  "local_get now key st = local_read now False key st"

definition local_take :: "time \<Rightarrow> string \<Rightarrow> entries \<Rightarrow> string option \<times> entries" where
  "local_take now key st = local_read now True key st"

definition local_put :: "time \<Rightarrow> string \<Rightarrow> string \<Rightarrow> int \<Rightarrow> entries \<Rightarrow> (state_error + unit) \<times> entries" where
  "local_put now key v ttl st =
     (case checked_seconds ttl of
        Inl e \<Rightarrow> (Inl e, st)
      | Inr ttl \<Rightarrow>
          let expires_at = now + seconds ttl
          in (Inr (), dict_put key (expires_at, v) (local_prune (expires_at - seconds ttl) st)))"

definition local_drop :: "string list \<Rightarrow> entries \<Rightarrow> entries" where
  "local_drop keys st = fold dict_pop keys st"

definition local_bump ::
  "(string \<Rightarrow> 'f option) \<Rightarrow> ('f \<Rightarrow> string) \<Rightarrow> ('f \<Rightarrow> 'f \<Rightarrow> 'f) \<Rightarrow> 'f \<Rightarrow> time \<Rightarrow> string \<Rightarrow> 'f \<Rightarrow> int \<Rightarrow> entries \<Rightarrow>
   (state_error + 'f) \<times> entries" where
  "local_bump float_of repr_of fadd fzero now key amount ttl st =
     (case checked_seconds ttl of
        Inl e \<Rightarrow> (Inl e, st)
      | Inr ttl \<Rightarrow>
          let st1 = local_prune now st
          in case (case dict_get key st1 of None \<Rightarrow> Some fzero | Some (_, v) \<Rightarrow> float_of v) of
               None \<Rightarrow> (Inl Float_ValueError, st1)
             | Some current \<Rightarrow>
                 let new_total = fadd current amount
                 in (Inr new_total, dict_put key (now + seconds ttl, repr_of new_total) st1))"

definition local_claim :: "time \<Rightarrow> string \<Rightarrow> int \<Rightarrow> entries \<Rightarrow> (state_error + bool) \<times> entries" where
  "local_claim now key ttl st =
     (case checked_seconds ttl of
        Inl e \<Rightarrow> (Inl e, st)
      | Inr ttl \<Rightarrow>
          let st1 = local_prune now st
          in if dict_get key st1 \<noteq> None then (Inr False, st1)
             else (Inr True, dict_put key (now + seconds ttl, ''1'') st1))"

definition local_hold :: "time \<Rightarrow> string \<Rightarrow> string \<Rightarrow> int \<Rightarrow> entries \<Rightarrow> (state_error + bool) \<times> entries" where
  "local_hold now key token ttl st =
     (case checked_seconds ttl of
        Inl e \<Rightarrow> (Inl e, st)
      | Inr ttl \<Rightarrow>
          let st1 = local_prune now st
          in case dict_get key st1 of
               Some (_, v) \<Rightarrow>
                 if v \<noteq> token then (Inr False, st1)
                 else (Inr True, dict_put key (now + seconds ttl, token) st1)
             | None \<Rightarrow> (Inr True, dict_put key (now + seconds ttl, token) st1))"

section \<open>The Redis adapter\<close>

text \<open>
  The commands the adapter sends. \<open>rs_set_nx\<close> is \<open>SET key value PX/EX ttl NX\<close>. \<open>rs_watch\<close> is what the server
  remembers of a key for a client that watches it, a count of the writes to the key; \<open>rs_exec_expire\<close> is the
  transaction \<open>MULTI; PEXPIRE key ttl; EXEC\<close> of a client with such a watch, and answers whether \<open>EXEC\<close> went through.
\<close>

record 's redis_server =
  rs_get :: "time \<Rightarrow> string \<Rightarrow> 's \<Rightarrow> string option"
  rs_set :: "time \<Rightarrow> string \<Rightarrow> string \<Rightarrow> time \<Rightarrow> 's \<Rightarrow> 's"
  rs_set_nx :: "time \<Rightarrow> string \<Rightarrow> string \<Rightarrow> time \<Rightarrow> 's \<Rightarrow> bool \<times> 's"
  rs_getdel :: "time \<Rightarrow> string \<Rightarrow> 's \<Rightarrow> string option \<times> 's"
  rs_delete :: "time \<Rightarrow> string list \<Rightarrow> 's \<Rightarrow> 's"
  rs_watch :: "string \<Rightarrow> 's \<Rightarrow> nat"
  rs_exec_expire :: "time \<Rightarrow> string \<Rightarrow> nat \<Rightarrow> time \<Rightarrow> 's \<Rightarrow> bool \<times> 's"

definition redis_get :: "'s redis_server \<Rightarrow> time \<Rightarrow> string \<Rightarrow> 's \<Rightarrow> string option \<times> 's" where
  "redis_get srv now key s = (rs_get srv now key s, s)"

definition redis_put ::
  "'s redis_server \<Rightarrow> time \<Rightarrow> string \<Rightarrow> string \<Rightarrow> int \<Rightarrow> 's \<Rightarrow> (state_error + unit) \<times> 's" where
  "redis_put srv now key v ttl s =
     (case checked_seconds ttl of
        Inl e \<Rightarrow> (Inl e, s)
      | Inr ttl \<Rightarrow> (Inr (), rs_set srv now key v (seconds ttl) s))"

definition redis_take :: "'s redis_server \<Rightarrow> time \<Rightarrow> string \<Rightarrow> 's \<Rightarrow> string option \<times> 's" where
  "redis_take srv now key s = rs_getdel srv now key s"

definition redis_drop :: "'s redis_server \<Rightarrow> time \<Rightarrow> string list \<Rightarrow> 's \<Rightarrow> 's" where
  "redis_drop srv now keys s = (if keys = [] then s else rs_delete srv now keys s)"

definition redis_claim ::
  "'s redis_server \<Rightarrow> time \<Rightarrow> string \<Rightarrow> int \<Rightarrow> 's \<Rightarrow> (state_error + bool) \<times> 's" where
  "redis_claim srv now key ttl s =
     (case checked_seconds ttl of
        Inl e \<Rightarrow> (Inl e, s)
      | Inr ttl \<Rightarrow> (case rs_set_nx srv now key ''1'' (seconds ttl) s of (ok, s') \<Rightarrow> (Inr ok, s')))"

text \<open>
  \<open>bump\<close> is two commands of the server, \<open>INCRBYFLOAT\<close> and \<open>EXPIRE\<close>, which are arguments here; the lifetime is checked
  between the two.
\<close>

definition redis_bump ::
  "(time \<Rightarrow> string \<Rightarrow> 'f \<Rightarrow> 's \<Rightarrow> (state_error + 'f) \<times> 's) \<Rightarrow> (time \<Rightarrow> string \<Rightarrow> time \<Rightarrow> 's \<Rightarrow> 's) \<Rightarrow>
   time \<Rightarrow> string \<Rightarrow> 'f \<Rightarrow> int \<Rightarrow> 's \<Rightarrow> (state_error + 'f) \<times> 's" where
  "redis_bump incrbyfloat expire_key now key amount ttl s =
     (case incrbyfloat now key amount s of
        (Inl e, s1) \<Rightarrow> (Inl e, s1)
      | (Inr new_total, s1) \<Rightarrow>
          (case checked_seconds ttl of
             Inl e \<Rightarrow> (Inl e, s1)
           | Inr ttl \<Rightarrow> (Inr new_total, expire_key now key (seconds ttl) s1)))"

text \<open>
  \<open>hold\<close> is up to three round trips, \<open>SET NX\<close>, then \<open>WATCH\<close> with \<open>GET\<close>, then \<open>EXEC\<close>. \<open>hold_watch\<close> and \<open>hold_exec\<close> are the last two;
  \<open>before\<close> and \<open>within\<close> are what other clients do before the key is watched and while it is watched.
\<close>

definition hold_watch :: "'s redis_server \<Rightarrow> time \<Rightarrow> string \<Rightarrow> string \<Rightarrow> 's \<Rightarrow> nat option" where
  "hold_watch srv now key token s =
     (let watched = rs_watch srv key s in if rs_get srv now key s \<noteq> Some token then None else Some watched)"

definition hold_exec :: "'s redis_server \<Rightarrow> time \<Rightarrow> string \<Rightarrow> nat \<Rightarrow> int \<Rightarrow> 's \<Rightarrow> bool \<times> 's" where
  "hold_exec srv now key watched ttl s = rs_exec_expire srv now key watched (seconds ttl) s"

definition redis_hold ::
  "'s redis_server \<Rightarrow> ('s \<Rightarrow> 's) \<Rightarrow> ('s \<Rightarrow> 's) \<Rightarrow> time \<Rightarrow> string \<Rightarrow> string \<Rightarrow> int \<Rightarrow> 's \<Rightarrow> (state_error + bool) \<times> 's" where
  "redis_hold srv before within now key token ttl s =
     (case checked_seconds ttl of
        Inl e \<Rightarrow> (Inl e, s)
      | Inr ttl \<Rightarrow>
          (case rs_set_nx srv now key token (seconds ttl) s of
             (True, s1) \<Rightarrow> (Inr True, s1)
           | (False, s1) \<Rightarrow>
               let s2 = before s1
               in case hold_watch srv now key token s2 of
                    None \<Rightarrow> (Inr False, s2)
                  | Some watched \<Rightarrow>
                      (case hold_exec srv now key watched ttl (within s2) of (ok, s3) \<Rightarrow> (Inr ok, s3))))"

text \<open>
  What the documentation of the commands promises, over \<open>live now s\<close>, the entries of the keyspace that
  have not expired, each with its expiry and value. \<open>EXEC\<close> goes through exactly when the watched key was neither
  written nor expired since it was watched; every command that changes a key counts as a write to it, and a \<open>SET NX\<close> or an
  \<open>EXEC\<close> that does not go through writes nothing.
\<close>

definition counts_writes ::
  "'s redis_server \<Rightarrow> (time \<Rightarrow> 's \<Rightarrow> string \<Rightarrow> entry option) \<Rightarrow> time \<Rightarrow> 's \<Rightarrow> 's \<Rightarrow> bool" where
  "counts_writes srv live now s s' \<longleftrightarrow>
     (\<forall>k. rs_watch srv k s \<le> rs_watch srv k s' \<and> (live now s k \<noteq> live now s' k \<longrightarrow> rs_watch srv k s < rs_watch srv k s'))"

definition set_nx_documented :: "'s redis_server \<Rightarrow> (time \<Rightarrow> 's \<Rightarrow> string \<Rightarrow> entry option) \<Rightarrow> bool" where
  "set_nx_documented srv live \<longleftrightarrow>
     (\<forall>now k v d s ok s'. 0 < d \<longrightarrow> rs_set_nx srv now k v d s = (ok, s') \<longrightarrow>
          ok = (live now s k = None)
          \<and> live now s' = (if ok then (live now s)(k \<mapsto> (now + d, v)) else live now s)
          \<and> counts_writes srv live now s s' \<and> (\<not> ok \<longrightarrow> (\<forall>k. rs_watch srv k s' = rs_watch srv k s)))"

definition exec_documented :: "'s redis_server \<Rightarrow> (time \<Rightarrow> 's \<Rightarrow> string \<Rightarrow> entry option) \<Rightarrow> bool" where
  "exec_documented srv live \<longleftrightarrow>
     (\<forall>now k w d s ok s'. 0 < d \<longrightarrow> rs_exec_expire srv now k w d s = (ok, s') \<longrightarrow>
          ok = (live now s k \<noteq> None \<and> rs_watch srv k s = w)
          \<and> live now s' = (if ok then (live now s)(k \<mapsto> (now + d, snd (the (live now s k)))) else live now s)
          \<and> counts_writes srv live now s s' \<and> (\<not> ok \<longrightarrow> (\<forall>k. rs_watch srv k s' = rs_watch srv k s)))"

definition redis_documented ::
  "'s redis_server \<Rightarrow> (time \<Rightarrow> 's \<Rightarrow> string \<Rightarrow> entry option) \<Rightarrow> bool" where
  "redis_documented srv live \<longleftrightarrow>
     (\<forall>s t u k. t \<le> u \<longrightarrow> live u s k = (case live t s k of None \<Rightarrow> None | Some (e, v) \<Rightarrow> if e \<le> u then None else Some (e, v)))
     \<and> (\<forall>now k s. rs_get srv now k s = map_option snd (live now s k))
     \<and> (\<forall>now k v d s. 0 < d \<longrightarrow>
          live now (rs_set srv now k v d s) = (live now s)(k \<mapsto> (now + d, v))
          \<and> counts_writes srv live now s (rs_set srv now k v d s))
     \<and> set_nx_documented srv live
     \<and> (\<forall>now k s v s'. rs_getdel srv now k s = (v, s') \<longrightarrow>
          v = map_option snd (live now s k) \<and> live now s' = (live now s)(k := None) \<and> counts_writes srv live now s s')
     \<and> (\<forall>now ks s.
          live now (rs_delete srv now ks s) = (\<lambda>k. if k \<in> set ks then None else live now s k)
          \<and> counts_writes srv live now s (rs_delete srv now ks s))
     \<and> exec_documented srv live"

section \<open>Leadership\<close>

record leadership =
  ld_key :: string
  ld_token :: string
  ld_lease :: int
  ld_elected :: bool

definition LEADER_PREFIX :: string where
  "LEADER_PREFIX = ''jx:leader:''"

definition LEASE_SECONDS :: int where
  "LEASE_SECONDS = 45"

definition new_leadership :: "string \<Rightarrow> string \<Rightarrow> int \<Rightarrow> leadership" where
  "new_leadership role token lease_seconds =
     \<lparr>ld_key = LEADER_PREFIX @ role, ld_token = token, ld_lease = lease_seconds, ld_elected = False\<rparr>"

definition requested_workers :: "int option \<Rightarrow> int" where
  "requested_workers web_concurrency = (case web_concurrency of None \<Rightarrow> 1 | Some n \<Rightarrow> max 1 n)"

definition resolve_workers :: "int option \<Rightarrow> bool \<Rightarrow> bool \<Rightarrow> bool \<Rightarrow> int" where
  "resolve_workers web_concurrency memory_sessions redis_is_configured local_mode =
     (let count = requested_workers web_concurrency
      in if 1 < count \<and> (memory_sessions \<or> \<not> redis_is_configured \<or> local_mode) then 1 else count)"

definition coordination_required :: "int \<Rightarrow> bool" where
  "coordination_required workers \<longleftrightarrow> 1 < workers"

type_synonym 's store_hold = "time \<Rightarrow> string \<Rightarrow> string \<Rightarrow> int \<Rightarrow> 's \<Rightarrow> (state_error + bool) \<times> 's"

text \<open>
  One call of \<open>_hold\<close>, over the \<open>hold\<close> of the store in use: \<open>raised\<close> says that the connection to the store failed.
  An error leaves the answer as it was.
\<close>

definition leader_hold :: "'s store_hold \<Rightarrow> int \<Rightarrow> bool \<Rightarrow> time \<Rightarrow> leadership \<Rightarrow> 's \<Rightarrow> bool \<times> 's" where
  "leader_hold hold workers raised now l st =
     (if \<not> coordination_required workers then (True, st)
      else if raised then (ld_elected l, st)
      else (case hold now (ld_key l) (ld_token l) (ld_lease l) st of
              (Inl _, st') \<Rightarrow> (ld_elected l, st')
            | (Inr ok, st') \<Rightarrow> (ok, st')))"

datatype leader_action = La_start_work | La_stop_work | La_nothing

text \<open>One round of \<open>_supervise\<close>: the call-back it makes, the new flag, and the store.\<close>

definition supervise_round ::
  "'s store_hold \<Rightarrow> int \<Rightarrow> bool \<Rightarrow> time \<Rightarrow> leadership \<Rightarrow> 's \<Rightarrow> leader_action \<times> leadership \<times> 's" where
  "supervise_round hold workers raised now l st =
     (case leader_hold hold workers raised now l st of
        (holding, st') \<Rightarrow>
          if holding \<and> \<not> ld_elected l then (La_start_work, l\<lparr>ld_elected := True\<rparr>, st')
          else if \<not> holding \<and> ld_elected l then (La_stop_work, l\<lparr>ld_elected := False\<rparr>, st')
          else (La_nothing, l, st'))"

definition leader_stop :: "(string list \<Rightarrow> 's \<Rightarrow> 's) \<Rightarrow> leadership \<Rightarrow> 's \<Rightarrow> leadership \<times> 's" where
  "leader_stop drop_keys l st =
     (if ld_elected l then (l\<lparr>ld_elected := False\<rparr>, drop_keys [ld_key l] st) else (l, st))"

section \<open>Sequences of calls\<close>

datatype store_op =
    Op_get string
  | Op_put string string int
  | Op_take string
  | Op_drop "string list"
  | Op_claim string int
  | Op_hold string string int

datatype store_answer = An_value "string option" | An_unit | An_flag bool | An_error state_error

definition unit_answer :: "(state_error + unit) \<times> 's \<Rightarrow> store_answer \<times> 's" where
  "unit_answer r = (case fst r of Inl e \<Rightarrow> An_error e | Inr _ \<Rightarrow> An_unit, snd r)"

definition flag_answer :: "(state_error + bool) \<times> 's \<Rightarrow> store_answer \<times> 's" where
  "flag_answer r = (case fst r of Inl e \<Rightarrow> An_error e | Inr b \<Rightarrow> An_flag b, snd r)"

fun local_call :: "time \<Rightarrow> store_op \<Rightarrow> entries \<Rightarrow> store_answer \<times> entries" where
  "local_call now (Op_get k) st = (An_value (fst (local_get now k st)), snd (local_get now k st))"
| "local_call now (Op_put k v ttl) st = unit_answer (local_put now k v ttl st)"
| "local_call now (Op_take k) st = (An_value (fst (local_take now k st)), snd (local_take now k st))"
| "local_call now (Op_drop ks) st = (An_unit, local_drop ks st)"
| "local_call now (Op_claim k ttl) st = flag_answer (local_claim now k ttl st)"
| "local_call now (Op_hold k token ttl) st = flag_answer (local_hold now k token ttl st)"

fun redis_call :: "'s redis_server \<Rightarrow> time \<Rightarrow> store_op \<Rightarrow> 's \<Rightarrow> store_answer \<times> 's" where
  "redis_call srv now (Op_get k) s = (An_value (fst (redis_get srv now k s)), snd (redis_get srv now k s))"
| "redis_call srv now (Op_put k v ttl) s = unit_answer (redis_put srv now k v ttl s)"
| "redis_call srv now (Op_take k) s = (An_value (fst (redis_take srv now k s)), snd (redis_take srv now k s))"
| "redis_call srv now (Op_drop ks) s = (An_unit, redis_drop srv now ks s)"
| "redis_call srv now (Op_claim k ttl) s = flag_answer (redis_claim srv now k ttl s)"
| "redis_call srv now (Op_hold k token ttl) s = flag_answer (redis_hold srv id id now k token ttl s)"

fun answers :: "(time \<Rightarrow> store_op \<Rightarrow> 's \<Rightarrow> store_answer \<times> 's) \<Rightarrow> (time \<times> store_op) list \<Rightarrow> 's \<Rightarrow> store_answer list" where
  "answers call [] s = []"
| "answers call ((now, op) # ops) s = (case call now op s of (a, s') \<Rightarrow> a # answers call ops s')"

text \<open>The live entries of the in-process store, and a keyspace that keeps expired entries until they are read.\<close>

definition local_live :: "time \<Rightarrow> entries \<Rightarrow> string \<Rightarrow> entry option" where
  "local_live now st k = (case dict_get k st of None \<Rightarrow> None | Some (e, v) \<Rightarrow> if e \<le> now then None else Some (e, v))"

definition written :: "string list \<Rightarrow> (string \<Rightarrow> nat) \<Rightarrow> string \<Rightarrow> nat" where
  "written ks n k = (if k \<in> set ks then Suc (n k) else n k)"

definition plain_server :: "(entries \<times> (string \<Rightarrow> nat)) redis_server" where
  "plain_server =
     \<lparr>rs_get = \<lambda>now k (s, n). map_option snd (local_live now s k),
      rs_set = \<lambda>now k v d (s, n). (dict_put k (now + d, v) s, written [k] n),
      rs_set_nx = \<lambda>now k v d (s, n).
        if local_live now s k = None then (True, dict_put k (now + d, v) s, written [k] n) else (False, s, n),
      rs_getdel = \<lambda>now k (s, n). (map_option snd (local_live now s k), dict_pop k s, written [k] n),
      rs_delete = \<lambda>now ks (s, n). (fold dict_pop ks s, written ks n),
      rs_watch = \<lambda>k (s, n). n k,
      rs_exec_expire = \<lambda>now k w d (s, n).
        (case local_live now s k of
           None \<Rightarrow> (False, s, n)
         | Some (_, v) \<Rightarrow> if n k = w then (True, dict_put k (now + d, v) s, written [k] n) else (False, s, n))\<rparr>"

definition plain_live :: "time \<Rightarrow> entries \<times> (string \<Rightarrow> nat) \<Rightarrow> string \<Rightarrow> entry option" where
  "plain_live now s = local_live now (fst s)"

section \<open>Specification\<close>

text \<open>The keyspace as a function of time: an entry is there until it expires.\<close>

type_synonym keyspace = "string \<Rightarrow> entry option"

definition expire :: "time \<Rightarrow> keyspace \<Rightarrow> keyspace" where
  "expire now m k = (case m k of None \<Rightarrow> None | Some (e, v) \<Rightarrow> if e \<le> now then None else Some (e, v))"

fun spec_call :: "time \<Rightarrow> store_op \<Rightarrow> keyspace \<Rightarrow> store_answer \<times> keyspace" where
  "spec_call now (Op_get k) m = (An_value (map_option snd (m k)), m)"
| "spec_call now (Op_put k v ttl) m =
     (if ttl \<le> 0 then (An_error Ttl_ValueError, m) else (An_unit, m(k \<mapsto> (now + seconds ttl, v))))"
| "spec_call now (Op_take k) m = (An_value (map_option snd (m k)), m(k := None))"
| "spec_call now (Op_drop ks) m = (An_unit, \<lambda>k. if k \<in> set ks then None else m k)"
| "spec_call now (Op_claim k ttl) m =
     (if ttl \<le> 0 then (An_error Ttl_ValueError, m)
      else if m k = None then (An_flag True, m(k \<mapsto> (now + seconds ttl, ''1''))) else (An_flag False, m))"
| "spec_call now (Op_hold k token ttl) m =
     (if ttl \<le> 0 then (An_error Ttl_ValueError, m)
      else if map_option snd (m k) \<in> {None, Some token}
      then (An_flag True, m(k \<mapsto> (now + seconds ttl, token))) else (An_flag False, m))"

fun spec_answers :: "(time \<times> store_op) list \<Rightarrow> keyspace \<Rightarrow> store_answer list" where
  "spec_answers [] m = []"
| "spec_answers ((now, op) # ops) m =
     (case spec_call now op (expire now m) of (a, m') \<Rightarrow> a # spec_answers ops m')"

lemma expire_expire: "t \<le> u \<Longrightarrow> expire u (expire t m) = expire u m"
  by (auto simp: expire_def fun_eq_iff split: option.splits)

text \<open>
  What both implementations promise: over the live entries of the store, a call answers and acts as the
  specification says, and an entry leaves the live ones only by expiring.
\<close>

locale ttl_store =
  fixes ok :: "'s \<Rightarrow> bool"
    and live :: "time \<Rightarrow> 's \<Rightarrow> keyspace"
    and call :: "time \<Rightarrow> store_op \<Rightarrow> 's \<Rightarrow> store_answer \<times> 's"
  assumes ok_call: "ok s \<Longrightarrow> ok (snd (call now op s))"
    and live_later: "ok s \<Longrightarrow> t \<le> u \<Longrightarrow> live u s = expire u (live t s)"
    and call_spec: "ok s \<Longrightarrow> (fst (call now op s), live now (snd (call now op s))) = spec_call now op (live now s)"
begin

lemma answers_spec:
  assumes "ok s" and "sorted (t # map fst ops)"
  shows "answers call ops s = spec_answers ops (live t s)"
  using assms
proof (induction ops arbitrary: s t)
  case (Cons p ops)
  obtain now op where p: "p = (now, op)" by (cases p)
  obtain a s' where c: "call now op s = (a, s')" by (cases "call now op s")
  have "live now s = expire now (live t s)" using Cons.prems p by (intro live_later) auto
  moreover have "ok s'" using ok_call [OF Cons.prems(1), of now op] c by simp
  ultimately show ?case
    using call_spec [OF Cons.prems(1), of now op, symmetric] Cons.IH [of s' now] Cons.prems(2) by (simp add: p c)
qed simp

definition held :: "string \<Rightarrow> 's \<Rightarrow> time \<Rightarrow> string option" where
  "held key s t = map_option snd (live t s key)"

definition lease :: "string \<Rightarrow> string lease_request \<Rightarrow> 's \<Rightarrow> bool \<times> 's" where
  "lease key q s = (case q of (now, d, token) \<Rightarrow>
     (fst (call now (Op_hold key token d) s) = An_flag True, snd (call now (Op_hold key token d) s)))"

lemma lease_spec:
  assumes "ok s" and "now \<le> t"
  shows "fst (lease key (now, d, w) s) = (0 < d \<and> held key s now \<in> {None, Some w})"
    and "held key (snd (lease key (now, d, w) s)) t =
      (if 0 < d \<and> held key s now \<in> {None, Some w} then if lease_until now d \<le> t then None else Some w else held key s t)"
proof -
  define s' where "s' = snd (call now (Op_hold key w d) s)"
  have ok': "ok s'" unfolding s'_def by (rule ok_call [OF assms(1)])
  have c: "(fst (call now (Op_hold key w d) s), live now s') = spec_call now (Op_hold key w d) (live now s)"
    unfolding s'_def by (rule call_spec [OF assms(1)])
  show "fst (lease key (now, d, w) s) = (0 < d \<and> held key s now \<in> {None, Some w})"
    using c by (auto simp: lease_def held_def split: if_splits)
  have "live t s' = expire t (live now s')" "live t s = expire t (live now s)"
    using live_later [OF ok' assms(2)] live_later [OF assms] by auto
  then show "held key (snd (lease key (now, d, w) s)) t =
      (if 0 < d \<and> held key s now \<in> {None, Some w} then if lease_until now d \<le> t then None else Some w else held key s t)"
    using c by (auto simp: lease_def held_def s'_def [symmetric] expire_def lease_until_def max_def split: if_splits option.splits)
qed

sublocale cell: lease_cell ok "held key" "lease key" for key
proof
  show "ok (snd (lease key q s))" if "ok s" for s q
    using that ok_call by (cases q) (simp add: lease_def)
  show "\<not> fst (lease key (now, d, w') s)" if "ok s" "held key s now = Some w" "w \<noteq> w'" for s now w w' d
    using that lease_spec(1) [of s now now] by auto
  show "held key (snd (lease key (now, d, w) s)) t = Some w"
    if "ok s" "fst (lease key (now, d, w) s)" "now \<le> t" "t < lease_until now d" for s now d w t
    using that lease_spec [of s now t] by auto
  show "held key (snd (lease key (now, d, w) s)) t = held key s t"
    if "ok s" "\<not> fst (lease key (now, d, w) s)" "now \<le> t" for s now d w t
    using that lease_spec [of s now t] by auto
qed

lemmas leases_never_overlap = cell.grants_never_overlap

end

section \<open>The in-process store\<close>

definition entries_ok :: "entries \<Rightarrow> bool" where
  "entries_ok st = distinct (map fst st)"

lemma local_live_expire: "t \<le> u \<Longrightarrow> local_live u st = expire u (local_live t st)"
  by (auto simp: local_live_def expire_def fun_eq_iff split: option.splits)

lemma dict_get_prune:
  assumes "entries_ok st"
  shows "dict_get k (local_prune now st) = (case dict_get k st of None \<Rightarrow> None | Some (e, v) \<Rightarrow> if e \<le> now then None else Some (e, v))"
  using assms unfolding entries_ok_def dict_get_def local_prune_def
proof (induction st)
  case (Cons p st)
  obtain k' e v where p: "p = (k', e, v)" by (cases p)
  have "map_of (filter (\<lambda>p. now < fst (snd p)) st) k' = None" if "now < e \<or> e \<le> now"
    using Cons.prems p by (auto simp: map_of_eq_None_iff)
  then show ?case using Cons p by (auto split: option.splits)
qed simp

lemma live_prune [simp]: "entries_ok st \<Longrightarrow> local_live now (local_prune now st) = local_live now st"
  by (auto simp: local_live_def dict_get_prune fun_eq_iff split: option.splits)

lemma entries_ok_simps [simp]:
  "entries_ok st \<Longrightarrow> entries_ok (local_prune now st)"
  "entries_ok st \<Longrightarrow> entries_ok (dict_put k v st)"
  "entries_ok st \<Longrightarrow> entries_ok (dict_pop k st)"
  by (auto simp: entries_ok_def local_prune_def dict_pop_def distinct_map_filter distinct_dict_put)

lemma entries_ok_drop: "entries_ok st \<Longrightarrow> entries_ok (fold dict_pop ks st)"
  by (induction ks arbitrary: st) simp_all

lemma live_put: "now < e \<Longrightarrow> local_live now (dict_put k (e, v) st) = (local_live now st)(k \<mapsto> (e, v))"
  by (auto simp: local_live_def fun_eq_iff)

lemma live_pop: "local_live now (dict_pop k st) = (local_live now st)(k := None)"
  by (auto simp: local_live_def fun_eq_iff)

lemma live_fold_pop: "local_live now (fold dict_pop ks st) = (\<lambda>k. if k \<in> set ks then None else local_live now st k)"
  by (induction ks arbitrary: st) (auto simp: live_pop fun_eq_iff)

lemma seconds_pos [simp]: "0 < seconds n \<longleftrightarrow> 0 < n"
  by (simp add: seconds_def)

lemma local_call_spec:
  assumes "entries_ok st"
  shows "(fst (local_call now op st), local_live now (snd (local_call now op st))) = spec_call now op (local_live now st)"
proof (cases op)
  case (Op_get k)
  then show ?thesis
    by (auto simp: local_get_def local_read_def local_live_def dict_get_pop fun_eq_iff split: option.split)
next
  case (Op_put k v ttl)
  then show ?thesis using assms
    by (simp add: local_put_def checked_seconds_def unit_answer_def Let_def live_put)
next
  case (Op_take k)
  then show ?thesis
    by (auto simp: local_take_def local_read_def local_live_def dict_get_pop fun_eq_iff split: option.split)
next
  case (Op_drop ks)
  then show ?thesis by (simp add: local_drop_def live_fold_pop)
next
  case (Op_claim k ttl)
  then show ?thesis using assms
    by (auto simp: local_claim_def checked_seconds_def flag_answer_def Let_def live_put dict_get_prune local_live_def [of now st k]
        split: option.split)
next
  case (Op_hold k token ttl)
  then show ?thesis using assms
    by (auto simp: local_hold_def checked_seconds_def flag_answer_def Let_def live_put dict_get_prune local_live_def [of now st k]
        split: option.split)
qed

lemma entries_ok_call: "entries_ok st \<Longrightarrow> entries_ok (snd (local_call now op st))"
  by (cases op) (auto simp: local_get_def local_read_def local_put_def local_take_def local_drop_def local_claim_def
      local_hold_def checked_seconds_def unit_answer_def flag_answer_def Let_def entries_ok_drop split: option.split)

interpretation local_store: ttl_store entries_ok local_live local_call
  by unfold_locales (simp_all add: entries_ok_call local_live_expire local_call_spec)

section \<open>The Redis adapter\<close>

text \<open>On a server that keeps its documentation the adapter keeps the same contract.\<close>

lemma redis_live_later: "redis_documented srv live \<Longrightarrow> t \<le> u \<Longrightarrow> live u s = expire u (live t s)"
proof
  assume doc: "redis_documented srv live" and "t \<le> u"
  then show "live u s k = expire u (live t s) k" for k
    using conjunct1 [OF doc [unfolded redis_documented_def], rule_format, of t u s k] by (simp add: expire_def)
qed

lemma redis_commands:
  assumes "redis_documented srv live"
  shows redis_get_live: "rs_get srv now k s = map_option snd (live now s k)"
    and redis_set_live: "0 < d \<Longrightarrow> live now (rs_set srv now k v d s) = (live now s)(k \<mapsto> (now + d, v))"
    and redis_getdel_live: "rs_getdel srv now k s = (r, s') \<Longrightarrow> r = map_option snd (live now s k) \<and> live now s' = (live now s)(k := None)"
    and redis_delete_live: "live now (rs_delete srv now ks s) = (\<lambda>k. if k \<in> set ks then None else live now s k)"
  using assms unfolding redis_documented_def by simp_all

lemma redis_set_nx_live:
  assumes "redis_documented srv live" and "0 < d" and "rs_set_nx srv now k v d s = (ok, s')"
  shows "ok = (live now s k = None)" "live now s' = (if ok then (live now s)(k \<mapsto> (now + d, v)) else live now s)"
    "counts_writes srv live now s s'" "\<not> ok \<Longrightarrow> rs_watch srv k' s' = rs_watch srv k' s"
proof -
  have "set_nx_documented srv live" using assms(1) by (simp add: redis_documented_def)
  note doc = this [unfolded set_nx_documented_def, rule_format, OF assms(2,3)]
  show "ok = (live now s k = None)" "live now s' = (if ok then (live now s)(k \<mapsto> (now + d, v)) else live now s)"
    "counts_writes srv live now s s'" using doc by (blast, blast, blast)
  show "rs_watch srv k' s' = rs_watch srv k' s" if "\<not> ok" using doc that by blast
qed

lemma redis_exec_live:
  assumes "redis_documented srv live" and "0 < d" and "rs_exec_expire srv now k w d s = (ok, s')"
  shows "ok = (live now s k \<noteq> None \<and> rs_watch srv k s = w)"
    "live now s' = (if ok then (live now s)(k \<mapsto> (now + d, snd (the (live now s k)))) else live now s)"
    "counts_writes srv live now s s'" "\<not> ok \<Longrightarrow> rs_watch srv k' s' = rs_watch srv k' s"
proof -
  have "exec_documented srv live" using assms(1) by (simp add: redis_documented_def)
  note doc = this [unfolded exec_documented_def, rule_format, OF assms(2,3)]
  show "ok = (live now s k \<noteq> None \<and> rs_watch srv k s = w)"
    "live now s' = (if ok then (live now s)(k \<mapsto> (now + d, snd (the (live now s k)))) else live now s)"
    "counts_writes srv live now s s'" using doc by (blast, blast, blast)
  show "rs_watch srv k' s' = rs_watch srv k' s" if "\<not> ok" using doc that by blast
qed

lemma redis_call_spec:
  assumes "redis_documented srv live"
  shows "(fst (redis_call srv now op s), live now (snd (redis_call srv now op s))) = spec_call now op (live now s)"
proof -
  note doc = redis_commands [OF assms]
  show ?thesis
  proof (cases op)
    case (Op_put k v ttl)
    then show ?thesis by (simp add: redis_put_def checked_seconds_def unit_answer_def doc(2))
  next
    case (Op_take k)
    obtain r s' where "rs_getdel srv now k s = (r, s')" by fastforce
    then show ?thesis using Op_take doc(3) [of now k s r s'] by (simp add: redis_take_def)
  next
    case (Op_claim k ttl)
    obtain b s' where r: "rs_set_nx srv now k ''1'' (seconds ttl) s = (b, s')" by fastforce
    then show ?thesis using Op_claim redis_set_nx_live [OF assms _ r]
      by (auto simp: redis_claim_def checked_seconds_def flag_answer_def)
  next
    case (Op_hold k token ttl)
    show ?thesis
    proof (cases "ttl \<le> 0")
      case False
      then have pos: "0 < seconds ttl" by simp
      obtain b s' where r: "rs_set_nx srv now k token (seconds ttl) s = (b, s')" by fastforce
      obtain c s'' where x: "rs_exec_expire srv now k (rs_watch srv k s') (seconds ttl) s' = (c, s'')" by fastforce
      show ?thesis
        using Op_hold False redis_set_nx_live(1,2) [OF assms pos r] redis_exec_live(1,2) [OF assms pos x]
        by (cases "live now s k")
           (auto simp: redis_hold_def hold_watch_def hold_exec_def checked_seconds_def flag_answer_def r x doc(1) Let_def)
    qed (simp add: Op_hold redis_hold_def checked_seconds_def flag_answer_def)
  next
    case (Op_drop ks)
    then show ?thesis by (auto simp: redis_drop_def doc(4))
  qed (simp add: redis_get_def doc(1))
qed

lemma redis_ttl_store: "redis_documented srv live \<Longrightarrow> ttl_store (\<lambda>_. True) live (redis_call srv)"
  by unfold_locales (simp_all add: redis_live_later redis_call_spec)

text \<open>
  C32. On every operation but \<open>bump\<close> the two stores are interchangeable: from states with the same live entries, every sequence of calls
  of \<open>get\<close>, \<open>put\<close>, \<open>take\<close>, \<open>drop\<close>, \<open>claim\<close> and \<open>hold\<close>, made one after the other at clocks that do not run backwards, gets the same
  answers from the in-process map and from the adapter to a Redis server that keeps its documentation, errors on
  non-positive lifetimes included. The other clients of the server make their calls in the sequence too: none is in the middle
  of another. \<open>bump\<close> is left out because the stores do differ there.
\<close>

theorem ephemeral_stores_agree:
  assumes "redis_documented srv live" and "entries_ok st" and "local_live t st = live t s"
    and "sorted (t # map fst ops)"
  shows "answers local_call ops st = answers (redis_call srv) ops s"
proof -
  have "answers local_call ops st = spec_answers ops (local_live t st)"
    using local_store.answers_spec [OF assms(2,4)] .
  also have "\<dots> = answers (redis_call srv) ops s"
    using ttl_store.answers_spec [OF redis_ttl_store [OF assms(1)] TrueI assms(4)] assms(3) by simp
  finally show ?thesis .
qed

lemma plain_server_documented: "redis_documented plain_server plain_live"
  unfolding redis_documented_def set_nx_documented_def exec_documented_def plain_server_def plain_live_def counts_writes_def
  by (auto simp: live_put live_pop live_fold_pop written_def split: option.splits if_splits)
     (auto simp: local_live_def split: option.splits if_splits)

theorem ephemeral_stores_agree_witness:
  "answers local_call [(1, Op_put ''k'' ''v'' 2), (5, Op_hold ''l'' ''a'' 45), (2000001, Op_get ''k''), (2000002, Op_hold ''l'' ''b'' 45)] []
     = answers (redis_call plain_server)
         [(1, Op_put ''k'' ''v'' 2), (5, Op_hold ''l'' ''a'' 45), (2000001, Op_get ''k''), (2000002, Op_hold ''l'' ''b'' 45)] ([], \<lambda>_. 0)"
  by (rule ephemeral_stores_agree [OF plain_server_documented, of "[]" 0]) (simp_all add: entries_ok_def plain_live_def)

text \<open>
  Where \<open>bump\<close> parts the stores: with a lifetime that is not positive both raise, but the in-process store is as it was, while on the
  server the counter has been incremented by then, and has no expiry.
\<close>

theorem bump_rejects_too_late:
  assumes "ttl \<le> 0" and "incrbyfloat now key amount s = (Inr new_total, s')"
  shows "redis_bump incrbyfloat expire_key now key amount ttl s = (Inl Ttl_ValueError, s') \<and>
    local_bump float_of repr_of fadd fzero now key amount ttl st = (Inl Ttl_ValueError, st)"
  using assms by (simp add: redis_bump_def local_bump_def checked_seconds_def)

section \<open>Leases under interleaving\<close>

text \<open>
  The processes that compete for a role, one command of the server at a time. A process that calls \<open>hold\<close> sends its \<open>SET NX\<close>
  (\<open>Lc_begin\<close>, also after an earlier call that broke off), and its later commands in turn (\<open>Lc_next\<close>); commands of
  other processes come in between. \<open>Lc_stop\<close> is the deletion of the key by a leader that stops. The answer of a command is that
  of the call to \<open>hold\<close> it completes.
\<close>

datatype hold_phase = Ph_idle | Ph_missed int | Ph_watching int nat

datatype leader_cmd = Lc_begin string int | Lc_next string | Lc_stop

datatype leader_answer = Granted string int | Refused string

type_synonym 's leader_sys = "'s \<times> (string \<Rightarrow> hold_phase)"

fun leader_step :: "'s redis_server \<Rightarrow> string \<Rightarrow> time \<Rightarrow> leader_cmd \<Rightarrow> 's leader_sys \<Rightarrow> leader_answer option \<times> 's leader_sys" where
  "leader_step srv key now (Lc_begin token ttl) (s, ph) =
     (case checked_seconds ttl of
        Inl _ \<Rightarrow> (None, s, ph(token := Ph_idle))
      | Inr ttl \<Rightarrow>
          (case rs_set_nx srv now key token (seconds ttl) s of
             (True, s1) \<Rightarrow> (Some (Granted token ttl), s1, ph(token := Ph_idle))
           | (False, s1) \<Rightarrow> (None, s1, ph(token := Ph_missed ttl))))"
| "leader_step srv key now (Lc_next token) (s, ph) =
     (case ph token of
        Ph_idle \<Rightarrow> (None, s, ph)
      | Ph_missed ttl \<Rightarrow>
          (case hold_watch srv now key token s of
             None \<Rightarrow> (Some (Refused token), s, ph(token := Ph_idle))
           | Some watched \<Rightarrow> (None, s, ph(token := Ph_watching ttl watched)))
      | Ph_watching ttl watched \<Rightarrow>
          (case hold_exec srv now key watched ttl s of
             (ok, s1) \<Rightarrow> (Some (if ok then Granted token ttl else Refused token), s1, ph(token := Ph_idle))))"
| "leader_step srv key now Lc_stop (s, ph) = (None, redis_drop srv now [key] s, ph)"

fun leader_run ::
  "'s redis_server \<Rightarrow> string \<Rightarrow> (time \<times> leader_cmd) list \<Rightarrow> 's leader_sys \<Rightarrow> leader_answer option list \<times> 's leader_sys" where
  "leader_run srv key [] sys = ([], sys)"
| "leader_run srv key ((now, c) # cs) sys =
     (case leader_step srv key now c sys of (a, sys1) \<Rightarrow> case leader_run srv key cs sys1 of (as, sys2) \<Rightarrow> (a # as, sys2))"

text \<open>Without other commands in between, the three commands are the call.\<close>

lemma hold_in_three_steps:
  assumes "0 < ttl" and "leader_run srv key [(now, Lc_begin token ttl), (now, Lc_next token), (now, Lc_next token)] (s, ph) = (as, s', ph')"
    and "ph token = Ph_idle"
  shows "redis_hold srv id id now key token ttl s = (Inr (Some (Granted token ttl) \<in> set as), s')"
proof -
  obtain b s1 where r: "rs_set_nx srv now key token (seconds ttl) s = (b, s1)" by fastforce
  obtain c s2 where x: "hold_exec srv now key (rs_watch srv key s1) ttl s1 = (c, s2)" by fastforce
  show ?thesis using assms r x
    by (cases b; cases c; cases "rs_get srv now key s1 = Some token")
       (auto simp: redis_hold_def checked_seconds_def hold_watch_def Let_def)
qed

text \<open>
  What holds of the processes at every moment: a watch that has not been overtaken by a write to the key is that of the process
  which the key names, or the key has expired since.
\<close>

fun phase_ok :: "nat \<Rightarrow> string option \<Rightarrow> string \<Rightarrow> hold_phase \<Rightarrow> bool" where
  "phase_ok n v b Ph_idle = True"
| "phase_ok n v b (Ph_missed ttl) = (0 < ttl)"
| "phase_ok n v b (Ph_watching ttl w) = (0 < ttl \<and> w \<le> n \<and> (w = n \<longrightarrow> v \<in> {None, Some b}))"

definition sys_ok :: "'s redis_server \<Rightarrow> (time \<Rightarrow> 's \<Rightarrow> keyspace) \<Rightarrow> string \<Rightarrow> time \<Rightarrow> 's leader_sys \<Rightarrow> bool" where
  "sys_ok srv live key now sys \<longleftrightarrow>
     (\<forall>b. phase_ok (rs_watch srv key (fst sys)) (map_option snd (live now (fst sys) key)) b (snd sys b))"

lemma sys_ok_idle: "sys_ok srv live key now (s, \<lambda>_. Ph_idle)"
  by (simp add: sys_ok_def)

lemma sys_ok_phase: "sys_ok srv live key now (s, ph) \<Longrightarrow> phase_ok (rs_watch srv key s) (map_option snd (live now s key)) b (ph b)"
  by (simp add: sys_ok_def)

lemma phase_ok_gone: "phase_ok n v b p \<Longrightarrow> phase_ok n None b p"
  by (cases p) auto

lemma phase_ok_written: "phase_ok n v b p \<Longrightarrow> n \<le> n' \<Longrightarrow> (v \<noteq> v' \<Longrightarrow> n < n') \<Longrightarrow> phase_ok n' v' b p"
  by (cases p) force+

lemma sys_ok_later:
  assumes "redis_documented srv live" and "sys_ok srv live key t sys" and "t \<le> u"
  shows "sys_ok srv live key u sys"
  using assms(2) redis_live_later [OF assms(1,3), of "fst sys"]
  by (auto simp: sys_ok_def expire_def intro: phase_ok_gone split: option.split)

lemma phase_ok_counted:
  assumes "sys_ok srv live key now (s, ph)" and "counts_writes srv live now s s'"
  shows "phase_ok (rs_watch srv key s') (map_option snd (live now s' key)) b (ph b)"
proof (rule phase_ok_written [OF sys_ok_phase [OF assms(1), of b]])
  show "rs_watch srv key s \<le> rs_watch srv key s'" using assms(2) by (simp add: counts_writes_def)
  assume "map_option snd (live now s key) \<noteq> map_option snd (live now s' key)"
  then have "live now s key \<noteq> live now s' key" by metis
  then show "rs_watch srv key s < rs_watch srv key s'" using assms(2) by (simp add: counts_writes_def)
qed

lemma sys_ok_write:
  assumes "sys_ok srv live key now (s, ph)" and "counts_writes srv live now s s'"
    and "phase_ok (rs_watch srv key s') (map_option snd (live now s' key)) token p"
  shows "sys_ok srv live key now (s', ph(token := p))"
  using phase_ok_counted [OF assms(1,2)] assms(3) by (simp add: sys_ok_def)

lemma counts_writes_refl: "counts_writes srv live now s s"
  by (simp add: counts_writes_def)

lemma sys_ok_step:
  assumes doc: "redis_documented srv live" and "sys_ok srv live key now sys" and "leader_step srv key now c sys = (a, sys')"
  shows "sys_ok srv live key now sys'"
proof -
  obtain s ph where sys: "sys = (s, ph)" by (cases sys)
  note ok = assms(2) [unfolded sys]
  show ?thesis
  proof (cases c)
    case (Lc_begin token ttl)
    show ?thesis
    proof (cases "ttl \<le> 0")
      case True
      then have "sys' = (s, ph(token := Ph_idle))" using assms(3) sys Lc_begin by (simp add: checked_seconds_def)
      then show ?thesis using sys_ok_write [OF ok counts_writes_refl] by simp
    next
      case False
      obtain b s1 where r: "rs_set_nx srv now key token (seconds ttl) s = (b, s1)" by fastforce
      have "counts_writes srv live now s s1" using redis_set_nx_live(3) [OF doc _ r] False by simp
      moreover have "sys' = (s1, ph(token := if b then Ph_idle else Ph_missed ttl))"
        using assms(3) sys Lc_begin False r by (cases b) (auto simp: checked_seconds_def)
      ultimately show ?thesis using sys_ok_write [OF ok] False by simp
    qed
  next
    case (Lc_next token)
    note old = sys_ok_phase [OF ok, of token]
    show ?thesis
    proof (cases "ph token")
      case Ph_idle
      then show ?thesis using assms(3) sys Lc_next ok by simp
    next
      case (Ph_missed ttl)
      have "sys' = (s, ph(token := if rs_get srv now key s = Some token then Ph_watching ttl (rs_watch srv key s) else Ph_idle))"
        using assms(3) sys Lc_next Ph_missed by (auto simp: hold_watch_def Let_def split: if_splits)
      then show ?thesis using sys_ok_write [OF ok counts_writes_refl] old Ph_missed by (simp add: redis_get_live [OF doc])
    next
      case (Ph_watching ttl w)
      obtain b s1 where r: "rs_exec_expire srv now key w (seconds ttl) s = (b, s1)" by fastforce
      have "counts_writes srv live now s s1" using redis_exec_live(3) [OF doc _ r] old Ph_watching by simp
      moreover have "sys' = (s1, ph(token := Ph_idle))" using assms(3) sys Lc_next Ph_watching r by (simp add: hold_exec_def)
      ultimately show ?thesis using sys_ok_write [OF ok] by simp
    qed
  next
    case Lc_stop
    have "counts_writes srv live now s (rs_delete srv now [key] s)" using doc unfolding redis_documented_def by blast
    then show ?thesis using phase_ok_counted [OF ok] assms(3) sys Lc_stop by (auto simp: redis_drop_def sys_ok_def)
  qed
qed

lemma sys_ok_run:
  assumes "redis_documented srv live" and "sys_ok srv live key t sys" and "sorted (t # map fst cs @ [u])"
    and "leader_run srv key cs sys = (as, sys')"
  shows "sys_ok srv live key u sys'"
  using assms(2-4)
proof (induction cs arbitrary: t sys as)
  case Nil
  then show ?case using sys_ok_later [OF assms(1)] by simp
next
  case (Cons p cs)
  obtain now c where p: "p = (now, c)" by (cases p)
  obtain a sys1 where st: "leader_step srv key now c sys = (a, sys1)" by (metis surj_pair)
  obtain as' where run: "leader_run srv key cs sys1 = (as', sys')" using Cons.prems(3) p st by (auto split: prod.splits)
  have "sys_ok srv live key now sys1"
    using sys_ok_step [OF assms(1) sys_ok_later [OF assms(1) Cons.prems(1)] st] Cons.prems(2) p by simp
  then show ?case by (rule Cons.IH [OF _ _ run]) (use Cons.prems(2) p in auto)
qed

text \<open>A process leads until a moment: the key names it and lives on until then, no watch of another process can go through, and its own can.\<close>

fun own_phase :: "int \<Rightarrow> nat \<Rightarrow> hold_phase \<Rightarrow> bool" where
  "own_phase d n Ph_idle = True"
| "own_phase d n (Ph_missed ttl) = (d \<le> ttl)"
| "own_phase d n (Ph_watching ttl w) = (d \<le> ttl \<and> w = n)"

definition leads :: "'s redis_server \<Rightarrow> (time \<Rightarrow> 's \<Rightarrow> keyspace) \<Rightarrow> string \<Rightarrow> string \<Rightarrow> int \<Rightarrow> time \<Rightarrow> time \<Rightarrow> 's leader_sys \<Rightarrow> bool" where
  "leads srv live key a d end_at now sys \<longleftrightarrow>
     sys_ok srv live key now sys \<and>
     (\<exists>e. live now (fst sys) key = Some (e, a) \<and> end_at \<le> e) \<and>
     own_phase d (rs_watch srv key (fst sys)) (snd sys a)"

lemma leads_after_grant:
  assumes doc: "redis_documented srv live" and ok: "sys_ok srv live key t sys"
    and st: "leader_step srv key t c sys = (Some (Granted a d), sys')"
  shows "leads srv live key a d (t + seconds d) t sys' \<and> 0 < d"
proof -
  obtain s ph where sys: "sys = (s, ph)" by (cases sys)
  have ok': "sys_ok srv live key t sys'" by (rule sys_ok_step [OF doc ok st])
  show ?thesis
  proof (cases c)
    case (Lc_begin token ttl)
    obtain b s1 where r: "rs_set_nx srv t key token (seconds ttl) s = (b, s1)" by fastforce
    have "0 < ttl" "b" "token = a" "ttl = d" "sys' = (s1, ph(a := Ph_idle))"
      using st sys Lc_begin r by (auto simp: checked_seconds_def split: if_splits bool.splits)
    then show ?thesis using redis_set_nx_live(2) [OF doc _ r] ok' by (simp add: leads_def)
  next
    case (Lc_next token)
    then obtain w where w: "ph token = Ph_watching d w" "token = a"
      using st sys by (auto split: hold_phase.splits option.splits prod.splits if_splits)
    have pos: "0 < d" "w = rs_watch srv key s \<longrightarrow> map_option snd (live t s key) \<in> {None, Some a}"
      using sys_ok_phase [OF ok [unfolded sys], of a] w by auto
    then have "0 < seconds d" by simp
    obtain b s1 where r: "rs_exec_expire srv t key w (seconds d) s = (b, s1)" by fastforce
    have "b" "sys' = (s1, ph(a := Ph_idle))" using st sys Lc_next w r by (auto simp: hold_exec_def split: if_splits)
    then show ?thesis using redis_exec_live(1,2) [OF doc \<open>0 < seconds d\<close> r] pos ok' by (auto simp: leads_def)
  qed (use st sys in simp)
qed

text \<open>Nobody stops, and the leader does not ask for a shorter lease than it has.\<close>

fun fair :: "string \<Rightarrow> int \<Rightarrow> leader_cmd \<Rightarrow> bool" where
  "fair a d (Lc_begin b ttl) = (b = a \<longrightarrow> d \<le> ttl)"
| "fair a d (Lc_next b) = True"
| "fair a d Lc_stop = False"

definition rightful :: "string \<Rightarrow> leader_answer option \<Rightarrow> bool" where
  "rightful a ans = (case ans of None \<Rightarrow> True | Some (Granted b ttl) \<Rightarrow> b = a | Some (Refused b) \<Rightarrow> b \<noteq> a)"

lemma leads_step:
  assumes doc: "redis_documented srv live" and lead: "leads srv live key a d (t + seconds d) now sys" and "0 < d" and "t \<le> now"
    and "fair a d c" and st: "leader_step srv key now c sys = (ans, sys')"
  shows "leads srv live key a d (t + seconds d) now sys' \<and> rightful a ans"
proof -
  obtain s ph where sys: "sys = (s, ph)" by (cases sys)
  have ok: "sys_ok srv live key now (s, ph)" using lead sys by (simp add: leads_def)
  have ok': "sys_ok srv live key now sys'" using sys_ok_step [OF doc _ st] ok sys by simp
  obtain e where e: "live now s key = Some (e, a)" "t + seconds d \<le> e" using lead sys by (auto simp: leads_def)
  show ?thesis
  proof (cases c)
    case (Lc_begin token ttl)
    obtain b s1 where r: "rs_set_nx srv now key token (seconds ttl) s = (b, s1)" by fastforce
    show ?thesis
    proof (cases "ttl \<le> 0")
      case True
      then show ?thesis using st sys Lc_begin lead ok' by (auto simp: checked_seconds_def leads_def rightful_def)
    next
      case False
      then have "\<not> b" "live now s1 = live now s" "rs_watch srv key s1 = rs_watch srv key s"
        using redis_set_nx_live [OF doc _ r] e(1) by auto
      then show ?thesis using st sys Lc_begin False r lead ok' assms(5)
        by (auto simp: checked_seconds_def leads_def rightful_def)
    qed
  next
    case (Lc_next token)
    show ?thesis
    proof (cases "ph token")
      case Ph_idle
      then show ?thesis using st sys Lc_next lead by (simp add: rightful_def)
    next
      case (Ph_missed ttl)
      then show ?thesis using st sys Lc_next lead ok' e(1)
        by (cases "token = a") (auto simp: hold_watch_def redis_get_live [OF doc] leads_def rightful_def)
    next
      case (Ph_watching ttl w)
      note old = sys_ok_phase [OF ok, of token]
      then have "0 < seconds ttl" using Ph_watching by simp
      obtain b s1 where r: "rs_exec_expire srv now key w (seconds ttl) s = (b, s1)" by fastforce
      note x = redis_exec_live [OF doc \<open>0 < seconds ttl\<close> r]
      have b: "b = (token = a)"
        using x(1) e(1) old lead sys Ph_watching by (auto simp: leads_def)
      show ?thesis
      proof (cases b)
        case True
        have "d \<le> ttl" using lead sys b True Ph_watching by (auto simp: leads_def)
        then have "t + seconds d \<le> now + seconds ttl" using assms(4) by (simp add: seconds_def)
        then show ?thesis using st sys Lc_next Ph_watching r x(2) True b e(1) ok'
          by (auto simp: hold_exec_def leads_def rightful_def)
      next
        case False
        then show ?thesis using st sys Lc_next Ph_watching r x(2,4) b e lead ok'
          by (auto simp: hold_exec_def leads_def rightful_def)
      qed
    qed
  qed (use assms(5) in simp)
qed

lemma leads_later:
  assumes "redis_documented srv live" and "leads srv live key a d end_at now sys" and "now \<le> u" and "u < end_at"
  shows "leads srv live key a d end_at u sys"
proof -
  have "sys_ok srv live key u sys" using sys_ok_later [OF assms(1) _ assms(3)] assms(2) by (auto simp: leads_def)
  moreover have "live u (fst sys) = expire u (live now (fst sys))" by (rule redis_live_later [OF assms(1,3)])
  ultimately show ?thesis using assms(2,4) by (auto simp: leads_def expire_def)
qed

lemma leads_run:
  assumes "redis_documented srv live" and "0 < d" and "t \<le> now" and "leads srv live key a d (t + seconds d) now sys"
    and "sorted (now # map fst cs)" and "list_all (\<lambda>(u, c). u < t + seconds d \<and> fair a d c) cs"
  shows "list_all (rightful a) (fst (leader_run srv key cs sys))"
  using assms(3-6)
proof (induction cs arbitrary: now sys)
  case (Cons p cs)
  obtain u c where p: "p = (u, c)" by (cases p)
  obtain ans sys1 where st: "leader_step srv key u c sys = (ans, sys1)" by (metis surj_pair)
  have u: "now \<le> u" "u < t + seconds d" "fair a d c" using Cons.prems(3,4) p by auto
  have "leads srv live key a d (t + seconds d) u sys" by (rule leads_later [OF assms(1) Cons.prems(2) u(1,2)])
  from leads_step [OF assms(1) this assms(2) _ u(3) st]
  have "leads srv live key a d (t + seconds d) u sys1" "rightful a ans" using u(1) Cons.prems(1) by auto
  then show ?case using Cons.IH [of u sys1] Cons.prems u p st by (auto split: prod.split)
qed simp

text \<open>
  C33. One leader at a time, whatever commands the competing processes interleave. Processes call \<open>hold\<close> for a role on a
  documented Redis server, and the commands of their calls, and the deletions of the key by leaders that stop, come in
  any order, at clocks that do not run backwards. Once a call is granted the role at \<open>t\<close> for \<open>d\<close> seconds, then until \<open>t + d\<close>
  every call that completes gets the answer it should: that of another process is refused, also when that process watched
  the key before the grant, and that of the leader itself is granted. Two conditions are on the commands after the grant: the
  leader does not ask for a shorter lease, and no process stops, since a process that stops deletes the key whoever holds it.
\<close>

theorem leader_lease_is_exclusive:
  assumes "redis_documented srv live" and "sorted (map fst past @ [t] @ map fst later)"
    and "leader_run srv (LEADER_PREFIX @ role) past (s, \<lambda>_. Ph_idle) = (as, sys)"
    and "leader_step srv (LEADER_PREFIX @ role) t c sys = (Some (Granted a d), sys')"
    and "list_all (\<lambda>(u, c). u < t + seconds d \<and> fair a d c) later"
  shows "list_all (rightful a) (fst (leader_run srv (LEADER_PREFIX @ role) later sys'))"
proof -
  let ?first = "hd (map fst past @ [t])"
  have "sorted (?first # map fst past @ [t])" using assms(2) by (cases past) (auto simp: sorted_append)
  then have "sys_ok srv live (LEADER_PREFIX @ role) t sys" by (rule sys_ok_run [OF assms(1) sys_ok_idle _ assms(3)])
  from leads_after_grant [OF assms(1) this assms(4)] show ?thesis
    using leads_run [OF assms(1) _ order_refl _ _ assms(5)] assms(2) by (auto simp: sorted_append)
qed

text \<open>
  Process \<open>b\<close> led, watches its key to extend the lease, and stalls until the lease has run out and \<open>a\<close> is elected: its \<open>EXEC\<close> is refused.
\<close>

definition stalled_past :: "(time \<times> leader_cmd) list" where
  "stalled_past = [(0, Lc_begin ''b'' 45), (30000000, Lc_begin ''b'' 45), (30000001, Lc_next ''b'')]"

definition stalled_later :: "(time \<times> leader_cmd) list" where
  "stalled_later = [(45000002, Lc_next ''b''), (60000000, Lc_begin ''a'' 45), (60000001, Lc_begin ''c'' 45), (60000002, Lc_next ''a''),
     (60000003, Lc_next ''c''), (60000004, Lc_next ''a'')]"

theorem leader_lease_is_exclusive_witness:
  "let sys = snd (leader_run plain_server (LEADER_PREFIX @ ''jobs'') stalled_past (([], \<lambda>_. 0), \<lambda>_. Ph_idle));
       (ans, sys') = leader_step plain_server (LEADER_PREFIX @ ''jobs'') 45000001 (Lc_begin ''a'' 45) sys;
       later = fst (leader_run plain_server (LEADER_PREFIX @ ''jobs'') stalled_later sys')
   in ans = Some (Granted ''a'' 45) \<and> list_all (rightful ''a'') later \<and>
      later = [Some (Refused ''b''), None, None, None, Some (Refused ''c''), Some (Granted ''a'' 45)]"
proof -
  let ?key = "LEADER_PREFIX @ ''jobs''"
  obtain as sys where past: "leader_run plain_server ?key stalled_past (([], \<lambda>_. 0), \<lambda>_. Ph_idle) = (as, sys)" by (metis surj_pair)
  obtain ans sys' where st: "leader_step plain_server ?key 45000001 (Lc_begin ''a'' 45) sys = (ans, sys')" by (metis surj_pair)
  have "fst (leader_step plain_server ?key 45000001 (Lc_begin ''a'' 45)
      (snd (leader_run plain_server ?key stalled_past (([], \<lambda>_. 0), \<lambda>_. Ph_idle)))) = Some (Granted ''a'' 45)" by code_simp
  then have ans: "ans = Some (Granted ''a'' 45)" using past st by simp
  have "fst (leader_run plain_server ?key stalled_later (snd (leader_step plain_server ?key 45000001 (Lc_begin ''a'' 45)
      (snd (leader_run plain_server ?key stalled_past (([], \<lambda>_. 0), \<lambda>_. Ph_idle)))))) =
      [Some (Refused ''b''), None, None, None, Some (Refused ''c''), Some (Granted ''a'' 45)]" by code_simp
  then have later: "fst (leader_run plain_server ?key stalled_later sys') =
      [Some (Refused ''b''), None, None, None, Some (Refused ''c''), Some (Granted ''a'' 45)]" using past st by simp
  have "sorted (map fst stalled_past @ [45000001] @ map fst stalled_later)"
    "list_all (\<lambda>(u, c). u < 45000001 + seconds 45 \<and> fair ''a'' 45 c) stalled_later" by code_simp+
  from leader_lease_is_exclusive [OF plain_server_documented this(1) past st [unfolded ans] this(2)] show ?thesis
    using past st ans later by (simp add: Let_def)
qed

section \<open>Leaders that stop\<close>

lemma redis_hold_documented:
  assumes "redis_documented srv live" and "0 < d" and "live now s k = None"
  shows "\<exists>s'. redis_hold srv id id now k token d s = (Inr True, s') \<and> live now s' = (live now s)(k \<mapsto> (now + seconds d, token))"
  using redis_call_spec [OF assms(1), of now "Op_hold k token d" s] assms(2,3)
  by (cases "redis_hold srv id id now k token d s") (auto simp: flag_answer_def split: sum.splits)

text \<open>
  Three processes \<open>a\<close>, \<open>b\<close>, \<open>c\<close>: \<open>a\<close> is elected at \<open>t0\<close> and then cannot reach the store, \<open>b\<close> asks at \<open>t1\<close>, \<open>a\<close>
  shuts down at \<open>t2\<close> and \<open>c\<close> asks at \<open>t3\<close>. The result is what the supervisors of the three do.
\<close>

definition leader_rounds ::
  "'s redis_server \<Rightarrow> string \<Rightarrow> time \<Rightarrow> time \<Rightarrow> time \<Rightarrow> time \<Rightarrow> 's \<Rightarrow> leader_action list" where
  "leader_rounds srv role t0 t1 t2 t3 s0 =
     (case supervise_round (redis_hold srv id id) 3 False t0 (new_leadership role ''a'' LEASE_SECONDS) s0 of (x1, a1, s1) \<Rightarrow>
      case supervise_round (redis_hold srv id id) 3 True t1 a1 s1 of (x2, a2, s2) \<Rightarrow>
      case supervise_round (redis_hold srv id id) 3 False t1 (new_leadership role ''b'' LEASE_SECONDS) s2 of (x3, b1, s3) \<Rightarrow>
      case leader_stop (redis_drop srv t2) a2 s3 of (a3, s4) \<Rightarrow>
      case supervise_round (redis_hold srv id id) 3 False t3 (new_leadership role ''c'' LEASE_SECONDS) s4 of (x4, c1, s5) \<Rightarrow>
        [x1, x2, x3, x4])"

text \<open>
  A leader that stops gives away a lease that it may no longer hold: when the first of three processes could not reach
  the store for the length of its lease, the second is elected, the first then stops and drops the key without
  looking whose token it holds, and the third is elected at any later time, although the lease of the second,
  and its elected work, may run on.
\<close>

theorem leader_stop_frees_foreign_lease:
  assumes "redis_documented srv live" and "live t0 s (LEADER_PREFIX @ role) = None"
    and "t0 + seconds LEASE_SECONDS \<le> t1" and "t1 \<le> t2" and "t2 \<le> t3"
  shows "leader_rounds srv role t0 t1 t2 t3 s = [La_start_work, La_nothing, La_start_work, La_start_work]"
proof -
  let ?k = "LEADER_PREFIX @ role"
  have later: "live u st ?k = expire u (live t st) ?k" if "t \<le> u" for t u st
    using redis_live_later [OF assms(1) that] by simp
  have pos: "0 < LEASE_SECONDS" by (simp add: LEASE_SECONDS_def)
  obtain s1 where s1: "redis_hold srv id id t0 ?k ''a'' LEASE_SECONDS s = (Inr True, s1)"
    "live t0 s1 = (live t0 s)(?k \<mapsto> (t0 + seconds LEASE_SECONDS, ''a''))"
    using redis_hold_documented [OF assms(1) pos assms(2), of "''a''"] by blast
  have "t0 \<le> t1" using assms(3) pos by (simp add: seconds_def LEASE_SECONDS_def)
  then have "live t1 s1 ?k = None" using later [of t0 t1 s1] s1(2) assms(3) by (simp add: expire_def)
  then obtain s3 where s3: "redis_hold srv id id t1 ?k ''b'' LEASE_SECONDS s1 = (Inr True, s3)"
    using redis_hold_documented [OF assms(1) pos, of t1 s1 ?k "''b''"] by blast
  have "live t2 (redis_drop srv t2 [?k] s3) ?k = None"
    using redis_call_spec [OF assms(1), of t2 "Op_drop [?k]" s3] by simp
  then have "live t3 (redis_drop srv t2 [?k] s3) ?k = None"
    using later [of t2 t3 "redis_drop srv t2 [?k] s3"] assms(5) by (simp add: expire_def)
  then obtain s5 where s5: "redis_hold srv id id t3 ?k ''c'' LEASE_SECONDS (redis_drop srv t2 [?k] s3) = (Inr True, s5)"
    using redis_hold_documented [OF assms(1) pos, of t3 _ ?k "''c''"] by blast
  show ?thesis
    by (simp add: leader_rounds_def supervise_round_def leader_hold_def coordination_required_def new_leadership_def
        leader_stop_def s1(1) s3 s5)
qed

theorem leader_stop_frees_foreign_lease_witness:
  "leader_rounds plain_server ''jobs'' 0 45000000 45000001 45000002 ([], \<lambda>_. 0)
     = [La_start_work, La_nothing, La_start_work, La_start_work]"
  by (rule leader_stop_frees_foreign_lease [OF plain_server_documented])
    (simp_all add: plain_live_def local_live_def dict_get_def seconds_def LEASE_SECONDS_def)

end
