(* ===== verification/Memory_Outbox.thy ===== *)
theory Memory_Outbox
  imports Chat_Db
begin

text \<open>
  \<open>core/memory/outbox.py\<close> and \<open>core/memory/effect_lane.py\<close>: the durable state machine of the memory work that
  follows a response. A pipeline job is expanded into candidate jobs, workers lease jobs, run them and
  acknowledge them, and a settlement job is admitted in the transaction that acknowledges the last of them.

  A session is a function on the tables. Where a handler reads a row without a lock and writes it later, the argument
  \<open>between\<close> is what other sessions commit in the meantime. Arguments stand for what is not under
  the control of this code: the clock (one reading per transaction), the identifiers a \<open>uuid4\<close> gives, the
  digest \<open>hash\<close> of a JSON value, \<open>str_of\<close>, Python's \<open>str\<close> on a JSON value that is not a string, and the result of
  the work itself (language models, vector and graph stores).

  \<open>Outbox_Steps\<close> has the sessions as steps and what every step keeps, \<open>Outbox_Laws\<close> the properties.
\<close>

section \<open>Contexts\<close>

record mem_context =
  mc_user_id :: string
  mc_workspace_id :: string
  mc_chat_id :: json
  mc_allowed_levels :: "json list"
  mc_confidentiality :: json
  mc_actor :: json
  mc_write_enabled :: bool
  mc_scope_user_id :: json
  mc_message_id :: json
  mc_effect_id :: json

definition effective_scope_user_id :: "mem_context \<Rightarrow> json" where
  "effective_scope_user_id ctx = json_or (mc_scope_user_id ctx) (JStr (mc_user_id ctx))"

definition context_payload :: "mem_context \<Rightarrow> dict" where
  "context_payload ctx =
     [(''user_id'', JStr (mc_user_id ctx)),
      (''workspace_id'', JStr (mc_workspace_id ctx)),
      (''chat_id'', mc_chat_id ctx),
      (''allowed_levels'', JList (mc_allowed_levels ctx)),
      (''confidentiality'', mc_confidentiality ctx),
      (''actor'', mc_actor ctx),
      (''write_enabled'', JBool (mc_write_enabled ctx)),
      (''scope_user_id'', mc_scope_user_id ctx),
      (''message_id'', mc_message_id ctx),
      (''effect_id'', mc_effect_id ctx)]"

definition default_levels :: "json list" where
  "default_levels = [JStr ''public'', JStr ''internal'', JStr ''sensitive'']"

definition context_from_payload :: "(json \<Rightarrow> string) \<Rightarrow> dict \<Rightarrow> mem_context option" where
  "context_from_payload str_of p =
     (case json_tuple (json_or (json_get ''allowed_levels'' p) (JList default_levels)) of
        None \<Rightarrow> None
      | Some levels \<Rightarrow>
          Some \<lparr>mc_user_id = json_str str_of (json_or (json_get ''user_id'' p) (JStr [])),
                mc_workspace_id = json_str str_of (json_or (json_get ''workspace_id'' p) (JStr ''default'')),
                mc_chat_id = json_get ''chat_id'' p,
                mc_allowed_levels = levels,
                mc_confidentiality = json_get ''confidentiality'' p,
                mc_actor = json_get ''actor'' p,
                mc_write_enabled = json_truthy (json_get ''write_enabled'' p),
                mc_scope_user_id = json_get ''scope_user_id'' p,
                mc_message_id = json_get ''message_id'' p,
                mc_effect_id = json_get ''effect_id'' p\<rparr>)"

definition effective_message_id :: "(json \<Rightarrow> string) \<Rightarrow> mem_context \<Rightarrow> string \<Rightarrow> string" where
  "effective_message_id str_of ctx candidate_hash =
     (if json_truthy (mc_message_id ctx) then json_str str_of (mc_message_id ctx)
      else let scope = json_or (json_or (mc_chat_id ctx) (JStr (mc_user_id ctx))) (JStr ''anonymous'')
           in ''legacy:'' @ json_str str_of scope @ '':'' @ take 24 candidate_hash)"

definition scope_key_of :: "(json \<Rightarrow> string) \<Rightarrow> mem_context \<Rightarrow> string" where
  "scope_key_of hash ctx =
     hash (JObj [(''scope_user_id'', effective_scope_user_id ctx),
                 (''workspace_id'', json_or (JStr (mc_workspace_id ctx)) (JStr ''default''))])"

section \<open>The table\<close>

datatype outbox_status = Ob_pending | Ob_processing | Ob_succeeded | Ob_retry | Ob_quarantined

definition ob_terminal :: "outbox_status \<Rightarrow> bool" where
  "ob_terminal s \<longleftrightarrow> s = Ob_succeeded \<or> s = Ob_quarantined"

record memory_outbox =
  ob_id :: string
  ob_parent_id :: "string option"
  ob_message_id :: string
  ob_scope_key :: "string option"
  ob_job_kind :: string
  ob_layer :: string
  ob_candidate_hash :: string
  ob_payload :: dict
  ob_status :: outbox_status
  ob_attempts :: int
  ob_lease_owner :: "string option"
  ob_lease_expires_at :: "time option"
  ob_next_attempt_at :: "time option"
  ob_last_error :: "string option"
  ob_result :: json
  ob_created_at :: time
  ob_updated_at :: time
  ob_completed_at :: "time option"

record outbox_db = chat_db +
  outbox :: "memory_outbox list"

record outbox_settings =
  os_lease_s :: int
  os_max_attempts :: int
  os_retry_base_s :: int

datatype outbox_error =
    Ob_IntegrityError
  | Ob_StaleDataError
  | Ob_RuntimeError
  | Ob_RetryableMemoryError
  | Ob_ValueError
  | Ob_TypeError

definition find_job :: "string \<Rightarrow> outbox_db \<Rightarrow> memory_outbox option" where
  "find_job jid db = find_by ob_id jid (outbox db)"

definition ob_key :: "memory_outbox \<Rightarrow> string \<times> string \<times> string" where
  "ob_key r = (ob_message_id r, ob_layer r, ob_candidate_hash r)"

definition key_row :: "string \<Rightarrow> string \<Rightarrow> string \<Rightarrow> outbox_db \<Rightarrow> memory_outbox option" where
  "key_row mid layer h db = find_by ob_key (mid, layer, h) (outbox db)"

text \<open>The primary key and \<open>uq_memory_outbox_candidate\<close>; None is an \<open>IntegrityError\<close>.\<close>

definition insert_job :: "memory_outbox \<Rightarrow> outbox_db \<Rightarrow> outbox_db option" where
  "insert_job r db =
     (if find_job (ob_id r) db = None \<and> ob_key r \<notin> ob_key ` set (outbox db)
      then Some (db\<lparr>outbox := outbox db @ [r]\<rparr>) else None)"

definition update_jobs ::
  "(memory_outbox \<Rightarrow> bool) \<Rightarrow> (memory_outbox \<Rightarrow> memory_outbox) \<Rightarrow> outbox_db \<Rightarrow> outbox_db" where
  "update_jobs P f db = db\<lparr>outbox := update_where P f (outbox db)\<rparr>"

definition new_job ::
  "string \<Rightarrow> string option \<Rightarrow> string \<Rightarrow> string option \<Rightarrow> string \<Rightarrow> string \<Rightarrow> string \<Rightarrow> dict \<Rightarrow> time \<Rightarrow> memory_outbox" where
  "new_job row_id parent mid scope kind layer h payload now =
     \<lparr>ob_id = row_id, ob_parent_id = parent, ob_message_id = mid, ob_scope_key = scope, ob_job_kind = kind,
      ob_layer = layer, ob_candidate_hash = h, ob_payload = payload, ob_status = Ob_pending, ob_attempts = 0,
      ob_lease_owner = None, ob_lease_expires_at = None, ob_next_attempt_at = Some now, ob_last_error = None,
      ob_result = JNull, ob_created_at = now, ob_updated_at = now, ob_completed_at = None\<rparr>"

section \<open>Admission\<close>

definition enqueue_job ::
  "string \<Rightarrow> time \<Rightarrow> string \<Rightarrow> string \<Rightarrow> string \<Rightarrow> string \<Rightarrow> dict \<Rightarrow> string option \<Rightarrow> string option \<Rightarrow> outbox_db \<Rightarrow>
   (outbox_error + string) \<times> outbox_db" where
  "enqueue_job row_id now mid kind layer h payload parent scope db =
     (case insert_job (new_job row_id parent mid scope kind layer h payload now) db of
        Some db' \<Rightarrow> (Inr row_id, db')
      | None \<Rightarrow>
          (case key_row mid layer h db of
             None \<Rightarrow> (Inl Ob_IntegrityError, db)
           | Some r \<Rightarrow> (Inr (ob_id r), db)))"

definition enqueue_pipeline_job ::
  "(json \<Rightarrow> string) \<Rightarrow> (json \<Rightarrow> string) \<Rightarrow> string \<Rightarrow> time \<Rightarrow> mem_context \<Rightarrow> string \<Rightarrow> string \<Rightarrow> outbox_db \<Rightarrow>
   (outbox_error + string) \<times> outbox_db" where
  "enqueue_pipeline_job hash str_of row_id now ctx user_message assistant_message db =
     (let payload = [(''ctx'', JObj (context_payload ctx)), (''user_message'', JStr user_message),
                     (''assistant_message'', JStr assistant_message)];
          h = hash (JObj payload)
      in enqueue_job row_id now (effective_message_id str_of ctx h) ''pipeline'' ''pipeline'' h payload None
           (Some (scope_key_of hash ctx)) db)"

datatype extractor_type = Ex_identity | Ex_preference | Ex_task | Ex_procedural | Ex_graph

fun extractor_value :: "extractor_type \<Rightarrow> string" where
  "extractor_value Ex_identity = ''identity''"
| "extractor_value Ex_preference = ''preference''"
| "extractor_value Ex_task = ''task''"
| "extractor_value Ex_procedural = ''procedural''"
| "extractor_value Ex_graph = ''graph''"

definition all_extractors :: "extractor_type list" where
  "all_extractors = [Ex_identity, Ex_preference, Ex_task, Ex_procedural, Ex_graph]"

text \<open>\<open>ExtractorType(value)\<close>; None is a \<open>ValueError\<close>.\<close>

definition extractor_of :: "string \<Rightarrow> extractor_type option" where
  "extractor_of v = find (\<lambda>e. extractor_value e = v) all_extractors"

fun layer_by_extractor :: "extractor_type \<Rightarrow> string" where
  "layer_by_extractor Ex_identity = ''L1:identity''"
| "layer_by_extractor Ex_preference = ''L1:preference''"
| "layer_by_extractor Ex_procedural = ''L2:procedural''"
| "layer_by_extractor Ex_graph = ''L3:graph''"
| "layer_by_extractor Ex_task = ''session:task''"

definition candidate_payload :: "mem_context \<Rightarrow> extractor_type \<Rightarrow> dict \<Rightarrow> dict" where
  "candidate_payload ctx extractor data =
     [(''ctx'', JObj (context_payload ctx)), (''extractor'', JStr (extractor_value extractor)), (''data'', JObj data)]"

definition candidate_hash_of :: "(json \<Rightarrow> string) \<Rightarrow> extractor_type \<Rightarrow> dict \<Rightarrow> string" where
  "candidate_hash_of hash extractor data =
     hash (JObj [(''extractor'', JStr (extractor_value extractor)), (''data'', JObj data)])"

definition enqueue_candidate_job ::
  "(json \<Rightarrow> string) \<Rightarrow> (json \<Rightarrow> string) \<Rightarrow> string \<Rightarrow> time \<Rightarrow> string \<Rightarrow> mem_context \<Rightarrow> extractor_type \<Rightarrow> dict \<Rightarrow> outbox_db \<Rightarrow>
   (outbox_error + string) \<times> outbox_db" where
  "enqueue_candidate_job hash str_of row_id now parent ctx extractor data db =
     (let h = candidate_hash_of hash extractor data
      in enqueue_job row_id now (effective_message_id str_of ctx h) ''candidate'' (layer_by_extractor extractor) h
           (candidate_payload ctx extractor data) (Some parent) (Some (scope_key_of hash ctx)) db)"

text \<open>\<open>revision\<close> is that of the profile snapshot.\<close>

definition enqueue_profile_compaction ::
  "(json \<Rightarrow> string) \<Rightarrow> (json \<Rightarrow> string) \<Rightarrow> string \<Rightarrow> time \<Rightarrow> int \<Rightarrow> mem_context \<Rightarrow> outbox_db \<Rightarrow> (outbox_error + string) \<times> outbox_db" where
  "enqueue_profile_compaction hash str_of row_id now revision ctx db =
     (let payload = [(''ctx'', JObj (context_payload ctx)), (''requested_revision'', JInt revision)];
          h = hash (JObj [(''user_id'', JStr (mc_user_id ctx)), (''workspace_id'', JStr (mc_workspace_id ctx)),
                          (''revision'', JInt revision)])
      in enqueue_job row_id now (effective_message_id str_of ctx h) ''profile_compact'' ''L1:compact'' h payload None
           (Some (scope_key_of hash ctx)) db)"

definition enqueue_profile_edit_job ::
  "(json \<Rightarrow> string) \<Rightarrow> (json \<Rightarrow> string) \<Rightarrow> string \<Rightarrow> time \<Rightarrow> string \<Rightarrow> mem_context \<Rightarrow> string \<Rightarrow> string \<Rightarrow> string option \<Rightarrow> outbox_db \<Rightarrow>
   (outbox_error + string) \<times> outbox_db" where
  "enqueue_profile_edit_job hash str_of row_id now fresh ctx key txt operation_id db =
     (let operation = str_or operation_id (''edit_'' @ fresh);
          payload = [(''ctx'', JObj (context_payload ctx)), (''key'', JStr key), (''text'', JStr txt),
                     (''operation_id'', JStr operation)];
          h = hash (JObj [(''operation_id'', JStr operation), (''key'', JStr key), (''text'', JStr txt)])
      in enqueue_job row_id now (effective_message_id str_of ctx h) ''profile_edit'' ''L1:profile_edit'' h payload None
           (Some (scope_key_of hash ctx)) db)"

definition enqueue_memory_edit_job ::
  "(json \<Rightarrow> string) \<Rightarrow> (json \<Rightarrow> string) \<Rightarrow> string \<Rightarrow> time \<Rightarrow> string \<Rightarrow> mem_context \<Rightarrow> string \<Rightarrow> string \<Rightarrow> string option \<Rightarrow> outbox_db \<Rightarrow>
   (outbox_error + string) \<times> outbox_db" where
  "enqueue_memory_edit_job hash str_of row_id now fresh ctx memory_id txt operation_id db =
     (let operation = str_or operation_id (''edit_'' @ fresh);
          payload = [(''ctx'', JObj (context_payload ctx)), (''memory_id'', JStr memory_id), (''text'', JStr txt),
                     (''operation_id'', JStr operation)];
          h = hash (JObj [(''operation_id'', JStr operation), (''memory_id'', JStr memory_id), (''text'', JStr txt)])
      in enqueue_job row_id now (effective_message_id str_of ctx h) ''memory_edit'' ''L2:memory_edit'' h payload None
           (Some (scope_key_of hash ctx)) db)"

definition settlement_hash :: "(json \<Rightarrow> string) \<Rightarrow> string \<Rightarrow> string" where
  "settlement_hash hash mid = hash (JObj [(''message_id'', JStr mid), (''kind'', JStr ''settlement'')])"

section \<open>Leases\<close>

definition expire_job :: "time \<Rightarrow> memory_outbox \<Rightarrow> memory_outbox" where
  "expire_job now r =
     r\<lparr>ob_status := Ob_retry, ob_lease_owner := None, ob_lease_expires_at := None, ob_next_attempt_at := Some now,
       ob_last_error := Some ''worker lease expired'', ob_updated_at := now\<rparr>"

definition ob_due :: "time \<Rightarrow> memory_outbox \<Rightarrow> bool" where
  "ob_due now r \<longleftrightarrow>
     ob_status r = Ob_pending
     \<or> ob_status r = Ob_retry \<and> (ob_next_attempt_at r = None \<or> sql_le (ob_next_attempt_at r) now)"

definition claim_job :: "time \<Rightarrow> time \<Rightarrow> string \<Rightarrow> int \<Rightarrow> memory_outbox \<Rightarrow> memory_outbox" where
  "claim_job now until worker attempts r =
     r\<lparr>ob_status := Ob_processing, ob_attempts := attempts, ob_lease_owner := Some worker,
       ob_lease_expires_at := Some until, ob_updated_at := now\<rparr>"

definition ob_order :: "memory_outbox \<Rightarrow> time \<times> string" where
  "ob_order r = (ob_created_at r, ob_id r)"

definition claim_next_job :: "outbox_settings \<Rightarrow> time \<Rightarrow> string \<Rightarrow> outbox_db \<Rightarrow> string option \<times> outbox_db" where
  "claim_next_job cfg now worker db =
     (let until = lease_until now (os_lease_s cfg);
          db1 = update_jobs (\<lambda>r. ob_status r = Ob_processing \<and> sql_le (ob_lease_expires_at r) now) (expire_job now) db
      in case first_by ob_order (filter (ob_due now) (outbox db1)) of
           None \<Rightarrow> (None, db1)
         | Some row \<Rightarrow>
             let P = (\<lambda>r. ob_id r = ob_id row \<and> ob_status r = ob_status row);
                 db2 = update_jobs P (claim_job now until worker (ob_attempts row + 1)) db1
             in (if 0 < affected P (outbox db1) then Some (ob_id row) else None, db2))"

definition claim_specific :: "outbox_settings \<Rightarrow> time \<Rightarrow> string \<Rightarrow> string \<Rightarrow> outbox_db \<Rightarrow> bool \<times> outbox_db" where
  "claim_specific cfg now jid worker db =
     (let P = (\<lambda>r. ob_id r = jid \<and> ob_due now r)
      in (0 < affected P (outbox db),
          update_jobs P (\<lambda>r. claim_job now (lease_until now (os_lease_s cfg)) worker (ob_attempts r + 1) r) db))"

definition get_outbox_job :: "string \<Rightarrow> outbox_db \<Rightarrow> (string \<times> outbox_status \<times> json \<times> string option) option" where
  "get_outbox_job jid db = map_option (\<lambda>r. (ob_id r, ob_status r, ob_result r, ob_last_error r)) (find_job jid db)"

definition ob_owned :: "string \<Rightarrow> string \<Rightarrow> memory_outbox \<Rightarrow> bool" where
  "ob_owned jid worker r \<longleftrightarrow> ob_id r = jid \<and> ob_status r = Ob_processing \<and> ob_lease_owner r = Some worker"

definition renew_job_lease :: "outbox_settings \<Rightarrow> time \<Rightarrow> string \<Rightarrow> string \<Rightarrow> outbox_db \<Rightarrow> bool \<times> outbox_db" where
  "renew_job_lease cfg now jid worker db =
     (0 < affected (ob_owned jid worker) (outbox db),
      update_jobs (ob_owned jid worker)
        (\<lambda>r. r\<lparr>ob_lease_expires_at := Some (lease_until now (os_lease_s cfg)), ob_updated_at := now\<rparr>) db)"

definition release_worker_leases :: "time \<Rightarrow> string \<Rightarrow> outbox_db \<Rightarrow> nat \<times> outbox_db" where
  "release_worker_leases now worker db =
     (let P = (\<lambda>r. ob_status r = Ob_processing \<and> ob_lease_owner r = Some worker)
      in (affected P (outbox db),
          update_jobs P
            (\<lambda>r. r\<lparr>ob_status := Ob_retry, ob_lease_owner := None, ob_lease_expires_at := None, ob_next_attempt_at := Some now,
                   ob_last_error := Some ''worker stopped before acknowledgement'', ob_updated_at := now\<rparr>) db))"

definition owns_job_lease :: "string \<Rightarrow> string \<Rightarrow> outbox_db \<Rightarrow> bool" where
  "owns_job_lease jid worker db \<longleftrightarrow> 0 < affected (ob_owned jid worker) (outbox db)"

text \<open>
  A flush of a loaded row writes the columns whose value was changed, to the row with its primary key: a column that
  was assigned the value it was loaded with keeps what the row holds by then. \<open>updated_at\<close> is written in any case.
\<close>

definition orm_set :: "'a \<Rightarrow> 'a \<Rightarrow> 'a \<Rightarrow> 'a" where
  "orm_set loaded assigned stored = (if assigned = loaded then stored else assigned)"

definition flush_job :: "memory_outbox \<Rightarrow> memory_outbox \<Rightarrow> memory_outbox \<Rightarrow> memory_outbox" where
  "flush_job loaded assigned r =
     r\<lparr>ob_status := orm_set (ob_status loaded) (ob_status assigned) (ob_status r),
       ob_attempts := orm_set (ob_attempts loaded) (ob_attempts assigned) (ob_attempts r),
       ob_lease_owner := orm_set (ob_lease_owner loaded) (ob_lease_owner assigned) (ob_lease_owner r),
       ob_lease_expires_at := orm_set (ob_lease_expires_at loaded) (ob_lease_expires_at assigned) (ob_lease_expires_at r),
       ob_next_attempt_at := orm_set (ob_next_attempt_at loaded) (ob_next_attempt_at assigned) (ob_next_attempt_at r),
       ob_last_error := orm_set (ob_last_error loaded) (ob_last_error assigned) (ob_last_error r),
       ob_result := orm_set (ob_result loaded) (ob_result assigned) (ob_result r),
       ob_updated_at := ob_updated_at assigned,
       ob_completed_at := orm_set (ob_completed_at loaded) (ob_completed_at assigned) (ob_completed_at r)\<rparr>"

definition flush_row :: "memory_outbox \<Rightarrow> memory_outbox \<Rightarrow> outbox_db \<Rightarrow> outbox_error + outbox_db" where
  "flush_row loaded assigned db =
     (if find_job (ob_id loaded) db = None then Inl Ob_StaleDataError
      else Inr (update_jobs (\<lambda>r. ob_id r = ob_id loaded) (flush_job loaded assigned) db))"

definition defer_claim ::
  "time \<Rightarrow> string \<Rightarrow> string \<Rightarrow> time \<Rightarrow> (outbox_db \<Rightarrow> outbox_db) \<Rightarrow> outbox_db \<Rightarrow> (outbox_error + unit) \<times> outbox_db" where
  "defer_claim now jid worker retry_at between db =
     (let retry = max retry_at (now + milliseconds 100)
      in case find (ob_owned jid worker) (outbox db) of
           None \<Rightarrow> (Inr (), db)
         | Some row \<Rightarrow>
             let assigned = row\<lparr>ob_status := Ob_retry,
                   ob_attempts := max 0 ((if ob_attempts row = 0 then 1 else ob_attempts row) - 1),
                   ob_lease_owner := None, ob_lease_expires_at := None, ob_next_attempt_at := Some retry,
                   ob_last_error := Some ''waiting for an older L2 effect in this scope'', ob_updated_at := now\<rparr>
             in case flush_row row assigned (between db) of
                  Inl e \<Rightarrow> (Inl e, between db)
                | Inr db' \<Rightarrow> (Inr (), db'))"

section \<open>Acknowledgement and settlement\<close>

definition lock_pipeline_row :: "string \<Rightarrow> outbox_db \<Rightarrow> memory_outbox option" where
  "lock_pipeline_row mid db =
     first_by ob_order (filter (\<lambda>r. ob_message_id r = mid \<and> ob_job_kind r = ''pipeline'') (outbox db))"

definition effect_rows :: "string \<Rightarrow> outbox_db \<Rightarrow> memory_outbox list" where
  "effect_rows mid db = filter (\<lambda>r. ob_message_id r = mid \<and> ob_job_kind r \<noteq> ''settlement'') (outbox db)"

definition settlement_job :: "(json \<Rightarrow> string) \<Rightarrow> string \<Rightarrow> time \<Rightarrow> memory_outbox" where
  "settlement_job hash mid now =
     new_job (''mout_settle_'' @ take 24 (settlement_hash hash mid)) None mid None ''settlement'' ''settlement''
       (settlement_hash hash mid) [(''message_id'', JStr mid)] now"

text \<open>The row is added to the session; an \<open>IntegrityError\<close> of its insertion is raised by the commit that follows.\<close>

definition enqueue_settlement_if_ready ::
  "(json \<Rightarrow> string) \<Rightarrow> string \<Rightarrow> time \<Rightarrow> outbox_db \<Rightarrow> outbox_error + (string option \<times> outbox_db)" where
  "enqueue_settlement_if_ready hash mid now db =
     (if lock_pipeline_row mid db = None then Inr (None, db)
      else if effect_rows mid db = [] \<or> list_ex (\<lambda>r. \<not> ob_terminal (ob_status r)) (effect_rows mid db) then Inr (None, db)
      else case key_row mid ''settlement'' (settlement_hash hash mid) db of
             Some r \<Rightarrow> Inr (Some (ob_id r), db)
           | None \<Rightarrow>
               (case insert_job (settlement_job hash mid now) db of
                  None \<Rightarrow> Inl Ob_IntegrityError
                | Some db' \<Rightarrow> Inr (Some (ob_id (settlement_job hash mid now)), db')))"

definition METADATA_KEY :: string where
  "METADATA_KEY = ''evolution''"

definition settle_message :: "string \<Rightarrow> json \<Rightarrow> outbox_db \<Rightarrow> outbox_error + outbox_db" where
  "settle_message mid result db =
     (let summary = (case result of JObj d \<Rightarrow> json_get ''summary'' d | _ \<Rightarrow> JNull)
      in case find_message mid db of
           None \<Rightarrow> Inl Ob_RuntimeError
         | Some m \<Rightarrow>
             (case summary of
                JObj _ \<Rightarrow>
                  Inr (db\<lparr>messages := update_where (\<lambda>x. msg_id x = mid)
                            (\<lambda>x. x\<lparr>msg_extra_data := dict_put METADATA_KEY summary (msg_extra_data m)\<rparr>) (messages db)\<rparr>)
              | _ \<Rightarrow> Inl Ob_RuntimeError))"

definition succeeded_job :: "time \<Rightarrow> json \<Rightarrow> memory_outbox \<Rightarrow> memory_outbox" where
  "succeeded_job now result r =
     r\<lparr>ob_status := Ob_succeeded, ob_result := result, ob_lease_owner := None, ob_lease_expires_at := None,
       ob_last_error := None, ob_completed_at := Some now, ob_updated_at := now\<rparr>"

definition finish_success ::
  "(json \<Rightarrow> string) \<Rightarrow> time \<Rightarrow> string \<Rightarrow> string \<Rightarrow> json \<Rightarrow> (outbox_db \<Rightarrow> outbox_db) \<Rightarrow> outbox_db \<Rightarrow>
   (outbox_error + string option) \<times> outbox_db" where
  "finish_success hash now jid worker result between db =
     (case find_job jid db of
        None \<Rightarrow> (Inr None, db)
      | Some row \<Rightarrow>
          if ob_status row \<noteq> Ob_processing \<or> ob_lease_owner row \<noteq> Some worker then (Inr None, db)
          else
            let mid = ob_message_id row; db0 = between db;
                db1 = update_jobs (ob_owned jid worker) (succeeded_job now result) db0
            in if affected (ob_owned jid worker) (outbox db0) = 0 then (Inr None, db0)
               else (case (if ob_job_kind row = ''settlement'' then settle_message mid result db1 else Inr db1) of
                       Inl e \<Rightarrow> (Inl e, db0)
                     | Inr db2 \<Rightarrow>
                         (case enqueue_settlement_if_ready hash mid now db2 of
                            Inl e \<Rightarrow> (Inl e, db0)
                          | Inr (_, db3) \<Rightarrow> (Inr (Some mid), db3))))"

definition retry_delay :: "outbox_settings \<Rightarrow> int \<Rightarrow> time" where
  "retry_delay cfg attempts =
     seconds (os_retry_base_s cfg * 2 ^ nat (max 0 ((if attempts = 0 then 1 else attempts) - 1)))"

definition failed_job :: "outbox_settings \<Rightarrow> time \<Rightarrow> string \<Rightarrow> memory_outbox \<Rightarrow> memory_outbox" where
  "failed_job cfg now err row =
     (let quarantined = os_max_attempts cfg \<le> ob_attempts row
      in row\<lparr>ob_status := if quarantined then Ob_quarantined else Ob_retry,
             ob_next_attempt_at := if quarantined then None else Some (now + retry_delay cfg (ob_attempts row)),
             ob_lease_owner := None, ob_lease_expires_at := None, ob_last_error := Some (char_limit 2000 err),
             ob_updated_at := now, ob_completed_at := if quarantined then Some now else None\<rparr>)"

definition finish_failure ::
  "(json \<Rightarrow> string) \<Rightarrow> outbox_settings \<Rightarrow> time \<Rightarrow> string \<Rightarrow> string \<Rightarrow> string \<Rightarrow> (outbox_db \<Rightarrow> outbox_db) \<Rightarrow> outbox_db \<Rightarrow>
   (outbox_error + string option) \<times> outbox_db" where
  "finish_failure hash cfg now jid worker err between db =
     (case find_job jid db of
        None \<Rightarrow> (Inr None, db)
      | Some row \<Rightarrow>
          if ob_status row \<noteq> Ob_processing \<or> ob_lease_owner row \<noteq> Some worker then (Inr None, db)
          else
            let mid = ob_message_id row; assigned = failed_job cfg now err row
            in case flush_row row assigned (between db) of
                 Inl e \<Rightarrow> (Inl e, between db)
               | Inr db1 \<Rightarrow>
                   if ob_status assigned \<noteq> Ob_quarantined then (Inr (Some mid), db1)
                   else (case enqueue_settlement_if_ready hash mid now db1 of
                           Inl e \<Rightarrow> (Inl e, between db)
                         | Inr (_, db2) \<Rightarrow> (Inr (Some mid), db2)))"

definition maybe_enqueue_settlement ::
  "(json \<Rightarrow> string) \<Rightarrow> string \<Rightarrow> time \<Rightarrow> outbox_db \<Rightarrow> (outbox_error + unit) \<times> outbox_db" where
  "maybe_enqueue_settlement hash mid now db =
     (case enqueue_settlement_if_ready hash mid now db of
        Inl e \<Rightarrow> (Inl e, db)
      | Inr (_, db') \<Rightarrow> (Inr (), db'))"

fun reconcile_messages ::
  "(json \<Rightarrow> string) \<Rightarrow> (nat \<Rightarrow> time) \<Rightarrow> string list \<Rightarrow> nat \<Rightarrow> outbox_db \<Rightarrow> (outbox_error + nat) \<times> outbox_db" where
  "reconcile_messages hash clock [] created db = (Inr created, db)"
| "reconcile_messages hash clock (mid # mids) created db =
     (let existed = list_ex (\<lambda>r. ob_message_id r = mid \<and> ob_job_kind r = ''settlement'') (outbox db)
      in case enqueue_settlement_if_ready hash mid (clock (length mids)) db of
           Inl e \<Rightarrow> (Inl e, db)
         | Inr (row_id, db') \<Rightarrow>
             reconcile_messages hash clock mids (created + (if row_id \<noteq> None \<and> \<not> existed then 1 else 0)) db')"

definition reconcile_settlement_jobs ::
  "(json \<Rightarrow> string) \<Rightarrow> (nat \<Rightarrow> time) \<Rightarrow> outbox_db \<Rightarrow> (outbox_error + nat) \<times> outbox_db" where
  "reconcile_settlement_jobs hash clock db =
     reconcile_messages hash clock
       (remdups (map ob_message_id (filter (\<lambda>r. ob_job_kind r = ''pipeline'') (outbox db)))) 0 db"

section \<open>Expansion of a pipeline job\<close>

text \<open>
  The loop over the candidates: the children to add and the ids of all of them. A lookup sees committed rows only, since
  the session does not flush on its own. \<open>ids\<close> gives the fresh identifiers.
\<close>

fun checkpoint_children ::
  "(json \<Rightarrow> string) \<Rightarrow> (json \<Rightarrow> string) \<Rightarrow> (nat \<Rightarrow> string) \<Rightarrow> time \<Rightarrow> memory_outbox \<Rightarrow> mem_context \<Rightarrow> outbox_db \<Rightarrow> json list \<Rightarrow>
   outbox_error + (memory_outbox list \<times> string list)" where
  "checkpoint_children hash str_of ids now pipeline ctx db [] = Inr ([], [])"
| "checkpoint_children hash str_of ids now pipeline ctx db (JObj candidate # rest) =
     (case dict_get ''extractor'' candidate of
        None \<Rightarrow> Inl Ob_ValueError
      | Some name \<Rightarrow>
          (case extractor_of (json_str str_of name) of
             None \<Rightarrow> Inl Ob_ValueError
           | Some extractor \<Rightarrow>
               (case json_get ''data'' candidate of
                  JObj (d # ds) \<Rightarrow>
                    (let h = candidate_hash_of hash extractor (d # ds);
                         layer = layer_by_extractor extractor;
                         child_id = ''mout_'' @ ids (length rest)
                     in case checkpoint_children hash str_of ids now pipeline ctx db rest of
                          Inl e \<Rightarrow> Inl e
                        | Inr (rows, child_ids) \<Rightarrow>
                            (case key_row (ob_message_id pipeline) layer h db of
                               Some r \<Rightarrow> Inr (rows, ob_id r # child_ids)
                             | None \<Rightarrow>
                                 Inr (new_job child_id (Some (ob_id pipeline)) (ob_message_id pipeline) (ob_scope_key pipeline)
                                        ''candidate'' layer h (candidate_payload ctx extractor (d # ds)) now # rows,
                                      child_id # child_ids)))
                | _ \<Rightarrow> checkpoint_children hash str_of ids now pipeline ctx db rest)))"
| "checkpoint_children hash str_of ids now pipeline ctx db (_ # rest) = Inl Ob_TypeError"

fun insert_jobs :: "memory_outbox list \<Rightarrow> outbox_db \<Rightarrow> outbox_db option" where
  "insert_jobs [] db = Some db"
| "insert_jobs (r # rs) db = (case insert_job r db of None \<Rightarrow> None | Some db' \<Rightarrow> insert_jobs rs db')"

definition durable_candidates :: "json \<Rightarrow> json list option" where
  "durable_candidates result =
     (case result of
        JObj d \<Rightarrow> (case json_get ''extracted_candidates'' d of JList l \<Rightarrow> Some l | _ \<Rightarrow> None)
      | _ \<Rightarrow> None)"

definition checkpoint_pipeline_candidates ::
  "(json \<Rightarrow> string) \<Rightarrow> (json \<Rightarrow> string) \<Rightarrow> (nat \<Rightarrow> string) \<Rightarrow> time \<Rightarrow> memory_outbox \<Rightarrow> mem_context \<Rightarrow> json list \<Rightarrow> outbox_db \<Rightarrow>
   (outbox_error + string list) \<times> outbox_db" where
  "checkpoint_pipeline_candidates hash str_of ids now row ctx candidates db =
     (case find (\<lambda>r. ob_id r = ob_id row \<and> ob_status r = Ob_processing \<and> ob_lease_owner r = ob_lease_owner row
                     \<and> ob_job_kind r = ''pipeline'') (outbox db) of
        None \<Rightarrow> (Inl Ob_RetryableMemoryError, db)
      | Some pipeline \<Rightarrow>
          let chosen = (case durable_candidates (ob_result pipeline) of Some l \<Rightarrow> l | None \<Rightarrow> candidates)
          in case checkpoint_children hash str_of ids now pipeline ctx db chosen of
               Inl e \<Rightarrow> (Inl e, db)
             | Inr (rows, child_ids) \<Rightarrow>
                 (case insert_jobs rows db of
                    None \<Rightarrow> (Inl Ob_IntegrityError, db)
                  | Some db' \<Rightarrow>
                      (Inr child_ids,
                       update_jobs (\<lambda>r. ob_id r = ob_id pipeline)
                         (\<lambda>r. r\<lparr>ob_result := JObj [(''extracted_candidates'', JList chosen),
                                                  (''candidate_job_ids'', JList (map JStr child_ids))],
                                ob_updated_at := now\<rparr>) db')))"

section \<open>Work on a claimed job\<close>

text \<open>What the work of a job comes to: a result, an exception, a deferral, a cancellation after or without the loss of the lease.\<close>

datatype work_outcome =
    Work_result json
  | Work_raised string
  | Work_deferred time
  | Work_lease_lost
  | Work_cancelled

text \<open>
  \<open>pe_others n\<close> is what other sessions commit while the handler waits: for the semaphore, for its lane, for the work itself, between the
  reads and the writes of its acknowledgement. \<open>pe_extract\<close> is the outcome of the extraction, \<open>pe_effect\<close> that of the
  work of the other kinds (writers, profile, edits), \<open>pe_summary\<close> the card that \<open>settle_turn\<close> computes, and \<open>pe_error_text\<close>
  the text of an exception.
\<close>

record process_env =
  pe_now :: time
  pe_others :: "nat \<Rightarrow> outbox_db \<Rightarrow> outbox_db"
  pe_ids :: "nat \<Rightarrow> string"
  pe_extract :: "dict \<Rightarrow> work_outcome + (extractor_type \<times> json) list"
  pe_effect :: "memory_outbox \<Rightarrow> work_outcome"
  pe_summary :: "string \<Rightarrow> json list \<Rightarrow> bool \<Rightarrow> json"
  pe_error_text :: "outbox_error \<Rightarrow> string"

definition extracted_candidates :: "(extractor_type \<times> json) list \<Rightarrow> json list" where
  "extracted_candidates results =
     concat (map (\<lambda>(e, data). case data of
                     JObj (d # ds) \<Rightarrow> [JObj [(''extractor'', JStr (extractor_value e)), (''data'', data)]]
                   | _ \<Rightarrow> []) results)"

definition row_context :: "(json \<Rightarrow> string) \<Rightarrow> memory_outbox \<Rightarrow> mem_context option" where
  "row_context str_of row =
     (case json_get ''ctx'' (ob_payload row) of
        JObj d \<Rightarrow> context_from_payload str_of d
      | v \<Rightarrow> if json_truthy v then None else context_from_payload str_of [])"

definition process_pipeline ::
  "(json \<Rightarrow> string) \<Rightarrow> (json \<Rightarrow> string) \<Rightarrow> process_env \<Rightarrow> memory_outbox \<Rightarrow> outbox_db \<Rightarrow> work_outcome \<times> outbox_db" where
  "process_pipeline hash str_of env row db =
     (case row_context str_of row of
        None \<Rightarrow> (Work_raised (pe_error_text env Ob_TypeError), db)
      | Some ctx \<Rightarrow>
          (case (case durable_candidates (ob_result row) of
                   Some l \<Rightarrow> Inr l
                 | None \<Rightarrow> (case pe_extract env (ob_payload row) of
                             Inl w \<Rightarrow> Inl w
                           | Inr results \<Rightarrow> Inr (extracted_candidates results))) of
             Inl w \<Rightarrow> (w, pe_others env 1 db)
           | Inr candidates \<Rightarrow>
               (case checkpoint_pipeline_candidates hash str_of (pe_ids env) (pe_now env) row ctx candidates
                       (pe_others env 1 db) of
                  (Inl e, db') \<Rightarrow> (Work_raised (pe_error_text env e), db')
                | (Inr child_ids, db') \<Rightarrow>
                    (Work_result (JObj [(''candidate_job_ids'', JList (map JStr child_ids))]), db'))))"

definition settlement_facts :: "string \<Rightarrow> outbox_db \<Rightarrow> json list \<times> bool" where
  "settlement_facts mid db =
     (let rows = filter (\<lambda>r. ob_message_id r = mid) (outbox db)
      in (concat (map (\<lambda>r. if ob_job_kind r = ''candidate''
                           then (case ob_result r of JList l \<Rightarrow> filter (\<lambda>v. case v of JObj _ \<Rightarrow> True | _ \<Rightarrow> False) l | _ \<Rightarrow> [])
                           else []) rows),
          list_ex (\<lambda>r. ob_job_kind r \<noteq> ''settlement'' \<and> ob_status r = Ob_quarantined) rows))"

definition process_settlement :: "process_env \<Rightarrow> memory_outbox \<Rightarrow> outbox_db \<Rightarrow> work_outcome \<times> outbox_db" where
  "process_settlement env row db =
     (case settlement_facts (ob_message_id row) db of
        (items, failed) \<Rightarrow>
          (Work_result (JObj [(''items'', JList items), (''failed'', JBool failed),
                              (''summary'', pe_summary env (ob_message_id row) items failed)]), pe_others env 1 db))"

section \<open>The lane of ordered effects\<close>

definition oldest_nonterminal :: "string \<Rightarrow> outbox_db \<Rightarrow> memory_outbox option" where
  "oldest_nonterminal scope db =
     first_by ob_order
       (filter (\<lambda>r. ob_scope_key r = Some scope \<and> ob_layer r = ''L2:procedural'' \<and> \<not> ob_terminal (ob_status r)) (outbox db))"

text \<open>The check under the lane's lock: None lets the effect run, a time defers it.\<close>

definition lane_decision :: "time \<Rightarrow> string \<Rightarrow> string \<Rightarrow> outbox_db \<Rightarrow> time option" where
  "lane_decision now scope jid db =
     (let oldest = oldest_nonterminal scope db
      in if (case oldest of None \<Rightarrow> True | Some r \<Rightarrow> ob_id r \<noteq> jid)
         then Some (case (case oldest of
                            None \<Rightarrow> None
                          | Some r \<Rightarrow> (case ob_next_attempt_at r of Some t \<Rightarrow> Some t | None \<Rightarrow> ob_lease_expires_at r)) of
                      Some t \<Rightarrow> t
                    | None \<Rightarrow> now + seconds 1)
         else None)"

definition process_candidate_job :: "process_env \<Rightarrow> memory_outbox \<Rightarrow> outbox_db \<Rightarrow> work_outcome \<times> outbox_db" where
  "process_candidate_job env row db =
     (case (if ob_layer row = ''L2:procedural'' then str_or (ob_scope_key row) [] else []) of
        [] \<Rightarrow> (pe_effect env row, pe_others env 1 db)
      | scope \<Rightarrow>
          let db' = pe_others env 4 db
          in case lane_decision (pe_now env) scope (ob_id row) db' of
               Some retry_at \<Rightarrow> (Work_deferred retry_at, db')
             | None \<Rightarrow> (pe_effect env row, pe_others env 1 db'))"

definition process_job ::
  "(json \<Rightarrow> string) \<Rightarrow> (json \<Rightarrow> string) \<Rightarrow> process_env \<Rightarrow> memory_outbox \<Rightarrow> outbox_db \<Rightarrow> work_outcome \<times> outbox_db" where
  "process_job hash str_of env row db =
     (if ob_job_kind row = ''pipeline'' then process_pipeline hash str_of env row db
      else if ob_job_kind row = ''candidate'' then process_candidate_job env row db
      else if ob_job_kind row \<in> {''profile_compact'', ''profile_edit'', ''memory_edit''}
      then (pe_effect env row, pe_others env 1 db)
      else if ob_job_kind row = ''settlement'' then process_settlement env row db
      else (Work_raised (''unknown memory outbox job kind: '' @ ob_job_kind row), db))"

datatype claimed_exit = Exit_normal | Exit_raised outbox_error | Exit_cancelled

definition exit_of :: "(outbox_error + 'a) \<times> outbox_db \<Rightarrow> claimed_exit \<times> outbox_db" where
  "exit_of r = (case fst r of Inl e \<Rightarrow> Exit_raised e | Inr _ \<Rightarrow> Exit_normal, snd r)"

definition process_claimed ::
  "(json \<Rightarrow> string) \<Rightarrow> (json \<Rightarrow> string) \<Rightarrow> outbox_settings \<Rightarrow> process_env \<Rightarrow> string \<Rightarrow> string \<Rightarrow> outbox_db \<Rightarrow>
   claimed_exit \<times> outbox_db" where
  "process_claimed hash str_of cfg env jid worker db =
     (case find_job jid db of
        None \<Rightarrow> (Exit_normal, db)
      | Some row \<Rightarrow>
          if ob_status row \<noteq> Ob_processing \<or> ob_lease_owner row \<noteq> Some worker then (Exit_normal, db)
          else
            let db0 = pe_others env 0 db
            in if \<not> owns_job_lease jid worker db0 then (Exit_normal, db0)
               else (case process_job hash str_of env row db0 of
                       (Work_result result, db1) \<Rightarrow>
                         (case finish_success hash (pe_now env) jid worker result (pe_others env 2) db1 of
                            (Inl e, db2) \<Rightarrow>
                              exit_of (finish_failure hash cfg (pe_now env) jid worker (pe_error_text env e) (pe_others env 3) db2)
                          | (Inr _, db2) \<Rightarrow> (Exit_normal, db2))
                     | (Work_raised err, db1) \<Rightarrow>
                         exit_of (finish_failure hash cfg (pe_now env) jid worker err (pe_others env 2) db1)
                     | (Work_deferred retry_at, db1) \<Rightarrow>
                         exit_of (defer_claim (pe_now env) jid worker retry_at (pe_others env 2) db1)
                     | (Work_lease_lost, db1) \<Rightarrow> (Exit_normal, db1)
                     | (Work_cancelled, db1) \<Rightarrow> (Exit_cancelled, db1)))"

text \<open>\<open>drain_outbox\<close>: at most \<open>max_jobs\<close> jobs, each with the environment its number gives.\<close>

fun drain_outbox ::
  "(json \<Rightarrow> string) \<Rightarrow> (json \<Rightarrow> string) \<Rightarrow> outbox_settings \<Rightarrow> (nat \<Rightarrow> process_env) \<Rightarrow> nat \<Rightarrow> string \<Rightarrow> outbox_db \<Rightarrow>
   claimed_exit \<times> nat \<times> outbox_db" where
  "drain_outbox hash str_of cfg envs 0 worker db = (Exit_normal, 0, db)"
| "drain_outbox hash str_of cfg envs (Suc n) worker db =
     (case claim_next_job cfg (pe_now (envs n)) worker db of
        (None, db1) \<Rightarrow> (Exit_normal, 0, db1)
      | (Some jid, db1) \<Rightarrow>
          (case process_claimed hash str_of cfg (envs n) jid worker db1 of
             (Exit_normal, db2) \<Rightarrow>
               (case drain_outbox hash str_of cfg envs n worker db2 of
                  (ex, processed, db3) \<Rightarrow> (ex, Suc processed, db3))
           | (ex, db2) \<Rightarrow> (ex, 0, db2)))"

section \<open>Entry points\<close>

text \<open>
  \<open>schedule_post_response_tasks\<close>: with the two deployment switches. The first component is the settlement
  report made right away, as its \<open>failed\<close> flag, or None when the durable job will settle the turn.
\<close>

definition schedule_post_response_tasks ::
  "(json \<Rightarrow> string) \<Rightarrow> (json \<Rightarrow> string) \<Rightarrow> bool \<Rightarrow> bool \<Rightarrow> string \<Rightarrow> time \<Rightarrow> mem_context \<Rightarrow> string \<Rightarrow> string \<Rightarrow> outbox_db \<Rightarrow>
   bool option \<times> outbox_db" where
  "schedule_post_response_tasks hash str_of layered_enabled enabled row_id now ctx user_message assistant_message db =
     (if \<not> layered_enabled \<or> \<not> enabled \<or> \<not> mc_write_enabled ctx
         \<or> user_message = [] \<or> assistant_message = [] \<or> mc_user_id ctx = []
      then (Some False, db)
      else (case enqueue_pipeline_job hash str_of row_id now ctx user_message assistant_message db of
              (Inl e, db') \<Rightarrow> (Some True, db')
            | (Inr _, db') \<Rightarrow> (None, db')))"

text \<open>
  \<open>consume_outbox_job\<close>: the job is tried, then polled. Each element of \<open>polls\<close> is a clock reading and what other sessions commit until the next
  poll; None is a poll that is not over when they end, \<open>Inl\<close> the error of a job that disappeared.
\<close>

fun poll_job ::
  "string \<Rightarrow> time \<Rightarrow> (time \<times> (outbox_db \<Rightarrow> outbox_db)) list \<Rightarrow> outbox_db \<Rightarrow>
   (outbox_error + (string \<times> outbox_status \<times> json \<times> string option)) option \<times> outbox_db" where
  "poll_job jid deadline [] db = (None, db)"
| "poll_job jid deadline ((now, others) # polls) db =
     (case get_outbox_job jid db of
        None \<Rightarrow> (Some (Inl Ob_RuntimeError), db)
      | Some snap \<Rightarrow>
          (case snap of (_, status, _, _) \<Rightarrow>
             if ob_terminal status \<or> status = Ob_retry then (Some (Inr snap), db)
             else if deadline \<le> now then (Some (Inr snap), db)
             else poll_job jid deadline polls (others db)))"

definition consume_outbox_job ::
  "(json \<Rightarrow> string) \<Rightarrow> (json \<Rightarrow> string) \<Rightarrow> outbox_settings \<Rightarrow> process_env \<Rightarrow> string \<Rightarrow> string \<Rightarrow> time \<Rightarrow> time \<Rightarrow>
   (time \<times> (outbox_db \<Rightarrow> outbox_db)) list \<Rightarrow> outbox_db \<Rightarrow>
   claimed_exit \<times> (outbox_error + (string \<times> outbox_status \<times> json \<times> string option)) option \<times> outbox_db" where
  "consume_outbox_job hash str_of cfg env jid worker start wait polls db =
     (case claim_specific cfg (pe_now env) jid worker db of
        (won, db1) \<Rightarrow>
          (case (if won then process_claimed hash str_of cfg env jid worker db1 else (Exit_normal, db1)) of
             (Exit_normal, db2) \<Rightarrow> (case poll_job jid (start + max 0 wait) polls db2 of (r, db3) \<Rightarrow> (Exit_normal, r, db3))
           | (ex, db2) \<Rightarrow> (ex, None, db2)))"

end
