(* ===== verification/Outbox_Steps.thy ===== *)
theory Outbox_Steps
  imports Memory_Outbox
begin

text \<open>
  The sessions of the memory outbox as events, with the sessions that commit inside an acknowledgement, the
  invariant of the table, and the proofs that every session keeps it, keeps every job, and, when
  failed acknowledgements are not interrupted, keeps every terminal job as it is.
\<close>

section \<open>Sessions as events\<close>

text \<open>
  One event per committed session. Acknowledgements and deferrals carry the sessions that commit between their first read
  and their write.
\<close>

datatype outbox_event =
    Oe_enqueue string time string string string string dict "string option" "string option"
  | Oe_claim time string
  | Oe_claim_specific time string string
  | Oe_renew time string string
  | Oe_release time string
  | Oe_defer time string string time "outbox_event list"
  | Oe_success time string string json "outbox_event list"
  | Oe_failure time string string string "outbox_event list"
  | Oe_settle string time
  | Oe_reconcile "nat \<Rightarrow> time"
  | Oe_checkpoint "nat \<Rightarrow> string" time memory_outbox mem_context "json list"
  | Oe_messages "chat_message list"

fun ob_step ::
  "(json \<Rightarrow> string) \<Rightarrow> (json \<Rightarrow> string) \<Rightarrow> outbox_settings \<Rightarrow> outbox_event \<Rightarrow> outbox_db \<Rightarrow> outbox_db" where
  "ob_step hash str_of cfg (Oe_enqueue row_id now mid kind layer h payload parent scope) db =
     snd (enqueue_job row_id now mid kind layer h payload parent scope db)"
| "ob_step hash str_of cfg (Oe_claim now worker) db = snd (claim_next_job cfg now worker db)"
| "ob_step hash str_of cfg (Oe_claim_specific now jid worker) db = snd (claim_specific cfg now jid worker db)"
| "ob_step hash str_of cfg (Oe_renew now jid worker) db = snd (renew_job_lease cfg now jid worker db)"
| "ob_step hash str_of cfg (Oe_release now worker) db = snd (release_worker_leases now worker db)"
| "ob_step hash str_of cfg (Oe_defer now jid worker retry_at es) db =
     snd (defer_claim now jid worker retry_at (fold id (map (ob_step hash str_of cfg) es)) db)"
| "ob_step hash str_of cfg (Oe_success now jid worker result es) db =
     snd (finish_success hash now jid worker result (fold id (map (ob_step hash str_of cfg) es)) db)"
| "ob_step hash str_of cfg (Oe_failure now jid worker err es) db =
     snd (finish_failure hash cfg now jid worker err (fold id (map (ob_step hash str_of cfg) es)) db)"
| "ob_step hash str_of cfg (Oe_settle mid now) db = snd (maybe_enqueue_settlement hash mid now db)"
| "ob_step hash str_of cfg (Oe_reconcile clock) db = snd (reconcile_settlement_jobs hash clock db)"
| "ob_step hash str_of cfg (Oe_checkpoint ids now row ctx candidates) db =
     snd (checkpoint_pipeline_candidates hash str_of ids now row ctx candidates db)"
| "ob_step hash str_of cfg (Oe_messages ms) db = db\<lparr>messages := ms\<rparr>"

text \<open>
  Jobs are admitted by the \<open>enqueue_*\<close> functions, none of which makes a settlement job.
  \<open>ob_serial\<close> adds that no other session commits inside a failed acknowledgement or a deferral.
\<close>

fun ob_good :: "outbox_event \<Rightarrow> bool" where
  "ob_good (Oe_enqueue row_id now mid kind layer h payload parent scope) \<longleftrightarrow> kind \<noteq> ''settlement'' \<and> layer \<noteq> ''settlement''"
| "ob_good (Oe_defer now jid worker retry_at es) \<longleftrightarrow> list_all ob_good es"
| "ob_good (Oe_success now jid worker result es) \<longleftrightarrow> list_all ob_good es"
| "ob_good (Oe_failure now jid worker err es) \<longleftrightarrow> list_all ob_good es"
| "ob_good _ \<longleftrightarrow> True"

fun ob_serial :: "outbox_event \<Rightarrow> bool" where
  "ob_serial (Oe_enqueue row_id now mid kind layer h payload parent scope) \<longleftrightarrow> kind \<noteq> ''settlement'' \<and> layer \<noteq> ''settlement''"
| "ob_serial (Oe_defer now jid worker retry_at es) \<longleftrightarrow> es = []"
| "ob_serial (Oe_success now jid worker result es) \<longleftrightarrow> list_all ob_serial es"
| "ob_serial (Oe_failure now jid worker err es) \<longleftrightarrow> es = []"
| "ob_serial _ \<longleftrightarrow> True"

section \<open>Well-formed tables\<close>

definition job_ok :: "(json \<Rightarrow> string) \<Rightarrow> memory_outbox \<Rightarrow> bool" where
  "job_ok hash r \<longleftrightarrow>
     (ob_status r = Ob_processing \<longleftrightarrow> ob_lease_owner r \<noteq> None)
     \<and> (ob_lease_owner r = None \<longleftrightarrow> ob_lease_expires_at r = None)
     \<and> (ob_job_kind r = ''settlement'' \<longleftrightarrow> ob_layer r = ''settlement'')
     \<and> (ob_job_kind r = ''settlement'' \<longrightarrow> ob_candidate_hash r = settlement_hash hash (ob_message_id r))"

text \<open>A message that has a pipeline job, and whose jobs are all terminal, has its settlement job.\<close>

definition settled_message :: "(json \<Rightarrow> string) \<Rightarrow> string \<Rightarrow> outbox_db \<Rightarrow> bool" where
  "settled_message hash mid db \<longleftrightarrow>
     (\<exists>p\<in>set (outbox db). ob_message_id p = mid \<and> ob_job_kind p = ''pipeline'')
     \<and> (\<forall>r\<in>set (effect_rows mid db). ob_terminal (ob_status r))
     \<longrightarrow> key_row mid ''settlement'' (settlement_hash hash mid) db \<noteq> None"

definition outbox_ok :: "(json \<Rightarrow> string) \<Rightarrow> outbox_db \<Rightarrow> bool" where
  "outbox_ok hash db \<longleftrightarrow>
     distinct (map ob_id (outbox db)) \<and> distinct (map ob_key (outbox db))
     \<and> list_all (job_ok hash) (outbox db) \<and> (\<forall>mid. settled_message hash mid db)"

lemma outbox_okD:
  assumes "outbox_ok hash db"
  shows "distinct (map ob_id (outbox db))" and "distinct (map ob_key (outbox db))"
    and "r \<in> set (outbox db) \<Longrightarrow> job_ok hash r" and "settled_message hash mid db"
  using assms unfolding outbox_ok_def list_all_iff by blast+

lemma key_row_None: "key_row mid layer h db = None \<longleftrightarrow> (mid, layer, h) \<notin> ob_key ` set (outbox db)"
  by (simp add: key_row_def find_by_None_iff)

lemma key_row_Some:
  assumes "key_row mid layer h db \<noteq> None"
  obtains r where "r \<in> set (outbox db)" and "ob_key r = (mid, layer, h)"
  using assms by (auto simp: key_row_def dest!: find_by_SomeD)

lemma key_row_member: "r \<in> set (outbox db) \<Longrightarrow> ob_key r = (mid, layer, h) \<Longrightarrow> key_row mid layer h db \<noteq> None"
  unfolding key_row_None by force

lemma find_jobD: "find_job jid db = Some r \<Longrightarrow> r \<in> set (outbox db) \<and> ob_id r = jid"
  unfolding find_job_def by (rule find_by_SomeD)

lemma find_job_None: "find_job jid db = None \<longleftrightarrow> jid \<notin> ob_id ` set (outbox db)"
  by (simp add: find_job_def find_by_None_iff)

lemma find_job_unique: "distinct (map ob_id (outbox db)) \<Longrightarrow> r \<in> set (outbox db) \<Longrightarrow> find_job (ob_id r) db = Some r"
  by (simp add: find_job_def find_by_unique)

text \<open>What identifies a job never changes.\<close>

definition ob_ident :: "memory_outbox \<Rightarrow> string \<times> (string \<times> string \<times> string) \<times> string" where
  "ob_ident r = (ob_id r, ob_key r, ob_job_kind r)"

lemma ob_identD:
  assumes "ob_ident a = ob_ident b"
  shows "ob_id a = ob_id b" "ob_key a = ob_key b" "ob_job_kind a = ob_job_kind b" "ob_message_id a = ob_message_id b"
  using assms by (auto simp: ob_ident_def ob_key_def)

subsection \<open>Updates\<close>

text \<open>
  \<open>UPDATE\<close>s keep the identity of rows and their local consistency; one that does not close a row, or closes rows of one
  message only, can unsettle no other message.
\<close>

definition closes_only :: "string set \<Rightarrow> memory_outbox \<Rightarrow> memory_outbox \<Rightarrow> bool" where
  "closes_only mids r r' \<longleftrightarrow>
     (ob_terminal (ob_status r') \<longrightarrow> ob_terminal (ob_status r) \<or> ob_message_id r \<in> mids)"

definition table_ok :: "(json \<Rightarrow> string) \<Rightarrow> string set \<Rightarrow> outbox_db \<Rightarrow> bool" where
  "table_ok hash mids db \<longleftrightarrow>
     distinct (map ob_id (outbox db)) \<and> distinct (map ob_key (outbox db))
     \<and> list_all (job_ok hash) (outbox db) \<and> (\<forall>mid. mid \<notin> mids \<longrightarrow> settled_message hash mid db)"

lemma outbox_ok_table: "outbox_ok hash db \<longleftrightarrow> table_ok hash {} db"
  by (simp add: outbox_ok_def table_ok_def)

lemma settled_update:
  assumes "\<And>r. r \<in> set (outbox db) \<Longrightarrow> P r \<Longrightarrow> ob_ident (f r) = ob_ident r \<and> closes_only mids r (f r)"
    and "settled_message hash mid db" and "mid \<notin> mids"
  shows "settled_message hash mid (update_jobs P f db)"
  unfolding settled_message_def
proof (intro impI, elim conjE)
  let ?g = "\<lambda>r. if P r then f r else r"
  have rows: "set (outbox (update_jobs P f db)) = ?g ` set (outbox db)"
    by (simp add: update_jobs_def set_update_where)
  have ident: "ob_ident (?g r) = ob_ident r" and closes: "closes_only mids r (?g r)" if "r \<in> set (outbox db)" for r
    using assms(1) [OF that] by (auto simp: closes_only_def)
  assume "\<exists>p\<in>set (outbox (update_jobs P f db)). ob_message_id p = mid \<and> ob_job_kind p = ''pipeline''"
    and closed: "\<forall>r\<in>set (effect_rows mid (update_jobs P f db)). ob_terminal (ob_status r)"
  then obtain p where p: "p \<in> set (outbox db)" "ob_message_id (?g p) = mid" "ob_job_kind (?g p) = ''pipeline''"
    by (auto simp: rows)
  then have "ob_message_id p = mid" "ob_job_kind p = ''pipeline''"
    using ob_identD [OF ident [OF p(1)]] by simp_all
  moreover have "ob_terminal (ob_status r)" if r: "r \<in> set (effect_rows mid db)" for r
  proof -
    have m: "r \<in> set (outbox db)" "ob_message_id r = mid" "ob_job_kind r \<noteq> ''settlement''"
      using r by (auto simp: effect_rows_def)
    then have "?g r \<in> set (effect_rows mid (update_jobs P f db))"
      using ob_identD [OF ident [OF m(1)]] by (auto simp: effect_rows_def rows)
    then show ?thesis using closed closes [OF m(1)] assms(3) m(2) by (auto simp: closes_only_def)
  qed
  ultimately have "key_row mid ''settlement'' (settlement_hash hash mid) db \<noteq> None"
    using assms(2) p(1) by (auto simp: settled_message_def)
  then obtain s where s: "s \<in> set (outbox db)" "ob_key s = (mid, ''settlement'', settlement_hash hash mid)"
    using key_row_Some by blast
  then have "ob_key (?g s) = (mid, ''settlement'', settlement_hash hash mid)"
    using ob_identD [OF ident [OF s(1)]] by simp
  then show "key_row mid ''settlement'' (settlement_hash hash mid) (update_jobs P f db) \<noteq> None"
    by (rule key_row_member [rotated]) (use s(1) rows in blast)
qed

lemma table_ok_update:
  assumes "table_ok hash mids db"
    and "\<And>r. r \<in> set (outbox db) \<Longrightarrow> P r \<Longrightarrow> job_ok hash r \<Longrightarrow>
           ob_ident (f r) = ob_ident r \<and> job_ok hash (f r) \<and> closes_only mids' r (f r)"
    and "mids \<subseteq> mids'"
  shows "table_ok hash mids' (update_jobs P f db)"
proof -
  have ok: "\<And>r. r \<in> set (outbox db) \<Longrightarrow> job_ok hash r"
    using assms(1) unfolding table_ok_def list_all_iff by blast
  have f: "ob_ident (f r) = ob_ident r" "job_ok hash (f r)" "closes_only mids' r (f r)" if "r \<in> set (outbox db)" "P r" for r
    using assms(2) [OF that ok [OF that(1)]] by auto
  have "map ob_id (update_where P f (outbox db)) = map ob_id (outbox db)"
    "map ob_key (update_where P f (outbox db)) = map ob_key (outbox db)"
    using ob_identD(1,2) [OF f(1)] by (simp_all add: map_update_where)
  moreover have "settled_message hash mid (update_jobs P f db)" if "mid \<notin> mids'" for mid
  proof (rule settled_update [OF _ _ that])
    show "settled_message hash mid db" using assms(1,3) that unfolding table_ok_def by blast
  qed (simp add: f(1,3))
  moreover have "list_all (job_ok hash) (update_where P f (outbox db))"
    using ok f(2) by (auto simp: list_all_iff set_update_where)
  ultimately show ?thesis
    using assms(1) unfolding table_ok_def by (simp add: update_jobs_def)
qed

subsection \<open>Insertions\<close>

lemma insert_job_SomeD:
  assumes "insert_job r db = Some db'"
  shows "outbox db' = outbox db @ [r]" and "ob_id r \<notin> ob_id ` set (outbox db)" and "ob_key r \<notin> ob_key ` set (outbox db)"
  using assms unfolding insert_job_def find_job_None by (auto split: if_splits)

lemma settled_insert:
  assumes "settled_message hash mid db" and "outbox db' = outbox db @ [r]" and "\<not> ob_terminal (ob_status r)"
  shows "settled_message hash mid db'"
  unfolding settled_message_def
proof (intro impI, elim conjE)
  assume "\<exists>p\<in>set (outbox db'). ob_message_id p = mid \<and> ob_job_kind p = ''pipeline''"
    and closed: "\<forall>x\<in>set (effect_rows mid db'). ob_terminal (ob_status x)"
  then obtain p where p: "p \<in> set (outbox db')" "ob_message_id p = mid" "ob_job_kind p = ''pipeline''" by blast
  have "r \<notin> set (effect_rows mid db')" using closed assms(3) by blast
  then have "p \<in> set (outbox db)" using p assms(2) by (auto simp: effect_rows_def)
  moreover have "\<forall>x\<in>set (effect_rows mid db). ob_terminal (ob_status x)"
    using closed assms(2) by (auto simp: effect_rows_def)
  ultimately have "key_row mid ''settlement'' (settlement_hash hash mid) db \<noteq> None"
    using assms(1) p unfolding settled_message_def by blast
  then obtain s where "s \<in> set (outbox db)" "ob_key s = (mid, ''settlement'', settlement_hash hash mid)"
    using key_row_Some by blast
  then show "key_row mid ''settlement'' (settlement_hash hash mid) db' \<noteq> None"
    using key_row_member [of s db'] assms(2) by simp
qed

lemma table_ok_insert:
  assumes "table_ok hash mids db" and "insert_job r db = Some db'" and "job_ok hash r" and "\<not> ob_terminal (ob_status r)"
  shows "table_ok hash mids db'"
proof -
  note rows = insert_job_SomeD [OF assms(2)]
  have "settled_message hash mid db'" if "mid \<notin> mids" for mid
    using settled_insert [OF _ rows(1) assms(4)] assms(1) that unfolding table_ok_def by blast
  then show ?thesis using assms(1,3) rows unfolding table_ok_def by simp
qed

lemma job_ok_new: "kind \<noteq> ''settlement'' \<Longrightarrow> layer \<noteq> ''settlement'' \<Longrightarrow> job_ok hash (new_job row_id parent mid scope kind layer h payload now)"
  by (simp add: job_ok_def new_job_def)

lemma job_ok_settlement: "job_ok hash (settlement_job hash mid now)"
  by (simp add: job_ok_def settlement_job_def new_job_def)

lemma new_job_open [simp]: "\<not> ob_terminal (ob_status (new_job row_id parent mid scope kind layer h payload now))"
  "\<not> ob_terminal (ob_status (settlement_job hash mid now))"
  by (simp_all add: new_job_def settlement_job_def ob_terminal_def)

lemma table_ok_frame: "outbox db' = outbox db \<Longrightarrow> table_ok hash mids db' = table_ok hash mids db"
  by (simp add: table_ok_def settled_message_def effect_rows_def key_row_def)

lemma no_pipeline: "lock_pipeline_row mid db = None \<Longrightarrow> p \<in> set (outbox db) \<Longrightarrow> ob_message_id p = mid \<Longrightarrow> ob_job_kind p \<noteq> ''pipeline''"
  by (auto simp: lock_pipeline_row_def filter_empty_conv)

lemma table_ok_settled:
  assumes "table_ok hash {mid} db" and "settled_message hash mid db"
  shows "table_ok hash {} db"
proof -
  have "settled_message hash m db" for m
    using assms by (cases "m = mid") (simp_all add: table_ok_def)
  then show ?thesis using assms(1) by (simp add: table_ok_def)
qed

lemma settle_ready:
  assumes "table_ok hash {mid} db" and "enqueue_settlement_if_ready hash mid now db = Inr (x, db')"
  shows "table_ok hash {} db'"
proof -
  note settled = table_ok_settled [OF assms(1)]
  consider "lock_pipeline_row mid db = None"
    | "list_ex (\<lambda>r. \<not> ob_terminal (ob_status r)) (effect_rows mid db)"
    | "effect_rows mid db = []" "lock_pipeline_row mid db \<noteq> None"
    | "key_row mid ''settlement'' (settlement_hash hash mid) db \<noteq> None"
    | "insert_job (settlement_job hash mid now) db = Some db'"
    using assms(2) by (auto simp: enqueue_settlement_if_ready_def split: if_splits option.splits)
  then show ?thesis
  proof cases
    case 1
    then have "settled_message hash mid db" using no_pipeline [OF 1] unfolding settled_message_def by blast
    moreover have "db' = db" using assms(2) 1 by (simp add: enqueue_settlement_if_ready_def)
    ultimately show ?thesis using settled by simp
  next
    case 2
    then have "settled_message hash mid db" by (auto simp: settled_message_def list_ex_iff)
    moreover have "db' = db" using assms(2) 2 by (auto simp: enqueue_settlement_if_ready_def split: if_splits)
    ultimately show ?thesis using settled by simp
  next
    case 3
    then obtain p where "p \<in> set (outbox db)" "ob_message_id p = mid" "ob_job_kind p = ''pipeline''"
      unfolding lock_pipeline_row_def first_by_None by (auto simp: filter_empty_conv)
    then show ?thesis using 3(1) by (auto simp: effect_rows_def filter_empty_conv)
  next
    case 4
    then have "db' = db" using assms(2) by (auto simp: enqueue_settlement_if_ready_def split: if_splits)
    with 4 settled show ?thesis by (simp add: settled_message_def)
  next
    case 5
    have "table_ok hash {mid} db'"
      by (rule table_ok_insert [OF assms(1) 5 job_ok_settlement]) simp
    moreover have "settlement_job hash mid now \<in> set (outbox db')" using insert_job_SomeD(1) [OF 5] by simp
    then have "key_row mid ''settlement'' (settlement_hash hash mid) db' \<noteq> None"
      by (rule key_row_member) (simp add: settlement_job_def new_job_def ob_key_def)
    ultimately show ?thesis using table_ok_settled [of hash mid db'] by (simp add: settled_message_def)
  qed
qed

subsection \<open>Sound steps\<close>

text \<open>A step keeps the table well formed and every row, up to its state.\<close>

definition ob_grows :: "outbox_db \<Rightarrow> outbox_db \<Rightarrow> bool" where
  "ob_grows db db' \<longleftrightarrow> ob_ident ` set (outbox db) \<subseteq> ob_ident ` set (outbox db')"

definition ob_sound :: "(json \<Rightarrow> string) \<Rightarrow> outbox_db \<Rightarrow> outbox_db \<Rightarrow> bool" where
  "ob_sound hash db db' \<longleftrightarrow> (outbox_ok hash db \<longrightarrow> outbox_ok hash db' \<and> ob_grows db db')"

lemma ob_sound_refl [simp]: "ob_sound hash db db"
  by (simp add: ob_sound_def ob_grows_def)

lemma ob_sound_trans: "ob_sound hash a b \<Longrightarrow> ob_sound hash b c \<Longrightarrow> ob_sound hash a c"
  unfolding ob_sound_def ob_grows_def by blast

lemma ob_grows_update:
  assumes "\<And>r. r \<in> set (outbox db) \<Longrightarrow> P r \<Longrightarrow> ob_ident (f r) = ob_ident r"
  shows "ob_grows db (update_jobs P f db)"
proof -
  have "ob_ident ` set (outbox db) = ob_ident ` (\<lambda>r. if P r then f r else r) ` set (outbox db)"
    unfolding image_image using assms by (intro image_cong) auto
  then show ?thesis by (simp add: ob_grows_def update_jobs_def set_update_where)
qed

lemma ob_grows_insert: "insert_job r db = Some db' \<Longrightarrow> ob_grows db db'"
  using insert_job_SomeD(1) [of r db db'] by (auto simp: ob_grows_def)

text \<open>An \<open>UPDATE\<close> that closes no row.\<close>

lemma ob_sound_update:
  assumes "\<And>r. r \<in> set (outbox db) \<Longrightarrow> P r \<Longrightarrow> job_ok hash r \<Longrightarrow>
     ob_ident (f r) = ob_ident r \<and> job_ok hash (f r) \<and> (ob_terminal (ob_status (f r)) \<longrightarrow> ob_terminal (ob_status r))"
  shows "ob_sound hash db (update_jobs P f db)"
  unfolding ob_sound_def
proof
  assume ok: "outbox_ok hash db"
  have "table_ok hash {} (update_jobs P f db)"
    using assms by (intro table_ok_update [OF ok [unfolded outbox_ok_table]]) (simp_all add: closes_only_def)
  moreover have "ob_grows db (update_jobs P f db)"
    using assms outbox_okD(3) [OF ok] by (intro ob_grows_update) blast
  ultimately show "outbox_ok hash (update_jobs P f db) \<and> ob_grows db (update_jobs P f db)"
    by (simp add: outbox_ok_table)
qed

lemma ob_sound_insert:
  assumes "insert_job r db = Some db'" and "job_ok hash r" and "\<not> ob_terminal (ob_status r)"
  shows "ob_sound hash db db'"
  using table_ok_insert [OF _ assms] ob_grows_insert [OF assms(1)] by (simp add: ob_sound_def outbox_ok_table)

lemma ob_sound_frame: "outbox db' = outbox db \<Longrightarrow> ob_sound hash db db'"
  using table_ok_frame [of db' db] by (simp add: ob_sound_def outbox_ok_table ob_grows_def)

lemma ob_sound_enqueue:
  "kind \<noteq> ''settlement'' \<Longrightarrow> layer \<noteq> ''settlement'' \<Longrightarrow>
   ob_sound hash db (snd (enqueue_job row_id now mid kind layer h payload parent scope db))"
  by (auto simp: enqueue_job_def job_ok_new intro: ob_sound_insert split: option.split)

lemmas job_step_simps = ob_ident_def ob_key_def job_ok_def ob_terminal_def expire_job_def claim_job_def ob_owned_def

lemma ob_sound_claim_next: "ob_sound hash db (snd (claim_next_job cfg now worker db))"
proof -
  define db1 where "db1 = update_jobs (\<lambda>r. ob_status r = Ob_processing \<and> sql_le (ob_lease_expires_at r) now) (expire_job now) db"
  have 1: "ob_sound hash db db1"
    unfolding db1_def by (rule ob_sound_update) (simp add: job_step_simps)
  have 2: "ob_sound hash db1 (update_jobs P (claim_job now until worker n) db1)" for P until n
    by (rule ob_sound_update) (simp add: job_step_simps)
  show ?thesis
    using 1 ob_sound_trans [OF 1 2] by (simp add: claim_next_job_def Let_def db1_def [symmetric] split: option.split)
qed

lemma ob_sound_claim_specific: "ob_sound hash db (snd (claim_specific cfg now jid worker db))"
  unfolding claim_specific_def Let_def snd_conv by (rule ob_sound_update) (simp add: job_step_simps)

lemma ob_sound_renew: "ob_sound hash db (snd (renew_job_lease cfg now jid worker db))"
  unfolding renew_job_lease_def snd_conv by (rule ob_sound_update) (simp add: job_step_simps)

lemma ob_sound_release: "ob_sound hash db (snd (release_worker_leases now worker db))"
  unfolding release_worker_leases_def Let_def snd_conv by (rule ob_sound_update) (simp add: job_step_simps)

subsection \<open>Acknowledgements\<close>

lemma ident_later:
  assumes "outbox_ok hash db'" and "ob_grows db db'" and "row \<in> set (outbox db)" and "r \<in> set (outbox db')"
    and "ob_id r = ob_id row"
  shows "ob_ident r = ob_ident row"
proof -
  obtain r' where r': "r' \<in> set (outbox db')" "ob_ident r' = ob_ident row"
    using assms(2,3) unfolding ob_grows_def by (metis imageE imageI subsetD)
  then have "ob_id r' = ob_id r" using assms(5) ob_identD(1) by metis
  then have "r' = r" using find_job_unique [OF outbox_okD(1) [OF assms(1)]] r'(1) assms(4) by (metis option.inject)
  then show ?thesis using r'(2) by simp
qed

lemma soundD:
  assumes "\<And>d. ob_sound hash d (between d)" and "outbox_ok hash db"
  shows "outbox_ok hash (between db)" and "ob_grows db (between db)"
  using assms unfolding ob_sound_def by blast+

lemma flush_released:
  assumes "job_ok hash row" and "ob_status row = Ob_processing" and "ob_status assigned \<noteq> Ob_processing"
    and "ob_lease_owner assigned = None" and "ob_lease_expires_at assigned = None"
  shows "ob_status (flush_job row assigned r) = ob_status assigned" "ob_lease_owner (flush_job row assigned r) = None"
    "ob_lease_expires_at (flush_job row assigned r) = None" "ob_ident (flush_job row assigned r) = ob_ident r"
    "job_ok hash r \<Longrightarrow> job_ok hash (flush_job row assigned r)"
  using assms by (auto simp: flush_job_def orm_set_def job_ok_def ob_ident_def ob_key_def)

lemma flush_rowD:
  "flush_row row assigned db = Inr db' \<Longrightarrow> db' = update_jobs (\<lambda>r. ob_id r = ob_id row) (flush_job row assigned) db"
  by (simp add: flush_row_def split: if_splits)

lemma ob_sound_defer:
  assumes between: "\<And>d. ob_sound hash d (between d)"
  shows "ob_sound hash db (snd (defer_claim now jid worker retry_at between db))"
  unfolding ob_sound_def
proof
  assume ok: "outbox_ok hash db"
  have step: "ob_sound hash (between db) db'"
    if "row \<in> set (outbox db)" "ob_owned jid worker row" "flush_row row assigned (between db) = Inr db'"
      "ob_status assigned = Ob_retry" "ob_lease_owner assigned = None" "ob_lease_expires_at assigned = None" for row assigned db'
    using that flush_released [of hash row assigned] outbox_okD(3) [OF ok that(1)] unfolding flush_rowD [OF that(3)]
    by (intro ob_sound_update) (simp add: ob_owned_def ob_terminal_def)
  have "ob_sound hash db (snd (defer_claim now jid worker retry_at between db))"
  proof (cases "find (ob_owned jid worker) (outbox db)")
    case (Some row)
    then have row: "row \<in> set (outbox db)" "ob_owned jid worker row"
      by (auto simp: find_Some_iff)
    show ?thesis
      using ob_sound_trans [OF between step [OF row]] between
      by (auto simp: defer_claim_def Some Let_def split: sum.split)
  qed (simp add: defer_claim_def)
  then show "outbox_ok hash (snd (defer_claim now jid worker retry_at between db))
      \<and> ob_grows db (snd (defer_claim now jid worker retry_at between db))"
    using ok unfolding ob_sound_def by blast
qed

lemma settle_ready_grows: "enqueue_settlement_if_ready hash mid now db = Inr (x, db') \<Longrightarrow> ob_grows db db'"
  by (auto simp: enqueue_settlement_if_ready_def ob_grows_def dest: insert_job_SomeD(1) split: if_splits option.splits)

lemma settle_message_frame: "settle_message mid result db = Inr db' \<Longrightarrow> outbox db' = outbox db"
  by (auto simp: settle_message_def Let_def split: option.splits json.splits)

text \<open>Rows of one message are closed, and then the message is settled.\<close>

lemma ob_sound_close:
  assumes "outbox_ok hash db"
    and "\<And>r. r \<in> set (outbox db) \<Longrightarrow> P r \<Longrightarrow> job_ok hash r \<Longrightarrow>
           ob_ident (f r) = ob_ident r \<and> job_ok hash (f r) \<and> ob_message_id r = mid"
    and "outbox db1 = outbox (update_jobs P f db)" and "enqueue_settlement_if_ready hash mid now db1 = Inr (x, db')"
  shows "outbox_ok hash db'" and "ob_grows db db'"
proof -
  have "table_ok hash {mid} (update_jobs P f db)"
    using assms(2) by (intro table_ok_update [OF assms(1) [unfolded outbox_ok_table]]) (simp_all add: closes_only_def)
  then have "table_ok hash {mid} db1" using table_ok_frame [OF assms(3)] by simp
  then show "outbox_ok hash db'" using settle_ready [OF _ assms(4)] by (simp add: outbox_ok_table)
  have "ob_grows db (update_jobs P f db)"
    using assms(2) outbox_okD(3) [OF assms(1)] by (intro ob_grows_update) blast
  then show "ob_grows db db'"
    using settle_ready_grows [OF assms(4)] assms(3) by (simp add: ob_grows_def)
qed

lemma owned_later:
  assumes "outbox_ok hash db'" and "ob_grows db db'" and "find_job jid db = Some row"
    and "r \<in> set (outbox db')" and "ob_id r = jid"
  shows "ob_message_id r = ob_message_id row"
  using ident_later [OF assms(1,2) _ assms(4)] find_jobD [OF assms(3)] assms(5) ob_identD(4) by blast

lemma ob_sound_success:
  assumes between: "\<And>d. ob_sound hash d (between d)"
  shows "ob_sound hash db (snd (finish_success hash now jid worker result between db))"
  unfolding ob_sound_def
proof
  let ?db' = "snd (finish_success hash now jid worker result between db)"
  assume ok: "outbox_ok hash db"
  note b = soundD [OF between ok]
  have close: "outbox_ok hash db3 \<and> ob_grows (between db) db3"
    if "find_job jid db = Some row" "outbox db2 = outbox (update_jobs (ob_owned jid worker) (succeeded_job now result) (between db))"
      "enqueue_settlement_if_ready hash (ob_message_id row) now db2 = Inr (x, db3)" for row db2 db3 x
    using ob_sound_close [OF b(1) _ that(2,3)] owned_later [OF b that(1)]
    by (simp add: job_step_simps succeeded_job_def)
  have frame: "outbox db2 = outbox (update_jobs P f d)" if "settle_message mid result (update_jobs P f d) = Inr db2" for P f d db2 mid
    by (rule settle_message_frame [OF that])
  have "?db' = db \<or> ?db' = between db \<or> (outbox_ok hash ?db' \<and> ob_grows (between db) ?db')"
    using close [OF _ frame] close
    by (auto simp: finish_success_def Let_def split: option.splits if_splits sum.splits)
  then show "outbox_ok hash ?db' \<and> ob_grows db ?db'"
    using ok b by (auto simp: ob_grows_def)
qed

lemma ob_sound_failure:
  assumes between: "\<And>d. ob_sound hash d (between d)"
  shows "ob_sound hash db (snd (finish_failure hash cfg now jid worker err between db))"
  unfolding ob_sound_def
proof
  let ?db' = "snd (finish_failure hash cfg now jid worker err between db)"
  assume ok: "outbox_ok hash db"
  note b = soundD [OF between ok]
  have "outbox_ok hash ?db' \<and> (?db' = db \<or> ob_grows (between db) ?db')"
  proof (cases "find_job jid db")
    case (Some row)
    note row = find_jobD [OF Some]
    let ?a = "failed_job cfg now err row"
    have a: "ob_status ?a \<noteq> Ob_processing" "ob_lease_owner ?a = None" "ob_lease_expires_at ?a = None"
      by (simp_all add: failed_job_def Let_def)
    show ?thesis
    proof (cases "ob_status row = Ob_processing \<and> ob_lease_owner row = Some worker")
      case True
      note released = flush_released [OF outbox_okD(3) [OF ok conjunct1 [OF row]] conjunct1 [OF True] a]
      note unfold_it = finish_failure_def Some True Let_def
      have refl: "ob_grows (between db) (between db)" by (simp add: ob_grows_def)
      show ?thesis
      proof (cases "flush_row row ?a (between db)")
        case (Inl e)
        then show ?thesis using b refl by (simp add: unfold_it)
      next
        case (Inr db1)
        note db1 = flush_rowD [OF Inr]
        show ?thesis
        proof (cases "ob_status ?a = Ob_quarantined")
          case False
          then have "\<not> ob_terminal (ob_status ?a)" by (simp add: failed_job_def Let_def ob_terminal_def)
          then have "ob_sound hash (between db) db1"
            unfolding db1 using released by (intro ob_sound_update) simp
          then show ?thesis using b False Inr by (simp add: unfold_it ob_sound_def)
        next
          case quarantined: True
          show ?thesis
          proof (cases "enqueue_settlement_if_ready hash (ob_message_id row) now db1")
            case (Inl e)
            then show ?thesis using b refl Inr quarantined by (simp add: unfold_it)
          next
            case ready: (Inr p)
            obtain x db2 where p: "p = (x, db2)" by (cases p)
            have "outbox_ok hash db2 \<and> ob_grows (between db) db2"
              using ob_sound_close [OF b(1) _ arg_cong [OF db1, of outbox] ready [unfolded p]] released(4,5)
                owned_later [OF b Some] row by simp
            then show ?thesis using Inr quarantined ready p by (simp add: unfold_it)
          qed
        qed
      qed
    qed (use ok Some in \<open>auto simp: finish_failure_def\<close>)
  qed (use ok in \<open>simp add: finish_failure_def\<close>)
  then show "outbox_ok hash ?db' \<and> ob_grows db ?db'"
    using b(2) by (auto simp: ob_grows_def)
qed

subsection \<open>Expansion and settlement\<close>

lemma ob_sound_settle: "ob_sound hash db (snd (maybe_enqueue_settlement hash mid now db))"
proof -
  have "table_ok hash {mid} db" if "outbox_ok hash db"
    using that by (simp add: outbox_ok_def table_ok_def)
  then show ?thesis
    using settle_ready [of hash mid db now] settle_ready_grows [of hash mid now db]
    by (auto simp: maybe_enqueue_settlement_def ob_sound_def outbox_ok_table ob_grows_def split: sum.split)
qed

lemma ob_sound_reconcile_messages: "ob_sound hash db (snd (reconcile_messages hash clock mids created db))"
proof (induction mids arbitrary: created db)
  case (Cons mid mids)
  show ?case
  proof (cases "enqueue_settlement_if_ready hash mid (clock (length mids)) db")
    case (Inr p)
    obtain x db' where p: "p = (x, db')" by (cases p)
    have "ob_sound hash db db'"
      using ob_sound_settle [of hash db mid "clock (length mids)"] Inr p by (simp add: maybe_enqueue_settlement_def)
    then show ?thesis using ob_sound_trans Cons.IH Inr p by (simp add: Let_def)
  qed simp
qed simp

lemma layer_not_settlement: "layer_by_extractor e \<noteq> ''settlement''"
  by (cases e) simp_all

definition child_ok :: "(json \<Rightarrow> string) \<Rightarrow> memory_outbox \<Rightarrow> bool" where
  "child_ok hash r \<longleftrightarrow> job_ok hash r \<and> \<not> ob_terminal (ob_status r)"

lemma checkpoint_children_ok:
  "checkpoint_children hash str_of ids now pipeline ctx db cs = Inr (rows, child_ids) \<Longrightarrow> list_all (child_ok hash) rows"
proof (induction hash str_of ids now pipeline ctx db cs arbitrary: rows child_ids rule: checkpoint_children.induct)
  case (2 hash str_of ids now pipeline ctx db candidate rest)
  then show ?case
    by (auto simp: Let_def child_ok_def job_ok_new layer_not_settlement
        split: option.splits json.splits list.splits sum.splits prod.splits)
qed auto

lemma ob_sound_insert_jobs: "insert_jobs rows db = Some db' \<Longrightarrow> list_all (child_ok hash) rows \<Longrightarrow> ob_sound hash db db'"
proof (induction rows arbitrary: db)
  case (Cons r rows)
  then obtain db1 where i: "insert_job r db = Some db1" "insert_jobs rows db1 = Some db'"
    by (auto split: option.splits)
  have "ob_sound hash db db1" using Cons.prems(2) i(1) by (intro ob_sound_insert) (auto simp: child_ok_def)
  moreover have "list_all (child_ok hash) rows" using Cons.prems(2) by simp
  ultimately show ?case by (rule ob_sound_trans [OF _ Cons.IH [OF i(2)]])
qed simp

lemma ob_sound_checkpoint:
  "ob_sound hash db (snd (checkpoint_pipeline_candidates hash str_of ids now row ctx candidates db))"
proof -
  have "ob_sound hash db (update_jobs (\<lambda>r. ob_id r = ob_id p) (\<lambda>r. r\<lparr>ob_result := v, ob_updated_at := now\<rparr>) db')"
    if "checkpoint_children hash str_of ids now p ctx db cs = Inr (rows, child_ids)" "insert_jobs rows db = Some db'"
    for p cs rows child_ids db' v
  proof -
    have "ob_sound hash db' (update_jobs (\<lambda>r. ob_id r = ob_id p) (\<lambda>r. r\<lparr>ob_result := v, ob_updated_at := now\<rparr>) db')"
      by (rule ob_sound_update) (auto simp: job_step_simps)
    then show ?thesis using ob_sound_insert_jobs [OF that(2) checkpoint_children_ok [OF that(1)]] ob_sound_trans by blast
  qed
  then show ?thesis
    by (auto simp: checkpoint_pipeline_candidates_def Let_def split: option.split sum.split)
qed

section \<open>Every interleaving\<close>

lemma ob_sound_fold:
  assumes "\<And>e d. e \<in> set es \<Longrightarrow> ob_sound hash d (step e d)"
  shows "ob_sound hash db (fold id (map step es) db)"
  using assms
proof (induction es arbitrary: db)
  case (Cons e es)
  have "ob_sound hash db (step e db)" using Cons.prems by simp
  moreover have "ob_sound hash (step e db) (fold id (map step es) (step e db))"
    using Cons.prems by (intro Cons.IH) simp
  ultimately show ?case unfolding list.map fold_simps id_apply by (rule ob_sound_trans)
qed simp

lemma ob_sound_step: "ob_good e \<Longrightarrow> ob_sound hash db (ob_step hash str_of cfg e db)"
proof (induction e arbitrary: db)
  case (Oe_defer now jid worker retry_at es)
  then have "ob_sound hash d (fold id (map (ob_step hash str_of cfg) es) d)" for d
    by (intro ob_sound_fold) (simp add: list_all_iff)
  then show ?case by (simp add: ob_sound_defer)
next
  case (Oe_success now jid worker result es)
  then have "ob_sound hash d (fold id (map (ob_step hash str_of cfg) es) d)" for d
    by (intro ob_sound_fold) (simp add: list_all_iff)
  then show ?case by (simp add: ob_sound_success)
next
  case (Oe_failure now jid worker err es)
  then have "ob_sound hash d (fold id (map (ob_step hash str_of cfg) es) d)" for d
    by (intro ob_sound_fold) (simp add: list_all_iff)
  then show ?case by (simp add: ob_sound_failure)
qed (simp_all add: ob_sound_enqueue ob_sound_claim_next ob_sound_claim_specific ob_sound_renew ob_sound_release
    ob_sound_settle reconcile_settlement_jobs_def ob_sound_reconcile_messages ob_sound_checkpoint ob_sound_frame)

interpretation outbox_system: step_system "ob_step hash str_of cfg" ob_good "outbox_ok hash"
  for hash str_of cfg
  using ob_sound_step by unfold_locales (auto simp: ob_sound_def)

subsection \<open>Terminal rows\<close>

definition ob_keeps :: "(json \<Rightarrow> string) \<Rightarrow> outbox_db \<Rightarrow> outbox_db \<Rightarrow> bool" where
  "ob_keeps hash db db' \<longleftrightarrow>
     (outbox_ok hash db \<longrightarrow>
        outbox_ok hash db' \<and> (\<forall>r\<in>set (outbox db). ob_terminal (ob_status r) \<longrightarrow> r \<in> set (outbox db')))"

lemma ob_keeps_refl [simp]: "ob_keeps hash db db"
  by (simp add: ob_keeps_def)

lemma ob_keeps_trans: "ob_keeps hash a b \<Longrightarrow> ob_keeps hash b c \<Longrightarrow> ob_keeps hash a c"
  unfolding ob_keeps_def by blast

lemma ob_keeps_update:
  assumes "ob_sound hash db (update_jobs P f db)"
    and "\<And>r. outbox_ok hash db \<Longrightarrow> r \<in> set (outbox db) \<Longrightarrow> P r \<Longrightarrow> \<not> ob_terminal (ob_status r)"
  shows "ob_keeps hash db (update_jobs P f db)"
  unfolding ob_keeps_def
proof
  assume ok: "outbox_ok hash db"
  have "r \<in> set (outbox (update_jobs P f db))" if "r \<in> set (outbox db)" "ob_terminal (ob_status r)" for r
    using that assms(2) [OF ok that(1)] by (force simp: update_jobs_def set_update_where)
  then show "outbox_ok hash (update_jobs P f db)
      \<and> (\<forall>r\<in>set (outbox db). ob_terminal (ob_status r) \<longrightarrow> r \<in> set (outbox (update_jobs P f db)))"
    using assms(1) ok unfolding ob_sound_def by blast
qed

lemma ob_keeps_grow:
  assumes "ob_sound hash db db'" and "set (outbox db) \<subseteq> set (outbox db')"
  shows "ob_keeps hash db db'"
  using assms unfolding ob_sound_def ob_keeps_def by blast

lemma settle_ready_subset: "enqueue_settlement_if_ready hash mid now db = Inr (x, db') \<Longrightarrow> set (outbox db) \<subseteq> set (outbox db')"
  by (auto simp: enqueue_settlement_if_ready_def dest: insert_job_SomeD(1) split: if_splits option.splits)

lemma ob_keeps_settle: "ob_keeps hash db (snd (maybe_enqueue_settlement hash mid now db))"
  by (rule ob_keeps_grow [OF ob_sound_settle])
    (auto simp: maybe_enqueue_settlement_def dest: settle_ready_subset split: sum.split)

lemma reconcile_subset: "set (outbox db) \<subseteq> set (outbox (snd (reconcile_messages hash clock mids created db)))"
proof (induction mids arbitrary: created db)
  case (Cons mid mids)
  then show ?case
    using settle_ready_subset [of hash mid "clock (length mids)" db] by (fastforce simp: Let_def split: sum.split)
qed simp

lemma ob_keeps_enqueue:
  assumes "kind \<noteq> ''settlement''" and "layer \<noteq> ''settlement''"
  shows "ob_keeps hash db (snd (enqueue_job row_id now mid kind layer h payload parent scope db))"
  by (rule ob_keeps_grow [OF ob_sound_enqueue [OF assms]])
    (auto simp: enqueue_job_def dest: insert_job_SomeD(1) split: option.split)

lemma ob_keeps_claim_next: "ob_keeps hash db (snd (claim_next_job cfg now worker db))"
proof -
  define db1 where "db1 = update_jobs (\<lambda>r. ob_status r = Ob_processing \<and> sql_le (ob_lease_expires_at r) now) (expire_job now) db"
  have 1: "ob_keeps hash db db1"
    unfolding db1_def by (rule ob_keeps_update, rule ob_sound_update) (simp_all add: job_step_simps)
  have 2: "ob_keeps hash db1 (update_jobs (\<lambda>r. ob_id r = jid \<and> ob_status r = ob_status row) (claim_job now until worker n) db1)"
    if "row \<in> set (filter (ob_due now) (outbox db1))" for jid row until n
  proof (rule ob_keeps_update)
    have "\<not> ob_terminal (ob_status row)" using that by (simp add: ob_due_def ob_terminal_def) (elim conjE disjE; simp)
    then show "\<not> ob_terminal (ob_status r)" if "ob_id r = jid \<and> ob_status r = ob_status row" for r
      using that by simp
    show "ob_sound hash db1 (update_jobs (\<lambda>r. ob_id r = jid \<and> ob_status r = ob_status row) (claim_job now until worker n) db1)"
      by (rule ob_sound_update) (simp add: job_step_simps)
  qed
  show ?thesis
  proof (cases "first_by ob_order (filter (ob_due now) (outbox db1))")
    case None
    then show ?thesis using 1 by (simp add: claim_next_job_def Let_def db1_def [symmetric] del: first_by_None)
  next
    case (Some row)
    then show ?thesis
      using ob_keeps_trans [OF 1 2 [OF first_by_SomeD(1) [OF Some]]]
      by (simp add: claim_next_job_def Let_def db1_def [symmetric])
  qed
qed

lemma ob_keeps_claim_specific: "ob_keeps hash db (snd (claim_specific cfg now jid worker db))"
  using ob_sound_claim_specific [of hash db cfg now jid worker] unfolding claim_specific_def Let_def snd_conv
  by (rule ob_keeps_update) (auto simp: ob_due_def ob_terminal_def)

lemma ob_keeps_renew: "ob_keeps hash db (snd (renew_job_lease cfg now jid worker db))"
  using ob_sound_renew [of hash db cfg now jid worker] unfolding renew_job_lease_def Let_def snd_conv
  by (rule ob_keeps_update) (auto simp: ob_owned_def ob_terminal_def)

lemma ob_keeps_release: "ob_keeps hash db (snd (release_worker_leases now worker db))"
  using ob_sound_release [of hash db now worker] unfolding release_worker_leases_def Let_def snd_conv
  by (rule ob_keeps_update) (auto simp: ob_terminal_def)

lemma same_id_same_row:
  "outbox_ok hash db \<Longrightarrow> r \<in> set (outbox db) \<Longrightarrow> row \<in> set (outbox db) \<Longrightarrow> ob_id r = ob_id row \<Longrightarrow> r = row"
  using find_job_unique [OF outbox_okD(1)] by (metis option.inject)

lemma closed_subset:
  assumes "outbox_ok hash db" and "row \<in> set (outbox db)" and "\<not> ob_terminal (ob_status row)"
    and "\<And>r. P r \<Longrightarrow> ob_id r = ob_id row"
    and "r \<in> set (outbox db)" and "ob_terminal (ob_status r)"
  shows "r \<in> set (outbox (update_jobs P f db))"
  using assms(3-6) same_id_same_row [OF assms(1,5,2)] by (force simp: update_jobs_def set_update_where)

lemma ob_keeps_defer: "ob_keeps hash db (snd (defer_claim now jid worker retry_at id db))"
proof -
  have "ob_sound hash db (snd (defer_claim now jid worker retry_at id db))" by (rule ob_sound_defer) simp
  moreover have "r \<in> set (outbox (snd (defer_claim now jid worker retry_at id db)))"
    if ok: "outbox_ok hash db" and r: "r \<in> set (outbox db)" "ob_terminal (ob_status r)" for r
  proof (cases "find (ob_owned jid worker) (outbox db)")
    case (Some row)
    then have row: "row \<in> set (outbox db)" "ob_owned jid worker row" by (auto simp: find_Some_iff)
    then have "\<not> ob_terminal (ob_status row)" by (simp add: ob_owned_def ob_terminal_def)
    then show ?thesis
      using closed_subset [OF ok row(1) _ _ r] r(1) by (auto simp: defer_claim_def Some Let_def flush_row_def split: sum.split)
  qed (use r in \<open>simp add: defer_claim_def\<close>)
  ultimately show ?thesis unfolding ob_sound_def ob_keeps_def by blast
qed

lemma ob_keeps_failure: "ob_keeps hash db (snd (finish_failure hash cfg now jid worker err id db))"
proof -
  let ?db' = "snd (finish_failure hash cfg now jid worker err id db)"
  have "ob_sound hash db ?db'" by (rule ob_sound_failure) simp
  moreover have "r \<in> set (outbox ?db')" if ok: "outbox_ok hash db" and r: "r \<in> set (outbox db)" "ob_terminal (ob_status r)" for r
  proof (cases "find_job jid db")
    case (Some row)
    note row = find_jobD [OF Some]
    have closed: "r \<in> set (outbox (update_jobs (\<lambda>r. ob_id r = ob_id row) f db))" if "ob_status row = Ob_processing" for f
      using closed_subset [OF ok conjunct1 [OF row] _ _ r, of "\<lambda>r. ob_id r = ob_id row" f] that by (simp add: ob_terminal_def)
    show ?thesis
      using r(1) closed settle_ready_subset
      by (fastforce simp: finish_failure_def Some Let_def flush_row_def split: sum.split)
  qed (use r in \<open>simp add: finish_failure_def\<close>)
  ultimately show ?thesis unfolding ob_sound_def ob_keeps_def by blast
qed

lemma ob_keeps_success:
  assumes between: "\<And>d. ob_keeps hash d (between d)" and sound: "\<And>d. ob_sound hash d (between d)"
  shows "ob_keeps hash db (snd (finish_success hash now jid worker result between db))"
proof -
  let ?db' = "snd (finish_success hash now jid worker result between db)"
  have "ob_sound hash db ?db'" by (rule ob_sound_success [OF sound])
  moreover have "r \<in> set (outbox ?db')" if ok: "outbox_ok hash db" and r: "r \<in> set (outbox db)" "ob_terminal (ob_status r)" for r
  proof -
    have b: "r \<in> set (outbox (between db))" using between [of db] ok r unfolding ob_keeps_def by blast
    then have c: "r \<in> set (outbox (update_jobs (ob_owned jid worker) f (between db)))" for f
      using r(2) by (force simp: update_jobs_def set_update_where ob_owned_def ob_terminal_def)
    show ?thesis
      using r(1) b c settle_ready_subset settle_message_frame
      by (fastforce simp: finish_success_def Let_def split: option.split sum.split)
  qed
  ultimately show ?thesis unfolding ob_sound_def ob_keeps_def by blast
qed

lemma insert_jobs_rows: "insert_jobs rows db = Some db' \<Longrightarrow> outbox db' = outbox db @ rows"
  by (induction rows arbitrary: db) (auto dest: insert_job_SomeD(1) split: option.splits)

lemma ob_keeps_checkpoint:
  "ob_keeps hash db (snd (checkpoint_pipeline_candidates hash str_of ids now row ctx candidates db))"
proof -
  let ?db' = "snd (checkpoint_pipeline_candidates hash str_of ids now row ctx candidates db)"
  have "r \<in> set (outbox ?db')" if ok: "outbox_ok hash db" and r: "r \<in> set (outbox db)" "ob_terminal (ob_status r)" for r
  proof -
    have kept: "r \<in> set (outbox (update_jobs (\<lambda>r. ob_id r = ob_id p) f db'))"
      if p: "p \<in> set (outbox db)" "ob_status p = Ob_processing" and ins: "insert_jobs rows db = Some db'" for p rows db' f
    proof -
      have "ob_id r \<noteq> ob_id p" using same_id_same_row [OF ok r(1) p(1)] p(2) r(2) by (auto simp: ob_terminal_def)
      then show ?thesis using r(1) insert_jobs_rows [OF ins] by (force simp: update_jobs_def set_update_where)
    qed
    show ?thesis
    proof (cases "find (\<lambda>r. ob_id r = ob_id row \<and> ob_status r = Ob_processing \<and> ob_lease_owner r = ob_lease_owner row
        \<and> ob_job_kind r = ''pipeline'') (outbox db)")
      case (Some p)
      then have p: "p \<in> set (outbox db)" "ob_status p = Ob_processing" by (auto simp: find_Some_iff)
      show ?thesis
        using kept [OF p] r(1)
        by (auto simp: checkpoint_pipeline_candidates_def Some Let_def split: option.split sum.split)
    qed (use r in \<open>simp add: checkpoint_pipeline_candidates_def\<close>)
  qed
  then show ?thesis using ob_sound_checkpoint unfolding ob_sound_def ob_keeps_def by blast
qed

lemma serial_good: "ob_serial e \<Longrightarrow> ob_good e"
  by (induction e) (auto simp: list_all_iff)

lemma ob_keeps_fold:
  assumes "\<And>e d. e \<in> set es \<Longrightarrow> ob_keeps hash d (step e d)"
  shows "ob_keeps hash db (fold id (map step es) db)"
  using assms
proof (induction es arbitrary: db)
  case (Cons e es)
  have "ob_keeps hash db (step e db)" using Cons.prems by simp
  moreover have "ob_keeps hash (step e db) (fold id (map step es) (step e db))"
    using Cons.prems by (intro Cons.IH) simp
  ultimately show ?case unfolding list.map fold_simps id_apply by (rule ob_keeps_trans)
qed simp

lemma ob_keeps_step: "ob_serial e \<Longrightarrow> ob_keeps hash db (ob_step hash str_of cfg e db)"
proof (induction e arbitrary: db)
  case (Oe_success now jid worker result es)
  have "ob_keeps hash d (fold id (map (ob_step hash str_of cfg) es) d)" for d
    using Oe_success by (intro ob_keeps_fold) (simp add: list_all_iff)
  moreover have "ob_sound hash d (fold id (map (ob_step hash str_of cfg) es) d)" for d
    using Oe_success.prems serial_good by (intro ob_sound_fold ob_sound_step) (auto simp: list_all_iff)
  ultimately show ?case by (simp add: ob_keeps_success)
next
  case (Oe_defer now jid worker retry_at es)
  then show ?case using ob_keeps_defer [of hash db now jid worker retry_at] by (simp add: id_def)
next
  case (Oe_failure now jid worker err es)
  then show ?case using ob_keeps_failure [of hash db cfg now jid worker err] by (simp add: id_def)
next
  case (Oe_reconcile clock)
  then show ?case
    by (simp add: reconcile_settlement_jobs_def ob_keeps_grow [OF ob_sound_reconcile_messages reconcile_subset])
next
  case (Oe_messages ms)
  then show ?case by (simp add: ob_keeps_grow [OF ob_sound_frame])
qed (simp_all add: ob_keeps_enqueue ob_keeps_claim_next ob_keeps_claim_specific ob_keeps_renew ob_keeps_release
    ob_keeps_settle ob_keeps_checkpoint)

interpretation outbox_serial: step_system "ob_step hash str_of cfg" ob_serial "outbox_ok hash"
  for hash str_of cfg
  using ob_keeps_step by unfold_locales (auto simp: ob_keeps_def)

end
