(* ===== verification/Outbox_Laws.thy ===== *)
theory Outbox_Laws
  imports Outbox_Steps
begin

text \<open>
  What the memory outbox guarantees: the table under every interleaving of sessions, terminal jobs and settlements,
  idempotent admission, bounded retries, the lane of ordered effects, replayed expansions, the leases of
  consecutive claims, and the worker as a whole; and the two places where its guards do not suffice.
\<close>

section \<open>Examples\<close>

text \<open>A digest that names the message, default settings, and a table with one pipeline job.\<close>

definition demo_hash :: "json \<Rightarrow> string" where
  "demo_hash v = (case v of JObj ((k, JStr s) # _) \<Rightarrow> s | _ \<Rightarrow> ''h'')"

definition demo_str :: "json \<Rightarrow> string" where
  "demo_str v = ''?''"

definition demo_settings :: outbox_settings where
  "demo_settings = \<lparr>os_lease_s = 120, os_max_attempts = 5, os_retry_base_s = 5\<rparr>"

definition demo_outbox :: outbox_db where
  "demo_outbox =
     \<lparr>sessions = [], messages = [], runs = [], operations = [],
      outbox = [new_job ''j1'' None ''m1'' (Some ''s1'') ''pipeline'' ''pipeline'' ''h1'' [] 0]\<rparr>"

lemma demo_outbox_ok: "outbox_ok hash demo_outbox"
  by (simp add: outbox_ok_def demo_outbox_def new_job_def job_ok_def settled_message_def effect_rows_def ob_terminal_def)

lemma outbox_run_sound:
  assumes "outbox_ok hash db" and "list_all ob_good es"
  shows "outbox_ok hash (run_steps (ob_step hash str_of cfg) es db)" and "ob_grows db (run_steps (ob_step hash str_of cfg) es db)"
proof -
  show "outbox_ok hash (run_steps (ob_step hash str_of cfg) es db)" by (rule outbox_system.inv_run [OF assms(2,1)])
  show "ob_grows db (run_steps (ob_step hash str_of cfg) es db)"
    using assms ob_sound_step
    by (intro outbox_system.chain_run [where le = ob_grows]) (auto simp: ob_sound_def ob_grows_def)
qed

lemma settled_once:
  assumes ok: "outbox_ok hash db" and p: "p \<in> set (outbox db)" "ob_job_kind p = ''pipeline''"
    "\<forall>r\<in>set (effect_rows (ob_message_id p) db). ob_terminal (ob_status r)"
  shows "\<exists>!s. s \<in> set (outbox db) \<and> ob_message_id s = ob_message_id p \<and> ob_job_kind s = ''settlement''"
proof -
  let ?key = "(ob_message_id p, ''settlement'', settlement_hash hash (ob_message_id p))"
  have key: "ob_job_kind s = ''settlement'' \<and> ob_message_id s = ob_message_id p \<longleftrightarrow> ob_key s = ?key"
    if "s \<in> set (outbox db)" for s
    using outbox_okD(3) [OF ok that] by (auto simp: job_ok_def ob_key_def)
  have "\<exists>q\<in>set (outbox db). ob_message_id q = ob_message_id p \<and> ob_job_kind q = ''pipeline''" using p(1,2) by blast
  then have "key_row (ob_message_id p) ''settlement'' (settlement_hash hash (ob_message_id p)) db \<noteq> None"
    using mp [OF outbox_okD(4) [OF ok, of "ob_message_id p", unfolded settled_message_def]] p(3) by simp
  then obtain s where s: "s \<in> set (outbox db)" "ob_key s = ?key" by (rule key_row_Some)
  have "inj_on ob_key (set (outbox db))" using outbox_okD(2) [OF ok] by (simp add: distinct_map)
  then have unique: "s' = s" if "s' \<in> set (outbox db)" "ob_key s' = ?key" for s'
    using that s by (simp add: inj_onD)
  show ?thesis
  proof (rule ex1I [of _ s])
    show "s \<in> set (outbox db) \<and> ob_message_id s = ob_message_id p \<and> ob_job_kind s = ''settlement''"
      using iffD2 [OF key [OF s(1)] s(2)] s(1) by blast
    show "s' = s" if "s' \<in> set (outbox db) \<and> ob_message_id s' = ob_message_id p \<and> ob_job_kind s' = ''settlement''" for s'
      using that iffD1 [OF key] by (intro unique) blast+
  qed
qed

text \<open>
  C29. The table under every interleaving of sessions, with the sessions that commit between the reads and the writes of an
  acknowledgement included: identifiers and admission keys stay unique, no job is lost, a job has an owner and
  a lease exactly while it is processed; and a message with a pipeline job whose jobs are all terminal has exactly
  one settlement job, so no turn is left unsettled and none is settled twice.
\<close>

theorem outbox_interleaving:
  fixes db :: outbox_db
  assumes "outbox_ok hash db" and "list_all ob_good es" and "db' = run_steps (ob_step hash str_of cfg) es db"
  shows "distinct (map ob_id (outbox db')) \<and> distinct (map ob_key (outbox db'))
    \<and> ob_ident ` set (outbox db) \<subseteq> ob_ident ` set (outbox db')
    \<and> (\<forall>r\<in>set (outbox db'). (ob_status r = Ob_processing \<longleftrightarrow> ob_lease_owner r \<noteq> None)
         \<and> (ob_status r = Ob_processing \<longleftrightarrow> ob_lease_expires_at r \<noteq> None))
    \<and> (\<forall>p\<in>set (outbox db'). ob_job_kind p = ''pipeline'' \<longrightarrow>
         (\<forall>r\<in>set (effect_rows (ob_message_id p) db'). ob_terminal (ob_status r)) \<longrightarrow>
         (\<exists>!s. s \<in> set (outbox db') \<and> ob_message_id s = ob_message_id p \<and> ob_job_kind s = ''settlement''))"
proof -
  have ok: "outbox_ok hash db'" and "ob_grows db db'"
    using outbox_run_sound [OF assms(1,2)] assms(3) by simp_all
  moreover have "(ob_status r = Ob_processing \<longleftrightarrow> ob_lease_owner r \<noteq> None)
      \<and> (ob_status r = Ob_processing \<longleftrightarrow> ob_lease_expires_at r \<noteq> None)" if "r \<in> set (outbox db')" for r
    using outbox_okD(3) [OF ok that] by (auto simp: job_ok_def)
  ultimately show ?thesis
    unfolding ob_grows_def using outbox_okD(1,2) [OF ok] by (intro conjI ballI impI settled_once [OF ok]) blast+
qed

definition demo_outbox_events :: "outbox_event list" where
  "demo_outbox_events =
     [Oe_claim 1 ''a'', Oe_failure 200000000 ''j1'' ''a'' ''boom'' [Oe_claim 150000000 ''b''],
      Oe_claim 300000000 ''c'', Oe_success 300000001 ''j1'' ''c'' JNull [Oe_renew 300000001 ''j1'' ''c'']]"

theorem outbox_interleaving_witness:
  "distinct (map ob_id (outbox (run_steps (ob_step demo_hash demo_str demo_settings) demo_outbox_events demo_outbox)))
   \<and> map (\<lambda>r. (ob_id r, ob_status r)) (outbox (run_steps (ob_step demo_hash demo_str demo_settings) demo_outbox_events demo_outbox))
     = [(''j1'', Ob_succeeded), (''mout_settle_m1'', Ob_pending)]"
proof
  have "list_all ob_good demo_outbox_events" by (simp add: demo_outbox_events_def)
  then show "distinct (map ob_id (outbox (run_steps (ob_step demo_hash demo_str demo_settings) demo_outbox_events demo_outbox)))"
    using outbox_interleaving [OF demo_outbox_ok, of _ _ demo_hash demo_str demo_settings] by blast
qed code_simp

text \<open>
  C31. A terminal job is final: when no other session commits inside a failed acknowledgement or a deferral, no session, not
  that of a worker whose lease was taken over either, changes a job that has succeeded or was quarantined, its
  result and its counters included.
\<close>

theorem terminal_jobs_are_final:
  assumes "outbox_ok hash db" and "list_all ob_serial es" and "r \<in> set (outbox db)" and "ob_terminal (ob_status r)"
  shows "r \<in> set (outbox (run_steps (ob_step hash str_of cfg) es db))"
  by (rule outbox_serial.stable_run [OF _ assms(2,1), where kept = "\<lambda>d. r \<in> set (outbox d)"])
    (use ob_keeps_step assms(3,4) in \<open>auto simp: ob_keeps_def\<close>)

theorem terminal_jobs_are_final_witness:
  "succeeded_job 2 JNull (new_job ''j1'' None ''m1'' (Some ''s1'') ''candidate'' ''L3:graph'' ''h1'' [] 0)
     \<in> set (outbox (run_steps (ob_step demo_hash demo_str demo_settings)
          [Oe_claim 3 ''b'', Oe_success 4 ''j1'' ''a'' (JBool True) [], Oe_failure 5 ''j1'' ''a'' ''late'' []]
          (demo_outbox\<lparr>outbox := [succeeded_job 2 JNull (new_job ''j1'' None ''m1'' (Some ''s1'') ''candidate'' ''L3:graph'' ''h1'' [] 0)]\<rparr>)))"
  by (rule terminal_jobs_are_final)
    (simp_all add: outbox_ok_def demo_outbox_def succeeded_job_def new_job_def job_ok_def settled_message_def effect_rows_def ob_terminal_def)

section \<open>Settlement\<close>

text \<open>Events whose sessions run alone.\<close>

fun ob_atomic :: "outbox_event \<Rightarrow> bool" where
  "ob_atomic (Oe_enqueue row_id now mid kind layer h payload parent scope) \<longleftrightarrow> kind \<noteq> ''settlement'' \<and> layer \<noteq> ''settlement''"
| "ob_atomic (Oe_defer now jid worker retry_at es) \<longleftrightarrow> es = []"
| "ob_atomic (Oe_success now jid worker result es) \<longleftrightarrow> es = []"
| "ob_atomic (Oe_failure now jid worker err es) \<longleftrightarrow> es = []"
| "ob_atomic _ \<longleftrightarrow> True"

text \<open>The settlement jobs of \<open>db'\<close> that are not among the jobs \<open>ids\<close> belong to messages whose other jobs are all terminal.\<close>

definition settles_ready :: "string set \<Rightarrow> outbox_db \<Rightarrow> bool" where
  "settles_ready ids db' \<longleftrightarrow>
     (\<forall>s\<in>set (outbox db'). ob_job_kind s = ''settlement'' \<longrightarrow> ob_id s \<notin> ids \<longrightarrow>
        (\<forall>r\<in>set (effect_rows (ob_message_id s) db'). ob_terminal (ob_status r)))"

lemma settles_ready_old: "ob_id ` set (outbox db') \<subseteq> ids \<Longrightarrow> settles_ready ids db'"
  by (auto simp: settles_ready_def)

lemma ids_update:
  assumes "\<And>r. ob_id (f r) = ob_id r"
  shows "ob_id ` set (outbox (update_jobs P f db)) = ob_id ` set (outbox db)"
proof -
  have "ob_id ` (\<lambda>r. if P r then f r else r) ` set (outbox db) = ob_id ` set (outbox db)"
    unfolding image_image using assms by (intro image_cong) auto
  then show ?thesis by (simp add: update_jobs_def set_update_where)
qed

lemma effect_rows_settle:
  "enqueue_settlement_if_ready hash mid now db = Inr (x, db') \<Longrightarrow> effect_rows m db' = effect_rows m db"
  by (auto simp: enqueue_settlement_if_ready_def effect_rows_def settlement_job_def new_job_def
      dest: insert_job_SomeD(1) split: if_splits option.splits)

lemma settles_ready_settle:
  assumes "enqueue_settlement_if_ready hash mid now db = Inr (x, db')" and "settles_ready ids db"
  shows "settles_ready ids db'"
proof (cases "outbox db' = outbox db")
  case True
  then show ?thesis using assms(2) by (simp add: settles_ready_def effect_rows_def)
next
  case False
  then have new: "insert_job (settlement_job hash mid now) db = Some db'"
    and closed: "\<not> list_ex (\<lambda>r. \<not> ob_terminal (ob_status r)) (effect_rows mid db)"
    using assms(1) by (auto simp: enqueue_settlement_if_ready_def split: if_splits option.splits)
  have mid: "ob_message_id (settlement_job hash mid now) = mid" by (simp add: settlement_job_def new_job_def)
  show ?thesis
    using assms(2) closed effect_rows_settle [OF assms(1)] insert_job_SomeD(1) [OF new] mid
    by (auto simp: settles_ready_def list_ex_iff)
qed

lemma settles_ready_reconcile:
  "settles_ready ids db \<Longrightarrow> settles_ready ids (snd (reconcile_messages hash clock mids created db))"
proof (induction mids arbitrary: created db)
  case (Cons mid mids)
  then show ?case
    using settles_ready_settle [of hash mid "clock (length mids)" db _ _ ids]
    by (auto simp: Let_def split: sum.split)
qed simp

lemma checkpoint_children_kind:
  "checkpoint_children hash str_of ids now pipeline ctx db cs = Inr (rows, child_ids) \<Longrightarrow>
   list_all (\<lambda>r. ob_job_kind r = ''candidate'') rows"
proof (induction hash str_of ids now pipeline ctx db cs arbitrary: rows child_ids rule: checkpoint_children.induct)
  case (2 hash str_of ids now pipeline ctx db candidate rest)
  then show ?case
    by (auto simp: Let_def new_job_def split: option.splits json.splits list.splits sum.splits prod.splits)
qed auto

lemma ids_job_steps [simp]:
  "ob_id (expire_job now r) = ob_id r" "ob_id (claim_job now until worker n r) = ob_id r"
  "ob_id (flush_job loaded assigned r) = ob_id r" "ob_id (succeeded_job now result r) = ob_id r"
  by (simp_all add: expire_job_def claim_job_def flush_job_def succeeded_job_def)

lemma ids_claim_next: "ob_id ` set (outbox (snd (claim_next_job cfg now worker db))) = ob_id ` set (outbox db)"
  by (simp add: claim_next_job_def Let_def ids_update split: option.split)

lemma ids_defer: "ob_id ` set (outbox (snd (defer_claim now jid worker retry_at id db))) = ob_id ` set (outbox db)"
  by (simp add: defer_claim_def Let_def flush_row_def ids_update split: option.split)

lemma settles_ready_success:
  "settles_ready (ob_id ` set (outbox db)) (snd (finish_success hash now jid worker result id db))"
proof -
  let ?db' = "snd (finish_success hash now jid worker result id db)"
  let ?db1 = "update_jobs (ob_owned jid worker) (succeeded_job now result) db"
  have old: "settles_ready (ob_id ` set (outbox db)) d" if "outbox d = outbox ?db1" for d
    by (rule settles_ready_old) (simp add: that ids_update)
  consider "?db' = db" | d mid x where "outbox d = outbox ?db1" "enqueue_settlement_if_ready hash mid now d = Inr (x, ?db')"
    by (fastforce simp: finish_success_def Let_def dest: settle_message_frame split: option.splits sum.splits if_splits)
  then show ?thesis
    using settles_ready_old [of db] settles_ready_settle [OF _ old] by cases auto
qed

lemma settles_ready_failure:
  "settles_ready (ob_id ` set (outbox db)) (snd (finish_failure hash cfg now jid worker err id db))"
proof -
  let ?db' = "snd (finish_failure hash cfg now jid worker err id db)"
  have old: "settles_ready (ob_id ` set (outbox db)) (update_jobs P (flush_job loaded assigned) db)" for P loaded assigned
    by (rule settles_ready_old) (simp add: ids_update)
  consider "?db' = db" | P loaded assigned where "?db' = update_jobs P (flush_job loaded assigned) db"
    | P loaded assigned mid x where "enqueue_settlement_if_ready hash mid now (update_jobs P (flush_job loaded assigned) db) = Inr (x, ?db')"
    by (fastforce simp: finish_failure_def Let_def flush_row_def split: option.splits sum.splits if_splits)
  then show ?thesis
    using settles_ready_old [of db] old settles_ready_settle [OF _ old] by cases auto
qed

lemma settles_ready_checkpoint:
  "settles_ready (ob_id ` set (outbox db)) (snd (checkpoint_pipeline_candidates hash str_of ids now row ctx candidates db))"
proof -
  have "settles_ready (ob_id ` set (outbox db)) (update_jobs P (\<lambda>r. r\<lparr>ob_result := v, ob_updated_at := now\<rparr>) db')"
    if "checkpoint_children hash str_of ids now p ctx db cs = Inr (rows, child_ids)" "insert_jobs rows db = Some db'"
    for p cs rows child_ids db' v P
  proof -
    have "ob_id r \<in> ob_id ` set (outbox db)" if "r \<in> set (outbox db @ rows)" "ob_job_kind r = ''settlement''" for r
      using that checkpoint_children_kind [OF \<open>checkpoint_children _ _ _ _ _ _ _ _ = _\<close>] by (auto simp: list_all_iff)
    then show ?thesis
      unfolding settles_ready_def update_jobs_def by (auto simp: set_update_where insert_jobs_rows [OF that(2)])
  qed
  then show ?thesis
    using settles_ready_old [of db]
    by (auto simp: checkpoint_pipeline_candidates_def Let_def split: option.split sum.split)
qed

lemma settles_ready_enqueue:
  assumes "kind \<noteq> ''settlement''"
  shows "settles_ready (ob_id ` set (outbox db)) (snd (enqueue_job row_id now mid kind layer h payload parent scope db))"
proof (cases "insert_job (new_job row_id parent mid scope kind layer h payload now) db")
  case None
  then show ?thesis using settles_ready_old [of db] by (simp add: enqueue_job_def split: option.split)
next
  case (Some db')
  have "ob_job_kind (new_job row_id parent mid scope kind layer h payload now) = kind" by (simp add: new_job_def)
  then show ?thesis
    using assms insert_job_SomeD(1) [OF Some] by (auto simp: enqueue_job_def Some settles_ready_def)
qed

text \<open>
  C30. A settlement is admitted only when there is something final to settle: whichever session, run alone, admits a
  settlement job that was not there, all other jobs of its message are succeeded or quarantined when it commits.
\<close>

theorem settlement_waits_for_effects:
  assumes "ob_atomic e" and "s \<in> set (outbox (ob_step hash str_of cfg e db))" and "ob_job_kind s = ''settlement''"
    and "ob_id s \<notin> ob_id ` set (outbox db)" and "r \<in> set (effect_rows (ob_message_id s) (ob_step hash str_of cfg e db))"
  shows "ob_terminal (ob_status r)"
proof -
  have old: "settles_ready (ob_id ` set (outbox db)) db'" if "ob_id ` set (outbox db') = ob_id ` set (outbox db)" for db'
    using that by (intro settles_ready_old) simp
  have "settles_ready (ob_id ` set (outbox db)) (ob_step hash str_of cfg e db)"
  proof (cases e)
    case (Oe_settle mid now)
    then show ?thesis
      using settles_ready_settle [of hash mid now db] old [of db]
      by (auto simp: maybe_enqueue_settlement_def split: sum.split)
  next
    case (Oe_defer now jid worker retry_at es)
    then show ?thesis using assms(1) old [OF ids_defer] by (simp add: id_def)
  next
    case (Oe_success now jid worker result es)
    then show ?thesis using assms(1) settles_ready_success by (simp add: id_def)
  next
    case (Oe_failure now jid worker err es)
    then show ?thesis using assms(1) settles_ready_failure by (simp add: id_def)
  qed (use assms(1) old in \<open>simp_all add: settles_ready_enqueue ids_claim_next settles_ready_checkpoint settles_ready_reconcile
      reconcile_settlement_jobs_def claim_specific_def renew_job_lease_def release_worker_leases_def Let_def ids_update\<close>)
  then show ?thesis using assms(2-5) by (simp add: settles_ready_def)
qed

definition demo_claimed :: outbox_db where
  "demo_claimed =
     demo_outbox\<lparr>outbox := [claim_job 1 120000001 ''a'' 1 (new_job ''j1'' None ''m1'' (Some ''s1'') ''pipeline'' ''pipeline'' ''h1'' [] 0)]\<rparr>"

lemma demo_claimed_ok: "outbox_ok hash demo_claimed"
  by (simp add: outbox_ok_def demo_claimed_def demo_outbox_def claim_job_def new_job_def job_ok_def settled_message_def
      effect_rows_def ob_terminal_def)

theorem settlement_waits_for_effects_witness:
  "ob_terminal (ob_status (succeeded_job 2 JNull (claim_job 1 120000001 ''a'' 1 (new_job ''j1'' None ''m1'' (Some ''s1'') ''pipeline'' ''pipeline'' ''h1'' [] 0))))"
proof (rule settlement_waits_for_effects)
  let ?e = "Oe_success 2 ''j1'' ''a'' JNull []"
  show "ob_atomic ?e" by simp
  show "settlement_job demo_hash ''m1'' 2 \<in> set (outbox (ob_step demo_hash demo_str demo_settings ?e demo_claimed))"
    and "succeeded_job 2 JNull (claim_job 1 120000001 ''a'' 1 (new_job ''j1'' None ''m1'' (Some ''s1'') ''pipeline'' ''pipeline'' ''h1'' [] 0))
      \<in> set (effect_rows (ob_message_id (settlement_job demo_hash ''m1'' 2)) (ob_step demo_hash demo_str demo_settings ?e demo_claimed))"
    by code_simp+
  show "ob_job_kind (settlement_job demo_hash ''m1'' 2) = ''settlement''"
    and "ob_id (settlement_job demo_hash ''m1'' 2) \<notin> ob_id ` set (outbox demo_claimed)"
    by code_simp+
qed

section \<open>Admission\<close>

lemma key_row_later:
  assumes "outbox_ok hash db'" and "ob_grows db db'" and "key_row mid layer h db = Some r"
  shows "\<exists>r'. key_row mid layer h db' = Some r' \<and> ob_id r' = ob_id r"
proof -
  have r: "r \<in> set (outbox db)" "ob_key r = (mid, layer, h)"
    using assms(3) unfolding key_row_def by (auto dest: find_by_SomeD)
  then obtain r' where r': "r' \<in> set (outbox db')" "ob_ident r' = ob_ident r"
    using assms(2) unfolding ob_grows_def by (metis imageE imageI subsetD)
  then have "key_row mid layer h db' = Some r'"
    unfolding key_row_def using ob_identD(2) [OF r'(2)] r(2) by (intro find_by_unique [OF outbox_okD(2) [OF assms(1)]]) simp_all
  then show ?thesis using ob_identD(1) [OF r'(2)] by blast
qed

lemma enqueued_key:
  assumes "outbox_ok hash db" and "enqueue_job row_id now mid kind layer h payload parent scope db = (Inr i, db1)"
    and "kind \<noteq> ''settlement''" and "layer \<noteq> ''settlement''"
  shows "\<exists>r. key_row mid layer h db1 = Some r \<and> ob_id r = i"
proof (cases "insert_job (new_job row_id parent mid scope kind layer h payload now) db")
  case None
  then show ?thesis using assms(2) by (auto simp: enqueue_job_def split: option.splits)
next
  case (Some db')
  let ?r = "new_job row_id parent mid scope kind layer h payload now"
  have db1: "db1 = db'" "i = row_id" using Some assms(2) by (auto simp: enqueue_job_def)
  have "outbox_ok hash db1"
    using ob_sound_enqueue [OF assms(3,4), of hash db row_id now mid h payload parent scope] assms(1,2) by (simp add: ob_sound_def)
  then have "key_row mid layer h db1 = Some ?r"
    unfolding key_row_def using insert_job_SomeD(1) [OF Some] db1
    by (intro find_by_unique [OF outbox_okD(2)]) (simp_all add: new_job_def ob_key_def)
  then show ?thesis using db1 by (simp add: new_job_def)
qed

text \<open>
  Admission is idempotent: once a job was admitted under its message, layer and candidate digest, admitting it
  again, after whatever other sessions committed and with whatever identifier and payload, gives the same job id and
  changes nothing. The caller that retries after a crash cannot make a second job.
\<close>

theorem admission_is_idempotent:
  assumes "outbox_ok hash db" and "enqueue_job row_id now mid kind layer h payload parent scope db = (Inr i, db1)"
    and "kind \<noteq> ''settlement''" and "layer \<noteq> ''settlement''" and "list_all ob_good es"
    and "db2 = run_steps (ob_step hash str_of cfg) es db1"
  shows "enqueue_job row_id' now' mid kind' layer h payload' parent' scope' db2 = (Inr i, db2)"
proof -
  obtain r where r: "key_row mid layer h db1 = Some r" "ob_id r = i" using enqueued_key [OF assms(1-4)] by blast
  have "outbox_ok hash db1"
    using ob_sound_enqueue [OF assms(3,4), of hash db row_id now mid h payload parent scope] assms(1,2) by (simp add: ob_sound_def)
  then have 2: "outbox_ok hash db2" "ob_grows db1 db2" using outbox_run_sound assms(5,6) by simp_all
  obtain r2 where r2: "key_row mid layer h db2 = Some r2" "ob_id r2 = i" using key_row_later [OF 2 r(1)] r(2) by blast
  have "ob_key (new_job row_id' parent' mid scope' kind' layer h payload' now') = (mid, layer, h)"
    by (simp add: new_job_def ob_key_def)
  moreover have "(mid, layer, h) \<in> ob_key ` set (outbox db2)"
    using key_row_None [of mid layer h db2] r2(1) by simp
  ultimately have "insert_job (new_job row_id' parent' mid scope' kind' layer h payload' now') db2 = None"
    unfolding insert_job_def by simp
  then show ?thesis using r2 by (simp add: enqueue_job_def)
qed

theorem admission_is_idempotent_witness:
  "enqueue_job ''j9'' 9 ''m1'' ''candidate'' ''L3:graph'' ''h2'' [] None None
     (run_steps (ob_step demo_hash demo_str demo_settings) [Oe_claim 3 ''b'', Oe_release 4 ''b'']
        (snd (enqueue_job ''j2'' 1 ''m1'' ''candidate'' ''L3:graph'' ''h2'' [] (Some ''j1'') None demo_outbox)))
   = (Inr ''j2'',
      run_steps (ob_step demo_hash demo_str demo_settings) [Oe_claim 3 ''b'', Oe_release 4 ''b'']
        (snd (enqueue_job ''j2'' 1 ''m1'' ''candidate'' ''L3:graph'' ''h2'' [] (Some ''j1'') None demo_outbox)))"
proof (rule admission_is_idempotent [OF demo_outbox_ok _ _ _ _ refl])
  show "enqueue_job ''j2'' 1 ''m1'' ''candidate'' ''L3:graph'' ''h2'' [] (Some ''j1'') None demo_outbox
    = (Inr ''j2'', snd (enqueue_job ''j2'' 1 ''m1'' ''candidate'' ''L3:graph'' ''h2'' [] (Some ''j1'') None demo_outbox))"
    by code_simp
qed simp_all

section \<open>Contexts\<close>

text \<open>
  A context survives the outbox: the payload of a job gives back the context it was admitted with, exactly when the
  context names a workspace and at least one readable level. A context without a readable level comes back with all of them.
\<close>

theorem context_round_trip:
  "context_from_payload str_of (context_payload ctx) = Some ctx
     \<longleftrightarrow> mc_workspace_id ctx \<noteq> [] \<and> mc_allowed_levels ctx \<noteq> []"
proof -
  have "context_from_payload str_of (context_payload ctx) =
      Some (ctx\<lparr>mc_workspace_id := if mc_workspace_id ctx = [] then ''default'' else mc_workspace_id ctx,
                mc_allowed_levels := if mc_allowed_levels ctx = [] then default_levels else mc_allowed_levels ctx\<rparr>)"
    by (cases ctx) (simp add: context_from_payload_def context_payload_def json_get_def dict_get_def json_or_def json_str_def
        json_tuple_def json_truthy_def default_levels_def)
  then show ?thesis by (cases ctx) (auto simp: default_levels_def)
qed

section \<open>Retries\<close>

lemma find_job_update:
  assumes "\<And>r. ob_id (f r) = ob_id r" and "find_job jid db = Some r"
  shows "find_job jid (update_jobs P f db) = Some (if P r then f r else r)"
  using assms(2) by (simp add: find_job_def update_jobs_def find_by_update_where assms(1))

lemma flush_failed: "flush_job row (failed_job cfg now err row) row = failed_job cfg now err row"
  by (simp add: flush_job_def failed_job_def Let_def orm_set_def)

lemma find_job_insert: "insert_job x db = Some db' \<Longrightarrow> find_job jid db = Some r \<Longrightarrow> find_job jid db' = Some r"
  unfolding find_job_def using insert_job_SomeD(1) [of x db db'] by (simp add: find_by_append)

lemma settle_if_ready_total:
  assumes "ob_id (settlement_job hash mid now) \<notin> ob_id ` set (outbox db)"
  shows "\<exists>x db'. enqueue_settlement_if_ready hash mid now db = Inr (x, db')
     \<and> (\<forall>jid r. find_job jid db = Some r \<longrightarrow> find_job jid db' = Some r)"
proof (cases "key_row mid ''settlement'' (settlement_hash hash mid) db")
  case None
  then have "ob_key (settlement_job hash mid now) \<notin> ob_key ` set (outbox db)"
    by (simp add: key_row_None settlement_job_def new_job_def ob_key_def)
  then have "insert_job (settlement_job hash mid now) db = Some (db\<lparr>outbox := outbox db @ [settlement_job hash mid now]\<rparr>)"
    using assms unfolding insert_job_def find_job_None by simp
  then show ?thesis
    using None find_job_insert [of "settlement_job hash mid now" db] by (simp add: enqueue_settlement_if_ready_def)
next
  case (Some r)
  then show ?thesis by (simp add: enqueue_settlement_if_ready_def)
qed

text \<open>One attempt that fails: the job is claimed and the failure acknowledged.\<close>

definition failing_attempt ::
  "(json \<Rightarrow> string) \<Rightarrow> outbox_settings \<Rightarrow> string \<Rightarrow> string \<Rightarrow> string \<Rightarrow> time \<Rightarrow> outbox_db \<Rightarrow> outbox_db" where
  "failing_attempt hash cfg jid worker err now db =
     snd (finish_failure hash cfg now jid worker err id (snd (claim_specific cfg now jid worker db)))"

lemma failing_attempt_row:
  assumes "find_job jid db = Some r" and "ob_due now r"
    and "ob_id (settlement_job hash (ob_message_id r) now) \<notin> ob_id ` set (outbox db)"
  shows "find_job jid (failing_attempt hash cfg jid worker err now db) =
     Some (failed_job cfg now err (claim_job now (lease_until now (os_lease_s cfg)) worker (ob_attempts r + 1) r))"
    and "ob_attempts r + 1 < os_max_attempts cfg \<Longrightarrow>
         ob_id ` set (outbox (failing_attempt hash cfg jid worker err now db)) = ob_id ` set (outbox db)"
proof -
  let ?row = "claim_job now (lease_until now (os_lease_s cfg)) worker (ob_attempts r + 1) r"
  let ?a = "failed_job cfg now err ?row"
  define db1 where "db1 = snd (claim_specific cfg now jid worker db)"
  define db2 where "db2 = update_jobs (\<lambda>r. ob_id r = jid) (flush_job ?row ?a) db1"
  have jid: "ob_id r = jid" using find_jobD [OF assms(1)] by blast
  have row: "find_job jid db1 = Some ?row"
    unfolding db1_def claim_specific_def Let_def snd_conv
    using find_job_update [OF _ assms(1), where P = "\<lambda>r. ob_id r = jid \<and> ob_due now r"] assms(2) jid by simp
  have ids: "ob_id ` set (outbox db2) = ob_id ` set (outbox db)"
    by (simp add: db2_def db1_def claim_specific_def Let_def ids_update)
  have found: "find_job jid db2 = Some ?a"
    unfolding db2_def using find_job_update [OF _ row, of "flush_job ?row ?a" "\<lambda>r. ob_id r = jid"] jid
    by (simp add: flush_failed)
  obtain x db3 where settle: "enqueue_settlement_if_ready hash (ob_message_id r) now db2 = Inr (x, db3)"
    "find_job jid db3 = Some ?a"
    using settle_if_ready_total [of hash "ob_message_id r" now db2] assms(3) ids found by auto
  have rowf: "ob_status ?row = Ob_processing" "ob_lease_owner ?row = Some worker" "ob_id ?row = jid"
    "ob_message_id ?row = ob_message_id r" "ob_status ?a = Ob_quarantined \<longleftrightarrow> os_max_attempts cfg \<le> ob_attempts r + 1"
    using jid by (simp_all add: claim_job_def failed_job_def Let_def)
  have step: "failing_attempt hash cfg jid worker err now db = (if os_max_attempts cfg \<le> ob_attempts r + 1 then db3 else db2)"
    using row settle(1) rowf
    by (auto simp: failing_attempt_def finish_failure_def db1_def [symmetric] Let_def flush_row_def db2_def [symmetric])
  show "find_job jid (failing_attempt hash cfg jid worker err now db) = Some ?a"
    using step found settle(2) by simp
  show "ob_id ` set (outbox (failing_attempt hash cfg jid worker err now db)) = ob_id ` set (outbox db)"
    if "ob_attempts r + 1 < os_max_attempts cfg"
    using step that ids by simp
qed

fun failing_attempts ::
  "(json \<Rightarrow> string) \<Rightarrow> outbox_settings \<Rightarrow> string \<Rightarrow> string \<Rightarrow> string \<Rightarrow> (nat \<Rightarrow> time) \<Rightarrow> nat \<Rightarrow> outbox_db \<Rightarrow> outbox_db" where
  "failing_attempts hash cfg jid worker err clock 0 db = db"
| "failing_attempts hash cfg jid worker err clock (Suc n) db =
     failing_attempt hash cfg jid worker err (clock n) (failing_attempts hash cfg jid worker err clock n db)"

lemma failing_attempts_row:
  assumes "find_job jid db = Some r" and "ob_status r = Ob_pending" and "ob_attempts r = 0"
    and "\<And>n. clock n + retry_delay cfg (int n + 1) \<le> clock (Suc n)"
    and "ob_id (settlement_job hash (ob_message_id r) 0) \<notin> ob_id ` set (outbox db)" and "int n \<le> os_max_attempts cfg"
  shows "\<exists>q. find_job jid (failing_attempts hash cfg jid worker err clock n db) = Some q \<and> ob_attempts q = int n
     \<and> ob_message_id q = ob_message_id r
     \<and> (int n < os_max_attempts cfg \<longrightarrow> ob_due (clock n) q \<and> \<not> ob_terminal (ob_status q)
          \<and> ob_id ` set (outbox (failing_attempts hash cfg jid worker err clock n db)) = ob_id ` set (outbox db))
     \<and> (0 < n \<longrightarrow> os_max_attempts cfg \<le> int n \<longrightarrow> ob_status q = Ob_quarantined)"
  using assms(6)
proof (induction n)
  case 0
  then show ?case using assms(1-3) by (simp add: ob_due_def ob_terminal_def)
next
  case (Suc n)
  let ?db = "failing_attempts hash cfg jid worker err clock n db"
  obtain q where q: "find_job jid ?db = Some q" "ob_attempts q = int n" "ob_message_id q = ob_message_id r" "ob_due (clock n) q"
    "ob_id ` set (outbox ?db) = ob_id ` set (outbox db)"
    using Suc by auto
  have fresh: "ob_id (settlement_job hash (ob_message_id q) (clock n)) \<notin> ob_id ` set (outbox ?db)"
    using assms(5) q(3,5) by (simp add: settlement_job_def new_job_def)
  let ?row = "claim_job (clock n) (lease_until (clock n) (os_lease_s cfg)) worker (ob_attempts q + 1) q"
  let ?a = "failed_job cfg (clock n) err ?row"
  have a: "find_job jid (failing_attempt hash cfg jid worker err (clock n) ?db) = Some ?a"
    by (rule failing_attempt_row(1) [OF q(1,4) fresh])
  have ids: "ob_id ` set (outbox (failing_attempt hash cfg jid worker err (clock n) ?db)) = ob_id ` set (outbox db)"
    if "int (Suc n) < os_max_attempts cfg"
    using failing_attempt_row(2) [OF q(1,4) fresh] q(2,5) that by simp
  have "ob_attempts ?a = int (Suc n)" "ob_message_id ?a = ob_message_id r"
    "os_max_attempts cfg \<le> int (Suc n) \<Longrightarrow> ob_status ?a = Ob_quarantined"
    "int (Suc n) < os_max_attempts cfg \<Longrightarrow> ob_due (clock (Suc n)) ?a \<and> \<not> ob_terminal (ob_status ?a)"
    using q(2,3) assms(4) [of n]
    by (simp_all add: failed_job_def claim_job_def Let_def ob_due_def ob_terminal_def add.commute)
  then show ?case using a ids by simp
qed

text \<open>
  Retries are bounded: a job whose every attempt fails, with attempts spaced by at least the back-off, is quarantined by
  the attempt with number \<open>outbox_max_attempts\<close> and by no earlier one, and counts its attempts exactly.
\<close>

theorem failing_job_is_quarantined:
  assumes "find_job jid db = Some r" and "ob_status r = Ob_pending" and "ob_attempts r = 0"
    and "\<And>n. clock n + retry_delay cfg (int n + 1) \<le> clock (Suc n)"
    and "ob_id (settlement_job hash (ob_message_id r) 0) \<notin> ob_id ` set (outbox db)"
    and "os_max_attempts cfg = int (Suc m)" and "n \<le> Suc m"
  shows "\<exists>q. find_job jid (failing_attempts hash cfg jid worker err clock n db) = Some q \<and> ob_attempts q = int n
     \<and> (ob_status q = Ob_quarantined \<longleftrightarrow> n = Suc m) \<and> (ob_terminal (ob_status q) \<longleftrightarrow> n = Suc m)"
  using failing_attempts_row [OF assms(1-5), of n worker err] assms(6,7)
  by (cases "n = Suc m") (auto simp: ob_terminal_def)

theorem failing_job_is_quarantined_witness:
  "\<exists>q. find_job ''j1'' (failing_attempts demo_hash demo_settings ''j1'' ''a'' ''boom'' (\<lambda>n. seconds (5 * 2 ^ n)) 5 demo_outbox) = Some q
     \<and> ob_attempts q = int 5 \<and> (ob_status q = Ob_quarantined \<longleftrightarrow> (5::nat) = Suc 4) \<and> (ob_terminal (ob_status q) \<longleftrightarrow> (5::nat) = Suc 4)"
proof (rule failing_job_is_quarantined)
  let ?r = "new_job ''j1'' None ''m1'' (Some ''s1'') ''pipeline'' ''pipeline'' ''h1'' [] 0"
  show "find_job ''j1'' demo_outbox = Some ?r" "ob_status ?r = Ob_pending" "ob_attempts ?r = 0"
    by (simp_all add: find_job_def demo_outbox_def new_job_def)
  show "seconds (5 * 2 ^ n) + retry_delay demo_settings (int n + 1) \<le> seconds (5 * 2 ^ Suc n)" for n
    by (simp add: retry_delay_def demo_settings_def seconds_def)
  show "ob_id (settlement_job demo_hash (ob_message_id ?r) 0) \<notin> ob_id ` set (outbox demo_outbox)"
    by (simp add: settlement_job_def new_job_def demo_outbox_def)
  show "os_max_attempts demo_settings = int (Suc 4)" by (simp add: demo_settings_def)
qed simp

section \<open>Where the guards are not enough\<close>

text \<open>
  The failed acknowledgement is no compare-and-set: it checks the lease on a row it has loaded and then writes the row by
  its key. If another worker took the job over in between and even finished it, the write reopens the
  finished job: it is due again, and its work is done once more.
\<close>

theorem late_failure_reopens_finished_job:
  assumes "find_job jid db = Some row" and "ob_status row = Ob_processing" and "ob_lease_owner row = Some worker"
    and "ob_attempts row < os_max_attempts cfg"
    and "find_job jid (between db) = Some finished" and "ob_status finished = Ob_succeeded"
  shows "\<exists>r. find_job jid (snd (finish_failure hash cfg now jid worker err between db)) = Some r \<and> ob_status r = Ob_retry"
proof -
  let ?a = "failed_job cfg now err row"
  have jid: "ob_id row = jid" "ob_id finished = jid" using find_jobD assms(1,5) by blast+
  have a: "ob_status ?a = Ob_retry" using assms(4) by (simp add: failed_job_def Let_def)
  have "find_job jid (update_jobs (\<lambda>r. ob_id r = jid) (flush_job row ?a) (between db)) = Some (flush_job row ?a finished)"
    using find_job_update [OF _ assms(5), of "flush_job row ?a" "\<lambda>r. ob_id r = jid"] jid by simp
  then show ?thesis
    using assms(1-3,5) a jid by (simp add: finish_failure_def Let_def flush_row_def flush_job_def orm_set_def)
qed

theorem late_failure_reopens_finished_job_witness:
  "\<exists>r. find_job ''j1'' (ob_step demo_hash demo_str demo_settings
        (Oe_failure 130000002 ''j1'' ''a'' ''timeout''
          [Oe_claim 130000000 ''b'', Oe_success 130000001 ''j1'' ''b'' JNull []]) demo_claimed) = Some r
     \<and> ob_status r = Ob_retry"
  unfolding ob_step.simps
proof (rule late_failure_reopens_finished_job)
  let ?row = "claim_job 1 120000001 ''a'' 1 (new_job ''j1'' None ''m1'' (Some ''s1'') ''pipeline'' ''pipeline'' ''h1'' [] 0)"
  let ?between = "fold id (map (ob_step demo_hash demo_str demo_settings)
    [Oe_claim 130000000 ''b'', Oe_success 130000001 ''j1'' ''b'' JNull []])"
  show "find_job ''j1'' demo_claimed = Some ?row" "ob_status ?row = Ob_processing" "ob_lease_owner ?row = Some ''a''"
    "ob_attempts ?row < os_max_attempts demo_settings"
    by (simp_all add: find_job_def demo_claimed_def demo_outbox_def claim_job_def new_job_def demo_settings_def)
  show "find_job ''j1'' (?between demo_claimed)
    = Some (succeeded_job 130000001 JNull (claim_job 130000000 250000000 ''b'' 2 (expire_job 130000000 ?row)))"
    by code_simp
  show "ob_status (succeeded_job 130000001 JNull (claim_job 130000000 250000000 ''b'' 2 (expire_job 130000000 ?row))) = Ob_succeeded"
    by (simp add: succeeded_job_def)
qed

definition crashing_claims :: "outbox_settings \<Rightarrow> string \<Rightarrow> (nat \<Rightarrow> time) \<Rightarrow> nat \<Rightarrow> outbox_db \<Rightarrow> outbox_db" where
  "crashing_claims cfg worker clock n db = fold (\<lambda>i d. snd (claim_next_job cfg (clock i) worker d)) [0..<n] db"

lemma claim_single:
  assumes "outbox db = [r]" and "ob_due now r \<or> ob_status r = Ob_processing \<and> sql_le (ob_lease_expires_at r) now"
  shows "\<exists>r'. outbox (snd (claim_next_job cfg now worker db)) = [r'] \<and> ob_status r' = Ob_processing
     \<and> ob_lease_expires_at r' = Some (lease_until now (os_lease_s cfg)) \<and> ob_attempts r' = ob_attempts r + 1"
proof -
  define r1 where "r1 = (if ob_status r = Ob_processing \<and> sql_le (ob_lease_expires_at r) now then expire_job now r else r)"
  have due: "ob_due now r1" and "ob_attempts r1 = ob_attempts r"
    using assms(2) by (auto simp: r1_def ob_due_def expire_job_def)
  moreover have "first_by ob_order [r1] = Some r1" by (simp add: first_by_def)
  ultimately show ?thesis
    using assms(1)
    by (simp add: claim_next_job_def Let_def update_jobs_def r1_def [symmetric] claim_job_def)
qed

text \<open>
  Only an acknowledged failure counts towards the quarantine. A job that takes its worker down with it is swept when its lease has run
  out and claimed again, without end: after any number of such rounds it is still being processed, however many attempts it has
  used, so \<open>outbox_max_attempts\<close> does not bound them.
\<close>

theorem crashing_job_is_never_quarantined:
  assumes "outbox db = [r]" and "ob_due (clock 0) r" and "ob_attempts r = 0"
    and "\<And>n. lease_until (clock n) (os_lease_s cfg) \<le> clock (Suc n)"
  shows "\<exists>q. outbox (crashing_claims cfg worker clock (Suc n) db) = [q] \<and> ob_status q = Ob_processing
     \<and> ob_attempts q = int (Suc n)"
proof -
  have "\<exists>q. outbox (crashing_claims cfg worker clock (Suc n) db) = [q] \<and> ob_status q = Ob_processing
     \<and> ob_lease_expires_at q = Some (lease_until (clock n) (os_lease_s cfg)) \<and> ob_attempts q = int (Suc n)"
  proof (induction n)
    case 0
    then show ?case using claim_single [OF assms(1) disjI1 [OF assms(2)], of cfg worker] assms(3) by (simp add: crashing_claims_def)
  next
    case (Suc n)
    then obtain q where q: "outbox (crashing_claims cfg worker clock (Suc n) db) = [q]" "ob_status q = Ob_processing"
      "ob_lease_expires_at q = Some (lease_until (clock n) (os_lease_s cfg))" "ob_attempts q = int (Suc n)" by blast
    have "ob_status q = Ob_processing \<and> sql_le (ob_lease_expires_at q) (clock (Suc n))" using q(2,3) assms(4) by simp
    then show ?case
      using claim_single [OF q(1) disjI2, of "clock (Suc n)" cfg worker] q(4) by (simp add: crashing_claims_def)
  qed
  then show ?thesis by blast
qed

theorem crashing_job_is_never_quarantined_witness:
  "\<exists>q. outbox (crashing_claims demo_settings ''a'' (\<lambda>n. seconds (120 * int n)) (Suc 9) demo_outbox) = [q]
     \<and> ob_status q = Ob_processing \<and> ob_attempts q = int (Suc 9)"
proof (rule crashing_job_is_never_quarantined)
  show "outbox demo_outbox = [new_job ''j1'' None ''m1'' (Some ''s1'') ''pipeline'' ''pipeline'' ''h1'' [] 0]"
    by (simp add: demo_outbox_def)
  show "lease_until (seconds (120 * int n)) (os_lease_s demo_settings) \<le> seconds (120 * int (Suc n))" for n
    by (simp add: lease_until_def seconds_def demo_settings_def)
qed (simp_all add: new_job_def ob_due_def)

section \<open>The lane\<close>

lemma first_by_Nil [simp]: "first_by key [] = None"
  by simp

lemma first_by_key_Some:
  assumes "r \<in> set t" and "\<And>x. x \<in> set t \<Longrightarrow> x \<noteq> r \<Longrightarrow> key r < key x"
  shows "first_by key t = Some r"
proof (cases "first_by key t")
  case (Some x)
  then show ?thesis using assms first_by_SomeD [OF Some] by (metis leD)
qed (use assms(1) in auto)

text \<open>
  Ordered effects: of the procedural jobs of a scope that are not finished, the lane lets exactly the oldest run. A job that is
  younger than an unfinished one is deferred, whatever became of the worker of the older one.
\<close>

theorem lane_admits_oldest:
  assumes "outbox_ok hash db" and "find_job jid db = Some r" and "ob_scope_key r = Some scope" and "ob_layer r = ''L2:procedural''"
  shows "lane_decision now scope jid db = None \<longleftrightarrow>
    \<not> ob_terminal (ob_status r)
    \<and> (\<forall>x\<in>set (outbox db). ob_scope_key x = Some scope \<longrightarrow> ob_layer x = ''L2:procedural'' \<longrightarrow> ob_order x < ob_order r \<longrightarrow>
         ob_terminal (ob_status x))"
proof -
  let ?t = "filter (\<lambda>r. ob_scope_key r = Some scope \<and> ob_layer r = ''L2:procedural'' \<and> \<not> ob_terminal (ob_status r)) (outbox db)"
  have r: "r \<in> set (outbox db)" "ob_id r = jid" using find_jobD [OF assms(2)] by blast+
  have oldest: "lane_decision now scope jid db = None \<longleftrightarrow> first_by ob_order ?t = Some r"
  proof -
    have "x = r" if "first_by ob_order ?t = Some x" "ob_id x = jid" for x
      using same_id_same_row [OF assms(1) _ r(1)] first_by_SomeD(1) [OF that(1)] that(2) r(2) by simp
    moreover have "lane_decision now scope jid db = None \<longleftrightarrow> (\<exists>x. first_by ob_order ?t = Some x \<and> ob_id x = jid)"
      by (cases "first_by ob_order ?t") (simp_all add: lane_decision_def oldest_nonterminal_def Let_def del: first_by_None)
    ultimately show ?thesis using r(2) by blast
  qed
  have order: "ob_order x < ob_order r \<or> ob_order r < ob_order x" if "x \<in> set (outbox db)" "x \<noteq> r" for x
  proof -
    have "ob_order x \<noteq> ob_order r" using same_id_same_row [OF assms(1) that(1) r(1)] that(2) by (auto simp: ob_order_def)
    then show ?thesis by (simp add: neq_iff)
  qed
  show ?thesis
  proof (cases "first_by ob_order ?t = Some r")
    case True
    have "r \<in> set ?t" "\<forall>x\<in>set ?t. ob_order r \<le> ob_order x" using first_by_SomeD [OF True] by blast+
    then show ?thesis using oldest True by (auto simp: not_less [symmetric])
  next
    case False
    then have "\<not> (r \<in> set ?t \<and> (\<forall>x\<in>set ?t. x \<noteq> r \<longrightarrow> ob_order r < ob_order x))"
      using first_by_key_Some [of r ?t ob_order] by blast
    then show ?thesis using oldest False order r assms(3,4) by auto
  qed
qed

theorem lane_admits_oldest_witness:
  "lane_decision 5 ''s1'' ''c1''
     (demo_outbox\<lparr>outbox := [new_job ''c2'' None ''m1'' (Some ''s1'') ''candidate'' ''L2:procedural'' ''h2'' [] 3,
                           new_job ''c1'' None ''m1'' (Some ''s1'') ''candidate'' ''L2:procedural'' ''h1'' [] 2]\<rparr>) = None"
proof -
  let ?db = "demo_outbox\<lparr>outbox := [new_job ''c2'' None ''m1'' (Some ''s1'') ''candidate'' ''L2:procedural'' ''h2'' [] 3,
                           new_job ''c1'' None ''m1'' (Some ''s1'') ''candidate'' ''L2:procedural'' ''h1'' [] 2]\<rparr>"
  let ?r = "new_job ''c1'' None ''m1'' (Some ''s1'') ''candidate'' ''L2:procedural'' ''h1'' [] 2"
  have "outbox_ok demo_hash ?db"
    by (simp add: outbox_ok_def new_job_def job_ok_def settled_message_def ob_key_def)
  moreover have "find_job ''c1'' ?db = Some ?r" by (simp add: find_job_def new_job_def)
  ultimately show ?thesis
    using lane_admits_oldest [of demo_hash ?db "''c1''" ?r "''s1''" 5] by (simp add: new_job_def ob_terminal_def ob_order_def)
qed

section \<open>Replayed expansions\<close>

lemma child_key_later:
  assumes "outbox_ok hash db'" and "ob_grows db db'" and "ob_ident ` set rows \<subseteq> ob_ident ` set (outbox db')"
    and "(case key_row mid layer h db of Some r \<Rightarrow> ob_id r = i | None \<Rightarrow> \<exists>r\<in>set rows. ob_key r = (mid, layer, h) \<and> ob_id r = i)"
  shows "\<exists>r. key_row mid layer h db' = Some r \<and> ob_id r = i"
proof (cases "key_row mid layer h db")
  case None
  then obtain x where x: "x \<in> set rows" "ob_key x = (mid, layer, h)" "ob_id x = i" using assms(4) by auto
  then obtain r where r': "r \<in> set (outbox db')" "ob_ident r = ob_ident x" using assms(3) by (metis imageE imageI subsetD)
  then have r: "r \<in> set (outbox db')" "ob_key r = (mid, layer, h)" "ob_id r = i" using ob_identD(1,2) [OF r'(2)] x by simp_all
  then have "key_row mid layer h db' = Some r"
    unfolding key_row_def by (intro find_by_unique [OF outbox_okD(2) [OF assms(1)]])
  then show ?thesis using r(3) by blast
next
  case (Some r)
  then show ?thesis using key_row_later [OF assms(1,2) Some] assms(4) by simp
qed

lemma children_replayed:
  assumes "outbox_ok hash' db'" and "ob_grows db db'" and "ob_message_id pipeline' = ob_message_id pipeline"
  shows "checkpoint_children hash str_of ids now pipeline ctx db cs = Inr (rows, child_ids) \<Longrightarrow>
    ob_ident ` set rows \<subseteq> ob_ident ` set (outbox db') \<Longrightarrow>
    checkpoint_children hash str_of ids' now' pipeline' ctx' db' cs = Inr ([], child_ids)"
proof (induction cs arbitrary: rows child_ids)
  case (Cons c cs)
  obtain candidate where c: "c = JObj candidate" using Cons.prems(1) by (cases c) auto
  obtain name extractor where x: "dict_get ''extractor'' candidate = Some name" "extractor_of (json_str str_of name) = Some extractor"
    using Cons.prems(1) c by (auto split: option.splits)
  show ?case
  proof (cases "\<exists>d ds. json_get ''data'' candidate = JObj (d # ds)")
    case False
    then have skip: "checkpoint_children hash str_of i n p cx b (c # cs) = checkpoint_children hash str_of i n p cx b cs" for i n p cx b
      using c x by (simp split: json.splits list.splits)
    then show ?thesis using Cons by simp
  next
    case True
    then obtain d ds where data: "json_get ''data'' candidate = JObj (d # ds)" by blast
    let ?h = "candidate_hash_of hash extractor (d # ds)" and ?layer = "layer_by_extractor extractor"
    obtain rows' rest where rest: "checkpoint_children hash str_of ids now pipeline ctx db cs = Inr (rows', rest)"
      using Cons.prems(1) c x data by (auto simp: Let_def split: sum.splits)
    obtain i where i: "child_ids = i # rest" "set rows' \<subseteq> set rows"
      "case key_row (ob_message_id pipeline) ?layer ?h db of
         Some r \<Rightarrow> ob_id r = i
       | None \<Rightarrow> \<exists>r\<in>set rows. ob_key r = (ob_message_id pipeline, ?layer, ?h) \<and> ob_id r = i"
    proof (cases "key_row (ob_message_id pipeline) ?layer ?h db")
      case None
      let ?r = "new_job (''mout_'' @ ids (length cs)) (Some (ob_id pipeline)) (ob_message_id pipeline) (ob_scope_key pipeline)
        ''candidate'' ?layer ?h (candidate_payload ctx extractor (d # ds)) now"
      have new: "rows = ?r # rows'" "child_ids = (''mout_'' @ ids (length cs)) # rest"
        using Cons.prems(1) c x data rest None by (simp_all add: Let_def)
      have "ob_key ?r = (ob_message_id pipeline, ?layer, ?h)" "ob_id ?r = ''mout_'' @ ids (length cs)"
        by (simp_all add: new_job_def ob_key_def)
      then have "\<exists>r\<in>set rows. ob_key r = (ob_message_id pipeline, ?layer, ?h) \<and> ob_id r = ''mout_'' @ ids (length cs)"
        using new(1) by auto
      then show ?thesis using new None by (intro that [OF new(2)]) auto
    next
      case (Some r)
      then show ?thesis using Cons.prems(1) c x data rest by (intro that [of "ob_id r"]) (simp_all add: Let_def)
    qed
    obtain r where "key_row (ob_message_id pipeline) ?layer ?h db' = Some r" "ob_id r = i"
      using child_key_later [OF assms(1,2) Cons.prems(2) i(3)] by blast
    moreover have "checkpoint_children hash str_of ids' now' pipeline' ctx' db' cs = Inr ([], rest)"
      using Cons.IH [OF rest] Cons.prems(2) i(2) by blast
    ultimately show ?thesis using c x data i(1) assms(3) by (simp add: Let_def)
  qed
qed simp

definition pipeline_selected :: "memory_outbox \<Rightarrow> memory_outbox \<Rightarrow> bool" where
  "pipeline_selected w r \<longleftrightarrow>
     ob_id r = ob_id w \<and> ob_status r = Ob_processing \<and> ob_lease_owner r = ob_lease_owner w \<and> ob_job_kind r = ''pipeline''"

lemma pipeline_found:
  assumes "outbox_ok hash db" and "p \<in> set (outbox db)" and "pipeline_selected w p"
  shows "find (pipeline_selected w) (outbox db) = Some p"
proof -
  obtain x where x: "find (pipeline_selected w) (outbox db) = Some x"
    using assms(2,3) by (cases "find (pipeline_selected w) (outbox db)") (auto simp: find_None_iff)
  then have "x \<in> set (outbox db)" "ob_id x = ob_id w" by (auto simp: find_Some_iff pipeline_selected_def)
  then have "x = p" using same_id_same_row [OF assms(1) _ assms(2)] assms(3) by (simp add: pipeline_selected_def)
  then show ?thesis using x by simp
qed

text \<open>What a committed expansion leaves behind.\<close>

lemma checkpoint_recorded:
  assumes "outbox_ok hash db"
    and "checkpoint_pipeline_candidates hash str_of ids now row ctx candidates db = (Inr child_ids, db1)"
    and "find_job (ob_id row) db1 = Some p1"
  obtains p chosen rows where "p \<in> set (outbox db)" and "pipeline_selected row p"
    and "checkpoint_children hash str_of ids now p ctx db chosen = Inr (rows, child_ids)"
    and "ob_ident ` set rows \<subseteq> ob_ident ` set (outbox db1)" and "durable_candidates (ob_result p1) = Some chosen"
proof -
  note unfolded = checkpoint_pipeline_candidates_def pipeline_selected_def [of row, symmetric]
  obtain p where p: "find (pipeline_selected row) (outbox db) = Some p"
    using assms(2) unfolding unfolded by (auto split: option.splits)
  have pm: "p \<in> set (outbox db)" "pipeline_selected row p" using p by (auto simp: find_Some_iff)
  define chosen where "chosen = (case durable_candidates (ob_result p) of Some l \<Rightarrow> l | None \<Rightarrow> candidates)"
  obtain rows db0 where c: "checkpoint_children hash str_of ids now p ctx db chosen = Inr (rows, child_ids)"
    "insert_jobs rows db = Some db0"
    and db1: "db1 = update_jobs (\<lambda>r. ob_id r = ob_id p)
      (\<lambda>r. r\<lparr>ob_result := JObj [(''extracted_candidates'', JList chosen), (''candidate_job_ids'', JList (map JStr child_ids))],
             ob_updated_at := now\<rparr>) db0"
    using assms(2) p unfolding unfolded by (auto simp: Let_def chosen_def [symmetric] split: option.splits sum.splits)
  note rows = insert_jobs_rows [OF c(2)]
  have "ob_ident ` set (outbox db0) \<subseteq> ob_ident ` set (outbox db1)"
    using ob_grows_update [of db0 "\<lambda>r. ob_id r = ob_id p"] unfolding db1 ob_grows_def by (simp add: ob_ident_def ob_key_def)
  then have kept: "ob_ident ` set rows \<subseteq> ob_ident ` set (outbox db1)" using rows by auto
  have id: "ob_id p = ob_id row" using pm(2) by (simp add: pipeline_selected_def)
  then have "find_job (ob_id row) db0 = Some p"
    using find_job_unique [OF outbox_okD(1) [OF assms(1)] pm(1)] by (simp add: find_job_def rows find_by_append)
  then have "durable_candidates (ob_result p1) = Some chosen"
    using assms(3) id find_job_update [of _ "ob_id row" db0 p "\<lambda>r. ob_id r = ob_id p"] unfolding db1
    by (auto simp: durable_candidates_def json_get_def dict_get_def)
  then show ?thesis using that pm c(1) kept by blast
qed

text \<open>
  A replayed expansion: after a pipeline job recorded its candidates and admitted their jobs, whoever takes the job over before
  it is acknowledged, and whatever it extracts then, gets the same child jobs in the same order and admits no further one. So
  the candidates of a turn are those of the first expansion that committed.
\<close>

theorem expansion_is_replayed:
  assumes "outbox_ok hash db"
    and "checkpoint_pipeline_candidates hash str_of ids now row ctx candidates db = (Inr child_ids, db1)"
    and "list_all ob_good es" and "db2 = run_steps (ob_step hash str_of cfg) es db1"
    and "find_job (ob_id row) db1 = Some p1" and "find_job (ob_id row) db2 = Some p2" and "ob_result p2 = ob_result p1"
    and "ob_id row2 = ob_id row" and "ob_status p2 = Ob_processing" and "ob_lease_owner p2 = ob_lease_owner row2"
  shows "\<exists>db3. checkpoint_pipeline_candidates hash str_of ids' now' row2 ctx' candidates' db2 = (Inr child_ids, db3)
     \<and> map ob_ident (outbox db3) = map ob_ident (outbox db2)"
proof -
  obtain p chosen rows where p: "p \<in> set (outbox db)" "pipeline_selected row p"
    and c: "checkpoint_children hash str_of ids now p ctx db chosen = Inr (rows, child_ids)"
    and kept: "ob_ident ` set rows \<subseteq> ob_ident ` set (outbox db1)" and durable: "durable_candidates (ob_result p1) = Some chosen"
    by (rule checkpoint_recorded [OF assms(1,2,5)])
  have ok: "outbox_ok hash db1" "ob_grows db db1"
    using ob_sound_checkpoint [of hash db str_of ids now row ctx candidates] assms(1,2) by (simp_all add: ob_sound_def)
  have ok2: "outbox_ok hash db2" "ob_grows db1 db2" using outbox_run_sound [OF ok(1) assms(3)] assms(4) by simp_all
  have grows2: "ob_grows db db2" and kept2: "ob_ident ` set rows \<subseteq> ob_ident ` set (outbox db2)"
    using ok(2) ok2(2) kept by (auto simp: ob_grows_def)
  have p2: "p2 \<in> set (outbox db2)" "ob_id p2 = ob_id row" using find_jobD [OF assms(6)] by blast+
  then have ident: "ob_ident p2 = ob_ident p"
    using ident_later [OF ok2(1) grows2 p(1)] p(2) by (simp add: pipeline_selected_def)
  have "pipeline_selected row2 p2"
    using assms(8-10) p2 ob_identD(3) [OF ident] p(2) by (simp add: pipeline_selected_def)
  then have sel: "find (pipeline_selected row2) (outbox db2) = Some p2" by (rule pipeline_found [OF ok2(1) p2(1)])
  have "checkpoint_children hash str_of ids' now' p2 ctx' db2 chosen = Inr ([], child_ids)"
    by (rule children_replayed [OF ok2(1) grows2 ob_identD(4) [OF ident] c kept2])
  then show ?thesis
    unfolding checkpoint_pipeline_candidates_def pipeline_selected_def [of row2, symmetric] sel
    by (simp add: durable assms(7) Let_def update_jobs_def map_update_where ob_ident_def ob_key_def)
qed

definition demo_context :: mem_context where
  "demo_context =
     \<lparr>mc_user_id = ''u1'', mc_workspace_id = ''default'', mc_chat_id = JStr ''c1'', mc_allowed_levels = [JStr ''public''],
      mc_confidentiality = JNull, mc_actor = JNull, mc_write_enabled = True, mc_scope_user_id = JNull,
      mc_message_id = JStr ''m1'', mc_effect_id = JNull\<rparr>"

definition demo_candidates :: "json list" where
  "demo_candidates = [JObj [(''extractor'', JStr ''graph''), (''data'', JObj [(''k'', JInt 1)])],
                      JObj [(''extractor'', JStr ''identity''), (''data'', JNull)]]"

definition demo_row :: memory_outbox where
  "demo_row = claim_job 1 120000001 ''a'' 1 (new_job ''j1'' None ''m1'' (Some ''s1'') ''pipeline'' ''pipeline'' ''h1'' [] 0)"

definition demo_expanded :: outbox_db where
  "demo_expanded =
     snd (checkpoint_pipeline_candidates demo_hash demo_str (\<lambda>n. ''x'') 2 demo_row demo_context demo_candidates demo_claimed)"

definition demo_taken_over :: outbox_db where
  "demo_taken_over = run_steps (ob_step demo_hash demo_str demo_settings) [Oe_claim 130000000 ''b''] demo_expanded"

theorem expansion_is_replayed_witness:
  "\<exists>db3. checkpoint_pipeline_candidates demo_hash demo_str (\<lambda>n. ''y'') 130000001 (demo_row\<lparr>ob_lease_owner := Some ''b''\<rparr>) demo_context []
       demo_taken_over = (Inr [''mout_x''], db3)
     \<and> map ob_ident (outbox db3) = map ob_ident (outbox demo_taken_over)"
proof (rule expansion_is_replayed [OF demo_claimed_ok])
  show "checkpoint_pipeline_candidates demo_hash demo_str (\<lambda>n. ''x'') 2 demo_row demo_context demo_candidates demo_claimed
      = (Inr [''mout_x''], demo_expanded)"
    by code_simp
  show "list_all ob_good [Oe_claim 130000000 ''b'']" by simp
  show "demo_taken_over = run_steps (ob_step demo_hash demo_str demo_settings) [Oe_claim 130000000 ''b''] demo_expanded"
    by (rule demo_taken_over_def)
  show "find_job (ob_id demo_row) demo_expanded = Some (hd (outbox demo_expanded))"
    and "find_job (ob_id demo_row) demo_taken_over = Some (hd (outbox demo_taken_over))"
    and "ob_result (hd (outbox demo_taken_over)) = ob_result (hd (outbox demo_expanded))"
    and "ob_status (hd (outbox demo_taken_over)) = Ob_processing"
    and "ob_lease_owner (hd (outbox demo_taken_over)) = ob_lease_owner (demo_row\<lparr>ob_lease_owner := Some ''b''\<rparr>)"
    by code_simp+
qed simp

section \<open>Leases\<close>

definition job_holder :: "string \<Rightarrow> outbox_db \<Rightarrow> time \<Rightarrow> string option" where
  "job_holder jid db t =
     (case find_job jid db of
        None \<Rightarrow> None
      | Some r \<Rightarrow> if ob_status r = Ob_processing \<and> sql_gt (ob_lease_expires_at r) t then ob_lease_owner r else None)"

text \<open>A worker that polls: it claims the next job and got this one.\<close>

definition job_claim :: "outbox_settings \<Rightarrow> string \<Rightarrow> string lease_request \<Rightarrow> outbox_db \<Rightarrow> bool \<times> outbox_db" where
  "job_claim cfg jid q db =
     (case q of (now, d, worker) \<Rightarrow>
        (fst (claim_next_job (cfg\<lparr>os_lease_s := d\<rparr>) now worker db) = Some jid,
         snd (claim_next_job (cfg\<lparr>os_lease_s := d\<rparr>) now worker db)))"

lemma claim_next_cases [consumes 1, case_names none some]:
  assumes "outbox_ok hash db"
  obtains (none) "fst (claim_next_job cfg now w db) = None"
      "\<And>j. find_job j (snd (claim_next_job cfg now w db)) =
         map_option (\<lambda>r. if ob_status r = Ob_processing \<and> sql_le (ob_lease_expires_at r) now then expire_job now r else r) (find_job j db)"
  | (some) row where "fst (claim_next_job cfg now w db) = Some (ob_id row)" and "ob_due now row"
      "\<And>j. j \<noteq> ob_id row \<Longrightarrow> find_job j (snd (claim_next_job cfg now w db)) =
         map_option (\<lambda>r. if ob_status r = Ob_processing \<and> sql_le (ob_lease_expires_at r) now then expire_job now r else r) (find_job j db)"
      "find_job (ob_id row) (snd (claim_next_job cfg now w db)) =
         Some (claim_job now (lease_until now (os_lease_s cfg)) w (ob_attempts row + 1) row)"
      "map_option (\<lambda>r. if ob_status r = Ob_processing \<and> sql_le (ob_lease_expires_at r) now then expire_job now r else r)
         (find_job (ob_id row) db) = Some row"
proof -
  let ?P = "\<lambda>r. ob_status r = Ob_processing \<and> sql_le (ob_lease_expires_at r) now"
  define db1 where "db1 = update_jobs ?P (expire_job now) db"
  have f1: "find_job j db1 = map_option (\<lambda>r. if ?P r then expire_job now r else r) (find_job j db)" for j
    unfolding db1_def find_job_def update_jobs_def by (simp add: find_by_update_where option.case_eq_if map_option_case)
  have "ob_sound hash db db1" unfolding db1_def by (rule ob_sound_update) (simp add: job_step_simps)
  then have ok1: "outbox_ok hash db1" using assms by (simp add: ob_sound_def)
  show ?thesis
  proof (cases "first_by ob_order (filter (ob_due now) (outbox db1))")
    case None
    then have "claim_next_job cfg now w db = (None, db1)"
      by (simp add: claim_next_job_def Let_def db1_def [symmetric] del: first_by_None)
    then show ?thesis using none f1 by simp
  next
    case (Some row)
    have row: "row \<in> set (outbox db1)" "ob_due now row" using first_by_SomeD(1) [OF Some] by auto
    let ?Q = "\<lambda>r. ob_id r = ob_id row \<and> ob_status r = ob_status row"
    let ?f = "claim_job now (lease_until now (os_lease_s cfg)) w (ob_attempts row + 1)"
    have "0 < affected ?Q (outbox db1)" using row(1) by (auto simp: affected_pos)
    then have step: "claim_next_job cfg now w db = (Some (ob_id row), update_jobs ?Q ?f db1)"
      using Some by (simp add: claim_next_job_def Let_def db1_def [symmetric])
    have "find_job (ob_id row) db1 = Some row" by (rule find_job_unique [OF outbox_okD(1) [OF ok1] row(1)])
    then have "find_job (ob_id row) (update_jobs ?Q ?f db1) = Some (?f row)" "map_option (\<lambda>r. if ?P r then expire_job now r else r) (find_job (ob_id row) db) = Some row"
      using find_job_update [of ?f "ob_id row" db1 row ?Q] f1 by simp_all
    moreover have "find_job j (update_jobs ?Q ?f db1) = find_job j db1" if "j \<noteq> ob_id row" for j
    proof (cases "find_job j db1")
      case None
      have "ob_id ` set (outbox (update_jobs ?Q ?f db1)) = ob_id ` set (outbox db1)" by (rule ids_update) simp
      then have "find_job j (update_jobs ?Q ?f db1) = None" using None unfolding find_job_None by simp
      then show ?thesis using None by simp
    next
      case (Some r)
      then show ?thesis using find_job_update [OF _ Some, of ?f ?Q] find_jobD [OF Some] that by simp
    qed
    ultimately show ?thesis using some [of row] step row(2) f1 by simp
  qed
qed

lemma holder_expired:
  assumes "now \<le> t"
  shows "(case map_option (\<lambda>r. if ob_status r = Ob_processing \<and> sql_le (ob_lease_expires_at r) now then expire_job now r else r) x of
      None \<Rightarrow> None
    | Some r \<Rightarrow> if ob_status r = Ob_processing \<and> sql_gt (ob_lease_expires_at r) t then ob_lease_owner r else None) =
    (case x of None \<Rightarrow> None | Some r \<Rightarrow> if ob_status r = Ob_processing \<and> sql_gt (ob_lease_expires_at r) t then ob_lease_owner r else None)"
  using assms by (cases x) (auto simp: expire_job_def sql_gt_def sql_le_def split: option.splits)

interpretation job_lease: lease_cell "outbox_ok hash" "job_holder jid" "job_claim cfg jid" for hash jid cfg
proof
  show "outbox_ok hash (snd (job_claim cfg jid q s))" if "outbox_ok hash s" for s q
    using that ob_sound_claim_next by (cases q) (simp add: job_claim_def ob_sound_def)
  fix s now w w' d
  assume ok: "outbox_ok hash s"
  let ?c = "cfg\<lparr>os_lease_s := d\<rparr>"
  show "\<not> fst (job_claim cfg jid (now, d, w') s)" if "job_holder jid s now = Some w" "w \<noteq> w'"
    using ok
  proof (cases rule: claim_next_cases [where cfg = ?c and now = now and w = w'])
    case (some row)
    have "ob_id row \<noteq> jid"
      using that(1) some(2,5)
      by (auto simp: job_holder_def ob_due_def sql_gt_def sql_le_def split: option.splits if_splits)
    then show ?thesis using some(1) by (simp add: job_claim_def)
  qed (simp add: job_claim_def)
  show "job_holder jid (snd (job_claim cfg jid (now, d, w) s)) t = Some w"
    if "fst (job_claim cfg jid (now, d, w) s)" "now \<le> t" "t < lease_until now d" for t
    using ok
  proof (cases rule: claim_next_cases [where cfg = ?c and now = now and w = w])
    case (some row)
    then have "ob_id row = jid" using that(1) by (simp add: job_claim_def)
    then show ?thesis using some(4) that(3) by (simp add: job_claim_def job_holder_def claim_job_def)
  qed (use that(1) in \<open>simp add: job_claim_def\<close>)
  show "job_holder jid (snd (job_claim cfg jid (now, d, w) s)) t = job_holder jid s t"
    if "\<not> fst (job_claim cfg jid (now, d, w) s)" "now \<le> t" for t
    using ok
  proof (cases rule: claim_next_cases [where cfg = ?c and now = now and w = w])
    case none
    then show ?thesis using holder_expired [OF that(2)] by (simp add: job_claim_def job_holder_def)
  next
    case (some row)
    then have "jid \<noteq> ob_id row" using that(1) by (simp add: job_claim_def)
    then show ?thesis using some(3) holder_expired [OF that(2)] by (simp add: job_claim_def job_holder_def)
  qed
qed

text \<open>
  Consecutive claims of a memory job: whatever workers poll the outbox, in any order and at clocks that do not run
  backwards, two consecutive claims of a job are by the same worker, or the later one is after the lease of
  the earlier one ran out.
\<close>

theorem job_leases_never_overlap:
  assumes "outbox_ok hash db" and "sorted (map fst qs)"
  shows "successively no_overlap (grants (job_claim cfg jid) db qs)"
  using assms by (rule job_lease.grants_never_overlap)

theorem job_leases_never_overlap_witness:
  "successively no_overlap (grants (job_claim demo_settings ''j1'') demo_outbox
     [(0, 120, ''a''), (1, 120, ''b''), (120000000, 120, ''b''), (120000001, 120, ''a'')])"
  by (rule job_leases_never_overlap [OF demo_outbox_ok]) simp

section \<open>The whole handler\<close>

text \<open>
  The handler and the drain are made of the sessions above: when other sessions do, they keep the table well formed too.
\<close>

lemma ob_sound_process_job:
  assumes "\<And>n d. ob_sound hash d (pe_others env n d)"
  shows "ob_sound hash db (snd (process_job hash str_of env row db))"
proof -
  have lane: "ob_sound hash db (pe_others env 1 (pe_others env 4 db))" using assms ob_sound_trans by blast
  have "ob_sound hash db (snd (process_pipeline hash str_of env row db))"
    using assms ob_sound_trans [OF assms ob_sound_checkpoint]
    by (auto simp: process_pipeline_def split: option.split sum.split prod.split) (metis snd_conv)+
  moreover have "ob_sound hash db (snd (process_candidate_job env row db))"
    using assms lane by (simp add: process_candidate_job_def Let_def split: list.split option.split)
  ultimately show ?thesis
    using assms by (simp add: process_job_def process_settlement_def split: prod.split)
qed

lemma snd_exit_of [simp]: "snd (exit_of r) = snd r"
  by (simp add: exit_of_def)

lemma ob_sound_process_claimed:
  assumes others: "\<And>n d. ob_sound hash d (pe_others env n d)"
  shows "ob_sound hash db (snd (process_claimed hash str_of cfg env jid worker db))"
proof (cases "find_job jid db")
  case (Some row)
  obtain w db1 where job: "process_job hash str_of env row (pe_others env 0 db) = (w, db1)" by fastforce
  have 1: "ob_sound hash db db1"
    using ob_sound_trans [OF others ob_sound_process_job [OF others, of "pe_others env 0 db" str_of row]] job by simp
  have success: "ob_sound hash db db2" if "finish_success hash now jid worker result (pe_others env 2) db1 = (x, db2)" for now result x db2
    using ob_sound_trans [OF 1 ob_sound_success [where between = "pe_others env 2", OF others, where db = db1 and now = now and jid = jid and worker = worker and result = result]] that by simp
  have retried: "ob_sound hash db (snd (finish_failure hash cfg t jid worker err (pe_others env 3) db2))"
    if "finish_success hash now jid worker result (pe_others env 2) db1 = (x, db2)" for now result x db2 t err
    by (rule ob_sound_trans [OF success [OF that] ob_sound_failure [OF others]])
  have failed: "ob_sound hash db (snd (finish_failure hash cfg now jid worker err (pe_others env 2) db1))" for now err
    by (rule ob_sound_trans [OF 1 ob_sound_failure [OF others]])
  have deferred: "ob_sound hash db (snd (defer_claim now jid worker t (pe_others env 2) db1))" for now t
    by (rule ob_sound_trans [OF 1 ob_sound_defer [OF others]])
  show ?thesis
  proof (cases w)
    case (Work_result result)
    obtain x db2 where s: "finish_success hash (pe_now env) jid worker result (pe_others env 2) db1 = (x, db2)" by fastforce
    show ?thesis
      using others success [OF s] retried [OF s] by (simp add: process_claimed_def Some Let_def job Work_result s split: sum.split)
  qed (use others 1 failed deferred in \<open>simp_all add: process_claimed_def Some Let_def job\<close>)
qed (simp add: process_claimed_def)

text \<open>
  The worker as a whole: handling a claimed job, on every path through its work, acknowledgement, deferral and failure, and a drain
  of any number of jobs, keep the outbox well formed, provided the sessions that run at the same time do.
\<close>

theorem drain_keeps_outbox:
  assumes "\<And>i n d. ob_sound hash d (pe_others (envs i) n d)" and "outbox_ok hash db"
  shows "outbox_ok hash (snd (snd (drain_outbox hash str_of cfg envs max_jobs worker db)))"
proof -
  have "ob_sound hash db (snd (snd (drain_outbox hash str_of cfg envs max_jobs worker db)))"
  proof (induction max_jobs arbitrary: db)
    case (Suc n)
    obtain j db1 where c: "claim_next_job cfg (pe_now (envs n)) worker db = (j, db1)" by fastforce
    have 1: "ob_sound hash db db1" using ob_sound_claim_next [of hash db cfg "pe_now (envs n)" worker] c by simp
    show ?case
    proof (cases j)
      case (Some jid)
      obtain ex db2 where p: "process_claimed hash str_of cfg (envs n) jid worker db1 = (ex, db2)" by fastforce
      have 2: "ob_sound hash db db2"
        using ob_sound_trans [OF 1 ob_sound_process_claimed [where env = "envs n", OF assms(1), where db = db1 and str_of = str_of and cfg = cfg and jid = jid and worker = worker]] p by simp
      show ?thesis using 2 ob_sound_trans [OF 2 Suc.IH] by (auto simp: c Some p split: claimed_exit.split prod.split)
    qed (simp add: c 1)
  qed simp
  then show ?thesis using assms(2) by (simp add: ob_sound_def)
qed

definition demo_env :: process_env where
  "demo_env =
     \<lparr>pe_now = 5, pe_others = \<lambda>_ d. d, pe_ids = \<lambda>_. ''x'', pe_extract = \<lambda>_. Inr [(Ex_graph, JObj [(''k'', JInt 1)])],
      pe_effect = \<lambda>_. Work_result (JList []), pe_summary = \<lambda>_ _ _. JObj [], pe_error_text = \<lambda>_. ''error''\<rparr>"

theorem drain_keeps_outbox_witness:
  "outbox_ok demo_hash (snd (snd (drain_outbox demo_hash demo_str demo_settings (\<lambda>_. demo_env) 100 ''w'' demo_outbox)))"
  by (rule drain_keeps_outbox [OF _ demo_outbox_ok]) (simp add: demo_env_def)

lemma demo_drain:
  "map (\<lambda>r. (ob_id r, ob_status r)) (outbox (snd (snd (drain_outbox demo_hash demo_str demo_settings (\<lambda>_. demo_env) 4 ''w'' demo_outbox))))
     = [(''j1'', Ob_succeeded), (''mout_x'', Ob_succeeded), (''mout_settle_m1'', Ob_retry)]"
  by code_simp

end
