(* ===== verification/Kb_Index_Queue.thy ===== *)
theory Kb_Index_Queue
  imports Prelude
begin

text \<open>
  \<open>core/kb/index_queue.py\<close>, the status writer of \<open>core/content/kb_processing.py\<close>, the slots of
  \<open>core/kb/index_worker.py\<close> and \<open>core/kb/document_status.py\<close>: the queue of documents that wait for their index. The queue is the
  status column of the documents, with the claim in their metadata; a claim is two commits, one that flips the
  status and one that writes who claimed. Everything but the flips of the status loads a document, and writes back its whole
  metadata later, so the operations take the row their session loaded beside the database they commit to. Rows are not
  removed (a deleted document keeps its row with a deletion time).

  \<open>isofmt\<close> and \<open>of_iso\<close> stand for \<open>isoformat\<close> and \<open>fromisoformat\<close> on UTC times, \<open>int_of\<close> for \<open>int\<close> on a string. The
  lemmas show how often a document is claimed between two admissions, and that sessions which write back what others have
  changed defeat that limit; that a live claim is not swept; what the gap between the two commits allows; and that the
  counts of the status summary are complete.
\<close>

section \<open>Documents\<close>

record kb_document =
  kd_id :: string
  kd_kb_id :: string
  kd_title :: string
  kd_mime_type :: string
  kd_storage_key :: string
  kd_status :: string
  kd_extra :: "dict option"
  kd_uploaded_at :: time
  kd_deleted_at :: "time option"

record kb_space =
  ks_id :: string
  ks_user_id :: string
  ks_chunk_method :: json
  ks_extra :: json

record kb_db =
  kb_documents :: "kb_document list"
  kb_spaces :: "kb_space list"

datatype kb_error = Kb_ValueError

definition STATUS_QUEUED :: string where "STATUS_QUEUED = ''processing''"
definition STATUS_RUNNING :: string where "STATUS_RUNNING = ''indexing''"
definition STATUS_DONE :: string where "STATUS_DONE = ''completed''"
definition STATUS_FAILED :: string where "STATUS_FAILED = ''failed''"
definition STALE_AFTER :: time where "STALE_AFTER = seconds 1800"
definition F_CLAIMED_BY :: string where "F_CLAIMED_BY = ''indexing_claimed_by''"
definition F_HEARTBEAT :: string where "F_HEARTBEAT = ''indexing_heartbeat''"
definition F_ATTEMPT :: string where "F_ATTEMPT = ''indexing_attempt''"
definition F_PARAMS :: string where "F_PARAMS = ''indexing_params''"
definition MAX_ATTEMPTS :: int where "MAX_ATTEMPTS = 3"

lemmas kb_names = STATUS_QUEUED_def STATUS_RUNNING_def STATUS_DONE_def STATUS_FAILED_def
  F_CLAIMED_BY_def F_HEARTBEAT_def F_ATTEMPT_def F_PARAMS_def

definition meta_of :: "kb_document \<Rightarrow> dict" where
  "meta_of doc = opt_dict (kd_extra doc)"

definition find_doc :: "string \<Rightarrow> kb_db \<Rightarrow> kb_document option" where
  "find_doc d db = find_by kd_id d (kb_documents db)"

definition update_docs :: "(kb_document \<Rightarrow> bool) \<Rightarrow> (kb_document \<Rightarrow> kb_document) \<Rightarrow> kb_db \<Rightarrow> kb_db" where
  "update_docs P f db = db\<lparr>kb_documents := update_where P f (kb_documents db)\<rparr>"

text \<open>
  What the commit of a session writes that loaded \<open>doc\<close>: the whole metadata, and the status when it is not the one the session saw.
\<close>

definition write_doc :: "kb_document \<Rightarrow> dict \<Rightarrow> string \<Rightarrow> kb_db \<Rightarrow> kb_db" where
  "write_doc doc meta status db =
     update_docs (\<lambda>x. kd_id x = kd_id doc)
       (\<lambda>x. x\<lparr>kd_extra := Some meta, kd_status := if status = kd_status doc then kd_status x else status\<rparr>) db"

text \<open>Values of the metadata: \<open>meta.get(key)\<close>, \<open>int(v or 0)\<close>, \<open>a or b\<close>.\<close>

definition meta_get :: "string \<Rightarrow> dict \<Rightarrow> json" where
  "meta_get k d = (case dict_get k d of None \<Rightarrow> JNull | Some v \<Rightarrow> v)"

definition py_true :: "json \<Rightarrow> bool" where
  "py_true v =
     (case v of JNull \<Rightarrow> False | JBool b \<Rightarrow> b | JInt n \<Rightarrow> n \<noteq> 0 | JStr s \<Rightarrow> s \<noteq> [] | JList l \<Rightarrow> l \<noteq> [] | JObj d \<Rightarrow> d \<noteq> [])"

definition py_or :: "json \<Rightarrow> json \<Rightarrow> json" where
  "py_or a b = (if py_true a then a else b)"

definition int_or_zero :: "(string \<Rightarrow> int option) \<Rightarrow> json \<Rightarrow> int option" where
  "int_or_zero int_of v =
     (if \<not> py_true v then Some 0
      else case v of JInt n \<Rightarrow> Some n | JBool b \<Rightarrow> Some 1 | JStr s \<Rightarrow> int_of s | _ \<Rightarrow> None)"

definition parse_ts :: "(string \<Rightarrow> time option) \<Rightarrow> json \<Rightarrow> time option" where
  "parse_ts of_iso v = (case v of JStr s \<Rightarrow> if s = [] then None else of_iso s | _ \<Rightarrow> None)"

section \<open>Admission\<close>

record index_params =
  ip_user_id :: string
  ip_chunk_method :: string
  ip_indexing_config :: json
  ip_index_modes :: "string list option"

definition params_json :: "index_params \<Rightarrow> json" where
  "params_json p =
     JObj [(''user_id'', JStr (ip_user_id p)), (''chunk_method'', JStr (ip_chunk_method p)),
           (''indexing_config'', ip_indexing_config p),
           (''index_modes'', case ip_index_modes p of None \<Rightarrow> JNull | Some l \<Rightarrow> JList (map JStr l))]"

definition enqueued_meta :: "index_params \<Rightarrow> dict \<Rightarrow> dict" where
  "enqueued_meta p meta =
     dict_pop ''indexing_failed_at'' (dict_pop ''indexing_error'' (dict_pop F_HEARTBEAT (dict_pop F_CLAIMED_BY
       (dict_put F_ATTEMPT (JInt 0) (dict_put F_PARAMS (params_json p) meta)))))"

text \<open>\<open>_enqueue_document_indexing\<close> loads the document, \<open>enqueue\<close> writes it.\<close>

definition enqueue_document :: "index_params \<Rightarrow> kb_document option \<Rightarrow> kb_db \<Rightarrow> kb_db" where
  "enqueue_document p loaded db =
     (case loaded of
        None \<Rightarrow> db
      | Some doc \<Rightarrow> write_doc doc (enqueued_meta p (meta_of doc)) STATUS_QUEUED db)"

section \<open>Sweep\<close>

definition release_candidates :: "kb_db \<Rightarrow> kb_document list" where
  "release_candidates db =
     take 200 (filter (\<lambda>x. kd_status x = STATUS_RUNNING \<and> kd_deleted_at x = None) (kb_documents db))"

definition beating :: "(string \<Rightarrow> time option) \<Rightarrow> time \<Rightarrow> kb_document \<Rightarrow> bool" where
  "beating of_iso now doc =
     (case parse_ts of_iso (meta_get F_HEARTBEAT (meta_of doc)) of None \<Rightarrow> False | Some beat \<Rightarrow> now - STALE_AFTER < beat)"

definition release_doc :: "string \<Rightarrow> kb_db \<Rightarrow> bool \<times> kb_db" where
  "release_doc d db =
     (let P = (\<lambda>x. kd_id x = d \<and> kd_status x = STATUS_RUNNING)
      in (0 < affected P (kb_documents db), update_docs P (\<lambda>x. x\<lparr>kd_status := STATUS_QUEUED\<rparr>) db))"

fun release_loop :: "(string \<Rightarrow> time option) \<Rightarrow> time \<Rightarrow> kb_document list \<Rightarrow> kb_db \<Rightarrow> nat \<times> kb_db" where
  "release_loop of_iso now [] db = (0, db)"
| "release_loop of_iso now (doc # docs) db =
     (if beating of_iso now doc then release_loop of_iso now docs db
      else case release_doc (kd_id doc) db of
             (won, db1) \<Rightarrow>
               (case release_loop of_iso now docs db1 of (n, db2) \<Rightarrow> ((if won then 1 else 0) + n, db2)))"

definition release_stale :: "(string \<Rightarrow> time option) \<Rightarrow> time \<Rightarrow> kb_db \<Rightarrow> nat \<times> kb_db" where
  "release_stale of_iso now db = release_loop of_iso now (release_candidates db) db"

section \<open>Claims\<close>

definition claim_candidate_doc :: "kb_db \<Rightarrow> kb_document option" where
  "claim_candidate_doc db =
     first_by kd_uploaded_at (filter (\<lambda>x. kd_status x = STATUS_QUEUED \<and> kd_deleted_at x = None) (kb_documents db))"

text \<open>The first commit of a claim.\<close>

definition claim_status :: "string \<Rightarrow> kb_db \<Rightarrow> bool \<times> kb_db" where
  "claim_status d db =
     (let P = (\<lambda>x. kd_id x = d \<and> kd_status x = STATUS_QUEUED)
      in (0 < affected P (kb_documents db), update_docs P (\<lambda>x. x\<lparr>kd_status := STATUS_RUNNING\<rparr>) db))"

record index_snapshot =
  sn_document_id :: string
  sn_kb_id :: string
  sn_title :: string
  sn_mime_type :: string
  sn_storage_key :: string
  sn_attempt :: int
  sn_user_id :: json
  sn_chunk_method :: json
  sn_indexing_config :: json
  sn_index_modes :: json

definition params_from_space :: "string \<Rightarrow> kb_db \<Rightarrow> dict" where
  "params_from_space kb db =
     (case find_by ks_id kb (kb_spaces db) of
        None \<Rightarrow> []
      | Some s \<Rightarrow>
          [(''user_id'', JStr (ks_user_id s)), (''chunk_method'', ks_chunk_method s),
           (''indexing_config'', case ks_extra s of JObj d \<Rightarrow> meta_get ''indexing_config'' d | _ \<Rightarrow> JNull)])"

definition snapshot_of :: "int \<Rightarrow> dict \<Rightarrow> kb_document \<Rightarrow> kb_db \<Rightarrow> index_snapshot" where
  "snapshot_of attempt meta doc db =
     (let params = (case meta_get F_PARAMS meta of JObj d \<Rightarrow> d | _ \<Rightarrow> []);
          fallback = (if params = [] then params_from_space (kd_kb_id doc) db else [])
      in \<lparr>sn_document_id = kd_id doc, sn_kb_id = kd_kb_id doc, sn_title = kd_title doc, sn_mime_type = kd_mime_type doc,
          sn_storage_key = kd_storage_key doc, sn_attempt = attempt,
          sn_user_id = py_or (py_or (meta_get ''user_id'' params) (meta_get ''user_id'' fallback)) (JStr []),
          sn_chunk_method = py_or (py_or (meta_get ''chunk_method'' params) (meta_get ''chunk_method'' fallback)) (JStr ''structured''),
          sn_indexing_config = py_or (meta_get ''indexing_config'' params) (meta_get ''indexing_config'' fallback),
          sn_index_modes = meta_get ''index_modes'' params\<rparr>)"

definition closed_meta :: "string \<Rightarrow> string \<Rightarrow> dict \<Rightarrow> dict" where
  "closed_meta err stamp meta =
     dict_pop F_HEARTBEAT (dict_pop F_CLAIMED_BY
       (dict_put ''indexing_failed_at'' (JStr stamp) (dict_put ''indexing_error'' (JStr err) meta)))"

text \<open>The second commit, and the guard on the attempts. The snapshot shows the row as it is after the commit.\<close>

definition claim_meta ::
  "(string \<Rightarrow> int option) \<Rightarrow> (time \<Rightarrow> string) \<Rightarrow> string \<Rightarrow> time \<Rightarrow> string \<Rightarrow> kb_document option \<Rightarrow> kb_db \<Rightarrow>
   (kb_error + index_snapshot option) \<times> kb_db" where
  "claim_meta int_of isofmt limit_text now worker loaded db =
     (case loaded of
        None \<Rightarrow> (Inr None, db)
      | Some doc \<Rightarrow>
          (case int_or_zero int_of (meta_get F_ATTEMPT (meta_of doc)) of
             None \<Rightarrow> (Inl Kb_ValueError, db)
           | Some n \<Rightarrow>
               if MAX_ATTEMPTS < n + 1
               then (Inr None, write_doc doc (closed_meta limit_text (isofmt now) (meta_of doc)) STATUS_FAILED db)
               else
                 let meta = dict_put F_HEARTBEAT (JStr (isofmt now)) (dict_put F_CLAIMED_BY (JStr worker)
                              (dict_put F_ATTEMPT (JInt (n + 1)) (meta_of doc)));
                     db' = write_doc doc meta (kd_status doc) db;
                     row = (case find_doc (kd_id doc) db' of None \<Rightarrow> doc | Some x \<Rightarrow> x)
                 in (Inr (Some (snapshot_of (n + 1) meta row db')), db')))"

text \<open>
  \<open>claim_next\<close>: \<open>others\<close> is what other sessions commit between the first commit and the load of the document, \<open>within\<close> between the
  load and the second commit.
\<close>

definition claim_next_doc ::
  "(string \<Rightarrow> int option) \<Rightarrow> (time \<Rightarrow> string) \<Rightarrow> string \<Rightarrow> time \<Rightarrow> string \<Rightarrow> (kb_db \<Rightarrow> kb_db) \<Rightarrow> (kb_db \<Rightarrow> kb_db) \<Rightarrow> kb_db \<Rightarrow>
   (kb_error + index_snapshot option) \<times> kb_db" where
  "claim_next_doc int_of isofmt limit_text now worker others within db =
     (case claim_candidate_doc db of
        None \<Rightarrow> (Inr None, db)
      | Some candidate \<Rightarrow>
          (case claim_status (kd_id candidate) db of
             (won, db1) \<Rightarrow>
               if \<not> won then (Inr None, db1)
               else let db2 = others db1
                    in claim_meta int_of isofmt limit_text now worker (find_doc (kd_id candidate) db2) (within db2)))"

section \<open>Running documents\<close>

text \<open>The rows the query of \<open>heartbeat\<close> loads, and the write of each.\<close>

definition load_docs :: "string list \<Rightarrow> kb_db \<Rightarrow> kb_document list" where
  "load_docs ids db = filter (\<lambda>x. kd_id x \<in> set ids) (kb_documents db)"

definition heartbeat_docs :: "(time \<Rightarrow> string) \<Rightarrow> time \<Rightarrow> kb_document list \<Rightarrow> kb_db \<Rightarrow> kb_db" where
  "heartbeat_docs isofmt now docs db =
     fold (\<lambda>doc. write_doc doc (dict_put F_HEARTBEAT (JStr (isofmt now)) (meta_of doc)) (kd_status doc)) docs db"

definition give_up_or_requeue ::
  "(string \<Rightarrow> int option) \<Rightarrow> (time \<Rightarrow> string) \<Rightarrow> time \<Rightarrow> string \<Rightarrow> kb_document option \<Rightarrow> kb_db \<Rightarrow> (kb_error + unit) \<times> kb_db" where
  "give_up_or_requeue int_of isofmt now err loaded db =
     (case loaded of
        None \<Rightarrow> (Inr (), db)
      | Some doc \<Rightarrow>
          (case int_or_zero int_of (meta_get F_ATTEMPT (meta_of doc)) of
             None \<Rightarrow> (Inl Kb_ValueError, db)
           | Some attempt \<Rightarrow>
               if attempt < MAX_ATTEMPTS
               then (Inr (), write_doc doc (dict_pop F_HEARTBEAT (dict_pop F_CLAIMED_BY (meta_of doc))) STATUS_QUEUED db)
               else (Inr (), write_doc doc (closed_meta (char_limit 1000 err) (isofmt now) (meta_of doc)) STATUS_FAILED db)))"

text \<open>\<open>update_document_status\<close>, which the indexer calls at its end.\<close>

definition status_meta :: "(time \<Rightarrow> string) \<Rightarrow> time \<Rightarrow> string \<Rightarrow> string option \<Rightarrow> dict \<Rightarrow> dict" where
  "status_meta isofmt now status err meta =
     (let e = str_or err [];
          meta' = (if status = ''failed'' \<and> e \<noteq> []
                   then dict_put ''indexing_failed_at'' (JStr (isofmt now)) (dict_put ''indexing_error'' (JStr (char_limit 1000 e)) meta)
                   else dict_pop ''indexing_failed_at'' (dict_pop ''indexing_error'' meta))
      in dict_pop ''indexing_heartbeat'' (dict_pop ''indexing_claimed_by'' meta'))"

definition update_document_status ::
  "(time \<Rightarrow> string) \<Rightarrow> time \<Rightarrow> string \<Rightarrow> string option \<Rightarrow> kb_document option \<Rightarrow> kb_db \<Rightarrow> kb_db" where
  "update_document_status isofmt now status err loaded db =
     (case loaded of
        None \<Rightarrow> db
      | Some doc \<Rightarrow> write_doc doc (status_meta isofmt now status err (meta_of doc)) status db)"

definition queue_depth :: "kb_db \<Rightarrow> nat" where
  "queue_depth db = length (filter (\<lambda>x. kd_status x = STATUS_QUEUED \<and> kd_deleted_at x = None) (kb_documents db))"

definition pending_document_ids :: "string \<Rightarrow> kb_db \<Rightarrow> string list" where
  "pending_document_ids kb db =
     map kd_id (filter (\<lambda>x. kd_kb_id x = kb \<and> kd_deleted_at x = None \<and> kd_status x \<in> {STATUS_QUEUED, STATUS_RUNNING})
                 (kb_documents db))"

section \<open>The worker\<close>

definition index_concurrency :: "int option \<Rightarrow> int" where
  "index_concurrency configured = max 1 (min (case configured of None \<Rightarrow> 3 | Some n \<Rightarrow> n) 16)"

text \<open>
  \<open>_fill_slots\<close>: the free slots are filled with claims; \<open>others n\<close>, \<open>within n\<close> and \<open>clock n\<close> belong to the claim that leaves \<open>n\<close>
  slots free. The result is the snapshots that are started.
\<close>

fun fill_slots ::
  "(string \<Rightarrow> int option) \<Rightarrow> (time \<Rightarrow> string) \<Rightarrow> string \<Rightarrow> (nat \<Rightarrow> time) \<Rightarrow> (nat \<Rightarrow> kb_db \<Rightarrow> kb_db) \<Rightarrow> (nat \<Rightarrow> kb_db \<Rightarrow> kb_db) \<Rightarrow>
   string \<Rightarrow> nat \<Rightarrow> kb_db \<Rightarrow> (kb_error + index_snapshot list) \<times> kb_db" where
  "fill_slots int_of isofmt limit_text clock others within worker 0 db = (Inr [], db)"
| "fill_slots int_of isofmt limit_text clock others within worker (Suc n) db =
     (case claim_next_doc int_of isofmt limit_text (clock n) worker (others n) (within n) db of
        (Inl e, db1) \<Rightarrow> (Inl e, db1)
      | (Inr None, db1) \<Rightarrow> (Inr [], db1)
      | (Inr (Some snap), db1) \<Rightarrow>
          (case fill_slots int_of isofmt limit_text clock others within worker n db1 of
             (Inl e, db2) \<Rightarrow> (Inl e, db2)
           | (Inr snaps, db2) \<Rightarrow> (Inr (snap # snaps), db2)))"

section \<open>Status summary\<close>

datatype status_category = Cat_indexed | Cat_processing | Cat_failed

definition processing_statuses :: "string list" where
  "processing_statuses =
     [''processing'', ''indexing'', ''waiting'', ''pending'', ''finalizing'', ''parsing'', ''queued'', ''queuing'',
      ''waiting_indexing'', ''paused'']"

definition failed_statuses :: "string list" where
  "failed_statuses = [''failed'', ''error'']"

text \<open>\<open>normal_form\<close> is \<open>str(status or "").strip().lower()\<close>.\<close>

definition classify_document_status :: "(json \<Rightarrow> string) \<Rightarrow> json \<Rightarrow> status_category" where
  "classify_document_status normal_form status =
     (if normal_form status \<in> set processing_statuses then Cat_processing
      else if normal_form status \<in> set failed_statuses then Cat_failed
      else Cat_indexed)"

definition empty_document_status_counts :: "status_category \<Rightarrow> nat" where
  "empty_document_status_counts = (\<lambda>_. 0)"

definition summarize_document_statuses :: "(json \<Rightarrow> string) \<Rightarrow> dict list \<Rightarrow> status_category \<Rightarrow> nat" where
  "summarize_document_statuses normal_form items =
     fold (\<lambda>item counts.
             (let c = classify_document_status normal_form (meta_get ''indexing_status'' item) in counts(c := counts c + 1)))
       items empty_document_status_counts"

section \<open>Interleaved sessions\<close>

text \<open>
  One event per access to the database: a session loads the rows it will write (\<open>Ke_load\<close>) and commits later, with whatever it
  loaded, however old; the flips of the status are single statements.
\<close>

datatype kb_event =
    Ke_load nat "string list"
  | Ke_enqueue nat string index_params
  | Ke_release string
  | Ke_claim_status string
  | Ke_claim_meta nat time string string
  | Ke_heartbeat nat time
  | Ke_give_up nat time string string
  | Ke_status nat time string string "string option"

text \<open>
  The state of a run, seen from a document \<open>d\<close>: the database, the rows each session loaded, the snapshots of \<open>d\<close> handed out since its last
  admission, and how much of the count of its attempts was lost since then to commits of sessions that had loaded an older count.
\<close>

record kb_run =
  kr_db :: kb_db
  kr_sessions :: "nat \<Rightarrow> kb_document list"
  kr_handed :: nat
  kr_lost :: nat

definition new_run :: "kb_db \<Rightarrow> kb_run" where
  "new_run db = \<lparr>kr_db = db, kr_sessions = \<lambda>_. [], kr_handed = 0, kr_lost = 0\<rparr>"

definition attempt_of :: "(string \<Rightarrow> int option) \<Rightarrow> kb_document \<Rightarrow> int option" where
  "attempt_of int_of doc = int_or_zero int_of (meta_get F_ATTEMPT (meta_of doc))"

definition rollback :: "(string \<Rightarrow> int option) \<Rightarrow> string \<Rightarrow> kb_db \<Rightarrow> kb_document \<Rightarrow> nat" where
  "rollback int_of d db doc =
     (case (attempt_of int_of doc, Option.bind (find_doc d db) (attempt_of int_of)) of
        (Some seen, Some current) \<Rightarrow> if kd_id doc = d then nat (current - seen) else 0
      | _ \<Rightarrow> 0)"

definition loaded_doc :: "kb_run \<Rightarrow> nat \<Rightarrow> string \<Rightarrow> kb_document option" where
  "loaded_doc s sid d' = find_by kd_id d' (kr_sessions s sid)"

definition losses :: "(string \<Rightarrow> int option) \<Rightarrow> string \<Rightarrow> kb_run \<Rightarrow> kb_document list \<Rightarrow> nat" where
  "losses int_of d s docs = kr_lost s + sum_list (map (rollback int_of d (kr_db s)) docs)"

definition lost_with :: "(string \<Rightarrow> int option) \<Rightarrow> string \<Rightarrow> kb_run \<Rightarrow> kb_document option \<Rightarrow> nat" where
  "lost_with int_of d s loaded = losses int_of d s (case loaded of None \<Rightarrow> [] | Some doc \<Rightarrow> [doc])"

fun kb_step ::
  "(string \<Rightarrow> int option) \<Rightarrow> (time \<Rightarrow> string) \<Rightarrow> string \<Rightarrow> string \<Rightarrow> kb_event \<Rightarrow> kb_run \<Rightarrow> kb_run" where
  "kb_step int_of isofmt limit_text d (Ke_load sid ids) s =
     s\<lparr>kr_sessions := (kr_sessions s)(sid := load_docs ids (kr_db s))\<rparr>"
| "kb_step int_of isofmt limit_text d (Ke_enqueue sid d' p) s =
     (let loaded = loaded_doc s sid d'; admitted = (d' = d \<and> loaded \<noteq> None)
      in s\<lparr>kr_db := enqueue_document p loaded (kr_db s),
           kr_handed := if admitted then 0 else kr_handed s, kr_lost := if admitted then 0 else kr_lost s\<rparr>)"
| "kb_step int_of isofmt limit_text d (Ke_release d') s = s\<lparr>kr_db := snd (release_doc d' (kr_db s))\<rparr>"
| "kb_step int_of isofmt limit_text d (Ke_claim_status d') s = s\<lparr>kr_db := snd (claim_status d' (kr_db s))\<rparr>"
| "kb_step int_of isofmt limit_text d (Ke_claim_meta sid now worker d') s =
     (let loaded = loaded_doc s sid d'
      in case claim_meta int_of isofmt limit_text now worker loaded (kr_db s) of
           (r, db') \<Rightarrow>
             s\<lparr>kr_db := db', kr_lost := lost_with int_of d s loaded,
               kr_handed := (case r of Inr (Some _) \<Rightarrow> if d' = d then kr_handed s + 1 else kr_handed s | _ \<Rightarrow> kr_handed s)\<rparr>)"
| "kb_step int_of isofmt limit_text d (Ke_heartbeat sid now) s =
     s\<lparr>kr_db := heartbeat_docs isofmt now (kr_sessions s sid) (kr_db s), kr_lost := losses int_of d s (kr_sessions s sid)\<rparr>"
| "kb_step int_of isofmt limit_text d (Ke_give_up sid now d' err) s =
     (let loaded = loaded_doc s sid d'
      in s\<lparr>kr_db := snd (give_up_or_requeue int_of isofmt now err loaded (kr_db s)), kr_lost := lost_with int_of d s loaded\<rparr>)"
| "kb_step int_of isofmt limit_text d (Ke_status sid now d' status err) s =
     (let loaded = loaded_doc s sid d'
      in s\<lparr>kr_db := update_document_status isofmt now status err loaded (kr_db s), kr_lost := lost_with int_of d s loaded\<rparr>)"

text \<open>A document whose count of attempts is a number, and not negative.\<close>

definition readable :: "(string \<Rightarrow> int option) \<Rightarrow> kb_document \<Rightarrow> bool" where
  "readable int_of doc = (case attempt_of int_of doc of None \<Rightarrow> False | Some a \<Rightarrow> 0 \<le> a)"

text \<open>The row of \<open>d\<close> accounts for the snapshots handed out, up to what was lost.\<close>

definition accounted :: "(string \<Rightarrow> int option) \<Rightarrow> string \<Rightarrow> nat \<Rightarrow> nat \<Rightarrow> kb_db \<Rightarrow> bool" where
  "accounted int_of d n lost db =
     (case find_doc d db of
        None \<Rightarrow> True
      | Some doc \<Rightarrow> readable int_of doc \<and> int n \<le> the (attempt_of int_of doc) + int lost)"

definition doc_ids :: "kb_db \<Rightarrow> string list" where
  "doc_ids db = map kd_id (kb_documents db)"

definition attempts_ok :: "(string \<Rightarrow> int option) \<Rightarrow> string \<Rightarrow> kb_run \<Rightarrow> bool" where
  "attempts_ok int_of d s \<longleftrightarrow> distinct (doc_ids (kr_db s)) \<and>
     int (kr_handed s) \<le> MAX_ATTEMPTS + int (kr_lost s) \<and> accounted int_of d (kr_handed s) (kr_lost s) (kr_db s) \<and>
     (\<forall>sid. \<forall>doc\<in>set (kr_sessions s sid). kd_id doc = d \<longrightarrow> readable int_of doc \<and> find_doc d (kr_db s) \<noteq> None)"

lemma doc_ids_update [simp]: "(\<And>x. kd_id (f x) = kd_id x) \<Longrightarrow> doc_ids (update_docs P f db) = doc_ids db"
  unfolding doc_ids_def update_docs_def by (simp add: map_update_where)

lemma doc_ids_write [simp]: "doc_ids (write_doc doc meta status db) = doc_ids db"
  by (simp add: write_doc_def)

lemma doc_ids_heartbeat [simp]: "doc_ids (heartbeat_docs isofmt now docs db) = doc_ids db"
  unfolding heartbeat_docs_def by (induction docs arbitrary: db) simp_all

lemma find_doc_update:
  assumes "\<And>x. kd_id (f x) = kd_id x"
  shows "find_doc d (update_docs P f db) = map_option (\<lambda>x. if P x then f x else x) (find_doc d db)"
  unfolding find_doc_def update_docs_def by (simp add: find_by_update_where assms map_option_case)

lemma find_docD: "find_doc d db = Some doc \<Longrightarrow> kd_id doc = d"
  unfolding find_doc_def using find_by_SomeD by metis

lemma find_doc_write:
  "find_doc d (write_doc doc meta status db) =
     map_option (\<lambda>x. if d = kd_id doc then x\<lparr>kd_extra := Some meta, kd_status := if status = kd_status doc then kd_status x else status\<rparr> else x)
       (find_doc d db)"
  using find_docD [of d db] by (cases "find_doc d db") (auto simp: write_doc_def find_doc_update)

lemma attempt_of_status [simp]: "attempt_of int_of (doc\<lparr>kd_status := s\<rparr>) = attempt_of int_of doc"
  by (simp add: attempt_of_def meta_of_def)

lemma attempt_of_meta:
  "attempt_of int_of (x\<lparr>kd_extra := Some meta, kd_status := st\<rparr>) = int_or_zero int_of (meta_get F_ATTEMPT meta)"
  "attempt_of int_of (x\<lparr>kd_extra := Some meta\<rparr>) = int_or_zero int_of (meta_get F_ATTEMPT meta)"
  by (simp_all add: attempt_of_def meta_of_def opt_dict_def)

text \<open>The metadata that is written keeps the count that was loaded.\<close>

lemma kept_attempt:
  "meta_get F_ATTEMPT (closed_meta err stamp meta) = meta_get F_ATTEMPT meta"
  "meta_get F_ATTEMPT (status_meta isofmt now status err' meta) = meta_get F_ATTEMPT meta"
  "meta_get F_ATTEMPT (dict_put F_HEARTBEAT v meta) = meta_get F_ATTEMPT meta"
  "meta_get F_ATTEMPT (dict_pop F_HEARTBEAT (dict_pop F_CLAIMED_BY meta)) = meta_get F_ATTEMPT meta"
  by (simp_all add: closed_meta_def status_meta_def meta_get_def kb_names Let_def)

lemma accounted_update:
  assumes "accounted int_of d n lost db" and "\<And>x. kd_id (f x) = kd_id x" and "\<And>x. attempt_of int_of (f x) = attempt_of int_of x"
  shows "accounted int_of d n lost (update_docs P f db)"
  using assms(1,3) by (auto simp: accounted_def readable_def find_doc_update [OF assms(2)] split: option.splits)

lemma accounted_more: "accounted int_of d n lost db \<Longrightarrow> lost \<le> lost' \<Longrightarrow> accounted int_of d n lost' db"
  by (auto simp: accounted_def split: option.splits)

text \<open>A session that writes back the count it loaded loses at most what was added since.\<close>

lemma accounted_write:
  assumes "accounted int_of d n lost db0" and "find_doc d db = None \<longleftrightarrow> find_doc d db0 = None" and "accounted int_of d n lost' db"
    and "kd_id doc = d \<longrightarrow> readable int_of doc" and "meta_get F_ATTEMPT meta = meta_get F_ATTEMPT (meta_of doc)"
    and "lost + rollback int_of d db0 doc \<le> lost'"
  shows "accounted int_of d n lost' (write_doc doc meta status db)"
proof (cases "find_doc d db")
  case (Some x)
  then obtain x0 where x0: "find_doc d db0 = Some x0" using assms(2) by auto
  show ?thesis
  proof (cases "kd_id doc = d")
    case True
    obtain a where a: "attempt_of int_of doc = Some a" "0 \<le> a"
      using assms(4) True by (auto simp: readable_def split: option.splits)
    have eq: "attempt_of int_of (x\<lparr>kd_extra := Some meta, kd_status := st\<rparr>) = Some a" for st
      using a(1) assms(5) unfolding attempt_of_meta by (simp add: attempt_of_def)
    obtain b where b: "attempt_of int_of x0 = Some b" "int n \<le> b + int lost"
      using assms(1) x0 by (auto simp: accounted_def readable_def split: option.splits)
    have "lost + nat (b - a) \<le> lost'" using assms(6) a(1) b(1) x0 True by (simp add: rollback_def)
    then have "int n \<le> a + int lost'" using b(2) by linarith
    then show ?thesis using Some True eq a(2) by (simp add: accounted_def readable_def find_doc_write)
  next
    case False
    then show ?thesis using Some assms(3) by (simp add: accounted_def find_doc_write)
  qed
qed (simp add: accounted_def find_doc_write)

lemma accounted_heartbeats:
  assumes "accounted int_of d n lost db0" and "\<And>doc. doc \<in> set docs \<Longrightarrow> kd_id doc = d \<Longrightarrow> readable int_of doc"
    and "find_doc d db = None \<longleftrightarrow> find_doc d db0 = None" and "accounted int_of d n lost' db" and "lost \<le> lost'"
  shows "accounted int_of d n (lost' + sum_list (map (rollback int_of d db0) docs)) (heartbeat_docs isofmt now docs db)"
  using assms(2-5)
proof (induction docs arbitrary: db lost')
  case (Cons doc docs)
  let ?db = "write_doc doc (dict_put F_HEARTBEAT (JStr (isofmt now)) (meta_of doc)) (kd_status doc) db"
  let ?lost = "lost' + rollback int_of d db0 doc"
  have "accounted int_of d n ?lost ?db"
    by (rule accounted_write [OF assms(1) Cons.prems(2) accounted_more [OF Cons.prems(3)]])
       (use Cons.prems in \<open>simp_all add: kept_attempt\<close>)
  moreover have "find_doc d ?db = None \<longleftrightarrow> find_doc d db0 = None" using Cons.prems(2) by (simp add: find_doc_write)
  ultimately show ?case
    using Cons.IH [of ?db ?lost] Cons.prems(1,4) by (simp add: heartbeat_docs_def add.assoc)
qed (simp add: heartbeat_docs_def)

lemma loaded_readable:
  assumes "attempts_ok int_of d s" and "loaded_doc s sid d' = Some doc"
  shows "kd_id doc = d'" and "kd_id doc = d \<longrightarrow> readable int_of doc" and "kd_id doc = d \<longrightarrow> find_doc d (kr_db s) \<noteq> None"
  using assms find_by_SomeD [of kd_id d' "kr_sessions s sid" doc] by (auto simp: attempts_ok_def loaded_doc_def)

text \<open>The commits that keep the count, for the run as a whole.\<close>

lemma attempts_ok_written:
  assumes "attempts_ok int_of d s" and "loaded_doc s sid d' = Some doc" and "meta_get F_ATTEMPT meta = meta_get F_ATTEMPT (meta_of doc)"
  shows "attempts_ok int_of d (s\<lparr>kr_db := write_doc doc meta status (kr_db s), kr_lost := lost_with int_of d s (Some doc)\<rparr>)"
proof -
  let ?lost = "kr_lost s + rollback int_of d (kr_db s) doc"
  have ok: "accounted int_of d (kr_handed s) (kr_lost s) (kr_db s)" using assms(1) by (simp add: attempts_ok_def)
  have "accounted int_of d (kr_handed s) ?lost (write_doc doc meta status (kr_db s))"
    by (rule accounted_write [OF ok refl accounted_more [OF ok] loaded_readable(2) [OF assms(1,2)] assms(3)]) simp_all
  then show ?thesis using assms(1) by (auto simp: attempts_ok_def lost_with_def losses_def find_doc_write)
qed

lemma attempts_ok_unread: "attempts_ok int_of d s \<Longrightarrow> attempts_ok int_of d (s\<lparr>kr_lost := lost_with int_of d s loaded\<rparr>)"
  by (auto simp: attempts_ok_def lost_with_def losses_def intro: accounted_more split: option.split)

lemma attempts_ok_enqueue:
  assumes "attempts_ok int_of d s"
  shows "attempts_ok int_of d (kb_step int_of isofmt limit_text d (Ke_enqueue sid d' p) s)"
proof (cases "loaded_doc s sid d'")
  case None
  then show ?thesis using assms by (simp add: enqueue_document_def)
next
  case (Some doc)
  have id: "kd_id doc = d'" by (rule loaded_readable(1) [OF assms Some])
  have zero: "int_or_zero int_of (meta_get F_ATTEMPT (enqueued_meta p m)) = Some 0" for m
    by (simp add: enqueued_meta_def meta_get_def kb_names int_or_zero_def py_true_def)
  have "accounted int_of d (if d' = d then 0 else kr_handed s) (if d' = d then 0 else kr_lost s)
      (write_doc doc (enqueued_meta p (meta_of doc)) STATUS_QUEUED (kr_db s))"
    using assms id
    by (cases "d' = d") (auto simp: attempts_ok_def accounted_def readable_def find_doc_write attempt_of_meta zero split: option.split)
  then show ?thesis using assms Some by (simp add: attempts_ok_def enqueue_document_def MAX_ATTEMPTS_def Let_def find_doc_write)
qed

lemma attempts_ok_claim_meta:
  assumes "attempts_ok int_of d s"
  shows "attempts_ok int_of d (kb_step int_of isofmt limit_text d (Ke_claim_meta sid now worker d') s)"
proof (cases "loaded_doc s sid d'")
  case None
  then show ?thesis using attempts_ok_unread [OF assms, of None] by (simp add: claim_meta_def)
next
  case (Some doc)
  have id: "kd_id doc = d'" by (rule loaded_readable(1) [OF assms Some])
  show ?thesis
  proof (cases "attempt_of int_of doc")
    case None
    then show ?thesis using attempts_ok_unread [OF assms, of "Some doc"] Some by (simp add: claim_meta_def attempt_of_def)
  next
    case a: (Some a)
    then have a': "int_or_zero int_of (meta_get F_ATTEMPT (meta_of doc)) = Some a" by (simp add: attempt_of_def)
    show ?thesis
    proof (cases "MAX_ATTEMPTS < a + 1")
      case True
      then show ?thesis
        using attempts_ok_written [OF assms Some kept_attempt(1)] Some a' by (simp add: claim_meta_def)
    next
      case False
      let ?lost = "kr_lost s + rollback int_of d (kr_db s) doc"
      let ?meta = "dict_put F_HEARTBEAT (JStr (isofmt now)) (dict_put F_CLAIMED_BY (JStr worker) (dict_put F_ATTEMPT (JInt (a + 1)) (meta_of doc)))"
      let ?n = "if d' = d then kr_handed s + 1 else kr_handed s"
      have count: "int_or_zero int_of (meta_get F_ATTEMPT ?meta) = Some (a + 1)" if "0 \<le> a"
        using that by (simp add: meta_get_def kb_names int_or_zero_def py_true_def)
      have "accounted int_of d ?n ?lost (write_doc doc ?meta (kd_status doc) (kr_db s)) \<and> int ?n \<le> MAX_ATTEMPTS + int ?lost"
      proof (cases "d' = d")
        case True
        then have "0 \<le> a" using loaded_readable(2) [OF assms Some] id a by (simp add: readable_def)
        note count = count [OF this]
        show ?thesis
        proof (cases "find_doc d (kr_db s)")
          case None
          then show ?thesis using loaded_readable(3) [OF assms Some] id True by simp
        next
          case x: (Some x)
          obtain b where b: "attempt_of int_of x = Some b" "int (kr_handed s) \<le> b + int (kr_lost s)"
            using assms x by (auto simp: attempts_ok_def accounted_def readable_def split: option.splits)
          have "rollback int_of d (kr_db s) doc = nat (b - a)" using a b(1) x id True by (simp add: rollback_def)
          then have "int (kr_handed s) \<le> a + int ?lost" using b(2) by linarith
          then show ?thesis
            using x id True count \<open>0 \<le> a\<close> False by (simp add: accounted_def readable_def find_doc_write attempt_of_meta)
        qed
      next
        case other: False
        then show ?thesis using assms id by (auto simp: attempts_ok_def accounted_def find_doc_write split: option.splits)
      qed
      then show ?thesis
        using assms Some a' False
        by (auto simp: claim_meta_def attempts_ok_def Let_def lost_with_def losses_def find_doc_write)
    qed
  qed
qed

lemma attempts_ok_update:
  assumes "attempts_ok int_of d s" and "\<And>x. kd_id (f x) = kd_id x" and "\<And>x. attempt_of int_of (f x) = attempt_of int_of x"
  shows "attempts_ok int_of d (s\<lparr>kr_db := update_docs P f (kr_db s)\<rparr>)"
  using assms(1) accounted_update [OF _ assms(2,3)] by (auto simp: attempts_ok_def find_doc_update [OF assms(2)] doc_ids_update [OF assms(2)])

lemma find_doc_None: "find_doc d db = None \<longleftrightarrow> d \<notin> set (doc_ids db)"
  by (simp add: find_doc_def doc_ids_def find_by_None_iff)

lemma attempts_ok_load:
  assumes "attempts_ok int_of d s"
  shows "attempts_ok int_of d (kb_step int_of isofmt limit_text d (Ke_load sid ids) s)"
proof -
  have "readable int_of x \<and> find_doc d (kr_db s) \<noteq> None" if "x \<in> set (load_docs ids (kr_db s))" "kd_id x = d" for x
  proof -
    have "find_doc d (kr_db s) = Some x"
      using find_by_unique [of kd_id "kb_documents (kr_db s)" x d] assms that
      by (simp add: load_docs_def find_doc_def attempts_ok_def doc_ids_def)
    then show ?thesis using assms by (simp add: attempts_ok_def accounted_def)
  qed
  then show ?thesis using assms by (simp add: attempts_ok_def)
qed

lemma attempts_ok_step: "attempts_ok int_of d s \<Longrightarrow> attempts_ok int_of d (kb_step int_of isofmt limit_text d e s)"
proof (cases e)
  assume ok: "attempts_ok int_of d s"
  note keep = attempts_ok_written [OF ok] attempts_ok_unread [OF ok]
  {
    fix sid ids assume "e = Ke_load sid ids"
    then show ?thesis using attempts_ok_load [OF ok] by blast
  next
    fix sid d' p assume "e = Ke_enqueue sid d' p"
    then show ?thesis using attempts_ok_enqueue [OF ok] by blast
  next
    fix d' assume "e = Ke_release d'"
    then show ?thesis using ok by (auto simp: release_doc_def Let_def intro: attempts_ok_update)
  next
    fix d' assume "e = Ke_claim_status d'"
    then show ?thesis using ok by (auto simp: claim_status_def Let_def intro: attempts_ok_update)
  next
    fix sid now worker d' assume "e = Ke_claim_meta sid now worker d'"
    then show ?thesis using attempts_ok_claim_meta [OF ok] by blast
  next
    fix sid now assume e: "e = Ke_heartbeat sid now"
    have "accounted int_of d (kr_handed s) (losses int_of d s (kr_sessions s sid))
        (heartbeat_docs isofmt now (kr_sessions s sid) (kr_db s))"
      unfolding losses_def using ok by (intro accounted_heartbeats) (auto simp: attempts_ok_def)
    then show ?thesis using ok e by (auto simp: attempts_ok_def losses_def find_doc_None)
  next
    fix sid now d' err assume e: "e = Ke_give_up sid now d' err"
    show ?thesis
    proof (cases "loaded_doc s sid d'")
      case None
      then show ?thesis using e keep(2) [of None] by (simp add: give_up_or_requeue_def)
    next
      case (Some doc)
      then show ?thesis using e keep(1) [OF Some] keep(2) [of "Some doc"]
        by (auto simp: give_up_or_requeue_def Let_def kept_attempt split: option.split)
    qed
  next
    fix sid now d' status err assume e: "e = Ke_status sid now d' status err"
    show ?thesis
    proof (cases "loaded_doc s sid d'")
      case None
      then show ?thesis using e keep(2) [of None] by (simp add: update_document_status_def)
    next
      case (Some doc)
      then show ?thesis using e keep(1) [OF Some kept_attempt(2)] by (simp add: update_document_status_def Let_def)
    qed
  }
qed

interpretation kb_queue: step_system "kb_step int_of isofmt limit_text d" "\<lambda>_. True" "attempts_ok int_of d"
  for int_of isofmt limit_text d
  by unfold_locales (rule attempts_ok_step)

section \<open>Properties\<close>

definition countable_docs :: "(string \<Rightarrow> int option) \<Rightarrow> kb_db \<Rightarrow> bool" where
  "countable_docs int_of db = (distinct (doc_ids db) \<and> list_all (readable int_of) (kb_documents db))"

text \<open>
  C34. How often a document is tried per admission. Sessions of any number of workers load documents and commit claims, heartbeats, failures, status
  writes and admissions in any order, each writing back the whole metadata it loaded, however old; sweeps and claims flip the status
  in between. Then the snapshots of a document handed out since its last admission are at most \<open>MAX_ATTEMPTS\<close>, plus what commits of
  sessions that had loaded an older count took away from the count of its attempts since then. So the limit holds as long as no session
  overwrites a newer count, also for documents that take their worker down with them, since a claim counts before the
  work starts; every try beyond it is paid for by a lost update. Document ids are distinct, and the counts there at the start are
  numbers and not negative.
\<close>

theorem claims_per_admission_bounded:
  assumes "countable_docs int_of db"
  shows "let s = run_steps (kb_step int_of isofmt limit_text d) es (new_run db)
         in int (kr_handed s) \<le> MAX_ATTEMPTS + int (kr_lost s)"
proof -
  have "accounted int_of d 0 0 db"
  proof (cases "find_doc d db")
    case (Some doc)
    then have "doc \<in> set (kb_documents db)" using find_by_SomeD [of kd_id d "kb_documents db" doc] by (simp add: find_doc_def)
    then show ?thesis using assms Some
      by (auto simp: countable_docs_def list_all_iff accounted_def readable_def split: option.splits)
  qed (simp add: accounted_def)
  then have "attempts_ok int_of d (new_run db)" using assms by (simp add: attempts_ok_def new_run_def countable_docs_def MAX_ATTEMPTS_def)
  then have "attempts_ok int_of d (run_steps (kb_step int_of isofmt limit_text d) es (new_run db))"
    by (intro kb_queue.inv_run) (simp_all add: list_all_iff)
  then show ?thesis by (simp add: attempts_ok_def Let_def)
qed

definition demo_doc :: kb_document where
  "demo_doc =
     \<lparr>kd_id = ''d1'', kd_kb_id = ''kb1'', kd_title = ''t'', kd_mime_type = ''text/plain'', kd_storage_key = ''s'',
      kd_status = ''processing'', kd_extra = Some [(''indexing_attempt'', JInt 0)], kd_uploaded_at = 0, kd_deleted_at = None\<rparr>"

definition demo_kb :: kb_db where
  "demo_kb = \<lparr>kb_documents = [demo_doc], kb_spaces = []\<rparr>"

definition demo_iso :: "time \<Rightarrow> string" where
  "demo_iso t = replicate (nat t) CHR ''1''"

definition demo_of_iso :: "string \<Rightarrow> time option" where
  "demo_of_iso s = Some (int (length s))"

text \<open>Claims that are swept again and again, as for a document that takes its worker down.\<close>

definition crash_rounds :: "nat \<Rightarrow> kb_event list" where
  "crash_rounds n = concat (replicate n [Ke_claim_status ''d1'', Ke_load 1 [''d1''], Ke_claim_meta 1 7 ''w'' ''d1'', Ke_release ''d1''])"

theorem claims_per_admission_bounded_witness:
  "let s = run_steps (kb_step (\<lambda>_. None) demo_iso [] ''d1'') (crash_rounds 5) (new_run demo_kb)
   in kr_lost s = 0 \<and> kr_handed s = 3 \<and> int (kr_handed s) \<le> MAX_ATTEMPTS + int (kr_lost s)"
proof -
  let ?s = "run_steps (kb_step (\<lambda>_. None) demo_iso [] ''d1'') (crash_rounds 5) (new_run demo_kb)"
  have "countable_docs (\<lambda>_. None) demo_kb" by code_simp
  note bound = claims_per_admission_bounded [OF this, of demo_iso "[]" "''d1''" "crash_rounds 5"]
  have "kr_lost ?s = 0" "kr_handed ?s = 3" by code_simp+
  then show ?thesis using bound by (simp add: Let_def)
qed

lemma release_loop_beating:
  assumes "\<And>x. x \<in> set (kb_documents db) \<Longrightarrow> kd_id x = d \<Longrightarrow> beating of_iso t x" and "set docs \<subseteq> set (kb_documents db)"
    and "find_doc d db' = find_doc d db"
  shows "find_doc d (snd (release_loop of_iso t docs db')) = find_doc d db"
  using assms(2,3)
proof (induction docs arbitrary: db')
  case (Cons x docs)
  have other: "find_doc d (snd (release_doc (kd_id x) db')) = find_doc d db'" if "kd_id x \<noteq> d"
    using that find_docD [of d db'] by (cases "find_doc d db'") (auto simp: release_doc_def Let_def find_doc_update)
  show ?case
  proof (cases "beating of_iso t x")
    case False
    then have "kd_id x \<noteq> d" using assms(1) [of x] Cons.prems(1) by auto
    then show ?thesis using Cons other False by (auto split: prod.split) (metis snd_conv)
  qed (use Cons in simp)
qed simp

lemma updated_doc:
  assumes "x \<in> set (kb_documents (update_docs (\<lambda>x. kd_id x = d) f db))" and "kd_id x = d"
  shows "\<exists>y. x = f y"
  using assms(1) unfolding update_docs_def
  by (simp add: set_update_where) (use assms(2) in blast)

text \<open>
  A live claim is safe from the sweep: once a worker has completed its claim, no sweep within the next thirty minutes gives the document to
  anyone else, if \<open>fromisoformat\<close> reads back what \<open>isoformat\<close> wrote.
\<close>

theorem live_claim_is_not_swept:
  assumes "claim_meta int_of isofmt limit_text now worker (Some doc) db = (Inr (Some snap), db1)"
    and "of_iso (isofmt now) = Some now" and "isofmt now \<noteq> []" and "t < now + STALE_AFTER"
  shows "find_doc (kd_id doc) (snd (release_stale of_iso t db1)) = find_doc (kd_id doc) db1"
proof -
  obtain m where m: "int_or_zero int_of (meta_get F_ATTEMPT (meta_of doc)) = Some m"
    using assms(1) by (cases "int_or_zero int_of (meta_get F_ATTEMPT (meta_of doc))") (simp_all add: claim_meta_def)
  let ?meta = "dict_put F_HEARTBEAT (JStr (isofmt now)) (dict_put F_CLAIMED_BY (JStr worker) (dict_put F_ATTEMPT (JInt (m + 1)) (meta_of doc)))"
  have db1: "db1 = write_doc doc ?meta (kd_status doc) db"
    using assms(1) m by (simp add: claim_meta_def Let_def split: if_splits)
  have "beating of_iso t x" if x: "x \<in> set (kb_documents db1)" "kd_id x = kd_id doc" for x
  proof -
    have "kd_extra x = Some ?meta" using updated_doc [OF x(1) [unfolded db1 write_doc_def] x(2)] by force
    then show ?thesis
      using assms(2-4) by (simp add: beating_def meta_of_def opt_dict_def meta_get_def parse_ts_def)
  qed
  moreover have "set (release_candidates db1) \<subseteq> set (kb_documents db1)"
    unfolding release_candidates_def using set_take_subset by fastforce
  ultimately show ?thesis unfolding release_stale_def by (intro release_loop_beating) auto
qed

theorem live_claim_is_not_swept_witness:
  "find_doc (kd_id demo_doc) (snd (release_stale demo_of_iso 1000 (snd (claim_meta (\<lambda>_. None) demo_iso [] 7 ''w'' (Some demo_doc) demo_kb))))
     = find_doc (kd_id demo_doc) (snd (claim_meta (\<lambda>_. None) demo_iso [] 7 ''w'' (Some demo_doc) demo_kb))"
proof (rule live_claim_is_not_swept)
  let ?r = "claim_meta (\<lambda>_. None) demo_iso [] 7 ''w'' (Some demo_doc) demo_kb"
  show "?r = (Inr (Some (case fst ?r of Inr (Some s) \<Rightarrow> s)), snd ?r)"
    by (simp add: claim_meta_def demo_kb_def demo_doc_def meta_of_def opt_dict_def meta_get_def dict_get_def
        kb_names int_or_zero_def py_true_def MAX_ATTEMPTS_def Let_def)
  show "demo_of_iso (demo_iso 7) = Some 7" "demo_iso 7 \<noteq> []" "(1000::time) < 7 + STALE_AFTER"
    by (simp_all add: demo_iso_def demo_of_iso_def STALE_AFTER_def seconds_def)
qed

section \<open>Where the guards are not enough\<close>

lemma claim_status_doc:
  assumes "find_doc d db = Some doc" and "kd_status doc = STATUS_QUEUED"
  shows "fst (claim_status d db)" and "find_doc d (snd (claim_status d db)) = Some (doc\<lparr>kd_status := STATUS_RUNNING\<rparr>)"
proof -
  have doc: "doc \<in> set (kb_documents db)" "kd_id doc = d"
    using assms(1) find_by_SomeD [of kd_id d "kb_documents db" doc] unfolding find_doc_def by simp_all
  then show "fst (claim_status d db)" using assms(2) by (auto simp: claim_status_def Let_def affected_pos)
  show "find_doc d (snd (claim_status d db)) = Some (doc\<lparr>kd_status := STATUS_RUNNING\<rparr>)"
    using assms doc(2) by (simp add: claim_status_def Let_def find_doc_update)
qed

lemma release_doc_doc:
  assumes "find_doc d db = Some doc"
  shows "find_doc d (snd (release_doc d' db)) =
    Some (if d' = d \<and> kd_status doc = STATUS_RUNNING then doc\<lparr>kd_status := STATUS_QUEUED\<rparr> else doc)"
  using assms find_docD [OF assms] by (auto simp: release_doc_def Let_def find_doc_update)

lemma release_loop_step:
  "\<not> beating of_iso t x \<Longrightarrow>
   snd (release_loop of_iso t (x # docs) db) = snd (release_loop of_iso t docs (snd (release_doc (kd_id x) db)))"
  by (simp add: split_beta)

lemma release_loop_doc:
  assumes "\<And>x. x \<in> set docs \<Longrightarrow> kd_id x = d \<Longrightarrow> \<not> beating of_iso t x"
    and "find_doc d db = Some doc" and "kd_status doc = STATUS_QUEUED \<or> (kd_status doc = STATUS_RUNNING \<and> d \<in> kd_id ` set docs)"
  shows "find_doc d (snd (release_loop of_iso t docs db)) = Some (doc\<lparr>kd_status := STATUS_QUEUED\<rparr>)"
  using assms
proof (induction docs arbitrary: db doc)
  case (Cons x docs)
  have keep: "\<And>y. y \<in> set docs \<Longrightarrow> kd_id y = d \<Longrightarrow> \<not> beating of_iso t y" using Cons.prems(1) by simp
  show ?case
  proof (cases "beating of_iso t x")
    case True
    then have "kd_id x \<noteq> d" using Cons.prems(1) by auto
    then show ?thesis using Cons.IH [OF keep Cons.prems(2)] Cons.prems(3) True by auto
  next
    case False
    let ?doc = "if kd_id x = d \<and> kd_status doc = STATUS_RUNNING then doc\<lparr>kd_status := STATUS_QUEUED\<rparr> else doc"
    have "find_doc d (snd (release_loop of_iso t docs (snd (release_doc (kd_id x) db)))) = Some (?doc\<lparr>kd_status := STATUS_QUEUED\<rparr>)"
      using Cons.prems(3) by (intro Cons.IH [OF keep release_doc_doc [OF Cons.prems(2)]]) (auto simp: kb_names)
    moreover have "?doc\<lparr>kd_status := STATUS_QUEUED\<rparr> = doc\<lparr>kd_status := STATUS_QUEUED\<rparr>" by simp
    ultimately show ?thesis using release_loop_step [OF False] by simp
  qed
qed auto

lemma claim_meta_doc:
  assumes "find_doc d db = Some doc" and "attempt_of int_of doc = Some n" and "0 \<le> n" and "n < MAX_ATTEMPTS"
  obtains snap doc' where "fst (claim_meta int_of isofmt limit_text now worker (Some doc) db) = Inr (Some snap)" "sn_document_id snap = d"
    and "find_doc d (snd (claim_meta int_of isofmt limit_text now worker (Some doc) db)) = Some doc'" "attempt_of int_of doc' = Some (n + 1)"
proof -
  have id: "kd_id doc = d" by (rule find_docD [OF assms(1)])
  have "int_or_zero int_of (meta_get F_ATTEMPT (dict_put F_HEARTBEAT (JStr (isofmt now)) (dict_put F_CLAIMED_BY (JStr worker)
      (dict_put F_ATTEMPT (JInt (n + 1)) (meta_of doc))))) = Some (n + 1)"
    using assms(3) by (simp add: meta_get_def kb_names int_or_zero_def py_true_def)
  then show ?thesis
    using assms id that
    by (simp add: claim_meta_def attempt_of_def [symmetric] Let_def snapshot_of_def find_doc_write attempt_of_meta)
qed

lemma load_one:
  assumes "distinct (doc_ids db)" and "find_doc d db = Some doc"
  shows "load_docs [d] db = [doc]"
proof -
  have "filter (\<lambda>x. kd_id x = d) docs = [doc]" if "distinct (map kd_id docs)" "find_by kd_id d docs = Some doc" for docs
    using that by (induction docs) (force simp: filter_empty_conv image_iff split: if_splits)+
  then show ?thesis using assms by (simp add: load_docs_def doc_ids_def find_doc_def)
qed

text \<open>
  The count of attempts does not survive sessions that overlap. In each round here a heartbeat loads the document before a claim
  writes its attempt, and commits after it, so the older count is back; the sweep then requeues the document. The document is
  handed out once per round, without a limit, although it is never admitted again.
\<close>

definition overlap_round :: "string \<Rightarrow> time \<Rightarrow> kb_event list" where
  "overlap_round d now = [Ke_claim_status d, Ke_load 1 [d], Ke_load 2 [d], Ke_claim_meta 2 now ''w'' d, Ke_heartbeat 1 now, Ke_release d]"

definition untried :: "(string \<Rightarrow> int option) \<Rightarrow> string \<Rightarrow> kb_run \<Rightarrow> bool" where
  "untried int_of d s \<longleftrightarrow>
     distinct (doc_ids (kr_db s)) \<and> Option.bind (find_doc d (kr_db s)) (attempt_of int_of) = Some 0"

lemma overlap_round_once:
  assumes "untried int_of d s" and "s' = run_steps (kb_step int_of isofmt limit_text d) (overlap_round d now) s"
  shows "untried int_of d s' \<and> kr_handed s' = Suc (kr_handed s)"
proof -
  define db1 where "db1 = snd (claim_status d (kr_db s))"
  obtain doc where doc: "find_doc d (kr_db s) = Some doc" "attempt_of int_of doc = Some 0"
    using assms(1) by (auto simp: untried_def bind_eq_Some_conv)
  have ids: "distinct (doc_ids db1)" using assms(1) by (simp add: db1_def claim_status_def Let_def untried_def)
  obtain doc1 where doc1: "find_doc d db1 = Some doc1" "attempt_of int_of doc1 = Some 0"
    using doc by (auto simp: db1_def claim_status_def Let_def find_doc_update)
  have id: "kd_id doc1 = d" by (rule find_docD [OF doc1(1)])
  note load = load_one [OF ids doc1(1)]
  define r where "r = claim_meta int_of isofmt limit_text now ''w'' (Some doc1) db1"
  obtain snap doc2 where r: "fst r = Inr (Some snap)" "find_doc d (snd r) = Some doc2"
    unfolding r_def by (rule claim_meta_doc [OF doc1, of isofmt limit_text now "''w''"]) (simp_all add: MAX_ATTEMPTS_def)
  have r_ids: "doc_ids (snd r) = doc_ids db1"
    by (simp add: r_def claim_meta_def Let_def split: option.split)
  let ?beat = "heartbeat_docs isofmt now [doc1] (snd r)"
  have beat: "Option.bind (find_doc d ?beat) (attempt_of int_of) = Some 0"
    using r(2) id doc1(2) by (simp add: heartbeat_docs_def find_doc_write attempt_of_meta kept_attempt) (simp add: attempt_of_def)
  have s': "kr_db s' = snd (release_doc d ?beat)" "kr_handed s' = Suc (kr_handed s)"
    using assms(2) load id r(1)
    by (simp_all add: overlap_round_def db1_def [symmetric] loaded_doc_def r_def [symmetric] Let_def split_beta)
  have "Option.bind (find_doc d (kr_db s')) (attempt_of int_of) = Some 0"
    using beat unfolding s'(1) by (cases "find_doc d ?beat") (simp_all add: release_doc_def Let_def find_doc_update)
  moreover have "distinct (doc_ids (kr_db s'))" using ids unfolding s'(1) by (simp add: release_doc_def Let_def r_ids)
  ultimately show ?thesis using s'(2) by (simp add: untried_def)
qed

theorem overlapping_heartbeats_defeat_the_limit:
  assumes "distinct (doc_ids db)" and "find_doc d db = Some doc" and "attempt_of int_of doc = Some 0"
  shows "kr_handed (run_steps (kb_step int_of isofmt limit_text d) (concat (replicate n (overlap_round d now))) (new_run db)) = n"
proof -
  have "untried int_of d s \<Longrightarrow>
      kr_handed (run_steps (kb_step int_of isofmt limit_text d) (concat (replicate n (overlap_round d now))) s) = kr_handed s + n" for s
  proof (induction n arbitrary: s)
    case (Suc n)
    show ?case using overlap_round_once [OF Suc.prems refl, of isofmt limit_text now] Suc.IH by (simp add: run_steps_append)
  qed simp
  then show ?thesis using assms by (simp add: untried_def new_run_def)
qed

theorem overlapping_heartbeats_defeat_the_limit_witness:
  "MAX_ATTEMPTS < int (kr_handed (run_steps (kb_step (\<lambda>_. None) demo_iso [] ''d1'') (concat (replicate 9 (overlap_round ''d1'' 7))) (new_run demo_kb)))"
proof -
  have "distinct (doc_ids demo_kb)" by code_simp
  moreover have "find_doc ''d1'' demo_kb = Some demo_doc" by (simp add: find_doc_def demo_kb_def demo_doc_def)
  moreover have "attempt_of (\<lambda>_. None) demo_doc = Some 0" by code_simp
  ultimately show ?thesis
    using overlapping_heartbeats_defeat_the_limit [of demo_kb "''d1''" demo_doc "\<lambda>_. None" demo_iso "[]" 9 7] by (simp add: MAX_ATTEMPTS_def)
qed

lemma release_stale_doc:
  assumes "find_doc d db = Some doc" and "kd_status doc = STATUS_RUNNING" and "kd_deleted_at doc = None"
    and "dict_get F_HEARTBEAT (meta_of doc) = None"
    and "distinct (map kd_id (kb_documents db))" and "length (kb_documents db) \<le> 200"
  shows "find_doc d (snd (release_stale of_iso t db)) = Some (doc\<lparr>kd_status := STATUS_QUEUED\<rparr>)"
  unfolding release_stale_def
proof (rule release_loop_doc [OF _ assms(1)])
  have doc: "doc \<in> set (kb_documents db)" "kd_id doc = d"
    using find_by_SomeD [of kd_id d "kb_documents db" doc] assms(1) unfolding find_doc_def by simp_all
  have "length (filter (\<lambda>x. kd_status x = STATUS_RUNNING \<and> kd_deleted_at x = None) (kb_documents db)) \<le> 200"
    using length_filter_le [of _ "kb_documents db"] assms(6) le_trans by blast
  then have cands: "release_candidates db = filter (\<lambda>x. kd_status x = STATUS_RUNNING \<and> kd_deleted_at x = None) (kb_documents db)"
    by (simp add: release_candidates_def)
  show "\<not> beating of_iso t x" if "x \<in> set (release_candidates db)" "kd_id x = d" for x
  proof -
    have "x \<in> set (kb_documents db)" using that(1) unfolding cands by simp
    then have "x = doc" using find_by_unique [OF assms(5), of x d] that(2) assms(1) by (simp add: find_doc_def)
    then show ?thesis using assms(4) by (simp add: beating_def meta_get_def parse_ts_def)
  qed
  have "doc \<in> set (release_candidates db)" unfolding cands using doc(1) assms(2,3) by simp
  then have "kd_id doc \<in> kd_id ` set (release_candidates db)" by (rule imageI)
  then show "kd_status doc = STATUS_QUEUED \<or> (kd_status doc = STATUS_RUNNING \<and> d \<in> kd_id ` set (release_candidates db))"
    using doc(2) assms(2) by simp
qed

text \<open>
  A claim in its first moments can be taken away: between the commit that flips the status and the one that writes the heartbeat a
  document has no heartbeat, so a sweep, which a worker makes when it starts, puts it back into the queue, a second worker claims it, and
  both get a snapshot of the same document and index it side by side.
\<close>

theorem two_workers_index_one_document:
  assumes "find_doc d db = Some doc" and "kd_status doc = STATUS_QUEUED" and "kd_deleted_at doc = None"
    and "dict_get F_HEARTBEAT (meta_of doc) = None" and "attempt_of int_of doc = Some 0"
    and "distinct (map kd_id (kb_documents db))" and "length (kb_documents db) \<le> 200"
    and "db1 = snd (claim_status d db)" and "db2 = snd (release_stale of_iso t db1)" and "db3 = snd (claim_status d db2)"
    and "r1 = claim_meta int_of isofmt limit_text now1 ''w1'' (find_doc d db3) db3"
    and "r2 = claim_meta int_of isofmt limit_text now2 ''w2'' (find_doc d (snd r1)) (snd r1)"
  shows "fst (claim_status d db) \<and> fst (claim_status d db2)
    \<and> (\<exists>s1 s2. fst r1 = Inr (Some s1) \<and> fst r2 = Inr (Some s2) \<and> sn_document_id s1 = d \<and> sn_document_id s2 = d)"
proof -
  let ?running = "doc\<lparr>kd_status := STATUS_RUNNING\<rparr>" and ?queued = "doc\<lparr>kd_status := STATUS_QUEUED\<rparr>"
  note first = claim_status_doc [OF assms(1,2)]
  have docs1: "map kd_id (kb_documents db1) = map kd_id (kb_documents db)"
    unfolding assms(8) claim_status_def Let_def update_docs_def by (simp add: map_update_where)
  have size1: "length (kb_documents db1) = length (kb_documents db)" using docs1 by (metis length_map)
  have "find_doc d db1 = Some ?running" using first(2) assms(8) by simp
  then have "find_doc d db2 = Some (?running\<lparr>kd_status := STATUS_QUEUED\<rparr>)"
    unfolding assms(9) using docs1 size1 assms(3,4,6,7)
    by (intro release_stale_doc) (simp_all add: meta_of_def)
  then have f2: "find_doc d db2 = Some ?queued" by simp
  note second = claim_status_doc [OF f2]
  have f3: "find_doc d db3 = Some (?queued\<lparr>kd_status := STATUS_RUNNING\<rparr>)" using second(2) assms(10) by simp
  obtain s1 doc' where s1: "fst r1 = Inr (Some s1)" "sn_document_id s1 = d"
    and f4: "find_doc d (snd r1) = Some doc'" "attempt_of int_of doc' = Some (0 + 1)"
    unfolding assms(11) f3
    by (rule claim_meta_doc [OF f3, where n = 0 and int_of = int_of and isofmt = isofmt and limit_text = limit_text and now = now1 and worker = "''w1''"])
      (use assms(5) in \<open>auto simp: MAX_ATTEMPTS_def\<close>)
  obtain s2 where "fst r2 = Inr (Some s2)" "sn_document_id s2 = d"
    unfolding assms(12) f4(1)
    by (rule claim_meta_doc [OF f4, where isofmt = isofmt and limit_text = limit_text and now = now2 and worker = "''w2''"])
      (auto simp: MAX_ATTEMPTS_def)
  then show ?thesis using first(1) second(1) s1 by simp
qed

theorem two_workers_index_one_document_witness:
  "\<exists>s1 s2.
     let db3 = snd (claim_status ''d1'' (snd (release_stale demo_of_iso 0 (snd (claim_status ''d1'' demo_kb)))));
         r1 = claim_meta (\<lambda>_. None) demo_iso [] 1 ''w1'' (find_doc ''d1'' db3) db3
     in fst r1 = Inr (Some s1)
        \<and> fst (claim_meta (\<lambda>_. None) demo_iso [] 2 ''w2'' (find_doc ''d1'' (snd r1)) (snd r1)) = Inr (Some s2)
        \<and> sn_document_id s1 = ''d1'' \<and> sn_document_id s2 = ''d1''"
proof -
  have "find_doc ''d1'' demo_kb = Some demo_doc" "kd_status demo_doc = STATUS_QUEUED" "kd_deleted_at demo_doc = None"
    "dict_get F_HEARTBEAT (meta_of demo_doc) = None" "attempt_of (\<lambda>_. None) demo_doc = Some 0"
    "distinct (map kd_id (kb_documents demo_kb))" "length (kb_documents demo_kb) \<le> 200"
    by (simp_all add: find_doc_def demo_kb_def demo_doc_def kb_names meta_of_def opt_dict_def dict_get_def attempt_of_def
        meta_get_def int_or_zero_def py_true_def)
  from two_workers_index_one_document [OF this refl refl refl refl refl] show ?thesis unfolding Let_def by blast
qed

text \<open>
  A worker that reports a failure does not show that it still holds the claim: after another worker took the document over and finished it, a late
  failure puts the finished document back into the queue.
\<close>

lemma late_failure_requeues_finished_document:
  assumes "find_doc d db = Some doc" and "kd_status doc = STATUS_DONE" and "attempt_of int_of doc = Some n" and "n < MAX_ATTEMPTS"
  shows "\<exists>doc'. find_doc d (snd (give_up_or_requeue int_of isofmt now err (Some doc) db)) = Some doc' \<and> kd_status doc' = STATUS_QUEUED"
  using assms find_docD [OF assms(1)]
  by (simp add: give_up_or_requeue_def attempt_of_def [symmetric] find_doc_write STATUS_QUEUED_def STATUS_DONE_def)

section \<open>Status summary\<close>

lemma summarize_fold:
  "fold (\<lambda>item counts. (let c = classify_document_status normal_form (meta_get ''indexing_status'' item) in counts(c := counts c + 1)))
     items counts c =
   counts c + length (filter (\<lambda>item. classify_document_status normal_form (meta_get ''indexing_status'' item) = c) items)"
  by (induction items arbitrary: counts) (auto simp: Let_def)

text \<open>
  The status summary counts every document once, in the category of its status.
\<close>

theorem summary_counts_every_document:
  "summarize_document_statuses normal_form items c =
     length (filter (\<lambda>item. classify_document_status normal_form (meta_get ''indexing_status'' item) = c) items)
   \<and> summarize_document_statuses normal_form items Cat_indexed + summarize_document_statuses normal_form items Cat_processing
       + summarize_document_statuses normal_form items Cat_failed = length items"
proof
  have count: "summarize_document_statuses normal_form items c =
     length (filter (\<lambda>item. classify_document_status normal_form (meta_get ''indexing_status'' item) = c) items)" for c
    unfolding summarize_document_statuses_def summarize_fold by (simp add: empty_document_status_counts_def)
  then show "summarize_document_statuses normal_form items c =
     length (filter (\<lambda>item. classify_document_status normal_form (meta_get ''indexing_status'' item) = c) items)" .
  show "summarize_document_statuses normal_form items Cat_indexed + summarize_document_statuses normal_form items Cat_processing
       + summarize_document_statuses normal_form items Cat_failed = length items"
    unfolding count
  proof (induction items)
    case (Cons item items)
    then show ?case by (cases "classify_document_status normal_form (meta_get ''indexing_status'' item)") simp_all
  qed simp
qed

end
