(* ===== verification/Posix_Paths.thy ===== *)
theory Posix_Paths
  imports Prelude
begin

text \<open>
  What the sandbox and permission modules use of Python's strings and of \<open>posixpath\<close>, and the host they ask
  about files. The lexical functions (\<open>str.split\<close>, \<open>str.join\<close>, \<open>normpath\<close>, \<open>join\<close>, \<open>dirname\<close>) are defined as the
  standard library defines them; what depends on the file system or the environment (\<open>getcwd\<close>, \<open>expanduser\<close>,
  \<open>realpath\<close>, \<open>exists\<close>, \<open>islink\<close>, \<open>isdir\<close>) is a field of the record \<open>os_host\<close>. The interface \<open>path_tree\<close> is what a
  containment test on paths promises: the ancestors of a path form a chain, ordered by depth.
\<close>

section \<open>Strings\<close>

fun split_on :: "char \<Rightarrow> string \<Rightarrow> string list" where
  "split_on c [] = [[]]"
| "split_on c (x # xs) =
     (if x = c then [] # split_on c xs
      else case split_on c xs of [] \<Rightarrow> [[x]] | w # ws \<Rightarrow> (x # w) # ws)"

fun str_join :: "string \<Rightarrow> string list \<Rightarrow> string" where
  "str_join s [] = []"
| "str_join s [x] = x"
| "str_join s (x # y # zs) = x @ s @ str_join s (y # zs)"

definition rstrip_char :: "char \<Rightarrow> string \<Rightarrow> string" where
  "rstrip_char c s = rev (dropWhile (\<lambda>x. x = c) (rev s))"

text \<open>\<open>str.isspace\<close> on the characters of Latin-1, which is also what \<open>strip\<close>, \<open>split\<close> and \<open>\s\<close> use.\<close>

definition is_space :: "char \<Rightarrow> bool" where
  "is_space c = (let n = of_char c :: nat in (9 \<le> n \<and> n \<le> 13) \<or> (28 \<le> n \<and> n \<le> 32) \<or> n = 133 \<or> n = 160)"

definition strip :: "string \<Rightarrow> string" where
  "strip s = rev (dropWhile is_space (rev (dropWhile is_space s)))"

lemma split_on_ne [simp]: "split_on c s \<noteq> []"
  by (cases s) (auto split: list.split)

lemma split_on_append:
  assumes "c \<notin> set w"
  shows "split_on c (w @ c # s) = w # split_on c s"
  using assms by (induction w) auto

lemma split_on_free: "c \<notin> set w \<Longrightarrow> split_on c w = [w]"
  by (induction w) auto

lemma split_on_parts: "w \<in> set (split_on c s) \<Longrightarrow> c \<notin> set w"
proof (induction s arbitrary: w)
  case (Cons x s)
  obtain v vs where v: "split_on c s = v # vs" by (meson neq_Nil_conv split_on_ne)
  show ?case using Cons.prems Cons.IH v by (cases "x = c") force+
qed simp

section \<open>Lexical operations of posixpath\<close>

definition isabs :: "string \<Rightarrow> bool" where
  "isabs p = (take 1 p = ''/'')"

definition path_join :: "string \<Rightarrow> string \<Rightarrow> string" where
  "path_join a b =
     (if isabs b \<or> a = [] then b else if last a = CHR ''/'' then a @ b else a @ ''/'' @ b)"

definition dirname :: "string \<Rightarrow> string" where
  "dirname p =
     (let head = rev (dropWhile (\<lambda>c. c \<noteq> CHR ''/'') (rev p))
      in if list_all (\<lambda>c. c = CHR ''/'') head then head else rstrip_char (CHR ''/'') head)"

definition basename :: "string \<Rightarrow> string" where
  "basename p = rev (takeWhile (\<lambda>c. c \<noteq> CHR ''/'') (rev p))"

text \<open>\<open>new_comps\<close> is built as a stack whose head is the last component.\<close>

fun norm_comps :: "bool \<Rightarrow> string list \<Rightarrow> string list \<Rightarrow> string list" where
  "norm_comps rooted st [] = st"
| "norm_comps rooted st (c # cs) =
     (if c = [] \<or> c = ''.'' then norm_comps rooted st cs
      else if c \<noteq> ''..'' \<or> (\<not> rooted \<and> st = []) \<or> (st \<noteq> [] \<and> hd st = ''..'') then norm_comps rooted (c # st) cs
      else norm_comps rooted (tl st) cs)"

definition initial_slashes :: "string \<Rightarrow> nat" where
  "initial_slashes p =
     (if \<not> isabs p then 0 else if take 2 p = ''//'' \<and> take 3 p \<noteq> ''///'' then 2 else 1)"

definition normpath :: "string \<Rightarrow> string" where
  "normpath p =
     (if p = [] then ''.''
      else let q = replicate (initial_slashes p) (CHR ''/'') @
                     str_join ''/'' (rev (norm_comps (0 < initial_slashes p) [] (split_on (CHR ''/'') p)))
           in if q = [] then ''.'' else q)"

section \<open>The host\<close>

record os_host =
  h_cwd :: string
  h_expanduser :: "string \<Rightarrow> string"
  h_realpath :: "string \<Rightarrow> string"
  h_exists :: "string \<Rightarrow> bool"
  h_islink :: "string \<Rightarrow> bool"
  h_isdir :: "string \<Rightarrow> bool"

definition abspath :: "os_host \<Rightarrow> string \<Rightarrow> string" where
  "abspath h p = normpath (if isabs p then p else path_join (h_cwd h) p)"

text \<open>A host whose paths are all literal, for concrete instances.\<close>

definition plain_host :: os_host where
  "plain_host = \<lparr>h_cwd = ''/'', h_expanduser = id, h_realpath = normpath, h_exists = (\<lambda>_. True), h_islink = (\<lambda>_. False),
                 h_isdir = (\<lambda>_. True)\<rparr>"

section \<open>Components\<close>

text \<open>
  The components of a path, and the clean paths: absolute, one leading slash, no empty component. On
  these a containment test by string prefixes is the prefix order on component lists.
\<close>

definition comps :: "string \<Rightarrow> string list" where
  "comps p = filter (\<lambda>c. c \<noteq> []) (split_on (CHR ''/'') p)"

definition path_of :: "string list \<Rightarrow> string" where
  "path_of cs = CHR ''/'' # str_join ''/'' cs"

definition comp_ok :: "string \<Rightarrow> bool" where
  "comp_ok c = (c \<noteq> [] \<and> CHR ''/'' \<notin> set c)"

definition clean :: "string \<Rightarrow> bool" where
  "clean p = (p = path_of (comps p))"

lemma comps_ok: "list_all comp_ok (comps p)"
  by (auto simp: comps_def comp_ok_def list_all_iff dest: split_on_parts)

lemma comps_Nil [simp]: "comps [] = []"
  by (simp add: comps_def)

lemma comps_slash [simp]: "comps (CHR ''/'' # p) = comps p"
  by (simp add: comps_def)

lemma comps_join: "list_all comp_ok cs \<Longrightarrow> comps (str_join ''/'' cs) = cs"
proof (induction "''/''" cs rule: str_join.induct)
  case (2 x)
  then show ?case by (simp add: comps_def comp_ok_def split_on_free)
next
  case (3 x y zs)
  then have "comps (x @ ''/'' @ str_join ''/'' (y # zs)) = x # comps (str_join ''/'' (y # zs))"
    by (simp add: comps_def comp_ok_def split_on_append)
  with 3 show ?case by simp
qed simp

lemma comps_path_of: "list_all comp_ok cs \<Longrightarrow> comps (path_of cs) = cs"
  by (simp add: path_of_def comps_join)

lemma clean_path_of: "list_all comp_ok cs \<Longrightarrow> clean (path_of cs)"
  by (simp add: clean_def comps_path_of)

lemma clean_eqI: "clean p \<Longrightarrow> clean q \<Longrightarrow> comps p = comps q \<Longrightarrow> p = q"
  by (metis clean_def)

lemma clean_root [simp]: "clean ''/''"
  by (simp add: clean_def path_of_def comps_def)

text \<open>A clean path other than the root is a sequence of components, each led by a slash.\<close>

definition flat :: "string list \<Rightarrow> string" where
  "flat cs = concat (map (\<lambda>c. CHR ''/'' # c) cs)"

lemma path_of_flat: "cs \<noteq> [] \<Longrightarrow> path_of cs = flat cs"
  unfolding path_of_def by (induction "''/''" cs rule: str_join.induct) (auto simp: flat_def)

lemma flat_simps [simp]: "flat [] = []" "flat (c # cs) = CHR ''/'' # c @ flat cs"
  by (simp_all add: flat_def)

lemma prefix_comp:
  assumes "CHR ''/'' \<notin> set c" "CHR ''/'' \<notin> set d"
  shows "prefix (c @ CHR ''/'' # x) (d @ y) \<longleftrightarrow> c = d \<and> prefix (CHR ''/'' # x) y \<or>
           (\<exists>e. c = d @ e \<and> e \<noteq> [] \<and> prefix (e @ CHR ''/'' # x) y)"
  using assms
proof (induction c arbitrary: d)
  case Nil
  then show ?case by (cases d) auto
next
  case (Cons a c)
  then show ?case by (cases d) (auto simp: prefix_Cons)
qed

lemma prefix_flat:
  assumes "list_all comp_ok cs" "list_all comp_ok ds"
  shows "prefix (flat cs @ ''/'') (flat ds) \<longleftrightarrow> strict_prefix cs ds"
  using assms
proof (induction cs arbitrary: ds)
  case Nil
  then show ?case by (cases ds) auto
next
  case (Cons c cs)
  show ?case
  proof (cases ds)
    case Nil
    then show ?thesis by simp
  next
    case (Cons d ds')
    have ok: "CHR ''/'' \<notin> set c" "CHR ''/'' \<notin> set d" "c \<noteq> []"
      using Cons.prems Cons by (auto simp: comp_ok_def)
    have hd_flat: "prefix (CHR ''/'' # z) (flat zs) \<Longrightarrow> zs \<noteq> []" for z zs by (cases zs) auto
    have step: "prefix (c @ flat cs @ ''/'') (d @ flat ds') \<longleftrightarrow> c = d \<and> prefix (flat cs @ ''/'') (flat ds')"
    proof (cases cs)
      case Nil
      show ?thesis using prefix_comp [OF ok(1,2), of "[]" "flat ds'"] ok Nil
        by (cases ds') (auto simp: prefix_Cons Cons_eq_append_conv append_eq_Cons_conv)
    next
      case (Cons c' cs')
      show ?thesis using prefix_comp [OF ok(1,2), of "c' @ flat cs' @ ''/''" "flat ds'"] ok Cons
        by (cases ds') (auto simp: prefix_Cons Cons_eq_append_conv append_eq_Cons_conv)
    qed
    show ?thesis using Cons Cons.prems Cons.IH [of ds'] step by auto
  qed
qed


section \<open>Containment\<close>

text \<open>
  What clients use of a containment test \<open>within p r\<close> (\<open>p\<close> is \<open>r\<close> or lies beneath it) and a depth, on the
  paths \<open>ok\<close> singles out.
\<close>

locale path_tree =
  fixes ok :: "string \<Rightarrow> bool"
    and within :: "string \<Rightarrow> string \<Rightarrow> bool"
    and depth :: "string \<Rightarrow> nat"
  assumes within_refl: "ok p \<Longrightarrow> within p p"
    and within_trans: "ok p \<Longrightarrow> ok q \<Longrightarrow> ok r \<Longrightarrow> within p q \<Longrightarrow> within q r \<Longrightarrow> within p r"
    and within_chain: "ok p \<Longrightarrow> ok q \<Longrightarrow> ok r \<Longrightarrow> within p q \<Longrightarrow> within p r \<Longrightarrow> within q r \<or> within r q"
    and within_depth: "ok p \<Longrightarrow> ok q \<Longrightarrow> within p q \<Longrightarrow> depth q \<le> depth p"
    and within_same_depth: "ok p \<Longrightarrow> ok q \<Longrightarrow> within p q \<Longrightarrow> depth q = depth p \<Longrightarrow> q = p"
begin

lemma within_antisym: "ok p \<Longrightarrow> ok q \<Longrightarrow> within p q \<Longrightarrow> within q p \<Longrightarrow> p = q"
  using within_depth within_same_depth by (metis le_antisym)

text \<open>Of two ancestors of a path the deeper one lies within the other.\<close>

lemma deeper_within:
  assumes "ok p" "ok q" "ok r" "within p q" "within p r" "depth r \<le> depth q"
  shows "within q r"
  using within_chain [OF assms(1-5)] within_depth [OF assms(3,2)] within_same_depth [OF assms(3,2)]
    within_refl [OF assms(2)] assms(6) by auto

lemma same_ancestor: "ok p \<Longrightarrow> ok q \<Longrightarrow> ok r \<Longrightarrow> within p q \<Longrightarrow> within p r \<Longrightarrow> depth r = depth q \<Longrightarrow> r = q"
  using deeper_within [of p q r] within_same_depth [of q r] by simp

end

end
