(* ===== verification/Py_Shell.thy ===== *)
theory Py_Shell
  imports Posix_Paths
begin

text \<open>
  What the command classifier uses of Python's \<open>re\<close> and \<open>shlex\<close>, on strings over the 256 characters of Latin-1. A
  regular expression is a value of \<open>rx\<close> whose matches are computed as the list of positions a match can end at;
  a position is the character before it and the rest of the string, which is what \<open>^\<close>, \<open>\b\<close> and a negative
  lookahead need. \<open>search\<close> answers what \<open>bool(pattern.search(s))\<close> answers: the classifier never looks at a group of
  a search. The lexer is the one of \<open>shlex.shlex(posix=True)\<close> with \<open>whitespace_split\<close> and without comments.
\<close>

section \<open>Characters\<close>

definition is_digit :: "char \<Rightarrow> bool" where
  "is_digit c = (48 \<le> (of_char c :: nat) \<and> (of_char c :: nat) \<le> 57)"

definition is_upper :: "char \<Rightarrow> bool" where
  "is_upper c = (65 \<le> (of_char c :: nat) \<and> (of_char c :: nat) \<le> 90)"

definition is_lower :: "char \<Rightarrow> bool" where
  "is_lower c = (97 \<le> (of_char c :: nat) \<and> (of_char c :: nat) \<le> 122)"

definition is_letter :: "char \<Rightarrow> bool" where
  "is_letter c = (is_upper c \<or> is_lower c)"

text \<open>\<open>\w\<close>: letters, digits and underscore, and the letters and numbers of Latin-1 above ASCII.\<close>

definition is_word :: "char \<Rightarrow> bool" where
  "is_word c =
     (is_letter c \<or> is_digit c \<or> c = CHR ''_'' \<or>
      (let n = of_char c :: nat in
        n \<in> {170, 178, 179, 181, 185, 186, 188, 189, 190} \<or> (192 \<le> n \<and> n \<noteq> 215 \<and> n \<noteq> 247)))"

definition lower :: "char \<Rightarrow> char" where
  "lower c = (if is_upper c then char_of (of_char c + 32 :: nat) else c)"

section \<open>Regular expressions\<close>

datatype rx =
    One "char \<Rightarrow> bool"
  | Eps
  | Seq rx rx
  | Alt rx rx
  | Star rx
  | Bol
  | Wordb
  | Not_ahead "char \<Rightarrow> bool"

type_synonym rx_pos = "char option \<times> string"

definition word_at :: "char option \<Rightarrow> bool" where
  "word_at c = (case c of None \<Rightarrow> False | Some x \<Rightarrow> is_word x)"

definition next_char :: "string \<Rightarrow> char option" where
  "next_char s = (case s of [] \<Rightarrow> None | c # _ \<Rightarrow> Some c)"

primrec star_ends :: "(rx_pos \<Rightarrow> rx_pos list) \<Rightarrow> nat \<Rightarrow> rx_pos list \<Rightarrow> rx_pos list" where
  "star_ends f 0 acc = acc"
| "star_ends f (Suc n) acc = star_ends f n (remdups (acc @ concat (map f acc)))"

primrec ends :: "rx \<Rightarrow> rx_pos \<Rightarrow> rx_pos list" where
  "ends (One P) pos = (case snd pos of [] \<Rightarrow> [] | c # s \<Rightarrow> if P c then [(Some c, s)] else [])"
| "ends Eps pos = [pos]"
| "ends (Seq r q) pos = concat (map (ends q) (ends r pos))"
| "ends (Alt r q) pos = ends r pos @ ends q pos"
| "ends (Star r) pos = star_ends (ends r) (length (snd pos)) [pos]"
| "ends Bol pos = (if fst pos = None then [pos] else [])"
| "ends Wordb pos = (if word_at (fst pos) \<noteq> word_at (next_char (snd pos)) then [pos] else [])"
| "ends (Not_ahead P) pos = (case next_char (snd pos) of None \<Rightarrow> [pos] | Some c \<Rightarrow> if P c then [] else [pos])"

text \<open>\<open>pattern.match(s)\<close> starts at the beginning, \<open>pattern.search(s)\<close> anywhere.\<close>

definition rx_match :: "rx \<Rightarrow> string \<Rightarrow> bool" where
  "rx_match r s = (ends r (None, s) \<noteq> [])"

fun search_from :: "rx \<Rightarrow> char option \<Rightarrow> string \<Rightarrow> bool" where
  "search_from r prev [] = (ends r (prev, []) \<noteq> [])"
| "search_from r prev (c # s) = (ends r (prev, c # s) \<noteq> [] \<or> search_from r (Some c) s)"

definition search :: "rx \<Rightarrow> string \<Rightarrow> bool" where
  "search r s = search_from r None s"

text \<open>The constructs the patterns are written with; all are compiled with \<open>re.I\<close>.\<close>

definition chr :: "char \<Rightarrow> rx" where
  "chr c = One (\<lambda>x. lower x = lower c)"

definition cls :: "string \<Rightarrow> rx" where
  "cls cs = One (\<lambda>x. lower x \<in> set (map lower cs))"

definition ncls :: "string \<Rightarrow> rx" where
  "ncls cs = One (\<lambda>x. lower x \<notin> set (map lower cs))"

primrec lit :: "string \<Rightarrow> rx" where
  "lit [] = Eps"
| "lit (c # s) = Seq (chr c) (lit s)"

fun seqs :: "rx list \<Rightarrow> rx" where
  "seqs [] = Eps"
| "seqs [r] = r"
| "seqs (r # q # rs) = Seq r (seqs (q # rs))"

fun alts :: "rx list \<Rightarrow> rx" where
  "alts [] = One (\<lambda>_. False)"
| "alts [r] = r"
| "alts (r # q # rs) = Alt r (alts (q # rs))"

definition words :: "string list \<Rightarrow> rx" where
  "words ws = alts (map lit ws)"

definition opt :: "rx \<Rightarrow> rx" where
  "opt r = Alt r Eps"

definition plus :: "rx \<Rightarrow> rx" where
  "plus r = Seq r (Star r)"

definition space :: rx where
  "space = One is_space"

definition nonspace :: rx where
  "nonspace = One (\<lambda>c. \<not> is_space c)"

definition wordc :: rx where
  "wordc = One is_word"

definition digit :: rx where
  "digit = One is_digit"

definition letter :: rx where
  "letter = One is_letter"

definition dot :: rx where
  "dot = One (\<lambda>c. c \<noteq> CHR 0x0A)"

section \<open>Laws of matching\<close>

lemma star_ends_mono: "set acc \<subseteq> set (star_ends f n acc)"
proof (induction n arbitrary: acc)
  case (Suc n)
  then show ?case using Suc [of "remdups (acc @ concat (map f acc))"] by auto
qed simp

lemma ends_Star_zero: "pos \<in> set (ends (Star r) pos)"
  using star_ends_mono [of "[pos]" "ends r" "length (snd pos)"] by simp

lemma ends_Seq_mem: "q \<in> set (ends (Seq r s) pos) \<longleftrightarrow> (\<exists>m\<in>set (ends r pos). q \<in> set (ends s m))"
  by simp

lemma ends_opt_zero: "pos \<in> set (ends (opt r) pos)"
  by (simp add: opt_def)

lemma ends_lit: "(if s = [] then prev else Some (last s), rest) \<in> set (ends (lit s) (prev, s @ rest))"
  by (induction s arbitrary: prev) (auto simp: chr_def split: if_splits)

lemma ends_alts: "r \<in> set rs \<Longrightarrow> q \<in> set (ends r pos) \<Longrightarrow> q \<in> set (ends (alts rs) pos)"
  by (induction rs rule: alts.induct) auto

lemma ends_words:
  "w \<in> set ws \<Longrightarrow> w \<noteq> [] \<Longrightarrow> (Some (last w), rest) \<in> set (ends (words ws) (prev, w @ rest))"
  unfolding words_def using ends_lit [of w prev rest] by (intro ends_alts [of "lit w"]) auto

text \<open>Repeating a single-character class consumes any run of the class.\<close>

lemma ends_Star_run:
  assumes "list_all P xs"
  shows "(if xs = [] then prev else Some (last xs), rest) \<in> set (ends (Star (One P)) (prev, xs @ rest))"
proof -
  have "(if xs = [] then prev else Some (last xs), rest) \<in> set (star_ends (ends (One P)) n acc)"
    if "(prev, xs @ rest) \<in> set acc" "length xs \<le> n" "list_all P xs" for n acc prev xs
    using that
  proof (induction n arbitrary: acc prev xs)
    case 0
    then show ?case by simp
  next
    case (Suc n)
    show ?case
    proof (cases xs)
      case Nil
      then show ?thesis using Suc.prems(1) star_ends_mono by fastforce
    next
      case (Cons x ys)
      have "(Some x, ys @ rest) \<in> set (ends (One P) (prev, xs @ rest))" using Cons Suc.prems(3) by simp
      then have "(Some x, ys @ rest) \<in> set (remdups (acc @ concat (map (ends (One P)) acc)))"
        using Suc.prems(1) by (auto simp del: ends.simps)
      from Suc.IH [OF this] Suc.prems Cons show ?thesis by (auto simp del: ends.simps split: if_splits)
    qed
  qed
  from this [of prev xs "[(prev, xs @ rest)]" "length (xs @ rest)"] assms show ?thesis by simp
qed

lemma search_from_append:
  assumes "ends r (if pre = [] then prev else Some (last pre), s) \<noteq> []"
  shows "search_from r prev (pre @ s)"
  using assms
proof (induction pre arbitrary: prev)
  case Nil
  then show ?case by (cases s) auto
next
  case (Cons c pre)
  then show ?case by (cases pre) auto
qed

lemma search_fromI:
  "q \<in> set (ends r (if pre = [] then None else Some (last pre), s)) \<Longrightarrow> search r (pre @ s)"
  unfolding search_def by (rule search_from_append) (metis list.distinct(1) list.set_cases)

section \<open>The shell lexer\<close>

datatype lex_state = L_space | L_word | L_punct | L_quote char | L_escape "char option"

definition shell_white :: "char \<Rightarrow> bool" where
  "shell_white c = (c = CHR '' '' \<or> c = CHR 0x09 \<or> c = CHR 0x0D \<or> c = CHR 0x0A)"

definition shell_quote :: "char \<Rightarrow> bool" where
  "shell_quote c = (c = CHR 0x27 \<or> c = CHR 0x22)"

definition emit :: "string \<Rightarrow> bool \<Rightarrow> string list option \<Rightarrow> string list option" where
  "emit tok quoted rest = (if tok \<noteq> [] \<or> quoted then map_option (\<lambda>ts. tok # ts) rest else rest)"

text \<open>
  One call per character; \<open>L_escape e\<close> is the state after a backslash, with \<open>e\<close> the quote it occurred in. The result is
  \<open>None\<close> where the lexer raises \<open>ValueError\<close> (a quotation or an escape at the end of the input).
\<close>

fun lex :: "string \<Rightarrow> lex_state \<Rightarrow> string \<Rightarrow> bool \<Rightarrow> string \<Rightarrow> string list option" where
  "lex punct L_space tok quoted [] = Some []"
| "lex punct (L_quote q) tok quoted [] = None"
| "lex punct (L_escape e) tok quoted [] = None"
| "lex punct L_word tok quoted [] = emit tok quoted (Some [])"
| "lex punct L_punct tok quoted [] = emit tok quoted (Some [])"
| "lex punct L_space tok quoted (c # s) =
     (if shell_white c then lex punct L_space [] False s
      else if c = CHR 0x5C then lex punct (L_escape None) [] False s
      else if c \<in> set punct then lex punct L_punct [c] False s
      else if shell_quote c then lex punct (L_quote c) [] False s
      else lex punct L_word [c] False s)"
| "lex punct (L_quote q) tok quoted (c # s) =
     (if c = q then lex punct L_word tok True s
      else if c = CHR 0x5C \<and> q = CHR 0x22 then lex punct (L_escape (Some q)) tok True s
      else lex punct (L_quote q) (tok @ [c]) True s)"
| "lex punct (L_escape e) tok quoted (c # s) =
     (case e of
        None \<Rightarrow> lex punct L_word (tok @ [c]) quoted s
      | Some q \<Rightarrow>
          lex punct (L_quote q) ((if c \<noteq> CHR 0x5C \<and> c \<noteq> q then tok @ [CHR 0x5C] else tok) @ [c]) quoted s)"
| "lex punct L_word tok quoted (c # s) =
     (if shell_white c then emit tok quoted (lex punct L_space [] False s)
      else if shell_quote c then lex punct (L_quote c) tok quoted s
      else if c = CHR 0x5C then lex punct (L_escape None) tok quoted s
      else if c \<notin> set punct then lex punct L_word (tok @ [c]) quoted s
      else emit tok quoted (lex punct L_punct [c] False s))"
| "lex punct L_punct tok quoted (c # s) =
     (if shell_white c then emit tok quoted (lex punct L_space [] False s)
      else if c \<in> set punct then lex punct L_punct (tok @ [c]) quoted s
      else emit tok quoted
             (if c = CHR 0x5C then lex punct (L_escape None) [] False s
              else if shell_quote c then lex punct (L_quote c) [] False s
              else lex punct L_word [c] False s))"

definition shlex_tokens :: "string \<Rightarrow> string \<Rightarrow> string list option" where
  "shlex_tokens punct s = lex punct L_space [] False s"

definition shlex_split :: "string \<Rightarrow> string list option" where
  "shlex_split s = shlex_tokens [] s"

text \<open>\<open>str.split()\<close>: the maximal runs of characters that are not white space.\<close>

fun split_ws :: "string \<Rightarrow> string \<Rightarrow> string list" where
  "split_ws w [] = (if w = [] then [] else [w])"
| "split_ws w (c # s) = (if is_space c then (if w = [] then [] else [w]) @ split_ws [] s else split_ws (w @ [c]) s)"

end
