(* ===== verification/Confirm_Gate.thy ===== *)
theory Confirm_Gate
  imports Py_Shell
begin

text \<open>
  The confirmation gate, \<open>core/llm/tools/_myspace_confirm.py\<close>: a tool call that needs the user's consent registers a
  pending confirmation and suspends until the user decides, a timeout or a cancellation. Concurrent calls on the same target share
  one confirmation, and of those only one performs the operation.

  The registry of the process is a record: the chats with their pending confirmations, and the pending
  objects themselves in a store, since a suspended call keeps its object independently of the registry. A
  call is split where it suspends: \<open>gate_enter\<close> up to the wait, \<open>gate_resume\<close> the critical section after it. A
  suspended call may resume at any time (its event, its timeout or a cancellation), which covers every schedule of the
  event loop. The wording of messages, and the drain of the signal queue by the stream, are not modelled.
\<close>

section \<open>State\<close>

record pending =
  pn_op :: string
  pn_path :: string
  pn_summary :: string
  pn_ts :: time
  pn_decision :: "string option"
  pn_waiters :: int
  pn_performed :: bool
  pn_kind :: string
  pn_payload :: "(string \<times> dict list) option"
  pn_choice :: "string option"

type_synonym confirm_key = "string \<times> string"

record pending_info =
  pi_confirm_id :: string
  pi_op :: string
  pi_logical_path :: string
  pi_message :: string
  pi_kind :: string
  pi_pick :: "(string \<times> dict list) option"

datatype ui_signal = Ui_show pending_info | Ui_expired string string string string bool

record chat_confirm =
  cf_pending :: "string list"
  cf_key_index :: "(confirm_key \<times> string) list"
  cf_session_allows :: "(string \<times> string) list"
  cf_ui_signals :: "ui_signal list option"
  cf_last_ts :: time

record registry =
  rg_chats :: "(string \<times> chat_confirm) list"
  rg_objs :: "string \<Rightarrow> pending option"

definition empty_registry :: registry where
  "empty_registry = \<lparr>rg_chats = [], rg_objs = (\<lambda>_. None)\<rparr>"

definition TTL_S :: int where
  "TTL_S = 1800 * 1000000"

definition obj_of :: "registry \<Rightarrow> string \<Rightarrow> pending option" where
  "obj_of r cid = rg_objs r cid"

definition put_chat :: "string \<Rightarrow> chat_confirm \<Rightarrow> registry \<Rightarrow> registry" where
  "put_chat c st r = r\<lparr>rg_chats := dict_put c st (rg_chats r)\<rparr>"

definition put_obj :: "string \<Rightarrow> pending \<Rightarrow> registry \<Rightarrow> registry" where
  "put_obj cid p r = r\<lparr>rg_objs := (rg_objs r)(cid \<mapsto> p)\<rparr>"

text \<open>The entries of \<open>st.pending.items()\<close>, in order.\<close>

definition pending_items :: "registry \<Rightarrow> chat_confirm \<Rightarrow> (string \<times> pending) list" where
  "pending_items r st = concat (map (\<lambda>cid. case rg_objs r cid of None \<Rightarrow> [] | Some p \<Rightarrow> [(cid, p)]) (cf_pending st))"

section \<open>Session grants\<close>

definition is_local_path_kind :: "string \<Rightarrow> bool" where
  "is_local_path_kind kind = prefix ''local_path:'' kind"

definition is_tool_kind :: "string \<Rightarrow> bool" where
  "is_tool_kind kind = (kind = ''tool_permission'' \<or> prefix ''tool:'' kind)"

definition real_user_path :: "os_host \<Rightarrow> string \<Rightarrow> string" where
  "real_user_path h p = h_realpath h (h_expanduser h p)"

definition session_scope :: "os_host \<Rightarrow> string \<Rightarrow> string \<Rightarrow> string" where
  "session_scope h kind logical_path =
     (if is_local_path_kind kind
      then let resolved = real_user_path h logical_path; parent = dirname resolved in if parent = [] then resolved else parent
      else if kind = ''local_cmd''
      then (case (case shlex_split logical_path of Some ps \<Rightarrow> ps | None \<Rightarrow> split_ws [] logical_path) of
              [] \<Rightarrow> [] | p # _ \<Rightarrow> p)
      else [])"

definition scope_covers :: "os_host \<Rightarrow> string \<Rightarrow> string \<Rightarrow> string \<Rightarrow> bool" where
  "scope_covers h kind granted logical_path =
     (if is_local_path_kind kind
      then (if granted = [] then False
            else let target = real_user_path h logical_path
                 in target = granted \<or> prefix (rstrip_char (CHR ''/'') granted @ ''/'') target)
      else if kind = ''local_cmd'' then granted \<noteq> [] \<and> session_scope h kind logical_path = granted
      else True)"

section \<open>Registry\<close>

definition gc :: "time \<Rightarrow> registry \<Rightarrow> registry" where
  "gc now r = r\<lparr>rg_chats := filter (\<lambda>(c, st). \<not> (now - cf_last_ts st > TTL_S \<and> cf_pending st = [])) (rg_chats r)\<rparr>"

definition new_chat :: "time \<Rightarrow> chat_confirm" where
  "new_chat now =
     \<lparr>cf_pending = [], cf_key_index = [], cf_session_allows = [], cf_ui_signals = None, cf_last_ts = now\<rparr>"

definition get_chat :: "time \<Rightarrow> string \<Rightarrow> registry \<Rightarrow> chat_confirm \<times> registry" where
  "get_chat now chat_id r =
     (case dict_get chat_id (rg_chats r) of
        Some st \<Rightarrow> (st, r)
      | None \<Rightarrow> (new_chat now, put_chat chat_id (new_chat now) r))"

definition add_grant_once :: "string \<times> string \<Rightarrow> (string \<times> string) list \<Rightarrow> (string \<times> string) list" where
  "add_grant_once g gs = (if g \<in> set gs then gs else gs @ [g])"

definition allow_session :: "time \<Rightarrow> string option \<Rightarrow> registry \<Rightarrow> registry" where
  "allow_session now chat_id r =
     (case chat_id of
        None \<Rightarrow> r
      | Some c \<Rightarrow>
          if c = [] then r
          else let (st, r1) = get_chat now c r
               in put_chat c (st\<lparr>cf_session_allows := add_grant_once (''myspace'', []) (cf_session_allows st), cf_last_ts := now\<rparr>) r1)"

definition get_ui_queue :: "string option \<Rightarrow> registry \<Rightarrow> ui_signal list option" where
  "get_ui_queue chat_id r =
     (case chat_id of
        None \<Rightarrow> None
      | Some c \<Rightarrow> if c = [] then None else (case dict_get c (rg_chats r) of None \<Rightarrow> None | Some st \<Rightarrow> cf_ui_signals st))"

definition pending_to_info :: "string \<Rightarrow> pending \<Rightarrow> pending_info" where
  "pending_to_info cid p =
     \<lparr>pi_confirm_id = cid, pi_op = pn_op p, pi_logical_path = pn_path p,
      pi_message = (if pn_summary p = [] then pn_path p else pn_summary p), pi_kind = pn_kind p,
      pi_pick = (if pn_kind p = ''design_pick'' then pn_payload p else None)\<rparr>"

definition live_items :: "registry \<Rightarrow> chat_confirm \<Rightarrow> (string \<times> pending) list" where
  "live_items r st = filter (\<lambda>(cid, p). pn_decision p = None) (pending_items r st)"

definition get_pending :: "time \<Rightarrow> string option \<Rightarrow> registry \<Rightarrow> pending_info option \<times> registry" where
  "get_pending now chat_id r =
     (case chat_id of
        None \<Rightarrow> (None, r)
      | Some c \<Rightarrow>
          (case (if c = [] then None else dict_get c (rg_chats r)) of
             None \<Rightarrow> (None, r)
           | Some st \<Rightarrow>
               (case first_by (\<lambda>(cid, p). - pn_ts p) (live_items r st) of
                  None \<Rightarrow> (None, r)
                | Some (cid, p) \<Rightarrow> (Some (pending_to_info cid p), put_chat c (st\<lparr>cf_last_ts := now\<rparr>) r))))"

definition get_all_pending :: "time \<Rightarrow> string option \<Rightarrow> registry \<Rightarrow> pending_info list \<times> registry" where
  "get_all_pending now chat_id r =
     (case chat_id of
        None \<Rightarrow> ([], r)
      | Some c \<Rightarrow>
          (case (if c = [] then None else dict_get c (rg_chats r)) of
             None \<Rightarrow> ([], r)
           | Some st \<Rightarrow>
               if live_items r st = [] then ([], r)
               else (map (\<lambda>(cid, p). pending_to_info cid p) (sort_key (\<lambda>(cid, p). pn_ts p) (live_items r st)),
                     put_chat c (st\<lparr>cf_last_ts := now\<rparr>) r)))"

definition list_pending_chat_ids :: "registry \<Rightarrow> string list" where
  "list_pending_chat_ids r = map fst (filter (\<lambda>(c, st). live_items r st \<noteq> []) (rg_chats r))"

definition has_pending :: "string option \<Rightarrow> registry \<Rightarrow> bool" where
  "has_pending chat_id r =
     (case chat_id of
        None \<Rightarrow> False
      | Some c \<Rightarrow> c \<noteq> [] \<and> (case dict_get c (rg_chats r) of None \<Rightarrow> False | Some st \<Rightarrow> live_items r st \<noteq> []))"

section \<open>Decisions\<close>

datatype decide_result =
    Dec_ok string string string "string list"
  | Dec_stale
  | Dec_bad_decision
  | Dec_bad_option

definition valid_option :: "(json \<Rightarrow> string) \<Rightarrow> pending \<Rightarrow> string option \<Rightarrow> bool" where
  "valid_option str_of p option_id =
     (case option_id of
        None \<Rightarrow> False
      | Some i \<Rightarrow>
          i \<noteq> [] \<and> i \<in> set (map (\<lambda>opt. json_str str_of (json_get ''id'' opt)) (case pn_payload p of None \<Rightarrow> [] | Some (_, os) \<Rightarrow> os)))"

text \<open>The confirmations an \<open>allow_session\<close> answer releases along with its own.\<close>

definition cascades :: "os_host \<Rightarrow> string \<Rightarrow> pending \<Rightarrow> string \<Rightarrow> string \<times> pending \<Rightarrow> bool" where
  "cascades h confirm_id p granted item =
     (case item of (cid, q) \<Rightarrow>
        cid \<noteq> confirm_id \<and> pn_decision q = None \<and> pn_kind q = pn_kind p \<and> pn_kind q \<noteq> ''design_pick'' \<and>
        scope_covers h (pn_kind p) granted (pn_path q))"

definition release_all :: "string list \<Rightarrow> registry \<Rightarrow> registry" where
  "release_all cids r =
     foldl (\<lambda>s cid. case rg_objs s cid of None \<Rightarrow> s | Some q \<Rightarrow> put_obj cid (q\<lparr>pn_decision := Some ''allow_session''\<rparr>) s) r cids"

definition set_decision ::
    "os_host \<Rightarrow> (json \<Rightarrow> string) \<Rightarrow> time \<Rightarrow> string \<Rightarrow> string \<Rightarrow> string \<Rightarrow> string option \<Rightarrow> registry \<Rightarrow> decide_result \<times> registry" where
  "set_decision h str_of now chat_id confirm_id decision option_id r =
     (case dict_get chat_id (rg_chats r) of
        None \<Rightarrow> (Dec_stale, r)
      | Some st \<Rightarrow>
          (case (if confirm_id \<in> set (cf_pending st) then rg_objs r confirm_id else None) of
             None \<Rightarrow> (Dec_stale, r)
           | Some p \<Rightarrow>
               if pn_kind p = ''design_pick'' \<and> decision \<notin> {''choice'', ''skip''} then (Dec_bad_decision, r)
               else if pn_kind p = ''design_pick'' \<and> decision = ''choice'' \<and> \<not> valid_option str_of p option_id then (Dec_bad_option, r)
               else if pn_kind p \<noteq> ''design_pick'' \<and> decision \<notin> {''allow'', ''allow_session'', ''deny''} then (Dec_bad_decision, r)
               else let p1 = p\<lparr>pn_choice := (if pn_kind p = ''design_pick'' \<and> decision = ''choice'' then option_id else pn_choice p),
                               pn_decision := Some decision\<rparr>;
                        r1 = put_obj confirm_id p1 (put_chat chat_id (st\<lparr>cf_last_ts := now\<rparr>) r)
                    in if decision = ''allow_session''
                       then let granted = session_scope h (pn_kind p) (pn_path p);
                                cascaded = map fst (filter (cascades h confirm_id p granted) (pending_items r1 st));
                                r2 = put_chat chat_id (st\<lparr>cf_last_ts := now,
                                       cf_session_allows := add_grant_once (pn_kind p, granted) (cf_session_allows st)\<rparr>) r1
                            in (Dec_ok decision (pn_op p) (pn_path p) cascaded, release_all cascaded r2)
                       else (Dec_ok decision (pn_op p) (pn_path p) [], r1)))"

section \<open>Waiting\<close>

text \<open>
  The toggles of the settings; \<open>None\<close> when they cannot be read, which counts as on.
\<close>

record confirm_settings =
  cs_automation :: bool
  cs_myspace :: bool

definition confirm_enabled :: "confirm_settings option \<Rightarrow> string \<Rightarrow> bool" where
  "confirm_enabled settings kind =
     (case settings of
        None \<Rightarrow> True
      | Some s \<Rightarrow>
          if kind = ''automation'' then cs_automation s
          else if kind = ''local_cmd'' \<or> is_local_path_kind kind \<or> is_tool_kind kind then True
          else cs_myspace s)"

text \<open>
  \<open>_register_pending\<close>: \<open>precheck\<close> looks at the chat inside the critical section and may answer at once. \<open>fresh\<close> is the
  identifier drawn for a new confirmation.
\<close>

definition waiting_for :: "confirm_key \<Rightarrow> registry \<Rightarrow> chat_confirm \<Rightarrow> (string \<times> pending) option" where
  "waiting_for key r st =
     (case dict_get key (cf_key_index st) of
        None \<Rightarrow> None
      | Some cid \<Rightarrow>
          (case (if cid \<in> set (cf_pending st) then rg_objs r cid else None) of
             None \<Rightarrow> None
           | Some p \<Rightarrow> if pn_decision p = None then Some (cid, p) else None))"

definition add_pending :: "string \<Rightarrow> confirm_key \<Rightarrow> pending \<Rightarrow> chat_confirm \<Rightarrow> chat_confirm" where
  "add_pending fresh key made st =
     st\<lparr>cf_pending := cf_pending st @ [fresh], cf_key_index := dict_put key fresh (cf_key_index st),
        cf_ui_signals := Some ((case cf_ui_signals st of None \<Rightarrow> [] | Some q \<Rightarrow> q) @ [Ui_show (pending_to_info fresh made)])\<rparr>"

definition register_pending ::
    "time \<Rightarrow> string \<Rightarrow> string \<Rightarrow> confirm_key \<Rightarrow> pending \<Rightarrow> (registry \<Rightarrow> chat_confirm \<Rightarrow> 'a option) \<Rightarrow> registry \<Rightarrow> ('a + string) \<times> registry" where
  "register_pending now fresh cid_key key made precheck r0 =
     (let (st0, r1) = get_chat now cid_key (gc now r0);
          st = st0\<lparr>cf_last_ts := now\<rparr>
      in case precheck r1 st of
           Some short \<Rightarrow> (Inl short, put_chat cid_key st r1)
         | None \<Rightarrow>
             (case waiting_for key r1 st of
                Some (cid, p) \<Rightarrow> (Inr cid, put_obj cid (p\<lparr>pn_waiters := pn_waiters p + 1\<rparr>) (put_chat cid_key st r1))
              | None \<Rightarrow>
                  (Inr fresh, put_obj fresh (made\<lparr>pn_waiters := pn_waiters made + 1\<rparr>)
                     (put_chat cid_key (add_pending fresh key made st) r1))))"

text \<open>
  The critical section of \<open>_wait_pending\<close> after the wait: read the decision, run the hook of the caller, leave the group, and
  as the last of the group remove the confirmation and tell the front end if it expired.
\<close>

definition drop_pending :: "string \<Rightarrow> confirm_key \<Rightarrow> pending \<Rightarrow> bool \<Rightarrow> string \<Rightarrow> chat_confirm \<Rightarrow> chat_confirm" where
  "drop_pending cid key p cancelled decision st =
     st\<lparr>cf_pending := filter (\<lambda>c. c \<noteq> cid) (cf_pending st),
        cf_key_index := (if dict_get key (cf_key_index st) = Some cid then dict_pop key (cf_key_index st) else cf_key_index st),
        cf_ui_signals := (if cancelled \<or> decision = ''_timeout''
          then map_option (\<lambda>q. q @ [Ui_expired cid (pn_op p) (pn_path p) (pn_kind p) cancelled]) (cf_ui_signals st)
          else cf_ui_signals st)\<rparr>"

definition wait_finish ::
    "string \<Rightarrow> confirm_key \<Rightarrow> string \<Rightarrow> bool \<Rightarrow> (pending \<Rightarrow> string \<Rightarrow> 'x \<times> pending) \<Rightarrow> registry \<Rightarrow> (string \<times> 'x) option \<times> registry" where
  "wait_finish cid_key key cid cancelled extract r =
     (case rg_objs r cid of
        None \<Rightarrow> (None, r)
      | Some p \<Rightarrow>
          let decision = (case pn_decision p of None \<Rightarrow> ''_timeout'' | Some d \<Rightarrow> if d = [] then ''_timeout'' else d);
              (x, p1) = extract p decision;
              p2 = p1\<lparr>pn_waiters := pn_waiters p1 - 1\<rparr>;
              r1 = put_obj cid p2 r;
              r2 = (if pn_waiters p2 \<le> 0
                    then (case dict_get cid_key (rg_chats r1) of
                            None \<Rightarrow> r1
                          | Some st \<Rightarrow> put_chat cid_key (drop_pending cid key p cancelled decision st) r1)
                    else r1)
          in (if cancelled then None else Some (decision, x), r2))"

section \<open>The gate\<close>

datatype gate_result = Gate_pass | Gate_blocked | Gate_deduplicated | Gate_denied | Gate_timeout

text \<open>What a suspended call keeps: the bucket, the key and the confirmation it waits for.\<close>

record suspended =
  su_chat :: string
  su_key :: confirm_key
  su_cid :: string

definition session_allowed :: "os_host \<Rightarrow> string option \<Rightarrow> string \<Rightarrow> string \<Rightarrow> registry \<Rightarrow> chat_confirm \<Rightarrow> gate_result option" where
  "session_allowed h chat_id kind logical_path r st =
     (case chat_id of
        None \<Rightarrow> None
      | Some c \<Rightarrow>
          if c \<noteq> [] \<and> list_ex (\<lambda>(k, g). k = kind \<and> scope_covers h kind g logical_path) (cf_session_allows st)
          then Some Gate_pass else None)"

definition cid_key_of :: "string option \<Rightarrow> string" where
  "cid_key_of chat_id = str_or chat_id ''_nochat_''"

definition new_pending :: "string \<Rightarrow> string \<Rightarrow> string \<Rightarrow> time \<Rightarrow> string \<Rightarrow> (string \<times> dict list) option \<Rightarrow> pending" where
  "new_pending op path summary now kind payload =
     \<lparr>pn_op = op, pn_path = path, pn_summary = summary, pn_ts = now, pn_decision = None, pn_waiters = 0, pn_performed = False,
      pn_kind = kind, pn_payload = payload, pn_choice = None\<rparr>"

definition gate_enter ::
    "os_host \<Rightarrow> confirm_settings option \<Rightarrow> time \<Rightarrow> string \<Rightarrow> string option \<Rightarrow> string \<Rightarrow> string \<Rightarrow> bool \<Rightarrow> string \<Rightarrow> string \<Rightarrow>
     registry \<Rightarrow> (gate_result + suspended) \<times> registry" where
  "gate_enter h settings now fresh chat_id op logical_path interactive summary kind r =
     (if \<not> confirm_enabled settings kind then (Inl Gate_pass, r)
      else if \<not> interactive then (Inl Gate_blocked, r)
      else let cid_key = cid_key_of chat_id;
               made = new_pending op logical_path (if summary = [] then logical_path else summary) now kind None
           in case register_pending now fresh cid_key (op, logical_path) made (session_allowed h chat_id kind logical_path) r of
                (Inl short, r1) \<Rightarrow> (Inl short, r1)
              | (Inr cid, r1) \<Rightarrow> (Inr \<lparr>su_chat = cid_key, su_key = (op, logical_path), su_cid = cid\<rparr>, r1))"

definition claim_first :: "pending \<Rightarrow> string \<Rightarrow> bool \<times> pending" where
  "claim_first p decision =
     (let first = (decision \<in> {''allow'', ''allow_session''} \<and> \<not> pn_performed p)
      in (first, if first then p\<lparr>pn_performed := True\<rparr> else p))"

definition gate_result_of :: "string \<Rightarrow> bool \<Rightarrow> gate_result" where
  "gate_result_of decision first =
     (if decision \<in> {''allow'', ''allow_session''} then (if first then Gate_pass else Gate_deduplicated)
      else if decision = ''deny'' then Gate_denied else Gate_timeout)"

text \<open>\<open>None\<close> is a \<open>CancelledError\<close> raised to the caller.\<close>

definition gate_resume :: "suspended \<Rightarrow> bool \<Rightarrow> registry \<Rightarrow> gate_result option \<times> registry" where
  "gate_resume s cancelled r =
     (case wait_finish (su_chat s) (su_key s) (su_cid s) cancelled claim_first r of
        (None, r1) \<Rightarrow> (None, r1)
      | (Some (decision, first), r1) \<Rightarrow> (Some (gate_result_of decision first), r1))"

section \<open>The design picker\<close>

datatype pick_result = Pick_chosen string | Pick_skipped | Pick_timeout | Pick_blocked | Pick_already_pending

definition reject_concurrent :: "confirm_key \<Rightarrow> registry \<Rightarrow> chat_confirm \<Rightarrow> pick_result option" where
  "reject_concurrent key r st =
     (if list_ex (\<lambda>(ocid, other). pn_kind other = ''design_pick'' \<and> pn_decision other = None \<and>
            dict_get key (cf_key_index st) \<noteq> Some ocid) (pending_items r st)
      then Some Pick_already_pending else None)"

definition pick_enter ::
    "time \<Rightarrow> string \<Rightarrow> string option \<Rightarrow> string \<Rightarrow> dict list \<Rightarrow> bool \<Rightarrow> registry \<Rightarrow> (pick_result + suspended) \<times> registry" where
  "pick_enter now fresh chat_id question options interactive r =
     (if \<not> interactive then (Inl Pick_blocked, r)
      else let cid_key = cid_key_of chat_id;
               key = (''design_pick'', take 120 question);
               made = new_pending ''design_pick'' (take 120 question) (if question = [] then ''pick a design'' else question) now ''design_pick''
                        (Some (question, options))
           in case register_pending now fresh cid_key key made (reject_concurrent key) r of
                (Inl short, r1) \<Rightarrow> (Inl short, r1)
              | (Inr cid, r1) \<Rightarrow> (Inr \<lparr>su_chat = cid_key, su_key = key, su_cid = cid\<rparr>, r1))"

definition pick_resume :: "suspended \<Rightarrow> bool \<Rightarrow> registry \<Rightarrow> pick_result option \<times> registry" where
  "pick_resume s cancelled r =
     (case wait_finish (su_chat s) (su_key s) (su_cid s) cancelled (\<lambda>p d. (pn_choice p, p)) r of
        (None, r1) \<Rightarrow> (None, r1)
      | (Some (decision, choice), r1) \<Rightarrow>
          (Some (case choice of
                   Some c \<Rightarrow> if decision = ''choice'' \<and> c \<noteq> [] then Pick_chosen c
                             else if decision = ''skip'' then Pick_skipped else Pick_timeout
                 | None \<Rightarrow> if decision = ''skip'' then Pick_skipped else Pick_timeout), r1))"


section \<open>Calls of one process\<close>

text \<open>
  All calls of a process as one system: the registry, the calls that are suspended (whether in the picker), and the
  confirmations for which a resumed call was let through. An identifier is drawn at most once: an event with one
  that was drawn before does not happen.
\<close>

record gate_sys =
  gs_reg :: registry
  gs_waiting :: "(bool \<times> suspended) list"
  gs_passed :: "string list"

datatype gate_event =
    Ev_gate "confirm_settings option" time string "string option" string string bool string string
  | Ev_pick time string "string option" string "dict list" bool
  | Ev_resume nat bool
  | Ev_decide time string string string "string option"
  | Ev_allow_session time "string option"
  | Ev_poll time "string option"

definition suspend :: "bool \<Rightarrow> ('a + suspended) \<times> registry \<Rightarrow> gate_sys \<Rightarrow> gate_sys" where
  "suspend picker out s =
     (case out of
        (Inl _, r) \<Rightarrow> s\<lparr>gs_reg := r\<rparr>
      | (Inr t, r) \<Rightarrow> s\<lparr>gs_reg := r, gs_waiting := gs_waiting s @ [(picker, t)]\<rparr>)"

definition remove_nth :: "nat \<Rightarrow> 'a list \<Rightarrow> 'a list" where
  "remove_nth i xs = take i xs @ drop (Suc i) xs"

fun gate_step :: "os_host \<Rightarrow> (json \<Rightarrow> string) \<Rightarrow> gate_event \<Rightarrow> gate_sys \<Rightarrow> gate_sys" where
  "gate_step h str_of (Ev_gate settings now fresh chat op path interactive summary kind) s =
     (if rg_objs (gs_reg s) fresh \<noteq> None then s
      else suspend False (gate_enter h settings now fresh chat op path interactive summary kind (gs_reg s)) s)"
| "gate_step h str_of (Ev_pick now fresh chat question options interactive) s =
     (if rg_objs (gs_reg s) fresh \<noteq> None then s
      else suspend True (pick_enter now fresh chat question options interactive (gs_reg s)) s)"
| "gate_step h str_of (Ev_resume i cancelled) s =
     (if length (gs_waiting s) \<le> i then s
      else let (picker, t) = gs_waiting s ! i
           in if picker
              then s\<lparr>gs_reg := snd (pick_resume t cancelled (gs_reg s)), gs_waiting := remove_nth i (gs_waiting s)\<rparr>
              else let (res, r) = gate_resume t cancelled (gs_reg s)
                   in s\<lparr>gs_reg := r, gs_waiting := remove_nth i (gs_waiting s),
                        gs_passed := (if res = Some Gate_pass then gs_passed s @ [su_cid t] else gs_passed s)\<rparr>)"
| "gate_step h str_of (Ev_decide now chat cid decision option_id) s =
     s\<lparr>gs_reg := snd (set_decision h str_of now chat cid decision option_id (gs_reg s))\<rparr>"
| "gate_step h str_of (Ev_allow_session now chat) s = s\<lparr>gs_reg := allow_session now chat (gs_reg s)\<rparr>"
| "gate_step h str_of (Ev_poll now chat) s = s\<lparr>gs_reg := snd (get_all_pending now chat (gs_reg s))\<rparr>"

definition initial_gate :: gate_sys where
  "initial_gate = \<lparr>gs_reg = empty_registry, gs_waiting = [], gs_passed = []\<rparr>"

section \<open>The invariant\<close>

definition waiters_on :: "string \<Rightarrow> gate_sys \<Rightarrow> nat" where
  "waiters_on cid s = length (filter (\<lambda>(_, t). su_cid t = cid) (gs_waiting s))"

definition registered :: "string \<Rightarrow> string \<Rightarrow> registry \<Rightarrow> bool" where
  "registered c cid r = (\<exists>st. map_of (rg_chats r) c = Some st \<and> cid \<in> set (cf_pending st))"

definition keys_ok :: "registry \<Rightarrow> bool" where
  "keys_ok r = distinct (map fst (rg_chats r))"

definition claims :: "registry \<Rightarrow> string \<Rightarrow> nat" where
  "claims r cid = (case rg_objs r cid of None \<Rightarrow> 0 | Some p \<Rightarrow> if pn_performed p then 1 else 0)"

definition gate_ok :: "gate_sys \<Rightarrow> bool" where
  "gate_ok s =
     (keys_ok (gs_reg s) \<and>
      (\<forall>c c' cid. registered c cid (gs_reg s) \<longrightarrow> registered c' cid (gs_reg s) \<longrightarrow> c' = c) \<and>
      (\<forall>c cid. registered c cid (gs_reg s) \<longrightarrow> 0 < waiters_on cid s \<and> rg_objs (gs_reg s) cid \<noteq> None) \<and>
      (\<forall>b t. (b, t) \<in> set (gs_waiting s) \<longrightarrow> registered (su_chat t) (su_cid t) (gs_reg s)) \<and>
      (\<forall>cid p. rg_objs (gs_reg s) cid = Some p \<longrightarrow> pn_waiters p = int (waiters_on cid s)) \<and>
      (\<forall>cid. count_list (gs_passed s) cid \<le> claims (gs_reg s) cid))"

section \<open>Effects of the operations\<close>

definition shape :: "pending option \<Rightarrow> (int \<times> bool) option" where
  "shape x = map_option (\<lambda>p. (pn_waiters p, pn_performed p)) x"

text \<open>Two registries with the same confirmations, waiters and claims.\<close>

definition same_shape :: "registry \<Rightarrow> registry \<Rightarrow> bool" where
  "same_shape r r' =
     ((keys_ok r \<longrightarrow> keys_ok r') \<and> (keys_ok r \<longrightarrow> (\<forall>c cid. registered c cid r' = registered c cid r)) \<and>
      (\<forall>cid. shape (rg_objs r' cid) = shape (rg_objs r cid)))"

lemma same_shape_refl [simp]: "same_shape r r"
  by (simp add: same_shape_def)

lemma same_shape_trans: "same_shape r r' \<Longrightarrow> same_shape r' r'' \<Longrightarrow> same_shape r r''"
  by (simp add: same_shape_def)

lemma put_chat_simps [simp]:
  "rg_objs (put_chat c st r) = rg_objs r"
  "registered c' cid (put_chat c st r) = (if c' = c then cid \<in> set (cf_pending st) else registered c' cid r)"
  "keys_ok r \<Longrightarrow> keys_ok (put_chat c st r)"
  by (auto simp: put_chat_def registered_def keys_ok_def distinct_dict_put)

lemma put_obj_simps [simp]:
  "rg_objs (put_obj cid p r) = (rg_objs r)(cid \<mapsto> p)"
  "registered c' cid' (put_obj cid p r) = registered c' cid' r"
  "keys_ok (put_obj cid p r) = keys_ok r" "rg_chats (put_obj cid p r) = rg_chats r"
  by (simp_all add: put_obj_def registered_def keys_ok_def)

lemma map_of_filter_pending:
  assumes "distinct (map fst xs)"
  shows "map_of (filter (\<lambda>(c, st). P c st) xs) c =
     (case map_of xs c of None \<Rightarrow> None | Some st \<Rightarrow> if P c st then Some st else None)"
  using assms
proof (induction xs)
  case (Cons x xs)
  obtain k st where x: "x = (k, st)" by (cases x)
  show ?case
  proof (cases "k = c")
    case True
    then have "map_of xs c = None" using Cons.prems x by (auto simp: map_of_eq_None_iff)
    then show ?thesis using Cons True x by simp
  next
    case False
    then show ?thesis using Cons x by simp
  qed
qed simp

lemma gc_shape: "same_shape r (gc now r)"
proof -
  have "registered c cid (gc now r) = registered c cid r" if "keys_ok r" for c cid
    using map_of_filter_pending [OF that [unfolded keys_ok_def],
        of "\<lambda>_ st. \<not> (now - cf_last_ts st > TTL_S \<and> cf_pending st = [])" c]
    by (cases "map_of (rg_chats r) c") (auto simp: registered_def gc_def split: if_splits)
  moreover have "keys_ok r \<Longrightarrow> keys_ok (gc now r)" by (simp add: keys_ok_def gc_def distinct_map_filter)
  ultimately show ?thesis by (simp add: same_shape_def gc_def)
qed

lemma get_chat_shape:
  assumes "get_chat now c r = (st, r')"
  shows "same_shape r r'" and "map_of (rg_chats r') c = Some st"
    and "\<And>cid. registered c cid r' \<longleftrightarrow> cid \<in> set (cf_pending st)"
proof -
  show a: "map_of (rg_chats r') c = Some st"
    using assms by (cases "map_of (rg_chats r) c") (auto simp: get_chat_def dict_get_def put_chat_def)
  show b: "registered c cid r' \<longleftrightarrow> cid \<in> set (cf_pending st)" for cid using a by (simp add: registered_def)
  show "same_shape r r'"
  proof (cases "map_of (rg_chats r) c")
    case None
    then have "\<And>cid. \<not> registered c cid r" by (simp add: registered_def)
    moreover have "st = new_chat now" "r' = put_chat c (new_chat now) r" using assms None by (auto simp: get_chat_def dict_get_def)
    ultimately show ?thesis by (auto simp: same_shape_def new_chat_def)
  next
    case (Some st')
    then show ?thesis using assms by (simp add: get_chat_def dict_get_def)
  qed
qed

lemma put_chat_shape:
  assumes "\<And>cid. registered c cid r \<longleftrightarrow> cid \<in> set (cf_pending st)"
  shows "same_shape r (put_chat c st r)"
  using assms by (auto simp: same_shape_def)

lemma put_obj_shape: "rg_objs r cid = Some p \<Longrightarrow> pn_waiters q = pn_waiters p \<Longrightarrow> pn_performed q = pn_performed p \<Longrightarrow> same_shape r (put_obj cid q r)"
  by (auto simp: same_shape_def shape_def)

lemma release_all_shape: "same_shape r (release_all cids r)"
proof (induction cids arbitrary: r)
  case (Cons cid cids)
  define r1 where "r1 = (case rg_objs r cid of None \<Rightarrow> r | Some q \<Rightarrow> put_obj cid (q\<lparr>pn_decision := Some ''allow_session''\<rparr>) r)"
  have "same_shape r r1" unfolding r1_def by (cases "rg_objs r cid") (auto intro: put_obj_shape)
  moreover have "release_all (cid # cids) r = release_all cids r1" by (simp add: release_all_def r1_def)
  ultimately show ?case using Cons.IH [of r1] same_shape_trans by simp
qed (simp add: release_all_def)

lemma allow_session_shape: "same_shape r (allow_session now chat r)"
proof (cases chat)
  case (Some c)
  obtain st r1 where g: "get_chat now c r = (st, r1)" by (cases "get_chat now c r")
  note s = get_chat_shape [OF g]
  have "same_shape r1 (put_chat c (st\<lparr>cf_session_allows := add_grant_once (''myspace'', []) (cf_session_allows st), cf_last_ts := now\<rparr>) r1)"
    by (rule put_chat_shape) (simp add: s(3))
  then show ?thesis using Some g same_shape_trans [OF s(1)] by (simp add: allow_session_def)
qed (simp add: allow_session_def)

lemma get_all_pending_shape: "same_shape r (snd (get_all_pending now chat r))"
proof -
  have "same_shape r (put_chat c (st\<lparr>cf_last_ts := now\<rparr>) r)" if "dict_get c (rg_chats r) = Some st" for c st
    using that by (intro put_chat_shape) (auto simp: registered_def dict_get_def)
  then show ?thesis by (auto simp: get_all_pending_def split: option.splits)
qed

lemma set_decision_shape: "same_shape r (snd (set_decision h str_of now chat cid decision option_id r))"
proof (cases "dict_get chat (rg_chats r)")
  case (Some st)
  show ?thesis
  proof (cases "if cid \<in> set (cf_pending st) then rg_objs r cid else None")
    case None
    then show ?thesis using Some by (simp add: set_decision_def)
  next
    case p: (Some p)
    then have obj: "rg_objs r cid = Some p" by (auto split: if_splits)
    define p1 where "p1 = p\<lparr>pn_choice := (if pn_kind p = ''design_pick'' \<and> decision = ''choice'' then option_id else pn_choice p),
                             pn_decision := Some decision\<rparr>"
    define r1 where "r1 = put_obj cid p1 (put_chat chat (st\<lparr>cf_last_ts := now\<rparr>) r)"
    have reg: "registered chat c r \<longleftrightarrow> c \<in> set (cf_pending st)" for c using Some by (auto simp: registered_def dict_get_def)
    have "same_shape r (put_chat chat (st\<lparr>cf_last_ts := now\<rparr>) r)" by (rule put_chat_shape) (simp add: reg)
    moreover have "same_shape (put_chat chat (st\<lparr>cf_last_ts := now\<rparr>) r) r1"
      unfolding r1_def by (rule put_obj_shape [of _ _ p]) (simp_all add: obj p1_def)
    ultimately have s1: "same_shape r r1" by (rule same_shape_trans)
    have "same_shape r (release_all cs (put_chat chat (st\<lparr>cf_last_ts := now, cf_session_allows := gs\<rparr>) r1))" for cs gs
    proof -
      have "same_shape r1 (put_chat chat (st\<lparr>cf_last_ts := now, cf_session_allows := gs\<rparr>) r1)"
        by (rule put_chat_shape) (simp add: r1_def)
      then show ?thesis using same_shape_trans [OF same_shape_trans [OF s1]] release_all_shape by blast
    qed
    with s1 show ?thesis using Some p by (simp add: set_decision_def Let_def p1_def [symmetric] r1_def [symmetric])
  qed
qed (simp add: set_decision_def)

section \<open>Every event keeps the invariant\<close>

lemma gate_okI:
  assumes "keys_ok (gs_reg s)"
    and "\<And>c c' cid. registered c cid (gs_reg s) \<Longrightarrow> registered c' cid (gs_reg s) \<Longrightarrow> c' = c"
    and "\<And>c cid. registered c cid (gs_reg s) \<Longrightarrow> 0 < waiters_on cid s"
    and "\<And>c cid. registered c cid (gs_reg s) \<Longrightarrow> rg_objs (gs_reg s) cid \<noteq> None"
    and "\<And>b t. (b, t) \<in> set (gs_waiting s) \<Longrightarrow> registered (su_chat t) (su_cid t) (gs_reg s)"
    and "\<And>cid p. rg_objs (gs_reg s) cid = Some p \<Longrightarrow> pn_waiters p = int (waiters_on cid s)"
    and "\<And>cid. count_list (gs_passed s) cid \<le> claims (gs_reg s) cid"
  shows "gate_ok s"
  unfolding gate_ok_def using assms by blast

lemma gate_okD:
  assumes "gate_ok s"
  shows "keys_ok (gs_reg s)"
    and "registered c cid (gs_reg s) \<Longrightarrow> registered c' cid (gs_reg s) \<Longrightarrow> c' = c"
    and "registered c cid (gs_reg s) \<Longrightarrow> 0 < waiters_on cid s"
    and "registered c cid (gs_reg s) \<Longrightarrow> rg_objs (gs_reg s) cid \<noteq> None"
    and "(b, t) \<in> set (gs_waiting s) \<Longrightarrow> registered (su_chat t) (su_cid t) (gs_reg s)"
    and "rg_objs (gs_reg s) cid = Some p \<Longrightarrow> pn_waiters p = int (waiters_on cid s)"
    and "count_list (gs_passed s) cid \<le> claims (gs_reg s) cid"
  using assms unfolding gate_ok_def by blast+

lemma shape_claims: "shape (rg_objs r cid) = shape (rg_objs r' cid) \<Longrightarrow> claims r cid = claims r' cid"
  by (cases "rg_objs r cid"; cases "rg_objs r' cid") (auto simp: shape_def claims_def)

lemma gate_ok_shape:
  assumes ok: "gate_ok s" and same: "same_shape (gs_reg s) r"
  shows "gate_ok (s\<lparr>gs_reg := r\<rparr>)"
proof -
  note D = gate_okD [OF ok]
  have k: "keys_ok r" and reg: "\<And>c cid. registered c cid r = registered c cid (gs_reg s)"
    and sh: "\<And>cid. shape (rg_objs r cid) = shape (rg_objs (gs_reg s) cid)"
    using same D(1) by (simp_all add: same_shape_def)
  have w: "waiters_on cid (s\<lparr>gs_reg := r\<rparr>) = waiters_on cid s" for cid by (simp add: waiters_on_def)
  show ?thesis
  proof (rule gate_okI)
    fix cid p assume "rg_objs (gs_reg (s\<lparr>gs_reg := r\<rparr>)) cid = Some p"
    then obtain q where "rg_objs (gs_reg s) cid = Some q" "pn_waiters q = pn_waiters p"
      using sh [of cid] by (cases "rg_objs (gs_reg s) cid") (auto simp: shape_def)
    then show "pn_waiters p = int (waiters_on cid (s\<lparr>gs_reg := r\<rparr>))" using D(6) w by simp
  next
    fix c cid assume "registered c cid (gs_reg (s\<lparr>gs_reg := r\<rparr>))"
    then have "rg_objs (gs_reg s) cid \<noteq> None" using D(4) reg by simp
    then show "rg_objs (gs_reg (s\<lparr>gs_reg := r\<rparr>)) cid \<noteq> None" using sh [of cid] by (auto simp: shape_def)
  qed (use D reg k w shape_claims [OF sh] in \<open>simp_all\<close>)
qed

definition waits :: "bool \<times> suspended \<Rightarrow> gate_sys \<Rightarrow> gate_sys" where
  "waits w s = s\<lparr>gs_waiting := gs_waiting s @ [w]\<rparr>"

lemma waiters_on_waits: "waiters_on cid (waits (b, t) s) = waiters_on cid s + (if su_cid t = cid then 1 else 0)"
  by (simp add: waits_def waiters_on_def)

lemma waiters_on_reg [simp]: "waiters_on cid (s\<lparr>gs_reg := r\<rparr>) = waiters_on cid s"
  by (simp add: waiters_on_def)

lemma waits_sel [simp]:
  "gs_reg (waits w s) = gs_reg s" "gs_passed (waits w s) = gs_passed s" "set (gs_waiting (waits w s)) = insert w (set (gs_waiting s))"
  by (auto simp: waits_def)

lemma no_obj_no_waiters: "gate_ok s \<Longrightarrow> rg_objs (gs_reg s) cid = None \<Longrightarrow> waiters_on cid s = 0"
  using gate_okD(4,5) [of s] by (fastforce simp: waiters_on_def filter_empty_conv)

lemma join_ok:
  assumes ok: "gate_ok s" and reg: "registered (su_chat t) (su_cid t) (gs_reg s)" and obj: "rg_objs (gs_reg s) (su_cid t) = Some p"
  shows "gate_ok (waits (b, t) (s\<lparr>gs_reg := put_obj (su_cid t) (p\<lparr>pn_waiters := pn_waiters p + 1\<rparr>) (gs_reg s)\<rparr>))"
proof (rule gate_okI)
  note D = gate_okD [OF ok]
  let ?s = "waits (b, t) (s\<lparr>gs_reg := put_obj (su_cid t) (p\<lparr>pn_waiters := pn_waiters p + 1\<rparr>) (gs_reg s)\<rparr>)"
  show "keys_ok (gs_reg ?s)" using D(1) by simp
  show "c' = c" if "registered c cid (gs_reg ?s)" "registered c' cid (gs_reg ?s)" for c c' cid using that D(2) by simp
  show "0 < waiters_on cid ?s" if "registered c cid (gs_reg ?s)" for c cid
    using that D(3) by (auto simp: waiters_on_waits)
  show "rg_objs (gs_reg ?s) cid \<noteq> None" if "registered c cid (gs_reg ?s)" for c cid using that D(4) by simp
  show "registered (su_chat u) (su_cid u) (gs_reg ?s)" if "(d, u) \<in> set (gs_waiting ?s)" for d u
    using that D(5) reg by auto
  show "pn_waiters q = int (waiters_on cid ?s)" if "rg_objs (gs_reg ?s) cid = Some q" for cid q
    using that D(6) D(6) [OF obj] by (auto simp: waiters_on_waits split: if_splits)
  show "count_list (gs_passed ?s) cid \<le> claims (gs_reg ?s) cid" for cid
    using D(7) [of cid] obj by (auto simp: claims_def)
qed

lemma enrol_ok:
  assumes ok: "gate_ok s" and fresh: "rg_objs (gs_reg s) (su_cid t) = None"
    and reg: "\<And>cid. registered (su_chat t) cid (gs_reg s) \<longleftrightarrow> cid \<in> set ps" and st: "set (cf_pending st) = insert (su_cid t) (set ps)"
    and made: "pn_waiters made = 0" "\<not> pn_performed made"
  shows "gate_ok (waits (b, t) (s\<lparr>gs_reg := put_obj (su_cid t) (made\<lparr>pn_waiters := pn_waiters made + 1\<rparr>) (put_chat (su_chat t) st (gs_reg s))\<rparr>))"
proof (rule gate_okI)
  note D = gate_okD [OF ok]
  let ?s = "waits (b, t) (s\<lparr>gs_reg := put_obj (su_cid t) (made\<lparr>pn_waiters := pn_waiters made + 1\<rparr>) (put_chat (su_chat t) st (gs_reg s))\<rparr>)"
  have new: "registered c cid (gs_reg ?s) \<longleftrightarrow> registered c cid (gs_reg s) \<or> (c = su_chat t \<and> cid = su_cid t)" for c cid
    using reg st by auto
  have nreg: "\<not> registered c (su_cid t) (gs_reg s)" for c using D(4) fresh by blast
  have w0: "waiters_on (su_cid t) s = 0" by (rule no_obj_no_waiters [OF ok fresh])
  show "keys_ok (gs_reg ?s)" using D(1) by simp
  show "c' = c" if "registered c cid (gs_reg ?s)" "registered c' cid (gs_reg ?s)" for c c' cid
    using that nreg D(2) unfolding new by blast
  show "0 < waiters_on cid ?s" if "registered c cid (gs_reg ?s)" for c cid
    using that D(3) unfolding new by (auto simp: waiters_on_waits)
  show "rg_objs (gs_reg ?s) cid \<noteq> None" if "registered c cid (gs_reg ?s)" for c cid
    using that D(4) unfolding new by auto
  show "registered (su_chat u) (su_cid u) (gs_reg ?s)" if "(d, u) \<in> set (gs_waiting ?s)" for d u
    using that D(5) [of d u] unfolding new by auto
  show "pn_waiters q = int (waiters_on cid ?s)" if "rg_objs (gs_reg ?s) cid = Some q" for cid q
    using that D(6) made w0 by (auto simp: waiters_on_waits split: if_splits)
  show "count_list (gs_passed ?s) cid \<le> claims (gs_reg ?s) cid" for cid
    using D(7) [of cid] fresh by (auto simp: claims_def)
qed

lemma register_ok:
  assumes ok: "gate_ok s" and fresh: "rg_objs (gs_reg s) new = None"
    and made: "pn_waiters made = 0" "\<not> pn_performed made"
    and run: "register_pending now new k key made precheck (gs_reg s) = (out, r)"
  shows "case out of Inl _ \<Rightarrow> gate_ok (s\<lparr>gs_reg := r\<rparr>)
         | Inr cid \<Rightarrow> gate_ok (waits (b, \<lparr>su_chat = k, su_key = key, su_cid = cid\<rparr>) (s\<lparr>gs_reg := r\<rparr>))"
proof -
  obtain st0 r1 where g: "get_chat now k (gc now (gs_reg s)) = (st0, r1)" by (cases "get_chat now k (gc now (gs_reg s))")
  note G = get_chat_shape [OF g]
  define st where "st = st0\<lparr>cf_last_ts := now\<rparr>"
  define r2 where "r2 = put_chat k st r1"
  have s1: "same_shape (gs_reg s) r1" by (rule same_shape_trans [OF gc_shape G(1)])
  then have ok1: "gate_ok (s\<lparr>gs_reg := r1\<rparr>)" by (rule gate_ok_shape [OF ok])
  have "same_shape r1 r2" unfolding r2_def by (rule put_chat_shape) (simp add: G(3) st_def)
  then have ok2: "gate_ok (s\<lparr>gs_reg := r2\<rparr>)" using gate_ok_shape [OF ok same_shape_trans [OF s1]] by blast
  have fresh1: "rg_objs r1 new = None" 
  proof -
    have "shape (rg_objs r1 new) = shape (rg_objs (gs_reg s) new)" using s1 by (simp add: same_shape_def)
    then show ?thesis using fresh by (simp add: shape_def)
  qed
  show ?thesis
  proof (cases "precheck r1 st")
    case (Some short)
    then show ?thesis using run ok2 by (auto simp: register_pending_def g st_def [symmetric] r2_def [symmetric])
  next
    case pre: None
    show ?thesis
    proof (cases "waiting_for key r1 st")
      case None
      let ?t = "\<lparr>su_chat = k, su_key = key, su_cid = new\<rparr>"
      have "gate_ok (waits (b, ?t) (s\<lparr>gs_reg := r1\<rparr>\<lparr>gs_reg := put_obj (su_cid ?t) (made\<lparr>pn_waiters := pn_waiters made + 1\<rparr>)
              (put_chat (su_chat ?t) (add_pending new key made st) (gs_reg (s\<lparr>gs_reg := r1\<rparr>)))\<rparr>))"
        by (rule enrol_ok [OF ok1, where ps = "cf_pending st0"]) (use fresh1 made G(3) in \<open>simp_all add: add_pending_def st_def\<close>)
      then show ?thesis using run pre None by (auto simp: register_pending_def g st_def [symmetric])
    next
      case (Some x)
      obtain cid p where x: "x = (cid, p)" by (cases x)
      have p: "cid \<in> set (cf_pending st)" "rg_objs r1 cid = Some p"
        using Some x by (auto simp: waiting_for_def split: option.splits if_splits)
      let ?t = "\<lparr>su_chat = k, su_key = key, su_cid = cid\<rparr>"
      have "gate_ok (waits (b, ?t) (s\<lparr>gs_reg := r2\<rparr>\<lparr>gs_reg := put_obj (su_cid ?t) (p\<lparr>pn_waiters := pn_waiters p + 1\<rparr>)
              (gs_reg (s\<lparr>gs_reg := r2\<rparr>))\<rparr>))"
        by (rule join_ok [OF ok2]) (use p in \<open>simp_all add: r2_def\<close>)
      then show ?thesis using run pre Some x
        by (auto simp: register_pending_def g st_def [symmetric] r2_def [symmetric])
    qed
  qed
qed

definition leaves :: "nat \<Rightarrow> gate_sys \<Rightarrow> gate_sys" where
  "leaves i s = s\<lparr>gs_waiting := remove_nth i (gs_waiting s)\<rparr>"

lemma set_remove_nth: "set (remove_nth i xs) \<subseteq> set xs"
  by (auto simp: remove_nth_def dest: in_set_takeD in_set_dropD)

lemma filter_remove_nth:
  assumes "i < length xs"
  shows "length (filter P (remove_nth i xs)) + (if P (xs ! i) then 1 else 0) = length (filter P xs)"
proof -
  have "xs = take i xs @ xs ! i # drop (Suc i) xs" using assms by (rule id_take_nth_drop)
  then have "length (filter P xs) = length (filter P (take i xs)) + length (filter P (xs ! i # drop (Suc i) xs))"
    by (metis filter_append length_append)
  then show ?thesis by (simp add: remove_nth_def)
qed

lemma leaves_sel [simp]: "gs_reg (leaves i s) = gs_reg s" "gs_passed (leaves i s) = gs_passed s"
  "gs_waiting (leaves i s) = remove_nth i (gs_waiting s)"
  by (simp_all add: leaves_def)

lemma waiters_on_leaves:
  assumes "i < length (gs_waiting s)" "gs_waiting s ! i = (b, t)"
  shows "waiters_on cid s = waiters_on cid (leaves i s) + (if su_cid t = cid then 1 else 0)"
  using filter_remove_nth [OF assms(1), of "\<lambda>(_, t). su_cid t = cid"] assms(2) by (simp add: waiters_on_def)

text \<open>The registry after a resumed call has left its group, whatever the hook of the caller was.\<close>

lemma wait_finish_reg:
  assumes "wait_finish k key cid cancelled extract r = (out, r')" and "rg_objs r cid = Some p"
    and "\<And>d. pn_waiters (snd (extract p d)) = pn_waiters p"
  obtains d where "shape (rg_objs r' cid) = Some (pn_waiters p - 1, pn_performed (snd (extract p d)))"
    and "\<And>c. c \<noteq> cid \<Longrightarrow> rg_objs r' c = rg_objs r c"
    and "keys_ok r \<Longrightarrow> keys_ok r'"
    and "\<And>c c'. registered c c' r' \<longleftrightarrow> registered c c' r \<and> \<not> (pn_waiters p \<le> 1 \<and> c = k \<and> c' = cid)"
    and "out = (if cancelled then None else Some (d, fst (extract p d)))"
proof -
  define d where "d = (case pn_decision p of None \<Rightarrow> ''_timeout'' | Some d \<Rightarrow> if d = [] then ''_timeout'' else d)"
  obtain x p1 where e: "extract p d = (x, p1)" by (cases "extract p d")
  have w: "pn_waiters p1 = pn_waiters p" using assms(3) [of d] e by simp
  define r1 where "r1 = put_obj cid (p1\<lparr>pn_waiters := pn_waiters p1 - 1\<rparr>) r"
  have run: "out = (if cancelled then None else Some (d, x)) \<and>
     r' = (if pn_waiters p1 \<le> 1 then (case dict_get k (rg_chats r) of None \<Rightarrow> r1
             | Some st \<Rightarrow> put_chat k (drop_pending cid key p cancelled d st) r1) else r1)"
    using assms(1) by (cases "dict_get k (rg_chats r)") (auto simp: wait_finish_def assms(2) e Let_def d_def [symmetric] r1_def)
  have objs: "rg_objs r' = rg_objs r1" by (simp add: conjunct2 [OF run] split: option.splits)
  have reg: "registered c c' r' \<longleftrightarrow> registered c c' r \<and> \<not> (pn_waiters p \<le> 1 \<and> c = k \<and> c' = cid)" for c c'
    by (auto simp: conjunct2 [OF run] w r1_def dict_get_def drop_pending_def registered_def put_chat_def put_obj_def split: option.splits)
  show thesis
  proof (rule that [of d])
    show "shape (rg_objs r' cid) = Some (pn_waiters p - 1, pn_performed (snd (extract p d)))"
      using e w by (simp add: objs r1_def shape_def)
    show "keys_ok r \<Longrightarrow> keys_ok r'" by (simp add: conjunct2 [OF run] r1_def split: option.splits)
    show "\<And>c. c \<noteq> cid \<Longrightarrow> rg_objs r' c = rg_objs r c" by (simp add: objs r1_def)
    show "out = (if cancelled then None else Some (d, fst (extract p d)))" using run e by simp
  qed (rule reg)
qed

lemma resume_ok:
  assumes ok: "gate_ok s" and i: "i < length (gs_waiting s)" "gs_waiting s ! i = (b, t)"
    and run: "wait_finish (su_chat t) (su_key t) (su_cid t) cancelled extract (gs_reg s) = (out, r)"
    and hook: "\<And>p d. pn_waiters (snd (extract p d)) = pn_waiters p"
      "\<And>p d. pn_performed p \<Longrightarrow> pn_performed (snd (extract p d))"
  shows "gate_ok (leaves i (s\<lparr>gs_reg := r\<rparr>))"
    and "\<exists>p d. rg_objs (gs_reg s) (su_cid t) = Some p \<and> claims r (su_cid t) = (if pn_performed (snd (extract p d)) then 1 else 0) \<and>
           out = (if cancelled then None else Some (d, fst (extract p d)))"
proof -
  note D = gate_okD [OF ok]
  have mem: "(b, t) \<in> set (gs_waiting s)" using i nth_mem by metis
  then have regt: "registered (su_chat t) (su_cid t) (gs_reg s)" by (rule D(5))
  then obtain p where p: "rg_objs (gs_reg s) (su_cid t) = Some p" using D(4) by blast
  obtain d where F: "shape (rg_objs r (su_cid t)) = Some (pn_waiters p - 1, pn_performed (snd (extract p d)))"
      "\<And>c. c \<noteq> su_cid t \<Longrightarrow> rg_objs r c = rg_objs (gs_reg s) c"
      "keys_ok (gs_reg s) \<Longrightarrow> keys_ok r"
      "\<And>c c'. registered c c' r \<longleftrightarrow> registered c c' (gs_reg s) \<and> \<not> (pn_waiters p \<le> 1 \<and> c = su_chat t \<and> c' = su_cid t)"
      "out = (if cancelled then None else Some (d, fst (extract p d)))"
    using wait_finish_reg [OF run p hook(1)] by blast
  obtain q where q: "rg_objs r (su_cid t) = Some q" "pn_waiters q = pn_waiters p - 1" "pn_performed q = pn_performed (snd (extract p d))"
    using F(1) by (auto simp: shape_def)
  let ?s = "leaves i (s\<lparr>gs_reg := r\<rparr>)"
  have w: "waiters_on cid s = waiters_on cid ?s + (if su_cid t = cid then 1 else 0)" for cid
    using waiters_on_leaves [of i "s\<lparr>gs_reg := r\<rparr>" b t cid] i by simp
  have wp: "pn_waiters p = int (waiters_on (su_cid t) ?s) + 1" using D(6) [OF p] w [of "su_cid t"] by simp
  have last: "waiters_on (su_cid t) ?s = 0" if "pn_waiters p \<le> 1" using that wp by simp
  show "gate_ok ?s"
  proof (rule gate_okI)
    show "keys_ok (gs_reg ?s)" using F(3) D(1) by simp
    show "c' = c" if "registered c cid (gs_reg ?s)" "registered c' cid (gs_reg ?s)" for c c' cid
      using that D(2) [of c cid c'] F(4) by simp
    show "0 < waiters_on cid ?s" if reg: "registered c cid (gs_reg ?s)" for c cid
    proof (cases "cid = su_cid t")
      case True
      have "registered c cid (gs_reg s)" using reg F(4) by simp
      then have "c = su_chat t" using D(2) [OF regt] True by simp
      then show ?thesis using reg F(4) True wp by simp
    next
      case False
      then show ?thesis using reg F(4) D(3) [of c cid] w [of cid] by simp
    qed
    show "rg_objs (gs_reg ?s) cid \<noteq> None" if "registered c cid (gs_reg ?s)" for c cid
      using that F(4) F(2) [of cid] D(4) [of c cid] q(1) by (cases "cid = su_cid t") auto
    show "registered (su_chat u) (su_cid u) (gs_reg ?s)" if "(e, u) \<in> set (gs_waiting ?s)" for e u
    proof -
      have "(e, u) \<in> set (gs_waiting s)" using that set_remove_nth by fastforce
      then have "registered (su_chat u) (su_cid u) (gs_reg s)" by (rule D(5))
      moreover have "su_cid u \<noteq> su_cid t" if "pn_waiters p \<le> 1"
        using last [OF that] \<open>(e, u) \<in> set (gs_waiting ?s)\<close> by (auto simp: waiters_on_def filter_empty_conv)
      ultimately show ?thesis using F(4) by auto
    qed
    show "pn_waiters x = int (waiters_on cid ?s)" if "rg_objs (gs_reg ?s) cid = Some x" for cid x
      using that q wp F(2) [of cid] D(6) [of cid x] w [of cid] by (cases "cid = su_cid t") auto
    show "count_list (gs_passed ?s) cid \<le> claims (gs_reg ?s) cid" for cid
      using D(7) [of cid] q p hook(2) [of p d] F(2) [of cid] by (cases "cid = su_cid t") (auto simp: claims_def split: if_splits)
  qed
  show "\<exists>p d. rg_objs (gs_reg s) (su_cid t) = Some p \<and> claims r (su_cid t) = (if pn_performed (snd (extract p d)) then 1 else 0) \<and>
           out = (if cancelled then None else Some (d, fst (extract p d)))"
    using p q F(5) by (auto simp: claims_def)
qed

lemma suspend_ok:
  assumes ok: "gate_ok s" and fresh: "rg_objs (gs_reg s) new = None"
    and made: "pn_waiters made = 0" "\<not> pn_performed made"
    and run: "register_pending now new k key made precheck (gs_reg s) = (out, r)"
  shows "gate_ok (suspend b (case out of Inl short \<Rightarrow> (Inl short, r) | Inr cid \<Rightarrow> (Inr \<lparr>su_chat = k, su_key = key, su_cid = cid\<rparr>, r)) s)"
  using register_ok [OF assms, of b] by (cases out) (auto simp: suspend_def waits_def)

lemma made_pending [simp]:
  "pn_waiters (new_pending op path summary now kind payload) = 0" "\<not> pn_performed (new_pending op path summary now kind payload)"
  "pn_decision (new_pending op path summary now kind payload) = None"
  by (simp_all add: new_pending_def)

lemma gate_enter_ok:
  assumes ok: "gate_ok s" and fresh: "rg_objs (gs_reg s) new = None"
  shows "gate_ok (suspend False (gate_enter h settings now new chat op path interactive summary kind (gs_reg s)) s)"
proof (cases "confirm_enabled settings kind \<and> interactive")
  case True
  let ?made = "new_pending op path (if summary = [] then path else summary) now kind None"
  obtain out r where run: "register_pending now new (cid_key_of chat) (op, path) ?made (session_allowed h chat kind path) (gs_reg s) = (out, r)"
    by (cases "register_pending now new (cid_key_of chat) (op, path) ?made (session_allowed h chat kind path) (gs_reg s)")
  show ?thesis
    using suspend_ok [OF ok fresh _ _ run, of False] True by (cases out) (simp_all add: gate_enter_def run)
next
  case False
  then have "snd (gate_enter h settings now new chat op path interactive summary kind (gs_reg s)) = gs_reg s"
    and "\<exists>x. fst (gate_enter h settings now new chat op path interactive summary kind (gs_reg s)) = Inl x"
    by (auto simp: gate_enter_def)
  then show ?thesis using ok
    by (cases "gate_enter h settings now new chat op path interactive summary kind (gs_reg s)") (auto simp: suspend_def)
qed

lemma pick_enter_ok:
  assumes ok: "gate_ok s" and fresh: "rg_objs (gs_reg s) new = None"
  shows "gate_ok (suspend True (pick_enter now new chat question options interactive (gs_reg s)) s)"
proof (cases interactive)
  case True
  let ?key = "(''design_pick'', take 120 question)"
  let ?made = "new_pending ''design_pick'' (take 120 question) (if question = [] then ''pick a design'' else question) now ''design_pick''
                 (Some (question, options))"
  obtain out r where run: "register_pending now new (cid_key_of chat) ?key ?made (reject_concurrent ?key) (gs_reg s) = (out, r)"
    by (cases "register_pending now new (cid_key_of chat) ?key ?made (reject_concurrent ?key) (gs_reg s)")
  show ?thesis
    using suspend_ok [OF ok fresh _ _ run, of True] True by (cases out) (simp_all add: pick_enter_def run)
qed (use ok in \<open>simp add: pick_enter_def suspend_def\<close>)

lemma passed_ok:
  assumes ok: "gate_ok s" and "count_list (gs_passed s) cid = 0" "claims (gs_reg s) cid = 1"
  shows "gate_ok (s\<lparr>gs_passed := gs_passed s @ [cid]\<rparr>)"
proof (rule gate_okI)
  show "count_list (gs_passed (s\<lparr>gs_passed := gs_passed s @ [cid]\<rparr>)) c \<le> claims (gs_reg (s\<lparr>gs_passed := gs_passed s @ [cid]\<rparr>)) c" for c
    using assms(2,3) gate_okD(7) [OF ok, of c] by auto
qed (use gate_okD [OF ok] in \<open>simp_all add: waiters_on_def\<close>)

lemma claim_first_simps [simp]:
  "pn_waiters (snd (claim_first p d)) = pn_waiters p" "pn_performed p \<Longrightarrow> pn_performed (snd (claim_first p d))"
  "fst (claim_first p d) = (d \<in> {''allow'', ''allow_session''} \<and> \<not> pn_performed p)"
  "pn_performed (snd (claim_first p d)) = (pn_performed p \<or> d \<in> {''allow'', ''allow_session''})"
  by (auto simp: claim_first_def Let_def)

lemma gate_result_pass: "gate_result_of d first = Gate_pass \<longleftrightarrow> d \<in> {''allow'', ''allow_session''} \<and> first"
  by (simp add: gate_result_of_def)

lemma gate_resume_ok:
  assumes ok: "gate_ok s" and i: "i < length (gs_waiting s)" "gs_waiting s ! i = (b, t)"
    and run: "gate_resume t cancelled (gs_reg s) = (res, r)"
  shows "gate_ok (s\<lparr>gs_reg := r, gs_waiting := remove_nth i (gs_waiting s),
                    gs_passed := (if res = Some Gate_pass then gs_passed s @ [su_cid t] else gs_passed s)\<rparr>)"
proof -
  obtain out r' where w: "wait_finish (su_chat t) (su_key t) (su_cid t) cancelled claim_first (gs_reg s) = (out, r')"
    by (cases "wait_finish (su_chat t) (su_key t) (su_cid t) cancelled claim_first (gs_reg s)")
  have r: "r' = r" and res: "res = map_option (\<lambda>(d, first). gate_result_of d first) out"
    using run w by (auto simp: gate_resume_def split: option.splits prod.splits)
  note R = resume_ok [OF ok i w [unfolded r] claim_first_simps(1,2)]
  let ?s = "leaves i (s\<lparr>gs_reg := r\<rparr>)"
  show ?thesis
  proof (cases "res = Some Gate_pass")
    case False
    then show ?thesis using R(1) by (simp add: leaves_def)
  next
    case True
    obtain p d where p: "rg_objs (gs_reg s) (su_cid t) = Some p"
      "claims r (su_cid t) = (if pn_performed (snd (claim_first p d)) then 1 else 0)"
      "out = (if cancelled then None else Some (d, fst (claim_first p d)))" using R(2) by blast
    then have "\<not> pn_performed p" "d \<in> {''allow'', ''allow_session''}"
      using True res by (auto simp: gate_result_pass split: if_splits)
    then have "count_list (gs_passed ?s) (su_cid t) = 0" "claims (gs_reg ?s) (su_cid t) = 1"
      using gate_okD(7) [OF ok, of "su_cid t"] p by (simp_all add: claims_def)
    then show ?thesis using passed_ok [OF R(1)] True by (simp add: leaves_def)
  qed
qed

lemma pick_resume_ok:
  assumes ok: "gate_ok s" and i: "i < length (gs_waiting s)" "gs_waiting s ! i = (b, t)"
  shows "gate_ok (s\<lparr>gs_reg := snd (pick_resume t cancelled (gs_reg s)), gs_waiting := remove_nth i (gs_waiting s)\<rparr>)"
proof -
  obtain out r where w: "wait_finish (su_chat t) (su_key t) (su_cid t) cancelled (\<lambda>p d. (pn_choice p, p)) (gs_reg s) = (out, r)"
    by (cases "wait_finish (su_chat t) (su_key t) (su_cid t) cancelled (\<lambda>p d. (pn_choice p, p)) (gs_reg s)")
  have "snd (pick_resume t cancelled (gs_reg s)) = r" using w by (auto simp: pick_resume_def split: option.splits prod.splits)
  then show ?thesis using resume_ok(1) [OF ok i w] by (simp add: leaves_def)
qed

lemma gate_step_ok: "gate_ok s \<Longrightarrow> gate_ok (gate_step h str_of e s)"
proof (cases e)
  case (Ev_resume i cancelled)
  assume ok: "gate_ok s"
  show ?thesis
  proof (cases "length (gs_waiting s) \<le> i")
    case False
    obtain b t where bt: "gs_waiting s ! i = (b, t)" by (cases "gs_waiting s ! i")
    obtain res r where run: "gate_resume t cancelled (gs_reg s) = (res, r)" by (cases "gate_resume t cancelled (gs_reg s)")
    show ?thesis using gate_resume_ok [OF ok _ bt run] pick_resume_ok [OF ok _ bt] False Ev_resume
      by (simp add: bt run)
  qed (use ok Ev_resume in simp)
qed (auto intro: gate_enter_ok pick_enter_ok gate_ok_shape set_decision_shape allow_session_shape get_all_pending_shape)

lemma initial_gate_ok: "gate_ok initial_gate"
  by (rule gate_okI) (simp_all add: initial_gate_def empty_registry_def keys_ok_def registered_def)

interpretation gate_runs: step_system "gate_step h str_of" "\<lambda>_. True" gate_ok for h str_of
  by unfold_locales (rule gate_step_ok)

text \<open>
  C16. Over every interleaving of calls, decisions, timeouts, cancellations and polls, a confirmation is registered exactly as
  long as a call waits for it, its waiter count is the number of those calls, and at most one of them is let through.
\<close>

theorem gate_interleaving:
  "let s = run_steps (gate_step h str_of) es initial_gate
   in count_list (gs_passed s) cid \<le> 1 \<and>
      (registered c cid (gs_reg s) \<longleftrightarrow> (\<exists>b t. (b, t) \<in> set (gs_waiting s) \<and> su_chat t = c \<and> su_cid t = cid)) \<and>
      map_option pn_waiters (rg_objs (gs_reg s) cid) \<in> {None, Some (int (waiters_on cid s))}"
proof -
  define s where "s = run_steps (gate_step h str_of) es initial_gate"
  have ok: "gate_ok s" unfolding s_def by (rule gate_runs.inv_run) (simp_all add: initial_gate_ok list_all_iff)
  note D = gate_okD [OF ok]
  have "claims (gs_reg s) cid \<le> 1" by (simp add: claims_def split: option.splits)
  then have "count_list (gs_passed s) cid \<le> 1" using D(7) [of cid] by simp
  moreover have "registered c cid (gs_reg s) \<longleftrightarrow> (\<exists>b t. (b, t) \<in> set (gs_waiting s) \<and> su_chat t = c \<and> su_cid t = cid)" (is "_ = ?w")
  proof
    assume reg: "registered c cid (gs_reg s)"
    then have "filter (\<lambda>(_, t). su_cid t = cid) (gs_waiting s) \<noteq> []" using D(3) by (simp add: waiters_on_def)
    then obtain b t where t: "(b, t) \<in> set (gs_waiting s)" "su_cid t = cid" by (auto simp: filter_empty_conv)
    then have "su_chat t = c" using D(2) [OF reg] D(5) by blast
    with t show ?w by blast
  qed (use D(5) in blast)
  moreover have "map_option pn_waiters (rg_objs (gs_reg s) cid) \<in> {None, Some (int (waiters_on cid s))}"
    using D(6) by (cases "rg_objs (gs_reg s) cid") auto
  ultimately show ?thesis unfolding Let_def s_def [symmetric] by blast
qed

section \<open>Consent\<close>

definition decided :: "registry \<Rightarrow> string \<Rightarrow> string option" where
  "decided r cid = (case rg_objs r cid of None \<Rightarrow> None | Some p \<Rightarrow> pn_decision p)"

lemma decided_simps [simp]:
  "decided (put_chat c st r) cid = decided r cid" "decided (gc now r) cid = decided r cid"
  "decided (put_obj c p r) cid = (if cid = c then pn_decision p else decided r cid)"
  by (simp_all add: decided_def put_chat_def gc_def put_obj_def)

lemma decided_get_chat: "decided (snd (get_chat now c r)) cid = decided r cid"
  by (simp add: get_chat_def split: option.splits)

lemma decided_allow_session: "decided (allow_session now chat r) cid = decided r cid"
  using decided_get_chat by (auto simp: allow_session_def split: option.splits prod.splits) (metis snd_conv)+

lemma decided_get_all_pending: "decided (snd (get_all_pending now chat r)) cid = decided r cid"
  by (simp add: get_all_pending_def split: option.splits)

lemma decided_register:
  assumes "pn_decision made = None" "rg_objs r new = None"
  shows "decided (snd (register_pending now new k key made precheck r)) cid = decided r cid"
proof -
  obtain st0 r1 where g: "get_chat now k (gc now r) = (st0, r1)" by (cases "get_chat now k (gc now r)")
  then have d1: "decided r1 c = decided r c" for c using decided_get_chat [of now k "gc now r" c] by simp
  have n: "decided r new = None" using assms(2) by (simp add: decided_def)
  show ?thesis
  proof (cases "waiting_for key r1 (st0\<lparr>cf_last_ts := now\<rparr>)")
    case None
    then show ?thesis using assms(1) n d1 by (simp add: register_pending_def g Let_def split: option.splits)
  next
    case (Some x)
    obtain c p where x: "x = (c, p)" by (cases x)
    then have "rg_objs r1 c = Some p" using Some by (auto simp: waiting_for_def split: option.splits if_splits)
    then have "decided r c = pn_decision p" using d1 [of c] by (simp add: decided_def)
    then show ?thesis using Some x d1 by (simp add: register_pending_def g Let_def split: option.splits)
  qed
qed

lemma decided_wait_finish:
  assumes "\<And>p d. pn_decision (snd (extract p d)) = pn_decision p"
  shows "decided (snd (wait_finish k key c cancelled extract r)) cid = decided r cid"
proof (cases "rg_objs r c")
  case (Some p)
  define d where "d = (case pn_decision p of None \<Rightarrow> ''_timeout'' | Some d \<Rightarrow> if d = [] then ''_timeout'' else d)"
  obtain x p1 where e: "extract p d = (x, p1)" by (cases "extract p d")
  then have "pn_decision p1 = pn_decision p" using assms [of p d] by simp
  then show ?thesis using Some e
    by (auto simp: wait_finish_def Let_def d_def [symmetric] decided_def put_obj_def put_chat_def split: option.splits)
qed (simp add: wait_finish_def)

lemma decided_set_decision:
  assumes "decision \<noteq> ''allow_session''"
  shows "decided (snd (set_decision h str_of now chat c decision option_id r)) cid \<in> {decided r cid, if cid = c then Some decision else decided r cid}"
  using assms by (simp add: set_decision_def Let_def split: option.splits if_splits)

text \<open>The answers that may release the confirmation \<open>cid\<close>: its own, or a session answer.\<close>

fun consent_for :: "string \<Rightarrow> gate_event \<Rightarrow> bool" where
  "consent_for cid (Ev_decide _ _ c d _) = (d = ''allow_session'' \<or> (d = ''allow'' \<and> c = cid))"
| "consent_for cid _ = False"

definition unapproved :: "string \<Rightarrow> gate_sys \<Rightarrow> bool" where
  "unapproved cid s = (cid \<notin> set (gs_passed s) \<and> decided (gs_reg s) cid \<notin> {Some ''allow'', Some ''allow_session''})"

lemma suspend_sel: "gs_passed (suspend b x s) = gs_passed s" "gs_reg (suspend b x s) = snd x"
  by (auto simp: suspend_def split: prod.splits sum.splits)

lemma decided_gate_enter:
  "rg_objs r new = None \<Longrightarrow> decided (snd (gate_enter h settings now new chat op path interactive summary kind r)) cid = decided r cid"
  using decided_register [of "new_pending op path (if summary = [] then path else summary) now kind None" r new now "cid_key_of chat"
      "(op, path)" "session_allowed h chat kind path" cid]
  by (auto simp: gate_enter_def Let_def split: prod.splits sum.splits)

lemma decided_pick_enter:
  "rg_objs r new = None \<Longrightarrow> decided (snd (pick_enter now new chat question options interactive r)) cid = decided r cid"
  using decided_register [of "new_pending ''design_pick'' (take 120 question) (if question = [] then ''pick a design'' else question) now
      ''design_pick'' (Some (question, options))" r new now "cid_key_of chat" "(''design_pick'', take 120 question)"
      "reject_concurrent (''design_pick'', take 120 question)" cid]
  by (auto simp: pick_enter_def Let_def split: prod.splits sum.splits)

lemma snd_resume:
  "snd (gate_resume t cancelled r) = snd (wait_finish (su_chat t) (su_key t) (su_cid t) cancelled claim_first r)"
  "snd (pick_resume t cancelled r) = snd (wait_finish (su_chat t) (su_key t) (su_cid t) cancelled (\<lambda>p d. (pn_choice p, p)) r)"
  by (auto simp: gate_resume_def pick_resume_def split: prod.splits option.splits)

lemma decided_claim_first: "pn_decision (snd (claim_first p d)) = pn_decision p"
  by (simp add: claim_first_def Let_def)

lemma decided_resume:
  "decided (snd (gate_resume t cancelled r)) cid = decided r cid" "decided (snd (pick_resume t cancelled r)) cid = decided r cid"
  by (simp_all add: snd_resume decided_wait_finish decided_claim_first)

lemma pass_needs_approval:
  assumes "fst (gate_resume t cancelled r) = Some Gate_pass"
  shows "decided r (su_cid t) \<in> {Some ''allow'', Some ''allow_session''}"
  using assms
  by (cases "rg_objs r (su_cid t)"; cases cancelled)
    (auto simp: gate_resume_def wait_finish_def Let_def gate_result_pass decided_def split: option.splits if_splits prod.splits)

lemma unapproved_step:
  assumes "\<not> consent_for cid e" and un: "unapproved cid s"
  shows "unapproved cid (gate_step h str_of e s)"
proof (cases e)
  case (Ev_resume i cancelled)
  obtain b t where bt: "gs_waiting s ! i = (b, t)" by (cases "gs_waiting s ! i")
  obtain res r where run: "gate_resume t cancelled (gs_reg s) = (res, r)" by (cases "gate_resume t cancelled (gs_reg s)")
  have r: "decided r cid = decided (gs_reg s) cid" using decided_resume(1) [of t cancelled "gs_reg s" cid] run by simp
  have "su_cid t \<noteq> cid" if "res = Some Gate_pass"
    using pass_needs_approval [of t cancelled "gs_reg s"] run that un by (auto simp: unapproved_def)
  then show ?thesis using un Ev_resume bt run r by (auto simp: unapproved_def decided_resume)
next
  case (Ev_decide now chat c d opt)
  then show ?thesis using assms decided_set_decision [of d h str_of now chat c opt "gs_reg s" cid]
    by (auto simp: unapproved_def split: if_splits)
qed (use un in \<open>auto simp: unapproved_def suspend_sel decided_gate_enter decided_pick_enter decided_allow_session decided_get_all_pending\<close>)

interpretation unapproved_runs: step_system "gate_step h str_of" "\<lambda>e. \<not> consent_for cid e" "unapproved cid" for h str_of cid
  by unfold_locales (rule unapproved_step)

text \<open>
  C17. No call is let through without consent: unless the user answers a confirmation with an approval, or gives a session answer, over
  any interleaving of calls, other answers, timeouts, cancellations and polls, no call waiting for it is let through.
\<close>

theorem no_pass_without_consent:
  assumes "list_all (\<lambda>e. \<not> consent_for cid e) es"
  shows "cid \<notin> set (gs_passed (run_steps (gate_step h str_of) es initial_gate))"
proof -
  have "unapproved cid initial_gate" by (simp add: unapproved_def initial_gate_def empty_registry_def decided_def)
  from unapproved_runs.inv_run [OF assms this, of h str_of] show ?thesis by (simp add: unapproved_def)
qed

definition write_call :: "string \<Rightarrow> string \<Rightarrow> gate_event" where
  "write_call cid path = Ev_gate None 0 cid (Some ''c'') ''write'' path True [] ''myspace''"

theorem no_pass_without_consent_witness:
  "''a'' \<notin> set (gs_passed (run_steps (gate_step plain_host (\<lambda>_. []))
     [write_call ''a'' ''/m/x'', write_call ''b'' ''/m/y'', Ev_decide 1 ''c'' ''b'' ''allow'' None, Ev_resume 1 False, Ev_resume 0 False] initial_gate)) \<and>
   ''b'' \<in> set (gs_passed (run_steps (gate_step plain_host (\<lambda>_. []))
     [write_call ''a'' ''/m/x'', write_call ''b'' ''/m/y'', Ev_decide 1 ''c'' ''b'' ''allow'' None, Ev_resume 1 False, Ev_resume 0 False] initial_gate))"
proof
  show "''b'' \<in> set (gs_passed (run_steps (gate_step plain_host (\<lambda>_. []))
     [write_call ''a'' ''/m/x'', write_call ''b'' ''/m/y'', Ev_decide 1 ''c'' ''b'' ''allow'' None, Ev_resume 1 False, Ev_resume 0 False] initial_gate))"
    by code_simp
qed (rule no_pass_without_consent, simp add: write_call_def)

section \<open>Session answers\<close>

lemma pending_items_mem: "(c, q) \<in> set (pending_items r st) \<longleftrightarrow> c \<in> set (cf_pending st) \<and> rg_objs r c = Some q"
  by (auto simp: pending_items_def split: option.splits)

lemma release_all_objs:
  "rg_objs (release_all cids r) c =
     (if c \<in> set cids then map_option (\<lambda>q. q\<lparr>pn_decision := Some ''allow_session''\<rparr>) (rg_objs r c) else rg_objs r c)"
proof (induction cids arbitrary: r)
  case (Cons cid cids)
  define r1 where "r1 = (case rg_objs r cid of None \<Rightarrow> r | Some q \<Rightarrow> put_obj cid (q\<lparr>pn_decision := Some ''allow_session''\<rparr>) r)"
  have "release_all (cid # cids) r = release_all cids r1" by (simp add: release_all_def r1_def)
  moreover have "rg_objs r1 = (rg_objs r)(cid := map_option (\<lambda>q. q\<lparr>pn_decision := Some ''allow_session''\<rparr>) (rg_objs r cid))"
    by (cases "rg_objs r cid") (simp_all add: r1_def fun_upd_idem)
  ultimately show ?case using Cons.IH [of r1] by (cases "rg_objs r c") auto
qed (simp add: release_all_def)

text \<open>The confirmations of a chat that the session answer to \<open>p\<close> speaks for.\<close>

definition answered_with :: "os_host \<Rightarrow> registry \<Rightarrow> string \<Rightarrow> string \<Rightarrow> pending \<Rightarrow> string \<Rightarrow> bool" where
  "answered_with h r chat confirm_id p c =
     (c \<noteq> confirm_id \<and> registered chat c r \<and>
      (case rg_objs r c of
         None \<Rightarrow> False
       | Some q \<Rightarrow> pn_decision q = None \<and> pn_kind q = pn_kind p \<and> scope_covers h (pn_kind p) (session_scope h (pn_kind p) (pn_path p)) (pn_path q)))"

text \<open>
  C23. A session answer releases, beside its own confirmation, exactly the undecided confirmations of the same chat and the same
  permission domain that its scope covers; it changes no other confirmation of the process.
\<close>

theorem session_answer_stays_in_its_domain:
  assumes run: "set_decision h str_of now chat cid ''allow_session'' option_id r = (Dec_ok d op path cascaded, r')"
    and p: "rg_objs r cid = Some p" and c: "c \<noteq> cid"
  shows "(c \<in> set cascaded \<longleftrightarrow> answered_with h r chat cid p c) \<and>
         rg_objs r' c = (if answered_with h r chat cid p c
           then map_option (\<lambda>q. q\<lparr>pn_decision := Some ''allow_session''\<rparr>) (rg_objs r c) else rg_objs r c)"
proof -
  obtain st where st: "dict_get chat (rg_chats r) = Some st" "cid \<in> set (cf_pending st)"
    using run by (auto simp: set_decision_def split: option.splits if_splits)
  have kind: "pn_kind p \<noteq> ''design_pick''" using run st p by (auto simp: set_decision_def split: if_splits)
  define p1 where "p1 = p\<lparr>pn_choice := pn_choice p, pn_decision := Some ''allow_session''\<rparr>"
  define r1 where "r1 = put_obj cid p1 (put_chat chat (st\<lparr>cf_last_ts := now\<rparr>) r)"
  define granted where "granted = session_scope h (pn_kind p) (pn_path p)"
  define r2 where "r2 = put_chat chat (st\<lparr>cf_last_ts := now, cf_session_allows := add_grant_once (pn_kind p, granted) (cf_session_allows st)\<rparr>) r1"
  have eqs: "cascaded = map fst (filter (cascades h cid p granted) (pending_items r1 st))" "r' = release_all cascaded r2"
    using run st p kind by (auto simp: set_decision_def Let_def p1_def r1_def r2_def granted_def)
  have reg: "registered chat c r \<longleftrightarrow> c \<in> set (cf_pending st)" using st(1) by (auto simp: registered_def dict_get_def)
  have obj: "rg_objs r1 c = rg_objs r c" using c by (simp add: r1_def)
  have mem: "c \<in> set cascaded \<longleftrightarrow> answered_with h r chat cid p c"
  proof -
    have "c \<in> set cascaded \<longleftrightarrow> (\<exists>q. (c, q) \<in> set (pending_items r1 st) \<and> cascades h cid p granted (c, q))" by (force simp: eqs(1))
    then show ?thesis using c kind obj
      by (cases "rg_objs r c") (auto simp: pending_items_mem cascades_def answered_with_def reg granted_def [symmetric])
  qed
  moreover have "rg_objs r2 c = rg_objs r c" using obj by (simp add: r2_def)
  ultimately show ?thesis by (simp add: eqs(2) release_all_objs)
qed

definition two_writes :: gate_sys where
  "two_writes = run_steps (gate_step plain_host (\<lambda>_. []))
     [write_call ''a'' ''/m/x'', write_call ''b'' ''/m/y'', Ev_gate None 0 ''k'' (Some ''c'') ''local_exec'' ''git log'' True [] ''local_cmd'']
     initial_gate"

theorem session_answer_stays_in_its_domain_witness:
  "(let r = gs_reg two_writes; out = set_decision plain_host (\<lambda>_. []) 1 ''c'' ''a'' ''allow_session'' None r
    in answered_with plain_host r ''c'' ''a'' (the (rg_objs r ''a'')) ''b'' \<and> decided (snd out) ''b'' = Some ''allow_session'' \<and>
       \<not> answered_with plain_host r ''c'' ''a'' (the (rg_objs r ''a'')) ''k'' \<and> decided (snd out) ''k'' = None)"
proof -
  define r where "r = gs_reg two_writes"
  define p where "p = the (rg_objs (gs_reg two_writes) ''a'')"
  define r' where "r' = snd (set_decision plain_host (\<lambda>_. []) 1 ''c'' ''a'' ''allow_session'' None (gs_reg two_writes))"
  have "fst (set_decision plain_host (\<lambda>_. []) 1 ''c'' ''a'' ''allow_session'' None (gs_reg two_writes)) =
      Dec_ok ''allow_session'' ''write'' ''/m/x'' [''b'']" by code_simp
  then have run: "set_decision plain_host (\<lambda>_. []) 1 ''c'' ''a'' ''allow_session'' None r = (Dec_ok ''allow_session'' ''write'' ''/m/x'' [''b''], r')"
    by (metis r_def r'_def prod.collapse)
  have p: "rg_objs r ''a'' = Some p" unfolding r_def p_def by code_simp
  note S = session_answer_stays_in_its_domain [OF run p]
  have b: "answered_with plain_host r ''c'' ''a'' p ''b''" using S [of "''b''"] by simp
  have k: "\<not> answered_with plain_host r ''c'' ''a'' p ''k''" using S [of "''k''"] by simp
  have "rg_objs r ''b'' \<noteq> None" using b by (auto simp: answered_with_def split: option.splits)
  then have "decided r' ''b'' = Some ''allow_session''" using S [of "''b''"] b by (auto simp: decided_def)
  moreover have "decided r ''k'' = None" unfolding r_def by code_simp
  then have "decided r' ''k'' = None" using S [of "''k''"] k by (simp add: decided_def)
  ultimately show ?thesis using b k by (simp add: Let_def r_def [symmetric] p run)
qed

text \<open>
  A call that is cancelled just after its confirmation was approved still claims the execution, and then raises: the next call
  of the group is told that the operation was already performed, although no call was let through.
\<close>

theorem cancelled_call_keeps_the_claim:
  assumes p: "rg_objs r (su_cid t) = Some p" "pn_decision p \<in> {Some ''allow'', Some ''allow_session''}" "\<not> pn_performed p"
    and u: "su_cid u = su_cid t"
  shows "fst (gate_resume t True r) = None \<and> fst (gate_resume u False (snd (gate_resume t True r))) = Some Gate_deduplicated"
proof -
  obtain d where d: "pn_decision p = Some d" "d \<in> {''allow'', ''allow_session''}" using p(2) by auto
  define r1 where "r1 = snd (gate_resume t True r)"
  have one: "fst (gate_resume t True r) = None" using p(1) by (simp add: gate_resume_def wait_finish_def Let_def split: prod.split)
  have "rg_objs r1 (su_cid t) = Some (p\<lparr>pn_performed := True, pn_waiters := pn_waiters p - 1\<rparr>)"
    using p(1,3) d by (auto simp: r1_def snd_resume wait_finish_def Let_def claim_first_def split: option.splits)
  then have "fst (gate_resume u False r1) = Some Gate_deduplicated"
    using d u by (auto simp: gate_resume_def wait_finish_def Let_def claim_first_def gate_result_of_def split: prod.splits)
  then show ?thesis using one by (simp add: r1_def)
qed

theorem cancelled_call_keeps_the_claim_witness:
  "let s = run_steps (gate_step plain_host (\<lambda>_. []))
             [write_call ''a'' ''/m/x'', write_call ''b'' ''/m/x'', Ev_decide 1 ''c'' ''a'' ''allow'' None] initial_gate;
       t = snd (gs_waiting s ! 0); u = snd (gs_waiting s ! 1)
   in fst (gate_resume t True (gs_reg s)) = None \<and>
      fst (gate_resume u False (snd (gate_resume t True (gs_reg s)))) = Some Gate_deduplicated"
proof -
  define s where "s = run_steps (gate_step plain_host (\<lambda>_. []))
             [write_call ''a'' ''/m/x'', write_call ''b'' ''/m/x'', Ev_decide 1 ''c'' ''a'' ''allow'' None] initial_gate"
  define t where "t = snd (gs_waiting s ! 0)"
  define u where "u = snd (gs_waiting s ! 1)"
  define p where "p = the (rg_objs (gs_reg s) (su_cid t))"
  have p: "rg_objs (gs_reg s) (su_cid t) = Some p" unfolding p_def t_def s_def by code_simp
  have d: "pn_decision p = Some ''allow''" "\<not> pn_performed p" "su_cid u = su_cid t" unfolding p_def t_def u_def s_def by code_simp+
  have "pn_decision p \<in> {Some ''allow'', Some ''allow_session''}" using d(1) by simp
  from cancelled_call_keeps_the_claim [OF p this d(2,3)] show ?thesis
    unfolding Let_def s_def [symmetric] t_def [symmetric] u_def [symmetric] .
qed

text \<open>
  A session answer to one command covers every later command line that begins with the same program, whatever is
  chained behind it; a session answer to a path covers everything beside it in its directory.
\<close>

theorem session_grants_reach_further:
  "scope_covers plain_host ''local_cmd'' (session_scope plain_host ''local_cmd'' ''git status'') ''git status; rm -rf /home/u/work'' \<and>
   scope_covers plain_host ''local_path:read'' (session_scope plain_host ''local_path:read'' ''/home/u/notes'') ''/home/u/.ssh/id_rsa''"
  by code_simp

end
