(* ===== verification/Local_Policy.thy ===== *)
theory Local_Policy
  imports Py_Shell
begin

text \<open>
  The local execution policy, \<open>core/sandbox/local_policy.py\<close>, for a POSIX host: the decision whether a file access or
  a shell command of the agent may run unattended, needs a confirmation or is refused. The tables of
  dangerous commands are the regular expressions of the source, the extraction of write targets its tokenizer
  and its case distinctions. A decision that looks up an unknown disposition raises \<open>KeyError\<close>, an unknown intent \<open>ValueError\<close>.
\<close>

section \<open>Vocabulary\<close>

datatype decision = D_ALLOW | D_CONFIRM | D_DENY

datatype policy_error = Disposition_key_error string | Bad_intent string

fun severity :: "decision \<Rightarrow> nat" where
  "severity D_ALLOW = 0"
| "severity D_CONFIRM = 1"
| "severity D_DENY = 2"

definition disposition_to_decision :: "string \<Rightarrow> policy_error + decision" where
  "disposition_to_decision d =
     (if d = ''block'' then Inr D_DENY else if d = ''confirm'' then Inr D_CONFIRM
      else if d = ''allow'' then Inr D_ALLOW else Inl (Disposition_key_error d))"

definition danger_reason :: "string \<Rightarrow> string" where
  "danger_reason category = ''danger:'' @ category"

definition danger_categories :: "string list \<Rightarrow> string list" where
  "danger_categories reasons = map (drop 7) (filter (prefix ''danger:'') reasons)"

record grant =
  gr_path :: string
  gr_mode :: string

record policy =
  po_out_of_scope :: string
  po_workspace_write :: string
  po_danger :: "(string \<times> string) list"

definition default_danger :: "(string \<times> string) list" where
  "default_danger =
     [(''delete'', ''confirm''), (''system_write'', ''block''), (''network'', ''confirm''), (''privilege'', ''block''),
      (''credential'', ''block'')]"

definition danger_category_names :: "string list" where
  "danger_category_names = map fst default_danger"

definition disposition_for :: "policy \<Rightarrow> string \<Rightarrow> string" where
  "disposition_for pol category =
     (case dict_get category (po_danger pol) of
        Some d \<Rightarrow> d
      | None \<Rightarrow> (case dict_get category default_danger of Some d \<Rightarrow> d | None \<Rightarrow> ''confirm''))"

record eval_result =
  er_decision :: decision
  er_reasons :: "string list"
  er_write_paths :: "string list"

text \<open>\<open>max(decisions, key=severity)\<close>.\<close>

definition max_decision :: "decision list \<Rightarrow> decision" where
  "max_decision ds = (if D_DENY \<in> set ds then D_DENY else if D_CONFIRM \<in> set ds then D_CONFIRM else D_ALLOW)"

section \<open>Tables of dangerous commands\<close>

definition cmd_start :: rx where
  "cmd_start =
     Seq (alts [Bol, plus (cls [CHR 0x0A, CHR '';'', CHR ''&'', CHR ''|'', CHR ''('', CHR 0x60]), lit [CHR 0x24, CHR ''(''],
                Seq (words [''-execdir'', ''-exec'']) (plus space)])
         (Star space)"

definition cmd_wrappers :: rx where
  "cmd_wrappers =
     Star (seqs [words [''sudo'', ''doas'', ''env'', ''command'', ''nohup'', ''time'', ''xargs''], plus space,
                 Star (seqs [lit ''-'', plus nonspace, plus space])])"

definition not_word_tail :: rx where
  "not_word_tail = Not_ahead (\<lambda>c. is_word c \<or> c = CHR ''.'' \<or> c = CHR ''-'')"

definition command_re :: "rx \<Rightarrow> rx" where
  "command_re names = seqs [cmd_start, cmd_wrappers, opt (Seq (Star nonspace) (lit ''/'')), names, not_word_tail]"

definition posix_danger :: "(string \<times> rx) list" where
  "posix_danger =
     [(''delete'', command_re (words [''rm'', ''rmdir'', ''unlink'', ''shred''])),
      (''delete'', seqs [Wordb, lit ''rm'', plus space, Star (seqs [lit ''-'', Star wordc, plus space]), lit ''-'', Star wordc,
                         cls ''rf'']),
      (''delete'', Alt (seqs [Wordb, lit ''mkfs'', Wordb])
                       (seqs [Wordb, lit ''dd'', Wordb, Star dot, Wordb, lit ''of=/dev/''])),
      (''system_write'', seqs [lit ''>'', opt (lit ''>''), Star space, lit ''/'',
          words [''etc'', ''usr'', ''bin'', ''sbin'', ''boot'', ''sys'', ''System'', ''Library''], Wordb]),
      (''system_write'', seqs [Wordb, words [''chmod'', ''chown''], Wordb, Star dot, space, lit ''/'',
          words [''etc'', ''usr'', ''bin'', ''sbin'', ''System''], Wordb]),
      (''network'', command_re (words [''curl'', ''wget'', ''nc'', ''ncat'', ''scp'', ''sftp'', ''ssh'', ''telnet''])),
      (''network'', seqs [Wordb, words [''curl'', ''wget''], Wordb, Star (ncls ''|''), lit ''|'', Star space,
          opt (Seq (lit ''sudo'') (plus space)), opt (lit ''ba''), lit ''sh'', Wordb]),
      (''privilege'', command_re (words [''sudo'', ''doas'', ''su''])),
      (''credential'', command_re (alts [lit ''security'', lit ''secret-tool'', lit ''keyctl'',
          Seq (lit ''gnome-keyring'') (opt (lit ''-daemon''))]))]"

definition posix_write_intent :: rx where
  "posix_write_intent = alts
     [seqs [Alt Bol (Seq (cls '';&|'') (Star space)), Star (Seq (words [''sudo'', ''env'']) (plus space)),
            words [''rm'', ''rmdir'', ''unlink'', ''shred'', ''touch'', ''mkdir'', ''mktemp'', ''cp'', ''mv'', ''install'', ''ln'',
                   ''chmod'', ''chown'', ''truncate'', ''tee'', ''patch'', ''make'', ''cmake'', ''ninja'', ''npm'', ''pnpm'', ''yarn'',
                   ''pip'', ''uv'', ''cargo''], Wordb],
      seqs [Wordb, lit ''sed'', plus space, Star (ncls '';&|''), lit ''-'', Star letter, lit ''i'', Wordb],
      seqs [Wordb, lit ''git'', plus space,
            words [''add'', ''apply'', ''checkout'', ''switch'', ''restore'', ''reset'', ''clean'', ''commit'', ''merge'', ''rebase'',
                   ''cherry-pick'', ''revert'', ''stash'', ''pull''], Wordb],
      seqs [Alt Bol (ncls ''<''), lit ''>'', opt (lit ''>''), Star space, ncls ''&'']]"

definition has_write_intent :: "string \<Rightarrow> bool" where
  "has_write_intent command = search posix_write_intent command"

section \<open>Paths\<close>

definition norm :: "string \<Rightarrow> string" where
  "norm path = (let r = rstrip_char (CHR ''/'') (normpath path) in if r = [] then ''/'' else r)"

definition canonical :: "os_host \<Rightarrow> string \<Rightarrow> string" where
  "canonical h path = norm (h_realpath h (abspath h (h_expanduser h path)))"

definition is_under :: "string \<Rightarrow> string \<Rightarrow> bool" where
  "is_under path base =
     (let p = norm path; b = norm base
      in if b = ''/'' then prefix ''/'' p else p = b \<or> prefix (b @ ''/'') p)"

definition url_re :: rx where
  "url_re = seqs [Bol, letter, Star (One (\<lambda>c. is_letter c \<or> is_digit c \<or> c \<in> set ''+.-'')), lit ''://'']"

definition looks_like_path :: "string \<Rightarrow> bool" where
  "looks_like_path token =
     (if token = [] \<or> prefix ''-'' token then False
      else if rx_match url_re token then False
      else prefix ''~'' token \<or> CHR ''/'' \<in> set token)"

definition resolve_token :: "os_host \<Rightarrow> string \<Rightarrow> string \<Rightarrow> string" where
  "resolve_token h cwd token =
     (if prefix ''~'' token \<or> isabs token then canonical h token else canonical h (path_join cwd token))"

definition system_write_roots :: "string list" where
  "system_write_roots =
     [''/etc'', ''/usr'', ''/bin'', ''/sbin'', ''/boot'', ''/sys'', ''/lib'', ''/lib64'', ''/System'', ''/Library'']"

definition is_system_write_path :: "string \<Rightarrow> bool" where
  "is_system_write_path path = list_ex (is_under path) system_write_roots"

definition intersects_system_write_area :: "os_host \<Rightarrow> string \<Rightarrow> bool" where
  "intersects_system_write_area h path =
     (let resolved = canonical h path
      in list_ex (\<lambda>root. is_under resolved root \<or> is_under root resolved) system_write_roots)"

section \<open>Tokens and write targets\<close>

definition shell_tokens :: "string \<Rightarrow> string list" where
  "shell_tokens command = (case shlex_tokens '';&|<>'' command of Some ts \<Rightarrow> ts | None \<Rightarrow> split_ws [] command)"

definition segment_step :: "string list list \<Rightarrow> string \<Rightarrow> string list list" where
  "segment_step segments token =
     (if token \<noteq> [] \<and> set token \<subseteq> {CHR '';'', CHR ''&'', CHR ''|''}
      then (if last segments \<noteq> [] then segments @ [[]] else segments)
      else butlast segments @ [last segments @ [token]])"

definition command_segments :: "string \<Rightarrow> string list list" where
  "command_segments command = filter (\<lambda>seg. seg \<noteq> []) (foldl segment_step [[]] (shell_tokens command))"

definition lstrip_redirect :: "string \<Rightarrow> string" where
  "lstrip_redirect token = dropWhile (\<lambda>c. c = CHR ''<'' \<or> c = CHR ''>'') token"

definition extract_target_paths :: "os_host \<Rightarrow> string \<Rightarrow> string \<Rightarrow> string list" where
  "extract_target_paths h cwd command =
     map (resolve_token h cwd) (filter looks_like_path (map lstrip_redirect (shell_tokens command)))"

definition WRITE_ALL_OPERANDS :: "string list" where
  "WRITE_ALL_OPERANDS =
     [''rm'', ''rmdir'', ''unlink'', ''shred'', ''touch'', ''mkdir'', ''chmod'', ''chown'', ''truncate'', ''tee'', ''remove-item'',
      ''set-content'', ''add-content'', ''out-file'', ''new-item'', ''rename-item'', ''set-itemproperty'', ''new-itemproperty'',
      ''del'', ''erase'', ''rd'', ''md'']"

definition WRITE_DESTINATION_ONLY :: "string list" where
  "WRITE_DESTINATION_ONLY = [''cp'', ''copy'', ''install'', ''ln'', ''copy-item'']"

definition WRITE_SOURCE_AND_DESTINATION :: "string list" where
  "WRITE_SOURCE_AND_DESTINATION = [''mv'', ''move'', ''move-item'', ''ren'', ''rename'']"

definition GIT_WRITE :: "string list" where
  "GIT_WRITE =
     [''add'', ''apply'', ''checkout'', ''switch'', ''restore'', ''reset'', ''clean'', ''commit'', ''merge'', ''rebase'',
      ''cherry-pick'', ''revert'', ''stash'', ''pull'']"

text \<open>An exact output redirection: \<open>>\<close>, \<open>>>\<close> or \<open>>&\<close> after digits or an ampersand; \<open>$\<close> also matches before a final newline.\<close>

definition redirect_op :: "string \<Rightarrow> bool" where
  "redirect_op token =
     list_ex (\<lambda>(_, rest). rest = [] \<or> rest = [CHR 0x0A])
       (ends (seqs [Bol, Alt (Star digit) (lit ''&''), Alt (Seq (lit ''>'') (opt (lit ''>''))) (lit ''>&'')]) (None, token))"

text \<open>
  The target of an attached redirection (\<open>>out.txt\<close>): the rest after the operator, which may not begin with another
  bracket and, apart from its first character, holds no newline but a final one, which is not part of it.
\<close>

definition attached_rest :: "string \<Rightarrow> string option" where
  "attached_rest s =
     (case s of
        [] \<Rightarrow> None
      | c # t \<Rightarrow>
          if c = CHR ''>'' then None
          else if CHR 0x0A \<notin> set t then Some s
          else if CHR 0x0A \<notin> set (butlast t) then Some (butlast s) else None)"

definition attached_target :: "string \<Rightarrow> string option" where
  "attached_target token =
     (let digits = dropWhile is_digit token;
          body = (if prefix ''&'' token then tl token else digits)
      in if prefix ''>>'' body then attached_rest (drop 2 body)
         else if prefix ''>'' body then attached_rest (drop 1 body) else None)"

definition casefold :: "string \<Rightarrow> string" where
  "casefold s = map lower s"

definition add_target :: "os_host \<Rightarrow> string \<Rightarrow> string list \<Rightarrow> string \<Rightarrow> string list" where
  "add_target h cwd out token =
     (let candidate = lstrip_redirect token
      in if looks_like_path candidate
         then let resolved = resolve_token h cwd candidate in if resolved \<in> set out then out else out @ [resolved]
         else out)"

fun redirect_targets :: "string list \<Rightarrow> string list" where
  "redirect_targets [] = []"
| "redirect_targets (token # rest) =
     (if redirect_op token then (case rest of [] \<Rightarrow> [] | t # _ \<Rightarrow> [t])
      else case attached_target token of
             Some t \<Rightarrow> [t]
           | None \<Rightarrow> if prefix ''of='' (casefold token) then [drop 3 token] else []) @ redirect_targets rest"

definition skipped_token :: "string \<Rightarrow> bool" where
  "skipped_token token =
     (casefold token \<in> set [''sudo'', ''doas'', ''env'', ''command'', ''nohup''] \<or>
      (CHR ''='' \<in> set token \<and> \<not> prefix ''/'' token \<and> \<not> prefix [CHR 0x5C] token) \<or>
      prefix ''-'' token \<or> token \<in> set [''<'', ''>'', ''>>'', ''<<'', ''<<<''])"

fun flag_value :: "string \<Rightarrow> string list \<Rightarrow> string option" where
  "flag_value flag [] = None"
| "flag_value flag (a # as) = (if a = flag then (case as of [] \<Rightarrow> None | v # _ \<Rightarrow> Some v) else flag_value flag as)"

definition flag_values :: "string list \<Rightarrow> string list \<Rightarrow> string list" where
  "flag_values flags args = concat (map (\<lambda>f. case flag_value f args of None \<Rightarrow> [] | Some v \<Rightarrow> [v]) flags)"

definition operand_targets :: "string \<Rightarrow> string list \<Rightarrow> string list" where
  "operand_targets executable args =
     (let path_args = filter looks_like_path args in
      if executable \<in> set WRITE_DESTINATION_ONLY \<and> path_args \<noteq> []
      then (case flag_value ''-t'' args of
              Some v \<Rightarrow> [v]
            | None \<Rightarrow> (case flag_value ''--target-directory'' args of Some v \<Rightarrow> [v] | None \<Rightarrow> [last path_args]))
      else if executable \<in> set WRITE_SOURCE_AND_DESTINATION then path_args
      else if executable \<in> set WRITE_ALL_OPERANDS then path_args @ flag_values [''-Path'', ''-LiteralPath'', ''-OutFile''] args
      else if executable = ''sed'' \<and> list_ex (rx_match (seqs [Bol, lit ''-'', Star letter, One (\<lambda>c. c = CHR ''i'')])) args
      then path_args
      else if executable = ''patch'' then flag_values [''-d'', ''--directory''] args
      else if executable = ''git'' \<and> list_ex (\<lambda>a. casefold a \<in> set GIT_WRITE) args
      then flag_values [''-C'', ''--git-dir'', ''--work-tree''] args
      else [])"

definition executable_name :: "string \<Rightarrow> string" where
  "executable_name token =
     casefold (last (split_on (CHR ''/'') (map (\<lambda>c. if c = CHR 0x5C then CHR ''/'' else c) token)))"

definition segment_targets :: "string list \<Rightarrow> string list" where
  "segment_targets segment =
     redirect_targets segment @
     (case dropWhile skipped_token segment of [] \<Rightarrow> [] | cmd # args \<Rightarrow> operand_targets (executable_name cmd) args)"

definition extract_write_target_paths :: "os_host \<Rightarrow> string \<Rightarrow> string \<Rightarrow> string list" where
  "extract_write_target_paths h cwd command =
     foldl (add_target h cwd) [] (concat (map segment_targets (command_segments command)))"

section \<open>Decisions\<close>

definition matching_grants :: "os_host \<Rightarrow> grant list \<Rightarrow> string \<Rightarrow> grant list" where
  "matching_grants h gs resolved = filter (\<lambda>g. is_under resolved (canonical h (gr_path g))) gs"

definition scope_step :: "os_host \<Rightarrow> string \<Rightarrow> string \<Rightarrow> grant list \<Rightarrow> policy \<Rightarrow> string \<Rightarrow> policy_error + decision \<times> string list" where
  "scope_step h resolved intent gs pol workspace =
     (let ms = matching_grants h gs resolved in
      if is_under resolved workspace then Inr (D_ALLOW, [])
      else if ms \<noteq> [] \<and> (intent = ''read'' \<or> list_ex (\<lambda>g. gr_mode g = ''readwrite'') ms) then Inr (D_ALLOW, [])
      else sum_bind (disposition_to_decision (po_out_of_scope pol)) (\<lambda>d.
        Inr (d, if d = D_ALLOW then []
                else [(if ms \<noteq> [] then ''read-only grant write'' else ''out-of-scope path'') @ '': '' @ resolved] @
                     (if intent = ''write'' then [danger_reason ''out_of_scope_write''] else []))))"

definition write_step :: "string \<Rightarrow> string \<Rightarrow> policy \<Rightarrow> policy_error + decision list \<times> string list" where
  "write_step resolved intent pol =
     (if intent \<noteq> ''write'' then Inr ([], [])
      else sum_bind (disposition_to_decision (po_workspace_write pol)) (\<lambda>w.
        let rw = (if w \<noteq> D_ALLOW then [''write intent: '' @ resolved] else []) in
        if is_system_write_path resolved
        then sum_bind (disposition_to_decision (disposition_for pol ''system_write'')) (\<lambda>s.
               Inr ([w, s], rw @ (if s \<noteq> D_ALLOW then [danger_reason ''system_write''] else [])))
        else Inr ([w], rw)))"

definition evaluate_local_path ::
    "os_host \<Rightarrow> string \<Rightarrow> string \<Rightarrow> grant list \<Rightarrow> policy \<Rightarrow> string \<Rightarrow> policy_error + eval_result" where
  "evaluate_local_path h path intent gs pol workspace_root =
     (if intent \<noteq> ''read'' \<and> intent \<noteq> ''write'' then Inl (Bad_intent intent)
      else let resolved = canonical h path; workspace = canonical h workspace_root in
        sum_bind (write_step resolved intent pol) (\<lambda>(wds, wrs).
        sum_bind (scope_step h resolved intent gs pol workspace) (\<lambda>(sd, srs).
          Inr \<lparr>er_decision = max_decision (D_ALLOW # wds @ [sd]), er_reasons = wrs @ srs, er_write_paths = []\<rparr>)))"

text \<open>The command risk: categories in the order of the table, each counted once.\<close>

fun risk_steps :: "(string \<times> rx) list \<Rightarrow> string list \<Rightarrow> policy \<Rightarrow> string \<Rightarrow> policy_error + decision list \<times> string list" where
  "risk_steps [] seen pol command = Inr ([], [])"
| "risk_steps ((category, pattern) # table) seen pol command =
     (if category \<in> set seen then risk_steps table seen pol command
      else if search pattern command
      then sum_bind (disposition_to_decision (disposition_for pol category)) (\<lambda>d.
             sum_bind (risk_steps table (category # seen) pol command) (\<lambda>(ds, rs).
               Inr (d # ds, danger_reason category # rs)))
      else risk_steps table seen pol command)"

definition path_steps ::
    "os_host \<Rightarrow> string list \<Rightarrow> string list \<Rightarrow> grant list \<Rightarrow> policy \<Rightarrow> string \<Rightarrow> policy_error + eval_result list" where
  "path_steps h paths write_paths gs pol workspace_root =
     sum_map (\<lambda>path. evaluate_local_path h path (if path \<in> set write_paths then ''write'' else ''read'') gs pol workspace_root)
       paths"

definition intent_step :: "string \<Rightarrow> policy \<Rightarrow> policy_error + decision list \<times> string list" where
  "intent_step command pol =
     (if has_write_intent command
      then sum_bind (disposition_to_decision (po_workspace_write pol)) (\<lambda>d.
             Inr ([d], if d \<noteq> D_ALLOW then [''workspace write intent''] else []))
      else Inr ([], []))"

definition system_step :: "string list \<Rightarrow> policy \<Rightarrow> policy_error + decision list \<times> string list" where
  "system_step write_paths pol =
     (if list_ex is_system_write_path write_paths
      then sum_bind (disposition_to_decision (disposition_for pol ''system_write'')) (\<lambda>d.
             Inr ([d], [danger_reason ''system_write'']))
      else Inr ([], []))"

definition evaluate_local_command ::
    "os_host \<Rightarrow> string \<Rightarrow> string \<Rightarrow> grant list \<Rightarrow> policy \<Rightarrow> string \<Rightarrow> policy_error + eval_result" where
  "evaluate_local_command h command cwd gs pol workspace_root =
     sum_bind (intent_step command pol) (\<lambda>(ids, irs).
       let write_paths = extract_write_target_paths h cwd command in
       sum_bind (path_steps h (extract_target_paths h cwd command) write_paths gs pol workspace_root) (\<lambda>results.
       sum_bind (system_step write_paths pol) (\<lambda>(sds, srs).
       sum_bind (risk_steps posix_danger (if list_ex is_system_write_path write_paths then [''system_write''] else []) pol command)
         (\<lambda>(rds, rrs).
           Inr \<lparr>er_decision = max_decision (D_ALLOW # ids @ map er_decision results @ sds @ rds),
                er_reasons = fromkeys (irs @ concat (map er_reasons results) @ srs @ rrs),
                er_write_paths = write_paths\<rparr>))))"

section \<open>The most restrictive rule wins\<close>

lemma max_decision_ge: "d \<in> set ds \<Longrightarrow> severity d \<le> severity (max_decision ds)"
  by (cases d) (auto simp: max_decision_def)

lemma max_decision_mem: "D_ALLOW \<in> set ds \<Longrightarrow> max_decision ds \<in> set ds"
  by (auto simp: max_decision_def)

lemma severity_inj: "severity a = severity b \<Longrightarrow> a = b"
  by (cases a; cases b) auto

lemma severity_deny: "severity D_DENY \<le> severity d \<Longrightarrow> d = D_DENY"
  by (cases d) auto

lemma max_decision_mono:
  assumes "list_all2 (\<lambda>a b. severity a \<le> severity b) ds es" "D_ALLOW \<in> set ds"
  shows "severity (max_decision ds) \<le> severity (max_decision es)"
proof -
  have "\<exists>b\<in>set es. severity a \<le> severity b" if "a \<in> set ds" for a
    using assms(1) that by (induction rule: list_all2_induct) auto
  then obtain b where "b \<in> set es" "severity (max_decision ds) \<le> severity b"
    using max_decision_mem [OF assms(2)] by blast
  then show ?thesis using max_decision_ge by (meson order_trans)
qed

lemma max_decision_ALLOW: "max_decision ds = D_ALLOW \<longleftrightarrow> (\<forall>d\<in>set ds. d = D_ALLOW)"
  by (auto simp: max_decision_def) (metis decision.exhaust)

lemma disposition_simps [simp]:
  "disposition_to_decision ''allow'' = Inr D_ALLOW" "disposition_to_decision ''block'' = Inr D_DENY"
  "disposition_to_decision ''confirm'' = Inr D_CONFIRM"
  by (simp_all add: disposition_to_decision_def)

lemma disposition_allow: "disposition_to_decision d = Inr D_ALLOW \<longleftrightarrow> d = ''allow''"
  by (auto simp: disposition_to_decision_def)

text \<open>One policy is at least as strict as another when each of its dispositions is.\<close>

definition as_strict :: "string \<Rightarrow> string \<Rightarrow> bool" where
  "as_strict a b =
     (case disposition_to_decision a of
        Inl _ \<Rightarrow> False
      | Inr d \<Rightarrow> (case disposition_to_decision b of Inl _ \<Rightarrow> False | Inr e \<Rightarrow> severity d \<le> severity e))"

definition policy_le :: "policy \<Rightarrow> policy \<Rightarrow> bool" where
  "policy_le pol pol' =
     (as_strict (po_out_of_scope pol) (po_out_of_scope pol') \<and> as_strict (po_workspace_write pol) (po_workspace_write pol') \<and>
      list_all (\<lambda>c. as_strict (disposition_for pol c) (disposition_for pol' c)) danger_category_names)"

lemma as_strictE:
  assumes "as_strict a b"
  obtains d e where "disposition_to_decision a = Inr d" "disposition_to_decision b = Inr e" "severity d \<le> severity e"
  using assms by (auto simp: as_strict_def split: sum.splits)

abbreviation sev_le :: "decision list \<Rightarrow> decision list \<Rightarrow> bool" where
  "sev_le \<equiv> list_all2 (\<lambda>a b. severity a \<le> severity b)"

lemma policy_le_category: "policy_le pol pol' \<Longrightarrow> c \<in> set danger_category_names \<Longrightarrow> as_strict (disposition_for pol c) (disposition_for pol' c)"
  by (auto simp: policy_le_def list_all_iff)

lemma write_step_mono:
  assumes "policy_le pol pol'"
  shows "\<exists>ds rs ds' rs'. write_step p i pol = Inr (ds, rs) \<and> write_step p i pol' = Inr (ds', rs') \<and> sev_le ds ds'"
proof -
  have "as_strict (po_workspace_write pol) (po_workspace_write pol')"
    "as_strict (disposition_for pol ''system_write'') (disposition_for pol' ''system_write'')"
    using assms policy_le_category [OF assms, of "''system_write''"]
    by (auto simp: policy_le_def danger_category_names_def default_danger_def)
  then show ?thesis by (elim as_strictE) (auto simp: write_step_def Let_def)
qed

lemma scope_step_mono:
  assumes "policy_le pol pol'"
  shows "\<exists>d rs d' rs'. scope_step h p i gs pol w = Inr (d, rs) \<and> scope_step h p i gs pol' w = Inr (d', rs') \<and> severity d \<le> severity d'"
proof -
  have "as_strict (po_out_of_scope pol) (po_out_of_scope pol')" using assms by (simp add: policy_le_def)
  then show ?thesis by (elim as_strictE) (auto simp: scope_step_def Let_def)
qed

lemma intent_step_mono:
  assumes "policy_le pol pol'"
  shows "\<exists>ds rs ds' rs'. intent_step c pol = Inr (ds, rs) \<and> intent_step c pol' = Inr (ds', rs') \<and> sev_le ds ds'"
proof -
  have "as_strict (po_workspace_write pol) (po_workspace_write pol')" using assms by (simp add: policy_le_def)
  then show ?thesis by (elim as_strictE) (auto simp: intent_step_def)
qed

lemma system_step_mono:
  assumes "policy_le pol pol'"
  shows "\<exists>ds rs ds' rs'. system_step ws pol = Inr (ds, rs) \<and> system_step ws pol' = Inr (ds', rs') \<and> sev_le ds ds'"
proof -
  have "as_strict (disposition_for pol ''system_write'') (disposition_for pol' ''system_write'')"
    using policy_le_category [OF assms, of "''system_write''"] by (simp add: danger_category_names_def default_danger_def)
  then show ?thesis by (elim as_strictE) (auto simp: system_step_def)
qed

lemma path_mono:
  assumes "policy_le pol pol'" "i = ''read'' \<or> i = ''write''"
  shows "\<exists>r r'. evaluate_local_path h p i gs pol w = Inr r \<and> evaluate_local_path h p i gs pol' w = Inr r' \<and>
           severity (er_decision r) \<le> severity (er_decision r')"
proof -
  obtain ds rs ds' rs' where w: "write_step (canonical h p) i pol = Inr (ds, rs)" "write_step (canonical h p) i pol' = Inr (ds', rs')" "sev_le ds ds'"
    using write_step_mono [OF assms(1)] by blast
  obtain d ss d' ss' where s: "scope_step h (canonical h p) i gs pol (canonical h w) = Inr (d, ss)"
      "scope_step h (canonical h p) i gs pol' (canonical h w) = Inr (d', ss')" "severity d \<le> severity d'"
    using scope_step_mono [OF assms(1)] by blast
  have "sev_le (D_ALLOW # ds @ [d]) (D_ALLOW # ds' @ [d'])" using w(3) s(3) by (simp add: list_all2_appendI)
  from max_decision_mono [OF this] w s assms(2) show ?thesis by (auto simp: evaluate_local_path_def Let_def)
qed

lemma path_steps_mono:
  assumes "policy_le pol pol'"
  shows "\<exists>rs rs'. path_steps h ps ws gs pol w = Inr rs \<and> path_steps h ps ws gs pol' w = Inr rs' \<and>
           sev_le (map er_decision rs) (map er_decision rs')"
proof (induction ps)
  case (Cons p ps)
  then obtain rs rs' where rs: "path_steps h ps ws gs pol w = Inr rs" "path_steps h ps ws gs pol' w = Inr rs'"
    "sev_le (map er_decision rs) (map er_decision rs')" by blast
  define i where "i = (if p \<in> set ws then ''write'' else ''read'')"
  then have "i = ''read'' \<or> i = ''write''" by simp
  then obtain r r' where "evaluate_local_path h p i gs pol w = Inr r" "evaluate_local_path h p i gs pol' w = Inr r'"
    "severity (er_decision r) \<le> severity (er_decision r')"
    using path_mono [OF assms] by blast
  with rs show ?case by (intro exI [of _ "r # rs"] exI [of _ "r' # rs'"]) (simp add: path_steps_def i_def)
qed (simp add: path_steps_def)

lemma risk_steps_mono:
  assumes "policy_le pol pol'" "fst ` set table \<subseteq> set danger_category_names"
  shows "\<exists>ds rs ds' rs'. risk_steps table seen pol c = Inr (ds, rs) \<and> risk_steps table seen pol' c = Inr (ds', rs') \<and> sev_le ds ds'"
  using assms(2)
proof (induction table arbitrary: seen)
  case (Cons x table)
  obtain cat pat where x: "x = (cat, pat)" by (cases x)
  have strict: "as_strict (disposition_for pol cat) (disposition_for pol' cat)" using Cons.prems x policy_le_category [OF assms(1)] by auto
  have IH: "\<exists>ds rs ds' rs'. risk_steps table sn pol c = Inr (ds, rs) \<and> risk_steps table sn pol' c = Inr (ds', rs') \<and> sev_le ds ds'" for sn
    using Cons by auto
  from IH [of seen] IH [of "cat # seen"] strict show ?case unfolding x
    by (elim as_strictE exE conjE) auto
qed simp

lemma posix_categories: "fst ` set posix_danger \<subseteq> set danger_category_names"
  by (simp add: posix_danger_def danger_category_names_def default_danger_def)

text \<open>
  C22. Tightening the policy never relaxes a decision: if every disposition of one policy is at least as strict as that of
  another, then for every command, working directory, set of grants and workspace, both evaluations return, and
  the decision under the stricter policy is at least as restrictive (allow, confirm, deny).
\<close>

theorem tightening_never_relaxes:
  assumes "policy_le pol pol'"
  shows "\<exists>r r'. evaluate_local_command h c cwd gs pol w = Inr r \<and> evaluate_local_command h c cwd gs pol' w = Inr r' \<and>
    severity (er_decision r) \<le> severity (er_decision r')"
proof -
  define ws where "ws = extract_write_target_paths h cwd c"
  obtain ids irs ids' irs' where i: "intent_step c pol = Inr (ids, irs)" "intent_step c pol' = Inr (ids', irs')" "sev_le ids ids'"
    using intent_step_mono [OF assms] by blast
  obtain sds srs sds' srs' where s: "system_step ws pol = Inr (sds, srs)" "system_step ws pol' = Inr (sds', srs')" "sev_le sds sds'"
    using system_step_mono [OF assms] by blast
  obtain rs rs' where p: "path_steps h (extract_target_paths h cwd c) ws gs pol w = Inr rs"
      "path_steps h (extract_target_paths h cwd c) ws gs pol' w = Inr rs'" "sev_le (map er_decision rs) (map er_decision rs')"
    using path_steps_mono [OF assms] by blast
  define seen where "seen = (if list_ex is_system_write_path ws then [''system_write''] else [])"
  obtain rds rrs rds' rrs' where k: "risk_steps posix_danger seen pol c = Inr (rds, rrs)"
      "risk_steps posix_danger seen pol' c = Inr (rds', rrs')" "sev_le rds rds'"
    using risk_steps_mono [OF assms posix_categories] by blast
  have "sev_le (D_ALLOW # ids @ map er_decision rs @ sds @ rds) (D_ALLOW # ids' @ map er_decision rs' @ sds' @ rds')"
    using i(3) s(3) p(3) k(3) by (simp add: list_all2_appendI)
  from max_decision_mono [OF this] i s p k show ?thesis
    by (simp add: evaluate_local_command_def ws_def [symmetric] Let_def seen_def [symmetric])
qed

definition strict_policy :: policy where
  "strict_policy = \<lparr>po_out_of_scope = ''block'', po_workspace_write = ''block'', po_danger = []\<rparr>"

definition standard_policy :: policy where
  "standard_policy = \<lparr>po_out_of_scope = ''confirm'', po_workspace_write = ''allow'', po_danger = []\<rparr>"

theorem tightening_never_relaxes_witness:
  "\<exists>r r'. evaluate_local_command plain_host ''ls /etc'' ''/workspace'' [] standard_policy ''/workspace'' = Inr r \<and>
     evaluate_local_command plain_host ''ls /etc'' ''/workspace'' [] strict_policy ''/workspace'' = Inr r' \<and>
     severity (er_decision r) \<le> severity (er_decision r')"
  by (rule tightening_never_relaxes) code_simp

section \<open>Dangerous commands are recognized\<close>

text \<open>
  The words of the tables that stand for a program, the places a program name can stand at (the start of the command or after a
  separator, with blanks), and what may follow the name.
\<close>

definition danger_words :: "(string \<times> string list) list" where
  "danger_words =
     [(''delete'', [''rm'', ''rmdir'', ''unlink'', ''shred'']),
      (''network'', [''curl'', ''wget'', ''nc'', ''ncat'', ''scp'', ''sftp'', ''ssh'', ''telnet'']),
      (''privilege'', [''sudo'', ''doas'', ''su'']),
      (''credential'', [''security'', ''secret-tool'', ''keyctl'', ''gnome-keyring''])]"

definition command_position :: "string \<Rightarrow> bool" where
  "command_position pre =
     (case dropWhile is_space (rev pre) of
        [] \<Rightarrow> True
      | c # _ \<Rightarrow> c \<in> {CHR '';'', CHR ''&'', CHR ''|'', CHR ''('', CHR 0x60})"

definition word_end :: "string \<Rightarrow> bool" where
  "word_end rest = (case rest of [] \<Rightarrow> True | c # _ \<Rightarrow> \<not> (is_word c \<or> c = CHR ''.'' \<or> c = CHR ''-''))"

lemma command_position_cases:
  assumes "command_position pre"
  obtains (start) "list_all is_space pre"
  | (sep) q s bl where "pre = q @ s # bl" "list_all is_space bl" "s \<in> {CHR '';'', CHR ''&'', CHR ''|'', CHR ''('', CHR 0x60}"
proof (cases "dropWhile is_space (rev pre)")
  case Nil
  then show ?thesis using start by (auto simp: list_all_iff dropWhile_eq_Nil_conv)
next
  case (Cons s r)
  have "rev pre = takeWhile is_space (rev pre) @ s # r" using Cons takeWhile_dropWhile_id by metis
  then have "pre = rev r @ s # rev (takeWhile is_space (rev pre))"
    by (metis append_Cons append_Nil append_assoc rev.simps(2) rev_append rev_rev_ident)
  moreover have "list_all is_space (rev (takeWhile is_space (rev pre)))"
    by (auto simp: list_all_iff dest: set_takeWhileD)
  moreover have "s \<in> {CHR '';'', CHR ''&'', CHR ''|'', CHR ''('', CHR 0x60}"
    using assms Cons by (simp add: command_position_def)
  ultimately show ?thesis by (rule sep)
qed

lemma ends_Seq_ne: "m \<in> set (ends r pos) \<Longrightarrow> ends s m \<noteq> [] \<Longrightarrow> ends (Seq r s) pos \<noteq> []"
  by auto

lemma command_re_tail:
  assumes "(Some x, rest) \<in> set (ends names (prev, w @ rest))" "word_end rest"
  shows "ends (seqs [cmd_wrappers, opt (Seq (Star nonspace) (lit ''/'')), names, not_word_tail]) (prev, w @ rest) \<noteq> []"
proof -
  have tail: "(Some x, rest) \<in> set (ends not_word_tail (Some x, rest))"
    using assms(2) by (auto simp: not_word_tail_def word_end_def next_char_def split: list.splits)
  then have "(Some x, rest) \<in> set (ends (Seq names not_word_tail) (prev, w @ rest))"
    unfolding ends_Seq_mem using assms(1) by blast
  then have "(Some x, rest) \<in> set (ends (Seq (opt (Seq (Star nonspace) (lit ''/''))) (Seq names not_word_tail)) (prev, w @ rest))"
    unfolding ends_Seq_mem using ends_opt_zero by blast
  then have "(Some x, rest) \<in> set (ends (Seq cmd_wrappers (Seq (opt (Seq (Star nonspace) (lit ''/''))) (Seq names not_word_tail))) (prev, w @ rest))"
    unfolding ends_Seq_mem using ends_Star_zero unfolding cmd_wrappers_def by blast
  then show ?thesis by (simp only: seqs.simps) (metis list.distinct(1) list.set_cases)
qed

lemma cmd_start_blank:
  assumes "list_all is_space bl"
  shows "\<exists>prev. (prev, s) \<in> set (ends cmd_start (None, bl @ s))"
proof -
  have "(None, bl @ s) \<in> set (ends (alts [Bol, plus (cls [CHR 0x0A, CHR '';'', CHR ''&'', CHR ''|'', CHR ''('', CHR 0x60]), lit [CHR 0x24, CHR ''(''],
                Seq (words [''-execdir'', ''-exec'']) (plus space)]) (None, bl @ s))"
    by (rule ends_alts [of Bol]) simp_all
  then show ?thesis unfolding cmd_start_def space_def ends_Seq_mem using ends_Star_run [OF assms, of None s] by blast
qed

lemma cmd_start_sep:
  assumes "c \<in> {CHR '';'', CHR ''&'', CHR ''|'', CHR ''('', CHR 0x60}" "list_all is_space bl"
  shows "\<exists>prev. (prev, s) \<in> set (ends cmd_start (p, c # bl @ s))"
proof -
  have "(Some c, bl @ s) \<in> set (ends (cls [CHR 0x0A, CHR '';'', CHR ''&'', CHR ''|'', CHR ''('', CHR 0x60]) (p, c # bl @ s))"
    using assms(1) by (auto simp: cls_def)
  then have "(Some c, bl @ s) \<in> set (ends (plus (cls [CHR 0x0A, CHR '';'', CHR ''&'', CHR ''|'', CHR ''('', CHR 0x60])) (p, c # bl @ s))"
    unfolding plus_def ends_Seq_mem using ends_Star_zero by blast
  then have "(Some c, bl @ s) \<in> set (ends (alts [Bol, plus (cls [CHR 0x0A, CHR '';'', CHR ''&'', CHR ''|'', CHR ''('', CHR 0x60]), lit [CHR 0x24, CHR ''(''],
                Seq (words [''-execdir'', ''-exec'']) (plus space)]) (p, c # bl @ s))"
    by (rule ends_alts [rotated]) simp
  then show ?thesis unfolding cmd_start_def space_def ends_Seq_mem using ends_Star_run [OF assms(2), of "Some c" s] by blast
qed

lemma command_re_search:
  assumes "\<And>prev. (Some x, rest) \<in> set (ends names (prev, w @ rest))" "command_position pre" "word_end rest"
  shows "search (command_re names) (pre @ w @ rest)"
proof -
  have from_start: "search (command_re names) (q @ t @ w @ rest)"
    if "(prev, w @ rest) \<in> set (ends cmd_start (if q = [] then None else Some (last q), t @ w @ rest))" for q t prev
  proof -
    have "ends (command_re names) (if q = [] then None else Some (last q), t @ w @ rest) \<noteq> []"
      unfolding command_re_def seqs.simps(3) [of cmd_start] by (rule ends_Seq_ne [OF that command_re_tail [OF assms(1,3)]])
    then show ?thesis using search_from_append unfolding search_def by blast
  qed
  from assms(2) show ?thesis
  proof (cases rule: command_position_cases)
    case start
    then show ?thesis using cmd_start_blank [OF start, of "w @ rest"] from_start [of _ "[]" pre] by auto
  next
    case (sep q s bl)
    then show ?thesis using cmd_start_sep [OF sep(3,2), of "w @ rest"] from_start [of _ q "s # bl"] by fastforce
  qed
qed


lemma danger_words_table:
  assumes "(cat, ws) \<in> set danger_words" "w \<in> set ws"
  shows "\<exists>names. (cat, command_re names) \<in> set posix_danger \<and> cat \<noteq> ''system_write'' \<and>
    (\<forall>prev rest. (Some (last w), rest) \<in> set (ends names (prev, w @ rest)))"
proof -
  have ne: "w \<noteq> []" using assms by (auto simp: danger_words_def)
  have words: "\<forall>prev rest. (Some (last w), rest) \<in> set (ends (words vs) (prev, w @ rest))" if "w \<in> set vs" for vs
    using ends_words [OF that ne] by blast
  have keyring: "\<forall>prev rest. (Some (last w), rest) \<in> set (ends (alts [lit ''security'', lit ''secret-tool'', lit ''keyctl'',
      Seq (lit ''gnome-keyring'') (opt (lit ''-daemon''))]) (prev, w @ rest))"
    if "w \<in> set [''security'', ''secret-tool'', ''keyctl'', ''gnome-keyring'']"
  proof (intro allI)
    fix prev rest
    have l: "(Some (last w), rest) \<in> set (ends (lit w) (prev, w @ rest))" using ends_lit [of w prev rest] ne by simp
    show "(Some (last w), rest) \<in> set (ends (alts [lit ''security'', lit ''secret-tool'', lit ''keyctl'',
        Seq (lit ''gnome-keyring'') (opt (lit ''-daemon''))]) (prev, w @ rest))"
    proof (cases "w = ''gnome-keyring''")
      case True
      then have "(Some (last w), rest) \<in> set (ends (Seq (lit ''gnome-keyring'') (opt (lit ''-daemon''))) (prev, w @ rest))"
        unfolding ends_Seq_mem using l ends_opt_zero by blast
      then show ?thesis by (rule ends_alts [rotated]) simp
    next
      case False
      then have "lit w \<in> lit ` {''security'', ''secret-tool'', ''keyctl''}" using that by auto
      then have "lit w \<in> set [lit ''security'', lit ''secret-tool'', lit ''keyctl'', Seq (lit ''gnome-keyring'') (opt (lit ''-daemon''))]"
        by (simp only: image_insert image_empty list.set insert_iff empty_iff) blast
      then show ?thesis using l by (rule ends_alts)
    qed
  qed
  from assms consider "cat = ''delete''" "w \<in> set [''rm'', ''rmdir'', ''unlink'', ''shred'']"
    | "cat = ''network''" "w \<in> set [''curl'', ''wget'', ''nc'', ''ncat'', ''scp'', ''sftp'', ''ssh'', ''telnet'']"
    | "cat = ''privilege''" "w \<in> set [''sudo'', ''doas'', ''su'']"
    | "cat = ''credential''" "w \<in> set [''security'', ''secret-tool'', ''keyctl'', ''gnome-keyring'']"
    by (auto simp: danger_words_def)
  then show ?thesis
  proof cases
    case 1
    then show ?thesis using words by (intro exI [of _ "words [''rm'', ''rmdir'', ''unlink'', ''shred'']"] conjI) (simp_all add: posix_danger_def)
  next
    case 2
    then show ?thesis using words
      by (intro exI [of _ "words [''curl'', ''wget'', ''nc'', ''ncat'', ''scp'', ''sftp'', ''ssh'', ''telnet'']"] conjI) (simp_all add: posix_danger_def)
  next
    case 3
    then show ?thesis using words by (intro exI [of _ "words [''sudo'', ''doas'', ''su'']"] conjI) (simp_all add: posix_danger_def)
  next
    case 4
    then show ?thesis using keyring
      by (intro exI [of _ "alts [lit ''security'', lit ''secret-tool'', lit ''keyctl'', Seq (lit ''gnome-keyring'') (opt (lit ''-daemon''))]"] conjI)
         (simp_all add: posix_danger_def)
  qed
qed

lemma risk_steps_hit:
  assumes "(cat, pat) \<in> set table" "search pat c" "cat \<notin> set seen" "risk_steps table seen pol c = Inr (ds, rs)"
    and "disposition_to_decision (disposition_for pol cat) = Inr d"
  shows "d \<in> set ds \<and> danger_reason cat \<in> set rs"
  using assms(1,3,4)
proof (induction table arbitrary: seen ds rs)
  case (Cons x table)
  obtain cat' pat' where x: "x = (cat', pat')" by (cases x)
  consider (seen) "cat' \<in> set seen" | (hit) "cat' \<notin> set seen" "search pat' c" | (miss) "cat' \<notin> set seen" "\<not> search pat' c" by blast
  then show ?case
  proof cases
    case seen
    then show ?thesis using Cons x by auto
  next
    case miss
    then show ?thesis using Cons x assms(2) by auto
  next
    case hit
    then obtain d' ds' rs' where r: "disposition_to_decision (disposition_for pol cat') = Inr d'"
        "risk_steps table (cat' # seen) pol c = Inr (ds', rs')" "ds = d' # ds'" "rs = danger_reason cat' # rs'"
      using Cons.prems(3) x by (auto simp: sum_bind_Inr split: prod.splits)
    show ?thesis
    proof (cases "cat' = cat")
      case True
      then show ?thesis using r assms(5) by simp
    next
      case False
      then show ?thesis using Cons.IH [of "cat' # seen" ds' rs'] Cons.prems x r by auto
    qed
  qed
qed simp

lemma evaluate_local_commandE:
  assumes "evaluate_local_command h c cwd gs pol w = Inr r"
  obtains ids irs results sds srs rds rrs where "intent_step c pol = Inr (ids, irs)"
    "path_steps h (extract_target_paths h cwd c) (extract_write_target_paths h cwd c) gs pol w = Inr results"
    "system_step (extract_write_target_paths h cwd c) pol = Inr (sds, srs)"
    "risk_steps posix_danger (if list_ex is_system_write_path (extract_write_target_paths h cwd c) then [''system_write''] else []) pol c =
       Inr (rds, rrs)"
    "r = \<lparr>er_decision = max_decision (D_ALLOW # ids @ map er_decision results @ sds @ rds),
        er_reasons = fromkeys (irs @ concat (map er_reasons results) @ srs @ rrs),
        er_write_paths = extract_write_target_paths h cwd c\<rparr>"
proof -
  define seen where "seen = (if list_ex is_system_write_path (extract_write_target_paths h cwd c) then [''system_write''] else [])"
  from assms show ?thesis
    using that unfolding evaluate_local_command_def Let_def seen_def [symmetric]
    by (simp add: sum_bind_def split: sum.splits prod.splits)
qed

lemma danger_category_mem: "danger_reason cat \<in> set rs \<Longrightarrow> cat \<in> set (danger_categories rs)"
proof -
  assume "danger_reason cat \<in> set rs"
  then have "danger_reason cat \<in> set (filter (prefix ''danger:'') rs)" by (simp add: danger_reason_def)
  then have "drop 7 (danger_reason cat) \<in> set (danger_categories rs)" unfolding danger_categories_def by (simp only: set_map imageI)
  then show ?thesis by (simp add: danger_reason_def)
qed

text \<open>
  C21. A program of the tables is recognized wherever a shell would run it: for each of the words that stand for
  deleting, network access, privilege escalation or reading credentials, if the word stands at the start of the command or
  after a separator (with any blanks between), and what follows does not continue the word, then the category is
  among the dangers of the verdict, and the decision is at least as restrictive as the policy is for that
  category. What stands before and after, quoted or not, cannot weaken this.
\<close>

theorem dangerous_command_detected:
  assumes "(cat, ws) \<in> set danger_words" and "w \<in> set ws" and "command_position pre" and "word_end rest"
    and "evaluate_local_command h (pre @ w @ rest) cwd gs pol root = Inr r"
    and "disposition_to_decision (disposition_for pol cat) = Inr d"
  shows "cat \<in> set (danger_categories (er_reasons r)) \<and> severity d \<le> severity (er_decision r)"
proof -
  obtain names where n: "(cat, command_re names) \<in> set posix_danger" "cat \<noteq> ''system_write''"
      "\<forall>prev rest. (Some (last w), rest) \<in> set (ends names (prev, w @ rest))"
    using danger_words_table [OF assms(1,2)] by blast
  have hit: "search (command_re names) (pre @ w @ rest)"
    using command_re_search [of "last w" rest names w pre] n(3) assms(3,4) by blast
  let ?ws = "extract_write_target_paths h cwd (pre @ w @ rest)"
  define seen where "seen = (if list_ex is_system_write_path ?ws then [''system_write''] else [])"
  obtain ids irs and results :: "eval_result list" and sds srs rds rrs where
      risk: "risk_steps posix_danger seen pol (pre @ w @ rest) = Inr (rds, rrs)"
      and r: "r = \<lparr>er_decision = max_decision (D_ALLOW # ids @ map er_decision results @ sds @ rds),
        er_reasons = fromkeys (irs @ concat (map er_reasons results) @ srs @ rrs), er_write_paths = ?ws\<rparr>"
    unfolding seen_def by (rule evaluate_local_commandE [OF assms(5)]) blast
  have "cat \<notin> set seen" using n(2) by (simp add: seen_def)
  then have "d \<in> set rds \<and> danger_reason cat \<in> set rrs"
    using risk_steps_hit [OF n(1) hit _ risk assms(6)] by blast
  then show ?thesis using r danger_category_mem [of cat "er_reasons r"] max_decision_ge [of d] by simp
qed


theorem dangerous_command_detected_witness:
  "severity (er_decision (projr (evaluate_local_command plain_host ''ls; sudo id'' ''/workspace'' [] standard_policy ''/workspace''))) = 2"
proof -
  let ?e = "evaluate_local_command plain_host ''ls; sudo id'' ''/workspace'' [] standard_policy ''/workspace''"
  have "policy_le standard_policy standard_policy" by code_simp
  then obtain r where "?e = Inr r" using tightening_never_relaxes by blast
  then have e: "evaluate_local_command plain_host (''ls; '' @ ''sudo'' @ '' id'') ''/workspace'' [] standard_policy ''/workspace'' = Inr (projr ?e)"
    by simp
  have h: "(''privilege'', [''sudo'', ''doas'', ''su'']) \<in> set danger_words" "''sudo'' \<in> set [''sudo'', ''doas'', ''su'']"
    "command_position ''ls; ''" "word_end '' id''"
    "disposition_to_decision (disposition_for standard_policy ''privilege'') = Inr D_DENY" by code_simp+
  have "2 \<le> severity (er_decision (projr ?e))" using dangerous_command_detected [OF h(1-4) e h(5)] by simp
  then show ?thesis by (cases "er_decision (projr ?e)") auto
qed

section \<open>Accesses to one path\<close>

lemma write_step_allows:
  assumes "write_step p ''write'' pol = Inr (ds, rs)"
  shows "(\<forall>d\<in>set ds. d = D_ALLOW) \<longleftrightarrow> po_workspace_write pol = ''allow'' \<and>
    (is_system_write_path p \<longrightarrow> disposition_for pol ''system_write'' = ''allow'')"
proof (cases "is_system_write_path p")
  case True
  then show ?thesis using assms disposition_allow [of "po_workspace_write pol"] disposition_allow [of "disposition_for pol ''system_write''"]
    by (cases "disposition_to_decision (po_workspace_write pol)"; cases "disposition_to_decision (disposition_for pol ''system_write'')")
       (auto simp: write_step_def Let_def)
next
  case False
  then show ?thesis using assms disposition_allow [of "po_workspace_write pol"]
    by (cases "disposition_to_decision (po_workspace_write pol)") (auto simp: write_step_def Let_def)
qed

definition in_scope :: "os_host \<Rightarrow> string \<Rightarrow> string \<Rightarrow> grant list \<Rightarrow> string \<Rightarrow> bool" where
  "in_scope h path intent gs root =
     (is_under (canonical h path) (canonical h root) \<or>
      list_ex (\<lambda>g. is_under (canonical h path) (canonical h (gr_path g)) \<and> (intent = ''read'' \<or> gr_mode g = ''readwrite'')) gs)"

lemma scope_step_in:
  assumes "in_scope h path intent gs root"
  shows "scope_step h (canonical h path) intent gs pol (canonical h root) = Inr (D_ALLOW, [])"
proof -
  have "matching_grants h gs (canonical h path) \<noteq> [] \<and>
      (intent = ''read'' \<or> list_ex (\<lambda>g. gr_mode g = ''readwrite'') (matching_grants h gs (canonical h path)))"
    if "\<not> is_under (canonical h path) (canonical h root)"
    using assms that by (auto simp: in_scope_def matching_grants_def list_ex_iff filter_empty_conv)
  then show ?thesis by (auto simp: scope_step_def Let_def)
qed

lemma scope_step_out:
  assumes "\<not> in_scope h path intent gs root" "scope_step h (canonical h path) intent gs pol (canonical h root) = Inr (d, rs)"
  shows "disposition_to_decision (po_out_of_scope pol) = Inr d \<and>
    (intent = ''write'' \<and> d \<noteq> D_ALLOW \<longrightarrow> danger_reason ''out_of_scope_write'' \<in> set rs)"
proof -
  have "\<not> is_under (canonical h path) (canonical h root)"
    "\<not> (matching_grants h gs (canonical h path) \<noteq> [] \<and>
      (intent = ''read'' \<or> list_ex (\<lambda>g. gr_mode g = ''readwrite'') (matching_grants h gs (canonical h path))))"
    using assms(1) by (auto simp: in_scope_def matching_grants_def list_ex_iff filter_empty_conv)
  then show ?thesis using assms(2) unfolding scope_step_def Let_def
    by (cases "disposition_to_decision (po_out_of_scope pol)") (auto split: if_splits)
qed

lemma evaluate_local_pathE:
  assumes "evaluate_local_path h path intent gs pol root = Inr r"
  obtains wds wrs sd srs where "intent = ''read'' \<or> intent = ''write''" "write_step (canonical h path) intent pol = Inr (wds, wrs)"
    "scope_step h (canonical h path) intent gs pol (canonical h root) = Inr (sd, srs)"
    "r = \<lparr>er_decision = max_decision (D_ALLOW # wds @ [sd]), er_reasons = wrs @ srs, er_write_paths = []\<rparr>"
  using assms that unfolding evaluate_local_path_def Let_def
  by (simp add: sum_bind_def split: sum.splits prod.splits if_splits)

text \<open>
  When a file access is let through without asking: exactly when its canonical path lies in the workspace or in
  a granted folder that allows it (any folder for reading, a read-write folder for writing) or the policy allows
  accesses out of scope, and, for a write, the policy allows writing at all and, in a system directory, allows system
  writes. A write outside every granted folder that is not allowed carries the danger mark that makes the
  next layer ask.
\<close>

theorem path_access_decision:
  assumes "evaluate_local_path h path intent gs pol root = Inr r"
  shows "(er_decision r = D_ALLOW \<longleftrightarrow>
      (in_scope h path intent gs root \<or> po_out_of_scope pol = ''allow'') \<and>
      (intent = ''write'' \<longrightarrow> po_workspace_write pol = ''allow'' \<and>
         (is_system_write_path (canonical h path) \<longrightarrow> disposition_for pol ''system_write'' = ''allow''))) \<and>
    (intent = ''write'' \<and> \<not> in_scope h path intent gs root \<and> po_out_of_scope pol \<noteq> ''allow'' \<longrightarrow>
      ''out_of_scope_write'' \<in> set (danger_categories (er_reasons r)))"
proof -
  obtain wds wrs sd srs where i: "intent = ''read'' \<or> intent = ''write''"
    and w: "write_step (canonical h path) intent pol = Inr (wds, wrs)"
    and s: "scope_step h (canonical h path) intent gs pol (canonical h root) = Inr (sd, srs)"
    and r: "r = \<lparr>er_decision = max_decision (D_ALLOW # wds @ [sd]), er_reasons = wrs @ srs, er_write_paths = []\<rparr>"
    by (rule evaluate_local_pathE [OF assms])
  have sd: "sd = D_ALLOW \<longleftrightarrow> in_scope h path intent gs root \<or> po_out_of_scope pol = ''allow''"
  proof (cases "in_scope h path intent gs root")
    case True
    then show ?thesis using scope_step_in [OF True, of pol] s by simp
  next
    case False
    then show ?thesis using scope_step_out [OF False s] disposition_allow [of "po_out_of_scope pol"] by auto
  qed
  have wd: "(\<forall>d\<in>set wds. d = D_ALLOW) \<longleftrightarrow> (intent = ''write'' \<longrightarrow> po_workspace_write pol = ''allow'' \<and>
         (is_system_write_path (canonical h path) \<longrightarrow> disposition_for pol ''system_write'' = ''allow''))"
  proof (cases "intent = ''write''")
    case True
    then show ?thesis using write_step_allows w by blast
  next
    case False
    then show ?thesis using w by (simp add: write_step_def)
  qed
  have "''out_of_scope_write'' \<in> set (danger_categories (er_reasons r))"
    if "intent = ''write''" "\<not> in_scope h path intent gs root" "po_out_of_scope pol \<noteq> ''allow''"
  proof -
    have "sd \<noteq> D_ALLOW" using sd that by simp
    then have "danger_reason ''out_of_scope_write'' \<in> set (er_reasons r)"
      using scope_step_out [OF that(2) s] that(1) r by simp
    then show ?thesis by (rule danger_category_mem)
  qed
  moreover have "er_decision r = D_ALLOW \<longleftrightarrow> (\<forall>d\<in>set wds. d = D_ALLOW) \<and> sd = D_ALLOW"
    by (auto simp: r max_decision_ALLOW)
  ultimately show ?thesis using sd wd by blast
qed

theorem path_access_decision_witness:
  "er_decision (projr (evaluate_local_path plain_host ''/p/x'' ''write'' [\<lparr>gr_path = ''/p'', gr_mode = ''read''\<rparr>] standard_policy ''/workspace'')) \<noteq> D_ALLOW \<and>
   er_decision (projr (evaluate_local_path plain_host ''/p/x'' ''read'' [\<lparr>gr_path = ''/p'', gr_mode = ''read''\<rparr>] standard_policy ''/workspace'')) = D_ALLOW"
proof -
  let ?gs = "[\<lparr>gr_path = ''/p'', gr_mode = ''read''\<rparr>]"
  let ?e = "\<lambda>i. evaluate_local_path plain_host ''/p/x'' i ?gs standard_policy ''/workspace''"
  have le: "policy_le standard_policy standard_policy" by code_simp
  have e: "?e ''write'' = Inr (projr (?e ''write''))" "?e ''read'' = Inr (projr (?e ''read''))"
    using path_mono [OF le, of "''write''" plain_host "''/p/x''" ?gs "''/workspace''"]
      path_mono [OF le, of "''read''" plain_host "''/p/x''" ?gs "''/workspace''"] by auto
  have s: "\<not> in_scope plain_host ''/p/x'' ''write'' ?gs ''/workspace''" "in_scope plain_host ''/p/x'' ''read'' ?gs ''/workspace''"
    by code_simp+
  have "po_out_of_scope standard_policy \<noteq> ''allow''" by (simp add: standard_policy_def)
  then show ?thesis using path_access_decision [OF e(1)] path_access_decision [OF e(2)] s by auto
qed

text \<open>
  A read-only preset is global: when the policy blocks writing, every write access is denied, whatever the grants.
\<close>

theorem blocked_writes_are_denied:
  assumes "po_workspace_write pol = ''block''" "evaluate_local_path h path ''write'' gs pol root = Inr r"
  shows "er_decision r = D_DENY"
proof -
  obtain wds wrs sd srs where w: "write_step (canonical h path) ''write'' pol = Inr (wds, wrs)"
    and r: "r = \<lparr>er_decision = max_decision (D_ALLOW # wds @ [sd]), er_reasons = wrs @ srs, er_write_paths = []\<rparr>"
    by (rule evaluate_local_pathE [OF assms(2)])
  have "D_DENY \<in> set wds"
    using w assms(1) by (cases "disposition_to_decision (disposition_for pol ''system_write'')") (auto simp: write_step_def Let_def split: if_splits)
  then show ?thesis by (simp add: r max_decision_def)
qed

text \<open>
  The segmentation is said not to split at quoted separators. It works on tokens whose quotes are gone, so a quoted
  separator that is a token of its own does split, and what follows it is no longer seen as an operand: the
  destination of this copy is not among the write targets.
\<close>

definition quoted_separator :: string where
  "quoted_separator = ''cp /p/x '' @ [CHR 0x27, CHR '';'', CHR 0x27] @ '' /etc''"

theorem quoted_separator_splits:
  "command_segments quoted_separator = [[''cp'', ''/p/x''], [''/etc'']] \<and>
   extract_write_target_paths plain_host ''/workspace'' quoted_separator = [''/p/x'']"
  by code_simp

end
