(* ===== verification/Local_Grants.thy ===== *)
theory Local_Grants
  imports Local_Policy
begin

text \<open>
  The store of folder grants and danger policies of a desktop install, \<open>core/services/local_grant_service.py\<close>. The
  file is the state: \<open>None\<close> when it cannot be read or is not JSON, else the value it holds. Every operation loads it,
  changes it and writes it back as a whole. An exception other than the two \<open>ValueError\<close>s of the service is
  \<open>Store_exception\<close>; \<open>Untyped_grant\<close> marks a grant whose path is not a string, which the code hands on and
  the model does not. Failures to write are not modelled.
\<close>

type_synonym store_file = "json option"

datatype grant_error = Empty_grant_path | Bad_grant_mode string | Bad_disposition string | Store_exception | Untyped_grant

definition canonical_grant_path :: "os_host \<Rightarrow> string \<Rightarrow> string" where
  "canonical_grant_path h path =
     (let raw = strip path in if raw = [] then [] else h_realpath h (abspath h (h_expanduser h raw)))"

definition set_default :: "string \<Rightarrow> json \<Rightarrow> dict \<Rightarrow> dict" where
  "set_default k v d = (case dict_get k d of None \<Rightarrow> dict_put k v d | Some _ \<Rightarrow> d)"

definition default_state :: dict where
  "default_state = [(''grants'', JList []), (''policy'', JObj [])]"

definition load :: "store_file \<Rightarrow> dict" where
  "load file =
     (case file of
        Some (JObj data) \<Rightarrow> set_default ''policy'' (JObj []) (set_default ''grants'' (JList []) data)
      | _ \<Rightarrow> default_state)"

definition save :: "dict \<Rightarrow> store_file" where
  "save data = Some (JObj data)"

section \<open>Grants\<close>

definition list_grants :: "store_file \<Rightarrow> grant_error + json list" where
  "list_grants file =
     (case json_tuple (json_get ''grants'' (load file)) of None \<Rightarrow> Inl Store_exception | Some gs \<Rightarrow> Inr gs)"

text \<open>\<open>_canonical_grant_path(str(g.get("path") or ""))\<close> of one entry.\<close>

definition entry_path :: "os_host \<Rightarrow> (json \<Rightarrow> string) \<Rightarrow> json \<Rightarrow> grant_error + string" where
  "entry_path h str_of g =
     (case g of
        JObj d \<Rightarrow> Inr (canonical_grant_path h (json_str str_of (json_or (json_get ''path'' d) (JStr []))))
      | _ \<Rightarrow> Inl Store_exception)"

fun others :: "os_host \<Rightarrow> (json \<Rightarrow> string) \<Rightarrow> string \<Rightarrow> json list \<Rightarrow> grant_error + json list" where
  "others h str_of real [] = Inr []"
| "others h str_of real (g # gs) =
     sum_bind (entry_path h str_of g) (\<lambda>p. sum_bind (others h str_of real gs) (\<lambda>rest.
       Inr (if p \<noteq> real then g # rest else rest)))"

definition grant_entry :: "string \<Rightarrow> string \<Rightarrow> json" where
  "grant_entry path mode = JObj [(''path'', JStr path), (''mode'', JStr mode)]"

definition add_grant :: "os_host \<Rightarrow> (json \<Rightarrow> string) \<Rightarrow> string \<Rightarrow> string \<Rightarrow> store_file \<Rightarrow> grant_error + json \<times> store_file" where
  "add_grant h str_of path mode file =
     (let real = canonical_grant_path h path in
      if real = [] then Inl Empty_grant_path
      else if mode \<notin> {''read'', ''readwrite''} then Inl (Bad_grant_mode mode)
      else sum_bind (list_grants file) (\<lambda>gs. sum_bind (others h str_of real gs) (\<lambda>rest.
             Inr (grant_entry real mode, save (dict_put ''grants'' (JList (rest @ [grant_entry real mode])) (load file))))))"

definition remove_grant :: "os_host \<Rightarrow> (json \<Rightarrow> string) \<Rightarrow> string \<Rightarrow> store_file \<Rightarrow> grant_error + store_file" where
  "remove_grant h str_of path file =
     sum_bind (list_grants file) (\<lambda>gs. sum_bind (others h str_of (canonical_grant_path h path) gs) (\<lambda>rest.
       Inr (save (dict_put ''grants'' (JList rest) (load file)))))"

section \<open>Policies\<close>

definition get_policy :: "store_file \<Rightarrow> grant_error + dict" where
  "get_policy file =
     (case json_get ''policy'' (load file) of
        JObj d \<Rightarrow> Inr d
      | JList [] \<Rightarrow> Inr []
      | JStr [] \<Rightarrow> Inr []
      | _ \<Rightarrow> Inl Store_exception)"

definition policy_key :: "string \<Rightarrow> bool" where
  "policy_key k = (k = ''out_of_scope'' \<or> k \<in> set danger_category_names)"

fun clean_policy :: "dict \<Rightarrow> dict \<Rightarrow> grant_error + dict" where
  "clean_policy [] acc = Inr acc"
| "clean_policy ((k, v) # items) acc =
     (if \<not> policy_key k then clean_policy items acc
      else case v of
             JStr s \<Rightarrow> if s \<in> {''block'', ''confirm'', ''allow''} then clean_policy items (dict_put k v acc) else Inl (Bad_disposition k)
           | _ \<Rightarrow> Inl (Bad_disposition k))"

definition set_policy :: "dict \<Rightarrow> store_file \<Rightarrow> grant_error + dict \<times> store_file" where
  "set_policy pol file =
     sum_bind (clean_policy pol []) (\<lambda>clean. Inr (clean, save (dict_put ''policy'' (JObj clean) (load file))))"

section \<open>What the gate reads\<close>

text \<open>A mode or disposition that is not a string equals no word of the vocabulary, like \<open>?\<close>.\<close>

definition word_of :: "json \<Rightarrow> string" where
  "word_of v = (case v of JStr s \<Rightarrow> s | _ \<Rightarrow> ''?'')"

fun gate_grants :: "json list \<Rightarrow> grant_error + grant list" where
  "gate_grants [] = Inr []"
| "gate_grants (g # gs) =
     (case g of
        JObj d \<Rightarrow>
          if \<not> json_truthy (json_get ''path'' d) then gate_grants gs
          else (case json_get ''path'' d of
                  JStr p \<Rightarrow> sum_bind (gate_grants gs) (\<lambda>rest.
                     Inr (\<lparr>gr_path = p, gr_mode = (case dict_get ''mode'' d of None \<Rightarrow> ''readwrite'' | Some m \<Rightarrow> word_of m)\<rparr> # rest))
                | _ \<Rightarrow> Inl Untyped_grant)
      | _ \<Rightarrow> Inl Store_exception)"

definition grants_for_gate :: "store_file \<Rightarrow> grant_error + grant list" where
  "grants_for_gate file = sum_bind (list_grants file) gate_grants"

definition full_policy :: policy where
  "full_policy = \<lparr>po_out_of_scope = ''allow'', po_workspace_write = ''allow'', po_danger = map (\<lambda>c. (c, ''allow'')) danger_category_names\<rparr>"

definition policy_for_gate :: "string \<Rightarrow> store_file \<Rightarrow> grant_error + policy" where
  "policy_for_gate mode file =
     (if mode = ''full'' then Inr full_policy
      else sum_bind (get_policy file) (\<lambda>stored.
        Inr \<lparr>po_out_of_scope = (case dict_get ''out_of_scope'' stored of None \<Rightarrow> ''confirm'' | Some v \<Rightarrow> word_of v),
             po_workspace_write = ''allow'',
             po_danger = map (\<lambda>(k, v). (k, word_of v)) (filter (\<lambda>(k, v). k \<in> set danger_category_names) stored)\<rparr>))"

section \<open>The store and the gate\<close>

lemma load_save: "dict_get ''grants'' data \<noteq> None \<Longrightarrow> dict_get ''policy'' data \<noteq> None \<Longrightarrow> load (save data) = data"
  by (auto simp: load_def save_def set_default_def)

lemma load_keys: "dict_get ''grants'' (load file) \<noteq> None" "dict_get ''policy'' (load file) \<noteq> None"
  by (auto simp: load_def default_state_def set_default_def dict_get_def split: option.splits json.splits)

lemma load_put: "load (save (dict_put k v (load file))) = dict_put k v (load file)"
  using load_keys [of "file"] by (intro load_save) auto

lemma gate_grants_append:
  "gate_grants (xs @ ys) = sum_bind (gate_grants xs) (\<lambda>a. sum_bind (gate_grants ys) (\<lambda>b. Inr (a @ b)))"
proof (induction xs)
  case Nil
  show ?case by (cases "gate_grants ys") simp_all
next
  case (Cons g xs)
  then show ?case by (cases "gate_grants xs"; cases "gate_grants ys") (auto split: json.splits)
qed

text \<open>Entries the gate skips have no canonical path, or one that is blank.\<close>

lemma gate_grants_others:
  assumes "others h str_of real gs = Inr rest" "gate_grants gs = Inr gr"
  shows "gate_grants rest = Inr (filter (\<lambda>g. canonical_grant_path h (gr_path g) \<noteq> real) gr)"
  using assms
proof (induction gs arbitrary: rest gr)
  case (Cons g gs)
  obtain d where g: "g = JObj d" using Cons.prems(2) by (cases g) auto
  obtain rest' where r: "others h str_of real gs = Inr rest'" using Cons.prems(1) by (auto simp: sum_bind_Inr)
  define p where "p = canonical_grant_path h (json_str str_of (json_or (json_get ''path'' d) (JStr [])))"
  have rest: "rest = (if p \<noteq> real then g # rest' else rest')" using Cons.prems(1) g r by (auto simp: entry_path_def p_def)
  show ?case
  proof (cases "json_truthy (json_get ''path'' d)")
    case False
    then have "gate_grants gs = Inr gr" using Cons.prems(2) g by simp
    then have "gate_grants rest' = Inr (filter (\<lambda>g. canonical_grant_path h (gr_path g) \<noteq> real) gr)" using Cons.IH [OF r] by simp
    then show ?thesis using rest g False by simp
  next
    case True
    then obtain s where s: "json_get ''path'' d = JStr s" using Cons.prems(2) g by (cases "json_get ''path'' d") auto
    obtain gr' where gr: "gate_grants gs = Inr gr'"
        "gr = \<lparr>gr_path = s, gr_mode = (case dict_get ''mode'' d of None \<Rightarrow> ''readwrite'' | Some m \<Rightarrow> word_of m)\<rparr> # gr'"
      using Cons.prems(2) g True s by (auto simp: sum_bind_Inr)
    have "p = canonical_grant_path h s" using True s by (simp add: p_def json_or_def json_str_def)
    then show ?thesis using rest g True s gr Cons.IH [OF r gr(1)] by simp
  qed
qed simp

lemma json_tuple_list: "json_tuple (JList l) = Some l"
  by (simp add: json_tuple_def)

text \<open>
  Granting a folder replaces whatever grants the store had for that folder, under any spelling of it, by the new one; and
  withdrawing a folder leaves no grant for it, under any spelling, and every other grant as it was.
\<close>

theorem grants_round_trip:
  assumes old: "grants_for_gate file = Inr gr"
  shows "(add_grant h str_of path mode file = Inr (entry, file') \<longrightarrow>
           grants_for_gate file' = Inr (filter (\<lambda>g. canonical_grant_path h (gr_path g) \<noteq> canonical_grant_path h path) gr @
             [\<lparr>gr_path = canonical_grant_path h path, gr_mode = mode\<rparr>])) \<and>
         (remove_grant h str_of path file = Inr file'' \<longrightarrow>
           grants_for_gate file'' = Inr (filter (\<lambda>g. canonical_grant_path h (gr_path g) \<noteq> canonical_grant_path h path) gr))"
proof -
  obtain gs where gs: "list_grants file = Inr gs" "gate_grants gs = Inr gr" using old by (auto simp: grants_for_gate_def sum_bind_Inr)
  have "grants_for_gate file' = Inr (filter (\<lambda>g. canonical_grant_path h (gr_path g) \<noteq> canonical_grant_path h path) gr @
             [\<lparr>gr_path = canonical_grant_path h path, gr_mode = mode\<rparr>])" if "add_grant h str_of path mode file = Inr (entry, file')"
  proof -
    from that obtain rest where rest: "others h str_of (canonical_grant_path h path) gs = Inr rest" and ne: "canonical_grant_path h path \<noteq> []"
      and f: "file' = save (dict_put ''grants'' (JList (rest @ [grant_entry (canonical_grant_path h path) mode])) (load file))"
      using gs by (auto simp: add_grant_def Let_def sum_bind_Inr split: if_splits)
    have "gate_grants [grant_entry (canonical_grant_path h path) mode] = Inr [\<lparr>gr_path = canonical_grant_path h path, gr_mode = mode\<rparr>]"
      using ne by (simp add: grant_entry_def json_get_def dict_get_def json_truthy_def word_of_def)
    then show ?thesis
      using gate_grants_others [OF rest gs(2)]
      by (simp add: f grants_for_gate_def list_grants_def load_put json_get_def json_tuple_list gate_grants_append)
  qed
  moreover have "grants_for_gate file'' = Inr (filter (\<lambda>g. canonical_grant_path h (gr_path g) \<noteq> canonical_grant_path h path) gr)"
    if "remove_grant h str_of path file = Inr file''"
  proof -
    from that obtain rest where rest: "others h str_of (canonical_grant_path h path) gs = Inr rest"
      and f: "file'' = save (dict_put ''grants'' (JList rest) (load file))"
      using gs by (auto simp: remove_grant_def sum_bind_Inr)
    then show ?thesis
      using gate_grants_others [OF rest gs(2)]
      by (simp add: f grants_for_gate_def list_grants_def load_put json_get_def json_tuple_list)
  qed
  ultimately show ?thesis by blast
qed

definition two_grants :: store_file where
  "two_grants = Some (JObj [(''grants'', JList [grant_entry ''/p'' ''read'', grant_entry ''/q'' ''readwrite''])])"

theorem grants_round_trip_witness:
  "\<exists>entry file'. add_grant plain_host (\<lambda>_. []) ''/p/'' ''readwrite'' two_grants = Inr (entry, file') \<and>
     grants_for_gate file' = Inr [\<lparr>gr_path = ''/q'', gr_mode = ''readwrite''\<rparr>, \<lparr>gr_path = ''/p'', gr_mode = ''readwrite''\<rparr>]"
proof -
  define out where "out = projr (add_grant plain_host (\<lambda>_. []) ''/p/'' ''readwrite'' two_grants)"
  have old: "grants_for_gate two_grants = Inr [\<lparr>gr_path = ''/p'', gr_mode = ''read''\<rparr>, \<lparr>gr_path = ''/q'', gr_mode = ''readwrite''\<rparr>]"
    by code_simp
  have run: "add_grant plain_host (\<lambda>_. []) ''/p/'' ''readwrite'' two_grants = Inr (fst out, snd out)" unfolding out_def by code_simp
  have "filter (\<lambda>g. canonical_grant_path plain_host (gr_path g) \<noteq> canonical_grant_path plain_host ''/p/'')
      [\<lparr>gr_path = ''/p'', gr_mode = ''read''\<rparr>, \<lparr>gr_path = ''/q'', gr_mode = ''readwrite''\<rparr>] @
      [\<lparr>gr_path = canonical_grant_path plain_host ''/p/'', gr_mode = ''readwrite''\<rparr>] =
      [\<lparr>gr_path = ''/q'', gr_mode = ''readwrite''\<rparr>, \<lparr>gr_path = ''/p'', gr_mode = ''readwrite''\<rparr>]" by code_simp
  then show ?thesis using grants_round_trip [OF old, of plain_host "\<lambda>_. []" "''/p/''" "''readwrite''" "fst out" "snd out"] run by metis
qed

text \<open>
  A store that cannot be read, or that is not a JSON object, gives no grants and the built-in policy, for every preset but
  \<open>full\<close>: a class of commands that the user had blocked is answered like one he never configured.
\<close>

theorem unreadable_store_is_default:
  assumes "mode \<noteq> ''full''"
  shows "grants_for_gate None = Inr [] \<and> policy_for_gate mode None = Inr \<lparr>po_out_of_scope = ''confirm'', po_workspace_write = ''allow'', po_danger = []\<rparr>"
  using assms
  by (simp add: grants_for_gate_def list_grants_def load_def default_state_def json_get_def dict_get_def json_tuple_list policy_for_gate_def
      get_policy_def)

end
