(* ===== verification/Workspace_Paths.thy ===== *)
theory Workspace_Paths
  imports Posix_Paths
begin

text \<open>
  The paths of the file tools, \<open>core/llm/tools/_paths.py\<close> and \<open>services/script_runner_service/workspace_paths.py\<close>: which
  paths the tools accept, and the physical path a logical \<open>/myspace\<close> or \<open>/workspace\<close> path stands for. The root
  of the workspace, the deployment profile and SHA-256 (\<open>we_sha\<close>) are fields of the environment; the root is a POSIX
  path. Error messages are values of \<open>path_error\<close> and \<open>ws_error\<close>.
\<close>

record ws_env =
  we_root :: string
  we_local :: bool
  we_sha :: "string \<Rightarrow> string"

datatype path_error = Empty_path | Traversal | No_myspace_here | Outside_workspace | Outside_project

datatype ws_error = Invalid_session | No_user_identity

section \<open>Workspace identities\<close>

definition session_root :: "ws_env \<Rightarrow> string \<Rightarrow> string \<Rightarrow> ws_error + string" where
  "session_root w root session_id =
     (let v = strip session_id
      in if v = [] \<or> 512 < length v then Inl Invalid_session
         else Inr (path_join (path_join root ''.sessions'') (we_sha w v)))"

definition under :: "string \<Rightarrow> string \<Rightarrow> bool" where
  "under root p = (p = root \<or> prefix (root @ ''/'') p)"

definition resolve_path :: "ws_env \<Rightarrow> string \<Rightarrow> string \<Rightarrow> string \<Rightarrow> string option \<Rightarrow> ws_error + string" where
  "resolve_path w path root session_id user_id =
     sum_bind (if under ''/myspace'' path
               then (case user_id of
                       None \<Rightarrow> Inl No_user_identity
                     | Some u \<Rightarrow> if u = [] then Inl No_user_identity else Inr (''/workspace/myspace/'' @ u @ drop 8 path))
               else Inr path) (\<lambda>p.
       if under ''/workspace'' p
       then sum_bind (session_root w root session_id) (\<lambda>base. Inr (foldl path_join base (comps (drop 10 p))))
       else Inr p)"

section \<open>Paths of the tools\<close>

definition canonicalize_ws_path :: "ws_env \<Rightarrow> string \<Rightarrow> string" where
  "canonicalize_ws_path w path =
     (if we_root w = ''/workspace'' then path
      else if path = ''/workspace'' then we_root w
      else if prefix ''/workspace/'' path then we_root w @ drop 10 path
      else path)"

definition is_traversal_or_bad :: "string \<Rightarrow> path_error option" where
  "is_traversal_or_bad path =
     (if path = [] then Some Empty_path
      else if sublist ''/../'' path \<or> suffix ''/..'' path \<or> sublist ''//'' path then Some Traversal
      else None)"

definition validate_workspace_path :: "ws_env \<Rightarrow> string \<Rightarrow> path_error option" where
  "validate_workspace_path w path0 =
     (case is_traversal_or_bad path0 of
        Some e \<Rightarrow> Some e
      | None \<Rightarrow>
          let path = canonicalize_ws_path w path0
          in if under ''/myspace'' path then (if we_local w then Some No_myspace_here else None)
             else if under (we_root w) path then None
             else if we_local w \<and> isabs path then None
             else Some Outside_workspace)"

definition validate_project_scope_path :: "string \<Rightarrow> string option \<Rightarrow> path_error option" where
  "validate_project_scope_path path project_folder_name =
     (case project_folder_name of
        None \<Rightarrow> None
      | Some folder \<Rightarrow>
          if folder = [] \<or> path = [] \<or> \<not> under ''/myspace'' path then None
          else let rest = dropWhile (\<lambda>c. c = CHR ''/'') (drop 8 path);
                   first = (if rest = [] then [] else hd (split_on (CHR ''/'') rest))
               in if first = folder then None else Some Outside_project)"

definition has_text :: "string option \<Rightarrow> bool" where
  "has_text s = (case s of None \<Rightarrow> False | Some t \<Rightarrow> t \<noteq> [])"

definition to_physical_path :: "os_host \<Rightarrow> ws_env \<Rightarrow> string \<Rightarrow> string option \<Rightarrow> string option \<Rightarrow> ws_error + string" where
  "to_physical_path h w path user_id session_id =
     sum_bind
       (if we_local w \<and> has_text session_id then resolve_path w path (we_root w) (the session_id) user_id
        else if under ''/myspace'' path
        then Inr (if has_text user_id then we_root w @ ''/myspace/'' @ the user_id @ drop 8 path else path)
        else Inr (canonicalize_ws_path w path)) (\<lambda>physical.
       Inr (if we_local w then h_realpath h (abspath h (h_expanduser h physical)) else physical))"

definition is_myspace_physical :: "ws_env \<Rightarrow> string \<Rightarrow> string option \<Rightarrow> bool" where
  "is_myspace_physical w physical user_id =
     (has_text user_id \<and>
      (let pre = we_root w @ ''/myspace/'' @ the user_id @ ''/''
       in physical = rstrip_char (CHR ''/'') pre \<or> prefix pre physical))"

definition parent_dir :: "ws_env \<Rightarrow> string \<Rightarrow> string" where
  "parent_dir w path =
     (if CHR ''/'' \<notin> set path then we_root w
      else let d = tl (dropWhile (\<lambda>c. c \<noteq> CHR ''/'') (rev path)) in if d = [] then we_root w else rev d)"

section \<open>Components of accepted paths\<close>

lemma split_on_cat: "split_on c (a @ c # b) = split_on c a @ split_on c b"
proof (induction a)
  case (Cons x a)
  obtain v vs where v: "split_on c a = v # vs" by (meson neq_Nil_conv split_on_ne)
  show ?case using Cons v by simp
qed simp

lemma comps_cat: "comps (a @ CHR ''/'' # b) = comps a @ comps b"
  by (simp add: comps_def split_on_cat)

lemma comps_rooted: "r = [] \<or> (\<exists>t. r = CHR ''/'' # t) \<Longrightarrow> comps (a @ r) = comps a @ comps r"
  using comps_cat [of a] by auto

lemma split_on_list:
  "split_on c s = us @ w # vs \<Longrightarrow> s = concat (map (\<lambda>u. u @ [c]) us) @ w @ concat (map (\<lambda>v. c # v) vs)"
proof (induction s arbitrary: us w vs)
  case (Cons x s)
  obtain v vs' where v: "split_on c s = v # vs'" by (meson neq_Nil_conv split_on_ne)
  note split = Cons.IH [of "[]" v vs'] Cons.prems
  show ?case
  proof (cases us)
    case Nil
    then show ?thesis using split v by (cases "x = c") auto
  next
    case (Cons u us')
    show ?thesis
    proof (cases "x = c")
      case True
      then show ?thesis using Cons.IH [of us' w vs] Cons.prems Cons by simp
    next
      case False
      then have "split_on c s = (v # us') @ w # vs" "u = x # v" using Cons.prems Cons v by auto
      then show ?thesis using Cons.IH [of "v # us'" w vs] Cons by simp
    qed
  qed
next
  case Nil
  then show ?case by (cases us) auto
qed

lemma dots_visible:
  assumes "''..'' \<in> set (comps p)" "isabs p"
  shows "sublist ''/../'' p \<or> suffix ''/..'' p"
proof -
  obtain t where t: "p = CHR ''/'' # t" using assms(2) by (cases p) (auto simp: isabs_def)
  have "''..'' \<in> set (split_on (CHR ''/'') t)" using assms(1) t by (simp add: comps_def)
  then obtain us vs where uv: "split_on (CHR ''/'') t = us @ ''..'' # vs" by (meson split_list)
  define a where "a = concat (map (\<lambda>u. u @ ''/'') us)"
  have front: "\<exists>b. CHR ''/'' # a = b @ ''/''"
    by (cases us rule: rev_cases) (auto simp: a_def)
  then obtain b where b: "CHR ''/'' # a = b @ ''/''" by blast
  have "t = a @ ''..'' @ concat (map (\<lambda>v. CHR ''/'' # v) vs)" using split_on_list [OF uv] by (simp add: a_def)
  then have p: "p = b @ ''/..'' @ concat (map (\<lambda>v. CHR ''/'' # v) vs)" using b t by simp
  show ?thesis
  proof (cases vs)
    case Nil
    then show ?thesis using p by (auto simp: suffix_def)
  next
    case (Cons v vs')
    then have "p = b @ ''/../'' @ v @ concat (map (\<lambda>v. CHR ''/'' # v) vs')" using p by simp
    then show ?thesis by (auto simp: sublist_def)
  qed
qed

lemma norm_comps_plain:
  "''..'' \<notin> set cs \<Longrightarrow> norm_comps rooted st cs = rev (filter (\<lambda>c. c \<noteq> [] \<and> c \<noteq> ''.'') cs) @ st"
  by (induction cs arbitrary: st) auto

lemma comps_replicate: "comps (replicate n (CHR ''/'') @ s) = comps s"
  by (induction n) simp_all

lemma comps_normpath:
  assumes "''..'' \<notin> set (comps p)" "isabs p"
  shows "comps (normpath p) = filter (\<lambda>c. c \<noteq> ''.'') (comps p)"
proof -
  have "''..'' \<notin> set (split_on (CHR ''/'') p)" using assms(1) by (simp add: comps_def)
  then have "norm_comps b [] (split_on (CHR ''/'') p) = rev (filter (\<lambda>c. c \<noteq> ''.'') (comps p))" for b
    by (simp add: norm_comps_plain comps_def conj_commute)
  moreover have "p \<noteq> []" "0 < initial_slashes p" using assms(2) by (auto simp: isabs_def initial_slashes_def)
  moreover have "list_all comp_ok (filter (\<lambda>c. c \<noteq> ''.'') (comps p))" using comps_ok [of p] by (auto simp: list_all_iff)
  ultimately show ?thesis by (simp add: normpath_def Let_def comps_replicate comps_join)
qed

lemma prefix_filter_plain: "prefix a b \<Longrightarrow> x \<notin> set a \<Longrightarrow> prefix a (filter (\<lambda>c. c \<noteq> x) b)"
proof -
  assume a: "prefix a b" "x \<notin> set a"
  then obtain zs where "b = a @ zs" by (auto simp: prefix_def)
  moreover have "filter (\<lambda>c. c \<noteq> x) a = a" using a(2) by (auto simp: filter_id_conv)
  ultimately show ?thesis by simp
qed

text \<open>A root the deployment may configure: absolute, and free of \<open>.\<close> and \<open>..\<close> components.\<close>

definition root_ok :: "string \<Rightarrow> bool" where
  "root_ok r = (isabs r \<and> ''.'' \<notin> set (comps r) \<and> ''..'' \<notin> set (comps r))"

definition user_ok :: "string \<Rightarrow> bool" where
  "user_ok u = (comp_ok u \<and> u \<noteq> ''.'' \<and> u \<noteq> ''..'')"

lemma under_drop:
  assumes "under root p"
  obtains r where "p = root @ r" "r = [] \<or> (\<exists>t. r = CHR ''/'' # t)"
  using assms by (auto simp: under_def prefix_def)

lemma canonicalize_cases:
  obtains r where "path = ''/workspace'' @ r" "r = [] \<or> (\<exists>t. r = CHR ''/'' # t)" "canonicalize_ws_path w path = we_root w @ r"
  | "canonicalize_ws_path w path = path"
proof (cases "we_root w \<noteq> ''/workspace'' \<and> under ''/workspace'' path")
  case True
  then obtain r where r: "path = ''/workspace'' @ r" "r = [] \<or> (\<exists>t. r = CHR ''/'' # t)" using under_drop by blast
  then have "canonicalize_ws_path w path = we_root w @ r" using True by (auto simp: canonicalize_ws_path_def)
  then show ?thesis using that(1) r by blast
next
  case False
  then show ?thesis using that(2) by (auto simp: canonicalize_ws_path_def under_def)
qed

lemma accepted_no_dots:
  assumes "is_traversal_or_bad p = None" "isabs p"
  shows "''..'' \<notin> set (comps p)"
  using assms dots_visible [of p] by (auto simp: is_traversal_or_bad_def split: if_splits)

lemma confined_comps:
  assumes "root_ok root" "q = root @ r" "r = [] \<or> (\<exists>t. r = CHR ''/'' # t)" "''..'' \<notin> set (comps r)"
  shows "prefix (comps root) (comps (normpath q))"
proof -
  have c: "comps q = comps root @ comps r" using assms(2,3) comps_rooted by simp
  have "isabs q" using assms(1,2) by (cases root) (auto simp: root_ok_def isabs_def)
  moreover have "''..'' \<notin> set (comps q)" using c assms(1,4) by (simp add: root_ok_def)
  ultimately have "comps (normpath q) = filter (\<lambda>c. c \<noteq> ''.'') (comps q)" by (rule comps_normpath [rotated])
  moreover have "prefix (comps root) (filter (\<lambda>c. c \<noteq> ''.'') (comps q))"
    by (rule prefix_filter_plain) (use c assms(1) in \<open>auto simp: root_ok_def\<close>)
  ultimately show ?thesis by simp
qed

lemma comps_user: "user_ok u \<Longrightarrow> comps (''/myspace/'' @ u) = [''myspace'', u]"
  using comps_join [of "[''myspace'', u]"] by (simp add: user_ok_def comp_ok_def)

lemma confined_myspace:
  assumes "root_ok root" "user_ok u" "q = root @ (''/myspace/'' @ u) @ r" "r = [] \<or> (\<exists>t. r = CHR ''/'' # t)" "''..'' \<notin> set (comps r)"
  shows "prefix (comps root @ [''myspace'', u]) (comps (normpath q))"
proof -
  have "comps (root @ ''/myspace/'' @ u) = comps root @ [''myspace'', u]"
    using comps_rooted [of "''/myspace/'' @ u" root] comps_user [OF assms(2)] by simp
  moreover have "isabs (root @ ''/myspace/'' @ u)" using assms(1) by (cases root) (auto simp: root_ok_def isabs_def)
  ultimately have "root_ok (root @ ''/myspace/'' @ u)" using assms(1,2) by (auto simp: root_ok_def user_ok_def)
  then show ?thesis using confined_comps [of "root @ ''/myspace/'' @ u" q r] assms(3-5) \<open>comps _ = _\<close> by simp
qed

lemma confined_plain:
  assumes env: "\<not> we_local w" "root_ok (we_root w)" and ok: "validate_workspace_path w path = None" and plain: "\<not> under ''/myspace'' path"
  shows "prefix (comps (we_root w)) (comps (normpath (canonicalize_ws_path w path)))"
proof -
  let ?root = "we_root w" and ?q = "canonicalize_ws_path w path"
  have bad: "is_traversal_or_bad path = None" using ok by (auto simp: validate_workspace_path_def split: option.splits)
  show ?thesis
  proof (cases rule: canonicalize_cases [of path w])
    case (1 r)
    have "''..'' \<notin> set (comps path)" using accepted_no_dots [OF bad] 1(1) by (simp add: isabs_def)
    then show ?thesis using comps_rooted [OF 1(2), of "''/workspace''"] 1(1) by (intro confined_comps [OF env(2) 1(3,2)]) auto
  next
    case 2
    then have "under ?root path"
      using ok bad plain env(1) by (simp add: validate_workspace_path_def Let_def split: if_splits)
    then obtain r where r: "path = ?root @ r" "r = [] \<or> (\<exists>t. r = CHR ''/'' # t)" by (rule under_drop)
    have "isabs path" using r env(2) by (cases "?root") (auto simp: root_ok_def isabs_def)
    then have "''..'' \<notin> set (comps path)" by (rule accepted_no_dots [OF bad])
    then show ?thesis using comps_rooted [OF r(2), of ?root] 2 r(1) by (intro confined_comps [OF env(2) _ r(2)]) auto
  qed
qed

text \<open>
  C26. Where the accepted paths of the file tools lie, outside the desktop profile, for a workspace root without \<open>.\<close> and \<open>..\<close> and
  with a user id that is absent, empty or a single path component. The physical path of an accepted path that is not spelled
  \<open>/myspace\<close> lies in the workspace; that of a \<open>/myspace\<close> path lies in the user's own directory \<open>myspace/<user>\<close> of the
  workspace when there is a user id; both also after the \<open>.\<close> and \<open>..\<close> components are resolved. Without a user id a
  \<open>/myspace\<close> path is not translated at all: it is accepted, and stands for itself.
\<close>

theorem accepted_paths_stay_in_workspace:
  assumes env: "\<not> we_local w" "root_ok (we_root w)" and user: "user_id \<in> {None, Some []} \<or> (\<exists>u. user_id = Some u \<and> user_ok u)"
    and ok: "validate_workspace_path w path = None"
  shows "\<exists>q. to_physical_path h w path user_id session_id = Inr q \<and>
    (if \<not> under ''/myspace'' path then prefix (comps (we_root w)) (comps (normpath q))
     else if has_text user_id then prefix (comps (we_root w) @ [''myspace'', the user_id]) (comps (normpath q))
     else q = path)"
proof -
  let ?root = "we_root w"
  have bad: "is_traversal_or_bad path = None" using ok by (auto simp: validate_workspace_path_def split: option.splits)
  have "\<exists>q. to_physical_path h w path user_id session_id = Inr q"
    using env(1) by (cases "under ''/myspace'' path") (simp_all add: to_physical_path_def)
  then obtain q where phys: "to_physical_path h w path user_id session_id = Inr q" ..
  have "if \<not> under ''/myspace'' path then prefix (comps ?root) (comps (normpath q))
     else if has_text user_id then prefix (comps ?root @ [''myspace'', the user_id]) (comps (normpath q)) else q = path"
  proof (cases "under ''/myspace'' path")
    case True
    then obtain r where r: "path = ''/myspace'' @ r" "r = [] \<or> (\<exists>t. r = CHR ''/'' # t)" by (rule under_drop)
    show ?thesis
    proof (cases "has_text user_id")
      case False
      then show ?thesis using phys True env(1) by (simp add: to_physical_path_def)
    next
      case named: True
      then obtain u where u: "user_id = Some u" "user_ok u" using user by (auto simp: has_text_def)
      have q: "q = ?root @ (''/myspace/'' @ u) @ r" using phys True named r u env(1) by (simp add: to_physical_path_def)
      have "''..'' \<notin> set (comps path)" using accepted_no_dots [OF bad] r by (simp add: isabs_def)
      then have "''..'' \<notin> set (comps r)" using r comps_rooted [of r "''/myspace''"] by simp
      then show ?thesis using confined_myspace [OF env(2) u(2) q r(2)] True named u by simp
    qed
  next
    case False
    then show ?thesis using confined_plain [OF env ok False] phys env(1) by (simp add: to_physical_path_def)
  qed
  then show ?thesis using phys by blast
qed

definition web_env :: ws_env where
  "web_env = \<lparr>we_root = ''/workspace'', we_local = False, we_sha = id\<rparr>"

theorem accepted_paths_stay_in_workspace_witness:
  "prefix (comps (we_root web_env) @ [''myspace'', ''u1'']) (comps (normpath ''/workspace/myspace/u1/a/./b'')) \<and>
   to_physical_path plain_host web_env ''/myspace/a'' None None = Inr ''/myspace/a''"
proof -
  have env: "\<not> we_local web_env" "root_ok (we_root web_env)" "user_ok ''u1''" by code_simp+
  have ok: "validate_workspace_path web_env ''/myspace/a/./b'' = None" "validate_workspace_path web_env ''/myspace/a'' = None" by code_simp+
  have q: "to_physical_path plain_host web_env ''/myspace/a/./b'' (Some ''u1'') None = Inr ''/workspace/myspace/u1/a/./b''" by code_simp
  have s: "under ''/myspace'' ''/myspace/a/./b''" "under ''/myspace'' ''/myspace/a''" "has_text (Some ''u1'')" "\<not> has_text None" by code_simp+
  have "\<exists>u. Some ''u1'' = Some u \<and> user_ok u" using env(3) by blast
  from accepted_paths_stay_in_workspace [OF env(1,2) disjI2 [OF this] ok(1), of plain_host None] q s
  have "prefix (comps (we_root web_env) @ [''myspace'', ''u1'']) (comps (normpath ''/workspace/myspace/u1/a/./b''))" by simp
  moreover from accepted_paths_stay_in_workspace [OF env(1,2) disjI1 ok(2), of None plain_host None] s
  have "to_physical_path plain_host web_env ''/myspace/a'' None None = Inr ''/myspace/a''" by simp
  ultimately show ?thesis ..
qed

text \<open>
  In project mode, the folder check looks only at the logical spelling of a path: a file of any other folder of My Space
  is accepted under its physical spelling, and stands for the same file.
\<close>

theorem physical_spelling_escapes_project:
  assumes user: "user_ok u" and bad: "is_traversal_or_bad (''/workspace/myspace/'' @ u @ ''/'' @ rest) = None"
  shows "let p = ''/workspace/myspace/'' @ u @ ''/'' @ rest
         in validate_workspace_path web_env p = None \<and> validate_project_scope_path p (Some folder) = None \<and>
            is_myspace_physical web_env p (Some u) \<and>
            to_physical_path h web_env p (Some u) None = to_physical_path h web_env (''/myspace/'' @ rest) (Some u) None"
  using user bad
  by (auto simp: Let_def validate_workspace_path_def validate_project_scope_path_def under_def is_myspace_physical_def has_text_def
      web_env_def to_physical_path_def canonicalize_ws_path_def user_ok_def comp_ok_def)

theorem physical_spelling_escapes_project_witness:
  "validate_project_scope_path ''/workspace/myspace/u1/other/x.md'' (Some ''policies'') = None \<and>
   validate_project_scope_path ''/myspace/other/x.md'' (Some ''policies'') = Some Outside_project \<and>
   to_physical_path plain_host web_env ''/workspace/myspace/u1/other/x.md'' (Some ''u1'') None =
     to_physical_path plain_host web_env ''/myspace/other/x.md'' (Some ''u1'') None"
proof -
  have "user_ok ''u1''" "is_traversal_or_bad (''/workspace/myspace/'' @ ''u1'' @ ''/'' @ ''other/x.md'') = None" by code_simp+
  note E = physical_spelling_escapes_project [OF this, of "''policies''" plain_host]
  have "validate_project_scope_path ''/myspace/other/x.md'' (Some ''policies'') = Some Outside_project" by code_simp
  then show ?thesis using E by (simp add: Let_def)
qed

end
