(* ===== verification/Sandbox_Policy.thy ===== *)
theory Sandbox_Policy
  imports Posix_Paths
begin

text \<open>
  The platform-neutral sandbox policy: \<open>core/sandbox/oslayer/policy.py\<close> with the errors of
  \<open>core/sandbox/oslayer/errors.py\<close>, and \<open>core/sandbox/os_sandbox.py\<close>, which turns a permission decision into such a
  policy. A policy is an ordered list of entries that give a path (or a symbolic path) an access mode; it is
  resolved against a context, and the mode of a path is that of the narrowest entry containing it. The
  model is that of a POSIX host (\<open>os.sep\<close> is the slash).
\<close>

section \<open>Vocabulary\<close>

datatype access_mode = Acc_READ | Acc_WRITE | Acc_DENY

datatype special_path = Sp_ROOT | Sp_MINIMAL | Sp_PROJECT_ROOTS | Sp_HOME | Sp_TMPDIR | Sp_SLASH_TMP

datatype fs_kind = Fs_RESTRICTED | Fs_UNRESTRICTED

datatype network_policy = Net_RESTRICTED | Net_ENABLED

text \<open>
  \<open>Untyped_value\<close> marks a JSON value whose type is not the one the field declares: the code stores such a value as it
  is, the model stops there.
\<close>

datatype sandbox_error =
    Policy_empty_path
  | Policy_no_home
  | Policy_no_tempdir
  | Policy_path_xor_special
  | Sandbox_unavailable string
  | Sandbox_unenforceable string
  | Key_error string
  | Value_error
  | Type_error
  | Attribute_error
  | Untyped_value

fun can_read :: "access_mode \<Rightarrow> bool" where
  "can_read m = (m \<noteq> Acc_DENY)"

fun can_write :: "access_mode \<Rightarrow> bool" where
  "can_write m = (m = Acc_WRITE)"

fun precedence :: "access_mode \<Rightarrow> int" where
  "precedence Acc_READ = 0"
| "precedence Acc_WRITE = 1"
| "precedence Acc_DENY = 2"

definition network_is_enabled :: "network_policy \<Rightarrow> bool" where
  "network_is_enabled n = (n = Net_ENABLED)"

section \<open>Paths\<close>

definition normalize_logical :: "os_host \<Rightarrow> string \<Rightarrow> sandbox_error + string" where
  "normalize_logical h path =
     (let expanded = h_expanduser h (strip path)
      in if expanded = [] then Inl Policy_empty_path else Inr (normpath (abspath h expanded)))"

definition resolve_symlinks :: "os_host \<Rightarrow> string \<Rightarrow> sandbox_error + string" where
  "resolve_symlinks h path = sum_bind (normalize_logical h path) (\<lambda>p. Inr (h_realpath h p))"

definition normalize_trusted_top_level_alias :: "os_host \<Rightarrow> string \<Rightarrow> sandbox_error + string" where
  "normalize_trusted_top_level_alias h path =
     sum_bind (normalize_logical h path) (\<lambda>normalized.
       case filter (\<lambda>part. part \<noteq> []) (split_on (CHR ''/'') normalized) of
         [] \<Rightarrow> Inr normalized
       | first # parts \<Rightarrow>
           let top_level = ''/'' @ first in
           if \<not> h_islink h top_level then Inr normalized
           else Inr (normpath (foldl path_join (h_realpath h top_level) parts)))"

definition path_depth :: "string \<Rightarrow> nat" where
  "path_depth p = length (filter (\<lambda>c. c \<noteq> []) (split_on (CHR ''/'') p))"

definition is_within :: "string \<Rightarrow> string \<Rightarrow> bool" where
  "is_within path root =
     (if path = root then True
      else prefix (if root \<noteq> [] \<and> last root = CHR ''/'' then root else root @ ''/'') path)"

definition filesystem_root :: string where
  "filesystem_root = ''/''"

section \<open>Contexts and entries\<close>

record policy_context =
  pc_cwd :: string
  pc_workspace_roots :: "string list"
  pc_home_dir :: "string option"
  pc_temp_dirs :: "string list"
  pc_protected_names :: "string list"
  pc_state_dir :: "string option"

definition resolve_special :: "os_host \<Rightarrow> policy_context \<Rightarrow> special_path \<Rightarrow> sandbox_error + string list" where
  "resolve_special h ctx sp =
     (case sp of
        Sp_ROOT \<Rightarrow> Inr [filesystem_root]
      | Sp_MINIMAL \<Rightarrow> Inr []
      | Sp_PROJECT_ROOTS \<Rightarrow>
          sum_map (normalize_logical h) (if pc_workspace_roots ctx = [] then [pc_cwd ctx] else pc_workspace_roots ctx)
      | Sp_HOME \<Rightarrow>
          (case pc_home_dir ctx of
             None \<Rightarrow> Inl Policy_no_home
           | Some d \<Rightarrow> if d = [] then Inl Policy_no_home else sum_map (normalize_logical h) [d])
      | Sp_TMPDIR \<Rightarrow>
          if pc_temp_dirs ctx = [] then Inl Policy_no_tempdir else sum_map (normalize_logical h) (pc_temp_dirs ctx)
      | Sp_SLASH_TMP \<Rightarrow> sum_map (normalize_logical h) [''/tmp''])"

record fs_entry =
  fe_access :: access_mode
  fe_path :: "string option"
  fe_special :: "special_path option"
  fe_skip_if_missing :: bool
  fe_ephemeral :: bool

definition mk_entry :: "access_mode \<Rightarrow> string option \<Rightarrow> special_path option \<Rightarrow> bool \<Rightarrow> bool \<Rightarrow> sandbox_error + fs_entry" where
  "mk_entry a p s skip eph =
     (if (p = None) = (s = None) then Inl Policy_path_xor_special
      else Inr \<lparr>fe_access = a, fe_path = p, fe_special = s, fe_skip_if_missing = skip, fe_ephemeral = eph\<rparr>)"

definition entry_resolve :: "os_host \<Rightarrow> policy_context \<Rightarrow> fs_entry \<Rightarrow> sandbox_error + string list" where
  "entry_resolve h ctx e =
     (case fe_special e of
        Some sp \<Rightarrow> resolve_special h ctx sp
      | None \<Rightarrow> sum_map (normalize_logical h) [case fe_path e of None \<Rightarrow> [] | Some p \<Rightarrow> p])"

record resolved_entry =
  re_path :: string
  re_access :: access_mode
  re_skip_if_missing :: bool
  re_ephemeral :: bool

record access_root =
  ar_root :: string
  ar_read_only :: "string list"
  ar_denied :: "string list"
  ar_protected :: "string list"
  ar_ephemeral :: bool

section \<open>The resolved view\<close>

record resolved_fs =
  rf_kind :: fs_kind
  rf_entries :: "resolved_entry list"
  rf_protected :: "string list"
  rf_platform_defaults :: bool

definition is_restricted :: "resolved_fs \<Rightarrow> bool" where
  "is_restricted rf = (rf_kind rf = Fs_RESTRICTED)"

definition eff_step :: "string \<Rightarrow> access_mode \<times> int \<Rightarrow> resolved_entry \<Rightarrow> access_mode \<times> int" where
  "eff_step path acc e =
     (case acc of (winner, best_depth) \<Rightarrow>
        if \<not> is_within path (re_path e) then (winner, best_depth)
        else let depth = int (path_depth (re_path e))
             in if best_depth < depth then (re_access e, depth)
                else if depth = best_depth \<and> precedence winner < precedence (re_access e)
                then (re_access e, best_depth)
                else (winner, best_depth))"

definition effective_access :: "resolved_fs \<Rightarrow> string \<Rightarrow> access_mode" where
  "effective_access rf path =
     (if \<not> is_restricted rf then Acc_WRITE
      else fst (foldl (eff_step path) (Acc_DENY, - 1) (rf_entries rf)))"

definition effective_for_entry :: "resolved_fs \<Rightarrow> resolved_entry \<Rightarrow> access_mode" where
  "effective_for_entry rf e = effective_access rf (re_path e)"

definition has_full_disk_read_access :: "resolved_fs \<Rightarrow> bool" where
  "has_full_disk_read_access rf = (\<not> is_restricted rf \<or> can_read (effective_access rf filesystem_root))"

definition has_full_disk_write_access :: "resolved_fs \<Rightarrow> bool" where
  "has_full_disk_write_access rf = (\<not> is_restricted rf \<or> can_write (effective_access rf filesystem_root))"

definition protected_names_for :: "resolved_fs \<Rightarrow> string \<Rightarrow> string list" where
  "protected_names_for rf root =
     (let explicit = map re_path (filter (\<lambda>e. re_access e = Acc_WRITE) (rf_entries rf))
      in fromkeys (filter (\<lambda>name. path_join root name \<notin> set explicit) (rf_protected rf)))"

definition narrower :: "resolved_fs \<Rightarrow> resolved_entry \<Rightarrow> resolved_entry list" where
  "narrower rf e = filter (\<lambda>other. re_path other \<noteq> re_path e \<and> is_within (re_path other) (re_path e)) (rf_entries rf)"

definition roots_for :: "resolved_fs \<Rightarrow> access_mode \<Rightarrow> access_root list" where
  "roots_for rf access =
     map (\<lambda>e. \<lparr>ar_root = re_path e,
                ar_read_only = sort (remdups (map re_path (filter (\<lambda>other.
                   effective_for_entry rf other \<noteq> Acc_DENY \<and> access = Acc_WRITE \<and>
                   \<not> can_write (effective_for_entry rf other)) (narrower rf e)))),
                ar_denied = sort (remdups (map re_path (filter (\<lambda>other.
                   effective_for_entry rf other = Acc_DENY) (narrower rf e)))),
                ar_protected = (if access = Acc_WRITE \<and> \<not> re_ephemeral e then protected_names_for rf (re_path e) else []),
                ar_ephemeral = re_ephemeral e\<rparr>)
       (filter (\<lambda>e. effective_for_entry rf e = access \<or> (access = Acc_READ \<and> can_read (effective_for_entry rf e)))
          (rf_entries rf))"

section \<open>Policies\<close>

record fs_policy =
  fp_kind :: fs_kind
  fp_entries :: "fs_entry list"

definition resolved_of :: "os_host \<Rightarrow> fs_entry \<Rightarrow> string list \<Rightarrow> resolved_entry list" where
  "resolved_of h e paths =
     map (\<lambda>p. \<lparr>re_path = p, re_access = fe_access e, re_skip_if_missing = fe_skip_if_missing e,
                re_ephemeral = fe_ephemeral e\<rparr>)
       (filter (\<lambda>p. \<not> (fe_skip_if_missing e \<and> \<not> h_exists h p)) paths)"

definition resolve_entries :: "os_host \<Rightarrow> policy_context \<Rightarrow> fs_entry list \<Rightarrow> sandbox_error + resolved_entry list" where
  "resolve_entries h ctx es =
     sum_bind (sum_map (\<lambda>e. sum_bind (entry_resolve h ctx e) (\<lambda>ps. Inr (resolved_of h e ps))) es) (\<lambda>rs. Inr (concat rs))"

definition dedup_step :: "(string \<times> resolved_entry) list \<Rightarrow> resolved_entry \<Rightarrow> (string \<times> resolved_entry) list" where
  "dedup_step d e =
     (case dict_get (re_path e) d of
        None \<Rightarrow> dict_put (re_path e) e d
      | Some x \<Rightarrow> if precedence (re_access x) < precedence (re_access e) then dict_put (re_path e) e d else d)"

definition order_entries :: "resolved_entry list \<Rightarrow> resolved_entry list" where
  "order_entries es = sort_key (\<lambda>e. (path_depth (re_path e), re_path e)) (map snd (foldl dedup_step [] es))"

definition policy_resolve :: "os_host \<Rightarrow> policy_context \<Rightarrow> fs_policy \<Rightarrow> sandbox_error + resolved_fs" where
  "policy_resolve h ctx pol =
     sum_bind (resolve_entries h ctx (fp_entries pol)) (\<lambda>resolved.
       Inr \<lparr>rf_kind = fp_kind pol, rf_entries = order_entries resolved, rf_protected = pc_protected_names ctx,
            rf_platform_defaults =
              list_ex (\<lambda>e. fe_special e = Some Sp_MINIMAL \<and> can_read (fe_access e)) (fp_entries pol) \<and>
              fp_kind pol = Fs_RESTRICTED\<rparr>)"

definition with_entries :: "fs_policy \<Rightarrow> fs_entry list \<Rightarrow> fs_policy" where
  "with_entries pol es = pol\<lparr>fp_entries := fp_entries pol @ es\<rparr>"

record sandbox_policy =
  sp_filesystem :: fs_policy
  sp_network :: network_policy

definition is_unconfined :: "sandbox_policy \<Rightarrow> bool" where
  "is_unconfined pol = (fp_kind (sp_filesystem pol) = Fs_UNRESTRICTED \<and> network_is_enabled (sp_network pol))"

definition unrestricted_policy :: sandbox_policy where
  "unrestricted_policy =
     \<lparr>sp_filesystem = \<lparr>fp_kind = Fs_UNRESTRICTED, fp_entries = []\<rparr>, sp_network = Net_ENABLED\<rparr>"

definition path_entry :: "access_mode \<Rightarrow> string \<Rightarrow> fs_entry" where
  "path_entry a p = \<lparr>fe_access = a, fe_path = Some p, fe_special = None, fe_skip_if_missing = False, fe_ephemeral = False\<rparr>"

definition special_entry :: "access_mode \<Rightarrow> special_path \<Rightarrow> bool \<Rightarrow> bool \<Rightarrow> fs_entry" where
  "special_entry a s skip eph =
     \<lparr>fe_access = a, fe_path = None, fe_special = Some s, fe_skip_if_missing = skip, fe_ephemeral = eph\<rparr>"

definition build_filesystem_policy ::
    "string list \<Rightarrow> string list \<Rightarrow> string list \<Rightarrow> bool \<Rightarrow> bool \<Rightarrow> fs_policy" where
  "build_filesystem_policy writable_roots readable_roots denied_paths full_disk_read writable_temp =
     \<lparr>fp_kind = Fs_RESTRICTED,
      fp_entries =
        [special_entry Acc_READ (if full_disk_read then Sp_ROOT else Sp_MINIMAL) False False] @
        map (path_entry Acc_READ) readable_roots @
        map (path_entry Acc_WRITE) writable_roots @
        (if writable_temp
         then [special_entry Acc_WRITE Sp_TMPDIR False True, special_entry Acc_WRITE Sp_SLASH_TMP True True] else []) @
        map (path_entry Acc_DENY) denied_paths\<rparr>"

section \<open>From a permission decision to a policy\<close>

text \<open>What this install puts into its environment; \<open>local_data_dir\<close> and \<open>Path.expanduser\<close> are parameters.\<close>

record install_env =
  ie_state_dir :: string
  ie_caps_root :: "string option"
  ie_install_root :: "string option"
  ie_path_expanduser :: "string \<Rightarrow> string"
  ie_home :: string
  ie_tempdir :: string

definition protected_metadata_names :: "install_env \<Rightarrow> string list" where
  "protected_metadata_names env = [''.git'', basename (ie_state_dir env)]"

definition protected_read_paths :: "install_env \<Rightarrow> string list" where
  "protected_read_paths env =
     fromkeys (ie_state_dir env #
       concat (map (\<lambda>v. let raw = strip (case v of None \<Rightarrow> [] | Some r \<Rightarrow> r)
                         in if raw = [] then [] else [ie_path_expanduser env raw])
                [ie_caps_root env, ie_install_root env]))"

definition build_context :: "os_host \<Rightarrow> install_env \<Rightarrow> string \<Rightarrow> string option \<Rightarrow> sandbox_error + policy_context" where
  "build_context h env workspace_root cwd =
     sum_bind (normalize_logical h workspace_root) (\<lambda>root.
       sum_bind (case cwd of None \<Rightarrow> Inr root | Some c \<Rightarrow> if c = [] then Inr root else normalize_logical h c) (\<lambda>c.
         Inr \<lparr>pc_cwd = c, pc_workspace_roots = [root], pc_home_dir = Some (ie_home env),
              pc_temp_dirs = [ie_tempdir env], pc_protected_names = protected_metadata_names env,
              pc_state_dir = Some (ie_state_dir env)\<rparr>))"

record access_decision =
  ad_approval_mode :: string
  ad_unconfined :: bool
  ad_writable_roots :: "string list"
  ad_readable_roots :: "string list"
  ad_denied_paths :: "string list"
  ad_network_allowed :: bool
  ad_writable_scratch :: bool

definition build_policy :: "access_decision \<Rightarrow> sandbox_policy" where
  "build_policy d =
     (if ad_unconfined d then unrestricted_policy
      else \<lparr>sp_filesystem = build_filesystem_policy (ad_writable_roots d) (ad_readable_roots d) (ad_denied_paths d)
               True (ad_writable_scratch d),
            sp_network = (if ad_network_allowed d then Net_ENABLED else Net_RESTRICTED)\<rparr>)"


section \<open>The JSON form\<close>

text \<open>
  A policy and its context cross a process boundary as JSON.
\<close>

definition json_item :: "string \<Rightarrow> dict \<Rightarrow> sandbox_error + json" where
  "json_item k d = (case dict_get k d of None \<Rightarrow> Inl (Key_error k) | Some v \<Rightarrow> Inr v)"

text \<open>Iterating over \<open>payload.get(key) or ()\<close>.\<close>

definition json_iter :: "json \<Rightarrow> sandbox_error + json list" where
  "json_iter j =
     (if \<not> json_truthy j then Inr [] else case json_tuple j of None \<Rightarrow> Inl Type_error | Some xs \<Rightarrow> Inr xs)"

definition json_opt_str :: "json \<Rightarrow> sandbox_error + string option" where
  "json_opt_str j = (if \<not> json_truthy j then Inr None else case j of JStr s \<Rightarrow> Inr (Some s) | _ \<Rightarrow> Inl Untyped_value)"

definition opt_json :: "string option \<Rightarrow> json" where
  "opt_json s = (case s of None \<Rightarrow> JNull | Some x \<Rightarrow> JStr x)"

definition context_to_json :: "policy_context \<Rightarrow> dict" where
  "context_to_json ctx =
     [(''cwd'', JStr (pc_cwd ctx)),
      (''workspace_roots'', JList (map JStr (pc_workspace_roots ctx))),
      (''home_dir'', opt_json (pc_home_dir ctx)),
      (''temp_dirs'', JList (map JStr (pc_temp_dirs ctx))),
      (''protected_metadata_names'', JList (map JStr (pc_protected_names ctx))),
      (''state_dir'', opt_json (pc_state_dir ctx))]"

definition context_from_json :: "(json \<Rightarrow> string) \<Rightarrow> dict \<Rightarrow> sandbox_error + policy_context" where
  "context_from_json str_of payload =
     sum_bind (json_item ''cwd'' payload) (\<lambda>cwd.
     sum_bind (json_iter (json_get ''workspace_roots'' payload)) (\<lambda>roots.
     sum_bind (json_opt_str (json_get ''home_dir'' payload)) (\<lambda>home.
     sum_bind (json_iter (json_get ''temp_dirs'' payload)) (\<lambda>temps.
     sum_bind (json_iter (json_get ''protected_metadata_names'' payload)) (\<lambda>names.
     sum_bind (json_opt_str (json_get ''state_dir'' payload)) (\<lambda>state.
       Inr \<lparr>pc_cwd = json_str str_of cwd, pc_workspace_roots = map (json_str str_of) roots, pc_home_dir = home,
            pc_temp_dirs = map (json_str str_of) temps, pc_protected_names = map (json_str str_of) names,
            pc_state_dir = state\<rparr>))))))"

fun access_value :: "access_mode \<Rightarrow> string" where
  "access_value Acc_READ = ''read''"
| "access_value Acc_WRITE = ''write''"
| "access_value Acc_DENY = ''deny''"

fun special_value :: "special_path \<Rightarrow> string" where
  "special_value Sp_ROOT = ''root''"
| "special_value Sp_MINIMAL = ''minimal''"
| "special_value Sp_PROJECT_ROOTS = ''project_roots''"
| "special_value Sp_HOME = ''home''"
| "special_value Sp_TMPDIR = ''tmpdir''"
| "special_value Sp_SLASH_TMP = ''slash_tmp''"

fun kind_value :: "fs_kind \<Rightarrow> string" where
  "kind_value Fs_RESTRICTED = ''restricted''"
| "kind_value Fs_UNRESTRICTED = ''unrestricted''"

fun network_value :: "network_policy \<Rightarrow> string" where
  "network_value Net_RESTRICTED = ''restricted''"
| "network_value Net_ENABLED = ''enabled''"

text \<open>\<open>Enum(value)\<close>: the member with this value, else \<open>ValueError\<close>.\<close>

definition enum_of :: "('a \<Rightarrow> string) \<Rightarrow> 'a list \<Rightarrow> json \<Rightarrow> sandbox_error + 'a" where
  "enum_of val members j =
     (case find (\<lambda>m. JStr (val m) = j) members of None \<Rightarrow> Inl Value_error | Some m \<Rightarrow> Inr m)"

definition access_of :: "json \<Rightarrow> sandbox_error + access_mode" where
  "access_of = enum_of access_value [Acc_READ, Acc_WRITE, Acc_DENY]"

definition special_of :: "json \<Rightarrow> sandbox_error + special_path" where
  "special_of = enum_of special_value [Sp_ROOT, Sp_MINIMAL, Sp_PROJECT_ROOTS, Sp_HOME, Sp_TMPDIR, Sp_SLASH_TMP]"

definition kind_of :: "json \<Rightarrow> sandbox_error + fs_kind" where
  "kind_of = enum_of kind_value [Fs_RESTRICTED, Fs_UNRESTRICTED]"

definition network_of :: "json \<Rightarrow> sandbox_error + network_policy" where
  "network_of = enum_of network_value [Net_RESTRICTED, Net_ENABLED]"

definition entry_to_json :: "fs_entry \<Rightarrow> json" where
  "entry_to_json e =
     JObj ([(''access'', JStr (access_value (fe_access e)))] @
       (case fe_special e of Some s \<Rightarrow> [(''special'', JStr (special_value s))] | None \<Rightarrow> [(''path'', opt_json (fe_path e))]) @
       (if fe_skip_if_missing e then [(''skip_if_missing'', JBool True)] else []) @
       (if fe_ephemeral e then [(''ephemeral'', JBool True)] else []))"

fun json_path :: "json \<Rightarrow> sandbox_error + string option" where
  "json_path JNull = Inr None"
| "json_path (JStr s) = Inr (Some s)"
| "json_path j = Inl Untyped_value"

definition entry_from_json :: "json \<Rightarrow> sandbox_error + fs_entry" where
  "entry_from_json j =
     (case j of
        JObj payload \<Rightarrow>
          let special = json_get ''special'' payload in
          sum_bind (json_item ''access'' payload) (\<lambda>a.
          sum_bind (access_of a) (\<lambda>access.
          sum_bind (json_path (json_get ''path'' payload)) (\<lambda>path.
          sum_bind (if json_truthy special then sum_bind (special_of special) (\<lambda>s. Inr (Some s)) else Inr None) (\<lambda>sp.
            mk_entry access path sp (json_truthy (json_get ''skip_if_missing'' payload))
              (json_truthy (json_get ''ephemeral'' payload))))))
      | _ \<Rightarrow> Inl Attribute_error)"

definition fs_policy_to_json :: "fs_policy \<Rightarrow> json" where
  "fs_policy_to_json pol =
     JObj [(''kind'', JStr (kind_value (fp_kind pol))), (''entries'', JList (map entry_to_json (fp_entries pol)))]"

definition fs_policy_from_json :: "json \<Rightarrow> sandbox_error + fs_policy" where
  "fs_policy_from_json j =
     (case j of
        JObj payload \<Rightarrow>
          sum_bind (kind_of (case dict_get ''kind'' payload of None \<Rightarrow> JStr ''restricted'' | Some k \<Rightarrow> k)) (\<lambda>kind.
          sum_bind (json_iter (json_get ''entries'' payload)) (\<lambda>items.
          sum_bind (sum_map entry_from_json items) (\<lambda>es.
            Inr \<lparr>fp_kind = kind, fp_entries = es\<rparr>)))
      | _ \<Rightarrow> Inl Attribute_error)"

definition sandbox_policy_to_json :: "sandbox_policy \<Rightarrow> dict" where
  "sandbox_policy_to_json pol =
     [(''filesystem'', fs_policy_to_json (sp_filesystem pol)), (''network'', JStr (network_value (sp_network pol)))]"

definition sandbox_policy_from_json :: "dict \<Rightarrow> sandbox_error + sandbox_policy" where
  "sandbox_policy_from_json payload =
     (let fs = json_get ''filesystem'' payload in
      sum_bind (fs_policy_from_json (if json_truthy fs then fs else JObj [])) (\<lambda>filesystem.
      sum_bind (network_of (case dict_get ''network'' payload of None \<Rightarrow> JStr ''restricted'' | Some n \<Rightarrow> n)) (\<lambda>network.
        Inr \<lparr>sp_filesystem = filesystem, sp_network = network\<rparr>)))"

section \<open>Laws of paths\<close>

lemma path_depth_comps: "path_depth p = length (comps p)"
  by (simp add: path_depth_def comps_def)

lemma is_within_comps:
  assumes "clean p" "clean r"
  shows "is_within p r \<longleftrightarrow> prefix (comps r) (comps p)"
proof (cases "comps r = []")
  case True
  then have "r = ''/''" using assms(2) by (metis clean_def path_of_def str_join.simps(1))
  moreover have "prefix ''/'' p" using assms(1) by (metis clean_def path_of_def prefix_Cons Nil_prefix)
  ultimately show ?thesis using True by (simp add: is_within_def)
next
  case False
  have r: "r = flat (comps r)" using assms(2) False by (metis clean_def path_of_flat)
  have "last r \<noteq> CHR ''/''"
  proof -
    obtain cs c where c: "comps r = cs @ [c]" using False by (meson rev_exhaust)
    then have "comp_ok c" using comps_ok [of r] by simp
    moreover have "r = flat cs @ CHR ''/'' # c" using r c by (simp add: flat_def)
    ultimately show ?thesis using last_in_set [of c] by (cases "last c = CHR ''/''") (auto simp: comp_ok_def)
  qed
  then have w: "is_within p r \<longleftrightarrow> p = r \<or> prefix (r @ ''/'') p"
    by (auto simp: is_within_def)
  show ?thesis
  proof (cases "comps p = []")
    case True
    then have "p = ''/''" using assms(1) by (metis clean_def path_of_def str_join.simps(1))
    with True False w r assms show ?thesis by (cases r) (auto simp: prefix_Cons)
  next
    case p: False
    have pf: "p = flat (comps p)" using assms(1) p by (metis clean_def path_of_flat)
    have "prefix (r @ ''/'') p \<longleftrightarrow> strict_prefix (comps r) (comps p)"
      using prefix_flat [OF comps_ok comps_ok, of r p] r pf by simp
    with w show ?thesis using clean_eqI [OF assms] by (auto simp: strict_prefix_def)
  qed
qed

interpretation paths: path_tree clean is_within path_depth
proof unfold_locales
  fix p q r
  show "clean p \<Longrightarrow> is_within p p" by (simp add: is_within_def)
  show "is_within p q \<Longrightarrow> is_within q r \<Longrightarrow> is_within p r" if "clean p" "clean q" "clean r"
    using that by (auto simp: is_within_comps)
  show "is_within p q \<Longrightarrow> is_within p r \<Longrightarrow> is_within q r \<or> is_within r q" if "clean p" "clean q" "clean r"
    using that prefix_same_cases [of "comps q" "comps p" "comps r"] by (auto simp: is_within_comps)
  show "is_within p q \<Longrightarrow> path_depth q \<le> path_depth p" if "clean p" "clean q"
    using that by (auto simp: is_within_comps path_depth_comps dest: prefix_length_le)
  show "is_within p q \<Longrightarrow> path_depth q = path_depth p \<Longrightarrow> q = p" if "clean p" "clean q"
    using that clean_eqI [of q p] by (auto simp: is_within_comps path_depth_comps prefix_def)
qed

section \<open>The narrowest entry wins\<close>

definition rank :: "resolved_entry \<Rightarrow> nat \<times> int" where
  "rank e = (path_depth (re_path e), precedence (re_access e))"

definition covers :: "string \<Rightarrow> resolved_entry \<Rightarrow> bool" where
  "covers p e = is_within p (re_path e)"

text \<open>The reference: an entry of the highest rank among those that contain the path.\<close>

definition narrowest :: "resolved_entry list \<Rightarrow> string \<Rightarrow> resolved_entry \<Rightarrow> bool" where
  "narrowest es p e = (e \<in> set es \<and> covers p e \<and> (\<forall>e'\<in>set es. covers p e' \<longrightarrow> rank e' \<le> rank e))"

lemma precedence_inj [simp]: "precedence a = precedence b \<longleftrightarrow> a = b"
  by (cases a; cases b) auto

lemma rank_le: "rank e \<le> rank f \<longleftrightarrow>
    path_depth (re_path e) < path_depth (re_path f) \<or>
    path_depth (re_path e) = path_depth (re_path f) \<and> precedence (re_access e) \<le> precedence (re_access f)"
  by (auto simp: rank_def less_eq_prod_def)

lemma eff_fold_empty: "(\<And>e. e \<in> set es \<Longrightarrow> \<not> covers p e) \<Longrightarrow> foldl (eff_step p) acc es = acc"
  by (induction es arbitrary: acc) (auto simp: eff_step_def covers_def split: prod.splits)

lemma eff_fold_narrowest:
  assumes "\<exists>e\<in>set es. covers p e"
  shows "\<exists>e. narrowest es p e \<and> foldl (eff_step p) (Acc_DENY, - 1) es = (re_access e, int (path_depth (re_path e)))"
  using assms
proof (induction es rule: rev_induct)
  case (snoc x es)
  show ?case
  proof (cases "\<exists>e\<in>set es. covers p e")
    case False
    then have "foldl (eff_step p) (Acc_DENY, - 1) es = (Acc_DENY, - 1)" by (intro eff_fold_empty) auto
    moreover have x: "covers p x" using snoc.prems False by auto
    moreover have "narrowest (es @ [x]) p x" using False x by (auto simp: narrowest_def)
    moreover have "eff_step p (Acc_DENY, - 1) x = (re_access x, int (path_depth (re_path x)))"
      using x by (auto simp: eff_step_def covers_def Let_def)
    ultimately show ?thesis by (intro exI [of _ x]) simp
  next
    case True
    then obtain e where e: "narrowest es p e"
      and f: "foldl (eff_step p) (Acc_DENY, - 1) es = (re_access e, int (path_depth (re_path e)))"
      using snoc.IH by blast
    show ?thesis
    proof (cases "covers p x \<and> \<not> rank x \<le> rank e")
      case True
      then have "narrowest (es @ [x]) p x" using e by (auto simp: narrowest_def)
      moreover have "eff_step p (re_access e, int (path_depth (re_path e))) x = (re_access x, int (path_depth (re_path x)))"
        using True by (auto simp: eff_step_def covers_def rank_le Let_def)
      ultimately show ?thesis using f by (intro exI [of _ x]) simp
    next
      case False
      then have "narrowest (es @ [x]) p e" using e by (auto simp: narrowest_def)
      moreover have "eff_step p (re_access e, int (path_depth (re_path e))) x = (re_access e, int (path_depth (re_path e)))"
        using False by (auto simp: eff_step_def covers_def rank_le Let_def)
      ultimately show ?thesis using f by (intro exI [of _ e]) simp
    qed
  qed
qed simp

lemma effective_none:
  "is_restricted rf \<Longrightarrow> (\<And>e. e \<in> set (rf_entries rf) \<Longrightarrow> \<not> covers p e) \<Longrightarrow> effective_access rf p = Acc_DENY"
  by (simp add: effective_access_def eff_fold_empty)

lemma narrowest_access: "narrowest es p e \<Longrightarrow> narrowest es p f \<Longrightarrow> re_access e = re_access f"
  using order_antisym [of "rank e" "rank f"] by (simp add: narrowest_def) (simp add: rank_def)

lemma effective_some:
  assumes "is_restricted rf" "narrowest (rf_entries rf) p e"
  shows "effective_access rf p = re_access e"
proof -
  have "\<exists>f\<in>set (rf_entries rf). covers p f" using assms(2) by (auto simp: narrowest_def)
  from eff_fold_narrowest [OF this] obtain f where
    "narrowest (rf_entries rf) p f" "effective_access rf p = re_access f"
    using assms(1) by (auto simp: effective_access_def)
  then show ?thesis using narrowest_access assms(2) by metis
qed

lemma effective_cases:
  assumes "is_restricted rf"
  obtains (none) "\<forall>e\<in>set (rf_entries rf). \<not> covers p e" "effective_access rf p = Acc_DENY"
  | (some) e where "narrowest (rf_entries rf) p e" "effective_access rf p = re_access e"
proof (cases "\<exists>e\<in>set (rf_entries rf). covers p e")
  case True
  then obtain e where "narrowest (rf_entries rf) p e" using eff_fold_narrowest by blast
  then show ?thesis using some effective_some [OF assms] by blast
next
  case False
  then show ?thesis using none effective_none [OF assms, of p] by blast
qed

text \<open>Two lists with the same best rank at every path give the same access.\<close>

lemma effective_cong:
  assumes "is_restricted rf" "is_restricted rf'"
    and "\<And>e. e \<in> set (rf_entries rf) \<Longrightarrow> \<exists>e'\<in>set (rf_entries rf'). re_path e' = re_path e \<and> rank e \<le> rank e'"
    and "\<And>e. e \<in> set (rf_entries rf') \<Longrightarrow> \<exists>e'\<in>set (rf_entries rf). re_path e' = re_path e \<and> rank e \<le> rank e'"
  shows "effective_access rf p = effective_access rf' p"
proof (rule effective_cases [OF assms(1), of p])
  assume "\<forall>e\<in>set (rf_entries rf). \<not> covers p e" "effective_access rf p = Acc_DENY"
  moreover from this(1) have "\<not> covers p e" if "e \<in> set (rf_entries rf')" for e
    using assms(4) [OF that] by (force simp: covers_def)
  ultimately show ?thesis using effective_none [OF assms(2)] by metis
next
  fix e assume e: "narrowest (rf_entries rf) p e" "effective_access rf p = re_access e"
  then have "e \<in> set (rf_entries rf)" "covers p e" by (auto simp: narrowest_def)
  then obtain f where f: "f \<in> set (rf_entries rf')" "covers p f" "rank e \<le> rank f"
    using assms(3) by (fastforce simp: covers_def)
  have best: "rank g \<le> rank e" if g: "g \<in> set (rf_entries rf')" "covers p g" for g
  proof -
    obtain g' where "g' \<in> set (rf_entries rf)" "re_path g' = re_path g" "rank g \<le> rank g'"
      using assms(4) [OF g(1)] by blast
    moreover from this g(2) have "covers p g'" by (simp add: covers_def)
    ultimately show ?thesis using e(1) unfolding narrowest_def by (meson order_trans)
  qed
  have "narrowest (rf_entries rf') p f"
    using f best unfolding narrowest_def by (meson order_trans)
  moreover have "re_access f = re_access e"
    using best [OF f(1,2)] f(3) by (auto simp: rank_le)
  ultimately show ?thesis using effective_some [OF assms(2)] e(2) by simp
qed


section \<open>Resolution\<close>

lemma dedup_inv:
  defines "d es \<equiv> foldl dedup_step [] es"
  shows "distinct (map fst (d es)) \<and> (\<forall>(k, e)\<in>set (d es). re_path e = k \<and> e \<in> set es) \<and>
    (\<forall>e\<in>set es. \<exists>e'. map_of (d es) (re_path e) = Some e' \<and> precedence (re_access e) \<le> precedence (re_access e'))"
proof (induction es rule: rev_induct)
  case Nil
  show ?case by (simp add: d_def)
next
  case (snoc x es)
  have eq: "d (es @ [x]) = dedup_step (d es) x" by (simp add: d_def)
  have put: "\<forall>(k, e)\<in>set (dict_put (re_path x) x (d es)). re_path e = k \<and> e \<in> set (es @ [x])"
    using snoc by (auto dest!: set_dict_put)
  consider (new) "map_of (d es) (re_path x) = None"
    | (better) y where "map_of (d es) (re_path x) = Some y" "precedence (re_access y) < precedence (re_access x)"
    | (worse) y where "map_of (d es) (re_path x) = Some y" "precedence (re_access x) \<le> precedence (re_access y)"
    by (meson not_less option.exhaust)
  then show ?case
  proof cases
    case new
    then have "d (es @ [x]) = dict_put (re_path x) x (d es)" by (simp add: eq dedup_step_def dict_get_def)
    then show ?thesis using snoc put new by (auto simp: distinct_dict_put split: if_splits)
  next
    case better
    then have "d (es @ [x]) = dict_put (re_path x) x (d es)" by (simp add: eq dedup_step_def dict_get_def)
    then show ?thesis using snoc put better by (auto simp: distinct_dict_put split: if_splits)
  next
    case worse
    then have "d (es @ [x]) = d es" by (simp add: eq dedup_step_def dict_get_def)
    then show ?thesis using snoc worse by auto
  qed
qed

lemma order_entries_sub: "e \<in> set (order_entries es) \<Longrightarrow> e \<in> set es"
  using dedup_inv [of es] by (auto simp: order_entries_def)

lemma order_entries_paths: "distinct (map re_path (order_entries es))"
proof -
  let ?d = "foldl dedup_step [] es"
  have "map (re_path \<circ> snd) ?d = map fst ?d"
    using dedup_inv [of es] by (auto intro!: map_cong simp: split_beta)
  then have "distinct (map re_path (map snd ?d))" using dedup_inv [of es] by (metis map_map)
  then show ?thesis unfolding order_entries_def distinct_map [of re_path] by simp
qed

lemma order_entries_sorted: "sorted (map (\<lambda>e. path_depth (re_path e)) (order_entries es))"
proof -
  have "sorted (map (\<lambda>e. (path_depth (re_path e), re_path e)) (order_entries es))"
    by (simp add: order_entries_def)
  then show ?thesis unfolding sorted_wrt_map sorted_map
    by (rule sorted_wrt_mono_rel [rotated]) (auto simp: less_eq_prod_def)
qed

lemma order_entries_best:
  assumes "e \<in> set es"
  shows "\<exists>e'\<in>set (order_entries es). re_path e' = re_path e \<and> rank e \<le> rank e'"
proof -
  obtain e' where e': "map_of (foldl dedup_step [] es) (re_path e) = Some e'"
    "precedence (re_access e) \<le> precedence (re_access e')"
    using dedup_inv [of es] assms by blast
  then have "e' \<in> set (order_entries es)" "re_path e' = re_path e"
    using dedup_inv [of es] map_of_SomeD [OF e'(1)] by (force simp: order_entries_def)+
  with e'(2) show ?thesis by (intro bexI [of _ e']) (auto simp: rank_le)
qed

lemma order_entries_access:
  assumes "rf_kind rf = Fs_RESTRICTED"
  shows "effective_access (rf\<lparr>rf_entries := order_entries es\<rparr>) p = effective_access (rf\<lparr>rf_entries := es\<rparr>) p"
  by (rule effective_cong) (auto simp: is_restricted_def assms dest: order_entries_best order_entries_sub)

text \<open>The access of a resolved policy depends only on which entries were resolved, not on their order.\<close>

lemma order_entries_set_cong:
  assumes "set es = set es'"
  shows "effective_access (rf\<lparr>rf_entries := order_entries es\<rparr>) p = effective_access (rf\<lparr>rf_entries := order_entries es'\<rparr>) p"
proof (cases "rf_kind rf")
  case Fs_RESTRICTED
  then have "effective_access (rf\<lparr>rf_entries := es\<rparr>) p = effective_access (rf\<lparr>rf_entries := es'\<rparr>) p"
    using assms by (intro effective_cong) (auto simp: is_restricted_def)
  with Fs_RESTRICTED show ?thesis by (simp add: order_entries_access)
qed (simp add: effective_access_def is_restricted_def)

lemma resolve_entries_mem:
  assumes "resolve_entries h ctx xs = Inr es"
  shows "e \<in> set es \<longleftrightarrow> (\<exists>x\<in>set xs. \<exists>ps. entry_resolve h ctx x = Inr ps \<and> e \<in> set (resolved_of h x ps))"
proof -
  obtain rs where rs: "list_all2 (\<lambda>x r. \<exists>ps. entry_resolve h ctx x = Inr ps \<and> resolved_of h x ps = r) xs rs" "es = concat rs"
    using assms by (auto simp: resolve_entries_def sum_bind_Inr sum_map_Inr)
  from rs(1) have "(\<exists>r\<in>set rs. e \<in> set r) \<longleftrightarrow> (\<exists>x\<in>set xs. \<exists>ps. entry_resolve h ctx x = Inr ps \<and> e \<in> set (resolved_of h x ps))"
    by (induction rule: list_all2_induct) auto
  then show ?thesis using rs(2) by simp
qed

lemma policy_resolve_Inr:
  assumes "policy_resolve h ctx pol = Inr rf"
  obtains es where "resolve_entries h ctx (fp_entries pol) = Inr es" "rf_entries rf = order_entries es"
    "rf_kind rf = fp_kind pol" "rf_protected rf = pc_protected_names ctx"
  using assms by (auto simp: policy_resolve_def sum_bind_Inr)

text \<open>The reference reading of a policy: sort the entries around a path by depth and strictness, take the first.\<close>

definition reference_access :: "resolved_entry list \<Rightarrow> string \<Rightarrow> access_mode" where
  "reference_access es p =
     (case first_by (\<lambda>e. (- int (path_depth (re_path e)), - precedence (re_access e))) (filter (covers p) es) of
        None \<Rightarrow> Acc_DENY
      | Some e \<Rightarrow> re_access e)"

lemma reference_narrowest:
  assumes "first_by (\<lambda>e. (- int (path_depth (re_path e)), - precedence (re_access e))) (filter (covers p) es) = Some e"
  shows "narrowest es p e"
  using first_by_SomeD [OF assms] by (auto simp: narrowest_def rank_def less_eq_prod_def)

lemma effective_reference:
  assumes "is_restricted rf"
  shows "effective_access rf p = reference_access (rf_entries rf) p"
proof (cases "first_by (\<lambda>e. (- int (path_depth (re_path e)), - precedence (re_access e))) (filter (covers p) (rf_entries rf))")
  case None
  then have "\<not> covers p e" if "e \<in> set (rf_entries rf)" for e using that by (auto simp: filter_empty_conv)
  then have "effective_access rf p = Acc_DENY" using effective_none [OF assms] by blast
  with None show ?thesis unfolding reference_access_def by (simp only: option.case)
next
  case (Some e)
  with effective_some [OF assms reference_narrowest] show ?thesis by (simp add: reference_access_def)
qed

text \<open>
  C19. What a restricted policy grants at a path is what its entries say when read as the documentation reads
  them, in whatever order they are written and however often a path is named: of the entries whose path
  contains the given one, the deepest decides, at equal depth the more restrictive (deny over write over
  read), and a path no entry contains is denied. Duplicate entries are merged without changing this: the
  resolved view has one entry per path, from broad to narrow, and a second policy with the same
  entries in another order grants the same.
\<close>

theorem narrowest_entry_decides:
  assumes "policy_resolve h ctx pol = Inr rf" and "fp_kind pol = Fs_RESTRICTED"
    and "resolve_entries h ctx (fp_entries pol) = Inr es"
    and "policy_resolve h ctx pol' = Inr rf'" and "fp_kind pol' = Fs_RESTRICTED"
    and "set (fp_entries pol') = set (fp_entries pol)"
  shows "effective_access rf p = reference_access es p \<and> effective_access rf' p = effective_access rf p \<and>
    distinct (map re_path (rf_entries rf)) \<and> sorted (map (\<lambda>e. path_depth (re_path e)) (rf_entries rf))"
proof (intro conjI)
  have rf: "rf_entries rf = order_entries es" "rf_kind rf = Fs_RESTRICTED"
    using assms(1-3) by (auto elim!: policy_resolve_Inr)
  obtain es' where rf': "resolve_entries h ctx (fp_entries pol') = Inr es'" "rf_entries rf' = order_entries es'"
      "rf_kind rf' = Fs_RESTRICTED"
    using assms(4,5) by (auto elim!: policy_resolve_Inr)
  have r: "is_restricted rf" "is_restricted rf'" using rf(2) rf'(3) by (simp_all add: is_restricted_def)
  have raw: "is_restricted (rf\<lparr>rf_entries := es\<rparr>)" using rf(2) by (simp add: is_restricted_def)
  have "effective_access rf p = effective_access (rf\<lparr>rf_entries := es\<rparr>) p"
    by (rule effective_cong [OF r(1) raw]) (auto simp: rf(1) dest: order_entries_best order_entries_sub)
  then show "effective_access rf p = reference_access es p"
    using effective_reference [OF raw, of p] by simp
  have "set es' = set es"
    using resolve_entries_mem [OF assms(3)] resolve_entries_mem [OF rf'(1)] assms(6) by auto
  then show "effective_access rf' p = effective_access rf p"
    by (intro effective_cong [OF r(2,1)]) (metis rf(1) rf'(2) order_entries_best order_entries_sub)+
  show "distinct (map re_path (rf_entries rf))" by (simp add: rf(1) order_entries_paths)
  show "sorted (map (\<lambda>e. path_depth (re_path e)) (rf_entries rf))" by (simp add: rf(1) order_entries_sorted)
qed

definition repo_policy :: fs_policy where
  "repo_policy = \<lparr>fp_kind = Fs_RESTRICTED, fp_entries =
     [path_entry Acc_WRITE ''/repo'', path_entry Acc_DENY ''/repo/a'', path_entry Acc_WRITE ''/repo/a/b'']\<rparr>"

definition repo_context :: policy_context where
  "repo_context = \<lparr>pc_cwd = ''/repo'', pc_workspace_roots = [''/repo''], pc_home_dir = None, pc_temp_dirs = [],
                   pc_protected_names = [''.git''], pc_state_dir = None\<rparr>"

theorem narrowest_entry_decides_witness:
  "effective_access (projr (policy_resolve plain_host repo_context repo_policy)) ''/repo/x'' = Acc_WRITE \<and>
   effective_access (projr (policy_resolve plain_host repo_context repo_policy)) ''/repo/a/x'' = Acc_DENY \<and>
   effective_access (projr (policy_resolve plain_host repo_context repo_policy)) ''/repo/a/b/x'' = Acc_WRITE"
proof -
  let ?rev = "repo_policy\<lparr>fp_entries := rev (fp_entries repo_policy)\<rparr>"
  let ?res = "\<lambda>pol. policy_resolve plain_host repo_context pol"
  let ?entry = "\<lambda>p a. \<lparr>re_path = p, re_access = a, re_skip_if_missing = False, re_ephemeral = False\<rparr>"
  let ?es = "[?entry ''/repo'' Acc_WRITE, ?entry ''/repo/a'' Acc_DENY, ?entry ''/repo/a/b'' Acc_WRITE]"
  have es: "resolve_entries plain_host repo_context (fp_entries repo_policy) = Inr ?es" by code_simp
  have "\<not> isl (?res repo_policy)" "\<not> isl (?res ?rev)" by code_simp+
  then have rf: "?res repo_policy = Inr (projr (?res repo_policy))" "?res ?rev = Inr (projr (?res ?rev))" by simp_all
  have k: "fp_kind repo_policy = Fs_RESTRICTED" "fp_kind ?rev = Fs_RESTRICTED" by (simp_all add: repo_policy_def)
  have k3: "set (fp_entries ?rev) = set (fp_entries repo_policy)" by simp
  have eq: "effective_access (projr (?res repo_policy)) p = reference_access ?es p" for p
    using narrowest_entry_decides [OF rf(1) k(1) es rf(2) k(2) k3, of p] by blast
  have "reference_access ?es ''/repo/x'' = Acc_WRITE" "reference_access ?es ''/repo/a/x'' = Acc_DENY"
    "reference_access ?es ''/repo/a/b/x'' = Acc_WRITE" by code_simp+
  then show ?thesis using eq by simp
qed


section \<open>Crossing the process boundary\<close>

text \<open>What the constructor of an entry guarantees.\<close>

definition entry_ok :: "fs_entry \<Rightarrow> bool" where
  "entry_ok e = ((fe_path e = None) \<noteq> (fe_special e = None))"

lemma enum_round_trips [simp]:
  "access_of (JStr (access_value a)) = Inr a"
  "special_of (JStr (special_value s)) = Inr s"
  "kind_of (JStr (kind_value k)) = Inr k"
  "network_of (JStr (network_value n)) = Inr n"
proof -
  show "access_of (JStr (access_value a)) = Inr a" by (cases a) (simp_all add: access_of_def enum_of_def)
  show "special_of (JStr (special_value s)) = Inr s" by (cases s) (simp_all add: special_of_def enum_of_def)
  show "kind_of (JStr (kind_value k)) = Inr k" by (cases k) (simp_all add: kind_of_def enum_of_def)
  show "network_of (JStr (network_value n)) = Inr n" by (cases n) (simp_all add: network_of_def enum_of_def)
qed

lemma special_value_ne [simp]: "special_value s \<noteq> []"
  by (cases s) auto

lemma entry_round_trip: "entry_ok e \<Longrightarrow> entry_from_json (entry_to_json e) = Inr e"
  by (cases e; cases "fe_special e"; cases "fe_path e")
     (auto simp: entry_ok_def entry_from_json_def entry_to_json_def json_item_def json_get_def dict_get_def opt_json_def
        json_truthy_def mk_entry_def Let_def)

lemma entries_round_trip: "list_all entry_ok es \<Longrightarrow> sum_map entry_from_json (map entry_to_json es) = Inr es"
  by (induction es) (simp_all add: entry_round_trip)

lemma json_iter_list [simp]: "json_iter (JList xs) = Inr xs"
  by (simp add: json_iter_def json_truthy_def json_tuple_def)

lemma json_opt_str_opt: "s \<noteq> Some [] \<Longrightarrow> json_opt_str (opt_json s) = Inr s"
  by (cases s) (auto simp: json_opt_str_def opt_json_def json_truthy_def)

text \<open>
  C27. A policy and its context survive the trip to the launcher process as JSON: reading back what was
  written gives the same entries, kind, network rule, roots and names, for every policy whose entries the
  constructor accepts and every context whose home and state directories, when given, are not
  empty.
\<close>

theorem policy_json_round_trip:
  assumes "list_all entry_ok (fp_entries (sp_filesystem pol))"
    and "pc_home_dir ctx \<noteq> Some []" and "pc_state_dir ctx \<noteq> Some []"
  shows "sandbox_policy_from_json (sandbox_policy_to_json pol) = Inr pol \<and>
    context_from_json str_of (context_to_json ctx) = Inr ctx"
proof
  show "sandbox_policy_from_json (sandbox_policy_to_json pol) = Inr pol"
    using entries_round_trip [OF assms(1)]
    by (cases pol; cases "sp_filesystem pol")
       (simp add: sandbox_policy_from_json_def sandbox_policy_to_json_def fs_policy_from_json_def fs_policy_to_json_def
          json_get_def dict_get_def json_truthy_def)
  show "context_from_json str_of (context_to_json ctx) = Inr ctx"
    using json_opt_str_opt [OF assms(2)] json_opt_str_opt [OF assms(3)]
    by (cases ctx) (simp add: context_from_json_def context_to_json_def json_item_def json_get_def dict_get_def
        json_str_def comp_def)
qed

theorem policy_json_round_trip_witness:
  "sandbox_policy_from_json (sandbox_policy_to_json \<lparr>sp_filesystem = repo_policy, sp_network = Net_ENABLED\<rparr>) =
     Inr \<lparr>sp_filesystem = repo_policy, sp_network = Net_ENABLED\<rparr> \<and>
   context_from_json (\<lambda>_. []) (context_to_json repo_context) = Inr repo_context"
  by (rule policy_json_round_trip) (simp_all add: repo_policy_def repo_context_def entry_ok_def path_entry_def)

section \<open>What a permission decision opens\<close>

definition norm_in :: "os_host \<Rightarrow> string list \<Rightarrow> string \<Rightarrow> bool" where
  "norm_in h ps q = (\<exists>p\<in>set ps. normalize_logical h p = Inr q)"

lemma path_entry_resolve:
  "entry_resolve h ctx (path_entry a p) = Inr ps \<longleftrightarrow> (\<exists>q. normalize_logical h p = Inr q \<and> ps = [q])"
  by (auto simp: entry_resolve_def path_entry_def sum_bind_Inr)

lemma resolved_path_entry:
  "resolved_of h (path_entry a p) [q] = [\<lparr>re_path = q, re_access = a, re_skip_if_missing = False, re_ephemeral = False\<rparr>]"
  by (simp add: resolved_of_def path_entry_def)

definition scratch_dir :: "os_host \<Rightarrow> policy_context \<Rightarrow> string \<Rightarrow> bool" where
  "scratch_dir h ctx q = norm_in h (''/tmp'' # pc_temp_dirs ctx) q"

lemma scratch_resolve:
  assumes "entry_resolve h ctx (special_entry Acc_WRITE sp skip True) = Inr ps" "sp = Sp_TMPDIR \<or> sp = Sp_SLASH_TMP"
    and "e \<in> set (resolved_of h (special_entry Acc_WRITE sp skip True) ps)"
  shows "scratch_dir h ctx (re_path e) \<and> re_ephemeral e"
proof -
  have "norm_in h qs q" if "sum_map (normalize_logical h) qs = Inr ps" "q \<in> set ps" for q qs
    using that by (simp add: norm_in_def sum_map_mem)
  moreover have "\<exists>qs. set qs \<subseteq> set (''/tmp'' # pc_temp_dirs ctx) \<and> sum_map (normalize_logical h) qs = Inr ps"
    using assms(1,2) by (auto simp: entry_resolve_def special_entry_def resolve_special_def simp del: sum_map.simps
        split: if_splits intro: exI [of _ "[''/tmp'']"] exI [of _ "pc_temp_dirs ctx"])
  ultimately show ?thesis using assms(3)
    by (fastforce simp: resolved_of_def special_entry_def scratch_dir_def norm_in_def)
qed

lemma built_entries:
  assumes "resolve_entries h ctx (fp_entries (build_filesystem_policy ws rs ds True tmp)) = Inr es"
  shows "e \<in> set es \<Longrightarrow> re_access e = Acc_WRITE \<Longrightarrow>
           (norm_in h ws (re_path e) \<and> \<not> re_ephemeral e) \<or> (tmp \<and> scratch_dir h ctx (re_path e) \<and> re_ephemeral e)"
    and "norm_in h ds q \<Longrightarrow> \<exists>e\<in>set es. re_path e = q \<and> re_access e = Acc_DENY"
    and "norm_in h ws q \<Longrightarrow> \<exists>e\<in>set es. re_path e = q \<and> re_access e = Acc_WRITE"
    and "\<exists>e\<in>set es. re_path e = ''/'' \<and> re_access e = Acc_READ"
proof -
  note mem = resolve_entries_mem [OF assms]
  let ?xs = "fp_entries (build_filesystem_policy ws rs ds True tmp)"
  have named: "\<exists>e\<in>set es. re_path e = q \<and> re_access e = a"
    if "p \<in> set ps" "path_entry a ` set ps \<subseteq> set ?xs" "normalize_logical h p = Inr q" for p ps a q
    using that mem [of "\<lparr>re_path = q, re_access = a, re_skip_if_missing = False, re_ephemeral = False\<rparr>"]
      path_entry_resolve [of h ctx a p "[q]"] resolved_path_entry [of h a p q]
    by (intro bexI [of _ "\<lparr>re_path = q, re_access = a, re_skip_if_missing = False, re_ephemeral = False\<rparr>"])
       (auto intro!: bexI [of _ "path_entry a p"])
  show "norm_in h ds q \<Longrightarrow> \<exists>e\<in>set es. re_path e = q \<and> re_access e = Acc_DENY"
    using named [of _ ds Acc_DENY q] by (auto simp: norm_in_def build_filesystem_policy_def)
  show "norm_in h ws q \<Longrightarrow> \<exists>e\<in>set es. re_path e = q \<and> re_access e = Acc_WRITE"
    using named [of _ ws Acc_WRITE q] by (auto simp: norm_in_def build_filesystem_policy_def)
  show "\<exists>e\<in>set es. re_path e = ''/'' \<and> re_access e = Acc_READ"
    using mem [of "\<lparr>re_path = ''/'', re_access = Acc_READ, re_skip_if_missing = False, re_ephemeral = False\<rparr>"]
    by (intro bexI [of _ "\<lparr>re_path = ''/'', re_access = Acc_READ, re_skip_if_missing = False, re_ephemeral = False\<rparr>"])
       (auto simp: build_filesystem_policy_def entry_resolve_def special_entry_def resolve_special_def filesystem_root_def
          resolved_of_def)
  show "(norm_in h ws (re_path e) \<and> \<not> re_ephemeral e) \<or> (tmp \<and> scratch_dir h ctx (re_path e) \<and> re_ephemeral e)"
    if e: "e \<in> set es" "re_access e = Acc_WRITE"
  proof -
    obtain x ps where x: "x \<in> set ?xs" "entry_resolve h ctx x = Inr ps" "e \<in> set (resolved_of h x ps)"
      using mem e(1) by blast
    have "fe_access x = Acc_WRITE" using x(3) e(2) by (auto simp: resolved_of_def)
    then consider (root) w where "w \<in> set ws" "x = path_entry Acc_WRITE w"
      | (temp) sp skip where "tmp" "x = special_entry Acc_WRITE sp skip True" "sp = Sp_TMPDIR \<or> sp = Sp_SLASH_TMP"
      using x(1) by (auto simp: build_filesystem_policy_def path_entry_def special_entry_def split: if_splits)
    then show ?thesis
    proof cases
      case root
      with x show ?thesis by (auto simp: path_entry_resolve resolved_path_entry norm_in_def)
    next
      case temp
      with x scratch_resolve show ?thesis by blast
    qed
  qed
qed

lemma decision_resolved:
  assumes "\<not> ad_unconfined d" and "policy_resolve h ctx (sp_filesystem (build_policy d)) = Inr rf"
  obtains es where "resolve_entries h ctx (fp_entries (build_filesystem_policy (ad_writable_roots d) (ad_readable_roots d)
      (ad_denied_paths d) True (ad_writable_scratch d))) = Inr es" "rf_entries rf = order_entries es" "is_restricted rf"
proof -
  have "sp_filesystem (build_policy d) = build_filesystem_policy (ad_writable_roots d) (ad_readable_roots d)
      (ad_denied_paths d) True (ad_writable_scratch d)" using assms(1) by (simp add: build_policy_def)
  then show ?thesis using assms(2) that
    by (auto elim!: policy_resolve_Inr simp: build_filesystem_policy_def is_restricted_def)
qed

lemma decision_deny_entry:
  assumes "\<not> ad_unconfined d" and "policy_resolve h ctx (sp_filesystem (build_policy d)) = Inr rf"
    and "norm_in h (ad_denied_paths d) q"
  shows "\<exists>e\<in>set (rf_entries rf). re_path e = q \<and> re_access e = Acc_DENY"
proof -
  obtain es where es: "resolve_entries h ctx (fp_entries (build_filesystem_policy (ad_writable_roots d) (ad_readable_roots d)
      (ad_denied_paths d) True (ad_writable_scratch d))) = Inr es" "rf_entries rf = order_entries es"
    using decision_resolved [OF assms(1,2)] by metis
  obtain e where e: "e \<in> set es" "re_path e = q" "re_access e = Acc_DENY"
    using built_entries(2) [OF es(1) assms(3)] by blast
  obtain e' where e': "e' \<in> set (rf_entries rf)" "re_path e' = re_path e" "rank e \<le> rank e'"
    using order_entries_best [OF e(1)] es(2) by auto
  then have "re_access e' = Acc_DENY" using e by (cases "re_access e'") (auto simp: rank_le)
  with e' e show ?thesis by blast
qed

lemma decision_writes:
  assumes "\<not> ad_unconfined d" and "policy_resolve h ctx (sp_filesystem (build_policy d)) = Inr rf"
    and w: "effective_access rf p = Acc_WRITE"
  shows "\<exists>r. is_within p r \<and> (norm_in h (ad_writable_roots d) r \<or> ad_writable_scratch d \<and> scratch_dir h ctx r) \<and>
       (\<forall>q. norm_in h (ad_denied_paths d) q \<and> is_within p q \<longrightarrow> path_depth q < path_depth r)"
proof -
  obtain es where es: "resolve_entries h ctx (fp_entries (build_filesystem_policy (ad_writable_roots d) (ad_readable_roots d)
      (ad_denied_paths d) True (ad_writable_scratch d))) = Inr es" "rf_entries rf = order_entries es" "is_restricted rf"
    by (rule decision_resolved [OF assms(1,2)])
  show ?thesis
  proof (rule effective_cases [OF es(3), of p])
    fix e assume e: "narrowest (rf_entries rf) p e" "effective_access rf p = re_access e"
    then have mem: "e \<in> set es" "covers p e" using order_entries_sub es(2) by (auto simp: narrowest_def)
    have "path_depth q < path_depth (re_path e)" if q: "norm_in h (ad_denied_paths d) q" "is_within p q" for q
    proof -
      obtain f where f: "f \<in> set (rf_entries rf)" "re_path f = q" "re_access f = Acc_DENY"
        using decision_deny_entry [OF assms(1,2) q(1)] by blast
      then have "rank f \<le> rank e" using e(1) q(2) by (auto simp: narrowest_def covers_def)
      then show ?thesis using f e(2) w by (auto simp: rank_le)
    qed
    then show ?thesis using built_entries(1) [OF es(1) mem(1)] e(2) w mem(2)
      by (intro exI [of _ "re_path e"]) (auto simp: covers_def)
  qed (use w in simp)
qed

lemma decision_denies:
  assumes "\<not> ad_unconfined d" and "policy_resolve h ctx (sp_filesystem (build_policy d)) = Inr rf"
    and "norm_in h (ad_denied_paths d) p" and "clean p" and "list_all (clean \<circ> re_path) (rf_entries rf)"
  shows "effective_access rf p = Acc_DENY"
proof -
  have r: "is_restricted rf" by (rule decision_resolved [OF assms(1,2)])
  obtain f where f: "f \<in> set (rf_entries rf)" "re_path f = p" "re_access f = Acc_DENY"
    using decision_deny_entry [OF assms(1-3)] by blast
  have "rank e \<le> rank f" if e: "e \<in> set (rf_entries rf)" "covers p e" for e
  proof -
    have "clean (re_path e)" using assms(5) e(1) by (auto simp: list_all_iff)
    then have "path_depth (re_path e) \<le> path_depth p" using paths.within_depth assms(4) e(2) by (simp add: covers_def)
    moreover have "precedence (re_access e) \<le> precedence (re_access f)" using f(3) by (cases "re_access e") auto
    ultimately show ?thesis using f(2) by (auto simp: rank_le)
  qed
  then have "narrowest (rf_entries rf) p f" using f paths.within_refl assms(4) by (auto simp: narrowest_def covers_def)
  then show ?thesis using effective_some [OF r] f(3) by simp
qed

text \<open>
  C20. A confined command writes nowhere but beneath a root its permission decision listed as writable, or in
  scratch space when the decision grants any: where the resolved policy says write, such a root contains
  the path, and every protected directory around the path lies further out than the root. A protected
  directory itself is denied whatever else the decision lists.
\<close>

theorem writes_stay_in_granted_roots:
  assumes "\<not> ad_unconfined d" and "policy_resolve h ctx (sp_filesystem (build_policy d)) = Inr rf"
    and "clean p" and "list_all (clean \<circ> re_path) (rf_entries rf)"
  shows "(effective_access rf p = Acc_WRITE \<longrightarrow>
       (\<exists>r. is_within p r \<and> (norm_in h (ad_writable_roots d) r \<or> ad_writable_scratch d \<and> scratch_dir h ctx r) \<and>
          (\<forall>q. norm_in h (ad_denied_paths d) q \<and> is_within p q \<longrightarrow> path_depth q < path_depth r))) \<and>
    (norm_in h (ad_denied_paths d) p \<longrightarrow> effective_access rf p = Acc_DENY)"
  using decision_writes [OF assms(1,2)] decision_denies [OF assms(1,2) _ assms(3,4)] by blast

definition desktop_decision :: access_decision where
  "desktop_decision =
     \<lparr>ad_approval_mode = ''auto'', ad_unconfined = False, ad_writable_roots = [''/h/.hugagent/workspace''],
      ad_readable_roots = [], ad_denied_paths = [''/h/.hugagent''], ad_network_allowed = True, ad_writable_scratch = False\<rparr>"

theorem writes_stay_in_granted_roots_witness:
  "effective_access (projr (policy_resolve plain_host repo_context (sp_filesystem (build_policy desktop_decision))))
     ''/h/.hugagent'' = Acc_DENY \<and>
   effective_access (projr (policy_resolve plain_host repo_context (sp_filesystem (build_policy desktop_decision))))
     ''/h/x'' \<noteq> Acc_WRITE"
proof -
  let ?res = "policy_resolve plain_host repo_context (sp_filesystem (build_policy desktop_decision))"
  have "\<not> isl ?res" by code_simp
  then have rf: "?res = Inr (projr ?res)" by simp
  have u: "\<not> ad_unconfined desktop_decision" by (simp add: desktop_decision_def)
  have c: "list_all (clean \<circ> re_path) (rf_entries (projr ?res))" "clean ''/h/.hugagent''" "clean ''/h/x''" by code_simp+
  have n: "normalize_logical plain_host ''/h/.hugagent'' = Inr ''/h/.hugagent''"
    "normalize_logical plain_host ''/h/.hugagent/workspace'' = Inr ''/h/.hugagent/workspace''"
    "\<not> is_within ''/h/x'' ''/h/.hugagent/workspace''" by code_simp+
  have "norm_in plain_host (ad_denied_paths desktop_decision) ''/h/.hugagent''"
    using n(1) by (simp add: norm_in_def desktop_decision_def)
  moreover have "\<not> (\<exists>r. is_within ''/h/x'' r \<and> (norm_in plain_host (ad_writable_roots desktop_decision) r \<or>
      ad_writable_scratch desktop_decision \<and> scratch_dir plain_host repo_context r))"
    using n by (auto simp: norm_in_def desktop_decision_def)
  ultimately show ?thesis
    using writes_stay_in_granted_roots [OF u rf c(2,1)] writes_stay_in_granted_roots [OF u rf c(3,1)] by blast
qed

end
