(* ===== verification/Bwrap.thy ===== *)
theory Bwrap
  imports Sandbox_Policy
begin

text \<open>
  The Linux backend of the sandbox: \<open>core/sandbox/oslayer/bwrap.py\<close> with the contract of
  \<open>core/sandbox/oslayer/backend.py\<close>. The arguments for bubblewrap are built as a list of mount operations, rendered to
  the argument vector at the end. Bubblewrap itself is not part of the source: which host files a command
  started with given mounts can write is a parameter, and \<open>bwrap_documented\<close> states what its manual promises.
\<close>

section \<open>Launches\<close>

record sandbox_launch =
  sl_backend :: string
  sl_argv_prefix :: "string list"

datatype mount_op =
    Ro_bind string string
  | Bind string string
  | Tmpfs "string option" string
  | Dev string
  | Remount_ro string

fun render :: "mount_op \<Rightarrow> string list" where
  "render (Ro_bind s d) = [''--ro-bind'', s, d]"
| "render (Bind s d) = [''--bind'', s, d]"
| "render (Tmpfs None d) = [''--tmpfs'', d]"
| "render (Tmpfs (Some p) d) = [''--perms'', p, ''--tmpfs'', d]"
| "render (Dev d) = [''--dev'', d]"
| "render (Remount_ro d) = [''--remount-ro'', d]"

text \<open>The runner: \<open>which\<close> is the result of \<open>shutil.which\<close>, \<open>executable\<close> of the test of the bundled copy.\<close>

definition resolve_bwrap :: "string option \<Rightarrow> string \<Rightarrow> bool \<Rightarrow> string" where
  "resolve_bwrap which bundled executable =
     (case which of
        Some s \<Rightarrow> if s \<noteq> [] then s else if executable then bundled else []
      | None \<Rightarrow> if executable then bundled else [])"

definition PLATFORM_DEFAULT_READ_ROOTS :: "string list" where
  "PLATFORM_DEFAULT_READ_ROOTS =
     [''/bin'', ''/sbin'', ''/usr'', ''/etc'', ''/lib'', ''/lib64'', ''/nix/store'', ''/run/current-system/sw'']"

section \<open>Paths on the host\<close>

definition mount_path :: "os_host \<Rightarrow> string \<Rightarrow> string" where
  "mount_path h path =
     (let resolved = h_realpath h path in if resolved \<noteq> path \<and> h_exists h resolved then resolved else path)"

lemma dirname_shorter: "dirname p = p \<or> length (dirname p) < length p"
proof -
  let ?head = "rev (dropWhile (\<lambda>c. c \<noteq> CHR ''/'') (rev p))"
  have strict: "length (rstrip_char (CHR ''/'') s) < length s" if "s \<noteq> []" "last s = CHR ''/''" for s
    using that length_dropWhile_le [of "\<lambda>x. x = CHR ''/''" "rev (butlast s)"]
    by (cases s rule: rev_cases) (auto simp: rstrip_char_def)
  have len: "length ?head \<le> length p" using length_dropWhile_le [of "\<lambda>c. c \<noteq> CHR ''/''" "rev p"] by simp
  have last: "last ?head = CHR ''/''" if "?head \<noteq> []"
    using that hd_dropWhile [of "\<lambda>c. c \<noteq> CHR ''/''" "rev p"] by (simp add: last_rev)
  show ?thesis
  proof (cases "list_all (\<lambda>c. c = CHR ''/'') ?head")
    case True
    have "?head = p" if "length ?head = length p"
      using that by (metis length_rev rev_rev_ident suffix_dropWhile suffix_length_le suffix_order.antisym_conv1 suffix_length_less nless_le)
    then show ?thesis using True len by (auto simp: dirname_def Let_def)
  next
    case False
    then have "?head \<noteq> []" by (metis list.pred_inject(1))
    then show ?thesis using False strict [OF _ last] len by (auto simp: dirname_def Let_def)
  qed
qed

function missing_loop :: "os_host \<Rightarrow> string \<Rightarrow> string \<Rightarrow> string" where
  "missing_loop h current parent =
     (if parent \<noteq> [] \<and> parent \<noteq> current \<and> \<not> h_exists h parent then missing_loop h parent (dirname parent) else current)"
  by pat_completeness auto
termination
proof (relation "measure (\<lambda>(h, c, p). length p + (if p = c then 0 else 1))")
  fix h current parent
  assume "parent \<noteq> [] \<and> parent \<noteq> current \<and> \<not> h_exists h parent"
  then show "((h, parent, dirname parent), h, current, parent) \<in> measure (\<lambda>(h, c, p). length p + (if p = c then 0 else 1))"
    using dirname_shorter [of parent] by auto
qed simp

declare missing_loop.simps [simp del]

definition first_missing_component :: "os_host \<Rightarrow> string \<Rightarrow> sandbox_error + string" where
  "first_missing_component h path =
     sum_bind (normalize_logical h path) (\<lambda>current.
       Inr (if h_exists h current then current else missing_loop h current (dirname current)))"

section \<open>Mounts\<close>

definition base_filesystem_args :: "os_host \<Rightarrow> resolved_fs \<Rightarrow> mount_op list" where
  "base_filesystem_args h rf =
     (if has_full_disk_read_access rf then [Ro_bind ''/'' ''/'', Dev ''/dev'']
      else let readable = map ar_root (roots_for rf Acc_READ) @
                 (if rf_platform_defaults rf then filter (h_exists h) PLATFORM_DEFAULT_READ_ROOTS else [])
           in if filesystem_root \<in> set readable then [Ro_bind ''/'' ''/'', Dev ''/dev'']
              else [Tmpfs None ''/'', Dev ''/dev''] @
                   map (\<lambda>r. Ro_bind r r) (filter (h_exists h) (sort_key (\<lambda>r. (path_depth r, r)) (remdups readable))))"

definition writable_roots :: "resolved_fs \<Rightarrow> access_root list" where
  "writable_roots rf = sort_key (\<lambda>r. (path_depth (ar_root r), ar_root r)) (roots_for rf Acc_WRITE)"

definition writable_ops :: "os_host \<Rightarrow> access_root \<Rightarrow> mount_op list" where
  "writable_ops h r =
     (if ar_ephemeral r then [Tmpfs None (ar_root r)]
      else let target = mount_path h (ar_root r) in if \<not> h_exists h target then [] else [Bind target target])"

definition mounted_writable :: "os_host \<Rightarrow> resolved_fs \<Rightarrow> string list" where
  "mounted_writable h rf =
     filter (h_exists h) (map (\<lambda>r. mount_path h (ar_root r)) (filter (\<lambda>r. \<not> ar_ephemeral r) (writable_roots rf)))"

definition read_only_mount :: "os_host \<Rightarrow> string \<Rightarrow> sandbox_error + mount_op list" where
  "read_only_mount h path =
     (if h_islink h path then Inr [Ro_bind ''/dev/null'' path]
      else if h_exists h path then Inr [Ro_bind path path]
      else sum_bind (first_missing_component h path) (\<lambda>missing. Inr [Tmpfs (Some ''555'') missing, Remount_ro missing]))"

definition carve_targets :: "access_root \<Rightarrow> string list" where
  "carve_targets r = ar_read_only r @ map (path_join (ar_root r)) (ar_protected r)"

definition carve_out_args :: "os_host \<Rightarrow> resolved_fs \<Rightarrow> string list \<Rightarrow> sandbox_error + mount_op list" where
  "carve_out_args h rf writable =
     sum_bind (sum_map (read_only_mount h)
         (filter (\<lambda>t. list_ex (is_within t) writable)
            (concat (map carve_targets (filter (\<lambda>r. \<not> ar_ephemeral r) (roots_for rf Acc_WRITE))))))
       (\<lambda>opss. Inr (concat opss))"

definition denied_ops :: "os_host \<Rightarrow> string list \<Rightarrow> string \<Rightarrow> mount_op list" where
  "denied_ops h writable path =
     (if h_isdir h path \<and> \<not> h_islink h path
      then let descendants = filter (\<lambda>root. root \<noteq> path \<and> is_within root path) writable
           in [Tmpfs (Some (if descendants = [] then ''000'' else ''111'')) path] @
              map (\<lambda>d. Bind d d) (sort_key path_depth descendants) @ [Remount_ro path]
      else [Ro_bind ''/dev/null'' path])"

definition denied_args :: "os_host \<Rightarrow> resolved_fs \<Rightarrow> string list \<Rightarrow> mount_op list" where
  "denied_args h rf writable =
     concat (map (denied_ops h writable) (sort_key (\<lambda>r. (path_depth r, r)) (map ar_root (roots_for rf Acc_DENY))))"

definition namespace_args :: "network_policy \<Rightarrow> string list" where
  "namespace_args network =
     [''--new-session'', ''--die-with-parent'', ''--unshare-user'', ''--unshare-pid'', ''--unshare-ipc'', ''--proc'', ''/proc''] @
     (if network_is_enabled network then [] else [''--unshare-net''])"

definition mount_plan :: "os_host \<Rightarrow> resolved_fs \<Rightarrow> sandbox_error + mount_op list" where
  "mount_plan h rf =
     sum_bind (carve_out_args h rf (mounted_writable h rf)) (\<lambda>carve.
       Inr (base_filesystem_args h rf @ concat (map (writable_ops h) (writable_roots rf)) @ carve @
            denied_args h rf (mounted_writable h rf)))"

definition bwrap_launch :: "os_host \<Rightarrow> string \<Rightarrow> resolved_fs \<Rightarrow> network_policy \<Rightarrow> sandbox_error + sandbox_launch" where
  "bwrap_launch h runner rf network =
     sum_bind (mount_plan h rf) (\<lambda>ops.
       Inr \<lparr>sl_backend = ''bwrap'',
            sl_argv_prefix = [runner] @ concat (map render ops) @ namespace_args network @ [''--'']\<rparr>)"

text \<open>
  \<open>BasePlatformBackend.build\<close>: the probes first, then the launch. Bubblewrap can enforce every policy. The wording of the
  message shown when the runner is missing is not modelled.
\<close>

definition bwrap_unavailable_reason :: "string \<Rightarrow> string" where
  "bwrap_unavailable_reason runner = (if runner = [] then ''bwrap missing'' else [])"

definition bwrap_build :: "os_host \<Rightarrow> string \<Rightarrow> sandbox_policy \<Rightarrow> policy_context \<Rightarrow> sandbox_error + sandbox_launch" where
  "bwrap_build h runner pol ctx =
     (let unavailable = bwrap_unavailable_reason runner in
      if unavailable \<noteq> [] then Inl (Sandbox_unavailable unavailable)
      else sum_bind (policy_resolve h ctx (sp_filesystem pol)) (\<lambda>resolved.
             bwrap_launch h runner resolved (sp_network pol)))"

section \<open>What bubblewrap documents\<close>

text \<open>
  Mounts are made in the order of the arguments, so what a path shows is the mount made last among those whose
  target contains it. The file of the host is there for writing only if that mount is a \<open>--bind\<close>, and it is
  there for writing if it is a bind of the path onto itself that no \<open>--remount-ro\<close> names (which affects its own
  mount point only).
\<close>

fun mount_target :: "mount_op \<Rightarrow> string option" where
  "mount_target (Ro_bind s d) = Some d"
| "mount_target (Bind s d) = Some d"
| "mount_target (Tmpfs p d) = Some d"
| "mount_target (Dev d) = Some d"
| "mount_target (Remount_ro d) = None"

definition mounts_over :: "string \<Rightarrow> mount_op \<Rightarrow> bool" where
  "mounts_over p m = (case mount_target m of None \<Rightarrow> False | Some d \<Rightarrow> is_within p d)"

definition top_mount :: "mount_op list \<Rightarrow> string \<Rightarrow> mount_op option" where
  "top_mount ops p = find (mounts_over p) (rev ops)"

fun is_bind :: "mount_op \<Rightarrow> bool" where
  "is_bind (Bind s d) = True"
| "is_bind _ = False"

definition bwrap_documented :: "(mount_op list \<Rightarrow> string \<Rightarrow> bool) \<Rightarrow> bool" where
  "bwrap_documented writes =
     (\<forall>ops p. (writes ops p \<longrightarrow> (\<exists>m. top_mount ops p = Some m \<and> is_bind m)) \<and>
        (\<forall>d. top_mount ops p = Some (Bind d d) \<and> Remount_ro d \<notin> set ops \<longrightarrow> writes ops p))"

section \<open>Which mount shows\<close>

lemma top_mount_append:
  "top_mount (xs @ ys) p = (case top_mount ys p of None \<Rightarrow> top_mount xs p | Some m \<Rightarrow> Some m)"
proof -
  have "find P (us @ vs) = (case find P us of None \<Rightarrow> find P vs | Some m \<Rightarrow> Some m)" for P :: "mount_op \<Rightarrow> bool" and us vs
    by (induction us) auto
  then show ?thesis unfolding top_mount_def rev_append by blast
qed

lemma top_mount_mem: "top_mount ops p = Some m \<Longrightarrow> m \<in> set ops \<and> mounts_over p m"
  unfolding top_mount_def by (metis find_Some_iff in_set_conv_nth set_rev)

lemma top_mount_None: "top_mount ops p = None \<longleftrightarrow> (\<forall>m\<in>set ops. \<not> mounts_over p m)"
  by (auto simp: top_mount_def find_None_iff)

text \<open>A segment that mounts over a path, and not with a bind, hides every bind before it.\<close>

definition no_bind_over :: "string \<Rightarrow> mount_op list \<Rightarrow> bool" where
  "no_bind_over p ops = list_all (\<lambda>m. is_bind m \<longrightarrow> \<not> mounts_over p m) ops"

lemma no_binds_over: "list_all (\<lambda>m. \<not> is_bind m) ops \<Longrightarrow> no_bind_over p ops"
  by (auto simp: no_bind_over_def list_all_iff)

lemma top_mount_hidden:
  assumes "top_mount (xs @ ys) p = Some b" "is_bind b" "no_bind_over p ys"
  shows "top_mount xs p = Some b" and "\<forall>m\<in>set ys. \<not> mounts_over p m"
proof -
  have "top_mount ys p = None"
  proof (cases "top_mount ys p")
    case (Some m)
    then have "m \<in> set ys" "mounts_over p m" "m = b" using top_mount_mem assms(1) by (auto simp: top_mount_append)
    then show ?thesis using assms(2,3) by (auto simp: no_bind_over_def list_all_iff)
  qed simp
  then show "top_mount xs p = Some b" "\<forall>m\<in>set ys. \<not> mounts_over p m"
    using assms(1) top_mount_None [of ys p] by (simp_all add: top_mount_append)
qed

lemma base_no_bind: "list_all (\<lambda>m. \<not> is_bind m) (base_filesystem_args h rf)"
  by (auto simp: base_filesystem_args_def list_all_iff Let_def)

lemma read_only_no_bind: "read_only_mount h t = Inr ops \<Longrightarrow> list_all (\<lambda>m. \<not> is_bind m) ops"
  by (auto simp: read_only_mount_def sum_bind_Inr split: if_splits)

lemma carve_out_argsE:
  assumes "carve_out_args h rf ws = Inr ops"
  obtains opss where "ops = concat opss"
    "list_all2 (\<lambda>t x. read_only_mount h t = Inr x)
       (filter (\<lambda>t. list_ex (is_within t) ws) (concat (map carve_targets (filter (\<lambda>r. \<not> ar_ephemeral r) (roots_for rf Acc_WRITE))))) opss"
  using assms by (auto simp: carve_out_args_def sum_bind_Inr sum_map_Inr)

lemma carve_no_bind:
  assumes "carve_out_args h rf ws = Inr ops"
  shows "list_all (\<lambda>m. \<not> is_bind m) ops"
proof -
  have "list_all2 (\<lambda>t x. read_only_mount h t = Inr x) ts opss \<Longrightarrow> list_all (\<lambda>m. \<not> is_bind m) (concat opss)" for ts opss
    by (induction rule: list_all2_induct) (auto dest: read_only_no_bind)
  then show ?thesis using assms by (auto elim!: carve_out_argsE)
qed

lemma carve_over:
  assumes "carve_out_args h rf ws = Inr ops" "r \<in> set (roots_for rf Acc_WRITE)" "\<not> ar_ephemeral r"
    "t \<in> set (carve_targets r)" "\<exists>w\<in>set ws. is_within t w"
  shows "\<exists>os. read_only_mount h t = Inr os \<and> set os \<subseteq> set ops"
proof -
  have "list_all2 (\<lambda>t x. read_only_mount h t = Inr x) ts opss \<Longrightarrow> t \<in> set ts \<Longrightarrow>
      \<exists>os. read_only_mount h t = Inr os \<and> set os \<subseteq> set (concat opss)" for ts opss
    by (induction rule: list_all2_induct) auto
  moreover have "t \<in> set (filter (\<lambda>t. list_ex (is_within t) ws) (concat (map carve_targets (filter (\<lambda>r. \<not> ar_ephemeral r) (roots_for rf Acc_WRITE)))))"
    using assms(2-5) by (auto simp: list_ex_iff)
  ultimately show ?thesis using assms(1) by (metis carve_out_argsE)
qed

lemma denied_bind:
  assumes "m \<in> set (denied_args h rf ws)" "is_bind m"
  obtains w q where "w \<in> set ws" "q \<in> set (roots_for rf Acc_DENY)" "is_within w (ar_root q)" "m = Bind w w"
  using assms by (auto simp: denied_args_def denied_ops_def Let_def split: if_splits)

lemma denied_no_bind:
  assumes "\<And>w q. w \<in> set ws \<Longrightarrow> q \<in> set (roots_for rf Acc_DENY) \<Longrightarrow> is_within p w \<Longrightarrow> \<not> is_within w (ar_root q)"
  shows "no_bind_over p (denied_args h rf ws)"
  using assms by (auto simp: no_bind_over_def list_all_iff mounts_over_def elim!: denied_bind)

section \<open>Parents and missing components\<close>

lemma dirname_path_of:
  assumes "list_all comp_ok (cs @ [c])"
  shows "dirname (path_of (cs @ [c])) = path_of cs"
proof -
  have c: "CHR ''/'' \<notin> set c" using assms by (auto simp: comp_ok_def)
  have p: "path_of (cs @ [c]) = flat cs @ CHR ''/'' # c" by (subst path_of_flat) (auto simp: flat_def)
  have "rev (dropWhile (\<lambda>x. x \<noteq> CHR ''/'') (rev (flat cs @ CHR ''/'' # c))) = flat cs @ ''/''"
    using c dropWhile_append2 [of "rev c" "\<lambda>x. x \<noteq> CHR ''/''" "CHR ''/'' # rev (flat cs)"] by force
  then have d: "dirname (path_of (cs @ [c])) =
      (if list_all (\<lambda>x. x = CHR ''/'') (flat cs @ ''/'') then flat cs @ ''/'' else rstrip_char (CHR ''/'') (flat cs @ ''/''))"
    by (simp add: dirname_def p)
  show ?thesis
  proof (cases cs rule: rev_cases)
    case Nil
    then show ?thesis using d by (simp add: path_of_def)
  next
    case (snoc ds e)
    then have e: "e \<noteq> []" "CHR ''/'' \<notin> set e" using assms by (auto simp: comp_ok_def)
    have f: "flat cs = flat ds @ CHR ''/'' # e" using snoc by (simp add: flat_def)
    have "\<not> list_all (\<lambda>x. x = CHR ''/'') (flat cs @ ''/'')" using e f by (cases e) auto
    moreover have "rstrip_char (CHR ''/'') (flat cs @ ''/'') = flat cs"
      using e f by (cases e rule: rev_cases) (auto simp: rstrip_char_def)
    ultimately show ?thesis using d snoc by (simp add: path_of_flat)
  qed
qed

lemma dirname_clean:
  assumes "clean p"
  shows "clean (dirname p) \<and> is_within p (dirname p)"
proof (cases "comps p" rule: rev_cases)
  case Nil
  then have "p = ''/''" using assms by (metis clean_def path_of_def str_join.simps(1))
  then show ?thesis by (simp add: dirname_def is_within_def)
next
  case (snoc cs c)
  then have p: "p = path_of (cs @ [c])" using assms by (simp add: clean_def)
  have ok: "list_all comp_ok (cs @ [c])" using comps_ok [of p] snoc by simp
  then have d: "dirname p = path_of cs" using p dirname_path_of by simp
  then have "clean (dirname p)" "comps (dirname p) = cs" using ok by (simp_all add: clean_path_of comps_path_of)
  then show ?thesis using is_within_comps [OF assms, of "dirname p"] snoc by simp
qed

lemma missing_loop_around:
  assumes "clean t" "clean current" "clean parent" "is_within t current" "is_within current parent"
  shows "clean (missing_loop h current parent) \<and> is_within t (missing_loop h current parent)"
  using assms
proof (induction h current parent rule: missing_loop.induct)
  case (1 h current parent)
  show ?case
  proof (cases "parent \<noteq> [] \<and> parent \<noteq> current \<and> \<not> h_exists h parent")
    case True
    have "is_within t parent" using paths.within_trans 1 by blast
    then have "clean (missing_loop h parent (dirname parent)) \<and> is_within t (missing_loop h parent (dirname parent))"
      using 1 True dirname_clean by blast
    with True show ?thesis by (subst (1 2) missing_loop.simps) simp
  next
    case False
    with 1 show ?thesis by (subst (1 2) missing_loop.simps) auto
  qed
qed

lemma read_only_mount_over:
  assumes "read_only_mount h t = Inr ops" "clean t" "normalize_logical h t = Inr t" "clean p" "is_within p t"
  shows "\<exists>m\<in>set ops. mounts_over p m"
proof (cases "h_islink h t \<or> h_exists h t")
  case True
  then show ?thesis using assms(1,5) by (auto simp: read_only_mount_def mounts_over_def split: if_splits)
next
  case False
  let ?m = "missing_loop h t (dirname t)"
  have "clean ?m \<and> is_within t ?m"
    using missing_loop_around [of t t "dirname t"] assms(2) dirname_clean paths.within_refl by blast
  then have "is_within p ?m" using paths.within_trans assms by blast
  then show ?thesis using False assms(1,3)
    by (auto simp: read_only_mount_def first_missing_component_def mounts_over_def)
qed

section \<open>The mounts implement the policy\<close>

text \<open>No path of the policy goes through a symbolic link, and all are in normal form.\<close>

definition paths_literal :: "os_host \<Rightarrow> resolved_fs \<Rightarrow> bool" where
  "paths_literal h rf =
     list_all (\<lambda>e. clean (re_path e) \<and> h_realpath h (re_path e) = re_path e \<and>
                   normalize_logical h (re_path e) = Inr (re_path e) \<and>
                   list_all (\<lambda>n. \<not> isabs n \<and> clean (path_join (re_path e) n) \<and>
                       normalize_logical h (path_join (re_path e) n) = Inr (path_join (re_path e) n)) (rf_protected rf))
       (rf_entries rf)"

text \<open>A path of a reopened root: of a writable root that lies beneath a denied directory.\<close>

definition reopened :: "resolved_fs \<Rightarrow> string \<Rightarrow> bool" where
  "reopened rf p =
     list_ex (\<lambda>w. \<not> ar_ephemeral w \<and> is_within p (ar_root w) \<and> list_ex (\<lambda>q. is_within (ar_root w) (ar_root q)) (roots_for rf Acc_DENY))
       (roots_for rf Acc_WRITE)"

lemma roots_for_entry:
  "r \<in> set (roots_for rf a) \<Longrightarrow> \<exists>e\<in>set (rf_entries rf). ar_root r = re_path e \<and> ar_ephemeral r = re_ephemeral e \<and>
     (effective_access rf (re_path e) = a \<or> a = Acc_READ)"
  by (auto simp: roots_for_def effective_for_entry_def)

lemma writable_bind:
  assumes "m \<in> set (concat (map (writable_ops h) (writable_roots rf)))" "is_bind m"
  shows "\<exists>r\<in>set (roots_for rf Acc_WRITE). \<not> ar_ephemeral r \<and> h_exists h (mount_path h (ar_root r)) \<and>
           m = Bind (mount_path h (ar_root r)) (mount_path h (ar_root r))"
  using assms by (force simp: writable_ops_def writable_roots_def Let_def split: if_splits)

lemma mounted_root:
  assumes "r \<in> set (roots_for rf Acc_WRITE)" "\<not> ar_ephemeral r" "h_exists h (mount_path h (ar_root r))"
  shows "mount_path h (ar_root r) \<in> set (mounted_writable h rf)"
  using assms by (auto simp: mounted_writable_def writable_roots_def)

lemma literal_mount_path: "h_realpath h p = p \<Longrightarrow> mount_path h p = p"
  by (simp add: mount_path_def)

lemma denied_over:
  assumes "r \<in> set (roots_for rf Acc_DENY)" "is_within p (ar_root r)"
  shows "\<exists>m\<in>set (denied_args h rf ws). mounts_over p m"
proof -
  have "\<exists>m\<in>set (denied_ops h ws (ar_root r)). mounts_over p m"
    using assms(2) by (auto simp: denied_ops_def mounts_over_def Let_def)
  then show ?thesis using assms(1) by (auto simp: denied_args_def)
qed

text \<open>At the path of the entry that decides about \<open>p\<close> the same mode applies.\<close>

lemma narrowest_at_entry:
  assumes "is_restricted rf" "list_all (clean \<circ> re_path) (rf_entries rf)" "clean p" "narrowest (rf_entries rf) p e"
  shows "effective_access rf (re_path e) = re_access e"
proof -
  have c: "clean (re_path f)" if "f \<in> set (rf_entries rf)" for f using assms(2) that by (auto simp: list_all_iff)
  have e: "e \<in> set (rf_entries rf)" "is_within p (re_path e)" using assms(4) by (auto simp: narrowest_def covers_def)
  have "rank f \<le> rank e" if f: "f \<in> set (rf_entries rf)" "covers (re_path e) f" for f
  proof -
    have "covers p f" using paths.within_trans [OF assms(3) c [OF e(1)] c [OF f(1)] e(2)] f(2) by (simp add: covers_def)
    then show ?thesis using assms(4) f(1) by (auto simp: narrowest_def)
  qed
  then have "narrowest (rf_entries rf) (re_path e) e"
    using e(1) paths.within_refl [OF c [OF e(1)]] by (auto simp: narrowest_def covers_def)
  then show ?thesis using effective_some [OF assms(1)] by simp
qed

text \<open>The bind that shows at a path is that of a writable root, and nothing masks the path afterwards.\<close>

lemma bind_shows:
  assumes lit: "paths_literal h rf" and "\<not> reopened rf p" and "mount_plan h rf = Inr ops"
    and "top_mount ops p = Some b" and "is_bind b"
  obtains r carve where "r \<in> set (roots_for rf Acc_WRITE)" "\<not> ar_ephemeral r" "h_exists h (ar_root r)" "is_within p (ar_root r)"
    "carve_out_args h rf (mounted_writable h rf) = Inr carve" "\<forall>m\<in>set carve. \<not> mounts_over p m"
    "\<forall>q\<in>set (roots_for rf Acc_DENY). \<not> is_within p (ar_root q)" "ar_root r \<in> set (mounted_writable h rf)"
proof -
  obtain carve where carve: "carve_out_args h rf (mounted_writable h rf) = Inr carve"
    and ops: "ops = (base_filesystem_args h rf @ concat (map (writable_ops h) (writable_roots rf)) @ carve) @
                denied_args h rf (mounted_writable h rf)"
    using assms(3) by (auto simp: mount_plan_def sum_bind_Inr)
  have real: "h_realpath h (ar_root r) = ar_root r" if "r \<in> set (roots_for rf a)" for r a
    using lit roots_for_entry [OF that] by (auto simp: paths_literal_def list_all_iff)
  have nob: "no_bind_over p (denied_args h rf (mounted_writable h rf))"
  proof (rule denied_no_bind)
    fix w q assume "w \<in> set (mounted_writable h rf)" "q \<in> set (roots_for rf Acc_DENY)" "is_within p w"
    then show "\<not> is_within w (ar_root q)" using assms(2) real literal_mount_path
      by (auto simp: mounted_writable_def writable_roots_def reopened_def list_ex_iff)
  qed
  note d = top_mount_hidden [OF assms(4) [unfolded ops] assms(5) nob]
  have "top_mount ((base_filesystem_args h rf @ concat (map (writable_ops h) (writable_roots rf))) @ carve) p = Some b"
    using d(1) by simp
  note c = top_mount_hidden [OF this assms(5) no_binds_over [OF carve_no_bind [OF carve]]]
  from c(1) have "b \<in> set (base_filesystem_args h rf @ concat (map (writable_ops h) (writable_roots rf)))" "mounts_over p b"
    using top_mount_mem by blast+
  then have "b \<in> set (concat (map (writable_ops h) (writable_roots rf)))"
    using base_no_bind [of h rf] assms(5) by (auto simp: list_all_iff)
  then obtain r where r: "r \<in> set (roots_for rf Acc_WRITE)" "\<not> ar_ephemeral r" "h_exists h (mount_path h (ar_root r))"
      "b = Bind (mount_path h (ar_root r)) (mount_path h (ar_root r))"
    using writable_bind [OF _ assms(5)] by blast
  have m: "mount_path h (ar_root r) = ar_root r" using literal_mount_path real r(1) by blast
  show ?thesis
  proof (rule that [OF r(1,2) _ _ carve c(2)])
    show "h_exists h (ar_root r)" "is_within p (ar_root r)" "ar_root r \<in> set (mounted_writable h rf)"
      using r m \<open>mounts_over p b\<close> mounted_root [OF r(1-3)] by (auto simp: mounts_over_def)
    show "\<forall>q\<in>set (roots_for rf Acc_DENY). \<not> is_within p (ar_root q)" using d(2) denied_over by blast
  qed
qed

lemma read_only_target:
  assumes "r \<in> set (roots_for rf Acc_WRITE)" "\<not> ar_ephemeral r" "e \<in> set (rf_entries rf)" "re_path e \<noteq> ar_root r"
    "is_within (re_path e) (ar_root r)" "effective_access rf (re_path e) = Acc_READ"
  shows "re_path e \<in> set (carve_targets r)"
  using assms by (auto simp: roots_for_def carve_targets_def narrower_def effective_for_entry_def)

lemma carve_masks:
  assumes "carve_out_args h rf (mounted_writable h rf) = Inr carve" "\<forall>m\<in>set carve. \<not> mounts_over p m" "clean p"
    and "s \<in> set (roots_for rf Acc_WRITE)" "\<not> ar_ephemeral s" "t \<in> set (carve_targets s)"
    and "clean t" "normalize_logical h t = Inr t" "\<exists>v\<in>set (mounted_writable h rf). is_within t v"
  shows "\<not> is_within p t"
  using carve_over [OF assms(1,4-6,9)] read_only_mount_over [OF _ assms(7,8,3)] assms(2) by blast

lemma join_within: "\<not> isabs n \<Longrightarrow> root \<noteq> [] \<Longrightarrow> is_within (path_join root n) root"
  by (auto simp: path_join_def is_within_def)

lemma metadata_masked:
  assumes "paths_literal h rf"
    and "carve_out_args h rf (mounted_writable h rf) = Inr carve" "\<forall>m\<in>set carve. \<not> mounts_over p m" "clean p"
    and s: "s \<in> set (roots_for rf Acc_WRITE)" "\<not> ar_ephemeral s" "h_exists h (ar_root s)" "n \<in> set (ar_protected s)"
  shows "\<not> is_within p (path_join (ar_root s) n)"
proof -
  obtain e where e: "e \<in> set (rf_entries rf)" "ar_root s = re_path e" using roots_for_entry [OF s(1)] by auto
  have "n \<in> set (rf_protected rf)" using s(1,4) by (auto simp: roots_for_def protected_names_for_def Let_def split: if_splits)
  then have t: "clean (path_join (ar_root s) n)" "normalize_logical h (path_join (ar_root s) n) = Inr (path_join (ar_root s) n)"
    and m: "mount_path h (ar_root s) = ar_root s" and n: "\<not> isabs n" "clean (ar_root s)"
    using assms(1) e by (auto simp: paths_literal_def list_all_iff literal_mount_path)
  have "ar_root s \<noteq> []" using n(2) by (auto simp: clean_def path_of_def)
  then have "is_within (path_join (ar_root s) n) (ar_root s)" using join_within n(1) by simp
  moreover have "ar_root s \<in> set (mounted_writable h rf)" using mounted_root [OF s(1,2), of h] m s(3) by simp
  moreover have "path_join (ar_root s) n \<in> set (carve_targets s)" using s(4) by (simp add: carve_targets_def)
  ultimately show ?thesis using carve_masks [OF assms(2-4) s(1,2) _ t] by blast
qed

text \<open>Where no root is reopened, what a bind shows is writable by the policy.\<close>

lemma literal_writes:
  assumes "bwrap_documented writes" and "is_restricted rf" and "paths_literal h rf" and "\<not> reopened rf p"
    and "mount_plan h rf = Inr ops" and "clean p" and "writes ops p"
  shows "effective_access rf p = Acc_WRITE \<and>
    (\<forall>r\<in>set (roots_for rf Acc_WRITE). \<not> ar_ephemeral r \<and> h_exists h (ar_root r) \<longrightarrow>
       (\<forall>n\<in>set (ar_protected r). \<not> is_within p (path_join (ar_root r) n)))"
proof -
  obtain b where b: "top_mount ops p = Some b" "is_bind b" using assms(1,7) unfolding bwrap_documented_def by metis
  obtain r carve where r: "r \<in> set (roots_for rf Acc_WRITE)" "\<not> ar_ephemeral r" "h_exists h (ar_root r)" "is_within p (ar_root r)"
    and carve: "carve_out_args h rf (mounted_writable h rf) = Inr carve" "\<forall>m\<in>set carve. \<not> mounts_over p m"
    and deny: "\<forall>q\<in>set (roots_for rf Acc_DENY). \<not> is_within p (ar_root q)" and mounted: "ar_root r \<in> set (mounted_writable h rf)"
    using bind_shows [OF assms(3-5) b] by metis
  have lit: "clean (re_path e)" "normalize_logical h (re_path e) = Inr (re_path e)" if "e \<in> set (rf_entries rf)" for e
    using assms(3) that by (auto simp: paths_literal_def list_all_iff)
  have cl: "list_all (clean \<circ> re_path) (rf_entries rf)" using lit by (auto simp: list_all_iff)
  obtain w where w: "w \<in> set (rf_entries rf)" "ar_root r = re_path w" "effective_access rf (re_path w) = Acc_WRITE"
    using roots_for_entry [OF r(1)] by auto
  have "effective_access rf p = Acc_WRITE"
  proof (rule effective_cases [OF assms(2), of p])
    assume "\<forall>e\<in>set (rf_entries rf). \<not> covers p e"
    then show ?thesis using w r(4) by (auto simp: covers_def)
  next
    fix e assume e: "narrowest (rf_entries rf) p e" "effective_access rf p = re_access e"
    have mem: "e \<in> set (rf_entries rf)" "is_within p (re_path e)" using e(1) by (auto simp: narrowest_def covers_def)
    have at: "effective_access rf (re_path e) = re_access e" by (rule narrowest_at_entry [OF assms(2) cl assms(6) e(1)])
    have "rank w \<le> rank e" using e(1) w r(4) by (auto simp: narrowest_def covers_def)
    then have inside: "is_within (re_path e) (re_path w)"
      using paths.deeper_within [OF assms(6) lit(1) [OF mem(1)] lit(1) [OF w(1)] mem(2)] r(4) w(2) by (auto simp: rank_le)
    show ?thesis
    proof (cases "re_access e")
      case Acc_READ
      then have "re_path e \<noteq> ar_root r" using at w by auto
      then have "re_path e \<in> set (carve_targets r)"
        using read_only_target [OF r(1,2) mem(1)] inside w(2) at Acc_READ by simp
      then have False using carve_masks [OF carve assms(6) r(1,2) _ lit [OF mem(1)]] mounted inside w(2) mem(2) by auto
      then show ?thesis ..
    next
      case Acc_DENY
      then have "\<exists>q\<in>set (roots_for rf Acc_DENY). ar_root q = re_path e"
        using at mem(1) by (force simp: roots_for_def effective_for_entry_def)
      then show ?thesis using deny mem(2) by auto
    qed (use e in simp)
  qed
  then show ?thesis using metadata_masked [OF assms(3) carve assms(6)] by blast
qed

text \<open>In every layout, the bind that shows is that of a writable root, at the path where the root is mounted.\<close>

lemma writes_in_root:
  assumes "bwrap_documented writes" and "mount_plan h rf = Inr ops" and "writes ops p"
  shows "\<exists>r\<in>set (roots_for rf Acc_WRITE). \<not> ar_ephemeral r \<and> is_within p (mount_path h (ar_root r))"
proof -
  obtain b where "top_mount ops p = Some b" and bind: "is_bind b" using assms(1,3) unfolding bwrap_documented_def by metis
  then have b: "b \<in> set ops" "mounts_over p b" using top_mount_mem by blast+
  obtain carve where carve: "carve_out_args h rf (mounted_writable h rf) = Inr carve"
    and ops: "ops = base_filesystem_args h rf @ concat (map (writable_ops h) (writable_roots rf)) @ carve @
                denied_args h rf (mounted_writable h rf)"
    using assms(2) by (auto simp: mount_plan_def sum_bind_Inr)
  have "b \<notin> set (base_filesystem_args h rf)" "b \<notin> set carve"
    using base_no_bind [of h rf] carve_no_bind [OF carve] bind by (auto simp: list_all_iff)
  then consider "b \<in> set (concat (map (writable_ops h) (writable_roots rf)))" | "b \<in> set (denied_args h rf (mounted_writable h rf))"
    using b(1) ops by auto
  then show ?thesis
  proof cases
    case 1
    then show ?thesis using writable_bind [OF _ bind] b(2) by (fastforce simp: mounts_over_def)
  next
    case 2
    then obtain w where "w \<in> set (mounted_writable h rf)" "b = Bind w w" using bind by (rule denied_bind)
    then show ?thesis using b(2) by (auto simp: mounted_writable_def writable_roots_def mounts_over_def)
  qed
qed

text \<open>
  C18. Where a command in the Linux sandbox can write. Take any bubblewrap that treats its arguments as documented, and a host file that a
  command started with the generated mounts can write. Whatever the layout, the file lies in a writable root of the policy, at the place
  where the root is mounted (the target of a symbolic link). If moreover the policy is restricted, its paths go through no symbolic
  link, and the file is not in a reopened root, that is, in a writable root beneath a denied directory, then the policy gives the path
  itself the mode write, and the file is not in a protected metadata directory of any writable root that exists on the host. Both
  conditions are needed, and the second leaves out the workspace of the desktop's default layout: the next section shows what happens there.
\<close>

theorem sandbox_never_widens:
  assumes "bwrap_documented writes" and "mount_plan h rf = Inr ops" and "writes ops p"
  shows "(\<exists>r\<in>set (roots_for rf Acc_WRITE). \<not> ar_ephemeral r \<and> is_within p (mount_path h (ar_root r))) \<and>
    (is_restricted rf \<and> paths_literal h rf \<and> clean p \<and> \<not> reopened rf p \<longrightarrow>
       effective_access rf p = Acc_WRITE \<and>
       (\<forall>r\<in>set (roots_for rf Acc_WRITE). \<not> ar_ephemeral r \<and> h_exists h (ar_root r) \<longrightarrow>
          (\<forall>n\<in>set (ar_protected r). \<not> is_within p (path_join (ar_root r) n))))"
proof (rule conjI)
  show "\<exists>r\<in>set (roots_for rf Acc_WRITE). \<not> ar_ephemeral r \<and> is_within p (mount_path h (ar_root r))"
    using assms by (rule writes_in_root)
qed (use literal_writes assms in blast)

text \<open>A bubblewrap that does what is documented and nothing more.\<close>

definition bind_view :: "mount_op list \<Rightarrow> string \<Rightarrow> bool" where
  "bind_view ops p = (case top_mount ops p of None \<Rightarrow> False | Some m \<Rightarrow> is_bind m)"

lemma bind_view_documented: "bwrap_documented bind_view"
  by (auto simp: bwrap_documented_def bind_view_def split: option.splits)

definition grant_decision :: access_decision where
  "grant_decision =
     \<lparr>ad_approval_mode = ''auto'', ad_unconfined = False, ad_writable_roots = [''/ws'', ''/p''],
      ad_readable_roots = [''/p/ro''], ad_denied_paths = [''/h/.hugagent''], ad_network_allowed = False, ad_writable_scratch = False\<rparr>"

definition plain_plan :: "access_decision \<Rightarrow> resolved_fs" where
  "plain_plan d = projr (policy_resolve plain_host repo_context (sp_filesystem (build_policy d)))"

theorem sandbox_never_widens_witness:
  "\<not> bind_view (projr (mount_plan plain_host (plain_plan grant_decision))) ''/p/ro/x'' \<and>
   \<not> bind_view (projr (mount_plan plain_host (plain_plan grant_decision))) ''/p/.git/config'' \<and>
   \<not> bind_view (projr (mount_plan plain_host (plain_plan desktop_decision))) ''/h/.hugagent/token'' \<and>
   bind_view (projr (mount_plan plain_host (plain_plan grant_decision))) ''/p/x''"
proof -
  let ?rf = "plain_plan grant_decision" and ?ops = "projr (mount_plan plain_host (plain_plan grant_decision))"
  let ?rd = "plain_plan desktop_decision" and ?od = "projr (mount_plan plain_host (plain_plan desktop_decision))"
  have "\<not> isl (mount_plan plain_host ?rf)" "\<not> isl (mount_plan plain_host ?rd)" by code_simp+
  then have ops: "mount_plan plain_host ?rf = Inr ?ops" "mount_plan plain_host ?rd = Inr ?od" by simp_all
  have h: "is_restricted ?rf" "paths_literal plain_host ?rf" "\<not> reopened ?rf ''/p/ro/x''" "\<not> reopened ?rf ''/p/.git/config''" by code_simp+
  have d: "list_all (\<lambda>r. \<not> is_within ''/h/.hugagent/token'' (mount_path plain_host (ar_root r))) (roots_for ?rd Acc_WRITE)" by code_simp
  have c: "clean ''/p/ro/x''" "clean ''/p/.git/config''" by code_simp+
  have "effective_access ?rf ''/p/ro/x'' \<noteq> Acc_WRITE" by code_simp
  moreover have "list_ex (\<lambda>r. \<not> ar_ephemeral r \<and> h_exists plain_host (ar_root r) \<and>
      list_ex (\<lambda>n. is_within ''/p/.git/config'' (path_join (ar_root r) n)) (ar_protected r)) (roots_for ?rf Acc_WRITE)" by code_simp
  moreover have "bind_view ?ops ''/p/x''" by code_simp
  moreover have "\<not> bind_view ?od ''/h/.hugagent/token''"
    using sandbox_never_widens [OF bind_view_documented ops(2)] d by (auto simp: list_all_iff)
  moreover note W = sandbox_never_widens [OF bind_view_documented ops(1)]
  ultimately show ?thesis
    using W [of "''/p/ro/x''"] W [of "''/p/.git/config''"] h c by (auto simp: list_ex_iff)
qed

section \<open>Where the mounts part from the policy\<close>

lemma documented_bind:
  "bwrap_documented writes \<Longrightarrow> top_mount ops p = Some (Bind d d) \<Longrightarrow> Remount_ro d \<notin> set ops \<Longrightarrow> writes ops p"
  by (simp add: bwrap_documented_def)

lemma documented_no_bind: "bwrap_documented writes \<Longrightarrow> top_mount ops p = Some m \<Longrightarrow> \<not> is_bind m \<Longrightarrow> \<not> writes ops p"
  unfolding bwrap_documented_def by (metis option.inject)

text \<open>
  The condition on reopened roots is needed, and the desktop's own layout violates it: the workspace lies in
  the state directory, which is denied. The mask over the state directory is mounted after the read-only
  mounts of the protected names, and the workspace is then bound into it once more, without them. With
  the arguments generated for that layout a command can write \<open>.git\<close> of the workspace, which the policy protects.
\<close>

theorem reopened_workspace_unprotected:
  assumes "bwrap_documented writes"
  shows "writes (projr (mount_plan plain_host (plain_plan desktop_decision))) ''/h/.hugagent/workspace/.git/config'' \<and>
    ''.git'' \<in> set (protected_names_for (plain_plan desktop_decision) ''/h/.hugagent/workspace'')"
proof
  let ?ops = "projr (mount_plan plain_host (plain_plan desktop_decision))" and ?ws = "''/h/.hugagent/workspace''"
  have "top_mount ?ops ''/h/.hugagent/workspace/.git/config'' = Some (Bind ?ws ?ws)" "Remount_ro ?ws \<notin> set ?ops"
    by code_simp+
  then show "writes ?ops ''/h/.hugagent/workspace/.git/config''" by (rule documented_bind [OF assms])
  show "''.git'' \<in> set (protected_names_for (plain_plan desktop_decision) ?ws)" by code_simp
qed

theorem reopened_workspace_unprotected_witness:
  "bind_view (projr (mount_plan plain_host (plain_plan desktop_decision))) ''/h/.hugagent/workspace/.git/config''"
  using reopened_workspace_unprotected [OF bind_view_documented] by blast

text \<open>
  The condition on symbolic links is needed as well: a writable root that is a link is mounted at its target, while its
  protected names are looked for under the link and found outside every mounted root, so they stay writable.
\<close>

definition linked_host :: os_host where
  "linked_host = plain_host\<lparr>h_realpath := \<lambda>p. if is_within p ''/h/ws'' then ''/data/ws'' @ drop 5 p else p\<rparr>"

definition link_decision :: access_decision where
  "link_decision = grant_decision\<lparr>ad_writable_roots := [''/h/ws''], ad_readable_roots := []\<rparr>"

theorem linked_root_unprotected:
  assumes "bwrap_documented writes"
  shows "writes (projr (mount_plan linked_host (plain_plan link_decision))) ''/data/ws/.git/config''"
proof -
  let ?ops = "projr (mount_plan linked_host (plain_plan link_decision))"
  have "top_mount ?ops ''/data/ws/.git/config'' = Some (Bind ''/data/ws'' ''/data/ws'')" "Remount_ro ''/data/ws'' \<notin> set ?ops"
    by code_simp+
  then show ?thesis by (rule documented_bind [OF assms])
qed

text \<open>
  In the other direction the mounts can be stricter than the policy: a writable root beneath a read-only one beneath a
  writable one is covered by the read-only mount, which comes after all binds.
\<close>

definition nested_decision :: access_decision where
  "nested_decision = grant_decision\<lparr>ad_writable_roots := [''/p'', ''/p/ro/rw'']\<rparr>"

theorem nested_root_not_writable:
  assumes "bwrap_documented writes"
  shows "\<not> writes (projr (mount_plan plain_host (plain_plan nested_decision))) ''/p/ro/rw/x'' \<and>
    effective_access (plain_plan nested_decision) ''/p/ro/rw/x'' = Acc_WRITE"
proof
  let ?ops = "projr (mount_plan plain_host (plain_plan nested_decision))"
  have "top_mount ?ops ''/p/ro/rw/x'' = Some (Ro_bind ''/p/ro'' ''/p/ro'')" by code_simp
  then show "\<not> writes ?ops ''/p/ro/rw/x''" by (rule documented_no_bind [OF assms]) simp
  show "effective_access (plain_plan nested_decision) ''/p/ro/rw/x'' = Acc_WRITE" by code_simp
qed

text \<open>
  A launch is either a confined one or an error: the runner is the program started, the user, process and
  IPC namespaces are always separate, and the network is separate exactly when the policy restricts it.
\<close>

theorem launch_is_confined:
  assumes "bwrap_build h runner pol ctx = Inr launch"
  shows "hd (sl_argv_prefix launch) = runner \<and> runner \<noteq> [] \<and> last (sl_argv_prefix launch) = ''--'' \<and>
    (\<exists>rf ops. policy_resolve h ctx (sp_filesystem pol) = Inr rf \<and> mount_plan h rf = Inr ops \<and>
       sl_argv_prefix launch = [runner] @ concat (map render ops) @ namespace_args (sp_network pol) @ [''--'']) \<and>
    (''--unshare-net'' \<in> set (namespace_args (sp_network pol)) \<longleftrightarrow> sp_network pol = Net_RESTRICTED)"
  using assms
  by (cases "sp_network pol")
     (auto simp: bwrap_build_def bwrap_launch_def sum_bind_Inr Let_def bwrap_unavailable_reason_def namespace_args_def
        network_is_enabled_def split: if_splits)

end
