(* ===== verification/Tool_Permissions.thy ===== *)
theory Tool_Permissions
  imports Confirm_Gate Local_Grants Workspace_Paths Bwrap
begin

text \<open>
  The permission gateway of the governed tools, \<open>core/llm/tool_permissions.py\<close>: the user's preset, the declarations that turn a
  tool call into resource intents, the decision on each intent, and the ticket that the execution boundary asks for.

  A confirmation is a call of the gate of \<open>Confirm_Gate\<close>: the registry is threaded through, and \<open>ge_wait\<close> is whatever
  the process does while the call is suspended (answers, other calls, timeouts), with whether the call is
  cancelled. What the gateway reads from its surroundings is the record \<open>perm_env\<close>; \<open>pv_loads\<close> and \<open>pv_hash\<close> are
  \<open>json.loads\<close> and the hash of a JSON value. POSIX only. The wording of messages and summaries, logging and the audit
  dictionaries are not modelled; of a payload the model keeps what kind of refusal it is.
\<close>

section \<open>Presets\<close>

definition approval_modes :: "string list" where
  "approval_modes = [''ask'', ''auto'', ''full'']"

definition destructive_ops :: "string list" where
  "destructive_ops = [''delete'', ''cron_delete'']"

definition normalize_approval_mode :: "(json \<Rightarrow> string) \<Rightarrow> json \<Rightarrow> string" where
  "normalize_approval_mode str_of raw =
     (let mode = map lower (strip (json_str str_of (json_or raw (JStr []))))
      in if mode \<in> set approval_modes then mode else ''ask'')"

text \<open>\<open>stored\<close> is the user's saved setting, \<open>None\<close> when reading it fails.\<close>

definition resolve_approval_mode :: "(json \<Rightarrow> string) \<Rightarrow> json option \<Rightarrow> json \<Rightarrow> string option \<Rightarrow> string" where
  "resolve_approval_mode str_of stored explicit user_id =
     (if explicit \<noteq> JNull then normalize_approval_mode str_of explicit
      else if \<not> has_text user_id then ''ask''
      else case stored of None \<Rightarrow> ''ask'' | Some v \<Rightarrow> normalize_approval_mode str_of v)"

definition preset_answers :: "string \<Rightarrow> bool \<Rightarrow> bool" where
  "preset_answers mode dangerous = (if mode = ''full'' then True else mode = ''auto'' \<and> \<not> dangerous)"

definition preset_answers_for_user :: "(json \<Rightarrow> string) \<Rightarrow> json option \<Rightarrow> string option \<Rightarrow> string \<Rightarrow> bool \<Rightarrow> bool" where
  "preset_answers_for_user str_of stored user_id op dangerous =
     preset_answers (resolve_approval_mode str_of stored JNull user_id) (dangerous \<or> op \<in> set destructive_ops)"

section \<open>Data\<close>

record tool_call =
  tc_name :: string
  tc_id :: string
  tc_input :: json

record gate_env =
  ge_settings :: "confirm_settings option"
  ge_now :: time
  ge_fresh :: "registry \<Rightarrow> string"
  ge_wait :: "suspended \<Rightarrow> registry \<Rightarrow> registry \<times> bool"

record perm_env =
  pv_host :: os_host
  pv_ws :: ws_env
  pv_install :: install_env
  pv_store :: store_file
  pv_gate :: gate_env
  pv_runner :: string
  pv_str :: "json \<Rightarrow> string"
  pv_loads :: "string \<Rightarrow> json option"
  pv_hash :: "dict \<Rightarrow> string"

record permission_runtime =
  rt_chat_id :: "string option"
  rt_user_id :: "string option"
  rt_interactive :: bool
  rt_approval_available :: bool
  rt_default_allow :: bool
  rt_approval_mode :: string
  rt_session :: "string option"

record permission_intent =
  in_domain :: string
  in_action :: string
  in_target :: string
  in_summary :: string
  in_op :: string
  in_kind :: string
  in_on_no_ui :: string

definition mk_intent :: "string \<Rightarrow> string \<Rightarrow> string \<Rightarrow> string \<Rightarrow> permission_intent" where
  "mk_intent domain action target summary =
     \<lparr>in_domain = domain, in_action = action, in_target = target, in_summary = summary, in_op = [], in_kind = [], in_on_no_ui = ''deny''\<rparr>"

record local_auth =
  la_command :: string
  la_mode :: string
  la_access :: access_decision
  la_workspace :: string

record ticket =
  tk_tool :: string
  tk_call :: string
  tk_hash :: string
  tk_spec :: string
  tk_intents :: "permission_intent list"
  tk_command :: "local_auth option"
  tk_reasons :: "string list"
  tk_active :: bool

datatype payload = Blocked "string list" | Gated gate_result

record outcome =
  oc_proceed :: bool
  oc_ticket :: "ticket option"
  oc_payload :: "payload option"
  oc_decision :: string

text \<open>What leaves the gateway as an exception.\<close>

datatype perm_error = Perm_policy policy_error | Perm_cancelled | Perm_untyped

definition call_args :: "perm_env \<Rightarrow> tool_call \<Rightarrow> dict" where
  "call_args e tc =
     (case (case json_or (tc_input tc) (JStr ''{}'') of
              JStr s \<Rightarrow> (case pv_loads e s of Some v \<Rightarrow> v | None \<Rightarrow> JObj [(''_raw'', JStr s)])
            | v \<Rightarrow> v) of
        JObj d \<Rightarrow> d
      | v \<Rightarrow> [(''_value'', v)])"

definition canonical_path :: "os_host \<Rightarrow> string \<Rightarrow> string" where
  "canonical_path h p = h_realpath h (abspath h (h_expanduser h p))"

section \<open>Declarations\<close>

datatype resolver =
    Allow_tool
  | Deny_tool string
  | Path_tool "(string \<times> string) list" string string string string
  | Command_tool

record perm_spec =
  ps_key :: string
  ps_resolver :: resolver

definition allow_tool :: perm_spec where
  "allow_tool = \<lparr>ps_key = ''allow'', ps_resolver = Allow_tool\<rparr>"

definition deny_tool :: "string \<Rightarrow> perm_spec" where
  "deny_tool reason = \<lparr>ps_key = ''deny:'' @ reason, ps_resolver = Deny_tool reason\<rparr>"

definition local_path_tool :: "(string \<times> string) list \<Rightarrow> string \<Rightarrow> string \<Rightarrow> string \<Rightarrow> string \<Rightarrow> perm_spec" where
  "local_path_tool path_specs tool myspace_op skip_if_arg default_path =
     \<lparr>ps_key = ''path:'' @ str_join '','' (map (\<lambda>(a, m). a @ '':'' @ m) path_specs) @
        (if myspace_op = [] then [] else '':myspace:'' @ myspace_op) @
        (if default_path = [] then [] else '':default:'' @ default_path),
      ps_resolver = Path_tool path_specs tool myspace_op skip_if_arg default_path\<rparr>"

definition local_command_tool :: perm_spec where
  "local_command_tool = \<lparr>ps_key = ''local-command:command'', ps_resolver = Command_tool\<rparr>"

definition builtin_tools :: "(string \<times> perm_spec) list" where
  "builtin_tools =
     [(''Read'', local_path_tool [(''file_path'', ''read'')] ''Read'' [] [] []),
      (''Write'', local_path_tool [(''file_path'', ''write'')] ''Write'' ''write'' [] []),
      (''Edit'', local_path_tool [(''file_path'', ''write'')] ''Edit'' ''edit'' [] []),
      (''Glob'', local_path_tool [(''path'', ''read'')] ''Glob'' [] [] ''/workspace''),
      (''Grep'', local_path_tool [(''path'', ''read'')] ''Grep'' [] [] ''/workspace''),
      (''read_image'', local_path_tool [(''file_path'', ''read'')] ''read_image'' [] ''file_id'' []),
      (''Delete'', local_path_tool [(''path'', ''write'')] ''Delete'' ''delete'' [] []),
      (''Move'', local_path_tool [(''src_path'', ''write''), (''dst_path'', ''write'')] ''Move'' ''move'' [] []),
      (''CreateFolder'', local_path_tool [(''path'', ''write'')] ''CreateFolder'' ''mkdir'' [] []),
      (''bash'', local_command_tool), (''Bash'', local_command_tool),
      (''sandbox_put_artifact'', local_path_tool [(''dest_path'', ''write'')] ''sandbox_put_artifact'' [] [] []),
      (''sandbox_get_artifact'', local_path_tool [(''src_path'', ''read'')] ''sandbox_get_artifact'' [] [] []),
      (''run_job'', local_path_tool [(''script_path'', ''read''), (''dest_path'', ''write'')] ''run_job'' [] [] [])]"

definition builtin_tool_permission :: "string \<Rightarrow> perm_spec option" where
  "builtin_tool_permission tool_name = dict_get tool_name builtin_tools"

definition mcp_tool_permission :: "string \<Rightarrow> string \<Rightarrow> dict \<Rightarrow> perm_spec option" where
  "mcp_tool_permission server tool config = None"

definition is_myspace_target :: "ws_env \<Rightarrow> string \<Rightarrow> string \<Rightarrow> string option \<Rightarrow> bool" where
  "is_myspace_target w logical physical user_id = (under ''/myspace'' logical \<or> is_myspace_physical w physical user_id)"

definition text_arg :: "perm_env \<Rightarrow> string \<Rightarrow> dict \<Rightarrow> string" where
  "text_arg e k args = strip (json_str (pv_str e) (json_or (json_get k args) (JStr [])))"

definition path_summary :: "string \<Rightarrow> string \<Rightarrow> string" where
  "path_summary tool logical = tool @ '' '' @ logical"

text \<open>\<open>runtime.sandbox_session_id or runtime.chat_id\<close>.\<close>

definition session_of :: "permission_runtime \<Rightarrow> string option" where
  "session_of rt = (if has_text (rt_session rt) then rt_session rt else rt_chat_id rt)"

text \<open>The logical and physical path of every argument that is given, with its access.\<close>

fun arg_paths ::
    "perm_env \<Rightarrow> permission_runtime \<Rightarrow> dict \<Rightarrow> string \<Rightarrow> (string \<times> string) list \<Rightarrow> ws_error + (string \<times> string \<times> string) list" where
  "arg_paths e rt args dflt [] = Inr []"
| "arg_paths e rt args dflt ((arg, mode) # rest) =
     (let given = text_arg e arg args; logical = (if given = [] then dflt else given) in
      if logical = [] then arg_paths e rt args [] rest
      else sum_bind (to_physical_path (pv_host e) (pv_ws e) logical (rt_user_id rt) (session_of rt)) (\<lambda>physical.
             sum_bind (arg_paths e rt args [] rest) (\<lambda>ps. Inr ((logical, physical, mode) # ps))))"

definition resolve_intents :: "perm_env \<Rightarrow> permission_runtime \<Rightarrow> dict \<Rightarrow> resolver \<Rightarrow> ws_error + permission_intent list" where
  "resolve_intents e rt args res =
     (case res of
        Allow_tool \<Rightarrow> Inr []
      | Deny_tool reason \<Rightarrow> Inr [mk_intent ''deny'' ''deny'' [] reason]
      | Command_tool \<Rightarrow>
          (let command = text_arg e ''command'' args in
           Inr (if command = [] then []
                else [(mk_intent ''local_command'' ''execute'' command (''run '' @ take 200 command))\<lparr>in_op := ''local_exec'', in_kind := ''local_cmd''\<rparr>]))
      | Path_tool specs tool myspace_op skip_if_arg default_path \<Rightarrow>
          if skip_if_arg \<noteq> [] \<and> text_arg e skip_if_arg args \<noteq> [] then Inr []
          else sum_bind (arg_paths e rt args default_path specs) (\<lambda>ps.
            Inr (map (\<lambda>(logical, physical, mode). mk_intent ''local_path'' mode physical (path_summary tool logical)) ps @
              (case ps of
                 [] \<Rightarrow> []
               | (logical, physical, _) # _ \<Rightarrow>
                   if myspace_op \<noteq> [] \<and> is_myspace_target (pv_ws e) logical physical (rt_user_id rt)
                   then [(mk_intent ''myspace'' ''write'' logical (path_summary tool logical))\<lparr>in_op := myspace_op, in_kind := ''myspace''\<rparr>]
                   else []))))"

section \<open>The registry of governed tools\<close>

type_synonym tool_registry = "(string \<times> perm_spec) list"

datatype register_error = Empty_name | Conflict string string

definition register_tool :: "string \<Rightarrow> perm_spec \<Rightarrow> tool_registry \<Rightarrow> register_error + tool_registry" where
  "register_tool tool_name spec reg =
     (let name = strip tool_name in
      if name = [] then Inl Empty_name
      else case dict_get name reg of
             Some previous \<Rightarrow> if ps_key previous \<noteq> ps_key spec then Inl (Conflict (ps_key previous) (ps_key spec)) else Inr (dict_put name spec reg)
           | None \<Rightarrow> Inr (dict_put name spec reg))"

section \<open>Tickets\<close>

definition ticket_matches :: "perm_env \<Rightarrow> ticket \<Rightarrow> tool_call \<Rightarrow> bool" where
  "ticket_matches e t tc = (tk_tool t = tc_name tc \<and> tk_call t = tc_id tc \<and> tk_hash t = pv_hash e (call_args e tc))"

definition authorizes_path :: "os_host \<Rightarrow> ticket \<Rightarrow> string \<Rightarrow> string \<Rightarrow> bool" where
  "authorizes_path h t path action =
     list_ex (\<lambda>i. in_domain i = ''local_path'' \<and> canonical_path h (in_target i) = canonical_path h path \<and>
       (in_action i = action \<or> (in_action i = ''write'' \<and> action = ''read''))) (tk_intents t)"

text \<open>The guard in front of file access: \<open>True\<close> when it does not raise. \<open>cur\<close> is the ticket of the context.\<close>

definition require_local_path_permission :: "perm_env \<Rightarrow> ticket option \<Rightarrow> string \<Rightarrow> string \<Rightarrow> bool" where
  "require_local_path_permission e cur path action =
     (\<not> we_local (pv_ws e) \<or>
      (case cur of None \<Rightarrow> False | Some t \<Rightarrow> tk_active t \<and> authorizes_path (pv_host e) t path action))"

definition current_local_command_authorization :: "ticket option \<Rightarrow> string \<Rightarrow> local_auth option" where
  "current_local_command_authorization cur command =
     (case cur of
        None \<Rightarrow> None
      | Some t \<Rightarrow>
          if \<not> tk_active t then None
          else (case tk_command t of None \<Rightarrow> None | Some a \<Rightarrow> if la_command a = command then Some a else None))"

definition confined :: "local_auth \<Rightarrow> bool" where
  "confined a = (\<not> ad_unconfined (la_access a))"

datatype confine_error = Confinement_unavailable sandbox_error | Confine_raises sandbox_error

text \<open>\<open>LocalCommandAuthorization.confine\<close> with the Linux backend.\<close>

definition local_confine :: "perm_env \<Rightarrow> local_auth \<Rightarrow> confine_error + sandbox_launch option" where
  "local_confine e a =
     (if \<not> confined a then Inr None
      else case build_context (pv_host e) (pv_install e) (la_workspace a) None of
             Inl er \<Rightarrow> Inl (Confine_raises er)
           | Inr ctx \<Rightarrow>
               (case bwrap_build (pv_host e) (pv_runner e) (build_policy (la_access a)) ctx of
                  Inr launch \<Rightarrow> Inr (Some launch)
                | Inl (Sandbox_unavailable m) \<Rightarrow> Inl (Confinement_unavailable (Sandbox_unavailable m))
                | Inl (Sandbox_unenforceable m) \<Rightarrow> Inl (Confinement_unavailable (Sandbox_unenforceable m))
                | Inl er \<Rightarrow> Inl (Confine_raises er)))"

section \<open>Sandbox scope of a command\<close>

definition too_broad_write_root :: "os_host \<Rightarrow> string \<Rightarrow> bool" where
  "too_broad_write_root h path =
     (let resolved = canonical_path h path
      in resolved = dirname resolved \<or> resolved = canonical_path h (h_expanduser h ''~''))"

definition one_shot_write_root :: "os_host \<Rightarrow> string \<Rightarrow> string option" where
  "one_shot_write_root h path =
     (let target = canonical_path h path; parent = dirname target in
      if h_exists h target then Some target
      else if parent = target \<or> \<not> h_isdir h parent then None
      else if too_broad_write_root h parent then None
      else Some parent)"

definition physical_of :: "perm_env \<Rightarrow> permission_runtime \<Rightarrow> string \<Rightarrow> string" where
  "physical_of e rt logical =
     (case to_physical_path (pv_host e) (pv_ws e) logical (rt_user_id rt) (session_of rt) of Inl _ \<Rightarrow> logical | Inr p \<Rightarrow> p)"

definition admit :: "os_host \<Rightarrow> bool \<Rightarrow> string list \<Rightarrow> string \<Rightarrow> string list" where
  "admit h system_write_allowed writable candidate =
     (if candidate = [] \<or> candidate \<in> set writable then writable
      else if \<not> system_write_allowed \<and> intersects_system_write_area h candidate then writable
      else writable @ [candidate])"

definition local_command_authorization ::
    "perm_env \<Rightarrow> permission_runtime \<Rightarrow> string \<Rightarrow> string \<Rightarrow> grant list \<Rightarrow> policy \<Rightarrow> string list \<Rightarrow> local_auth" where
  "local_command_authorization e rt command mode gs pol targets =
     (let h = pv_host e; workspace = we_root (pv_ws e);
          may_write = (po_workspace_write pol \<noteq> ''block'');
          sys = (disposition_for pol ''system_write'' = ''allow'');
          granted = filter (\<lambda>g. gr_mode g = ''readwrite'' \<and> may_write) gs;
          w0 = (if may_write then [workspace] else []);
          w1 = foldl (admit h sys) w0 (map gr_path granted);
          roots = concat (map (\<lambda>t. case one_shot_write_root h (physical_of e rt t) of None \<Rightarrow> [] | Some root \<Rightarrow> [root]) targets);
          w2 = (if may_write then foldl (admit h sys) w1 roots else w1)
      in \<lparr>la_command = command, la_mode = mode,
          la_access = \<lparr>ad_approval_mode = mode, ad_unconfined = (mode = ''full''), ad_writable_roots = w2,
            ad_readable_roots = fromkeys (map gr_path (filter (\<lambda>g. \<not> (gr_mode g = ''readwrite'' \<and> may_write)) gs)),
            ad_denied_paths = protected_read_paths (pv_install e),
            ad_network_allowed = (disposition_for pol ''network'' \<noteq> ''block''),
            ad_writable_scratch = may_write\<rparr>,
          la_workspace = workspace\<rparr>)"

section \<open>Decisions\<close>

definition fail_closed_policy :: policy where
  "fail_closed_policy =
     \<lparr>po_out_of_scope = ''block'', po_workspace_write = ''block'',
      po_danger = map (\<lambda>c. (c, ''block'')) [''delete'', ''system_write'', ''network'', ''privilege'']\<rparr>"

definition safe_local_security :: "perm_env \<Rightarrow> string \<Rightarrow> perm_error + string \<times> grant list \<times> policy" where
  "safe_local_security e mode =
     (case grants_for_gate (pv_store e) of
        Inl Untyped_grant \<Rightarrow> Inl Perm_untyped
      | Inl _ \<Rightarrow> Inr (''fail_closed'', [], fail_closed_policy)
      | Inr gs \<Rightarrow>
          (case policy_for_gate mode (pv_store e) of
             Inl _ \<Rightarrow> Inr (''fail_closed'', [], fail_closed_policy)
           | Inr pol \<Rightarrow> Inr (mode, gs, pol)))"

definition answers_for_user :: "permission_runtime \<Rightarrow> bool \<Rightarrow> bool" where
  "answers_for_user rt dangerous = (if rt_default_allow rt then True else preset_answers (rt_approval_mode rt) dangerous)"

definition has_ui :: "permission_runtime \<Rightarrow> bool" where
  "has_ui rt = (rt_approval_available rt \<and> has_text (rt_chat_id rt))"

definition no_ui_pass_through :: "permission_runtime \<Rightarrow> permission_intent \<Rightarrow> bool" where
  "no_ui_pass_through rt i = (if has_ui rt then False else in_on_no_ui i = ''allow'')"

text \<open>One call of \<open>confirm.gate\<close>, from entering to its answer; \<open>None\<close> when the call is cancelled.\<close>

definition gate_call ::
    "perm_env \<Rightarrow> string option \<Rightarrow> string \<Rightarrow> string \<Rightarrow> bool \<Rightarrow> string \<Rightarrow> string \<Rightarrow> registry \<Rightarrow> gate_result option \<times> registry" where
  "gate_call e chat op path interactive summary kind r =
     (let g = pv_gate e in
      case gate_enter (pv_host e) (ge_settings g) (ge_now g) (ge_fresh g r) chat op path interactive summary kind r of
        (Inl res, r1) \<Rightarrow> (Some res, r1)
      | (Inr t, r1) \<Rightarrow> (case ge_wait g t r1 of (r2, cancelled) \<Rightarrow> gate_resume t cancelled r2))"

record intent_result =
  ir_payload :: "payload option"
  ir_reasons :: "string list"
  ir_command :: "local_auth option"

definition cleared :: "string list \<Rightarrow> intent_result" where
  "cleared reasons = \<lparr>ir_payload = None, ir_reasons = reasons, ir_command = None\<rparr>"

definition refused :: "payload \<Rightarrow> string list \<Rightarrow> intent_result" where
  "refused p reasons = \<lparr>ir_payload = Some p, ir_reasons = reasons, ir_command = None\<rparr>"

definition ask ::
    "perm_env \<Rightarrow> permission_runtime \<Rightarrow> string \<Rightarrow> string \<Rightarrow> bool \<Rightarrow> string \<Rightarrow> string \<Rightarrow> string list \<Rightarrow> registry \<Rightarrow>
     (perm_error + intent_result) \<times> registry" where
  "ask e rt op path interactive summary kind reasons r =
     (case gate_call e (rt_chat_id rt) op path interactive summary kind r of
        (None, r1) \<Rightarrow> (Inl Perm_cancelled, r1)
      | (Some Gate_pass, r1) \<Rightarrow> (Inr (cleared reasons), r1)
      | (Some g, r1) \<Rightarrow> (Inr (refused (Gated g) reasons), r1))"

definition preset_reason :: "permission_runtime \<Rightarrow> string" where
  "preset_reason rt = ''approved_by_preset:'' @ rt_approval_mode rt"

definition authorize_local_path ::
    "perm_env \<Rightarrow> permission_runtime \<Rightarrow> permission_intent \<Rightarrow> registry \<Rightarrow> (perm_error + intent_result) \<times> registry" where
  "authorize_local_path e rt i r =
     (if \<not> we_local (pv_ws e) then (Inr (cleared []), r)
      else case safe_local_security e (rt_approval_mode rt) of
        Inl er \<Rightarrow> (Inl er, r)
      | Inr (mode, gs, pol) \<Rightarrow>
          (case evaluate_local_path (pv_host e) (in_target i) (in_action i) gs pol (we_root (pv_ws e)) of
             Inl pe \<Rightarrow> (Inl (Perm_policy pe), r)
           | Inr v \<Rightarrow>
               let reasons = er_reasons v; dangerous = (danger_categories reasons \<noteq> []) in
               if er_decision v = D_DENY then (Inr (refused (Blocked reasons) reasons), r)
               else if er_decision v \<noteq> D_CONFIRM then (Inr (cleared reasons), r)
               else if answers_for_user rt dangerous then (Inr (cleared (reasons @ [preset_reason rt])), r)
               else if no_ui_pass_through rt i then (Inr (cleared (reasons @ [''no_approval_ui_pass_through:local_path''])), r)
               else ask e rt (if in_action i = ''read'' then ''local_read'' else ''local_write'') (in_target i) (has_ui rt)
                      (in_summary i) (''local_path:'' @ in_action i) reasons r))"

definition with_command :: "local_auth \<Rightarrow> (perm_error + intent_result) \<times> registry \<Rightarrow> (perm_error + intent_result) \<times> registry" where
  "with_command a out =
     (case out of
        (Inr x, r) \<Rightarrow> (Inr (if ir_payload x = None then x\<lparr>ir_command := Some a\<rparr> else x), r)
      | (Inl er, r) \<Rightarrow> (Inl er, r))"

text \<open>What \<open>eval_grants\<close> adds to the user's grants.\<close>

definition workspace_grant :: "perm_env \<Rightarrow> grant list" where
  "workspace_grant e =
     (if we_root (pv_ws e) \<noteq> ''/workspace'' then [\<lparr>gr_path = we_root (pv_ws e), gr_mode = ''readwrite''\<rparr>] else [])"

definition authorize_local_command ::
    "perm_env \<Rightarrow> permission_runtime \<Rightarrow> permission_intent \<Rightarrow> registry \<Rightarrow> (perm_error + intent_result) \<times> registry" where
  "authorize_local_command e rt i r =
     (if \<not> we_local (pv_ws e) then (Inr (cleared []), r)
      else case safe_local_security e (rt_approval_mode rt) of
        Inl er \<Rightarrow> (Inl er, r)
      | Inr (mode, gs, pol) \<Rightarrow>
          (case evaluate_local_command (pv_host e) (in_target i) ''/workspace'' (gs @ workspace_grant e) pol ''/workspace'' of
             Inl pe \<Rightarrow> (Inl (Perm_policy pe), r)
           | Inr v \<Rightarrow>
               let reasons = er_reasons v; dangerous = (danger_categories reasons \<noteq> []);
                   auth = local_command_authorization e rt (in_target i) mode gs pol (er_write_paths v) in
               if er_decision v = D_DENY then (Inr (refused (Blocked reasons) reasons), r)
               else if er_decision v = D_CONFIRM \<and> \<not> answers_for_user rt dangerous \<and> \<not> no_ui_pass_through rt i
               then with_command auth (ask e rt ''local_exec'' (take 160 (in_target i)) (has_ui rt) (in_summary i) ''local_cmd'' reasons r)
               else with_command auth (Inr (cleared reasons), r)))"

definition authorize_approval ::
    "perm_env \<Rightarrow> permission_runtime \<Rightarrow> permission_intent \<Rightarrow> bool \<Rightarrow> registry \<Rightarrow> (perm_error + intent_result) \<times> registry" where
  "authorize_approval e rt i interactive r =
     (let op = (if in_op i = [] then in_action i else in_op i) in
      if answers_for_user rt (op \<in> set destructive_ops) then (Inr (cleared [preset_reason rt]), r)
      else if \<not> interactive \<and> in_on_no_ui i = ''allow'' then (Inr (cleared [''no_approval_ui_pass_through:'' @ op]), r)
      else ask e rt op (in_target i) (interactive \<and> has_text (rt_chat_id rt)) (in_summary i)
             (if in_kind i = [] then ''tool_permission'' else in_kind i) [] r)"

definition authorize_intent ::
    "perm_env \<Rightarrow> permission_runtime \<Rightarrow> permission_intent \<Rightarrow> registry \<Rightarrow> (perm_error + intent_result) \<times> registry" where
  "authorize_intent e rt i r =
     (if in_domain i = ''deny'' then (Inr (refused (Blocked [in_summary i]) [in_summary i]), r)
      else if in_domain i = ''local_path'' then authorize_local_path e rt i r
      else if in_domain i = ''local_command'' then authorize_local_command e rt i r
      else if in_domain i = ''myspace'' then authorize_approval e rt i (rt_interactive rt) r
      else if in_domain i = ''approval'' then authorize_approval e rt i (rt_approval_available rt) r
      else (Inr (refused (Blocked [in_domain i]) [''unknown_permission_domain'']), r))"

text \<open>The loop over the intents: all cleared, with the reasons and the command scope, or the first refusal.\<close>

fun authorize_all ::
    "perm_env \<Rightarrow> permission_runtime \<Rightarrow> permission_intent list \<Rightarrow> string list \<Rightarrow> local_auth option \<Rightarrow> registry \<Rightarrow>
     (perm_error + payload + string list \<times> local_auth option) \<times> registry" where
  "authorize_all e rt [] reasons cmd r = (Inr (Inr (reasons, cmd)), r)"
| "authorize_all e rt (i # is) reasons cmd r =
     (case authorize_intent e rt i r of
        (Inl er, r1) \<Rightarrow> (Inl er, r1)
      | (Inr x, r1) \<Rightarrow>
          (case ir_payload x of
             Some p \<Rightarrow> (Inr (Inl p), r1)
           | None \<Rightarrow> authorize_all e rt is (reasons @ ir_reasons x) (case ir_command x of None \<Rightarrow> cmd | Some a \<Rightarrow> Some a) r1))"

definition authorize ::
    "perm_env \<Rightarrow> permission_runtime \<Rightarrow> tool_registry \<Rightarrow> tool_call \<Rightarrow> registry \<Rightarrow> (perm_error + outcome) \<times> registry" where
  "authorize e rt reg tc r =
     (case dict_get (tc_name tc) reg of
        None \<Rightarrow> (Inr \<lparr>oc_proceed = True, oc_ticket = None, oc_payload = None, oc_decision = ''allow_unregistered''\<rparr>, r)
      | Some spec \<Rightarrow>
          (case resolve_intents e rt (call_args e tc) (ps_resolver spec) of
             Inl _ \<Rightarrow> (Inr \<lparr>oc_proceed = False, oc_ticket = None, oc_payload = Some (Blocked [''resolver_failed'']), oc_decision = ''deny''\<rparr>, r)
           | Inr intents \<Rightarrow>
               (case authorize_all e rt intents (if rt_default_allow rt then [''trusted_unattended_run''] else []) None r of
                  (Inl er, r1) \<Rightarrow> (Inl er, r1)
                | (Inr (Inl p), r1) \<Rightarrow>
                    (Inr \<lparr>oc_proceed = False, oc_ticket = None, oc_payload = Some p,
                          oc_decision = (if p = Gated Gate_deduplicated then ''allow_deduplicated'' else ''deny'')\<rparr>, r1)
                | (Inr (Inr (reasons, cmd)), r1) \<Rightarrow>
                    (Inr \<lparr>oc_proceed = True,
                          oc_ticket = Some \<lparr>tk_tool = tc_name tc, tk_call = tc_id tc, tk_hash = pv_hash e (call_args e tc),
                            tk_spec = ps_key spec, tk_intents = intents, tk_command = cmd, tk_reasons = fromkeys reasons, tk_active = True\<rparr>,
                          oc_payload = None,
                          oc_decision = (if rt_default_allow rt then ''allow_trusted_unattended'' else ''allow'')\<rparr>, r1))))"

text \<open>
  The middleware: refuse, or run the tool body in a context. \<open>handler\<close> is what the body returns given the ticket of its context, and
  \<open>outer\<close> is the ticket of the context the call came in. The second component is the ticket as tasks that outlive the
  call still see it.
\<close>

datatype 'a acted = Refused "payload option" | Ran 'a "ticket option"

definition act ::
    "perm_env \<Rightarrow> permission_runtime \<Rightarrow> tool_registry \<Rightarrow> tool_call \<Rightarrow> (ticket option \<Rightarrow> 'a) \<Rightarrow> ticket option \<Rightarrow> registry \<Rightarrow>
     (perm_error + 'a acted) \<times> registry" where
  "act e rt reg tc handler outer r =
     (case authorize e rt reg tc r of
        (Inl er, r1) \<Rightarrow> (Inl er, r1)
      | (Inr out, r1) \<Rightarrow>
          if \<not> oc_proceed out then (Inr (Refused (oc_payload out)), r1)
          else (case oc_ticket out of
                  None \<Rightarrow> (Inr (Ran (handler outer) outer), r1)
                | Some t \<Rightarrow> (Inr (Ran (handler (Some t)) (Some (t\<lparr>tk_active := False\<rparr>))), r1)))"

section \<open>What a ticket stands for\<close>

lemma authorize_all_cleared:
  assumes "authorize_all e rt is reasons cmd r = (Inr (Inr out), r')" and "i \<in> set is"
  shows "\<exists>r1 r2 x. authorize_intent e rt i r1 = (Inr x, r2) \<and> ir_payload x = None"
  using assms
proof (induction "is" arbitrary: reasons cmd r)
  case (Cons j js)
  obtain y r1 where y: "authorize_intent e rt j r = (Inr y, r1)" "ir_payload y = None"
    and rest: "authorize_all e rt js (reasons @ ir_reasons y) (case ir_command y of None \<Rightarrow> cmd | Some a \<Rightarrow> Some a) r1 = (Inr (Inr out), r')"
    using Cons.prems(1) by (auto split: prod.splits sum.splits option.splits)
  show ?case using Cons.IH [OF rest] Cons.prems(2) y by auto
qed simp

lemma authorize_all_command:
  assumes "authorize_all e rt is reasons cmd r = (Inr (Inr (rs, Some a)), r')"
  shows "cmd = Some a \<or> (\<exists>i r1 r2 x. i \<in> set is \<and> authorize_intent e rt i r1 = (Inr x, r2) \<and> ir_payload x = None \<and> ir_command x = Some a)"
  using assms
proof (induction "is" arbitrary: reasons cmd r)
  case (Cons j js)
  obtain y r1 where y: "authorize_intent e rt j r = (Inr y, r1)" "ir_payload y = None"
    and rest: "authorize_all e rt js (reasons @ ir_reasons y) (case ir_command y of None \<Rightarrow> cmd | Some a \<Rightarrow> Some a) r1 = (Inr (Inr (rs, Some a)), r')"
    using Cons.prems by (auto split: prod.splits sum.splits option.splits)
  have "(case ir_command y of None \<Rightarrow> cmd | Some a \<Rightarrow> Some a) = Some a \<longrightarrow> cmd = Some a \<or> ir_command y = Some a" by (simp split: option.splits)
  then show ?case using Cons.IH [OF rest] y by (metis list.set_intros(1,2))
qed simp

lemma ticket_run:
  assumes "authorize e rt reg tc r = (Inr out, r')" "oc_ticket out = Some t"
  obtains spec rs where "dict_get (tc_name tc) reg = Some spec"
    and "resolve_intents e rt (call_args e tc) (ps_resolver spec) = Inr (tk_intents t)"
    and "authorize_all e rt (tk_intents t) (if rt_default_allow rt then [''trusted_unattended_run''] else []) None r = (Inr (Inr (rs, tk_command t)), r')"
    and "tk_active t" "ticket_matches e t tc" "oc_proceed out"
  using assms
  by (auto simp: authorize_def ticket_matches_def split: option.splits sum.splits prod.splits)

lemma ask_cleared:
  assumes "ask e rt op path live summary kind reasons r = (Inr x, r')" "ir_payload x = None"
  shows "gate_call e (rt_chat_id rt) op path live summary kind r = (Some Gate_pass, r')"
  using assms by (auto simp: ask_def refused_def split: prod.splits option.splits gate_result.splits)

text \<open>Nobody can be asked without a live UI: the gate blocks the calls on the host.\<close>

lemma gate_call_blocked:
  assumes "kind = ''local_cmd'' \<or> is_local_path_kind kind"
  shows "gate_call e chat op path False summary kind r = (Some Gate_blocked, r)"
  using assms by (auto simp: gate_call_def gate_enter_def confirm_enabled_def is_local_path_kind_def is_tool_kind_def Let_def split: option.splits)

definition path_cleared :: "perm_env \<Rightarrow> permission_runtime \<Rightarrow> permission_intent \<Rightarrow> eval_result \<Rightarrow> bool" where
  "path_cleared e rt i v =
     (er_decision v = D_ALLOW \<or>
      (er_decision v = D_CONFIRM \<and>
       (rt_default_allow rt \<or> preset_answers (rt_approval_mode rt) (danger_categories (er_reasons v) \<noteq> []) \<or>
        (has_ui rt \<and> (\<exists>r1 r2. gate_call e (rt_chat_id rt) (if in_action i = ''read'' then ''local_read'' else ''local_write'') (in_target i) True
           (in_summary i) (''local_path:'' @ in_action i) r1 = (Some Gate_pass, r2))))))"

text \<open>
  C14. A ticket is earned: on a desktop install, every local path a ticket names was judged by the policy of the run's preset and was not
  denied; and where the policy asks for a confirmation, the run is unattended and trusted, or the preset answers
  (never, below \<open>full\<close>, for a dangerous operation), or the user could be asked and the gate let the call through.
\<close>

theorem path_ticket_is_earned:
  assumes run: "authorize e rt reg tc r = (Inr out, r')" "oc_ticket out = Some t" and loc: "we_local (pv_ws e)"
    and i: "i \<in> set (tk_intents t)" "in_domain i = ''local_path''" "in_on_no_ui i = ''deny''"
  shows "\<exists>mode gs pol v. safe_local_security e (rt_approval_mode rt) = Inr (mode, gs, pol) \<and>
           evaluate_local_path (pv_host e) (in_target i) (in_action i) gs pol (we_root (pv_ws e)) = Inr v \<and> path_cleared e rt i v"
proof -
  obtain spec rs where all: "authorize_all e rt (tk_intents t) (if rt_default_allow rt then [''trusted_unattended_run''] else []) None r =
      (Inr (Inr (rs, tk_command t)), r')" by (rule ticket_run [OF run])
  obtain r1 r2 x where x: "authorize_intent e rt i r1 = (Inr x, r2)" "ir_payload x = None"
    using authorize_all_cleared [OF all i(1)] by blast
  then have a: "authorize_local_path e rt i r1 = (Inr x, r2)" using i(2) by (simp add: authorize_intent_def)
  obtain mode gs pol where sec: "safe_local_security e (rt_approval_mode rt) = Inr (mode, gs, pol)"
    using a loc by (auto simp: authorize_local_path_def split: sum.splits)
  obtain v where v: "evaluate_local_path (pv_host e) (in_target i) (in_action i) gs pol (we_root (pv_ws e)) = Inr v"
    using a loc sec by (auto simp: authorize_local_path_def split: sum.splits)
  have nodeny: "er_decision v \<noteq> D_DENY" using a loc sec v x(2) by (auto simp: authorize_local_path_def refused_def Let_def)
  have "path_cleared e rt i v"
  proof (cases "er_decision v")
    case D_CONFIRM
    show ?thesis
    proof (cases "answers_for_user rt (danger_categories (er_reasons v) \<noteq> [])")
      case True
      then show ?thesis using D_CONFIRM by (auto simp: path_cleared_def answers_for_user_def split: if_splits)
    next
      case False
      have "ask e rt (if in_action i = ''read'' then ''local_read'' else ''local_write'') (in_target i) (has_ui rt)
                      (in_summary i) (''local_path:'' @ in_action i) (er_reasons v) r1 = (Inr x, r2)"
        using a loc sec v D_CONFIRM False i(3) by (simp add: authorize_local_path_def Let_def no_ui_pass_through_def split: if_splits)
      from ask_cleared [OF this x(2)] have g: "gate_call e (rt_chat_id rt) (if in_action i = ''read'' then ''local_read'' else ''local_write'')
          (in_target i) (has_ui rt) (in_summary i) (''local_path:'' @ in_action i) r1 = (Some Gate_pass, r2)" .
      have "has_ui rt"
      proof (rule ccontr)
        assume "\<not> has_ui rt"
        then show False using g gate_call_blocked [of "''local_path:'' @ in_action i"] by (simp add: is_local_path_kind_def)
      qed
      then show ?thesis using g D_CONFIRM by (auto simp: path_cleared_def)
    qed
  qed (use nodeny in \<open>simp_all add: path_cleared_def\<close>)
  then show ?thesis using sec v by blast
qed

text \<open>A desktop install whose gate answers for the user: it lets every confirmation pass.\<close>

definition desk_install :: install_env where
  "desk_install = \<lparr>ie_state_dir = ''/h/.hugagent'', ie_caps_root = None, ie_install_root = None, ie_path_expanduser = id,
                   ie_home = ''/h'', ie_tempdir = ''/tmp''\<rparr>"

definition approving :: gate_env where
  "approving = \<lparr>ge_settings = None, ge_now = 0, ge_fresh = (\<lambda>_. ''k''),
     ge_wait = (\<lambda>t r. (snd (set_decision plain_host (\<lambda>_. []) 1 (su_chat t) (su_cid t) ''allow'' None r), False))\<rparr>"

definition desk_env :: perm_env where
  "desk_env = \<lparr>pv_host = plain_host, pv_ws = \<lparr>we_root = ''/h/ws'', we_local = True, we_sha = id\<rparr>, pv_install = desk_install,
     pv_store = None, pv_gate = approving, pv_runner = ''/usr/bin/bwrap'', pv_str = (\<lambda>_. []),
     pv_loads = (\<lambda>_. None), pv_hash = (\<lambda>_. ''#'')\<rparr>"

definition ask_run :: permission_runtime where
  "ask_run = \<lparr>rt_chat_id = Some ''c'', rt_user_id = Some ''u1'', rt_interactive = True, rt_approval_available = True,
     rt_default_allow = False, rt_approval_mode = ''ask'', rt_session = None\<rparr>"

definition read_call :: tool_call where
  "read_call = \<lparr>tc_name = ''Read'', tc_id = ''t1'', tc_input = JObj [(''file_path'', JStr ''/h/docs/a'')]\<rparr>"

theorem path_ticket_is_earned_witness:
  "\<exists>mode gs pol v. safe_local_security desk_env ''ask'' = Inr (mode, gs, pol) \<and>
     evaluate_local_path plain_host ''/h/docs/a'' ''read'' gs pol ''/h/ws'' = Inr v \<and> er_decision v = D_CONFIRM \<and>
     path_cleared desk_env ask_run (mk_intent ''local_path'' ''read'' ''/h/docs/a'' ''Read /h/docs/a'') v"
proof -
  let ?run = "authorize desk_env ask_run builtin_tools read_call empty_registry"
  let ?i = "mk_intent ''local_path'' ''read'' ''/h/docs/a'' ''Read /h/docs/a''"
  have "case fst ?run of Inr out \<Rightarrow> oc_ticket out \<noteq> None | Inl _ \<Rightarrow> False" by code_simp
  moreover have "case fst ?run of Inr out \<Rightarrow> map_option tk_intents (oc_ticket out) = Some [?i] | Inl _ \<Rightarrow> False" by code_simp
  ultimately obtain out t where run: "fst ?run = Inr out" and t: "oc_ticket out = Some t" "tk_intents t = [?i]" by (auto split: sum.splits)
  from run have run': "?run = (Inr out, snd ?run)" by (simp add: prod_eq_iff)
  have i: "?i \<in> set (tk_intents t)" "in_domain ?i = ''local_path''" "in_on_no_ui ?i = ''deny''" by (simp_all add: t(2) mk_intent_def)
  have env: "pv_host desk_env = plain_host" "we_root (pv_ws desk_env) = ''/h/ws''" "we_local (pv_ws desk_env)" "rt_approval_mode ask_run = ''ask''"
    "in_target ?i = ''/h/docs/a''" "in_action ?i = ''read''" by (simp_all add: desk_env_def ask_run_def mk_intent_def)
  obtain mode gs pol v where v: "safe_local_security desk_env ''ask'' = Inr (mode, gs, pol)"
      "evaluate_local_path plain_host ''/h/docs/a'' ''read'' gs pol ''/h/ws'' = Inr v" "path_cleared desk_env ask_run ?i v"
    using path_ticket_is_earned [OF run' t(1) env(3) i] unfolding env by blast
  have "safe_local_security desk_env ''ask'' = Inr (''ask'', [], standard_policy)" by code_simp
  moreover have "map_sum id er_decision (evaluate_local_path plain_host ''/h/docs/a'' ''read'' [] standard_policy ''/h/ws'') = Inr D_CONFIRM"
    by code_simp
  ultimately have "er_decision v = D_CONFIRM" using v(1,2) by simp
  then show ?thesis using v by blast
qed

section \<open>The scope of a command\<close>

lemma admit_mem: "x \<in> set (admit h sys w c) \<Longrightarrow> x \<in> set w \<or> (x = c \<and> (sys \<or> \<not> intersects_system_write_area h c))"
  by (auto simp: admit_def split: if_splits)

lemma admit_fold:
  "x \<in> set (foldl (admit h sys) w cs) \<Longrightarrow> x \<in> set w \<or> sys \<or> \<not> intersects_system_write_area h x"
proof (induction cs arbitrary: w)
  case (Cons c cs)
  then show ?case using admit_mem by fastforce
qed simp

lemma command_scope:
  fixes e rt command mode gs pol targets
  defines "a \<equiv> local_command_authorization e rt command mode gs pol targets"
  shows "la_command a = command" "la_mode a = mode" "confined a \<longleftrightarrow> mode \<noteq> ''full''"
    "ad_denied_paths (la_access a) = protected_read_paths (pv_install e)"
    "ad_network_allowed (la_access a) \<longleftrightarrow> disposition_for pol ''network'' \<noteq> ''block''"
    "x \<in> set (ad_writable_roots (la_access a)) \<Longrightarrow>
       po_workspace_write pol \<noteq> ''block'' \<and>
       (x = we_root (pv_ws e) \<or> disposition_for pol ''system_write'' = ''allow'' \<or> \<not> intersects_system_write_area (pv_host e) x)"
proof -
  show "la_command a = command" "la_mode a = mode" "confined a \<longleftrightarrow> mode \<noteq> ''full''"
    "ad_denied_paths (la_access a) = protected_read_paths (pv_install e)"
    "ad_network_allowed (la_access a) \<longleftrightarrow> disposition_for pol ''network'' \<noteq> ''block''"
    by (simp_all add: a_def local_command_authorization_def Let_def confined_def)
  assume x: "x \<in> set (ad_writable_roots (la_access a))"
  show "po_workspace_write pol \<noteq> ''block'' \<and>
       (x = we_root (pv_ws e) \<or> disposition_for pol ''system_write'' = ''allow'' \<or> \<not> intersects_system_write_area (pv_host e) x)"
  proof (cases "po_workspace_write pol = ''block''")
    case True
    then show ?thesis using x by (simp add: a_def local_command_authorization_def Let_def)
  next
    case False
    then show ?thesis using x by (auto simp: a_def local_command_authorization_def Let_def dest!: admit_fold)
  qed
qed

lemma authorize_local_command_scope:
  assumes run: "authorize_local_command e rt i r = (Inr x, r')" "ir_payload x = None" and a: "ir_command x = Some a"
  obtains mode gs pol v where "safe_local_security e (rt_approval_mode rt) = Inr (mode, gs, pol)"
    and "evaluate_local_command (pv_host e) (in_target i) ''/workspace''
           (gs @ workspace_grant e) pol ''/workspace'' = Inr v"
    and "er_decision v \<noteq> D_DENY"
    and "a = local_command_authorization e rt (in_target i) mode gs pol (er_write_paths v)"
proof -
  have loc: "we_local (pv_ws e)" using run a by (auto simp: authorize_local_command_def cleared_def split: if_splits)
  obtain mode gs pol where sec: "safe_local_security e (rt_approval_mode rt) = Inr (mode, gs, pol)"
    using run loc by (auto simp: authorize_local_command_def split: sum.splits)
  let ?gs = "gs @ workspace_grant e"
  obtain v where v: "evaluate_local_command (pv_host e) (in_target i) ''/workspace'' ?gs pol ''/workspace'' = Inr v"
    using run loc sec by (cases "evaluate_local_command (pv_host e) (in_target i) ''/workspace'' ?gs pol ''/workspace''")
      (simp_all add: authorize_local_command_def Let_def)
  let ?a = "local_command_authorization e rt (in_target i) mode gs pol (er_write_paths v)"
  have run': "(if er_decision v = D_DENY then (Inr (refused (Blocked (er_reasons v)) (er_reasons v)), r)
       else if er_decision v = D_CONFIRM \<and> \<not> answers_for_user rt (danger_categories (er_reasons v) \<noteq> []) \<and> \<not> no_ui_pass_through rt i
       then with_command ?a (ask e rt ''local_exec'' (take 160 (in_target i)) (has_ui rt) (in_summary i) ''local_cmd'' (er_reasons v) r)
       else with_command ?a (Inr (cleared (er_reasons v)), r)) = (Inr x, r')"
    using run(1) loc sec v by (simp add: authorize_local_command_def Let_def)
  have "er_decision v \<noteq> D_DENY" using run' run(2) by (auto simp: refused_def)
  moreover have "a = ?a"
    using run' run(2) a calculation by (auto simp: with_command_def split: if_splits prod.splits sum.splits)
  ultimately show thesis using that sec v by blast
qed

lemma command_from_command_intent:
  assumes "authorize_intent e rt i r = (Inr x, r')" "ir_command x = Some a"
  shows "in_domain i = ''local_command'' \<and> authorize_local_command e rt i r = (Inr x, r')"
proof -
  have no: "ir_command y = None" if "ask e rt op path live summary kind reasons s = (Inr y, s')" for op path live summary kind reasons s s' y
    using that by (auto simp: ask_def cleared_def refused_def split: prod.splits option.splits gate_result.splits)
  have "ir_command y = None" if "authorize_local_path e rt i s = (Inr y, s')" for s s' y
    using that no by (auto simp: authorize_local_path_def cleared_def refused_def Let_def split: if_splits sum.splits)
  moreover have "ir_command y = None" if "authorize_approval e rt i b s = (Inr y, s')" for b s s' y
    using that no by (auto simp: authorize_approval_def cleared_def Let_def split: if_splits)
  ultimately show ?thesis using assms by (auto simp: authorize_intent_def refused_def split: if_splits)
qed

text \<open>
  C15. The command of a ticket is confined: its scope is that of a command intent which the policy did not deny; it runs without an operating-system
  sandbox only under the preset \<open>full\<close>; no protected system area is writable unless the policy allows system writes, the
  workspace itself apart; and the install's own directories are always denied.
\<close>

theorem command_ticket_is_confined:
  assumes run: "authorize e rt reg tc r = (Inr out, r')" "oc_ticket out = Some t" and a: "tk_command t = Some a"
  shows "\<exists>i\<in>set (tk_intents t). \<exists>mode gs pol v.
           in_domain i = ''local_command'' \<and> la_command a = in_target i \<and> safe_local_security e (rt_approval_mode rt) = Inr (mode, gs, pol) \<and>
           evaluate_local_command (pv_host e) (in_target i) ''/workspace'' (gs @ workspace_grant e) pol ''/workspace'' = Inr v \<and>
           er_decision v \<noteq> D_DENY \<and> la_mode a = mode \<and>
           (local_confine e a = Inr None \<longrightarrow> rt_approval_mode rt = ''full'') \<and>
           ad_denied_paths (la_access a) = protected_read_paths (pv_install e) \<and>
           (\<forall>x\<in>set (ad_writable_roots (la_access a)). po_workspace_write pol \<noteq> ''block'' \<and>
              (x = we_root (pv_ws e) \<or> disposition_for pol ''system_write'' = ''allow'' \<or> \<not> intersects_system_write_area (pv_host e) x))"
proof -
  obtain rs where all: "authorize_all e rt (tk_intents t) (if rt_default_allow rt then [''trusted_unattended_run''] else []) None r =
      (Inr (Inr (rs, Some a)), r')" using ticket_run [OF run] a by metis
  then obtain i r1 r2 x where i: "i \<in> set (tk_intents t)" and x: "authorize_intent e rt i r1 = (Inr x, r2)" "ir_payload x = None" "ir_command x = Some a"
    using authorize_all_command [OF all] by blast
  note c = command_from_command_intent [OF x(1,3)]
  obtain mode gs pol v where m: "safe_local_security e (rt_approval_mode rt) = Inr (mode, gs, pol)"
      "evaluate_local_command (pv_host e) (in_target i) ''/workspace'' (gs @ workspace_grant e) pol ''/workspace'' = Inr v"
      "er_decision v \<noteq> D_DENY" "a = local_command_authorization e rt (in_target i) mode gs pol (er_write_paths v)"
    by (rule authorize_local_command_scope [OF conjunct2 [OF c] x(2,3)])
  note S = command_scope [where e = e and rt = rt and command = "in_target i" and mode = mode and gs = gs and pol = pol
      and targets = "er_write_paths v", folded m(4)]
  have "rt_approval_mode rt = ''full''" if "local_confine e a = Inr None"
  proof -
    have "\<not> confined a" using that by (auto simp: local_confine_def split: if_splits sum.splits sandbox_error.splits)
    then have "mode = ''full''" using S(3) by simp
    then show ?thesis using m(1) by (auto simp: safe_local_security_def split: sum.splits grant_error.splits)
  qed
  then show ?thesis using i c m(1-3) S by blast
qed

definition ls_call :: tool_call where
  "ls_call = \<lparr>tc_name = ''bash'', tc_id = ''t2'', tc_input = JObj [(''command'', JStr ''ls'')]\<rparr>"

theorem command_ticket_is_confined_witness:
  "\<exists>out r' t a. authorize desk_env ask_run builtin_tools ls_call empty_registry = (Inr out, r') \<and> oc_ticket out = Some t \<and>
     tk_command t = Some a \<and> la_command a = ''ls'' \<and> local_confine desk_env a \<noteq> Inr None"
proof -
  let ?run = "authorize desk_env ask_run builtin_tools ls_call empty_registry"
  have "case fst ?run of Inr out \<Rightarrow> (case oc_ticket out of None \<Rightarrow> False | Some t \<Rightarrow>
      map_option la_command (tk_command t) = Some ''ls'') | Inl _ \<Rightarrow> False" by code_simp
  then obtain out t a where run: "fst ?run = Inr out" and t: "oc_ticket out = Some t" "tk_command t = Some a" "la_command a = ''ls''"
    by (auto split: sum.splits option.splits)
  from run have run': "?run = (Inr out, snd ?run)" by (simp add: prod_eq_iff)
  have "rt_approval_mode ask_run \<noteq> ''full''" by (simp add: ask_run_def)
  then have "local_confine desk_env a \<noteq> Inr None" using command_ticket_is_confined [OF run' t(1,2)] by auto
  then show ?thesis using run' t by blast
qed

section \<open>Lifetime of a ticket\<close>

text \<open>
  C25. A ticket ends with its call: on a desktop install, a task that outlives the dispatch of a governed tool can neither touch a file of
  the host nor find the scope of a command, whatever the ticket named; during the dispatch the ticket is the one issued for
  exactly this call.
\<close>

theorem ticket_ends_with_its_call:
  assumes run: "act e rt reg tc handler outer r = (Inr (Ran x left), r')" and spec: "dict_get (tc_name tc) reg = Some spec"
    and loc: "we_local (pv_ws e)"
  shows "\<not> require_local_path_permission e left path action \<and> current_local_command_authorization left command = None \<and>
         (\<exists>t. x = handler (Some t) \<and> ticket_matches e t tc \<and> tk_spec t = ps_key spec)"
proof -
  obtain out where out: "authorize e rt reg tc r = (Inr out, r')" "oc_proceed out"
    using run by (auto simp: act_def split: prod.splits sum.splits if_splits option.splits)
  obtain t where t: "oc_ticket out = Some t" "tk_spec t = ps_key spec" "ticket_matches e t tc"
    using out spec by (auto simp: authorize_def ticket_matches_def split: option.splits sum.splits prod.splits)
  have "x = handler (Some t)" "left = Some (t\<lparr>tk_active := False\<rparr>)" using run out t by (auto simp: act_def)
  then show ?thesis using t loc by (auto simp: require_local_path_permission_def current_local_command_authorization_def)
qed

theorem ticket_ends_with_its_call_witness:
  "\<exists>left r'. act desk_env ask_run builtin_tools read_call (\<lambda>t. require_local_path_permission desk_env t ''/h/docs/a'' ''read'') None empty_registry =
       (Inr (Ran True left), r') \<and> \<not> require_local_path_permission desk_env left ''/h/docs/a'' ''read''"
proof -
  let ?run = "act desk_env ask_run builtin_tools read_call (\<lambda>t. require_local_path_permission desk_env t ''/h/docs/a'' ''read'') None empty_registry"
  have "case fst ?run of Inr (Ran x _) \<Rightarrow> x | _ \<Rightarrow> False" by code_simp
  then obtain left where run: "fst ?run = Inr (Ran True left)" by (auto split: sum.splits acted.splits)
  from run have run': "?run = (Inr (Ran True left), snd ?run)" by (simp add: prod_eq_iff)
  have "dict_get (tc_name read_call) builtin_tools \<noteq> None" by code_simp
  then obtain spec where spec: "dict_get (tc_name read_call) builtin_tools = Some spec" by blast
  have "we_local (pv_ws desk_env)" by (simp add: desk_env_def)
  from ticket_ends_with_its_call [OF run' spec this] run' show ?thesis by blast
qed

section \<open>Long commands\<close>

text \<open>
  A command is confirmed under its first 160 characters: two different commands that agree on them share one confirmation. The user sees
  the first, and the second is reported as performed although it never ran.
\<close>

definition long_command :: "string \<Rightarrow> string" where
  "long_command tail = ''python3 run.py '' @ replicate 150 (CHR ''x'') @ tail"

definition exec_event :: "string \<Rightarrow> string \<Rightarrow> gate_event" where
  "exec_event cid command = Ev_gate None 0 cid (Some ''c'') ''local_exec'' (take 160 command) True [] ''local_cmd''"

theorem long_commands_share_a_confirmation:
  "let s = run_steps (gate_step plain_host (\<lambda>_. []))
             [exec_event ''a'' (long_command '' train''), exec_event ''b'' (long_command '' deploy''), Ev_decide 1 ''c'' ''a'' ''allow'' None]
             initial_gate;
       t = snd (gs_waiting s ! 0); u = snd (gs_waiting s ! 1)
   in fst (gate_resume t False (gs_reg s)) = Some Gate_pass \<and>
      fst (gate_resume u False (snd (gate_resume t False (gs_reg s)))) = Some Gate_deduplicated"
  by code_simp

end
