(* ===== verification/User_Questions.thy ===== *)
theory User_Questions
  imports Confirm_Gate
begin

text \<open>
  Questions a tool asks the user, \<open>core/llm/tools/user_questions.py\<close>, and the liveness test of \<open>core/llm/human_interaction.py\<close> over both
  kinds of suspended calls. As in \<open>Confirm_Gate\<close> the registry of the process is a record with the pending objects in a
  store, and a call is split where it waits: \<open>ask_enter\<close>, and \<open>ask_exit\<close> with what ended the wait. The values of a request are
  JSON; the wording of errors is a constructor each, and the parts of a signal that repeat the object are left out.
\<close>

section \<open>Requests\<close>

datatype question_error =
    Empty_field | Too_long | Not_object | Not_list | No_questions | Too_many_questions | Duplicate_question string
  | Answer_count | Answer_order | Duplicate_selection | Unknown_option | Single_choice | Skipped_with_answer | Unanswered

record question_option =
  qo_id :: string
  qo_label :: string
  qo_description :: string
  qo_recommended :: bool

record question =
  qu_id :: string
  qu_header :: string
  qu_question :: string
  qu_options :: "question_option list"
  qu_multi :: bool

definition MAX_QUESTIONS :: nat where
  "MAX_QUESTIONS = 8"

definition text_field :: "(json \<Rightarrow> string) \<Rightarrow> nat option \<Rightarrow> bool \<Rightarrow> json \<Rightarrow> question_error + string" where
  "text_field str_of limit required v =
     (let t = strip (json_str str_of (json_or v (JStr [])))
      in if required \<and> t = [] then Inl Empty_field
         else case limit of Some n \<Rightarrow> (if n < length t then Inl Too_long else Inr t) | None \<Rightarrow> Inr t)"

definition as_dict :: "json \<Rightarrow> question_error + dict" where
  "as_dict v = (case v of JObj d \<Rightarrow> Inr d | _ \<Rightarrow> Inl Not_object)"

text \<open>\<open>_RECOMMENDED_SUFFIX\<close> on Latin-1 text, where its Chinese alternatives cannot occur.\<close>

definition recommended :: "string \<Rightarrow> bool" where
  "recommended label = suffix ''(recommended)'' (map lower (rev (dropWhile is_space (rev label))))"

fun decimal :: "nat \<Rightarrow> string" where
  "decimal n = (if n < 10 then [char_of (48 + n)] else decimal (n div 10) @ [char_of (48 + n mod 10)])"

definition normalize_option :: "(json \<Rightarrow> string) \<Rightarrow> nat \<Rightarrow> json \<Rightarrow> question_error + question_option" where
  "normalize_option str_of index raw =
     sum_bind (as_dict raw) (\<lambda>d. sum_bind (text_field str_of None True (json_get ''label'' d)) (\<lambda>label.
       sum_bind (text_field str_of None False (json_get ''description'' d)) (\<lambda>description.
         Inr \<lparr>qo_id = ''option_'' @ decimal (index + 1), qo_label = label, qo_description = description, qo_recommended = recommended label\<rparr>)))"

definition normalize_options :: "(json \<Rightarrow> string) \<Rightarrow> json \<Rightarrow> question_error + question_option list" where
  "normalize_options str_of raw =
     (case raw of
        JNull \<Rightarrow> Inr []
      | JList os \<Rightarrow> sum_map (\<lambda>(i, v). normalize_option str_of i v) (enumerate 0 os)
      | _ \<Rightarrow> Inl Not_list)"

fun normalize_each :: "(json \<Rightarrow> string) \<Rightarrow> string list \<Rightarrow> json list \<Rightarrow> question_error + question list" where
  "normalize_each str_of seen [] = Inr []"
| "normalize_each str_of seen (raw # raws) =
     sum_bind (as_dict raw) (\<lambda>d. sum_bind (text_field str_of None True (json_get ''id'' d)) (\<lambda>qid.
       if qid \<in> set seen then Inl (Duplicate_question qid)
       else sum_bind (text_field str_of None True (json_get ''question'' d)) (\<lambda>question.
         sum_bind (text_field str_of None False (json_get ''header'' d)) (\<lambda>header.
           sum_bind (normalize_options str_of (json_get ''options'' d)) (\<lambda>options.
             sum_bind (normalize_each str_of (qid # seen) raws) (\<lambda>rest.
               Inr (\<lparr>qu_id = qid, qu_header = header, qu_question = question, qu_options = options,
                     qu_multi = (json_truthy (json_get ''multi_select'' d) \<and> options \<noteq> [])\<rparr> # rest)))))))"

definition normalize_questions :: "(json \<Rightarrow> string) \<Rightarrow> json list \<Rightarrow> question_error + question list" where
  "normalize_questions str_of raws =
     (if raws = [] then Inl No_questions
      else if MAX_QUESTIONS < length raws then Inl Too_many_questions
      else normalize_each str_of [] raws)"

section \<open>Answers\<close>

record given_answer =
  an_id :: string
  an_selected :: "string list"
  an_labels :: "string list"
  an_skipped :: bool
  an_custom :: "string option"

definition option_labels :: "question \<Rightarrow> (string \<times> string) list" where
  "option_labels q = map (\<lambda>x. (qo_id x, qo_label x)) (qu_options q)"

text \<open>\<open>raw.get("selected", [])\<close>: a missing key is the empty list.\<close>

definition selected_of :: "(json \<Rightarrow> string) \<Rightarrow> dict \<Rightarrow> question_error + string list" where
  "selected_of str_of d =
     (case dict_get ''selected'' d of
        None \<Rightarrow> Inr []
      | Some (JList vs) \<Rightarrow> sum_map (text_field str_of (Some 64) True) vs
      | Some _ \<Rightarrow> Inl Not_list)"

definition check_selection :: "question \<Rightarrow> string list \<Rightarrow> question_error option" where
  "check_selection q selected =
     (if \<not> distinct selected then Some Duplicate_selection
      else if list_ex (\<lambda>i. dict_get i (option_labels q) = None) selected then Some Unknown_option
      else if \<not> qu_multi q \<and> 1 < length selected then Some Single_choice
      else None)"

text \<open>Custom text replaces the option of a single-choice question.\<close>

definition close_answer :: "question \<Rightarrow> string list \<Rightarrow> string \<Rightarrow> bool \<Rightarrow> question_error + given_answer" where
  "close_answer q selected0 custom skipped =
     (let selected = (if custom \<noteq> [] \<and> \<not> qu_multi q then [] else selected0) in
      if skipped \<and> (selected \<noteq> [] \<or> custom \<noteq> []) then Inl Skipped_with_answer
      else if \<not> skipped \<and> selected = [] \<and> custom = [] then Inl Unanswered
      else Inr \<lparr>an_id = qu_id q, an_selected = selected,
                an_labels = map (\<lambda>i. case dict_get i (option_labels q) of Some l \<Rightarrow> l | None \<Rightarrow> []) selected, an_skipped = skipped,
                an_custom = (if custom = [] then None else Some custom)\<rparr>)"

definition normalize_answer :: "(json \<Rightarrow> string) \<Rightarrow> json \<Rightarrow> question \<Rightarrow> question_error + given_answer" where
  "normalize_answer str_of raw q =
     sum_bind (as_dict raw) (\<lambda>d. sum_bind (text_field str_of None True (json_get ''id'' d)) (\<lambda>aid.
       if aid \<noteq> qu_id q then Inl Answer_order
       else sum_bind (selected_of str_of d) (\<lambda>selected.
         case check_selection q selected of
           Some er \<Rightarrow> Inl er
         | None \<Rightarrow> sum_bind (text_field str_of (Some 2000) False (json_get ''custom'' d)) (\<lambda>custom.
             close_answer q selected custom (json_truthy (json_get ''skipped'' d))))))"

definition normalize_answers :: "(json \<Rightarrow> string) \<Rightarrow> json list \<Rightarrow> question list \<Rightarrow> question_error + given_answer list" where
  "normalize_answers str_of raws qs =
     (if length raws \<noteq> length qs then Inl Answer_count
      else sum_map (\<lambda>(raw, q). normalize_answer str_of raw q) (zip raws qs))"

section \<open>The registry\<close>

record pending_question =
  pq_questions :: "question list"
  pq_created :: time
  pq_expires :: time
  pq_outcome :: "string option"
  pq_answers :: "given_answer list"

datatype question_signal = Qs_requested string | Qs_resolved string string

record chat_questions =
  cq_pending :: "string list"
  cq_signals :: "question_signal list option"
  cq_last_ts :: time

record questions_registry =
  qr_chats :: "(string \<times> chat_questions) list"
  qr_objs :: "string \<Rightarrow> pending_question option"

definition question_gc :: "time \<Rightarrow> questions_registry \<Rightarrow> questions_registry" where
  "question_gc now r =
     r\<lparr>qr_chats := filter (\<lambda>(c, st). \<not> (cq_pending st = [] \<and> now - cq_last_ts st > 1800 * 1000000)) (qr_chats r)\<rparr>"

definition question_state :: "time \<Rightarrow> string \<Rightarrow> questions_registry \<Rightarrow> chat_questions \<times> questions_registry" where
  "question_state now c r0 =
     (let r = question_gc now r0;
          st = (case dict_get c (qr_chats r) of Some st \<Rightarrow> st | None \<Rightarrow> \<lparr>cq_pending = [], cq_signals = None, cq_last_ts = now\<rparr>);
          st1 = st\<lparr>cq_last_ts := now\<rparr>
      in (st1, r\<lparr>qr_chats := dict_put c st1 (qr_chats r)\<rparr>))"

definition question_ui_queue :: "string option \<Rightarrow> questions_registry \<Rightarrow> question_signal list option" where
  "question_ui_queue chat r =
     (case chat of
        None \<Rightarrow> None
      | Some c \<Rightarrow> if c = [] then None else (case dict_get c (qr_chats r) of None \<Rightarrow> None | Some st \<Rightarrow> cq_signals st))"

definition question_all_pending :: "string option \<Rightarrow> questions_registry \<Rightarrow> (string \<times> pending_question) list" where
  "question_all_pending chat r =
     (case chat of
        None \<Rightarrow> []
      | Some c \<Rightarrow>
          if c = [] then []
          else (case dict_get c (qr_chats r) of
                  None \<Rightarrow> []
                | Some st \<Rightarrow> concat (map (\<lambda>i. case qr_objs r i of None \<Rightarrow> [] | Some p \<Rightarrow> [(i, p)]) (cq_pending st))))"

definition question_chat_ids :: "time \<Rightarrow> questions_registry \<Rightarrow> string list \<times> questions_registry" where
  "question_chat_ids now r =
     (let r1 = question_gc now r in (map fst (filter (\<lambda>(c, st). cq_pending st \<noteq> []) (qr_chats r1)), r1))"

definition question_has_pending :: "string option \<Rightarrow> questions_registry \<Rightarrow> bool" where
  "question_has_pending chat r =
     (case chat of
        None \<Rightarrow> False
      | Some c \<Rightarrow> c \<noteq> [] \<and> (case dict_get c (qr_chats r) of None \<Rightarrow> False | Some st \<Rightarrow> cq_pending st \<noteq> []))"

text \<open>\<open>human_interaction.has_pending\<close>: whether a call of the chat waits for its user, in either registry.\<close>

definition human_has_pending :: "string option \<Rightarrow> registry \<Rightarrow> questions_registry \<Rightarrow> bool" where
  "human_has_pending chat g r =
     (case chat of None \<Rightarrow> False | Some c \<Rightarrow> c \<noteq> [] \<and> (has_pending chat g \<or> question_has_pending chat r))"

text \<open>\<open>_claim_locked\<close>: the first claimant takes the request out of the chat and fixes its outcome.\<close>

definition question_claim ::
    "time \<Rightarrow> string \<Rightarrow> string \<Rightarrow> string \<Rightarrow> given_answer list \<Rightarrow> questions_registry \<Rightarrow> questions_registry" where
  "question_claim now c rid result answers r =
     (case dict_get c (qr_chats r) of
        None \<Rightarrow> r
      | Some st \<Rightarrow>
          (case qr_objs r rid of
             None \<Rightarrow> r
           | Some p \<Rightarrow>
               if rid \<notin> set (cq_pending st) then r
               else r\<lparr>qr_chats := dict_put c (st\<lparr>cq_pending := filter (\<lambda>i. i \<noteq> rid) (cq_pending st), cq_last_ts := now,
                        cq_signals := map_option (\<lambda>q. q @ [Qs_resolved rid result]) (cq_signals st)\<rparr>) (qr_chats r),
                      qr_objs := (qr_objs r)(rid \<mapsto> p\<lparr>pq_outcome := Some result, pq_answers := answers\<rparr>)\<rparr>))"

datatype answer_result = Ar_ok string | Ar_stale | Ar_bad question_error

definition question_pending :: "string \<Rightarrow> string \<Rightarrow> questions_registry \<Rightarrow> pending_question option" where
  "question_pending c rid r =
     (case dict_get c (qr_chats r) of
        None \<Rightarrow> None
      | Some st \<Rightarrow> if rid \<in> set (cq_pending st) then qr_objs r rid else None)"

definition question_answer ::
    "(json \<Rightarrow> string) \<Rightarrow> time \<Rightarrow> string \<Rightarrow> string \<Rightarrow> json list \<Rightarrow> questions_registry \<Rightarrow> answer_result \<times> questions_registry" where
  "question_answer str_of now c rid raws r =
     (case question_pending c rid r of
        None \<Rightarrow> (Ar_stale, r)
      | Some p \<Rightarrow>
          (case normalize_answers str_of raws (pq_questions p) of
             Inl er \<Rightarrow> (Ar_bad er, r)
           | Inr answers \<Rightarrow> (Ar_ok ''answered'', question_claim now c rid ''answered'' answers r)))"

definition question_cancel :: "time \<Rightarrow> string \<Rightarrow> string \<Rightarrow> questions_registry \<Rightarrow> answer_result \<times> questions_registry" where
  "question_cancel now c rid r =
     (case question_pending c rid r of
        None \<Rightarrow> (Ar_stale, r)
      | Some p \<Rightarrow> (Ar_ok ''cancelled'', question_claim now c rid ''cancelled'' [] r))"

section \<open>The suspended call\<close>

datatype ask_status = As_invalid question_error | As_blocked

definition ask_enter ::
    "(json \<Rightarrow> string) \<Rightarrow> time \<Rightarrow> time \<Rightarrow> string \<Rightarrow> string option \<Rightarrow> json list \<Rightarrow> bool \<Rightarrow> questions_registry \<Rightarrow>
     (ask_status + string \<times> string) \<times> questions_registry" where
  "ask_enter str_of now timeout fresh chat raws interactive r =
     (case normalize_questions str_of raws of
        Inl er \<Rightarrow> (Inl (As_invalid er), r)
      | Inr qs \<Rightarrow>
          (case chat of
             None \<Rightarrow> (Inl As_blocked, r)
           | Some c \<Rightarrow>
               if \<not> interactive \<or> c = [] then (Inl As_blocked, r)
               else let (st, r1) = question_state now c r;
                        st1 = st\<lparr>cq_pending := cq_pending st @ [fresh],
                                 cq_signals := Some ((case cq_signals st of None \<Rightarrow> [] | Some q \<Rightarrow> q) @ [Qs_requested fresh])\<rparr>;
                        p = \<lparr>pq_questions = qs, pq_created = now, pq_expires = now + timeout, pq_outcome = None, pq_answers = []\<rparr>
                    in (Inr (c, fresh), r1\<lparr>qr_chats := dict_put c st1 (qr_chats r1), qr_objs := (qr_objs r1)(fresh \<mapsto> p)\<rparr>)))"

datatype wait_end = Woken | Timed_out | Run_cancelled

text \<open>The status and the answers returned to the tool; \<open>None\<close> is the \<open>CancelledError\<close> raised.\<close>

definition ask_result :: "string \<Rightarrow> questions_registry \<Rightarrow> string \<times> given_answer list" where
  "ask_result rid r =
     (case qr_objs r rid of
        None \<Rightarrow> (''cancelled'', [])
      | Some p \<Rightarrow>
          if pq_outcome p = Some ''answered'' then (''answered'', pq_answers p)
          else (str_or (pq_outcome p) ''cancelled'', []))"

definition ask_exit ::
    "time \<Rightarrow> string \<Rightarrow> string \<Rightarrow> wait_end \<Rightarrow> questions_registry \<Rightarrow> (string \<times> given_answer list) option \<times> questions_registry" where
  "ask_exit now c rid how r =
     (case how of
        Woken \<Rightarrow> (Some (ask_result rid r), r)
      | Timed_out \<Rightarrow> (let r1 = question_claim now c rid ''timeout'' [] r in (Some (ask_result rid r1), r1))
      | Run_cancelled \<Rightarrow> (None, question_claim now c rid ''cancelled'' [] r))"

section \<open>Answers fit their questions\<close>

definition fits :: "given_answer \<Rightarrow> question \<Rightarrow> bool" where
  "fits a q =
     (an_id a = qu_id q \<and> distinct (an_selected a) \<and> set (an_selected a) \<subseteq> qo_id ` set (qu_options q) \<and>
      list_all2 (\<lambda>i l. map_of (option_labels q) i = Some l) (an_selected a) (an_labels a) \<and>
      (qu_multi q \<or> length (an_selected a) + (if an_custom a = None then 0 else 1) \<le> 1) \<and>
      an_skipped a = (an_selected a = [] \<and> an_custom a = None))"

lemma labels_fit:
  assumes "set sel \<subseteq> dom (map_of d)"
  shows "list_all2 (\<lambda>i l. map_of d i = Some l) sel (map (\<lambda>i. case dict_get i d of Some l \<Rightarrow> l | None \<Rightarrow> []) sel)"
  using assms by (induction sel) (auto simp: dict_get_def)

lemma check_selection_None:
  assumes "check_selection q sel = None"
  shows "distinct sel" "set sel \<subseteq> dom (map_of (option_labels q))" "qu_multi q \<or> length sel \<le> 1"
  using assms by (auto simp: check_selection_def list_ex_iff dict_get_def split: if_splits)

lemma dom_option_labels: "dom (map_of (option_labels q)) = qo_id ` set (qu_options q)"
  by (force simp: option_labels_def dom_map_of_conv_image_fst)

lemma normalize_answer_fits:
  assumes "normalize_answer str_of raw q = Inr a"
  shows "fits a q"
proof -
  obtain d where "as_dict raw = Inr d" using assms by (cases "as_dict raw") (simp_all add: normalize_answer_def)
  moreover obtain aid where "text_field str_of None True (json_get ''id'' d) = Inr aid"
    using assms calculation by (cases "text_field str_of None True (json_get ''id'' d)") (simp_all add: normalize_answer_def)
  moreover have "aid = qu_id q" using assms calculation by (simp add: normalize_answer_def split: if_splits)
  moreover obtain sel where "selected_of str_of d = Inr sel"
    using assms calculation by (cases "selected_of str_of d") (simp_all add: normalize_answer_def)
  moreover have sel: "check_selection q sel = None" using assms calculation by (simp add: normalize_answer_def split: option.splits)
  moreover obtain custom where "text_field str_of (Some 2000) False (json_get ''custom'' d) = Inr custom"
    using assms calculation by (cases "text_field str_of (Some 2000) False (json_get ''custom'' d)") (simp_all add: normalize_answer_def)
  ultimately have a: "close_answer q sel custom (json_truthy (json_get ''skipped'' d)) = Inr a"
    using assms by (simp add: normalize_answer_def)
  note S = check_selection_None [OF sel]
  define selected where "selected = (if custom \<noteq> [] \<and> \<not> qu_multi q then [] else sel)"
  define skipped where "skipped = json_truthy (json_get ''skipped'' d)"
  have both: "a = \<lparr>an_id = qu_id q, an_selected = selected,
                 an_labels = map (\<lambda>i. case dict_get i (option_labels q) of Some l \<Rightarrow> l | None \<Rightarrow> []) selected, an_skipped = skipped,
                 an_custom = (if custom = [] then None else Some custom)\<rparr> \<and>
      skipped = (selected = [] \<and> custom = [])"
    using a unfolding close_answer_def Let_def selected_def [symmetric] skipped_def [symmetric]
    by (cases skipped; cases "selected = []"; cases "custom = []"; simp)
  note eq = conjunct1 [OF both] and sk = conjunct2 [OF both]
  have sub: "set selected \<subseteq> dom (map_of (option_labels q))" "distinct selected" using S by (auto simp: selected_def)
  have "qu_multi q \<or> length selected + (if custom = [] then 0 else 1) \<le> 1" using S(3) by (auto simp: selected_def)
  then show ?thesis using sub labels_fit [OF sub(1)] sk by (cases "custom = []") (simp_all add: fits_def eq dom_option_labels)
qed

text \<open>
  An accepted answer fits its questions: one answer per question, in order; only options of the question, each at most once,
  with the labels they have; at most one choice unless the question allows several; and a question is skipped exactly
  when it has neither a choice nor a text.
\<close>

theorem accepted_answers_fit:
  assumes "normalize_answers str_of raws qs = Inr as"
  shows "list_all2 fits as qs"
proof -
  have len: "length raws = length qs" and m: "list_all2 (\<lambda>x a. normalize_answer str_of (fst x) (snd x) = Inr a) (zip raws qs) as"
    using assms by (auto simp: normalize_answers_def sum_map_Inr case_prod_beta split: if_splits)
  have "list_all2 (\<lambda>a x. fits a (snd x)) as (zip raws qs)"
    using m normalize_answer_fits by (subst list.rel_flip [symmetric]) (force elim: list_all2_mono)
  then have "list_all2 fits as (map snd (zip raws qs))" by (simp add: list_all2_map2)
  then show ?thesis using len by simp
qed

definition two_questions :: "question list" where
  "two_questions =
     [\<lparr>qu_id = ''q1'', qu_header = [], qu_question = ''Which?'',
       qu_options = [\<lparr>qo_id = ''option_1'', qo_label = ''A'', qo_description = [], qo_recommended = False\<rparr>,
                     \<lparr>qo_id = ''option_2'', qo_label = ''B'', qo_description = [], qo_recommended = False\<rparr>], qu_multi = True\<rparr>,
      \<lparr>qu_id = ''q2'', qu_header = [], qu_question = ''Why?'', qu_options = [], qu_multi = False\<rparr>]"

definition two_answers :: "json list" where
  "two_answers =
     [JObj [(''id'', JStr ''q1''), (''selected'', JList [JStr ''option_2''])], JObj [(''id'', JStr ''q2''), (''skipped'', JBool True)]]"

theorem accepted_answers_fit_witness:
  "\<exists>as. normalize_answers (\<lambda>_. []) two_answers two_questions = Inr as \<and> list_all2 fits as two_questions"
proof -
  have "\<not> isl (normalize_answers (\<lambda>_. []) two_answers two_questions)" by code_simp
  then obtain as where "normalize_answers (\<lambda>_. []) two_answers two_questions = Inr as" by (cases "normalize_answers (\<lambda>_. []) two_answers two_questions") auto
  then show ?thesis using accepted_answers_fit by blast
qed

section \<open>Calls of one process\<close>

record question_sys =
  qs_reg :: questions_registry
  qs_waiting :: "(string \<times> string) list"

datatype question_event =
    Qv_ask time time string "string option" "json list" bool
  | Qv_answer time string string "json list"
  | Qv_cancel time string string
  | Qv_exit time nat wait_end
  | Qv_poll time

text \<open>An identifier is drawn at most once.\<close>

fun question_step :: "(json \<Rightarrow> string) \<Rightarrow> question_event \<Rightarrow> question_sys \<Rightarrow> question_sys" where
  "question_step str_of (Qv_ask now timeout fresh chat raws interactive) s =
     (if qr_objs (qs_reg s) fresh \<noteq> None then s
      else case ask_enter str_of now timeout fresh chat raws interactive (qs_reg s) of
             (Inl _, r) \<Rightarrow> s\<lparr>qs_reg := r\<rparr>
           | (Inr t, r) \<Rightarrow> s\<lparr>qs_reg := r, qs_waiting := qs_waiting s @ [t]\<rparr>)"
| "question_step str_of (Qv_answer now c rid raws) s = s\<lparr>qs_reg := snd (question_answer str_of now c rid raws (qs_reg s))\<rparr>"
| "question_step str_of (Qv_cancel now c rid) s = s\<lparr>qs_reg := snd (question_cancel now c rid (qs_reg s))\<rparr>"
| "question_step str_of (Qv_exit now i how) s =
     (if length (qs_waiting s) \<le> i then s
      else let (c, rid) = qs_waiting s ! i
           in s\<lparr>qs_reg := snd (ask_exit now c rid how (qs_reg s)), qs_waiting := remove_nth i (qs_waiting s)\<rparr>)"
| "question_step str_of (Qv_poll now) s = s\<lparr>qs_reg := snd (question_chat_ids now (qs_reg s))\<rparr>"

definition initial_questions :: question_sys where
  "initial_questions = \<lparr>qs_reg = \<lparr>qr_chats = [], qr_objs = (\<lambda>_. None)\<rparr>, qs_waiting = []\<rparr>"

definition in_chat :: "string \<Rightarrow> string \<Rightarrow> questions_registry \<Rightarrow> bool" where
  "in_chat c rid r = (\<exists>st. map_of (qr_chats r) c = Some st \<and> rid \<in> set (cq_pending st))"

definition questions_ok :: "questions_registry \<Rightarrow> bool" where
  "questions_ok r =
     (distinct (map fst (qr_chats r)) \<and>
      (\<forall>c c' rid. in_chat c rid r \<longrightarrow> in_chat c' rid r \<longrightarrow> c' = c) \<and>
      (\<forall>c rid. in_chat c rid r \<longrightarrow> (\<exists>p. qr_objs r rid = Some p \<and> pq_outcome p = None)))"

lemma questions_okD:
  assumes "questions_ok r"
  shows "distinct (map fst (qr_chats r))" "in_chat c rid r \<Longrightarrow> in_chat c' rid r \<Longrightarrow> c' = c"
    "in_chat c rid r \<Longrightarrow> \<exists>p. qr_objs r rid = Some p \<and> pq_outcome p = None"
  using assms unfolding questions_ok_def by blast+

lemma question_gc_sel:
  assumes "distinct (map fst (qr_chats r))"
  shows "distinct (map fst (qr_chats (question_gc now r)))" "in_chat c rid (question_gc now r) = in_chat c rid r"
    "qr_objs (question_gc now r) = qr_objs r"
proof -
  show "distinct (map fst (qr_chats (question_gc now r)))" using assms by (simp add: question_gc_def distinct_map_filter)
  show "in_chat c rid (question_gc now r) = in_chat c rid r"
    using map_of_filter_pending [OF assms, of "\<lambda>_ st. \<not> (cq_pending st = [] \<and> now - cq_last_ts st > 1800 * 1000000)" c]
    by (cases "map_of (qr_chats r) c") (auto simp: in_chat_def question_gc_def split: if_splits)
qed (simp add: question_gc_def)

lemma question_gc_ok: "questions_ok r \<Longrightarrow> questions_ok (question_gc now r)"
  using question_gc_sel [OF questions_okD(1)] by (simp add: questions_ok_def)

lemma question_state_sel:
  assumes "question_state now c r = (st, r1)" and d: "distinct (map fst (qr_chats r))"
  shows "distinct (map fst (qr_chats r1))" "in_chat c' rid r1 = in_chat c' rid r" "qr_objs r1 = qr_objs r"
    "in_chat c rid r = (rid \<in> set (cq_pending st))"
proof -
  note G = question_gc_sel [OF d, where now = now]
  let ?r = "question_gc now r"
  have r1: "r1 = ?r\<lparr>qr_chats := dict_put c st (qr_chats ?r)\<rparr>" using assms(1) by (auto simp: question_state_def Let_def)
  show "distinct (map fst (qr_chats r1))" using G(1) by (simp add: r1 distinct_dict_put)
  show "qr_objs r1 = qr_objs r" using G(3) by (simp add: r1)
  have "in_chat c rid ?r = (rid \<in> set (cq_pending st))" for rid
    using assms(1) by (cases "map_of (qr_chats ?r) c") (auto simp: question_state_def Let_def in_chat_def dict_get_def)
  then have mem: "in_chat c rid r = (rid \<in> set (cq_pending st))" for rid using G(2) by simp
  then show "in_chat c rid r = (rid \<in> set (cq_pending st))" .
  show "in_chat c' rid r1 = in_chat c' rid r" using G(2) [of c' rid] mem [of rid] by (auto simp: r1 in_chat_def)
qed

text \<open>What a claim does, when it does anything.\<close>

lemma question_claim_sel:
  assumes ok: "questions_ok r"
  shows "distinct (map fst (qr_chats (question_claim now c rid res as r)))"
    and "in_chat c' rid' (question_claim now c rid res as r) \<longleftrightarrow> in_chat c' rid' r \<and> \<not> (c' = c \<and> rid' = rid)"
    and "qr_objs (question_claim now c rid res as r) rid' =
           (if rid' = rid \<and> in_chat c rid r then map_option (\<lambda>p. p\<lparr>pq_outcome := Some res, pq_answers := as\<rparr>) (qr_objs r rid) else qr_objs r rid')"
proof -
  note d = questions_okD(1) [OF ok]
  have obj: "in_chat c rid r \<Longrightarrow> qr_objs r rid \<noteq> None" for c rid using questions_okD(3) [OF ok] by fastforce
  show "distinct (map fst (qr_chats (question_claim now c rid res as r)))"
    using d by (simp add: question_claim_def distinct_dict_put split: option.splits)
  show "in_chat c' rid' (question_claim now c rid res as r) \<longleftrightarrow> in_chat c' rid' r \<and> \<not> (c' = c \<and> rid' = rid)"
    using obj [of c rid] by (auto simp: question_claim_def in_chat_def dict_get_def split: option.splits)
  show "qr_objs (question_claim now c rid res as r) rid' =
      (if rid' = rid \<and> in_chat c rid r then map_option (\<lambda>p. p\<lparr>pq_outcome := Some res, pq_answers := as\<rparr>) (qr_objs r rid) else qr_objs r rid')"
    using obj [of c rid] by (auto simp: question_claim_def in_chat_def dict_get_def split: option.splits)
qed

lemma question_claim_ok:
  assumes ok: "questions_ok r"
  shows "questions_ok (question_claim now c rid res as r)"
proof -
  note D = questions_okD [OF ok]
  note C = question_claim_sel [OF ok]
  show ?thesis
    unfolding questions_ok_def
  proof (intro conjI allI impI)
    show "distinct (map fst (qr_chats (question_claim now c rid res as r)))" by (rule C(1))
    show "b = a" if "in_chat a x (question_claim now c rid res as r)" "in_chat b x (question_claim now c rid res as r)" for a b x
      using that D(2) [of a x b] C(2) by simp
    show "\<exists>p. qr_objs (question_claim now c rid res as r) x = Some p \<and> pq_outcome p = None"
      if x: "in_chat a x (question_claim now c rid res as r)" for a x
    proof -
      have a: "in_chat a x r" "\<not> (a = c \<and> x = rid)" using x C(2) by simp_all
      then have "\<not> (x = rid \<and> in_chat c rid r)" using D(2) [of a x c] by auto
      then show ?thesis using D(3) [OF a(1)] C(3) [where rid' = x] by auto
    qed
  qed
qed

lemma ask_enter_ok:
  assumes ok: "questions_ok r" and fresh: "qr_objs r new = None"
    and run: "ask_enter str_of now timeout new chat raws interactive r = (out, r')"
  shows "questions_ok r'" and "qr_objs r x \<noteq> None \<Longrightarrow> qr_objs r' x = qr_objs r x"
    and "qr_objs r x \<noteq> None \<Longrightarrow> in_chat c x r' = in_chat c x r"
proof -
  have "questions_ok r' \<and> (qr_objs r x \<noteq> None \<longrightarrow> qr_objs r' x = qr_objs r x \<and> in_chat c x r' = in_chat c x r)"
  proof (cases "r' = r")
    case True
    then show ?thesis using ok by simp
  next
    case False
    then obtain ch qs where ch: "normalize_questions str_of raws = Inr qs" "chat = Some ch" "interactive" "ch \<noteq> []"
      using run by (auto simp: ask_enter_def split: sum.splits option.splits if_splits)
    obtain st r1 where st: "question_state now ch r = (st, r1)" by (cases "question_state now ch r")
    note D = questions_okD [OF ok]
    note S = question_state_sel [OF st D(1)]
    define p where "p = \<lparr>pq_questions = qs, pq_created = now, pq_expires = now + timeout, pq_outcome = None, pq_answers = []\<rparr>"
    define st1 where "st1 = st\<lparr>cq_pending := cq_pending st @ [new],
        cq_signals := Some ((case cq_signals st of None \<Rightarrow> [] | Some q \<Rightarrow> q) @ [Qs_requested new])\<rparr>"
    have r': "r' = r1\<lparr>qr_chats := dict_put ch st1 (qr_chats r1), qr_objs := (qr_objs r1)(new \<mapsto> p)\<rparr>"
      using run ch st by (auto simp: ask_enter_def p_def st1_def Let_def)
    have chat: "in_chat a y r' \<longleftrightarrow> in_chat a y r \<or> (a = ch \<and> y = new)" for a y
      using S(2) [of a y] S(4) [of y] by (auto simp: r' in_chat_def st1_def)
    have objs: "qr_objs r' y = (if y = new then Some p else qr_objs r y)" for y using S(3) by (simp add: r')
    have none: "\<not> in_chat a new r" for a using D(3) [of a new] fresh by auto
    have "questions_ok r'"
      unfolding questions_ok_def
    proof (intro conjI allI impI)
      show "distinct (map fst (qr_chats r'))" using S(1) by (simp add: r' distinct_dict_put)
      show "b = a" if "in_chat a y r'" "in_chat b y r'" for a b y using that none D(2) [of a y b] unfolding chat by auto
      show "\<exists>q. qr_objs r' y = Some q \<and> pq_outcome q = None" if "in_chat a y r'" for a y
        using that D(3) [of a y] none unfolding chat objs by (auto simp: p_def)
    qed
    moreover have "qr_objs r' x = qr_objs r x \<and> in_chat c x r' = in_chat c x r" if "qr_objs r x \<noteq> None"
      using that fresh unfolding chat objs by auto
    ultimately show ?thesis by blast
  qed
  then show "questions_ok r'" "qr_objs r x \<noteq> None \<Longrightarrow> qr_objs r' x = qr_objs r x"
    "qr_objs r x \<noteq> None \<Longrightarrow> in_chat c x r' = in_chat c x r" by simp_all
qed

text \<open>A request whose outcome is settled: recorded with its object, and pending in no chat.\<close>

definition question_settled :: "string \<Rightarrow> string \<Rightarrow> given_answer list \<Rightarrow> questions_registry \<Rightarrow> bool" where
  "question_settled rid res as r = ((\<exists>p. qr_objs r rid = Some p \<and> pq_outcome p = Some res \<and> pq_answers p = as) \<and> (\<forall>c. \<not> in_chat c rid r))"

lemma claim_keeps_question_settled:
  assumes ok: "questions_ok r" and s: "question_settled rid res as r"
  shows "question_settled rid res as (question_claim now c x res' as' r)"
proof -
  note D = questions_okD [OF ok]
  note C = question_claim_sel [OF ok]
  have "\<not> (rid = x \<and> in_chat c x r)" using s by (auto simp: question_settled_def)
  then show ?thesis using s C(2,3) [where rid' = rid] by (auto simp: question_settled_def)
qed

lemma gc_keeps_question_settled:
  assumes "questions_ok r" "question_settled rid res as r"
  shows "question_settled rid res as (question_gc now r)"
  using assms question_gc_sel [OF questions_okD(1) [OF assms(1)], where now = now] by (simp add: question_settled_def)

lemma question_step_ok:
  assumes ok: "questions_ok (qs_reg s)" and set: "question_settled rid res as (qs_reg s) \<or> \<not> keep"
  shows "questions_ok (qs_reg (question_step str_of e s)) \<and> (question_settled rid res as (qs_reg (question_step str_of e s)) \<or> \<not> keep)"
proof (cases e)
  case (Qv_ask now timeout new chat raws interactive)
  show ?thesis
  proof (cases "qr_objs (qs_reg s) new")
    case None
    obtain out r where run: "ask_enter str_of now timeout new chat raws interactive (qs_reg s) = (out, r)"
      by (cases "ask_enter str_of now timeout new chat raws interactive (qs_reg s)")
    note E = ask_enter_ok [OF ok None run]
    have "question_settled rid res as r" if "question_settled rid res as (qs_reg s)" using that E(2,3) [of rid] by (auto simp: question_settled_def)
    moreover have "qs_reg (question_step str_of e s) = r" using Qv_ask None run by (cases out) simp_all
    ultimately show ?thesis using E(1) set by auto
  qed (use Qv_ask ok set in simp)
next
  case (Qv_answer now c x raws)
  then show ?thesis using ok set question_claim_ok [OF ok] claim_keeps_question_settled [OF ok]
    by (auto simp: question_answer_def split: option.splits sum.splits)
next
  case (Qv_cancel now c x)
  then show ?thesis using ok set question_claim_ok [OF ok] claim_keeps_question_settled [OF ok]
    by (auto simp: question_cancel_def split: option.splits)
next
  case (Qv_exit now i how)
  then show ?thesis using ok set question_claim_ok [OF ok] claim_keeps_question_settled [OF ok]
    by (auto simp: ask_exit_def Let_def split: prod.splits wait_end.splits)
next
  case (Qv_poll now)
  then show ?thesis using set question_gc_ok [OF ok, of now] gc_keeps_question_settled [OF ok, of rid res as now]
    by (auto simp: question_chat_ids_def Let_def)
qed

interpretation question_runs: step_system "question_step str_of" "\<lambda>_. True" "\<lambda>s. questions_ok (qs_reg s)" for str_of
  by unfold_locales (use question_step_ok [where keep = False] in blast)

interpretation question_settled_runs: step_system "question_step str_of" "\<lambda>_. True" "\<lambda>s. questions_ok (qs_reg s) \<and> question_settled rid res as (qs_reg s)"
  for str_of rid res as
  by unfold_locales (use question_step_ok [where keep = True] in blast)

text \<open>
  C24. An answer that was acknowledged to the user reaches the tool: whatever other calls, answers, cancellations, timeouts and polls happen
  before the waiting call comes back, and also when its own timeout races with the answer, it returns the status answered
  and the answers that were accepted.
\<close>

theorem acknowledged_answer_is_delivered:
  assumes run: "s = run_steps (question_step str_of) es initial_questions"
    and p: "question_pending c rid (qs_reg s) = Some p" and norm: "normalize_answers str_of raws (pq_questions p) = Inr as"
    and later: "s' = run_steps (question_step str_of) (Qv_answer now c rid raws # fs) s" and how: "how \<noteq> Run_cancelled"
  shows "fst (question_answer str_of now c rid raws (qs_reg s)) = Ar_ok ''answered'' \<and>
         fst (ask_exit now' c rid how (qs_reg s')) = Some (''answered'', as)"
proof -
  have ok: "questions_ok (qs_reg s)"
    unfolding run by (rule question_runs.inv_run) (simp_all add: list_all_iff initial_questions_def questions_ok_def in_chat_def)
  note D = questions_okD [OF ok]
  have reg: "in_chat c rid (qs_reg s)" "qr_objs (qs_reg s) rid = Some p"
    using p by (auto simp: question_pending_def in_chat_def dict_get_def split: option.splits if_splits)
  define r1 where "r1 = question_claim now c rid ''answered'' as (qs_reg s)"
  have ans: "question_answer str_of now c rid raws (qs_reg s) = (Ar_ok ''answered'', r1)"
    using p norm by (simp add: question_answer_def r1_def)
  note C = question_claim_sel [OF ok, where now = now and c = c and rid = rid and res = "''answered''" and as = as, folded r1_def]
  have "\<not> in_chat a rid r1" for a using C(2) [where c' = a and rid' = rid] D(2) [OF reg(1), of a] by auto
  then have "question_settled rid ''answered'' as r1" using C(3) [where rid' = rid] reg by (simp add: question_settled_def)
  moreover have "questions_ok r1" unfolding r1_def by (rule question_claim_ok [OF ok])
  moreover have s': "s' = run_steps (question_step str_of) fs (s\<lparr>qs_reg := r1\<rparr>)" using later ans by simp
  ultimately have fin: "questions_ok (qs_reg s') \<and> question_settled rid ''answered'' as (qs_reg s')"
    unfolding s' by (intro question_settled_runs.inv_run) (simp_all add: list_all_iff)
  then have "question_settled rid ''answered'' as (question_claim now' c rid ''timeout'' [] (qs_reg s'))" by (simp add: claim_keeps_question_settled)
  moreover have "ask_result rid r = (''answered'', as)" if "question_settled rid ''answered'' as r" for r
    using that by (auto simp: question_settled_def ask_result_def)
  ultimately show ?thesis using ans fin how by (cases how) (simp_all add: ask_exit_def Let_def)
qed

definition raw_questions :: "json list" where
  "raw_questions =
     [JObj [(''id'', JStr ''q1''), (''question'', JStr ''Which?''), (''multi_select'', JBool True),
            (''options'', JList [JObj [(''label'', JStr ''A'')], JObj [(''label'', JStr ''B'')]])],
      JObj [(''id'', JStr '' q2 ''), (''question'', JStr ''Why?'')]]"

definition asked :: question_sys where
  "asked = run_steps (question_step (\<lambda>_. [])) [Qv_ask 0 100 ''r1'' (Some ''c'') raw_questions True, Qv_ask 1 100 ''r2'' (Some ''c'') raw_questions True]
     initial_questions"

theorem acknowledged_answer_is_delivered_witness:
  "fst (ask_exit 100 ''c'' ''r1'' Timed_out (qs_reg (run_steps (question_step (\<lambda>_. []))
       [Qv_answer 99 ''c'' ''r1'' two_answers, Qv_cancel 99 ''c'' ''r1'', Qv_exit 100 1 Timed_out] asked))) =
   Some (''answered'', [\<lparr>an_id = ''q1'', an_selected = [''option_2''], an_labels = [''B''], an_skipped = False, an_custom = None\<rparr>,
                       \<lparr>an_id = ''q2'', an_selected = [], an_labels = [], an_skipped = True, an_custom = None\<rparr>])"
proof -
  have p: "map_option pq_questions (question_pending ''c'' ''r1'' (qs_reg asked)) = Some two_questions" by code_simp
  then obtain p where p: "question_pending ''c'' ''r1'' (qs_reg asked) = Some p" "pq_questions p = two_questions" by auto
  have "normalize_answers (\<lambda>_. []) two_answers two_questions =
      Inr [\<lparr>an_id = ''q1'', an_selected = [''option_2''], an_labels = [''B''], an_skipped = False, an_custom = None\<rparr>,
           \<lparr>an_id = ''q2'', an_selected = [], an_labels = [], an_skipped = True, an_custom = None\<rparr>]" by code_simp
  then show ?thesis using acknowledged_answer_is_delivered [OF asked_def p(1) _ refl, unfolded p(2)] by blast
qed

end
