(* ===== verification/Circuit_Breaker.thy ===== *)
theory Circuit_Breaker
  imports Prelude
begin

text \<open>
  The circuit breaker of \<open>core/infra/rate_limit.py\<close>. A call is split at the protected function: \<open>call_enter\<close> is the check before it,
  \<open>call_exit\<close> what happens when it returns or raises. Both \<open>call\<close> and \<open>call_async\<close> are this pair; of the latter any number may be under way
  at once, so the calls of a process are a sequence of events. Times are microseconds. The request limits are those of the
  library \<open>slowapi\<close> and are not modelled.
\<close>

section \<open>The breaker\<close>

datatype breaker_state = Cb_CLOSED | Cb_OPEN | Cb_HALF_OPEN

record breaker =
  cb_failure_threshold :: int
  cb_success_threshold :: int
  cb_timeout :: time
  cb_failure_count :: int
  cb_success_count :: int
  cb_state :: breaker_state
  cb_last_failure :: "time option"

definition new_breaker :: "int \<Rightarrow> int \<Rightarrow> time \<Rightarrow> breaker" where
  "new_breaker ft st timeout =
     \<lparr>cb_failure_threshold = ft, cb_success_threshold = st, cb_timeout = timeout, cb_failure_count = 0, cb_success_count = 0,
      cb_state = Cb_CLOSED, cb_last_failure = None\<rparr>"

definition should_attempt_reset :: "time \<Rightarrow> breaker \<Rightarrow> bool" where
  "should_attempt_reset now b =
     (if cb_state b \<noteq> Cb_OPEN then False
      else case cb_last_failure b of None \<Rightarrow> True | Some t \<Rightarrow> cb_timeout b \<le> now - t)"

definition on_success :: "breaker \<Rightarrow> breaker" where
  "on_success b =
     (if cb_state b = Cb_HALF_OPEN
      then let b1 = b\<lparr>cb_success_count := cb_success_count b + 1\<rparr>
           in if cb_success_threshold b \<le> cb_success_count b1
              then b1\<lparr>cb_state := Cb_CLOSED, cb_failure_count := 0, cb_success_count := 0\<rparr> else b1
      else if cb_state b = Cb_CLOSED then b\<lparr>cb_failure_count := 0\<rparr>
      else b)"

definition on_failure :: "time \<Rightarrow> breaker \<Rightarrow> breaker" where
  "on_failure now b =
     (let b1 = b\<lparr>cb_failure_count := cb_failure_count b + 1, cb_last_failure := Some now\<rparr>
      in if cb_state b = Cb_HALF_OPEN then b1\<lparr>cb_state := Cb_OPEN, cb_success_count := 0\<rparr>
         else if cb_state b = Cb_CLOSED \<and> cb_failure_threshold b \<le> cb_failure_count b1 then b1\<lparr>cb_state := Cb_OPEN\<rparr>
         else b1)"

text \<open>Whether the call goes ahead, or \<open>CircuitBreakerOpenError\<close> is raised.\<close>

definition call_enter :: "time \<Rightarrow> breaker \<Rightarrow> bool \<times> breaker" where
  "call_enter now b =
     (let b1 = (if should_attempt_reset now b then b\<lparr>cb_state := Cb_HALF_OPEN, cb_success_count := 0\<rparr> else b)
      in (cb_state b1 \<noteq> Cb_OPEN, b1))"

datatype call_outcome = Returned | Raised_expected | Raised_other

definition call_exit :: "time \<Rightarrow> call_outcome \<Rightarrow> breaker \<Rightarrow> breaker" where
  "call_exit now out b =
     (case out of Returned \<Rightarrow> on_success b | Raised_expected \<Rightarrow> on_failure now b | Raised_other \<Rightarrow> b)"

text \<open>
  \<open>get_circuit_breaker\<close>: the breaker of one of the three global services. A breaker for any other name is made anew on every
  call and kept nowhere. A \<open>breaker_view\<close> is one line of the console.
\<close>

definition get_circuit_breaker :: "(string \<times> breaker) list \<Rightarrow> string \<Rightarrow> breaker" where
  "get_circuit_breaker breakers service =
     (case dict_get service breakers of Some b \<Rightarrow> b | None \<Rightarrow> new_breaker 5 2 60000000)"

record breaker_view =
  bv_name :: string
  bv_state :: breaker_state
  bv_failure_count :: int
  bv_failure_threshold :: int
  bv_since_failure :: "time option"
  bv_timeout :: time

definition snapshot_circuit_breakers :: "time \<Rightarrow> (string \<times> breaker) list \<Rightarrow> breaker_view list" where
  "snapshot_circuit_breakers now breakers =
     map (\<lambda>(name, b). \<lparr>bv_name = name, bv_state = cb_state b, bv_failure_count = cb_failure_count b,
                       bv_failure_threshold = cb_failure_threshold b,
                       bv_since_failure = map_option (\<lambda>t. max 0 (now - t)) (cb_last_failure b), bv_timeout = cb_timeout b\<rparr>) breakers"

section \<open>Interleaved calls\<close>

datatype breaker_event = Br_enter time | Br_exit time call_outcome

fun event_time :: "breaker_event \<Rightarrow> time" where
  "event_time (Br_enter now) = now"
| "event_time (Br_exit now _) = now"

record breaker_sys =
  bs_breaker :: breaker
  bs_flying :: nat
  bs_admitted :: "time list"

fun breaker_step :: "breaker_event \<Rightarrow> breaker_sys \<Rightarrow> breaker_sys" where
  "breaker_step (Br_enter now) s =
     (let (ok, b) = call_enter now (bs_breaker s)
      in if ok then s\<lparr>bs_breaker := b, bs_flying := bs_flying s + 1, bs_admitted := bs_admitted s @ [now]\<rparr> else s\<lparr>bs_breaker := b\<rparr>)"
| "breaker_step (Br_exit now out) s =
     (if bs_flying s = 0 then s
      else s\<lparr>bs_breaker := call_exit now out (bs_breaker s), bs_flying := bs_flying s - 1\<rparr>)"

definition breaker_ok :: "breaker \<Rightarrow> bool" where
  "breaker_ok b =
     (0 < cb_failure_threshold b \<and> 0 < cb_success_threshold b \<and> 0 \<le> cb_failure_count b \<and> 0 \<le> cb_success_count b \<and>
      (cb_state b = Cb_CLOSED \<longrightarrow> cb_failure_count b < cb_failure_threshold b) \<and>
      (cb_state b = Cb_HALF_OPEN \<longrightarrow> cb_success_count b < cb_success_threshold b) \<and>
      (cb_state b = Cb_OPEN \<longrightarrow> cb_last_failure b \<noteq> None))"

lemma on_success_ok: "breaker_ok b \<Longrightarrow> breaker_ok (on_success b)"
  by (auto simp: breaker_ok_def on_success_def Let_def)

lemma on_failure_ok: "breaker_ok b \<Longrightarrow> breaker_ok (on_failure now b)"
  by (cases "cb_state b") (auto simp: breaker_ok_def on_failure_def Let_def)

lemma call_enter_ok: "breaker_ok b \<Longrightarrow> breaker_ok (snd (call_enter now b))"
  by (auto simp: breaker_ok_def call_enter_def Let_def should_attempt_reset_def split: if_splits)

interpretation breaker_runs: step_system breaker_step "\<lambda>_. True" "\<lambda>s. breaker_ok (bs_breaker s)"
proof
  fix e :: breaker_event and s :: breaker_sys assume ok: "breaker_ok (bs_breaker s)"
  show "breaker_ok (bs_breaker (breaker_step e s))"
  proof (cases e)
    case (Br_enter now)
    then show ?thesis using call_enter_ok [OF ok, of now] by (auto split: prod.splits)
  next
    case (Br_exit now out)
    then show ?thesis using on_success_ok [OF ok] on_failure_ok [OF ok] ok by (simp add: call_exit_def split: call_outcome.splits)
  qed
qed

lemma call_enter_open:
  assumes "cb_state b = Cb_OPEN" "cb_last_failure b = Some t" "now < t + cb_timeout b"
  shows "call_enter now b = (False, b)"
  using assms by (simp add: call_enter_def should_attempt_reset_def)

lemma call_exit_open:
  assumes "cb_state b = Cb_OPEN" "cb_last_failure b = Some t"
  shows "cb_state (call_exit now out b) = Cb_OPEN" "cb_timeout (call_exit now out b) = cb_timeout b"
    "\<exists>u. cb_last_failure (call_exit now out b) = Some u \<and> min t now \<le> u"
  using assms by (auto simp: call_exit_def on_success_def on_failure_def Let_def split: call_outcome.splits)

text \<open>
  Once the breaker has opened, it admits no call before its timeout has passed since the last failure, whatever calls that
  were already under way do meanwhile.
\<close>

theorem open_breaker_admits_nothing:
  assumes "cb_state (bs_breaker s) = Cb_OPEN" and "cb_last_failure (bs_breaker s) = Some t"
    and "list_all (\<lambda>e. t \<le> event_time e \<and> event_time e < t + cb_timeout (bs_breaker s)) es"
  shows "bs_admitted (run_steps breaker_step es s) = bs_admitted s \<and> cb_state (bs_breaker (run_steps breaker_step es s)) = Cb_OPEN"
proof -
  have "bs_admitted (run_steps breaker_step es s) = bs_admitted s \<and> cb_state (bs_breaker (run_steps breaker_step es s)) = Cb_OPEN"
    if "cb_state (bs_breaker s) = Cb_OPEN" "\<exists>u. cb_last_failure (bs_breaker s) = Some u \<and> t \<le> u" "cb_timeout (bs_breaker s) = d"
      "list_all (\<lambda>e. t \<le> event_time e \<and> event_time e < t + d) es" for d
    using that
  proof (induction es arbitrary: s)
    case (Cons e es)
    obtain u where u: "cb_last_failure (bs_breaker s) = Some u" "t \<le> u" using Cons.prems(2) by blast
    have t: "t \<le> event_time e" "event_time e < t + d" using Cons.prems(4) by simp_all
    define s1 where "s1 = breaker_step e s"
    have s1: "bs_admitted s1 = bs_admitted s \<and> cb_state (bs_breaker s1) = Cb_OPEN \<and> cb_timeout (bs_breaker s1) = d \<and>
        (\<exists>u. cb_last_failure (bs_breaker s1) = Some u \<and> t \<le> u)"
    proof (cases e)
      case (Br_enter now)
      then have "call_enter now (bs_breaker s) = (False, bs_breaker s)"
        using call_enter_open [OF Cons.prems(1) u(1)] t u(2) Cons.prems(3) by simp
      then show ?thesis using Br_enter Cons.prems u by (simp add: s1_def)
    next
      case (Br_exit now out)
      obtain v where "cb_last_failure (call_exit now out (bs_breaker s)) = Some v" "min u now \<le> v"
        using call_exit_open(3) [OF Cons.prems(1) u(1)] by blast
      then show ?thesis using Br_exit Cons.prems u t call_exit_open(1,2) [OF Cons.prems(1) u(1)] by (auto simp: s1_def)
    qed
    then show ?case using Cons.IH [of s1] Cons.prems(4) by (simp add: s1_def)
  qed simp
  then show ?thesis using assms by blast
qed

definition tripped :: breaker_sys where
  "tripped = run_steps breaker_step [Br_enter 1, Br_enter 2, Br_exit 3 Raised_expected, Br_enter 4, Br_exit 5 Raised_expected]
     \<lparr>bs_breaker = new_breaker 2 1 60, bs_flying = 0, bs_admitted = []\<rparr>"

theorem open_breaker_admits_nothing_witness:
  "bs_admitted (run_steps breaker_step [Br_enter 6, Br_exit 20 Returned, Br_enter 64] tripped) = [1, 2, 4]"
proof -
  have "cb_state (bs_breaker tripped) = Cb_OPEN" "cb_last_failure (bs_breaker tripped) = Some 5"
    "list_all (\<lambda>e. 5 \<le> event_time e \<and> event_time e < 5 + cb_timeout (bs_breaker tripped)) [Br_enter 6, Br_exit 20 Returned, Br_enter 64]"
    "bs_admitted tripped = [1, 2, 4]" by code_simp+
  then show ?thesis using open_breaker_admits_nothing [of tripped 5 "[Br_enter 6, Br_exit 20 Returned, Br_enter 64]"] by simp
qed

text \<open>
  A closed breaker opens with exactly its threshold of consecutive failures, and a breaker that may try again closes, with its
  counters reset, with exactly its threshold of successes.
\<close>

fun exits :: "breaker \<Rightarrow> (time \<times> call_outcome) list \<Rightarrow> breaker" where
  "exits b [] = b"
| "exits b ((now, out) # xs) = exits (call_exit now out b) xs"

theorem breaker_opens_at_threshold:
  assumes "cb_state b = Cb_CLOSED" and "cb_failure_count b = 0" and "0 < cb_failure_threshold b"
    and "list_all (\<lambda>(_, out). out = Raised_expected) xs"
  shows "cb_state (exits b xs) = (if int (length xs) < cb_failure_threshold b then Cb_CLOSED else Cb_OPEN)"
proof -
  have opened: "cb_state (exits b' ys) = Cb_OPEN" if "cb_state b' = Cb_OPEN" "list_all (\<lambda>(_, out). out = Raised_expected) ys" for b' ys
    using that by (induction ys arbitrary: b') (auto simp: call_exit_def on_failure_def Let_def)
  have "cb_state (exits b' ys) = (if cb_failure_count b' + int (length ys) < cb_failure_threshold b' then Cb_CLOSED else Cb_OPEN)"
    if "cb_state b' = Cb_CLOSED" "cb_failure_count b' < cb_failure_threshold b'" "list_all (\<lambda>(_, out). out = Raised_expected) ys" for b' ys
    using that
  proof (induction ys arbitrary: b')
    case (Cons y ys)
    obtain now where y: "y = (now, Raised_expected)" using Cons.prems(3) by (cases y) auto
    define b1 where "b1 = on_failure now b'"
    have st: "exits b' (y # ys) = exits b1 ys" by (simp add: y b1_def call_exit_def)
    show ?case
    proof (cases "cb_failure_count b' + 1 < cb_failure_threshold b'")
      case True
      then have "cb_state b1 = Cb_CLOSED" "cb_failure_count b1 = cb_failure_count b' + 1" "cb_failure_threshold b1 = cb_failure_threshold b'"
        using Cons.prems(1) by (simp_all add: b1_def on_failure_def Let_def)
      then show ?thesis using Cons.IH [of b1] Cons.prems(3) True st by (simp add: algebra_simps)
    next
      case False
      then have "cb_state b1 = Cb_OPEN" using Cons.prems(1) by (simp add: b1_def on_failure_def Let_def)
      then show ?thesis using opened [of b1 ys] Cons.prems(3) False st by simp
    qed
  qed simp
  from this [of b xs] show ?thesis using assms by simp
qed

theorem breaker_closes_at_threshold:
  assumes "cb_state b = Cb_HALF_OPEN" and "cb_success_count b = 0" and "0 < cb_success_threshold b"
    and "int (length xs) = cb_success_threshold b" and "list_all (\<lambda>(_, out). out = Returned) xs"
  shows "cb_state (exits b xs) = Cb_CLOSED \<and> cb_failure_count (exits b xs) = 0 \<and> cb_success_count (exits b xs) = 0"
proof -
  have "cb_state (exits b' ys) = Cb_CLOSED \<and> cb_failure_count (exits b' ys) = 0 \<and> cb_success_count (exits b' ys) = 0"
    if "cb_state b' = Cb_HALF_OPEN" "cb_success_count b' < cb_success_threshold b'"
      "cb_success_count b' + int (length ys) = cb_success_threshold b'" "list_all (\<lambda>(_, out). out = Returned) ys" for b' ys
    using that
  proof (induction ys arbitrary: b')
    case (Cons y ys)
    obtain now where y: "y = (now, Returned)" using Cons.prems(4) by (cases y) auto
    define b1 where "b1 = on_success b'"
    have st: "exits b' (y # ys) = exits b1 ys" by (simp add: y b1_def call_exit_def)
    show ?case
    proof (cases "ys = []")
      case True
      then show ?thesis using Cons.prems st by (simp add: b1_def on_success_def Let_def)
    next
      case False
      then have "0 < int (length ys)" by simp
      then have "cb_success_count b' + 1 < cb_success_threshold b'" using Cons.prems(3) unfolding list.size by linarith
      then have "cb_state b1 = Cb_HALF_OPEN" "cb_success_count b1 = cb_success_count b' + 1" "cb_success_threshold b1 = cb_success_threshold b'"
        using Cons.prems(1) by (simp_all add: b1_def on_success_def Let_def)
      then show ?thesis using Cons.IH [of b1] Cons.prems(3,4) \<open>cb_success_count b' + 1 < cb_success_threshold b'\<close> st by simp
    qed
  qed simp
  from this [of b xs] show ?thesis using assms by simp
qed

text \<open>
  The half-open state does not limit the calls it lets through: however many enter before the first of them returns, all are
  admitted.
\<close>

theorem half_open_admits_all:
  assumes "cb_state (bs_breaker s) = Cb_HALF_OPEN"
  shows "bs_admitted (run_steps breaker_step (map Br_enter ts) s) = bs_admitted s @ ts"
  using assms
proof (induction ts arbitrary: s)
  case (Cons t ts)
  have "call_enter t (bs_breaker s) = (True, bs_breaker s)" using Cons.prems by (simp add: call_enter_def should_attempt_reset_def)
  then show ?case using Cons by simp
qed simp

end
