(* ===== verification/Spec2Isabelle.thy ===== *)
theory Spec2Isabelle
  imports Tool_Gateway Ledger_Retention Context_Assembler Steer_Queue Ephemeral_State Outbox_Laws Kb_Index_Queue Tool_Permissions User_Questions Circuit_Breaker
begin

text \<open>
  A verification development for the backend of HugAgentOS (\<open>src/src/backend\<close>, Python): the part that makes a
  chat turn durable, the queues behind it, and the part that decides what a tool may do. A user's message is admitted as a run with one writer per chat; a worker claims the run
  under a lease, streams numbered events, calls tools through a ledger that decides whether a side effect may
  be performed, takes instructions the user sends meanwhile from a queue, and assembles the context of every
  model request under a token budget. After a crash another process recovers runs and tool effects from the
  database alone. Before a tool touches the user's files or host, the permission gateway judges the call by the
  user's policy and preset, asks the user where they say so, and confines commands in an operating-system sandbox. What
  a turn leaves behind for the memory and the knowledge base goes through durable queues of their own.

  \<^bold>\<open>Parts and theories.\<close> Each theory opens with a description of its own.

  \<^item> \<open>Prelude\<close>: time in microseconds, SQL comparisons with NULL, Python dictionaries and truthiness, tables as lists
    of records, and two interfaces as locales. \<open>step_system\<close> is a component whose operations, in any order, keep
    an invariant; \<open>lease_cell\<close> is a resource held under expiring leases, with the theorem that of two consecutive
    grants to different owners the second is after the lease of the first.
  \<^item> \<open>Chat_Db\<close>: the tables of \<open>core/db/models/chat.py\<close> with their constraints, and the invariant \<open>chat_db_ok\<close> (unique
    runs, one holder of a writer slot per chat, gap-free journals).
  \<^item> \<open>Run_Journal\<close>: \<open>core/services/run_journal.py\<close>, every method of \<open>RunJournal\<close> and \<open>durable_run_binding\<close>: claiming and
    renewing leases, fenced writes, event offsets, completion, and the recovery of orphans.
  \<^item> \<open>Chat_Sequencer\<close>: \<open>core/services/chat_sequencer.py\<close> with \<open>core/chat/inflight.py\<close>: admission, numbering and
    rewriting of turns.
  \<^item> \<open>Run_Executor\<close>: of \<open>orchestration/chat_run_executor.py\<close> the start of a worker, the reservation of event numbers,
    cancellation, the reaper and the status transitions.
  \<^item> \<open>Tool_Effects\<close>: \<open>ToolEffectJournal\<close> of \<open>core/services/tool_effect_ledger.py\<close> and its tables: intents,
    invocation claims, outcomes, takeover after a lost claim.
  \<^item> \<open>Ledger_Retention\<close>: \<open>prune_settled\<close> of the same file, the retention sweep, and the ledger with the sweep among its
    transactions.
  \<^item> \<open>Tool_Gateway\<close>: the rest of that file: the recovery registry, \<open>ToolEffectGateway\<close>, the recovery sweep and the
    search of exception chains.
  \<^item> \<open>Context_Content\<close> and \<open>Context_Assembler\<close>: \<open>core/llm/context_ir.py\<close> with \<open>core/immutable.py\<close> and the canonical form
    of \<open>core/llm/execution_manifest.py\<close>: token estimates, truncation, pruning and the selection under a budget.
  \<^item> \<open>Steer_Queue\<close>: \<open>core/services/steer_queue.py\<close> and its table.
  \<^item> \<open>Ephemeral_State\<close>: \<open>core/infra/ephemeral.py\<close>, the in-process and the Redis store of short-lived state, and the leader
    election of \<open>core/infra/leader.py\<close> on top of it.
  \<^item> \<open>Memory_Outbox\<close>, \<open>Outbox_Steps\<close> and \<open>Outbox_Laws\<close>: \<open>core/memory/outbox.py\<close> with its lane and table: the durable jobs of
    the memory subsystem; the operations, the sessions that interleave, and what holds over them.
  \<^item> \<open>Kb_Index_Queue\<close>: \<open>core/kb/index_queue.py\<close> and the worker slots and status summary around it.
  \<^item> \<open>Posix_Paths\<close> and \<open>Py_Shell\<close>: what the following theories use of Python's strings, \<open>posixpath\<close>, \<open>re\<close> and \<open>shlex\<close>.
    The locale \<open>path_tree\<close> is the interface of a containment test on paths.
  \<^item> \<open>Sandbox_Policy\<close>: \<open>core/sandbox/oslayer/policy.py\<close> and \<open>core/sandbox/os_sandbox.py\<close>: sandbox policies, their
    resolution and JSON form, and the policy built from a permission decision.
  \<^item> \<open>Bwrap\<close>: \<open>core/sandbox/oslayer/bwrap.py\<close>: the mounts of a confined launch on Linux.
  \<^item> \<open>Local_Policy\<close> and \<open>Local_Grants\<close>: \<open>core/sandbox/local_policy.py\<close>, the classification of paths and commands, and
    \<open>core/services/local_grant_service.py\<close>, the store of the user's folders and dispositions.
  \<^item> \<open>Confirm_Gate\<close>: \<open>core/llm/tools/_myspace_confirm.py\<close>: the gate at which a tool call waits for the user's consent.
  \<^item> \<open>Workspace_Paths\<close>: \<open>core/llm/tools/_paths.py\<close> and \<open>services/script_runner_service/workspace_paths.py\<close>: which paths
    the file tools accept and what they stand for.
  \<^item> \<open>Tool_Permissions\<close>: \<open>core/llm/tool_permissions.py\<close>, the permission gateway that puts these together: a
    tool call becomes intents, every intent is decided, and a ticket lets the execution boundary go ahead.
  \<^item> \<open>User_Questions\<close>: \<open>core/llm/tools/user_questions.py\<close> and \<open>core/llm/human_interaction.py\<close>: questions a tool asks the user
    and waits for.
  \<^item> \<open>Circuit_Breaker\<close>: the circuit breaker of \<open>core/infra/rate_limit.py\<close>.
  \<^item> This theory: the events of journal, sequencer and executor as one system, and the properties that need
    more than one of them.

  \<^bold>\<open>How the model reads.\<close> A table is a list of records with the columns of the model class, a nullable column an
  option. The database is a record that each component extends by its tables, so an operation of one
  component works on the database of all. A transaction is one function from the database to a result and
  the database; a rollback returns the argument; exceptions are values of an error datatype per file. Other
  processes are explicit: an interleaving is a list of events run by \<open>run_steps\<close>, and operations that leave
  their transaction between two database accesses (retry loops, tool calls, heartbeats) take as arguments
  what the others do in between. Clocks, fresh identifiers, hashes, tools, recovery adapters and the text of a Python
  value are arguments, never definitions.

  \<^bold>\<open>What is shown.\<close> Under any interleaving the tables of chats and runs keep their invariants and only grow. An owner without a live
  lease changes nothing, and while a lease lives the writes of all other processes spare the run, a cancellation apart. Event numbers are never handed out twice; a busy chat refuses, and once a run completes the next
  turn is admitted unless the completion itself put a successor into the slot; recovery follows its decision table and is
  idempotent; the reaper spares live runs. A tool effect that must not be replayed is executed by one invocation only.
  The tool ledger only appends until the retention sweep removes an effect, which it does only when the run has ended and the
  retention has passed, and an outcome is final until then. What the gateway reports is what the ledger records, or the ledger still
  awaits another invocation; where another writer settled the effect first, the payload is that of the ledger and the state its own. The recovery
  sweep never replays what it must not, and the theorem on its completion says exactly which failures stop it. A context
  assembly keeps every item on exactly one side and in order, within the budget, and cuts history at its oldest end
  only. A steer item follows its life cycle, a claim on it is exclusive until it expires, and accepting is idempotent. The two ephemeral stores answer
  alike except on \<open>bump\<close>; a leader's lease excludes the other processes, whatever commands interleave with its own, as long as none
  stops. Memory jobs are neither lost nor doubled, and a message is settled exactly once, after all its jobs; a document is
  tried a bounded number of times per admission, up to the attempts that lost updates forget.

  A path is on a ticket only if the policy did not deny it and, where the policy asks, the preset, an unattended entry
  or the user answered; a command on a ticket runs confined unless the preset is \<open>full\<close>. The gate lets at most one call per
  confirmation through, none without consent, and keeps a confirmation exactly as long as somebody waits for it. A sandboxed
  command writes in the writable roots of its policy only, and, on paths without symbolic links and outside roots reopened
  beneath a denied directory, only where the policy says so; the narrowest entry of a policy decides, and the
  roots of a policy are those of the decision it was built from. Dangerous programs are recognized at every command
  position, and a stricter policy never decides more leniently. Accepted paths of the file tools stay in the workspace, except a
  \<open>/myspace\<close> path without a user. An answer to a tool's question that was acknowledged is
  delivered, and fits the question; an open circuit breaker admits no call before its timeout.

  The laws of the locales are discharged by interpretations on these definitions (\<open>backend\<close>, \<open>steer\<close>, \<open>gate_runs\<close>, \<open>paths\<close>
  and those in the component theories), and the properties rest on them. Theorems that show where the code does something else
  than its comments say stand beside the others, in the theory of their component.

  \<^bold>\<open>Parameters and what is asked of them.\<close> A Redis server is a function that satisfies \<open>redis_documented\<close>, bubblewrap
  one that satisfies \<open>bwrap_documented\<close>: both are instantiated by concrete functions in the witnesses. The host is
  the record \<open>os_host\<close> of its answers about files, with no assumption except where a theorem states one (\<open>paths_literal\<close>).
  Hashes and the text of a Python value are uninterpreted functions.

  \<^bold>\<open>Bounds and fuel.\<close> All functions are total. The retry loops count their attempts as the code does (eight in the
  steer queue, the constants of the ledger there). Only the poll of a waiting tool call has no bound in the code:
  \<open>execute_outcome\<close> takes fuel, one unit per round, and \<open>None\<close> says that it is still waiting;
  \<open>polling_needs_live_claim\<close> shows when another round is asked for. Refitting and shrinking loops terminate by measures
  on the target and on the slices, the search of exception chains by the set of objects it has not seen.

  \<^bold>\<open>Not modelled.\<close> The coroutine that streams a model's answer, the agent construction and the model providers
  (third-party objects); the tables of the harness that the retention sweep also cleans; the HTTP routes and CRUD services around the
  modelled transactions; extractors and stores of the memory, parsers of the knowledge base, ontology, channels,
  plugins, marketplaces and the desktop and web front ends (network, file and model I/O, or third-party
  libraries); the rate limits of \<open>slowapi\<close>; one-off boot steps of the leader; the Seatbelt and Windows backends, the containers, and
  the Windows tables of the command policy; the wording of messages. Strings of the permission theories are over Latin-1. Floats, sets and SDK objects do not occur in the modelled context values, and text
  is a list of code points without lone surrogates. Isolation below a transaction (READ COMMITTED anomalies
  inside one function) is modelled only where an operation takes what happens in between as an argument.
\<close>

section \<open>Events of every component\<close>

datatype 'd backend_event =
    Bk_journal "'d journal_event"
  | Bk_accept time string string string string string utext dict "string option" "dict option"
  | Bk_accept_existing time string string string string string dict "string option" "int option"
  | Bk_accept_replacement time string string string string string string int utext dict "string option" "dict option"
  | Bk_mark_running time string
  | Bk_release_writer time string run_status
  | Bk_abandon time string string
  | Bk_fail time string string
  | Bk_claim_execution time string
  | Bk_stop time string run_status "string option" bool
  | Bk_acknowledge time string
  | Bk_acknowledge_never time string
  | Bk_cancel_run time bool "bool option" string string
  | Bk_reap reaper_config reaper_env time

fun backend_step :: "'z chat_db_scheme backend_event \<Rightarrow> 'z chat_db_scheme \<Rightarrow> 'z chat_db_scheme" where
  "backend_step (Bk_journal e) db = journal_step e db"
| "backend_step (Bk_accept now rid um am cid uid content rp model extra) db =
     snd (accept_main_run now rid um am cid uid content rp model extra db)"
| "backend_step (Bk_accept_existing now rid am cid uid um rp dm ds) db =
     snd (accept_existing_user_run now rid am cid uid um rp dm ds db)"
| "backend_step (Bk_accept_replacement now rid um am cid uid tm ds content rp model extra) db =
     snd (accept_replacement_user_run now rid um am cid uid tm ds content rp model extra db)"
| "backend_step (Bk_mark_running now rid) db = snd (mark_running now rid db)"
| "backend_step (Bk_release_writer now rid st) db = snd (release_writer now rid st db)"
| "backend_step (Bk_abandon now rid reason) db = snd (abandon_pending_run now rid reason db)"
| "backend_step (Bk_fail now rid reason) db = snd (fail_run now rid reason db)"
| "backend_step (Bk_claim_execution now rid) db = snd (claim_run_execution now rid db)"
| "backend_step (Bk_stop now rid st msg req) db = snd (request_run_stop now rid st msg req db)"
| "backend_step (Bk_acknowledge now rid) db = snd (acknowledge_terminal_writer now rid db)"
| "backend_step (Bk_acknowledge_never now rid) db = snd (acknowledge_never_started_terminal_writer now rid db)"
| "backend_step (Bk_cancel_run now ok task rid uid) db = snd (cancel_run now ok task rid uid db)"
| "backend_step (Bk_reap cfg env now) db = snd (reap_stale_runs cfg env now db)"

fun backend_good :: "'z chat_db_scheme backend_event \<Rightarrow> bool" where
  "backend_good (Bk_journal e) = journal_good e"
| "backend_good _ = True"

lemma safe_step_backend: "backend_good e \<Longrightarrow> safe_step db (backend_step e db)"
  by (cases e) (simp_all add: safe_step_journal sequencer_safe_steps safe_step_claim_run_execution
      safe_step_request_run_stop safe_step_acknowledge safe_step_acknowledge_never safe_step_cancel_run
      safe_step_reap)

interpretation backend: step_system backend_step backend_good chat_db_ok
  by unfold_locales (rule safe_stepD(1) [OF safe_step_backend])

section \<open>Properties across components\<close>

text \<open>
  C1. In whatever order the processes of the backend run the operations of the journal, the
  sequencer and the executor, with whatever arguments and clock values, the database stays well
  formed: run identifiers are unique, no chat has two holders of its writer slot, and the journal of
  every run is numbered 1, 2, .. without a gap. The history is only extended: the operations recorded
  before are a prefix of those recorded after, every run is still there, its operation, event and
  snapshot counters have not gone back, a terminal status is unchanged, and a writer slot once given
  up is not taken back.
\<close>

theorem backend_interleaving:
  assumes "chat_db_ok db" and "list_all backend_good es"
  shows "chat_db_ok (run_steps backend_step es db) \<and> db_le db (run_steps backend_step es db)"
proof
  show "chat_db_ok (run_steps backend_step es db)" by (rule backend.inv_run [OF assms(2,1)])
  show "db_le db (run_steps backend_step es db)"
    by (rule backend.chain_run [of db_le, OF _ _ _ assms(2,1)])
       (auto intro: safe_stepD(2) safe_step_backend db_le_trans)
qed

theorem backend_interleaving_witness:
  "chat_db_ok (run_steps backend_step
      [Bk_journal (Ev_complete 4000000 ''r1'' ''w1'' Run_completed None None None None None),
       Bk_cancel_run 4500000 True None ''r1'' ''u1'',
       Bk_accept 4600000 ''r2'' ''mu'' ''ma'' ''c1'' ''u1'' [104] [] None None] sample_db)"
  using backend_interleaving [OF sample_db_ok, of
      "[Bk_journal (Ev_complete 4000000 ''r1'' ''w1'' Run_completed None None None None None),
        Bk_cancel_run 4500000 True None ''r1'' ''u1'',
        Bk_accept 4600000 ''r2'' ''mu'' ''ma'' ''c1'' ''u1'' [104] [] None None]"]
  by simp

lemma complete_trace:
  assumes ok: "chat_db_ok db" and eff: "effect_ok eff"
    and c: "complete now rid owner st usage reason off eff com db = (Inr True, d)"
  shows "chat_db_ok d \<and> db_le db d \<and> (\<exists>row. find_run rid d = Some row \<and> run_writer_slot row = None)"
proof (cases "locked_owned_run now rid owner db")
  case (Inr row)
  note row = locked_owned_run_InrD [OF Inr]
  define row1 where "row1 = complete_row now st usage reason off row"
  define db1 where "db1 = put_run row1 db"
  have id: "run_id row1 = rid" using find_run_SomeD row by (auto simp: row1_def complete_row_def)
  have r1: "find_run rid db1 = Some row1" "run_writer_slot row1 = None"
    using find_run_put_run [of rid db row row1 rid] row id by (simp_all add: db1_def row1_def complete_row_def)
  obtain d2 d3 ty ph sf pl where d: "run_effect eff db1 = Some d2" "append_committed rid owner com d2 = Some d3"
      "append_by_id rid owner ty ph sf pl d3 = Some d"
    using c unfolding complete_def Inr sum.case row1_def [symmetric] db1_def [symmetric]
    by (auto simp del: status_sets simp: Option.bind_eq_Some_conv split: option.splits if_splits)
  have s: "safe_step db1 d"
    using safe_step_trans [OF effect_okD [OF eff d(1)] safe_step_trans [OF safe_step_append_committed [OF d(2)] safe_step_append_by_id [OF d(3)]]] .
  have all: "safe_step db d" using safe_step_complete [OF eff, of db now rid owner st usage reason off com] c by simp
  have ok1: "chat_db_ok db1"
    using chat_db_ok_put_run [OF ok, of rid row row1] row id by (auto simp: db1_def row1_def complete_row_def slot_safe_def)
  obtain row2 where "find_run rid d = Some row2" "run_le row1 row2" using db_leD [OF safe_stepD(2) [OF s ok1] r1(1)] by blast
  then show ?thesis using safe_stepD [OF all ok] r1(2) by (auto simp: run_le_def slot_safe_def)
qed (use c in \<open>auto simp: complete_def split: if_splits\<close>)

text \<open>
  C6. When the worker of the running turn has completed it in the journal, the chat accepts its owner's next turn, unless the
  same transaction has started a successor: the completion gives the writer slot back before the caller's effect runs, and only a run that
  this effect itself has created can hold the slot afterwards. Such a successor is named in the refusal.
\<close>

theorem next_turn_after_completion:
  assumes "chat_db_ok db" and "find_run rid db = Some row" and "run_writer_slot row = Some MAIN_WRITER_SLOT" and "effect_ok eff"
    and "complete now rid owner st usage reason off eff com db = (Inr True, d)"
    and "find_session (run_chat_id row) d = Some s" and "sess_user_id s = uid"
    and "find_run rid' d = None" and "find_message um d = None" and "find_message am d = None" and "um \<noteq> am"
  shows "(\<exists>run db'. accept_main_run now' rid' um am (run_chat_id row) uid content rp model extra d = (Inr run, db') \<and> run_id run = rid')
    \<or> (\<exists>next\<in>set (runs d). find_run (run_id next) db = None \<and> run_chat_id next = run_chat_id row
         \<and> run_writer_slot next = Some MAIN_WRITER_SLOT
         \<and> accept_main_run now' rid' um am (run_chat_id row) uid content rp model extra d =
             (Inl (ChatBusyError (run_id next) (run_message_id next) (run_status next)), d))"
proof (cases "slot_taken (run_chat_id row) MAIN_WRITER_SLOT d")
  case False
  then show ?thesis using free_slot_admits [OF assms(6,7) False assms(8-11), of now' content rp model extra] by auto
next
  case True
  then obtain z' where z': "z' \<in> set (runs d)" "run_chat_id z' = run_chat_id row" "run_writer_slot z' = Some MAIN_WRITER_SLOT"
    by (auto simp: slot_taken_def)
  obtain row2 where ok: "chat_db_ok d" and le: "db_le db d" and r2: "find_run rid d = Some row2" "run_writer_slot row2 = None"
    using complete_trace [OF assms(1,4,5)] by blast
  have fz: "find_run (run_id z') d = Some z'" using find_run_unique [OF ok z'(1)] by simp
  have "find_run (run_id z') db = None"
  proof (rule ccontr)
    assume "find_run (run_id z') db \<noteq> None"
    then obtain z where z: "find_run (run_id z') db = Some z" by blast
    then have "run_le z z'" using db_leD [OF le] fz by fastforce
    then have "run_chat_id z = run_chat_id row" "run_writer_slot z = Some MAIN_WRITER_SLOT"
      using z' by (auto simp: run_le_def slot_safe_def)
    then have "[z] = [row]"
      using slot_holder_unique [OF assms(1), of z "run_chat_id row"] slot_holder_unique [OF assms(1), of row "run_chat_id row"]
        find_run_SomeD [OF z] find_run_SomeD [OF assms(2)] assms(3) by metis
    then have "run_id z' = rid" using find_run_SomeD [OF z] find_run_SomeD [OF assms(2)] by simp
    then show False using fz r2 z'(3) by simp
  qed
  then show ?thesis using main_run_busy [OF ok z' assms(6,7)] z' by blast
qed

definition successor_effect :: "chat_db commit_effect" where
  "successor_effect = Some (insert_run (main_run_row ''r3'' ''c1'' ''u1'' ''mb'' ''mv'' 3 4 [] 1000000))"

lemma successor_effect_ok: "effect_ok successor_effect"
  by (auto simp: effect_ok_def run_effect_def successor_effect_def main_run_row_def intro: safe_step_insert_run)

definition completed_with :: "chat_db commit_effect \<Rightarrow> chat_db" where
  "completed_with eff = snd (complete 1000000 ''r1'' ''w1'' Run_completed None None None eff None sample_db)"

theorem next_turn_after_completion_witness:
  "(\<exists>run db'. accept_main_run 2000000 ''r2'' ''mu'' ''ma'' ''c1'' ''u1'' [104] [] None None (completed_with None) = (Inr run, db'))
   \<and> (\<exists>next\<in>set (runs (completed_with successor_effect)). find_run (run_id next) sample_db = None
        \<and> accept_main_run 2000000 ''r2'' ''mu'' ''ma'' ''c1'' ''u1'' [104] [] None None (completed_with successor_effect) =
            (Inl (ChatBusyError (run_id next) (run_message_id next) (run_status next)), completed_with successor_effect))"
proof -
  have row: "run_writer_slot sample_run = Some MAIN_WRITER_SLOT" "run_chat_id sample_run = ''c1''" by code_simp+
  have either: "(\<exists>run db'. accept_main_run 2000000 ''r2'' ''mu'' ''ma'' ''c1'' ''u1'' [104] [] None None (completed_with eff) = (Inr run, db') \<and> run_id run = ''r2'')
      \<or> (\<exists>next\<in>set (runs (completed_with eff)). find_run (run_id next) sample_db = None
           \<and> accept_main_run 2000000 ''r2'' ''mu'' ''ma'' ''c1'' ''u1'' [104] [] None None (completed_with eff) =
               (Inl (ChatBusyError (run_id next) (run_message_id next) (run_status next)), completed_with eff))"
    if ok: "effect_ok eff" and c: "fst (complete 1000000 ''r1'' ''w1'' Run_completed None None None eff None sample_db) = Inr True"
      and s: "map_option sess_user_id (find_session ''c1'' (completed_with eff)) = Some ''u1''"
      and new: "find_run ''r2'' (completed_with eff) = None" "find_message ''mu'' (completed_with eff) = None"
        "find_message ''ma'' (completed_with eff) = None" for eff
  proof -
    obtain x where x: "find_session ''c1'' (completed_with eff) = Some x" "sess_user_id x = ''u1''" using s by blast
    have "complete 1000000 ''r1'' ''w1'' Run_completed None None None eff None sample_db = (Inr True, completed_with eff)"
      using c by (simp add: completed_with_def prod_eq_iff)
    from next_turn_after_completion [OF sample_db_ok find_sample_run row(1) ok this, unfolded row(2), OF x new,
        of 2000000 "[104]" "[]" None None] show ?thesis by auto
  qed
  have 1: "fst (complete 1000000 ''r1'' ''w1'' Run_completed None None None None None sample_db) = Inr True"
    "map_option sess_user_id (find_session ''c1'' (completed_with None)) = Some ''u1''" "Option.is_none (find_run ''r2'' (completed_with None))"
    "Option.is_none (find_message ''mu'' (completed_with None))" "Option.is_none (find_message ''ma'' (completed_with None))"
    "map run_id (runs (completed_with None)) = [''r1'']" "\<not> Option.is_none (find_run ''r1'' sample_db)" by code_simp+
  have old: "run_id n = ''r1''" if "n \<in> set (runs (completed_with None))" for n using 1(6) that by auto
  have 2: "fst (complete 1000000 ''r1'' ''w1'' Run_completed None None None successor_effect None sample_db) = Inr True"
    "map_option sess_user_id (find_session ''c1'' (completed_with successor_effect)) = Some ''u1''"
    "Option.is_none (find_run ''r2'' (completed_with successor_effect))" "Option.is_none (find_message ''mu'' (completed_with successor_effect))"
    "Option.is_none (find_message ''ma'' (completed_with successor_effect))"
    "list_ex (\<lambda>r. run_chat_id r = ''c1'' \<and> run_writer_slot r = Some MAIN_WRITER_SLOT) (runs (completed_with successor_effect))"
    by code_simp+
  then obtain z x where z: "z \<in> set (runs (completed_with successor_effect))" "run_chat_id z = ''c1''" "run_writer_slot z = Some MAIN_WRITER_SLOT"
    and x: "find_session ''c1'' (completed_with successor_effect) = Some x" "sess_user_id x = ''u1''" by (auto simp: list_ex_iff)
  have "chat_db_ok (completed_with successor_effect)"
    unfolding completed_with_def by (rule safe_stepD(1) [OF safe_step_complete [OF successor_effect_ok] sample_db_ok])
  from main_run_busy [OF this z x, of 2000000 "''r2''" "''mu''" "''ma''" "[104]" "[]" None None]
  show ?thesis using either [OF effect_ok_None 1(1,2)] either [OF successor_effect_ok 2(1,2)] 1(3-5,7) 2(3-5) old
    by (auto simp: Option.is_none_def)
qed

end
